(* ===== verification/Prelude.thy ===== *)
theory Prelude
  imports Main "HOL-Library.Word" "HOL-Library.Monad_Syntax"
begin

text \<open>
  Shared ground of the development: names for the machine integers of the simulator, the
  abort discipline, and the generic facts on options, lists and words that the components use.

  \<^item> \<open>u32\<close>, \<open>u64\<close> are \<^verbatim>\<open>uint32_t\<close> and \<^verbatim>\<open>uint64_t\<close>; an \<open>addr\<close> is the
    \<^verbatim>\<open>Address\<close> of \<^verbatim>\<open>memory_hierarchy.h\<close>.
  \<^item> \<^verbatim>\<open>assert\<close>, \<^verbatim>\<open>assert_msg\<close> and \<^verbatim>\<open>panic\<close> of \<^verbatim>\<open>log.h\<close> end the simulator
    (opt and debug builds). A method that may do so returns an \<open>option\<close>, and \<open>None\<close> is the abort:
    \<open>assert_that c\<close> continues iff \<open>c\<close> holds and \<open>panic\<close> never continues.
  \<^item> Identifiers that only index arrays (line, child, core identifiers) and cycle counts are
    \<open>nat\<close>; where the code narrows, masks or multiplies them the width is written out.
\<close>

unbundle bit_operations_syntax

type_synonym u32 = "32 word"
type_synonym u64 = "64 word"
type_synonym addr = "64 word"
type_synonym cycle = nat

definition assert_that :: "bool \<Rightarrow> unit option" where
  "assert_that c = (if c then Some () else None)"

definition panic :: "'a option" where
  "panic = None"

text \<open>Simplification sets: \<open>abort_simps\<close> opens the abort discipline, \<open>list_simps\<close> holds the facts on
  updated arrays, \<open>word_bounds\<close> the size facts on masked words.\<close>

named_theorems abort_simps \<open>unfolding of assertions and panics\<close>
named_theorems list_simps \<open>facts on updated arrays\<close>
named_theorems word_bounds \<open>bounds on masked and shifted words\<close>

subsection \<open>Aborts\<close>

lemma assert_that_simps [simp]:
  "assert_that True = Some ()" "assert_that False = None"
  by (simp_all add: assert_that_def)

lemma assert_that_eq_Some [simp]: "assert_that c = Some u \<longleftrightarrow> c"
  by (simp add: assert_that_def)

lemma assert_that_eq_None [simp]: "assert_that c = None \<longleftrightarrow> \<not> c"
  by (simp add: assert_that_def)

lemma bind_assert_that [abort_simps]:
  "Option.bind (assert_that c) f = (if c then f () else None)"
  by (simp add: assert_that_def)

lemma bind_panic [simp]: "Option.bind panic f = None" "panic \<noteq> Some x" "panic = None"
  by (simp_all add: panic_def)

lemmas bind_Some_conv [abort_simps] = Option.bind_eq_Some_conv

lemma bind_if_distrib [abort_simps]:
  "Option.bind (if c then a else b) f = (if c then Option.bind a f else Option.bind b f)"
  by simp

subsection \<open>Arrays as lists\<close>

lemma nth_list_update_if [list_simps]:
  "i < length xs \<Longrightarrow> xs[j := v] ! i = (if i = j then v else xs ! i)"
  by (simp add: nth_list_update)

lemma sum_list_update_eq [list_simps]:
  fixes xs :: "nat list"
  assumes "i < length xs"
  shows "sum_list (xs[i := v]) + xs ! i = sum_list xs + v"
  using assms
proof (induction xs arbitrary: i)
  case (Cons x xs)
  then show ?case by (cases i) auto
qed simp

text \<open>Bit vectors (\<^verbatim>\<open>std::bitset\<close>) are lists of booleans; \<open>count_list bs True\<close> is their population.\<close>

lemma count_true_update [list_simps]:
  assumes "i < length bs"
  shows "count_list (bs[i := v]) True + (if bs ! i then 1 else 0)
         = count_list bs True + (if v then 1 else 0)"
  using assms
proof (induction bs arbitrary: i)
  case (Cons b bs)
  show ?case
  proof (cases i)
    case (Suc j)
    with Cons.IH [of j] Cons.prems show ?thesis by (auto split: if_splits)
  qed auto
qed simp

lemma count_true_set:
  assumes "i < length bs" "\<not> bs ! i"
  shows "count_list (bs[i := True]) True = Suc (count_list bs True)"
  using count_true_update [OF assms(1), of True] assms(2) by simp

lemma count_true_clear:
  assumes "i < length bs" "bs ! i"
  shows "Suc (count_list (bs[i := False]) True) = count_list bs True"
  using count_true_update [OF assms(1), of False] assms(2) by simp

lemma count_true_replicate_False [simp]: "count_list (replicate n False) True = 0"
  by (induction n) auto

lemma count_true_0: "count_list bs True = 0 \<longleftrightarrow> (\<forall>i < length bs. \<not> bs ! i)"
  by (auto simp: count_list_0_iff in_set_conv_nth)

lemma count_true_one:
  assumes "count_list bs True = 1" "i < length bs" "j < length bs" "bs ! i" "bs ! j"
  shows "i = j"
proof (rule ccontr)
  assume "i \<noteq> j"
  have "count_list (bs[i := False]) True = 0"
    using count_true_clear [OF assms(2,4)] assms(1) by simp
  then have "\<not> bs[i := False] ! j"
    using \<open>j < length bs\<close> by (metis count_true_0 length_list_update)
  then show False using \<open>i \<noteq> j\<close> \<open>bs ! j\<close> by simp
qed

subsection \<open>Words\<close>

lemma unat_and_le2 [word_bounds]: "unat (x AND y :: 'a::len word) \<le> unat y"
  by (meson word_and_le1 word_le_nat_alt)

lemma unat_and_le1 [word_bounds]: "unat (x AND y :: 'a::len word) \<le> unat x"
  by (meson word_and_le2 word_le_nat_alt)

lemma and_mask_minus_one:
  fixes x :: "'a::len word"
  assumes "k < LENGTH('a)"
  shows "x AND (2 ^ k - 1) = take_bit k x"
proof -
  have "(2 ^ k - 1 :: 'a word) = mask k" by (simp add: mask_eq_decr_exp)
  then show ?thesis by (simp add: take_bit_eq_mask)
qed

lemma unat_and_mask_minus_one [word_bounds]:
  fixes x :: "'a::len word"
  assumes "k < LENGTH('a)"
  shows "unat (x AND (2 ^ k - 1)) = unat x mod 2 ^ k"
proof -
  have "unat (take_bit k x) = take_bit k (unat x)" by (rule unsigned_take_bit_eq)
  then show ?thesis by (simp add: and_mask_minus_one [OF assms] take_bit_eq_mod [of k "unat x"])
qed

end
