(* ===== verification/MTRand.thy ===== *)
theory MTRand
  imports Prelude
begin

text \<open>
  The pseudo-random generator of \<^verbatim>\<open>src/src/mtrand.h\<close>: a Mersenne twister whose state words are
  kept in 64-bit integers. \<open>pNext\<close> is the index of the next word to read. The bounded draw
  \<^verbatim>\<open>randInt(n)\<close> rejects values above \<open>n\<close> in a loop; the loop is a partial function, so a run that
  never accepts is \<open>None\<close>.
\<close>

record MTRand =
  mt_state :: "u64 list"
  pNext :: nat
  left :: nat

definition mtN :: nat where "mtN = 624"
definition mtM :: nat where "mtM = 397"

definition hiBit :: "u64 \<Rightarrow> u64" where "hiBit u = u AND 0x80000000"
definition loBit :: "u64 \<Rightarrow> u64" where "loBit u = u AND 0x00000001"
definition loBits :: "u64 \<Rightarrow> u64" where "loBits u = u AND 0x7fffffff"
definition mixBits :: "u64 \<Rightarrow> u64 \<Rightarrow> u64" where "mixBits u v = hiBit u OR loBits v"
definition magic :: "u64 \<Rightarrow> u64" where "magic u = (if loBit u \<noteq> 0 then 0x9908b0df else 0x0)"
definition twist :: "u64 \<Rightarrow> u64 \<Rightarrow> u64 \<Rightarrow> u64" where
  "twist m s0 s1 = m XOR drop_bit 1 (mixBits s0 s1) XOR magic s1"

text \<open>\<open>mt_init_words i n r\<close>: the words \<open>i\<close>, \dots, \<open>i + n - 1\<close> of the seeded state, \<open>r\<close> the word before.\<close>

fun mt_init_words :: "nat \<Rightarrow> nat \<Rightarrow> u64 \<Rightarrow> u64 list" where
  "mt_init_words i 0 r = []"
| "mt_init_words i (Suc n) r =
     (let w = (1812433253 * (r XOR drop_bit 30 r) + of_nat i) AND 0xffffffff
      in w # mt_init_words (Suc i) n w)"

definition mt_initialize :: "u64 \<Rightarrow> u64 list" where
  "mt_initialize seed = (let w = seed AND 0xffffffff in w # mt_init_words 1 (mtN - 1) w)"

text \<open>The three stretches of \<^verbatim>\<open>reload\<close>: word \<open>p\<close> is combined with the word \<open>M\<close> ahead, then with the
  (already new) word \<open>N - M\<close> behind, and the last word wraps round to word 0.\<close>

fun mt_reload_from :: "nat \<Rightarrow> nat \<Rightarrow> u64 list \<Rightarrow> u64 list" where
  "mt_reload_from 0 p st = st"
| "mt_reload_from (Suc k) p st =
     mt_reload_from k (Suc p)
       (st[p := (if p < mtN - mtM then twist (st ! (p + mtM)) (st ! p) (st ! (p + 1))
                 else if p < mtN - 1 then twist (st ! (p - (mtN - mtM))) (st ! p) (st ! (p + 1))
                 else twist (st ! (p - (mtN - mtM))) (st ! p) (st ! 0))])"

definition mt_reload :: "MTRand \<Rightarrow> MTRand" where
  "mt_reload g = \<lparr>mt_state = mt_reload_from mtN 0 (mt_state g), pNext = 0, left = mtN\<rparr>"

definition mt_seed :: "u64 \<Rightarrow> MTRand" where
  "mt_seed oneSeed = mt_reload \<lparr>mt_state = mt_initialize oneSeed, pNext = 0, left = 0\<rparr>"

definition mt_temper :: "u64 \<Rightarrow> u64" where
  "mt_temper s =
     (let s1 = s XOR drop_bit 11 s;
          s2 = s1 XOR (push_bit 7 s1 AND 0x9d2c5680);
          s3 = s2 XOR (push_bit 15 s2 AND 0xefc60000)
      in s3 XOR drop_bit 18 s3)"

definition randInt :: "MTRand \<Rightarrow> u64 \<times> MTRand" where
  "randInt g0 =
     (let g = (if left g0 = 0 then mt_reload g0 else g0)
      in (mt_temper (mt_state g ! pNext g), g\<lparr>left := left g - 1, pNext := Suc (pNext g)\<rparr>))"

definition mt_used :: "u64 \<Rightarrow> u64" where
  "mt_used n =
     (let u1 = n OR drop_bit 1 n;
          u2 = u1 OR drop_bit 2 u1;
          u3 = u2 OR drop_bit 4 u2;
          u4 = u3 OR drop_bit 8 u3
      in u4 OR drop_bit 16 u4)"

partial_function (option) randInt_loop :: "u64 \<Rightarrow> u64 \<Rightarrow> MTRand \<Rightarrow> (u64 \<times> MTRand) option" where
  "randInt_loop n used g =
     (case randInt g of (r, g') \<Rightarrow>
        (let i = r AND used in if i > n then randInt_loop n used g' else Some (i, g')))"

declare randInt_loop.simps [code]

definition randInt_n :: "u64 \<Rightarrow> MTRand \<Rightarrow> (u64 \<times> MTRand) option" where
  "randInt_n n g = randInt_loop n (mt_used n) g"

text \<open>A generator is well-formed when its words fit in 32 bits and the read index stays inside.\<close>

definition mt_wf :: "MTRand \<Rightarrow> bool" where
  "mt_wf g \<longleftrightarrow> length (mt_state g) = mtN \<and> (\<forall>w \<in> set (mt_state g). w < 2 ^ 32)
     \<and> left g \<le> mtN \<and> (left g > 0 \<longrightarrow> pNext g + left g = mtN)"

subsection \<open>32-bit words inside 64-bit integers\<close>

definition fits32 :: "u64 \<Rightarrow> bool" where "fits32 w \<longleftrightarrow> w < 2 ^ 32"

lemma fits32_take_bit: "fits32 w \<longleftrightarrow> take_bit 32 w = w"
proof -
  have "take_bit 32 w = w \<longleftrightarrow> unat (take_bit 32 w) = unat w" by (simp add: word_unat_eq_iff)
  also have "\<dots> \<longleftrightarrow> take_bit 32 (unat w) = unat w" by (simp only: unsigned_take_bit_eq)
  also have "\<dots> \<longleftrightarrow> unat w < 2 ^ 32" by (rule take_bit_nat_eq_self_iff)
  finally show ?thesis by (simp add: fits32_def word_less_nat_alt)
qed

lemma fits32_xor: "fits32 a \<Longrightarrow> fits32 b \<Longrightarrow> fits32 (a XOR b)"
  by (simp add: fits32_take_bit take_bit_xor)

lemma fits32_or: "fits32 a \<Longrightarrow> fits32 b \<Longrightarrow> fits32 (a OR b)"
  by (simp add: fits32_take_bit take_bit_or)

lemma fits32_and1: "fits32 a \<Longrightarrow> fits32 (a AND b)"
  unfolding fits32_def by (meson le_less_trans word_and_le2)

lemma fits32_and2: "fits32 b \<Longrightarrow> fits32 (a AND b)"
  unfolding fits32_def by (meson le_less_trans word_and_le1)

lemma fits32_drop_bit: "fits32 a \<Longrightarrow> fits32 (drop_bit n a)"
proof -
  assume "fits32 a"
  then have "unat a < 2 ^ 32" by (simp add: fits32_def word_less_nat_alt)
  moreover have "unat (drop_bit n a) \<le> unat a"
  proof -
    have "unat (drop_bit n a) = drop_bit n (take_bit 64 (unat a))"
      by (simp add: unsigned_drop_bit_eq)
    also have "\<dots> \<le> take_bit 64 (unat a)"
      by (simp only: drop_bit_eq_div div_le_dividend)
    also have "\<dots> \<le> unat a" by (rule take_bit_nat_less_eq_self)
    finally show ?thesis .
  qed
  ultimately show ?thesis by (simp add: fits32_def word_less_nat_alt)
qed

lemma fits32_consts:
  "fits32 0x80000000" "fits32 0x7fffffff" "fits32 0x9908b0df" "fits32 0" "fits32 0xffffffff"
  "fits32 0x9d2c5680" "fits32 0xefc60000"
  by (simp_all add: fits32_def)

lemmas fits32_intros = fits32_xor fits32_or fits32_drop_bit fits32_consts

lemma fits32_twist: "fits32 m \<Longrightarrow> fits32 (twist m a b)"
proof -
  have "fits32 (mixBits a b)" unfolding mixBits_def hiBit_def loBits_def
    by (rule fits32_or; rule fits32_and2; rule fits32_consts)
  moreover have "fits32 (magic b)" by (simp add: magic_def fits32_consts)
  moreover assume "fits32 m"
  ultimately show ?thesis unfolding twist_def by (intro fits32_xor fits32_drop_bit)
qed

lemma fits32_temper: "fits32 s \<Longrightarrow> fits32 (mt_temper s)"
  unfolding mt_temper_def Let_def
  by (intro fits32_intros fits32_and2) auto

subsection \<open>The generator keeps its shape\<close>

lemma mt_init_words_wf:
  "length (mt_init_words i n r) = n \<and> (\<forall>w \<in> set (mt_init_words i n r). fits32 w)"
  by (induction i n r rule: mt_init_words.induct)
     (auto simp: Let_def intro: fits32_and2 fits32_consts)

lemma mt_initialize_wf:
  "length (mt_initialize s) = mtN" "w \<in> set (mt_initialize s) \<Longrightarrow> fits32 w"
  using mt_init_words_wf [of 1 "mtN - 1" "s AND 0xffffffff"]
  by (auto simp: mt_initialize_def Let_def mtN_def intro: fits32_and2 fits32_consts)

lemma mt_reload_from_wf:
  assumes "length st = mtN" "\<forall>w \<in> set st. fits32 w" "p + k \<le> mtN"
  shows "length (mt_reload_from k p st) = mtN \<and> (\<forall>w \<in> set (mt_reload_from k p st). fits32 w)"
  using assms
proof (induction k p st rule: mt_reload_from.induct)
  case (2 k p st)
  define v where "v = (if p < mtN - mtM then twist (st ! (p + mtM)) (st ! p) (st ! (p + 1))
      else if p < mtN - 1 then twist (st ! (p - (mtN - mtM))) (st ! p) (st ! (p + 1))
      else twist (st ! (p - (mtN - mtM))) (st ! p) (st ! 0))"
  have st: "fits32 (st ! q)" if "q < mtN" for q
    using that "2.prems"(1,2) by (metis nth_mem)
  have p: "p < mtN" using "2.prems"(3) by simp
  then have "fits32 v"
    unfolding v_def by (auto intro!: fits32_twist st)
  then have "\<forall>w \<in> set (st[p := v]). fits32 w"
    using "2.prems"(2) set_update_subset_insert [of st p v] by blast
  then have "length (mt_reload_from k (Suc p) (st[p := v])) = mtN
      \<and> (\<forall>w \<in> set (mt_reload_from k (Suc p) (st[p := v])). fits32 w)"
    using "2.IH" "2.prems" unfolding v_def by simp
  then show ?case unfolding mt_reload_from.simps v_def .
qed simp

lemma mt_wf_alt: "mt_wf g \<longleftrightarrow> length (mt_state g) = mtN \<and> (\<forall>w \<in> set (mt_state g). fits32 w)
     \<and> left g \<le> mtN \<and> (left g > 0 \<longrightarrow> pNext g + left g = mtN)"
  by (simp add: mt_wf_def fits32_def)

lemma mt_reload_wf:
  assumes "length (mt_state g) = mtN" "\<forall>w \<in> set (mt_state g). fits32 w"
  shows "mt_wf (mt_reload g)" "left (mt_reload g) = mtN" "pNext (mt_reload g) = 0"
  using mt_reload_from_wf [OF assms, of 0 mtN] by (auto simp: mt_wf_alt mt_reload_def)

lemma mt_seed_wf: "mt_wf (mt_seed s)"
  unfolding mt_seed_def by (rule mt_reload_wf) (auto simp: mt_initialize_wf)

lemma randInt_wf:
  assumes "mt_wf g"
  shows "mt_wf (snd (randInt g))" "fits32 (fst (randInt g))"
proof -
  define g1 where "g1 = (if left g = 0 then mt_reload g else g)"
  have g1: "mt_wf g1" "left g1 > 0"
    using assms mt_reload_wf [of g] by (auto simp: g1_def mt_wf_alt mtN_def)
  then have "pNext g1 < mtN" by (auto simp: mt_wf_alt)
  with g1 have "fits32 (mt_state g1 ! pNext g1)" by (metis mt_wf_alt nth_mem)
  then show "fits32 (fst (randInt g))"
    by (simp add: randInt_def Let_def g1_def [symmetric] fits32_temper)
  show "mt_wf (snd (randInt g))"
    using g1 by (auto simp: randInt_def Let_def g1_def [symmetric] mt_wf_alt)
qed

lemma randInt_loop_result:
  assumes "randInt_loop n used g = Some r" "mt_wf g"
  shows "fst r \<le> n \<and> fst r \<le> used \<and> mt_wf (snd r)"
proof -
  have "mt_wf g \<longrightarrow> fst r \<le> n \<and> fst r \<le> used \<and> mt_wf (snd r)"
  proof (rule randInt_loop.raw_induct
      [where P = "\<lambda>n u g r. mt_wf g \<longrightarrow> fst r \<le> n \<and> fst r \<le> u \<and> mt_wf (snd r)", OF _ assms(1)])
    fix f n u g r
    assume IH: "\<And>n u g r. f n u g = Some r \<Longrightarrow>
        mt_wf g \<longrightarrow> fst r \<le> n \<and> fst r \<le> u \<and> mt_wf (snd r)"
      and eq: "(case randInt g of (r, g') \<Rightarrow>
        (let i = r AND u in if i > n then f n u g' else Some (i, g'))) = Some r"
    show "mt_wf g \<longrightarrow> fst r \<le> n \<and> fst r \<le> u \<and> mt_wf (snd r)"
      using eq IH randInt_wf [of g]
      by (auto simp: Let_def word_and_le1 split: prod.splits if_splits)
  qed
  with assms(2) show ?thesis by blast
qed

text \<open>The mask loses nothing when \<open>n\<close> is one less than a power of two, so the first draw is accepted.\<close>

lemma randInt_loop_first:
  assumes "used \<le> n"
  shows "randInt_loop n used g = Some (fst (randInt g) AND used, snd (randInt g))"
proof -
  have "\<not> n < fst (randInt g) AND used"
    by (meson assms le_less_trans leD word_and_le1)
  then show ?thesis
    by (cases "randInt g", subst randInt_loop.simps) (simp add: Let_def)
qed

lemma mt_used_mask: "k \<le> 32 \<Longrightarrow> mt_used (mask k) = mask k"
proof (rule bit_word_eqI)
  fix n assume k: "k \<le> 32" and n: "n < LENGTH(64)"
  show "bit (mt_used (mask k)) n \<longleftrightarrow> bit (mask k :: u64) n"
    using n by (auto simp: mt_used_def Let_def bit_simps)
qed

text \<open>a draw in a bounded range returns a value of the range and keeps the generator
  well-formed; when the range is a power of two it always returns, at the first draw.\<close>

lemma randInt_n_bounds:
  assumes "mt_wf g"
  shows "(\<forall>i g'. randInt_n n g = Some (i, g') \<longrightarrow> i \<le> n \<and> mt_wf g')
    \<and> (k \<le> 32 \<longrightarrow> (\<exists>i g'. randInt_n (mask k) g = Some (i, g') \<and> i \<le> mask k))"
proof (intro conjI allI impI)
  fix i g' assume "randInt_n n g = Some (i, g')"
  then have "i \<le> n \<and> mt_wf g'"
    using randInt_loop_result [of n "mt_used n" g "(i, g')"] assms by (simp add: randInt_n_def)
  then show "i \<le> n" "mt_wf g'" by auto
next
  assume "k \<le> 32"
  have "randInt_n (mask k) g = Some (fst (randInt g) AND mask k, snd (randInt g))"
    unfolding randInt_n_def mt_used_mask [OF \<open>k \<le> 32\<close>] by (rule randInt_loop_first) simp
  then show "\<exists>i g'. randInt_n (mask k) g = Some (i, g') \<and> i \<le> mask k"
    by (auto simp: word_and_le1)
qed

end
