(* ===== verification/Hash.thy ===== *)
theory Hash
  imports MTRand
begin

text \<open>
  The hash families of \<^verbatim>\<open>src/src/hash.h\<close> and \<^verbatim>\<open>hash.cpp\<close>: H3 (a matrix of random words folded
  with rotations, eight rows per loop turn), the Feistel network used by the randomised caches, and
  the identity. What the cache arrays rely on is that a hash is a function of the address and that it
  returns.
\<close>

subsection \<open>H3\<close>

record H3HashFamily =
  numFuncs :: nat
  resShift :: nat
  hMatrix :: "u64 list"

definition rotl64 :: "nat \<Rightarrow> u64 \<Rightarrow> u64" where
  "rotl64 n w = push_bit n w OR drop_bit (64 - n) w"

text \<open>One matrix word: 64 draws, the low bit of the word set when the draw is even.\<close>

fun h3_word :: "nat \<Rightarrow> u64 \<Rightarrow> MTRand \<Rightarrow> u64 \<times> MTRand" where
  "h3_word 0 val g = (val, g)"
| "h3_word (Suc k) val g =
     (case randInt g of (r, g') \<Rightarrow>
        h3_word k (if r mod 2 = 0 then push_bit 1 val + 1 else push_bit 1 val) g')"

fun h3_words :: "nat \<Rightarrow> MTRand \<Rightarrow> u64 list" where
  "h3_words 0 g = []"
| "h3_words (Suc n) g = (case h3_word 64 0 g of (w, g') \<Rightarrow> w # h3_words n g')"

definition h3_resShift :: "nat \<Rightarrow> nat option" where
  "h3_resShift outputBits =
     (if outputBits \<le> 8 then Some 3
      else if outputBits \<le> 16 then Some 2
      else if outputBits \<le> 32 then Some 1
      else if outputBits \<le> 64 then Some 0
      else panic)"

definition H3HashFamily_new :: "nat \<Rightarrow> nat \<Rightarrow> u64 \<Rightarrow> H3HashFamily option" where
  "H3HashFamily_new numFunctions outputBits randSeed = do {
     rs \<leftarrow> h3_resShift outputBits;
     let words = drop_bit rs (64 :: nat);
     Some \<lparr>numFuncs = numFunctions, resShift = rs,
           hMatrix = h3_words (words * numFunctions) (mt_seed randSeed)\<rparr> }"

text \<open>One turn of the 8-way unrolled loop, and the loop over \<open>x = 0, 8, \<dots>\<close>.\<close>

definition h3_turn :: "u64 list \<Rightarrow> u64 \<Rightarrow> nat \<Rightarrow> u64 \<Rightarrow> u64" where
  "h3_turn hm val base res =
     (let res0 = val AND hm ! base;
          res1 = val AND hm ! (base + 1);
          res2 = val AND hm ! (base + 2);
          res3 = val AND hm ! (base + 3);
          res4 = val AND hm ! (base + 4);
          res5 = val AND hm ! (base + 5);
          res6 = val AND hm ! (base + 6);
          res7 = val AND hm ! (base + 7);
          r1 = res XOR (res0 XOR (push_bit 1 res1 OR drop_bit 63 res1)
                 XOR (push_bit 2 res2 OR drop_bit 62 res2) XOR (push_bit 3 res3 OR drop_bit 61 res3));
          r2 = r1 XOR ((push_bit 4 res4 OR drop_bit 60 res4) XOR (push_bit 5 res5 OR drop_bit 59 res5)
                 XOR (push_bit 6 res6 OR drop_bit 58 res6) XOR (push_bit 7 res7 OR drop_bit 57 res7))
      in push_bit 8 r2 OR drop_bit 56 r2)"

fun h3_loop :: "u64 list \<Rightarrow> u64 \<Rightarrow> nat \<Rightarrow> nat \<Rightarrow> u64 \<Rightarrow> u64" where
  "h3_loop hm val base 0 res = res"
| "h3_loop hm val base (Suc n) res = h3_loop hm val (base + 8) n (h3_turn hm val base res)"

definition h3_fold :: "nat \<Rightarrow> u64 \<Rightarrow> u64" where
  "h3_fold rs res =
     (if rs = 0 then res
      else if rs = 1 then drop_bit 32 res XOR res
      else if rs = 2 then
        (let r = drop_bit 32 res XOR res in drop_bit 16 r XOR r)
      else if rs = 3 then
        (let r = drop_bit 32 res XOR res; r' = drop_bit 16 r XOR r in drop_bit 8 r' XOR r')
      else res)"

definition H3_hash :: "H3HashFamily \<Rightarrow> nat \<Rightarrow> u64 \<Rightarrow> u64 option" where
  "H3_hash h fid val = do {
     assert_that (fid < numFuncs h);
     let maxBits = drop_bit (resShift h) (64 :: nat);
     let res = h3_loop (hMatrix h) val (push_bit (6 - resShift h) fid) (maxBits div 8) 0;
     Some (h3_fold (resShift h) res) }"

text \<open>The simpler code that the comment above \<^verbatim>\<open>H3HashFamily::hash\<close> gives for reference, one row per
  turn.\<close>

fun h3_simple :: "u64 list \<Rightarrow> u64 \<Rightarrow> nat \<Rightarrow> nat \<Rightarrow> u64 \<Rightarrow> u64" where
  "h3_simple hm val x 0 res = res"
| "h3_simple hm val x (Suc n) res =
     h3_simple hm val (Suc x) n (rotl64 1 (res XOR (val AND hm ! x)))"

text \<open>The reference of the unrolled loop: row \<open>x\<close> of each group of eight enters rotated left by
  \<open>x mod 8\<close>, and the accumulator turns by eight after each group.\<close>

definition h3_group :: "u64 list \<Rightarrow> u64 \<Rightarrow> nat \<Rightarrow> u64 \<Rightarrow> u64" where
  "h3_group hm val base res =
     rotl64 8 (foldl (\<lambda>acc i. acc XOR rotl64 i (val AND hm ! (base + i))) res [0..<8])"

subsection \<open>The Feistel network\<close>

record FeistelFamily =
  sMat :: "u64 list list"
  pMat :: "u64 list list"
  keys :: "u64 list"
  width :: nat

text \<open>The S and P rows of one round are drawn alternately: two draws for an S row, one for a P row.\<close>

fun feistel_rows :: "nat \<Rightarrow> MTRand \<Rightarrow> u64 list \<times> u64 list \<times> MTRand" where
  "feistel_rows 0 g = ([], [], g)"
| "feistel_rows (Suc n) g =
     (let (a, g1) = randInt g; (b, g2) = randInt g1; (c, g3) = randInt g2;
          (ss, ps, g4) = feistel_rows n g3
      in ((a OR push_bit 32 b) # ss, c # ps, g4))"

fun feistel_rounds :: "nat \<Rightarrow> MTRand \<Rightarrow> u64 list list \<times> u64 list list \<times> MTRand" where
  "feistel_rounds 0 g = ([], [], g)"
| "feistel_rounds (Suc n) g =
     (let (s, p, g1) = feistel_rows 32 g; (ss, ps, g2) = feistel_rounds n g1
      in (s # ss, p # ps, g2))"

fun feistel_keys :: "nat \<Rightarrow> MTRand \<Rightarrow> u64 list" where
  "feistel_keys 0 g = []"
| "feistel_keys (Suc n) g = (case randInt g of (r, g') \<Rightarrow> push_bit 32 r # feistel_keys n g')"

definition FeistelFamily_new :: "u64 \<Rightarrow> FeistelFamily" where
  "FeistelFamily_new seed =
     (let (ss, ps, g) = feistel_rounds 4 (mt_seed seed)
      in \<lparr>sMat = ss, pMat = ps, keys = feistel_keys 4 g, width = 64\<rparr>)"

text \<open>\<^verbatim>\<open>bitXor\<close>: the parity of the bits of \<open>val\<close> whose row bit is clear.\<close>

fun bitXor_loop :: "u64 \<Rightarrow> u64 \<Rightarrow> nat \<Rightarrow> nat \<Rightarrow> u32 \<Rightarrow> u32" where
  "bitXor_loop val row i 0 result = result"
| "bitXor_loop val row i (Suc n) result =
     (let t1 = ucast (drop_bit i val AND 0x1) :: u32;
          t2 = ucast (drop_bit i row AND 0x1) :: u32
      in bitXor_loop val row (Suc i) n (if t2 = 0 then result XOR t1 else result))"

definition bitXor :: "u64 \<Rightarrow> u64 \<Rightarrow> nat \<Rightarrow> u32 option" where
  "bitXor val row sz = do {
     let result = bitXor_loop val row 0 sz 0;
     assert_that (result - (result AND 1) = 0);
     Some result }"

text \<open>The inner loops of \<^verbatim>\<open>hash\<close>: bit \<open>j\<close> of the result is \<^verbatim>\<open>bitXor\<close> with row \<open>j\<close>; \<^verbatim>\<open>temp << j\<close> is a
  32-bit shift.\<close>

fun feistel_layer :: "u64 \<Rightarrow> u64 list \<Rightarrow> nat \<Rightarrow> nat \<Rightarrow> nat \<Rightarrow> u64 \<Rightarrow> u64 option" where
  "feistel_layer inp rows sz j 0 result = Some result"
| "feistel_layer inp rows sz j (Suc n) result = do {
     temp \<leftarrow> bitXor inp (rows ! j) sz;
     feistel_layer inp rows sz (Suc j) n (result OR ucast (push_bit j temp)) }"

text \<open>One round: (up, down) becomes (down XOR f up, up).\<close>

definition feistel_round ::
  "FeistelFamily \<Rightarrow> nat \<Rightarrow> u64 \<times> u64 \<Rightarrow> (u64 \<times> u64) option" where
  "feistel_round f i ud = (case ud of (up_input, down_input) \<Rightarrow> do {
     let f_input = up_input OR keys f ! i;
     s_result \<leftarrow> feistel_layer f_input (sMat f ! i) 64 0 (width f div 2) 0;
     assert_that (drop_bit 32 s_result = 0);
     p_result \<leftarrow> feistel_layer s_result (pMat f ! i) 32 0 (width f div 2) 0;
     assert_that (drop_bit 32 s_result = 0);
     assert_that (drop_bit 32 p_result = 0);
     assert_that (drop_bit 32 up_input = 0);
     assert_that (drop_bit 32 down_input = 0);
     Some (down_input XOR p_result, up_input) })"

definition feistel_stages :: "FeistelFamily \<Rightarrow> u64 \<Rightarrow> (u64 \<times> u64) option" where
  "feistel_stages f val = do {
     let l = drop_bit 32 val;
     let r = drop_bit 32 (push_bit 32 val);
     s1 \<leftarrow> feistel_round f 0 (l, r);
     s2 \<leftarrow> feistel_round f 1 s1;
     s3 \<leftarrow> feistel_round f 2 s2;
     feistel_round f 3 s3 }"

definition Feistel_hash :: "FeistelFamily \<Rightarrow> nat \<Rightarrow> u64 \<Rightarrow> u64 option" where
  "Feistel_hash f fid val = do { s4 \<leftarrow> feistel_stages f val; Some (fst s4) }"

subsection \<open>The identity and the interface\<close>

definition Id_hash :: "nat \<Rightarrow> u64 \<Rightarrow> u64" where
  "Id_hash fid val = val"

datatype HashFamily = HF_H3 H3HashFamily | HF_Feistel FeistelFamily | HF_Id

fun hf_hash :: "HashFamily \<Rightarrow> nat \<Rightarrow> u64 \<Rightarrow> u64 option" where
  "hf_hash (HF_H3 h) fid val = H3_hash h fid val"
| "hf_hash (HF_Feistel f) fid val = Feistel_hash f fid val"
| "hf_hash HF_Id fid val = Some (Id_hash fid val)"

text \<open>The shape a constructor gives: a hash family answers every query it may be asked.\<close>

fun hf_wf :: "nat \<Rightarrow> HashFamily \<Rightarrow> bool" where
  "hf_wf n (HF_H3 h) = (n \<le> numFuncs h)"
| "hf_wf n (HF_Feistel f) = (width f = 64)"
| "hf_wf n HF_Id = True"

subsection \<open>Rotations\<close>

lemma bit_rotl64:
  assumes "n \<le> 64" "k < 64"
  shows "bit (rotl64 n w) k \<longleftrightarrow> (if n \<le> k then bit w (k - n) else bit w (k + 64 - n))"
  using assms by (auto simp: rotl64_def bit_simps not_le add.commute dest: bit_imp_le_length)

lemma rotl64_xor: "n \<le> 64 \<Longrightarrow> rotl64 n (a XOR b) = rotl64 n a XOR rotl64 n b"
  by (rule bit_word_eqI) (simp add: bit_rotl64 bit_xor_iff)

lemma rotl64_0 [simp]: "rotl64 0 w = w"
  by (simp add: rotl64_def)

lemma and_xor_distrib_left: "(a XOR b) AND (c :: 'a::len word) = (a AND c) XOR (b AND c)"
  by (rule bit_word_eqI) (auto simp: bit_simps)

subsection \<open>H3 against its reference, and its linearity\<close>

lemma h3_turn_group: "h3_turn hm val base res = h3_group hm val base res"
proof -
  have upt: "[0..<8] = [0, 1, 2, 3, 4, 5, 6, 7 :: nat]" by (simp add: upt_rec)
  have r: "push_bit 1 w OR drop_bit 63 w = rotl64 1 w" "push_bit 2 w OR drop_bit 62 w = rotl64 2 w"
    "push_bit 3 w OR drop_bit 61 w = rotl64 3 w" "push_bit 4 w OR drop_bit 60 w = rotl64 4 w"
    "push_bit 5 w OR drop_bit 59 w = rotl64 5 w" "push_bit 6 w OR drop_bit 58 w = rotl64 6 w"
    "push_bit 7 w OR drop_bit 57 w = rotl64 7 w" "push_bit 8 w OR drop_bit 56 w = rotl64 8 w" for w
    by (simp_all add: rotl64_def)
  show ?thesis
    unfolding h3_turn_def h3_group_def upt Let_def r by (simp add: xor.assoc)
qed

lemma h3_group_xor:
  "h3_group hm (a XOR b) base (ra XOR rb) = h3_group hm a base ra XOR h3_group hm b base rb"
proof -
  have "foldl (\<lambda>acc i. acc XOR rotl64 i ((a XOR b) AND hm ! (base + i))) (ra XOR rb) xs
      = foldl (\<lambda>acc i. acc XOR rotl64 i (a AND hm ! (base + i))) ra xs
        XOR foldl (\<lambda>acc i. acc XOR rotl64 i (b AND hm ! (base + i))) rb xs"
    if "set xs \<subseteq> {..64}" for xs
    using that
  proof (induction xs arbitrary: ra rb)
    case (Cons i xs)
    have eq: "(ra XOR rb) XOR rotl64 i ((a XOR b) AND hm ! (base + i))
        = (ra XOR rotl64 i (a AND hm ! (base + i))) XOR (rb XOR rotl64 i (b AND hm ! (base + i)))"
      using Cons.prems by (simp add: and_xor_distrib_left rotl64_xor xor.assoc xor.left_commute)
    have "set xs \<subseteq> {..64}" using Cons.prems by simp
    from Cons.IH [OF this, of "ra XOR rotl64 i (a AND hm ! (base + i))"
        "rb XOR rotl64 i (b AND hm ! (base + i))"]
    show ?case by (simp only: foldl_Cons eq)
  qed simp
  moreover have "set [0..<8] \<subseteq> {..64}" by auto
  ultimately show ?thesis unfolding h3_group_def by (simp add: rotl64_xor del: upt_Suc)
qed

lemma h3_loop_xor:
  "h3_loop hm (a XOR b) base n (ra XOR rb) = h3_loop hm a base n ra XOR h3_loop hm b base n rb"
proof (induction n arbitrary: base ra rb)
  case (Suc n)
  have "h3_turn hm (a XOR b) base (ra XOR rb) = h3_turn hm a base ra XOR h3_turn hm b base rb"
    by (simp add: h3_turn_group h3_group_xor)
  then show ?case by (simp add: Suc.IH)
qed simp

lemma h3_fold_xor: "h3_fold rs (a XOR b) = h3_fold rs a XOR h3_fold rs b"
  by (simp add: h3_fold_def Let_def drop_bit_xor ac_simps)

lemma H3_hash_defined: "fid < numFuncs h \<Longrightarrow> \<exists>v. H3_hash h fid val = Some v"
  by (simp add: H3_hash_def)

subsection \<open>The Feistel network is total and reversible\<close>

lemma bitXor_loop_bit: "result \<in> {0, 1} \<Longrightarrow> bitXor_loop val row i n result \<in> {0, 1}"
proof (induction val row i n result rule: bitXor_loop.induct)
  case (2 val row i n result)
  have "drop_bit i val AND 0x1 \<in> {0, 1 :: u64}"
    by (cases "even (drop_bit i val)") (auto simp: and_one_eq mod2_eq_if)
  then have "ucast (drop_bit i val AND 0x1 :: u64) \<in> {0, 1 :: u32}" by auto
  then have "(if ucast (drop_bit i row AND 0x1 :: u64) = (0 :: u32)
      then result XOR ucast (drop_bit i val AND 0x1) else result) \<in> {0, 1 :: u32}"
    using "2.prems" by auto
  then show ?case using "2.IH" by (simp add: Let_def)
qed simp

lemma bitXor_total: "\<exists>b \<in> {0, 1}. bitXor val row sz = Some b"
  using bitXor_loop_bit [of 0 val row 0 sz] by (auto simp: bitXor_def)

lemma fits32_drop: "fits32 w \<longleftrightarrow> drop_bit 32 w = 0"
proof
  assume "fits32 w"
  then have "w = take_bit 32 w" by (simp add: fits32_take_bit)
  then have "drop_bit 32 w = drop_bit 32 (take_bit 32 w)" by simp
  also have "\<dots> = 0" by (rule bit_word_eqI) (simp add: bit_simps)
  finally show "drop_bit 32 w = 0" .
next
  assume z: "drop_bit 32 w = 0"
  have "take_bit 32 w = w"
  proof (rule bit_word_eqI)
    fix n assume "n < LENGTH(64)"
    have "bit w n \<Longrightarrow> n < 32"
    proof (rule ccontr)
      assume "bit w n" "\<not> n < 32"
      then have "bit (drop_bit 32 w) (n - 32)" by (simp add: bit_simps)
      with z show False by simp
    qed
    then show "bit (take_bit 32 w) n \<longleftrightarrow> bit w n" by (auto simp: bit_simps)
  qed
  then show "fits32 w" by (simp add: fits32_take_bit)
qed

lemma fits32_ucast: "fits32 (ucast (w :: u32))"
  unfolding fits32_drop
  by (rule bit_word_eqI) (auto simp: bit_simps dest: bit_imp_le_length)

lemma feistel_layer_total:
  "fits32 r \<Longrightarrow> \<exists>r'. feistel_layer inp rows sz j n r = Some r' \<and> fits32 r'"
proof (induction inp rows sz j n r rule: feistel_layer.induct)
  case (2 inp rows sz j n result)
  obtain temp where "bitXor inp (rows ! j) sz = Some temp" using bitXor_total by blast
  then show ?case using 2 fits32_or fits32_ucast by auto
qed simp

text \<open>A round never trips an assertion on 32-bit halves, and its first component is the XOR of the old
  second half with a function of the old first half.\<close>

lemma feistel_round_total:
  assumes "width f = 64" "fits32 u" "fits32 d"
  shows "\<exists>p. feistel_round f i (u, d) = Some (d XOR p, u) \<and> fits32 p
           \<and> (\<forall>d'. fits32 d' \<longrightarrow> feistel_round f i (u, d') = Some (d' XOR p, u))"
proof -
  obtain sr where sr: "feistel_layer (u OR keys f ! i) (sMat f ! i) 64 0 32 0 = Some sr" "fits32 sr"
    using feistel_layer_total [of 0] fits32_consts by blast
  obtain pr where pr: "feistel_layer sr (pMat f ! i) 32 0 32 0 = Some pr" "fits32 pr"
    using feistel_layer_total [of 0] fits32_consts by blast
  have "feistel_round f i (u, d') = Some (d' XOR pr, u)" if "fits32 d'" for d'
    using that sr pr assms by (simp add: feistel_round_def fits32_drop)
  then show ?thesis using pr assms by blast
qed

lemma feistel_round_inj:
  assumes "width f = 64" "fits32 u" "fits32 d" "fits32 u'" "fits32 d'"
    and "feistel_round f i (u, d) = feistel_round f i (u', d')"
  shows "u = u' \<and> d = d'"
proof -
  obtain p where p: "feistel_round f i (u, d) = Some (d XOR p, u)"
      "\<forall>d'. fits32 d' \<longrightarrow> feistel_round f i (u, d') = Some (d' XOR p, u)"
    using feistel_round_total assms by meson
  obtain p' where p': "feistel_round f i (u', d') = Some (d' XOR p', u')"
    using feistel_round_total assms by meson
  from p(1) p' assms(6) have u: "u = u'" by simp
  have "feistel_round f i (u, d') = Some (d' XOR p, u)" using p(2) assms(5) by blast
  then have "d XOR p = d' XOR p" using p(1) assms(6) u by simp
  then have "(d XOR p) XOR p = (d' XOR p) XOR p" by simp
  then have "d = d'" by (simp add: xor.assoc)
  with u show ?thesis by simp
qed

lemma fits32_halves: "fits32 (drop_bit 32 (w :: u64))"
proof -
  have "drop_bit 32 (drop_bit 32 w) = 0" by (rule bit_word_eqI) (auto simp: bit_simps dest: bit_imp_le_length)
  then show ?thesis by (simp add: fits32_drop)
qed

lemma halves_eq:
  assumes "drop_bit 32 (a :: u64) = drop_bit 32 b"
    and "drop_bit 32 (push_bit 32 a) = drop_bit 32 (push_bit 32 b)"
  shows "a = b"
proof (rule bit_word_eqI)
  fix n assume n: "n < LENGTH(64)"
  show "bit a n \<longleftrightarrow> bit b n"
  proof (cases "n < 32")
    case True
    have "bit (drop_bit 32 (push_bit 32 w)) n \<longleftrightarrow> bit w n" for w :: u64
      using True by (simp add: bit_simps)
    with assms(2) show ?thesis by metis
  next
    case False
    then have "bit (drop_bit 32 w) (n - 32) \<longleftrightarrow> bit w n" for w :: u64
      by (simp add: bit_simps)
    with assms(1) show ?thesis by metis
  qed
qed

lemma feistel_round_step:
  assumes "width f = 64" "fits32 (fst s)" "fits32 (snd s)"
  obtains s' where "feistel_round f i s = Some s'" "fits32 (fst s')" "fits32 (snd s')"
proof -
  obtain p where "feistel_round f i (fst s, snd s) = Some (snd s XOR p, fst s)" "fits32 p"
    using feistel_round_total [OF assms] by blast
  then show thesis using assms that [of "(snd s XOR p, fst s)"] fits32_xor by auto
qed

lemma feistel_round_inj_pair:
  assumes "width f = 64" "feistel_round f i s = feistel_round f i t"
    and "fits32 (fst s)" "fits32 (snd s)" "fits32 (fst t)" "fits32 (snd t)"
  shows "s = t"
  using feistel_round_inj [of f "fst s" "snd s" "fst t" "snd t" i] assms
  by (simp add: prod_eq_iff)

lemma feistel_stages_chain:
  assumes "width f = 64"
  obtains s1 s2 s3 s4 where
    "feistel_round f 0 (drop_bit 32 val, drop_bit 32 (push_bit 32 val)) = Some s1"
    "feistel_round f 1 s1 = Some s2" "feistel_round f 2 s2 = Some s3" "feistel_round f 3 s3 = Some s4"
    "feistel_stages f val = Some s4"
    "\<forall>s \<in> {s1, s2, s3, s4}. fits32 (fst s) \<and> fits32 (snd s)"
proof -
  obtain s1 where s1: "feistel_round f 0 (drop_bit 32 val, drop_bit 32 (push_bit 32 val)) = Some s1"
      "fits32 (fst s1)" "fits32 (snd s1)"
    using feistel_round_step [OF assms, of "(drop_bit 32 val, drop_bit 32 (push_bit 32 val))"]
      fits32_halves by auto
  obtain s2 where s2: "feistel_round f 1 s1 = Some s2" "fits32 (fst s2)" "fits32 (snd s2)"
    using feistel_round_step [OF assms s1(2,3)] by blast
  obtain s3 where s3: "feistel_round f 2 s2 = Some s3" "fits32 (fst s3)" "fits32 (snd s3)"
    using feistel_round_step [OF assms s2(2,3)] by blast
  obtain s4 where s4: "feistel_round f 3 s3 = Some s4" "fits32 (fst s4)" "fits32 (snd s4)"
    using feistel_round_step [OF assms s3(2,3)] by blast
  show thesis by (rule that [OF s1(1) s2(1) s3(1) s4(1)])
      (use s1 s2 s3 s4 in \<open>auto simp: feistel_stages_def\<close>)
qed

lemma feistel_stages_inj:
  assumes w: "width f = 64" and eq: "feistel_stages f a = feistel_stages f b"
  shows "a = b"
proof -
  obtain s1 s2 s3 s4 where s: "feistel_round f 0 (drop_bit 32 a, drop_bit 32 (push_bit 32 a)) = Some s1"
    "feistel_round f 1 s1 = Some s2" "feistel_round f 2 s2 = Some s3" "feistel_round f 3 s3 = Some s4"
    "feistel_stages f a = Some s4" "\<forall>s \<in> {s1, s2, s3, s4}. fits32 (fst s) \<and> fits32 (snd s)"
    by (rule feistel_stages_chain [OF w])
  obtain t1 t2 t3 t4 where t: "feistel_round f 0 (drop_bit 32 b, drop_bit 32 (push_bit 32 b)) = Some t1"
    "feistel_round f 1 t1 = Some t2" "feistel_round f 2 t2 = Some t3" "feistel_round f 3 t3 = Some t4"
    "feistel_stages f b = Some t4" "\<forall>s \<in> {t1, t2, t3, t4}. fits32 (fst s) \<and> fits32 (snd s)"
    by (rule feistel_stages_chain [OF w])
  from s t eq have "s4 = t4" by simp
  then have "s3 = t3" using feistel_round_inj_pair [OF w, of 3 s3 t3] s t by simp
  then have "s2 = t2" using feistel_round_inj_pair [OF w, of 2 s2 t2] s t by simp
  then have "s1 = t1" using feistel_round_inj_pair [OF w, of 1 s1 t1] s t by simp
  with s(1) t(1) have "feistel_round f 0 (drop_bit 32 a, drop_bit 32 (push_bit 32 a))
      = feistel_round f 0 (drop_bit 32 b, drop_bit 32 (push_bit 32 b))" by simp
  then have "drop_bit 32 a = drop_bit 32 b \<and> drop_bit 32 (push_bit 32 a) = drop_bit 32 (push_bit 32 b)"
    by (rule feistel_round_inj [OF w fits32_halves fits32_halves fits32_halves fits32_halves])
  then show ?thesis using halves_eq by blast
qed

lemma feistel_stages_total:
  assumes "width f = 64"
  shows "\<exists>s4. feistel_stages f val = Some s4 \<and> fits32 (fst s4)"
  by (rule feistel_stages_chain [OF assms, of val]) blast

lemma hf_hash_total:
  assumes "hf_wf n hf" "fid < n"
  obtains v where "hf_hash hf fid val = Some v"
proof (cases hf)
  case (HF_H3 h)
  with assms H3_hash_defined [of fid h val] that show thesis by auto
next
  case (HF_Feistel f)
  then obtain s4 where "feistel_stages f val = Some s4"
    using assms(1) feistel_stages_total [of f val] by auto
  with HF_Feistel that [of "fst s4"] show thesis by (simp add: Feistel_hash_def)
next
  case HF_Id
  with that show thesis by simp
qed

subsection \<open>Properties\<close>

text \<open>the hand-unrolled H3 hash is linear over XOR: the hash of the XOR of two addresses is the
  XOR of their hashes, for every function of the family and every output width.\<close>

lemma H3_hash_linear:
  assumes "fid < numFuncs h"
  shows "\<exists>x y. H3_hash h fid a = Some x \<and> H3_hash h fid b = Some y
           \<and> H3_hash h fid (a XOR b) = Some (x XOR y)"
  using assms h3_loop_xor [of "hMatrix h" a b _ _ 0 0]
  by (simp add: H3_hash_def h3_fold_xor Let_def)

text \<open>the Feistel hash never trips one of its assertions, its value fits in 32 bits, and the pair of
  halves it ends with determines the hashed address (the network itself loses nothing).\<close>

lemma Feistel_hash_total:
  assumes "width f = 64"
  shows "(\<exists>v. Feistel_hash f fid val = Some v \<and> v < 2 ^ 32)
    \<and> (feistel_stages f val = feistel_stages f val' \<longrightarrow> val = val')"
proof
  obtain s4 where "feistel_stages f val = Some s4" "fits32 (fst s4)"
    using feistel_stages_total [OF assms, of val] by blast
  then show "\<exists>v. Feistel_hash f fid val = Some v \<and> v < 2 ^ 32"
    by (simp add: Feistel_hash_def fits32_def)
qed (use feistel_stages_inj [OF assms] in blast)

text \<open>the unrolled H3 loop is not the loop its comment gives for reference: over eight rows whose only
  set bit is bit 0 of row 1, the code turns that bit by nine places and the comment's loop by seven.\<close>

lemma H3_hash_differs_from_comment:
  "h3_loop [0, 1, 0, 0, 0, 0, 0, 0] 1 0 1 0 = 2 ^ 9
   \<and> h3_simple [0, 1, 0, 0, 0, 0, 0, 0] 1 0 8 0 = 2 ^ 7"
  by code_simp

end
