(* ===== verification/MemTypes.thy ===== *)
theory MemTypes
  imports Prelude
begin

text \<open>
  The vocabulary of the memory hierarchy (\<^verbatim>\<open>src/src/memory_hierarchy.h\<close> and \<^verbatim>\<open>.cpp\<close>), the integer
  helpers of \<^verbatim>\<open>bithacks.h\<close> and the race check of \<^verbatim>\<open>coherence_ctrls.h\<close>, which every coherence
  controller runs before it touches a line.
\<close>

subsection \<open>Requests and coherence states\<close>

datatype AccessType = GETS | GETX | PUTS | PUTX

datatype InvType = INV | INVX | FWD

datatype MESIState = I | S | E | M

text \<open>The \<^verbatim>\<open>state\<close> pointer of a request is a reference into the requester's tag array: the
  requester (a cache identifier and a line of it), or a local variable of the issuing method.\<close>

datatype state_ref = LineCell nat nat | LocalCell nat

record MemReq =
  r_lineAddr :: addr
  r_type :: AccessType
  r_childId :: nat
  r_state :: state_ref
  r_cycle :: cycle
  r_initialState :: MESIState
  r_srcId :: nat
  r_flags :: u32

record InvReq =
  i_lineAddr :: addr
  i_type :: InvType
  i_cycle :: cycle
  i_srcId :: nat

definition IsGet :: "AccessType \<Rightarrow> bool" where
  "IsGet t \<longleftrightarrow> t = GETS \<or> t = GETX"

definition IsPut :: "AccessType \<Rightarrow> bool" where
  "IsPut t \<longleftrightarrow> t = PUTS \<or> t = PUTX"

definition IFETCH :: u32 where "IFETCH = push_bit 1 1"
definition NOEXCL :: u32 where "NOEXCL = push_bit 2 1"
definition NONINCLWB :: u32 where "NONINCLWB = push_bit 3 1"
definition PUTX_KEEPEXCL :: u32 where "PUTX_KEEPEXCL = push_bit 4 1"
definition PREFETCH :: u32 where "PREFETCH = push_bit 5 1"

lemmas flag_defs = IFETCH_def NOEXCL_def NONINCLWB_def PUTX_KEEPEXCL_def PREFETCH_def

definition set_flag :: "u32 \<Rightarrow> MemReq \<Rightarrow> MemReq" where
  "set_flag f req = req\<lparr>r_flags := r_flags req OR f\<rparr>"

definition is_flag :: "u32 \<Rightarrow> u32 \<Rightarrow> bool" where
  "is_flag fl f \<longleftrightarrow> fl AND f \<noteq> 0"

subsection \<open>Names of the enumerators\<close>

text \<open>An enumerator indexes the name table; an index past the table is a failed assertion.\<close>

primrec AccessType_index :: "AccessType \<Rightarrow> nat" where
  "AccessType_index GETS = 0"
| "AccessType_index GETX = 1"
| "AccessType_index PUTS = 2"
| "AccessType_index PUTX = 3"

primrec InvType_index :: "InvType \<Rightarrow> nat" where
  "InvType_index INV = 0"
| "InvType_index INVX = 1"
| "InvType_index FWD = 2"

primrec MESIState_index :: "MESIState \<Rightarrow> nat" where
  "MESIState_index I = 0"
| "MESIState_index S = 1"
| "MESIState_index E = 2"
| "MESIState_index M = 3"

definition accessTypeNames :: "string list" where
  "accessTypeNames = [''GETS'', ''GETX'', ''PUTS'', ''PUTX'']"

definition invTypeNames :: "string list" where
  "invTypeNames = [''INV'', ''INVX'']"

definition mesiStateNames :: "string list" where
  "mesiStateNames = [''I'', ''S'', ''E'', ''M'']"

definition AccessTypeName :: "AccessType \<Rightarrow> string option" where
  "AccessTypeName t = do {
     assert_that (AccessType_index t < length accessTypeNames);
     Some (accessTypeNames ! AccessType_index t) }"

definition InvTypeName :: "InvType \<Rightarrow> string option" where
  "InvTypeName t = do {
     assert_that (InvType_index t < length invTypeNames);
     Some (invTypeNames ! InvType_index t) }"

definition MESIStateName :: "MESIState \<Rightarrow> string option" where
  "MESIStateName s = do {
     assert_that (MESIState_index s < length mesiStateNames);
     Some (mesiStateNames ! MESIState_index s) }"

subsection \<open>Integer helpers\<close>

text \<open>\<^verbatim>\<open>__builtin_clz\<close>: leading zero bits of a non-zero word.\<close>

definition clz :: "'a::len word \<Rightarrow> nat" where
  "clz w = length (takeWhile (\<lambda>i. \<not> bit w i) (rev [0..<LENGTH('a)]))"

definition ilog2 :: "'a::len word \<Rightarrow> nat" where
  "ilog2 val = (if val \<noteq> 0 then LENGTH('a) - 1 - clz val else 0)"

definition isPow2 :: "'a::len word \<Rightarrow> bool" where
  "isPow2 val \<longleftrightarrow> val \<noteq> 0 \<and> \<not> (val AND (val - 1) \<noteq> 0)"

fun maxN :: "'a::linorder \<Rightarrow> 'a list \<Rightarrow> 'a" where
  "maxN a [] = a"
| "maxN a (b # c) = maxN (if a > b then a else b) c"

fun minN :: "'a::linorder \<Rightarrow> 'a list \<Rightarrow> 'a" where
  "minN a [] = a"
| "minN a (b # c) = minN (if a < b then a else b) c"

subsection \<open>The race check\<close>

text \<open>\<open>CheckForMESIRace type state initialState\<close> gives the skip flag and the possibly changed type.\<close>

definition CheckForMESIRace ::
  "AccessType \<Rightarrow> MESIState \<Rightarrow> MESIState \<Rightarrow> (bool \<times> AccessType) option" where
  "CheckForMESIRace type st initSt =
     (if st \<noteq> initSt then
        (if type = PUTS \<or> type = PUTX then
           (if st = I then Some (True, type)
            else do {
              assert_that (st = S);
              Some (False, if type = PUTX then PUTS else type) })
         else if type = GETX then do {
           assert_that (initSt = S);
           assert_that (st = I);
           Some (False, type) }
         else panic)
      else Some (False, type))"

subsection \<open>Facts\<close>

lemma IsGet_IsPut: "IsGet t \<longleftrightarrow> \<not> IsPut t"
  by (cases t) (auto simp: IsGet_def IsPut_def)

lemma takeWhile_rev_upt_last:
  assumes "i < n" "p i" "\<And>j. i < j \<Longrightarrow> j < n \<Longrightarrow> \<not> p j"
  shows "length (takeWhile (\<lambda>i. \<not> p i) (rev [0..<n])) = n - 1 - i"
  using assms
proof (induction n)
  case (Suc n)
  show ?case
  proof (cases "i = n")
    case True
    with Suc.prems show ?thesis by simp
  next
    case False
    with Suc.prems have "i < n" "\<not> p n" by auto
    moreover have "length (takeWhile (\<lambda>i. \<not> p i) (rev [0..<n])) = n - 1 - i"
      using Suc.IH [OF \<open>i < n\<close>] Suc.prems by auto
    ultimately show ?thesis by simp
  qed
qed simp

lemma highest_bit_exists:
  fixes w :: "'a::len word"
  assumes "w \<noteq> 0"
  obtains k where "k < LENGTH('a)" "bit w k" "\<And>j. k < j \<Longrightarrow> \<not> bit w j"
    "2 ^ k \<le> unat w" "unat w < 2 ^ Suc k"
proof -
  have pos: "1 \<le> unat w" using assms by (simp add: Suc_leI unat_gt_0)
  obtain k where lo: "2 ^ k \<le> unat w" and hi: "unat w < 2 ^ Suc k"
    using ex_power_ivl1 [of 2 "unat w"] pos by auto
  have kl: "k < LENGTH('a)"
    using le_less_trans [OF lo unsigned_less] by (simp add: power_strict_increasing_iff)
  have bk: "bit w k"
  proof -
    have "unat w div 2 ^ k = 1" using lo hi by (simp add: div_nat_eqI)
    then have "bit (unat w) k" by (simp add: bit_iff_odd)
    then show ?thesis by (simp add: bit_unsigned_iff)
  qed
  have "\<not> bit w j" if "k < j" for j
  proof -
    have "unat w < 2 ^ j"
      using hi that by (meson Suc_leI less_le_trans one_le_numeral power_increasing)
    then have "\<not> bit (unat w) j" by (simp add: bit_iff_odd)
    then show ?thesis by (simp add: bit_unsigned_iff)
  qed
  with kl bk lo hi show thesis using that by blast
qed

lemma ilog2_highest_bit:
  fixes w :: "'a::len word"
  assumes "bit w k" "k < LENGTH('a)" "\<And>j. k < j \<Longrightarrow> \<not> bit w j"
  shows "ilog2 w = k"
proof -
  have "w \<noteq> 0" using assms(1) by auto
  have "clz w = LENGTH('a) - 1 - k"
    unfolding clz_def using takeWhile_rev_upt_last [of k "LENGTH('a)" "bit w"] assms by blast
  then show ?thesis using \<open>w \<noteq> 0\<close> assms(2) by (simp add: ilog2_def)
qed

lemma maxN_Max: "maxN a xs = Max (set (a # xs))"
proof (induction xs arbitrary: a)
  case (Cons b c)
  have "maxN a (b # c) = maxN (max a b) c"
    by (auto simp: max_def)
  also have "\<dots> = Max (set (max a b # c))" by (rule Cons.IH)
  also have "\<dots> = Max (set (a # b # c))"
    by (cases "c = []") (auto simp: max.assoc)
  finally show ?case .
qed simp

subsection \<open>Properties\<close>

text \<open>\<open>ilog2\<close> of a non-zero word is the exponent of the power of two that brackets it.\<close>

lemma ilog2_brackets:
  fixes val :: "'a::len word"
  assumes "val \<noteq> 0"
  shows "2 ^ ilog2 val \<le> unat val \<and> unat val < 2 ^ Suc (ilog2 val)"
proof -
  obtain k where "k < LENGTH('a)" "bit val k" "\<And>j. k < j \<Longrightarrow> \<not> bit val j"
    and bounds: "2 ^ k \<le> unat val" "unat val < 2 ^ Suc k"
    using highest_bit_exists [OF assms] by metis
  then have "ilog2 val = k" by (intro ilog2_highest_bit) auto
  with bounds show ?thesis by simp
qed

end
