(* ===== verification/ReplPolicies.thy ===== *)
theory ReplPolicies
  imports MemTypes MTRand
begin

text \<open>
  The replacement policies of \<^verbatim>\<open>src/src/repl_policies.h\<close>. A policy sees line identifiers, the request
  and the coherence controller (\<open>cc_query\<close>: number of sharers, validity, sharer test) and keeps its own
  arrays. \<open>rank\<close> returns the victim among the candidates the array offers.

  Scores and timestamps keep their C++ widths: \<^verbatim>\<open>rank\<close> of LRU and SHARP stores the 64-bit score in a
  32-bit variable, and the model does too.
\<close>

record cc_query =
  cc_numSharers :: "nat \<Rightarrow> nat"
  cc_isValid :: "nat \<Rightarrow> bool"
  cc_isSharer :: "nat \<Rightarrow> nat \<Rightarrow> bool"

definition noCand :: nat where "noCand = 2 ^ 32 - 1"

definition b2w :: "bool \<Rightarrow> 'a::len word" where "b2w b = (if b then 1 else 0)"

subsection \<open>LRU and SHARP\<close>

record LRUReplPolicy =
  sharersAware :: bool
  timestamp :: u64
  lru_array :: "u64 list"

definition LRU_new :: "bool \<Rightarrow> nat \<Rightarrow> LRUReplPolicy" where
  "LRU_new aware numLines = \<lparr>sharersAware = aware, timestamp = 1, lru_array = replicate numLines 0\<rparr>"

definition LRU_update :: "nat \<Rightarrow> LRUReplPolicy \<Rightarrow> LRUReplPolicy" where
  "LRU_update i rp =
     rp\<lparr>lru_array := (lru_array rp)[i := timestamp rp], timestamp := timestamp rp + 1\<rparr>"

definition LRU_replaced :: "nat \<Rightarrow> LRUReplPolicy \<Rightarrow> LRUReplPolicy" where
  "LRU_replaced i rp = rp\<lparr>lru_array := (lru_array rp)[i := 0]\<rparr>"

definition LRU_score :: "cc_query \<Rightarrow> LRUReplPolicy \<Rightarrow> nat \<Rightarrow> u64" where
  "LRU_score cc rp i =
     of_nat (if sharersAware rp then cc_numSharers cc i else 0) * timestamp rp
     + lru_array rp ! i * b2w (cc_isValid cc i)"

text \<open>The loop shared by the two policies, over the score function.\<close>

definition rank_step :: "(nat \<Rightarrow> u64) \<Rightarrow> nat \<times> u64 \<Rightarrow> nat \<Rightarrow> nat \<times> u64" where
  "rank_step score best ci =
     (case best of (bestCand, bestScore) \<Rightarrow>
        let s = ucast (score ci) :: u32
        in (if ucast s < bestScore then ci else bestCand,
            if ucast s < bestScore then ucast s else bestScore))"

definition rank_by :: "(nat \<Rightarrow> u64) \<Rightarrow> nat list \<Rightarrow> nat" where
  "rank_by score cands = fst (foldl (rank_step score) (noCand, -1) cands)"

definition LRU_rank :: "cc_query \<Rightarrow> LRUReplPolicy \<Rightarrow> nat list \<Rightarrow> nat" where
  "LRU_rank cc rp cands = rank_by (LRU_score cc rp) cands"

definition SHARP_score :: "cc_query \<Rightarrow> LRUReplPolicy \<Rightarrow> nat \<Rightarrow> nat \<Rightarrow> u64" where
  "SHARP_score cc rp src i =
     of_nat (if sharersAware rp then cc_numSharers cc i else 0) * timestamp rp
     + lru_array rp ! i * b2w (cc_isValid cc i) + b2w (cc_isSharer cc i src)"

definition SHARP_rank :: "cc_query \<Rightarrow> LRUReplPolicy \<Rightarrow> nat \<Rightarrow> nat list \<Rightarrow> nat" where
  "SHARP_rank cc rp src cands = rank_by (SHARP_score cc rp src) cands"

subsection \<open>Tree LRU\<close>

record TreeLRUReplPolicy =
  tree_lru :: LRUReplPolicy
  tree_candArray :: "nat list"
  tree_numCands :: nat
  tree_candIdx :: nat

definition TreeLRU_new :: "nat \<Rightarrow> nat \<Rightarrow> TreeLRUReplPolicy option" where
  "TreeLRU_new numLines numCands =
     (if (of_nat numCands :: u32) AND (of_nat numCands - 1) \<noteq> 0 then panic
      else Some \<lparr>tree_lru = LRU_new True numLines, tree_candArray = replicate numCands 0,
                 tree_numCands = numCands, tree_candIdx = 0\<rparr>)"

definition TreeLRU_recordCandidate :: "nat \<Rightarrow> TreeLRUReplPolicy \<Rightarrow> TreeLRUReplPolicy" where
  "TreeLRU_recordCandidate i rp =
     rp\<lparr>tree_candArray := (tree_candArray rp)[tree_candIdx rp := i],
        tree_candIdx := Suc (tree_candIdx rp)\<rparr>"

text \<open>The loop \<^verbatim>\<open>for (i = a; i < b; i++) t = MAX(t, array[candArray[i]])\<close>.\<close>

definition tree_max :: "u64 list \<Rightarrow> nat list \<Rightarrow> nat \<Rightarrow> nat \<Rightarrow> u64" where
  "tree_max arr cs a b = foldl (\<lambda>t i. if t > arr ! (cs ! i) then t else arr ! (cs ! i)) 0 [a..<b]"

function tree_descend :: "u64 list \<Rightarrow> nat list \<Rightarrow> nat \<Rightarrow> nat \<Rightarrow> nat" where
  "tree_descend arr cs start fin =
     (if fin - start > 1 then
        let pivot = start + (fin - start) div 2;
            t1 = tree_max arr cs start pivot;
            t2 = tree_max arr cs pivot fin
        in if t1 > t2 then tree_descend arr cs pivot fin else tree_descend arr cs start pivot
      else start)"
  by pat_completeness auto
termination
  by (relation "measure (\<lambda>(arr, cs, start, fin). fin - start)") auto

declare tree_descend.simps [simp del]

definition TreeLRU_getBestCandidate :: "TreeLRUReplPolicy \<Rightarrow> nat option" where
  "TreeLRU_getBestCandidate rp = do {
     assert_that (tree_candIdx rp = tree_numCands rp);
     Some (tree_candArray rp
       ! tree_descend (lru_array (tree_lru rp)) (tree_candArray rp) 0 (tree_numCands rp)) }"

definition TreeLRU_replaced :: "nat \<Rightarrow> TreeLRUReplPolicy \<Rightarrow> TreeLRUReplPolicy" where
  "TreeLRU_replaced i rp =
     rp\<lparr>tree_candIdx := 0, tree_lru := LRU_replaced i (tree_lru rp)\<rparr>"

subsection \<open>NRU\<close>

record NRUReplPolicy =
  nru_array :: "nat list"
  nru_candArray :: "nat list"
  nru_numLines :: nat
  youngLines :: nat
  candVal :: nat
  candIdx :: nat

definition NRU_new :: "nat \<Rightarrow> nat \<Rightarrow> NRUReplPolicy" where
  "NRU_new numLines numCands =
     \<lparr>nru_array = replicate numLines 0, nru_candArray = replicate numCands 0,
      nru_numLines = numLines, youngLines = 0, candVal = 2 ^ 20, candIdx = 0\<rparr>"

text \<open>The 2-bit values are naturals below 4, so \<open>OR 2\<close> and the right shift stay below 4; the counter
  arithmetic \<^verbatim>\<open>youngLines += 1 - (array[id] >> 1)\<close> is done modulo \<open>2\<^sup>3\<^sup>2\<close>.\<close>

definition NRU_update :: "nat \<Rightarrow> NRUReplPolicy \<Rightarrow> NRUReplPolicy" where
  "NRU_update i rp =
     (let young = nat ((int (youngLines rp) + (1 - int (nru_array rp ! i div 2))) mod 2 ^ 32);
          arr = (nru_array rp)[i := nru_array rp ! i OR 2]
      in if young \<ge> nru_numLines rp div 2
         then rp\<lparr>nru_array := map (\<lambda>v. v div 2) arr, youngLines := 0\<rparr>
         else rp\<lparr>nru_array := arr, youngLines := young\<rparr>)"

definition NRU_recordCandidate :: "NRUReplPolicy \<Rightarrow> nat \<Rightarrow> NRUReplPolicy" where
  "NRU_recordCandidate rp i =
     (let iVal = nru_array rp ! i
      in if iVal < candVal rp
         then rp\<lparr>candVal := iVal, nru_candArray := (nru_candArray rp)[0 := i], candIdx := 1\<rparr>
         else if iVal = candVal rp
         then rp\<lparr>nru_candArray := (nru_candArray rp)[candIdx rp := i], candIdx := Suc (candIdx rp)\<rparr>
         else rp)"

definition NRU_getBestCandidate :: "NRUReplPolicy \<Rightarrow> nat option" where
  "NRU_getBestCandidate rp = do {
     assert_that (candIdx rp > 0);
     Some (nru_candArray rp ! (youngLines rp mod candIdx rp)) }"

definition NRU_rank :: "NRUReplPolicy \<Rightarrow> nat list \<Rightarrow> (nat \<times> NRUReplPolicy) option" where
  "NRU_rank rp cands = do {
     let rp' = foldl NRU_recordCandidate rp cands;
     b \<leftarrow> NRU_getBestCandidate rp';
     Some (b, rp') }"

definition NRU_replaced :: "nat \<Rightarrow> NRUReplPolicy \<Rightarrow> NRUReplPolicy" where
  "NRU_replaced i rp = rp\<lparr>candVal := 2 ^ 20, candIdx := 0, nru_array := (nru_array rp)[i := 0]\<rparr>"

subsection \<open>Random\<close>

record RandReplPolicy =
  rand_candArray :: "nat list"
  rand_numCands :: nat
  rnd :: MTRand
  rand_candIdx :: nat

text \<open>The seed adds the object's address, \<open>this_addr\<close>.\<close>

definition Rand_new :: "u64 \<Rightarrow> nat \<Rightarrow> RandReplPolicy" where
  "Rand_new this_addr numCands =
     \<lparr>rand_candArray = replicate numCands 0, rand_numCands = numCands,
      rnd = mt_seed (0x23A5F + this_addr), rand_candIdx = 0\<rparr>"

definition Rand_recordCandidate :: "RandReplPolicy \<Rightarrow> nat \<Rightarrow> RandReplPolicy" where
  "Rand_recordCandidate rp i =
     rp\<lparr>rand_candArray := (rand_candArray rp)[rand_candIdx rp := i],
        rand_candIdx := Suc (rand_candIdx rp)\<rparr>"

definition Rand_getBestCandidate :: "RandReplPolicy \<Rightarrow> (nat \<times> RandReplPolicy) option" where
  "Rand_getBestCandidate rp = do {
     assert_that (rand_candIdx rp = rand_numCands rp);
     (i, g) \<leftarrow> randInt_n (of_nat (rand_numCands rp - 1)) (rnd rp);
     Some (rand_candArray rp ! unat i, rp\<lparr>rnd := g\<rparr>) }"

definition Rand_rank :: "RandReplPolicy \<Rightarrow> nat list \<Rightarrow> (nat \<times> RandReplPolicy) option" where
  "Rand_rank rp cands = Rand_getBestCandidate (foldl Rand_recordCandidate rp cands)"

definition Rand_replaced :: "nat \<Rightarrow> RandReplPolicy \<Rightarrow> RandReplPolicy" where
  "Rand_replaced i rp = rp\<lparr>rand_candIdx := 0\<rparr>"

subsection \<open>LFU\<close>

record LFUInfo =
  lfu_ts :: u64
  lfu_acc :: u64

record LFURank =
  lfuInfo :: LFUInfo
  sharers :: nat
  valid :: bool

definition LFURank_reset :: LFURank where
  "LFURank_reset = \<lparr>lfuInfo = \<lparr>lfu_ts = 0, lfu_acc = 0\<rparr>, sharers = 0, valid = False\<rparr>"

definition LFU_lessThan :: "LFURank \<Rightarrow> LFURank \<Rightarrow> u64 \<Rightarrow> bool" where
  "LFU_lessThan r other curTs =
     (if \<not> valid r \<and> valid other then True
      else if valid r = valid other then
        (if sharers r = 0 \<and> sharers other > 0 then True
         else if sharers r > 0 \<and> sharers other = 0 then False
         else if lfu_acc (lfuInfo r) = 0 then True
         else if lfu_acc (lfuInfo other) = 0 then False
         else (let ownInvFreq = (curTs - lfu_ts (lfuInfo r)) div lfu_acc (lfuInfo r);
                   otherInvFreq = (curTs - lfu_ts (lfuInfo other)) div lfu_acc (lfuInfo other)
               in ownInvFreq > otherInvFreq))
      else False)"

record LFUReplPolicy =
  lfu_timestamp :: u64
  bestCandidate :: "nat option"
  lfu_array :: "LFUInfo list"
  bestRank :: LFURank

definition LFU_new :: "nat \<Rightarrow> LFUReplPolicy" where
  "LFU_new numLines = \<lparr>lfu_timestamp = 1, bestCandidate = None,
     lfu_array = replicate numLines \<lparr>lfu_ts = 0, lfu_acc = 0\<rparr>, bestRank = LFURank_reset\<rparr>"

definition LFU_update :: "nat \<Rightarrow> LFUReplPolicy \<Rightarrow> LFUReplPolicy" where
  "LFU_update i rp =
     (let e = lfu_array rp ! i;
          ts' = (lfu_acc e * lfu_ts e + lfu_timestamp rp) div (lfu_acc e + 1)
      in rp\<lparr>lfu_array := (lfu_array rp)[i := \<lparr>lfu_ts = ts', lfu_acc = lfu_acc e + 1\<rparr>],
            lfu_timestamp := lfu_timestamp rp + 1000\<rparr>)"

definition LFU_recordCandidate :: "cc_query \<Rightarrow> LFUReplPolicy \<Rightarrow> nat \<Rightarrow> LFUReplPolicy" where
  "LFU_recordCandidate cc rp i =
     (let candRank = \<lparr>lfuInfo = lfu_array rp ! i, sharers = cc_numSharers cc i,
                      valid = cc_isValid cc i\<rparr>
      in if bestCandidate rp = None \<or> LFU_lessThan candRank (bestRank rp) (lfu_timestamp rp)
         then rp\<lparr>bestRank := candRank, bestCandidate := Some i\<rparr> else rp)"

definition LFU_getBestCandidate :: "LFUReplPolicy \<Rightarrow> nat option" where
  "LFU_getBestCandidate rp = do {
     assert_that (bestCandidate rp \<noteq> None);
     bestCandidate rp }"

definition LFU_rank :: "cc_query \<Rightarrow> LFUReplPolicy \<Rightarrow> nat list \<Rightarrow> (nat \<times> LFUReplPolicy) option" where
  "LFU_rank cc rp cands = do {
     let rp' = foldl (LFU_recordCandidate cc) rp cands;
     b \<leftarrow> LFU_getBestCandidate rp';
     Some (b, rp') }"

definition LFU_replaced :: "nat \<Rightarrow> LFUReplPolicy \<Rightarrow> LFUReplPolicy" where
  "LFU_replaced i rp =
     rp\<lparr>bestCandidate := None, bestRank := LFURank_reset,
        lfu_array := (lfu_array rp)[i := (lfu_array rp ! i)\<lparr>lfu_acc := 0\<rparr>]\<rparr>"

subsection \<open>Profiling of access-order violations\<close>

text \<open>\<^verbatim>\<open>ProfViolReplPolicy<T>\<close> is used with LRU. \<^verbatim>\<open>replCycle\<close> is written only by \<^verbatim>\<open>startReplacement\<close>,
  which \<^verbatim>\<open>LRUReplPolicy::rank\<close> never calls.\<close>

record AccTimes =
  at_read :: cycle
  at_write :: cycle

record ProfViolReplPolicy =
  pv_lru :: LRUReplPolicy
  accTimes :: "AccTimes list"
  replCycle :: cycle
  profRAW :: nat
  profWAR :: nat
  profRAR :: nat
  profWAW :: nat
  profNoViolAcc :: nat
  profAAE :: nat
  profNoViolEv :: nat

definition ProfViol_init :: "nat \<Rightarrow> ProfViolReplPolicy" where
  "ProfViol_init numLines =
     \<lparr>pv_lru = LRU_new True numLines, accTimes = replicate numLines \<lparr>at_read = 0, at_write = 0\<rparr>,
      replCycle = 0, profRAW = 0, profWAR = 0, profRAR = 0, profWAW = 0, profNoViolAcc = 0,
      profAAE = 0, profNoViolEv = 0\<rparr>"

definition readViolation :: "cycle \<Rightarrow> AccTimes \<Rightarrow> bool option" where
  "readViolation cyc t =
     (if cyc < min (at_read t) (at_write t) then Some (at_read t < at_write t)
      else if cyc < at_read t then Some True
      else do { assert_that (cyc < at_write t); Some False })"

definition ProfViol_count :: "bool \<Rightarrow> bool \<Rightarrow> ProfViolReplPolicy \<Rightarrow> ProfViolReplPolicy" where
  "ProfViol_count read readViol rp =
     (if read then (if readViol then rp\<lparr>profRAR := Suc (profRAR rp)\<rparr> else rp\<lparr>profRAW := Suc (profRAW rp)\<rparr>)
      else (if readViol then rp\<lparr>profWAR := Suc (profWAR rp)\<rparr> else rp\<lparr>profWAW := Suc (profWAW rp)\<rparr>))"

definition ProfViol_update ::
  "nat \<Rightarrow> AccessType \<Rightarrow> cycle \<Rightarrow> ProfViolReplPolicy \<Rightarrow> ProfViolReplPolicy option" where
  "ProfViol_update i type cyc rp0 = do {
     let rp = rp0\<lparr>pv_lru := LRU_update i (pv_lru rp0)\<rparr>;
     let read = (type = GETS);
     assert_that (read \<or> type = GETX);
     let t = accTimes rp ! i;
     rp1 \<leftarrow> (if cyc < max (at_read t) (at_write t)
            then do { v \<leftarrow> readViolation cyc t; Some (ProfViol_count read v rp) }
            else Some (rp\<lparr>profNoViolAcc := Suc (profNoViolAcc rp)\<rparr>));
     let t' = (if read then t\<lparr>at_read := max (at_read t) cyc\<rparr>
               else t\<lparr>at_write := max (at_write t) cyc\<rparr>);
     let rp2 = rp1\<lparr>accTimes := (accTimes rp1)[i := t']\<rparr>;
     Some (rp2\<lparr>pv_lru := LRU_update i (pv_lru rp2)\<rparr>) }"

definition ProfViol_startReplacement :: "cycle \<Rightarrow> ProfViolReplPolicy \<Rightarrow> ProfViolReplPolicy" where
  "ProfViol_startReplacement cyc rp = rp\<lparr>replCycle := cyc\<rparr>"

definition ProfViol_replaced :: "nat \<Rightarrow> ProfViolReplPolicy \<Rightarrow> ProfViolReplPolicy" where
  "ProfViol_replaced i rp0 =
     (let rp = rp0\<lparr>pv_lru := LRU_replaced i (pv_lru rp0)\<rparr>;
          t = accTimes rp ! i;
          rp1 = (if replCycle rp < max (at_read t) (at_write t)
                 then rp\<lparr>profAAE := Suc (profAAE rp)\<rparr>
                 else rp\<lparr>profNoViolEv := Suc (profNoViolEv rp)\<rparr>)
      in rp1\<lparr>accTimes := (accTimes rp1)[i := \<lparr>at_read = 0, at_write = 0\<rparr>]\<rparr>)"

subsection \<open>The policy interface\<close>

text \<open>A cache array calls its policy through the virtual methods of \<^verbatim>\<open>ReplPolicy\<close>. Tree LRU overrides
  \<^verbatim>\<open>replaced\<close> only; its \<^verbatim>\<open>rank\<close> is the one it inherits from \<^verbatim>\<open>LRUReplPolicy<true>\<close>.\<close>

datatype ReplPolicy =
    RP_LRU LRUReplPolicy
  | RP_SHARP LRUReplPolicy
  | RP_TreeLRU TreeLRUReplPolicy
  | RP_NRU NRUReplPolicy
  | RP_Rand RandReplPolicy
  | RP_LFU LFUReplPolicy
  | RP_ProfViol ProfViolReplPolicy

fun rp_update :: "nat \<Rightarrow> AccessType \<Rightarrow> cycle \<Rightarrow> ReplPolicy \<Rightarrow> ReplPolicy option" where
  "rp_update i ty cyc (RP_LRU p) = Some (RP_LRU (LRU_update i p))"
| "rp_update i ty cyc (RP_SHARP p) = Some (RP_SHARP (LRU_update i p))"
| "rp_update i ty cyc (RP_TreeLRU p) = Some (RP_TreeLRU (p\<lparr>tree_lru := LRU_update i (tree_lru p)\<rparr>))"
| "rp_update i ty cyc (RP_NRU p) = Some (RP_NRU (NRU_update i p))"
| "rp_update i ty cyc (RP_Rand p) = Some (RP_Rand p)"
| "rp_update i ty cyc (RP_LFU p) = Some (RP_LFU (LFU_update i p))"
| "rp_update i ty cyc (RP_ProfViol p) = map_option RP_ProfViol (ProfViol_update i ty cyc p)"

fun rp_replaced :: "nat \<Rightarrow> ReplPolicy \<Rightarrow> ReplPolicy" where
  "rp_replaced i (RP_LRU p) = RP_LRU (LRU_replaced i p)"
| "rp_replaced i (RP_SHARP p) = RP_SHARP (LRU_replaced i p)"
| "rp_replaced i (RP_TreeLRU p) = RP_TreeLRU (TreeLRU_replaced i p)"
| "rp_replaced i (RP_NRU p) = RP_NRU (NRU_replaced i p)"
| "rp_replaced i (RP_Rand p) = RP_Rand (Rand_replaced i p)"
| "rp_replaced i (RP_LFU p) = RP_LFU (LFU_replaced i p)"
| "rp_replaced i (RP_ProfViol p) = RP_ProfViol (ProfViol_replaced i p)"

fun rp_rankCands :: "cc_query \<Rightarrow> nat \<Rightarrow> nat list \<Rightarrow> ReplPolicy \<Rightarrow> (nat \<times> ReplPolicy) option" where
  "rp_rankCands cc src cs (RP_LRU p) = Some (LRU_rank cc p cs, RP_LRU p)"
| "rp_rankCands cc src cs (RP_SHARP p) = Some (SHARP_rank cc p src cs, RP_SHARP p)"
| "rp_rankCands cc src cs (RP_TreeLRU p) = Some (LRU_rank cc (tree_lru p) cs, RP_TreeLRU p)"
| "rp_rankCands cc src cs (RP_NRU p) = map_option (map_prod id RP_NRU) (NRU_rank p cs)"
| "rp_rankCands cc src cs (RP_Rand p) = map_option (map_prod id RP_Rand) (Rand_rank p cs)"
| "rp_rankCands cc src cs (RP_LFU p) = map_option (map_prod id RP_LFU) (LFU_rank cc p cs)"
| "rp_rankCands cc src cs (RP_ProfViol p) = Some (LRU_rank cc (pv_lru p) cs, RP_ProfViol p)"

text \<open>Between replacements a policy of \<open>lines\<close> lines is at rest: the candidate buffers of the legacy
  policies are empty and large enough for \<open>n\<close> candidates.\<close>

fun rp_rest :: "nat \<Rightarrow> nat \<Rightarrow> ReplPolicy \<Rightarrow> bool" where
  "rp_rest n lines (RP_NRU p) = (candIdx p = 0 \<and> candVal p = 2 ^ 20 \<and> n \<le> length (nru_candArray p)
     \<and> lines \<le> length (nru_array p) \<and> (\<forall>v \<in> set (nru_array p). v < 4))"
| "rp_rest n lines (RP_Rand p) = (rand_candIdx p = 0 \<and> n = rand_numCands p
     \<and> length (rand_candArray p) = rand_numCands p \<and> mt_wf (rnd p) \<and> n < 2 ^ 32)"
| "rp_rest n lines (RP_LFU p) = (bestCandidate p = None)"
| "rp_rest n lines p = True"

subsection \<open>LRU: the victim minimises the truncated score\<close>

definition score32 :: "(nat \<Rightarrow> u64) \<Rightarrow> nat \<Rightarrow> u64" where
  "score32 f c = ucast (ucast (f c) :: u32)"

lemma score32_unat: "unat (score32 f c) = unat (f c) mod 2 ^ 32"
proof -
  have "score32 f c = take_bit 32 (f c)"
    unfolding score32_def by (rule bit_word_eqI) (auto simp: bit_simps)
  then show ?thesis by (simp only: unsigned_take_bit_eq) (simp add: take_bit_eq_mod [of 32 "unat (f c)"])
qed

lemma score32_below_max: "score32 f c < - 1"
proof -
  have "\<not> bit (score32 f c) 63" by (simp add: score32_def bit_simps)
  then have "score32 f c \<noteq> - 1" by (auto simp: bit_simps)
  then show ?thesis by (simp add: word_order.not_eq_extremum)
qed

lemma rank_step_alt:
  "rank_step f (b, s) c = (if score32 f c < s then (c, score32 f c) else (b, s))"
  by (simp add: rank_step_def score32_def Let_def)

lemma rank_foldl:
  "\<exists>b. foldl (rank_step f) (b0, score32 f b0) cs = (b, score32 f b) \<and> b \<in> set (b0 # cs)
     \<and> (\<forall>c \<in> set (b0 # cs). score32 f b \<le> score32 f c)"
proof (induction cs arbitrary: b0)
  case (Cons c cs)
  define b1 where "b1 = (if score32 f c < score32 f b0 then c else b0)"
  have step: "rank_step f (b0, score32 f b0) c = (b1, score32 f b1)"
    by (simp add: rank_step_alt b1_def)
  obtain b where b: "foldl (rank_step f) (b1, score32 f b1) cs = (b, score32 f b)"
      "b \<in> set (b1 # cs)" "\<forall>c \<in> set (b1 # cs). score32 f b \<le> score32 f c"
    using Cons.IH by blast
  have le: "score32 f b1 \<le> score32 f b0" "score32 f b1 \<le> score32 f c"
    by (auto simp: b1_def not_less)
  have "score32 f b \<le> score32 f b1" using b(3) by simp
  with le b have "\<forall>x \<in> set (b0 # c # cs). score32 f b \<le> score32 f x" by auto
  moreover have "b \<in> set (b0 # c # cs)" using b(2) by (auto simp: b1_def split: if_splits)
  ultimately show ?case using b(1) step by simp
qed simp

lemma rank_by_min:
  assumes "cs \<noteq> []"
  shows "rank_by f cs \<in> set cs \<and> (\<forall>c \<in> set cs. score32 f (rank_by f cs) \<le> score32 f c)"
proof -
  obtain c cs' where cs: "cs = c # cs'" using assms by (cases cs) auto
  have "rank_step f (noCand, -1) c = (c, score32 f c)"
    using score32_below_max by (simp add: rank_step_alt)
  then show ?thesis using rank_foldl [of f c cs'] cs by (auto simp: rank_by_def)
qed

lemma rank_by_min_full:
  assumes "cs \<noteq> []" "\<forall>c \<in> set cs. unat (f c) < 2 ^ 32" "c \<in> set cs"
  shows "f (rank_by f cs) \<le> f c"
proof -
  have "unat (score32 f (rank_by f cs)) \<le> unat (score32 f c)"
    using rank_by_min [OF assms(1)] assms(3) by (simp add: word_le_nat_alt)
  moreover have "rank_by f cs \<in> set cs" using rank_by_min [OF assms(1)] by blast
  ultimately show ?thesis using assms(2,3) by (simp add: score32_unat word_le_nat_alt)
qed

subsection \<open>NRU: the victim has the least age value\<close>

definition nru_seen :: "NRUReplPolicy \<Rightarrow> nat list \<Rightarrow> NRUReplPolicy \<Rightarrow> bool" where
  "nru_seen rp0 ps rp \<longleftrightarrow>
     nru_array rp = nru_array rp0 \<and> length (nru_candArray rp) = length (nru_candArray rp0)
     \<and> candIdx rp \<le> length ps \<and> (ps \<noteq> [] \<longrightarrow> candIdx rp > 0)
     \<and> (ps = [] \<longrightarrow> candVal rp = 2 ^ 20)
     \<and> (\<forall>j < candIdx rp. nru_candArray rp ! j \<in> set ps
            \<and> nru_array rp ! (nru_candArray rp ! j) = candVal rp)
     \<and> (\<forall>c \<in> set ps. candVal rp \<le> nru_array rp ! c)"

lemma nru_seen_step:
  assumes "nru_seen rp0 ps rp" "nru_array rp0 ! c < 2 ^ 20" "length ps < length (nru_candArray rp0)"
  shows "nru_seen rp0 (ps @ [c]) (NRU_recordCandidate rp c)"
proof -
  let ?v = "nru_array rp ! c"
  have len: "candIdx rp < length (nru_candArray rp)" "0 < length (nru_candArray rp)"
    using assms by (auto simp: nru_seen_def)
  consider (less) "?v < candVal rp" | (same) "?v = candVal rp" | (more) "?v > candVal rp"
    by linarith
  then show ?thesis
  proof cases
    case less
    then show ?thesis using assms(1) len by (auto simp: nru_seen_def NRU_recordCandidate_def Let_def)
  next
    case same
    then show ?thesis using assms(1) len
      by (auto simp: nru_seen_def NRU_recordCandidate_def Let_def nth_list_update less_Suc_eq)
  next
    case more
    then have "ps \<noteq> []" using assms by (auto simp: nru_seen_def)
    with more show ?thesis using assms(1) len
      by (auto simp: nru_seen_def NRU_recordCandidate_def Let_def)
  qed
qed

lemma nru_seen_foldl:
  assumes "candIdx rp = 0" "candVal rp = 2 ^ 20" "length cs \<le> length (nru_candArray rp)"
    and "\<forall>c \<in> set cs. nru_array rp ! c < 2 ^ 20"
  shows "nru_seen rp cs (foldl NRU_recordCandidate rp cs)"
  using assms(3,4)
proof (induction cs rule: rev_induct)
  case Nil
  show ?case using assms(1,2) by (simp add: nru_seen_def)
next
  case (snoc c cs)
  then have "nru_seen rp cs (foldl NRU_recordCandidate rp cs)" by simp
  from nru_seen_step [OF this] snoc.prems show ?case by simp
qed

lemma NRU_rank_min:
  assumes "candIdx rp = 0" "candVal rp = 2 ^ 20" "length cs \<le> length (nru_candArray rp)"
    and "\<forall>c \<in> set cs. nru_array rp ! c < 2 ^ 20" and "cs \<noteq> []"
  shows "\<exists>v rp'. NRU_rank rp cs = Some (v, rp') \<and> v \<in> set cs
    \<and> (\<forall>c \<in> set cs. nru_array rp ! v \<le> nru_array rp ! c)"
proof -
  define rp' where "rp' = foldl NRU_recordCandidate rp cs"
  have inv: "nru_seen rp cs rp'" unfolding rp'_def by (rule nru_seen_foldl [OF assms(1-4)])
  then have pos: "candIdx rp' > 0" using assms(5) by (simp add: nru_seen_def)
  define v where "v = nru_candArray rp' ! (youngLines rp' mod candIdx rp')"
  have "youngLines rp' mod candIdx rp' < candIdx rp'" using pos by simp
  then have v: "v \<in> set cs" "nru_array rp' ! v = candVal rp'"
    using inv unfolding v_def nru_seen_def by blast+
  have "NRU_rank rp cs = Some (v, rp')"
    using pos by (simp add: NRU_rank_def NRU_getBestCandidate_def rp'_def [symmetric] v_def)
  moreover have "\<forall>c \<in> set cs. nru_array rp ! v \<le> nru_array rp ! c"
    using inv v(2) by (auto simp: nru_seen_def)
  ultimately show ?thesis using v(1) by blast
qed

lemma or_2_small: "(v :: nat) < 4 \<Longrightarrow> v OR 2 < 4"
proof -
  assume "v < 4"
  then consider "v = 0" | "v = 1" | "v = 2" | "v = 3" by linarith
  then show ?thesis by cases simp_all
qed

lemma NRU_update_values:
  assumes "\<forall>v \<in> set (nru_array rp). v < 4" "i < length (nru_array rp)"
  shows "\<forall>v \<in> set (nru_array (NRU_update i rp)). v < 4"
proof -
  have "nru_array rp ! i OR 2 < 4" using assms by (intro or_2_small) auto
  then have arr: "\<forall>v \<in> set ((nru_array rp)[i := nru_array rp ! i OR 2]). v < 4"
    using assms(1) set_update_subset_insert [of "nru_array rp" i] by blast
  then have "\<forall>v \<in> set (map (\<lambda>v. v div 2) ((nru_array rp)[i := nru_array rp ! i OR 2])). v < 4"
    by (auto intro!: le_less_trans [OF div_le_dividend])
  with arr show ?thesis by (simp add: NRU_update_def Let_def)
qed

subsection \<open>LFU: invalid lines go first\<close>

lemma LFU_record_best:
  "bestCandidate (LFU_recordCandidate cc rp i)
     = (if bestCandidate rp = None \<or> bestCandidate (LFU_recordCandidate cc rp i) = Some i
        then Some i else bestCandidate rp)"
  by (simp add: LFU_recordCandidate_def Let_def)

definition lfu_seen :: "cc_query \<Rightarrow> nat list \<Rightarrow> LFUReplPolicy \<Rightarrow> bool" where
  "lfu_seen cc ps rp \<longleftrightarrow> (ps = [] \<and> bestCandidate rp = None) \<or>
     (\<exists>b \<in> set ps. bestCandidate rp = Some b \<and> valid (bestRank rp) = cc_isValid cc b
        \<and> ((\<exists>c \<in> set ps. \<not> cc_isValid cc c) \<longrightarrow> \<not> cc_isValid cc b))"

lemma lfu_seen_step:
  assumes "lfu_seen cc ps rp"
  shows "lfu_seen cc (ps @ [c]) (LFU_recordCandidate cc rp c)"
proof (cases "bestCandidate (LFU_recordCandidate cc rp c) = Some c
      \<and> valid (bestRank (LFU_recordCandidate cc rp c)) = cc_isValid cc c
      \<and> (bestCandidate rp = None \<or> LFU_lessThan \<lparr>lfuInfo = lfu_array rp ! c,
            sharers = cc_numSharers cc c, valid = cc_isValid cc c\<rparr> (bestRank rp) (lfu_timestamp rp))")
  case True
  then have "cc_isValid cc c \<Longrightarrow> bestCandidate rp \<noteq> None \<Longrightarrow> valid (bestRank rp)"
    by (auto simp: LFU_lessThan_def split: if_splits)
  with True assms show ?thesis unfolding lfu_seen_def by fastforce
next
  case False
  then have keep: "LFU_recordCandidate cc rp c = rp" "bestCandidate rp \<noteq> None"
    and le: "\<not> LFU_lessThan \<lparr>lfuInfo = lfu_array rp ! c, sharers = cc_numSharers cc c,
        valid = cc_isValid cc c\<rparr> (bestRank rp) (lfu_timestamp rp)"
    by (auto simp: LFU_recordCandidate_def Let_def split: if_splits)
  from le have "\<not> cc_isValid cc c \<Longrightarrow> \<not> valid (bestRank rp)"
    by (auto simp: LFU_lessThan_def)
  with keep assms show ?thesis unfolding lfu_seen_def by fastforce
qed

lemma lfu_seen_foldl:
  assumes "bestCandidate rp = None"
  shows "lfu_seen cc cs (foldl (LFU_recordCandidate cc) rp cs)"
proof (induction cs rule: rev_induct)
  case (snoc c cs)
  from lfu_seen_step [OF snoc] show ?case by simp
qed (simp add: lfu_seen_def assms)

lemma LFU_rank_cases:
  assumes "bestCandidate rp = None" "cs \<noteq> []"
  shows "\<exists>v rp'. LFU_rank cc rp cs = Some (v, rp') \<and> v \<in> set cs
    \<and> ((\<exists>c \<in> set cs. \<not> cc_isValid cc c) \<longrightarrow> \<not> cc_isValid cc v)"
proof -
  define rp' where "rp' = foldl (LFU_recordCandidate cc) rp cs"
  have "lfu_seen cc cs rp'" unfolding rp'_def by (rule lfu_seen_foldl [OF assms(1)])
  then obtain b where b: "b \<in> set cs" "bestCandidate rp' = Some b"
      "(\<exists>c \<in> set cs. \<not> cc_isValid cc c) \<longrightarrow> \<not> cc_isValid cc b"
    using assms(2) by (auto simp: lfu_seen_def)
  then have "LFU_rank cc rp cs = Some (b, rp')"
    by (simp add: LFU_rank_def LFU_getBestCandidate_def rp'_def [symmetric])
  with b show ?thesis by blast
qed

subsection \<open>Random: the victim is one of the candidates\<close>

lemma Rand_record_foldl:
  "rand_candIdx rp + length cs \<le> length (rand_candArray rp) \<Longrightarrow>
   rand_candIdx (foldl Rand_recordCandidate rp cs) = rand_candIdx rp + length cs
   \<and> rnd (foldl Rand_recordCandidate rp cs) = rnd rp
   \<and> rand_numCands (foldl Rand_recordCandidate rp cs) = rand_numCands rp
   \<and> length (rand_candArray (foldl Rand_recordCandidate rp cs)) = length (rand_candArray rp)
   \<and> (\<forall>j < length (rand_candArray rp). rand_candArray (foldl Rand_recordCandidate rp cs) ! j
        = (if rand_candIdx rp \<le> j \<and> j < rand_candIdx rp + length cs
           then cs ! (j - rand_candIdx rp) else rand_candArray rp ! j))"
proof (induction cs arbitrary: rp)
  case (Cons c cs)
  have "rand_candIdx (Rand_recordCandidate rp c) + length cs
      \<le> length (rand_candArray (Rand_recordCandidate rp c))"
    using Cons.prems by (simp add: Rand_recordCandidate_def)
  from Cons.IH [OF this] Cons.prems show ?case
    by (auto simp: Rand_recordCandidate_def nth_list_update nth_Cons' Suc_le_eq)
qed simp

lemma Rand_rank_in:
  assumes "rp_rest (length cs) lines (RP_Rand rp)" "cs \<noteq> []" "Rand_rank rp cs = Some (v, rp')"
  shows "v \<in> set cs"
proof -
  define rp1 where "rp1 = foldl Rand_recordCandidate rp cs"
  have fold: "rand_candIdx rp1 = length cs" "rnd rp1 = rnd rp" "rand_numCands rp1 = length cs"
    "\<forall>j < length cs. rand_candArray rp1 ! j = cs ! j"
    using Rand_record_foldl [of rp cs] assms(1) by (auto simp: rp1_def)
  obtain i g where i: "randInt_n (of_nat (length cs - 1)) (rnd rp) = Some (i, g)"
      "v = rand_candArray rp1 ! unat i"
    using assms(3) fold
    by (auto simp: Rand_rank_def Rand_getBestCandidate_def rp1_def [symmetric] abort_simps)
  have "i \<le> of_nat (length cs - 1)"
    using randInt_loop_result [of _ _ "rnd rp" "(i, g)"] i(1) assms(1) by (simp add: randInt_n_def)
  moreover have "unat (of_nat (length cs - 1) :: u64) = length cs - 1"
    using assms(1) by (auto simp: unat_of_nat take_bit_eq_mod)
  ultimately have "unat i \<le> length cs - 1" by (simp add: word_le_nat_alt)
  then have "unat i < length cs" using assms(2) by (cases cs) auto
  with fold i(2) show ?thesis by simp
qed

subsection \<open>Tree LRU: the tournament leaves the half with the most recent line\<close>

lemma foldl_max_bounds:
  fixes f :: "nat \<Rightarrow> 'a::linorder"
  shows "t0 \<le> foldl (\<lambda>t i. if t > f i then t else f i) t0 xs
    \<and> (\<forall>i \<in> set xs. f i \<le> foldl (\<lambda>t i. if t > f i then t else f i) t0 xs)
    \<and> (foldl (\<lambda>t i. if t > f i then t else f i) t0 xs \<in> insert t0 (f ` set xs))"
proof (induction xs arbitrary: t0)
  case (Cons x xs)
  show ?case using Cons.IH [of "if t0 > f x then t0 else f x"]
    by (auto simp: not_less split: if_splits)
qed simp

lemma tree_descend_range: "start < fin \<Longrightarrow> start \<le> tree_descend arr cs start fin
    \<and> tree_descend arr cs start fin < fin"
proof (induction arr cs start fin rule: tree_descend.induct)
  case (1 arr cs start fin)
  define pivot where "pivot = start + (fin - start) div 2"
  show ?case
  proof (cases "fin - start > 1")
    case True
    then have p: "start < pivot" "pivot < fin" unfolding pivot_def by linarith+
    show ?thesis
    proof (cases "tree_max arr cs start pivot > tree_max arr cs pivot fin")
      case t: True
      have "pivot \<le> tree_descend arr cs pivot fin \<and> tree_descend arr cs pivot fin < fin"
        using "1.IH"(1) [OF True pivot_def refl refl t] p(2) by blast
      moreover have "tree_descend arr cs start fin = tree_descend arr cs pivot fin"
        using True t by (simp add: tree_descend.simps [of arr cs start fin] pivot_def [symmetric])
      ultimately show ?thesis using p by simp
    next
      case t: False
      have "start \<le> tree_descend arr cs start pivot \<and> tree_descend arr cs start pivot < pivot"
        using "1.IH"(2) [OF True pivot_def refl refl t] p(1) by blast
      moreover have "tree_descend arr cs start fin = tree_descend arr cs start pivot"
        using True t by (simp add: tree_descend.simps [of arr cs start fin] pivot_def [symmetric])
      ultimately show ?thesis using p by simp
    qed
  next
    case False
    then show ?thesis using "1.prems" by (simp add: tree_descend.simps [of arr cs start fin])
  qed
qed

lemma tree_max_in:
  assumes "a \<le> m" "m < b" "\<And>i. a \<le> i \<Longrightarrow> i < b \<Longrightarrow> arr ! (cs ! i) \<le> arr ! (cs ! m)"
  shows "tree_max arr cs a b = arr ! (cs ! m)"
proof (rule antisym)
  have fb: "tree_max arr cs a b \<in> insert 0 ((\<lambda>i. arr ! (cs ! i)) ` set [a..<b])"
    "\<forall>i \<in> set [a..<b]. arr ! (cs ! i) \<le> tree_max arr cs a b"
    using foldl_max_bounds [of 0 "\<lambda>i. arr ! (cs ! i)" "[a..<b]"] unfolding tree_max_def by blast+
  show "arr ! (cs ! m) \<le> tree_max arr cs a b" using fb(2) assms(1,2) by simp
  show "tree_max arr cs a b \<le> arr ! (cs ! m)"
  proof (cases "tree_max arr cs a b = 0")
    case False
    then obtain i where "i \<in> set [a..<b]" "tree_max arr cs a b = arr ! (cs ! i)" using fb(1) by blast
    then show ?thesis using assms(3) [of i] by simp
  qed simp
qed

lemma tree_max_below:
  assumes "0 < w" "\<And>i. a \<le> i \<Longrightarrow> i < b \<Longrightarrow> arr ! (cs ! i) < w"
  shows "tree_max arr cs a b < w"
proof -
  have "tree_max arr cs a b \<in> insert 0 ((\<lambda>i. arr ! (cs ! i)) ` set [a..<b])"
    using foldl_max_bounds [of 0 "\<lambda>i. arr ! (cs ! i)" "[a..<b]"] unfolding tree_max_def by blast
  with assms show ?thesis by fastforce
qed

lemma tree_descend_spares:
  assumes "1 < n" "m < n" "0 < arr ! (cs ! m)"
    and others: "\<And>i. i < n \<Longrightarrow> i \<noteq> m \<Longrightarrow> arr ! (cs ! i) < arr ! (cs ! m)"
  shows "tree_descend arr cs 0 n \<noteq> m"
proof -
  have le: "arr ! (cs ! i) \<le> arr ! (cs ! m)" if "i < n" for i
    using others [OF that] by (cases "i = m") auto
  show ?thesis
proof (cases "m < n div 2")
  case True
  have "tree_max arr cs 0 (n div 2) = arr ! (cs ! m)"
    using True by (intro tree_max_in le) auto
  moreover have "tree_max arr cs (n div 2) n < arr ! (cs ! m)"
    using True assms(3) others by (intro tree_max_below) auto
  ultimately have "tree_max arr cs 0 (n div 2) > tree_max arr cs (n div 2) n" by simp
  then have "tree_descend arr cs 0 n = tree_descend arr cs (n div 2) n"
    using assms(1) by (simp add: tree_descend.simps [of arr cs 0 n] Let_def)
  moreover have "n div 2 < n" using assms(1) by simp
  ultimately show ?thesis using tree_descend_range [of "n div 2" n arr cs] True by auto
next
  case False
  have "tree_max arr cs (n div 2) n = arr ! (cs ! m)"
    using False assms(2) by (intro tree_max_in le) auto
  moreover have "tree_max arr cs 0 (n div 2) < arr ! (cs ! m)"
    using False assms(3) others by (intro tree_max_below) auto
  ultimately have "\<not> tree_max arr cs 0 (n div 2) > tree_max arr cs (n div 2) n" by (simp add: not_less le_less)
  then have "tree_descend arr cs 0 n = tree_descend arr cs 0 (n div 2)"
    using assms(1) by (simp add: tree_descend.simps [of arr cs 0 n] Let_def)
  moreover have "0 < n div 2" using assms(1) by simp
  ultimately show ?thesis using tree_descend_range [of 0 "n div 2" arr cs] False by auto
qed
qed

subsection \<open>The interface: a policy at rest returns one of the candidates\<close>

locale repl_policy =
  fixes rank :: "nat list \<Rightarrow> 'p \<Rightarrow> (nat \<times> 'p) option"
    and rest :: "nat \<Rightarrow> nat \<Rightarrow> 'p \<Rightarrow> bool"
    and replaced :: "nat \<Rightarrow> 'p \<Rightarrow> 'p"
    and update :: "nat \<Rightarrow> AccessType \<Rightarrow> cycle \<Rightarrow> 'p \<Rightarrow> 'p option"
  assumes rank_in: "rest (length cs) lines p \<Longrightarrow> cs \<noteq> [] \<Longrightarrow> \<forall>c \<in> set cs. c < lines \<Longrightarrow>
      rank cs p = Some (v, p') \<Longrightarrow> v \<in> set cs"
    and replaced_rest: "rest (length cs) lines p \<Longrightarrow> rank cs p = Some (v, p') \<Longrightarrow> i < lines \<Longrightarrow>
      rest (length cs) lines (replaced i p')"
    and update_rest: "rest n lines p \<Longrightarrow> i < lines \<Longrightarrow> update i ty cyc p = Some p' \<Longrightarrow> rest n lines p'"
begin

text \<open>One replacement: rank, then \<open>replaced\<close> and \<open>update\<close> on a line, leaves the policy at rest.\<close>

lemma turn_rest:
  assumes "rest (e - b) lines p" "rank [b..<e] p = Some (v, p')" "i < lines"
    and "update i ty cyc (replaced i p') = Some p''"
  shows "rest (e - b) lines p''"
  using update_rest [OF _ assms(3,4)] replaced_rest [of "[b..<e]" lines p v p' i] assms by simp

lemma victim_in_interval:
  assumes "rest (e - b) lines p" "b < e" "e \<le> lines" "rank [b..<e] p = Some (v, p')"
  shows "b \<le> v \<and> v < e"
  using rank_in [of "[b..<e]" lines p v p'] assms by auto

lemma victim_below:
  assumes "rest (length cs) lines p" "cs \<noteq> []" "\<forall>c \<in> set cs. c < lines" "rank cs p = Some (v, p')"
  shows "v < lines"
  using rank_in [OF assms] assms(3) by blast

end

lemma rp_rankCands_in:
  assumes "rp_rest (length cs) lines p" "cs \<noteq> []" "\<forall>c \<in> set cs. c < lines"
    and "rp_rankCands cc src cs p = Some (v, p')"
  shows "v \<in> set cs"
proof (cases p)
  case (RP_NRU q)
  have "\<forall>c \<in> set cs. nru_array q ! c < 2 ^ 20"
  proof
    fix c assume "c \<in> set cs"
    then have "nru_array q ! c \<in> set (nru_array q)" using assms RP_NRU by force
    then show "nru_array q ! c < 2 ^ 20" using assms(1) RP_NRU by force
  qed
  then obtain w q' where w: "NRU_rank q cs = Some (w, q')" "w \<in> set cs"
    using NRU_rank_min [of q cs] assms RP_NRU by auto
  with assms RP_NRU show ?thesis by auto
next
  case (RP_Rand q)
  with assms Rand_rank_in [of cs lines q] show ?thesis by (auto simp: map_prod_def)
next
  case (RP_LFU q)
  obtain w q' where "LFU_rank cc q cs = Some (w, q')" "w \<in> set cs"
    using LFU_rank_cases [of q cs cc] assms RP_LFU by auto
  with assms RP_LFU show ?thesis by auto
qed (use assms rank_by_min [OF assms(2)] in \<open>auto simp: LRU_rank_def SHARP_rank_def\<close>)

lemma NRU_record_foldl_frame:
  "nru_array (foldl NRU_recordCandidate p cs) = nru_array p
   \<and> length (nru_candArray (foldl NRU_recordCandidate p cs)) = length (nru_candArray p)"
proof (induction cs arbitrary: p)
  case (Cons c cs)
  then show ?case by (simp add: NRU_recordCandidate_def Let_def)
qed simp

lemma set_update_all: "\<forall>v \<in> set xs. P v \<Longrightarrow> P x \<Longrightarrow> \<forall>v \<in> set (xs[i := x]). P v"
  using set_update_subset_insert by fastforce

lemma rp_replaced_rest:
  assumes "rp_rest (length cs) lines p" "rp_rankCands cc src cs p = Some (v, p')" "i < lines"
  shows "rp_rest (length cs) lines (rp_replaced i p')"
proof (cases p)
  case (RP_NRU q)
  then obtain q' where "p' = RP_NRU q'" "q' = foldl NRU_recordCandidate q cs"
    using assms(2) by (auto simp: NRU_rank_def Let_def abort_simps)
  moreover have "\<forall>v \<in> set ((nru_array q)[i := 0]). v < 4"
    by (rule set_update_all) (use assms(1) RP_NRU in auto)
  ultimately show ?thesis using assms(1) RP_NRU NRU_record_foldl_frame [of q cs]
    by (simp add: NRU_replaced_def)
next
  case (RP_Rand q)
  define q1 where "q1 = foldl Rand_recordCandidate q cs"
  obtain j g where j: "randInt_n (of_nat (rand_numCands q1 - 1)) (rnd q1) = Some (j, g)"
      "p' = RP_Rand (q1\<lparr>rnd := g\<rparr>)"
    using assms(2) RP_Rand
    by (auto simp: Rand_rank_def Rand_getBestCandidate_def q1_def [symmetric] abort_simps
        split: if_splits)
  have fold: "rnd q1 = rnd q" "rand_numCands q1 = length cs" "length (rand_candArray q1) = length cs"
    using Rand_record_foldl [of q cs] assms(1) RP_Rand by (auto simp: q1_def)
  have "mt_wf g"
    using randInt_loop_result [of _ _ "rnd q1" "(j, g)"] j(1) assms(1) RP_Rand fold
    by (simp add: randInt_n_def)
  with j fold assms(1) RP_Rand show ?thesis by (simp add: Rand_replaced_def)
next
  case (RP_LFU q)
  with assms show ?thesis by (auto simp: LFU_replaced_def)
qed (use assms in auto)

lemma rp_update_rest:
  assumes "rp_rest n lines p" "i < lines" "rp_update i ty cyc p = Some p'"
  shows "rp_rest n lines p'"
proof (cases p)
  case (RP_NRU q)
  then show ?thesis using assms NRU_update_values [of q i]
    by (auto simp: NRU_update_def Let_def split: if_splits)
qed (use assms in \<open>auto simp: LFU_update_def Let_def\<close>)

interpretation rp: repl_policy "rp_rankCands cc src" rp_rest rp_replaced rp_update for cc src
  by unfold_locales (rule rp_rankCands_in rp_replaced_rest rp_update_rest; assumption)+

subsection \<open>Properties\<close>

text \<open>C40: while recency stamps fit in 32 bits, plain LRU evicts one of its candidates; it evicts a line
  that is not valid (or was never stamped) if there is one, and otherwise a least recently used line.\<close>

theorem LRU_victim_least_recent:
  assumes "cs \<noteq> []" "\<not> sharersAware rp" "\<forall>c \<in> set cs. unat (lru_array rp ! c) < 2 ^ 32"
  shows "LRU_rank cc rp cs \<in> set cs
    \<and> (\<forall>c \<in> set cs. cc_isValid cc (LRU_rank cc rp cs) \<longrightarrow> cc_isValid cc c \<longrightarrow>
          lru_array rp ! LRU_rank cc rp cs \<le> lru_array rp ! c)
    \<and> ((\<exists>c \<in> set cs. \<not> cc_isValid cc c) \<longrightarrow>
          \<not> cc_isValid cc (LRU_rank cc rp cs) \<or> lru_array rp ! LRU_rank cc rp cs = 0)"
proof -
  let ?v = "LRU_rank cc rp cs"
  have sc: "LRU_score cc rp c = (if cc_isValid cc c then lru_array rp ! c else 0)" for c
    using assms(2) by (simp add: LRU_score_def b2w_def)
  have v: "?v \<in> set cs" using rank_by_min [OF assms(1)] unfolding LRU_rank_def by blast
  have min: "LRU_score cc rp ?v \<le> LRU_score cc rp c" if "c \<in> set cs" for c
    unfolding LRU_rank_def using assms that by (intro rank_by_min_full) (auto simp: sc)
  from v min show ?thesis by (force simp: sc)
qed

theorem LRU_victim_least_recent_witness:
  "LRU_rank \<lparr>cc_numSharers = \<lambda>_. 0, cc_isValid = \<lambda>_. True, cc_isSharer = \<lambda>_ _. False\<rparr>
     \<lparr>sharersAware = False, timestamp = 9, lru_array = [7, 3, 8]\<rparr> [0, 1, 2] \<in> set [0, 1, 2]"
proof -
  have "[0, 1, 2 :: nat] \<noteq> []" "\<not> sharersAware \<lparr>sharersAware = False, timestamp = 9, lru_array = [7, 3, 8]\<rparr>"
    "\<forall>c \<in> set [0, 1, 2]. unat (lru_array \<lparr>sharersAware = False, timestamp = 9, lru_array = [7, 3, 8]\<rparr> ! c) < 2 ^ 32"
    by simp_all
  from LRU_victim_least_recent [OF this] show ?thesis by blast
qed

text \<open>\<^verbatim>\<open>rank\<close> keeps the score in a \<^verbatim>\<open>uint32_t\<close>: once stamps pass \<open>2\<^sup>3\<^sup>2\<close> it evicts the most recently
  used line although an older valid line is a candidate.\<close>

lemma LRU_rank_truncates:
  "LRU_rank \<lparr>cc_numSharers = \<lambda>_. 0, cc_isValid = \<lambda>_. True, cc_isSharer = \<lambda>_ _. False\<rparr>
     (LRU_update 0 \<lparr>sharersAware = False, timestamp = 2 ^ 32, lru_array = [7, 5]\<rparr>) [0, 1] = 0"
proof -
  have "(0 :: u64) < - 1" by code_simp
  then show ?thesis
    by (simp add: LRU_rank_def rank_by_def rank_step_def LRU_score_def LRU_update_def b2w_def Let_def
        noCand_def)
qed

text \<open>NRU at rest always finds a victim, and the victim's age value is least among the candidates.\<close>

lemma NRU_victim_least_age:
  assumes "rp_rest (length cs) lines (RP_NRU rp)" "cs \<noteq> []" "\<forall>c \<in> set cs. c < lines"
  shows "\<exists>v rp'. NRU_rank rp cs = Some (v, rp') \<and> v \<in> set cs
    \<and> (\<forall>c \<in> set cs. nru_array rp ! v \<le> nru_array rp ! c)"
proof -
  have "\<forall>c \<in> set cs. nru_array rp ! c < 2 ^ 20"
  proof
    fix c assume "c \<in> set cs"
    then have "nru_array rp ! c \<in> set (nru_array rp)" using assms by force
    then show "nru_array rp ! c < 2 ^ 20" using assms(1) by force
  qed
  then show ?thesis using NRU_rank_min [of rp cs] assms by simp
qed

text \<open>LFU at rest always finds a victim among the candidates, and takes a line that is not valid
  when there is one.\<close>

lemma LFU_victim_invalid_first:
  assumes "bestCandidate rp = None" "cs \<noteq> []"
  shows "\<exists>v rp'. LFU_rank cc rp cs = Some (v, rp') \<and> v \<in> set cs
    \<and> ((\<exists>c \<in> set cs. \<not> cc_isValid cc c) \<longrightarrow> \<not> cc_isValid cc v)"
  by (rule LFU_rank_cases [OF assms])

text \<open>the tournament of tree LRU ends inside the candidates and never on the most recently used one
  of at least two.\<close>

lemma TreeLRU_spares_most_recent:
  assumes "1 < tree_numCands rp" "tree_candIdx rp = tree_numCands rp" "m < tree_numCands rp"
    and "0 < lru_array (tree_lru rp) ! (tree_candArray rp ! m)"
    and "\<forall>i < tree_numCands rp. i \<noteq> m \<longrightarrow> lru_array (tree_lru rp) ! (tree_candArray rp ! i)
          < lru_array (tree_lru rp) ! (tree_candArray rp ! m)"
  shows "\<exists>i < tree_numCands rp. i \<noteq> m \<and> TreeLRU_getBestCandidate rp = Some (tree_candArray rp ! i)"
proof -
  let ?i = "tree_descend (lru_array (tree_lru rp)) (tree_candArray rp) 0 (tree_numCands rp)"
  have "?i < tree_numCands rp" using tree_descend_range assms(1) by simp
  moreover have "?i \<noteq> m" using tree_descend_spares assms(1,3,4,5) by blast
  ultimately show ?thesis using assms(2) by (auto simp: TreeLRU_getBestCandidate_def)
qed

end
