(* ===== verification/CacheArrays.thy ===== *)
theory CacheArrays
  imports Hash ReplPolicies
begin

text \<open>
  The tag arrays of \<^verbatim>\<open>src/src/cache_arrays.h\<close> and \<^verbatim>\<open>cache_arrays.cpp\<close>: the set-associative array with
  its set and way partitioning modes, and the CEASER array, which re-hashes itself set by set. An array
  maps line addresses to line identifiers; address 0 marks an empty slot.

  \<^verbatim>\<open>lookup\<close> returns \<open>None\<close> for the C++ result -1. The configuration the arrays read (\<^verbatim>\<open>zinfo\<close> and the
  process-wide \<^verbatim>\<open>proc_partition\<close>) is the record \<open>part_cfg\<close>.
\<close>

record part_cfg =
  setPartition :: bool
  wayPartition :: bool
  proc_partition :: nat
  pc_numCores :: nat

subsection \<open>The set-associative array\<close>

record SetAssocArray =
  sa_array :: "addr list"
  sa_rp :: ReplPolicy
  sa_hf :: HashFamily
  numLines :: nat
  numSets :: nat
  assoc :: nat
  setMask :: u32
  isLLC :: bool
  partitionSetCount :: nat
  partitionMask :: u32
  partitionAssoc :: nat

definition SetAssocArray_new ::
  "part_cfg \<Rightarrow> nat \<Rightarrow> nat \<Rightarrow> ReplPolicy \<Rightarrow> HashFamily \<Rightarrow> bool \<Rightarrow> SetAssocArray option" where
  "SetAssocArray_new z nLines nAssoc rp hf llc = do {
     let nSets = nLines div nAssoc;
     assert_that (isPow2 (of_nat nSets :: u32));
     let psc = nSets div pc_numCores z;
     let pa = nAssoc div pc_numCores z;
     Some \<lparr>sa_array = replicate nLines 0, sa_rp = rp, sa_hf = hf, numLines = nLines, numSets = nSets,
           assoc = nAssoc, setMask = of_nat nSets - 1, isLLC = llc, partitionSetCount = psc,
           partitionMask = of_nat psc - 1, partitionAssoc = (if pa = 0 then 1 else pa)\<rparr> }"

text \<open>The stretch of lines an address may occupy, as the three branches of \<^verbatim>\<open>lookup\<close> and \<^verbatim>\<open>preinsert\<close>
  compute it.\<close>

definition sa_region :: "part_cfg \<Rightarrow> SetAssocArray \<Rightarrow> addr \<Rightarrow> (nat \<times> nat) option" where
  "sa_region z a lineAddr = do {
     h \<leftarrow> hf_hash (sa_hf a) 0 lineAddr;
     if isLLC a \<and> setPartition z then
       let set = unat (h AND ucast (partitionMask a)) + partitionSetCount a * proc_partition z;
           first = set * assoc a
       in Some (first, first + assoc a)
     else if isLLC a \<and> wayPartition z then
       let set = unat (h AND ucast (setMask a));
           low = set * assoc a
             + unat ((of_nat (proc_partition z * partitionAssoc a) :: u32) AND (of_nat (assoc a) - 1))
       in Some (low, low + partitionAssoc a)
     else
       let set = unat (h AND ucast (setMask a)); first = set * assoc a
       in Some (first, first + assoc a) }"

text \<open>The search loop: the first identifier of the stretch that holds the address.\<close>

fun find_line :: "addr list \<Rightarrow> addr \<Rightarrow> nat list \<Rightarrow> nat option" where
  "find_line arr lineAddr [] = None"
| "find_line arr lineAddr (i # is) =
     (if arr ! i = lineAddr then Some i else find_line arr lineAddr is)"

definition SetAssoc_lookup ::
  "part_cfg \<Rightarrow> addr \<Rightarrow> MemReq option \<Rightarrow> bool \<Rightarrow> SetAssocArray \<Rightarrow> (nat option \<times> SetAssocArray) option"
where
  "SetAssoc_lookup z lineAddr req updateReplacement a = do {
     (low, high) \<leftarrow> sa_region z a lineAddr;
     case find_line (sa_array a) lineAddr [low..<high] of
       None \<Rightarrow> Some (None, a)
     | Some lineId \<Rightarrow>
         if updateReplacement then do {
           r \<leftarrow> req;
           rp \<leftarrow> rp_update lineId (r_type r) (r_cycle r) (sa_rp a);
           Some (Some lineId, a\<lparr>sa_rp := rp\<rparr>) }
         else Some (Some lineId, a) }"

text \<open>\<^verbatim>\<open>preinsert\<close> gives the victim line and the address to write back.\<close>

definition SetAssoc_preinsert ::
  "part_cfg \<Rightarrow> cc_query \<Rightarrow> addr \<Rightarrow> MemReq \<Rightarrow> SetAssocArray \<Rightarrow> (nat \<times> addr \<times> SetAssocArray) option" where
  "SetAssoc_preinsert z cc lineAddr req a = do {
     (low, high) \<leftarrow> sa_region z a lineAddr;
     (candidate, rp) \<leftarrow> rp_rankCands cc (r_srcId req) [low..<high] (sa_rp a);
     Some (candidate, sa_array a ! candidate, a\<lparr>sa_rp := rp\<rparr>) }"

definition SetAssoc_postinsert ::
  "addr \<Rightarrow> MemReq \<Rightarrow> nat \<Rightarrow> SetAssocArray \<Rightarrow> SetAssocArray option" where
  "SetAssoc_postinsert lineAddr req candidate a = do {
     let a1 = a\<lparr>sa_rp := rp_replaced candidate (sa_rp a), sa_array := (sa_array a)[candidate := lineAddr]\<rparr>;
     rp \<leftarrow> rp_update candidate (r_type req) (r_cycle req) (sa_rp a1);
     Some (a1\<lparr>sa_rp := rp\<rparr>) }"

subsection \<open>The CEASER array\<close>

record CEASERArray =
  ce_array :: "addr list"
  hf_current :: HashFamily
  hf_target :: HashFamily
  ce_numLines :: nat
  ce_numSets :: nat
  ce_assoc :: nat
  ce_setMask :: u32
  ce_rng :: MTRand
  switch_array :: "nat list"

definition CEASERArray_new :: "nat \<Rightarrow> nat \<Rightarrow> HashFamily \<Rightarrow> HashFamily \<Rightarrow> CEASERArray option" where
  "CEASERArray_new nLines nAssoc hf_1 hf_2 = do {
     let nSets = nLines div nAssoc;
     assert_that (isPow2 (of_nat nSets :: u32));
     Some \<lparr>ce_array = replicate nLines 0, hf_current = hf_1, hf_target = hf_2, ce_numLines = nLines,
           ce_numSets = nSets, ce_assoc = nAssoc, ce_setMask = of_nat nSets - 1,
           ce_rng = mt_seed 0x322D2523F, switch_array = replicate nSets 0\<rparr> }"

definition ce_index :: "CEASERArray \<Rightarrow> HashFamily \<Rightarrow> addr \<Rightarrow> nat option" where
  "ce_index a hf lineAddr = do { h \<leftarrow> hf_hash hf 0 lineAddr; Some (unat (h AND ucast (ce_setMask a))) }"

text \<open>The set of an address: the current hash, or the target hash once that set has been switched.\<close>

definition ce_set :: "CEASERArray \<Rightarrow> addr \<Rightarrow> nat option" where
  "ce_set a lineAddr = do {
     cset \<leftarrow> ce_index a (hf_current a) lineAddr;
     if switch_array a ! cset = 1 then ce_index a (hf_target a) lineAddr else Some cset }"

definition CEASER_lookup :: "addr \<Rightarrow> CEASERArray \<Rightarrow> (nat option) option" where
  "CEASER_lookup lineAddr a = do {
     cset \<leftarrow> ce_set a lineAddr;
     let first = cset * ce_assoc a;
     Some (find_line (ce_array a) lineAddr [first..<first + ce_assoc a]) }"

definition CEASER_getAddr :: "nat \<Rightarrow> nat \<Rightarrow> CEASERArray \<Rightarrow> addr" where
  "CEASER_getAddr cset way a = ce_array a ! (cset * ce_assoc a + way)"

definition CEASER_getSwitch :: "nat \<Rightarrow> CEASERArray \<Rightarrow> nat" where
  "CEASER_getSwitch cset a = switch_array a ! cset"

definition CEASER_setSwitch :: "nat \<Rightarrow> CEASERArray \<Rightarrow> CEASERArray" where
  "CEASER_setSwitch cset a = a\<lparr>switch_array := (switch_array a)[cset := 1]\<rparr>"

definition CEASER_getReplSet :: "addr \<Rightarrow> CEASERArray \<Rightarrow> nat option" where
  "CEASER_getReplSet lineAddr a = ce_index a (hf_target a) lineAddr"

text \<open>A random way: \<^verbatim>\<open>rng->randInt(assoc - 1) & (assoc - 1)\<close>.\<close>

definition ce_random_way :: "CEASERArray \<Rightarrow> (nat \<times> CEASERArray) option" where
  "ce_random_way a = do {
     (r, g) \<leftarrow> randInt_n (of_nat (ce_assoc a - 1)) (ce_rng a);
     Some (unat (r AND of_nat (ce_assoc a - 1)), a\<lparr>ce_rng := g\<rparr>) }"

definition CEASER_getReplAddr :: "nat \<Rightarrow> CEASERArray \<Rightarrow> (addr \<times> CEASERArray) option" where
  "CEASER_getReplAddr cset a = do {
     (w, a') \<leftarrow> ce_random_way a;
     Some (ce_array a ! (cset * ce_assoc a + w), a') }"

definition CEASER_getReplId :: "nat \<Rightarrow> CEASERArray \<Rightarrow> (addr \<times> nat \<times> CEASERArray) option" where
  "CEASER_getReplId cset a = do {
     (w, a') \<leftarrow> ce_random_way a;
     let candidate = cset * ce_assoc a + w;
     Some (ce_array a ! candidate, candidate, a') }"

definition CEASER_preinsert :: "addr \<Rightarrow> CEASERArray \<Rightarrow> (nat \<times> addr \<times> CEASERArray) option" where
  "CEASER_preinsert lineAddr a = do {
     cset \<leftarrow> ce_set a lineAddr;
     let first = cset * ce_assoc a;
     (w, a') \<leftarrow> ce_random_way a;
     let candidate = first + w;
     Some (candidate, ce_array a ! candidate, a') }"

definition CEASER_postinsert :: "addr \<Rightarrow> nat \<Rightarrow> CEASERArray \<Rightarrow> CEASERArray" where
  "CEASER_postinsert lineAddr candidate a = a\<lparr>ce_array := (ce_array a)[candidate := lineAddr]\<rparr>"

definition CEASER_switchHash :: "CEASERArray \<Rightarrow> CEASERArray" where
  "CEASER_switchHash a = a\<lparr>hf_current := hf_target a, hf_target := hf_current a\<rparr>"

definition CEASER_resetSwitches :: "CEASERArray \<Rightarrow> CEASERArray" where
  "CEASER_resetSwitches a = a\<lparr>switch_array := replicate (ce_numSets a) 0\<rparr>"

definition CEASER_moveAddr ::
  "addr \<Rightarrow> nat \<Rightarrow> addr \<Rightarrow> nat \<Rightarrow> CEASERArray \<Rightarrow> CEASERArray option" where
  "CEASER_moveAddr repl_addr repl_id lineAddr lineId a = do {
     assert_that (ce_array a ! repl_id = repl_addr);
     assert_that (ce_array a ! lineId = lineAddr);
     Some (a\<lparr>ce_array := ((ce_array a)[repl_id := lineAddr])[lineId := 0]\<rparr>) }"

text \<open>The array's part of \<^verbatim>\<open>MESICC::processRefresh\<close>: way by way, a resident line whose target set is
  another one replaces a random line there; then the set counts as switched. The controllers' part is in
  the theory of the controllers.\<close>

fun CEASER_refresh_ways :: "nat \<Rightarrow> nat list \<Rightarrow> CEASERArray \<Rightarrow> CEASERArray option" where
  "CEASER_refresh_ways cset [] a = Some a"
| "CEASER_refresh_ways cset (i # is) a = do {
     let ad = CEASER_getAddr cset i a;
     a1 \<leftarrow> (if ad \<noteq> 0 then do {
              repl_set \<leftarrow> CEASER_getReplSet ad a;
              (repl_addr, repl_id, a') \<leftarrow> CEASER_getReplId repl_set a;
              if repl_set \<noteq> cset
              then CEASER_moveAddr repl_addr repl_id ad (cset * ce_assoc a + i) a'
              else Some a' }
            else Some a);
     CEASER_refresh_ways cset is a1 }"

definition CEASER_refresh_set :: "nat \<Rightarrow> CEASERArray \<Rightarrow> CEASERArray option" where
  "CEASER_refresh_set cset a = do {
     assert_that (switch_array a ! cset = 0);
     a1 \<leftarrow> CEASER_refresh_ways cset [0..<ce_assoc a] a;
     Some (CEASER_setSwitch cset a1) }"

text \<open>One tick of \<^verbatim>\<open>Cache::processRefresh\<close>: past the last set the hashes change places and the switches
  are cleared, otherwise the next set is refreshed.\<close>

definition CEASER_tick :: "nat \<times> CEASERArray \<Rightarrow> (nat \<times> CEASERArray) option" where
  "CEASER_tick st = (case st of (cur_set, a) \<Rightarrow>
     (if cur_set \<ge> ce_numSets a
      then Some (0, CEASER_resetSwitches (CEASER_switchHash a))
      else do { a' \<leftarrow> CEASER_refresh_set cur_set a; Some (Suc cur_set, a') }))"

text \<open>A cache drives the array through insertions of lines it has just missed and through ticks.\<close>

definition CEASER_insert :: "addr \<Rightarrow> CEASERArray \<Rightarrow> (nat \<times> addr \<times> CEASERArray) option" where
  "CEASER_insert lineAddr a = do {
     (candidate, wbLineAddr, a1) \<leftarrow> CEASER_preinsert lineAddr a;
     Some (candidate, wbLineAddr, CEASER_postinsert lineAddr candidate a1) }"

inductive ceaser_step :: "nat \<times> CEASERArray \<Rightarrow> nat \<times> CEASERArray \<Rightarrow> bool" where
  ce_step_insert: "lineAddr \<noteq> 0 \<Longrightarrow> CEASER_lookup lineAddr a = Some None \<Longrightarrow>
     CEASER_insert lineAddr a = Some (i, wb, b) \<Longrightarrow> ceaser_step (cur_set, a) (cur_set, b)"
| ce_step_tick: "CEASER_tick st = Some st' \<Longrightarrow> ceaser_step st st'"

inductive_cases ceaser_stepE: "ceaser_step (cur_set, a) st'"

subsection \<open>Well-formed arrays\<close>

definition sa_ways :: "part_cfg \<Rightarrow> SetAssocArray \<Rightarrow> nat" where
  "sa_ways z a = (if isLLC a \<and> \<not> setPartition z \<and> wayPartition z then partitionAssoc a else assoc a)"

text \<open>What the constructor establishes for a power of two of sets, with the partition parameters that
  make the partitioned modes meaningful.\<close>

definition sa_wf :: "part_cfg \<Rightarrow> SetAssocArray \<Rightarrow> bool" where
  "sa_wf z a \<longleftrightarrow> (\<exists>k < 32. numSets a = 2 ^ k) \<and> 0 < assoc a
     \<and> setMask a = of_nat (numSets a) - 1
     \<and> numLines a = numSets a * assoc a \<and> length (sa_array a) = numLines a
     \<and> hf_wf 1 (sa_hf a)
     \<and> (isLLC a \<and> setPartition z \<longrightarrow> proc_partition z < pc_numCores z \<and> 0 < partitionSetCount a
          \<and> partitionSetCount a * pc_numCores z \<le> numSets a
          \<and> partitionMask a = of_nat (partitionSetCount a) - 1)
     \<and> (isLLC a \<and> \<not> setPartition z \<and> wayPartition z \<longrightarrow> proc_partition z < pc_numCores z
          \<and> 0 < partitionAssoc a \<and> partitionAssoc a * pc_numCores z \<le> assoc a
          \<and> (\<exists>m < 32. assoc a = 2 ^ m))"

definition sa_inv :: "part_cfg \<Rightarrow> SetAssocArray \<Rightarrow> bool" where
  "sa_inv z a \<longleftrightarrow> sa_wf z a \<and> rp_rest (sa_ways z a) (numLines a) (sa_rp a)"

subsection \<open>Masks and searches\<close>

lemma unat_of_nat_small: "n < 2 ^ LENGTH('a) \<Longrightarrow> unat (of_nat n :: 'a::len word) = n"
  by (simp add: unat_of_nat take_bit_nat_eq_self)

lemma unat_of_nat_le: "unat (of_nat n :: 'a::len word) \<le> n"
  by (simp add: unat_of_nat take_bit_eq_mod)

lemma unat_of_nat_minus_1:
  assumes "0 < n" "n < 2 ^ 32"
  shows "unat (of_nat n - 1 :: u32) = n - 1"
proof -
  have "(of_nat n - 1 :: u32) = of_nat (n - 1)" using assms(1) by (simp add: of_nat_diff)
  moreover have "unat (of_nat (n - 1) :: u32) = n - 1"
    by (rule unat_of_nat_small) (use assms in simp)
  ultimately show ?thesis by (simp only:)
qed

lemma and_mask_less:
  assumes "0 < n" "n < 2 ^ 32"
  shows "unat ((h :: u64) AND ucast (of_nat n - 1 :: u32)) < n"
proof -
  have "unat (h AND ucast (of_nat n - 1 :: u32)) \<le> unat (ucast (of_nat n - 1 :: u32) :: u64)"
    by (rule unat_and_le2)
  also have "\<dots> = unat (of_nat n - 1 :: u32)" by (simp add: unsigned_ucast_eq take_bit_nat_eq_self less_trans [OF unsigned_less])
  also have "\<dots> = n - 1" by (rule unat_of_nat_minus_1 [OF assms])
  finally show ?thesis using assms(1) by simp
qed

lemma find_line_Some: "find_line arr x is = Some i \<Longrightarrow> i \<in> set is \<and> arr ! i = x"
  by (induction "is") (auto split: if_splits)

lemma find_line_None: "find_line arr x is = None \<longleftrightarrow> (\<forall>i \<in> set is. arr ! i \<noteq> x)"
  by (induction "is") auto

lemma find_line_hit: "i \<in> set is \<Longrightarrow> arr ! i = x \<Longrightarrow> \<exists>j. find_line arr x is = Some j"
  by (metis find_line_None not_None_eq)

lemma find_line_update_other:
  "y \<noteq> x \<Longrightarrow> arr ! i \<noteq> y \<Longrightarrow> i < length arr \<Longrightarrow> find_line (arr[i := x]) y is = find_line arr y is"
  by (induction "is") (auto simp: nth_list_update)

subsection \<open>Regions of the set-associative array\<close>

lemma pow2_less_32: "k < 32 \<Longrightarrow> (2 :: nat) ^ k < 2 ^ 32"
  by (rule power_strict_increasing) auto

lemma sa_wf_sets: "sa_wf z a \<Longrightarrow> 0 < numSets a \<and> numSets a < 2 ^ 32"
  unfolding sa_wf_def using pow2_less_32 by (metis zero_less_numeral zero_less_power)

lemma sa_region_total:
  assumes "sa_wf z a"
  obtains low high where "sa_region z a x = Some (low, high)" "low < high" "high \<le> numLines a"
    "high - low = sa_ways z a"
proof -
  obtain h where h: "hf_hash (sa_hf a) 0 x = Some h"
    using assms hf_hash_total [of 1 "sa_hf a" 0 x] by (auto simp: sa_wf_def)
  have ns: "0 < numSets a" "numSets a < 2 ^ 32" using sa_wf_sets [OF assms] by auto
  have set: "unat (h AND ucast (setMask a)) < numSets a"
    using assms and_mask_less [OF ns] by (simp add: sa_wf_def)
  have in_set: "s * assoc a + assoc a \<le> numLines a" if "s < numSets a" for s
    using that assms mult_le_mono1 [of "Suc s" "numSets a" "assoc a"] by (simp add: sa_wf_def)
  consider (sp) "isLLC a" "setPartition z" | (wp) "isLLC a" "\<not> setPartition z" "wayPartition z"
    | (plain) "\<not> (isLLC a \<and> setPartition z)" "\<not> (isLLC a \<and> wayPartition z)" by blast
  then show thesis
  proof cases
    case sp
    let ?p = "partitionSetCount a"
    have p: "0 < ?p" "?p * pc_numCores z \<le> numSets a" "proc_partition z < pc_numCores z"
      "partitionMask a = of_nat ?p - 1" using assms sp by (auto simp: sa_wf_def)
    have "?p * 1 \<le> ?p * pc_numCores z" by (rule mult_le_mono2) (use p(3) in simp)
    from order_trans [OF this p(2)] have "?p \<le> numSets a" by (simp only: mult_1_right)
    then have "unat (h AND ucast (partitionMask a)) < ?p"
      using p(1,4) ns(2) and_mask_less [of ?p h] by simp
    moreover have "?p * proc_partition z + ?p \<le> numSets a"
      using mult_le_mono2 [of "Suc (proc_partition z)" "pc_numCores z" ?p] p by simp
    ultimately have "unat (h AND ucast (partitionMask a)) + ?p * proc_partition z < numSets a" by linarith
    from in_set [OF this] show thesis
      using that h sp assms by (auto simp: sa_region_def sa_ways_def sa_wf_def Let_def)
  next
    case wp
    let ?w = "proc_partition z * partitionAssoc a"
    obtain m where m: "m < 32" "assoc a = 2 ^ m" using assms wp by (auto simp: sa_wf_def)
    have w: "?w + partitionAssoc a \<le> assoc a"
      using assms wp mult_le_mono2 [of "Suc (proc_partition z)" "pc_numCores z" "partitionAssoc a"]
      by (simp add: sa_wf_def mult.commute)
    have "unat ((of_nat ?w :: u32) AND (of_nat (assoc a) - 1)) \<le> unat (of_nat ?w :: u32)"
      by (rule unat_and_le1)
    also have "\<dots> \<le> ?w" by (rule unat_of_nat_le)
    finally show thesis
      using that h wp assms w in_set [OF set]
      by (auto simp: sa_region_def sa_ways_def sa_wf_def Let_def)
  next
    case plain
    then show thesis using that h assms in_set [OF set]
      by (auto simp: sa_region_def sa_ways_def sa_wf_def Let_def)
  qed
qed

lemma sa_region_frame:
  "sa_region z (a\<lparr>sa_rp := rp\<rparr>) x = sa_region z a x"
  "sa_region z (a\<lparr>sa_rp := rp, sa_array := arr\<rparr>) x = sa_region z a x"
  "sa_region z (a\<lparr>sa_array := arr\<rparr>) x = sa_region z a x"
  by (cases "hf_hash (sa_hf a) 0 x"; simp add: sa_region_def Let_def)+

subsection \<open>What an array promises to a cache\<close>

text \<open>\<open>find\<close> is the lookup, \<open>ins\<close> the replacement of a line (\<open>preinsert\<close> then \<open>postinsert\<close>) and \<open>tags\<close> the
  stored addresses. From the laws a client learns that the resident addresses form a set that an insertion
  changes at the victim only.\<close>

definition resident :: "addr list \<Rightarrow> addr set" where
  "resident ts = set ts - {0}"

definition tags_distinct :: "addr list \<Rightarrow> bool" where
  "tags_distinct ts \<longleftrightarrow> (\<forall>i < length ts. \<forall>j < length ts. ts ! i = ts ! j \<longrightarrow> ts ! i \<noteq> 0 \<longrightarrow> i = j)"

lemma tags_distinct_update:
  assumes "tags_distinct ts" "x \<notin> resident ts"
  shows "tags_distinct (ts[i := x])"
proof -
  have "x = 0 \<or> (\<forall>j < length ts. ts ! j \<noteq> x)" using assms(2) by (auto simp: resident_def)
  with assms(1) show ?thesis
    unfolding tags_distinct_def by (auto simp: list_simps split: if_splits)
qed

lemma resident_update:
  assumes "tags_distinct ts" "i < length ts" "x \<noteq> 0" "x \<notin> resident ts"
  shows "resident (ts[i := x]) = insert x (resident ts - {ts ! i})"
proof (rule set_eqI)
  fix y
  have "y \<in> resident (ts[i := x]) \<longleftrightarrow> y \<noteq> 0 \<and> (y = x \<or> (\<exists>j < length ts. j \<noteq> i \<and> ts ! j = y))"
    using assms(2) by (auto simp: resident_def in_set_conv_nth nth_list_update)
  also have "\<dots> \<longleftrightarrow> y \<in> insert x (resident ts - {ts ! i})"
    using assms by (auto simp: resident_def in_set_conv_nth tags_distinct_def)
  finally show "y \<in> resident (ts[i := x]) \<longleftrightarrow> y \<in> insert x (resident ts - {ts ! i})" .
qed

locale cache_array =
  fixes find :: "addr \<Rightarrow> 'a \<Rightarrow> nat option option"
    and ins :: "addr \<Rightarrow> 'a \<Rightarrow> (nat \<times> addr \<times> 'a) option"
    and tags :: "'a \<Rightarrow> addr list"
    and inv :: "'a \<Rightarrow> bool"
  assumes inv_distinct: "inv a \<Longrightarrow> tags_distinct (tags a)"
    and find_total: "inv a \<Longrightarrow> x \<noteq> 0 \<Longrightarrow> find x a \<noteq> None"
    and find_sound: "inv a \<Longrightarrow> find x a = Some (Some i) \<Longrightarrow> i < length (tags a) \<and> tags a ! i = x"
    and find_complete: "inv a \<Longrightarrow> x \<noteq> 0 \<Longrightarrow> find x a = Some None \<Longrightarrow> x \<notin> resident (tags a)"
    and ins_tags: "inv a \<Longrightarrow> x \<noteq> 0 \<Longrightarrow> find x a = Some None \<Longrightarrow> ins x a = Some (i, wb, a') \<Longrightarrow>
      i < length (tags a) \<and> wb = tags a ! i \<and> tags a' = (tags a)[i := x] \<and> inv a'"
begin

lemma find_iff:
  assumes "inv a" "x \<noteq> 0"
  shows "find x a = Some (Some i) \<longleftrightarrow> i < length (tags a) \<and> tags a ! i = x"
proof
  assume at: "i < length (tags a) \<and> tags a ! i = x"
  obtain r where r: "find x a = Some r" using find_total [OF assms] by blast
  then obtain j where j: "find x a = Some (Some j)"
    using find_complete [OF assms] at assms(2) by (cases r) (auto simp: resident_def)
  with find_sound [OF assms(1)] have "j < length (tags a)" "tags a ! j = x" by blast+
  with at inv_distinct [OF assms(1)] assms(2) have "i = j" unfolding tags_distinct_def by metis
  with j show "find x a = Some (Some i)" by simp
qed (use find_sound [OF assms(1)] in blast)

lemma insert_resident:
  assumes "inv a" "x \<noteq> 0" "find x a = Some None" "ins x a = Some (i, wb, a')"
  shows "resident (tags a') = insert x (resident (tags a) - {wb})"
  using ins_tags [OF assms] resident_update [OF inv_distinct [OF assms(1)]]
    find_complete [OF assms(1-3)] assms(2) by simp

lemma insert_find:
  assumes "inv a" "x \<noteq> 0" "find x a = Some None" "ins x a = Some (i, wb, a')" "y \<noteq> 0"
  shows "find y a' = (if y = x then Some (Some i) else if y = wb then Some None else find y a)"
proof -
  note t = ins_tags [OF assms(1-4)]
  have inv': "inv a'" using t by blast
  have other: "find y a' = Some (Some j) \<longleftrightarrow> find y a = Some (Some j)" if "y \<noteq> x" "y \<noteq> wb" for j
  proof -
    have "j < length (tags a) \<and> (tags a)[i := x] ! j = y \<longleftrightarrow> j < length (tags a) \<and> tags a ! j = y"
      using t that by (auto simp: list_simps)
    then show ?thesis
      using t by (simp only: find_iff [OF inv' assms(5)] find_iff [OF assms(1,5)] length_list_update)
  qed
  show ?thesis
  proof (cases "y = x")
    case True
    then show ?thesis using find_iff [OF inv' assms(5)] t by simp
  next
    case ne: False
    obtain r r' where rr: "find y a = Some r" "find y a' = Some r'"
      using find_total [OF assms(1,5)] find_total [OF inv' assms(5)] by blast
    show ?thesis
    proof (cases "y = wb")
      case True
      then have "y \<notin> resident (tags a')" using insert_resident [OF assms(1-4)] ne by simp
      have "r' = None"
      proof (rule ccontr)
        assume "r' \<noteq> None"
        then obtain j where "find y a' = Some (Some j)" using rr by auto
        from find_sound [OF inv' this] have "y \<in> resident (tags a')"
          using assms(5) by (auto simp: resident_def)
        with \<open>y \<notin> resident (tags a')\<close> show False by blast
      qed
      then show ?thesis using rr True ne by simp
    next
      case False
      with ne other rr have "r = r'" by (cases r; cases r') auto
      then show ?thesis using rr ne False by simp
    qed
  qed
qed

end

subsection \<open>The set-associative array keeps the promise\<close>

text \<open>Without partitioning every line sits in the set of its address, at most once.\<close>

definition sa_shared :: "part_cfg \<Rightarrow> SetAssocArray \<Rightarrow> bool" where
  "sa_shared z a \<longleftrightarrow> \<not> (isLLC a \<and> (setPartition z \<or> wayPartition z))"

definition sa_located :: "part_cfg \<Rightarrow> SetAssocArray \<Rightarrow> bool" where
  "sa_located z a \<longleftrightarrow> (\<forall>i < length (sa_array a). sa_array a ! i \<noteq> 0 \<longrightarrow>
     (\<exists>low high. sa_region z a (sa_array a ! i) = Some (low, high) \<and> low \<le> i \<and> i < high))"

definition sa_full_inv :: "part_cfg \<Rightarrow> SetAssocArray \<Rightarrow> bool" where
  "sa_full_inv z a \<longleftrightarrow> sa_inv z a \<and> sa_shared z a \<and> sa_located z a \<and> tags_distinct (sa_array a)"

definition SetAssoc_insert ::
  "part_cfg \<Rightarrow> cc_query \<Rightarrow> MemReq \<Rightarrow> addr \<Rightarrow> SetAssocArray \<Rightarrow> (nat \<times> addr \<times> SetAssocArray) option" where
  "SetAssoc_insert z cc req lineAddr a = do {
     (candidate, wbLineAddr, a1) \<leftarrow> SetAssoc_preinsert z cc lineAddr req a;
     a2 \<leftarrow> SetAssoc_postinsert lineAddr req candidate a1;
     Some (candidate, wbLineAddr, a2) }"

definition SetAssoc_find :: "part_cfg \<Rightarrow> addr \<Rightarrow> SetAssocArray \<Rightarrow> nat option option" where
  "SetAssoc_find z lineAddr a = map_option fst (SetAssoc_lookup z lineAddr None False a)"

lemma SetAssoc_find_alt:
  "SetAssoc_find z x a = map_option (\<lambda>(low, high). find_line (sa_array a) x [low..<high]) (sa_region z a x)"
  by (cases "sa_region z a x")
    (auto simp: SetAssoc_find_def SetAssoc_lookup_def split: option.splits)

lemma sa_wf_frame:
  "sa_wf z (a\<lparr>sa_rp := rp\<rparr>) = sa_wf z a"
  "length arr = length (sa_array a) \<Longrightarrow> sa_wf z (a\<lparr>sa_rp := rp, sa_array := arr\<rparr>) = sa_wf z a"
  "sa_ways z (a\<lparr>sa_rp := rp\<rparr>) = sa_ways z a"
  "sa_ways z (a\<lparr>sa_rp := rp, sa_array := arr\<rparr>) = sa_ways z a"
  by (simp_all add: sa_wf_def sa_ways_def)

lemma SetAssoc_insert_cases:
  assumes "sa_inv z a" "SetAssoc_insert z cc req x a = Some (i, wb, a')"
  obtains low high rp where "sa_region z a x = Some (low, high)" "low \<le> i" "i < high" "high \<le> numLines a"
    "wb = sa_array a ! i" "a' = a\<lparr>sa_rp := rp, sa_array := (sa_array a)[i := x]\<rparr>" "sa_inv z a'"
proof -
  obtain low high where reg: "sa_region z a x = Some (low, high)" "low < high" "high \<le> numLines a"
      "high - low = sa_ways z a"
    using sa_region_total [of z a x] assms(1) by (auto simp: sa_inv_def)
  obtain rp1 rp2 where rp: "rp_rankCands cc (r_srcId req) [low..<high] (sa_rp a) = Some (i, rp1)"
      "rp_update i (r_type req) (r_cycle req) (rp_replaced i rp1) = Some rp2"
      "wb = sa_array a ! i" "a' = a\<lparr>sa_rp := rp2, sa_array := (sa_array a)[i := x]\<rparr>"
    using assms(2) reg(1)
    by (auto simp: SetAssoc_insert_def SetAssoc_preinsert_def SetAssoc_postinsert_def abort_simps)
  have rest: "rp_rest (high - low) (numLines a) (sa_rp a)" using assms(1) reg(4) by (simp add: sa_inv_def)
  have i: "low \<le> i \<and> i < high"
    using rp.victim_in_interval [OF rest reg(2,3) rp(1)] .
  have "rp_rest (high - low) (numLines a) rp2"
    using rp.turn_rest [OF rest rp(1) _ rp(2)] i reg(3) by simp
  then have "sa_inv z a'" using assms(1) rp(4) reg(4) by (simp add: sa_inv_def sa_wf_frame)
  with that reg rp i show thesis by blast
qed

lemma SetAssoc_find_None:
  assumes "sa_full_inv z a" "SetAssoc_find z x a = Some None"
  shows "x \<notin> resident (sa_array a)"
proof
  assume "x \<in> resident (sa_array a)"
  then obtain i where i: "i < length (sa_array a)" "sa_array a ! i = x" "x \<noteq> 0"
    by (auto simp: resident_def in_set_conv_nth)
  then obtain low high where "sa_region z a x = Some (low, high)" "low \<le> i" "i < high"
    using assms(1) unfolding sa_full_inv_def sa_located_def by metis
  with i assms(2) show False by (auto simp: SetAssoc_find_alt find_line_None)
qed

lemma SetAssoc_insert_full_inv:
  assumes "sa_full_inv z a" "x \<noteq> 0" "SetAssoc_find z x a = Some None"
    and "SetAssoc_insert z cc req x a = Some (i, wb, a')"
  shows "sa_full_inv z a'"
proof -
  obtain low high rp where c: "sa_region z a x = Some (low, high)" "low \<le> i" "i < high"
      "high \<le> numLines a" "a' = a\<lparr>sa_rp := rp, sa_array := (sa_array a)[i := x]\<rparr>" "sa_inv z a'"
    using SetAssoc_insert_cases [OF _ assms(4)] assms(1) unfolding sa_full_inv_def by metis
  have "sa_located z a'"
    using assms(1) c(1-3,5)
    by (auto simp: sa_full_inv_def sa_located_def sa_region_frame list_simps)
  moreover have "tags_distinct (sa_array a')"
    using tags_distinct_update [OF _ SetAssoc_find_None [OF assms(1,3)]] assms(1) c(5)
    by (simp add: sa_full_inv_def)
  ultimately show ?thesis using assms(1) c(5,6) by (simp add: sa_full_inv_def sa_shared_def)
qed

lemma SetAssoc_find_sound:
  assumes "sa_wf z a" "SetAssoc_find z x a = Some (Some i)"
  shows "i < length (sa_array a) \<and> sa_array a ! i = x"
proof -
  obtain low high where r: "sa_region z a x = Some (low, high)" "low < high" "high \<le> numLines a"
    using sa_region_total [OF assms(1), of x] by metis
  with assms(2) have "find_line (sa_array a) x [low..<high] = Some i" by (simp add: SetAssoc_find_alt)
  from find_line_Some [OF this] r assms(1) show ?thesis by (auto simp: sa_wf_def)
qed

interpretation sa: cache_array "SetAssoc_find z" "SetAssoc_insert z cc req" sa_array "sa_full_inv z"
  for z cc req
proof unfold_locales
  fix a x i wb a'
  assume inv: "sa_full_inv z a"
  then have wf: "sa_inv z a" "sa_wf z a" by (simp_all add: sa_full_inv_def sa_inv_def)
  show "tags_distinct (sa_array a)" using inv by (simp add: sa_full_inv_def)
  show "SetAssoc_find z x a \<noteq> None"
    using sa_region_total [OF wf(2), of x] unfolding SetAssoc_find_alt by (metis option.map_disc_iff option.distinct(1))
  show "SetAssoc_find z x a = Some (Some i) \<Longrightarrow> i < length (sa_array a) \<and> sa_array a ! i = x"
    by (rule SetAssoc_find_sound [OF wf(2)])
  show "SetAssoc_find z x a = Some None \<Longrightarrow> x \<notin> resident (sa_array a)"
    by (rule SetAssoc_find_None [OF inv])
  show "i < length (sa_array a) \<and> wb = sa_array a ! i \<and> sa_array a' = (sa_array a)[i := x] \<and> sa_full_inv z a'"
    if asms: "x \<noteq> 0" "SetAssoc_find z x a = Some None" "SetAssoc_insert z cc req x a = Some (i, wb, a')"
  proof -
    obtain high rp where "i < high" "high \<le> numLines a" "wb = sa_array a ! i"
        "a' = a\<lparr>sa_rp := rp, sa_array := (sa_array a)[i := x]\<rparr>"
      using SetAssoc_insert_cases [OF wf(1) asms(3)] by metis
    then show ?thesis using SetAssoc_insert_full_inv [OF inv asms] wf(2) by (simp add: sa_wf_def)
  qed
qed

subsection \<open>Partitions are disjoint\<close>

text \<open>The process a line belongs to under set or way partitioning.\<close>

definition sa_owner :: "part_cfg \<Rightarrow> SetAssocArray \<Rightarrow> nat \<Rightarrow> nat" where
  "sa_owner z a i = (if setPartition z then i div assoc a div partitionSetCount a
                     else (i mod assoc a) div partitionAssoc a)"

lemma within_block: "(s :: nat) * n \<le> i \<Longrightarrow> i < s * n + n \<Longrightarrow> i div n = s \<and> i mod n = i - s * n"
proof -
  assume a: "s * n \<le> i" "i < s * n + n"
  then obtain r where r: "i = s * n + r" "r < n" by (metis add_less_cancel_left le_Suc_ex)
  then show ?thesis by simp
qed

lemma mask_unat_self:
  assumes "m < 32" "w < 2 ^ m"
  shows "unat ((of_nat w :: u32) AND (of_nat (2 ^ m) - 1)) = w"
proof -
  have "w < 2 ^ 32" using assms pow2_less_32 by (meson less_trans)
  then have "unat (of_nat w :: u32) = w" by (intro unat_of_nat_small) simp
  then have "unat ((of_nat w :: u32) AND (2 ^ m - 1)) = w"
    using assms by (simp add: unat_and_mask_minus_one)
  then show ?thesis by simp
qed

lemma sa_region_owner:
  assumes "sa_wf z a" "isLLC a" "setPartition z \<or> wayPartition z"
    and "sa_region z a x = Some (low, high)" "low \<le> i" "i < high"
  shows "sa_owner z a i = proc_partition z"
proof -
  obtain h where h: "hf_hash (sa_hf a) 0 x = Some h"
    using assms(4) by (auto simp: sa_region_def abort_simps)
  show ?thesis
  proof (cases "setPartition z")
    case True
    let ?p = "partitionSetCount a"
    have p: "0 < ?p" "?p * pc_numCores z \<le> numSets a" "proc_partition z < pc_numCores z"
      "partitionMask a = of_nat ?p - 1" using assms(1,2) True by (auto simp: sa_wf_def)
    have "?p * 1 \<le> ?p * pc_numCores z" by (rule mult_le_mono2) (use p(3) in simp)
    from order_trans [OF this p(2)] have "?p < 2 ^ 32"
      using sa_wf_sets [OF assms(1)] by simp
    then have lt: "unat (h AND ucast (partitionMask a)) < ?p"
      using p(1,4) and_mask_less [of ?p h] by simp
    let ?s = "unat (h AND ucast (partitionMask a)) + ?p * proc_partition z"
    have "low = ?s * assoc a" "high = ?s * assoc a + assoc a"
      using assms(2,4) True h by (auto simp: sa_region_def Let_def)
    then have "i div assoc a = ?s" using within_block [of ?s "assoc a" i] assms(5,6) by simp
    moreover have "?s div ?p = proc_partition z" using lt by simp
    ultimately show ?thesis using True by (simp add: sa_owner_def)
  next
    case False
    let ?q = "partitionAssoc a" and ?w = "proc_partition z * partitionAssoc a"
    obtain m where m: "m < 32" "assoc a = 2 ^ m" and q: "0 < ?q"
      using assms(1-3) False by (auto simp: sa_wf_def)
    have w: "?w + ?q \<le> assoc a"
      using assms(1-3) False mult_le_mono2 [of "Suc (proc_partition z)" "pc_numCores z" ?q]
      by (simp add: sa_wf_def mult.commute)
    then have mask: "unat ((of_nat ?w :: u32) AND (of_nat (assoc a) - 1)) = ?w"
      using mask_unat_self [of m ?w] m q by simp
    let ?s = "unat (h AND ucast (setMask a))"
    have lh: "low = ?s * assoc a + ?w" "high = ?s * assoc a + ?w + ?q"
      using assms(2-4) False h mask by (auto simp: sa_region_def Let_def)
    then have "i mod assoc a = i - ?s * assoc a"
      using within_block [of ?s "assoc a" i] assms(5,6) w by simp
    then have "?w \<le> i mod assoc a" "i mod assoc a < ?w + ?q" using lh assms(5,6) by auto
    then have "(i mod assoc a) div ?q = proc_partition z"
      using within_block [of "proc_partition z" ?q] by blast
    then show ?thesis using False by (simp add: sa_owner_def)
  qed
qed

lemma find_line_unchanged: "i \<notin> set is \<Longrightarrow> find_line (arr[i := x]) y is = find_line arr y is"
  by (induction "is") auto

lemma sa_insert_other_owner:
  assumes "sa_inv z a" "SetAssoc_insert z cc req x a = Some (i, wb, a')"
    and "isLLC a" "setPartition z \<or> wayPartition z"
    and "z' = z\<lparr>proc_partition := p'\<rparr>" "p' \<noteq> proc_partition z" "sa_wf z' a"
  shows "SetAssoc_find z' y a' = SetAssoc_find z' y a"
proof -
  obtain low high rp where c: "sa_region z a x = Some (low, high)" "low \<le> i" "i < high"
      "a' = a\<lparr>sa_rp := rp, sa_array := (sa_array a)[i := x]\<rparr>"
    using SetAssoc_insert_cases [OF assms(1,2)] by metis
  have wf: "sa_wf z a" using assms(1) by (simp add: sa_inv_def)
  have own: "sa_owner z a i = proc_partition z" by (rule sa_region_owner [OF wf assms(3,4) c(1-3)])
  obtain l h where r: "sa_region z' a y = Some (l, h)" using sa_region_total [OF assms(7), of y] by metis
  have "i \<notin> set [l..<h]"
  proof
    assume "i \<in> set [l..<h]"
    then have "sa_owner z' a i = p'"
      using sa_region_owner [OF assms(7,3) _ r, of i] assms(4,5) by simp
    with own assms(5,6) show False by (simp add: sa_owner_def)
  qed
  then show ?thesis using c(4) r by (simp add: SetAssoc_find_alt sa_region_frame find_line_unchanged)
qed

subsection \<open>The CEASER array keeps the promise while it re-hashes itself\<close>

definition ce_wf :: "CEASERArray \<Rightarrow> bool" where
  "ce_wf a \<longleftrightarrow> (\<exists>k < 32. ce_numSets a = 2 ^ k) \<and> (\<exists>m < 32. ce_assoc a = 2 ^ m)
     \<and> ce_setMask a = of_nat (ce_numSets a) - 1 \<and> ce_numLines a = ce_numSets a * ce_assoc a
     \<and> length (ce_array a) = ce_numLines a \<and> length (switch_array a) = ce_numSets a
     \<and> hf_wf 1 (hf_current a) \<and> hf_wf 1 (hf_target a) \<and> mt_wf (ce_rng a)"

definition ce_located :: "CEASERArray \<Rightarrow> bool" where
  "ce_located a \<longleftrightarrow> (\<forall>i < length (ce_array a). ce_array a ! i \<noteq> 0 \<longrightarrow>
     ce_set a (ce_array a ! i) = Some (i div ce_assoc a))"

definition ce_inv :: "CEASERArray \<Rightarrow> bool" where
  "ce_inv a \<longleftrightarrow> ce_wf a \<and> ce_located a \<and> tags_distinct (ce_array a)"

lemma ce_wf_pos: "ce_wf a \<Longrightarrow> 0 < ce_numSets a \<and> ce_numSets a < 2 ^ 32 \<and> 0 < ce_assoc a"
  unfolding ce_wf_def using pow2_less_32 by (metis zero_less_numeral zero_less_power)

lemma ce_index_total:
  assumes "ce_wf a" "hf_wf 1 hf"
  obtains c where "ce_index a hf x = Some c" "c < ce_numSets a"
proof -
  obtain h where h: "hf_hash hf 0 x = Some h" using hf_hash_total [OF assms(2), of 0 x] by auto
  moreover have "unat (h AND ucast (ce_setMask a)) < ce_numSets a"
    using and_mask_less [of "ce_numSets a" h] ce_wf_pos [OF assms(1)] assms(1) by (simp add: ce_wf_def)
  ultimately show thesis using that by (simp add: ce_index_def)
qed

lemma ce_set_total:
  assumes "ce_wf a"
  obtains c where "ce_set a x = Some c" "c < ce_numSets a"
proof -
  obtain c where c: "ce_index a (hf_current a) x = Some c" "c < ce_numSets a"
    using ce_index_total [OF assms, of "hf_current a" x] assms unfolding ce_wf_def by metis
  obtain t where t: "ce_index a (hf_target a) x = Some t" "t < ce_numSets a"
    using ce_index_total [OF assms, of "hf_target a" x] assms unfolding ce_wf_def by metis
  show thesis by (cases "switch_array a ! c = 1") (use that c t in \<open>auto simp: ce_set_def\<close>)
qed

lemma ce_frame:
  "ce_index (a\<lparr>ce_rng := g\<rparr>) hf x = ce_index a hf x"
  "ce_index (a\<lparr>ce_array := arr\<rparr>) hf x = ce_index a hf x"
  "ce_index (a\<lparr>switch_array := sw\<rparr>) hf x = ce_index a hf x"
  "ce_set (a\<lparr>ce_rng := g\<rparr>) x = ce_set a x"
  "ce_set (a\<lparr>ce_array := arr\<rparr>) x = ce_set a x"
  by (simp_all add: ce_index_def ce_set_def cong: if_cong)

lemma ce_random_way_total:
  assumes "ce_wf a"
  obtains w g where "ce_random_way a = Some (w, a\<lparr>ce_rng := g\<rparr>)" "w < ce_assoc a" "mt_wf g"
proof -
  obtain m where m: "m < 32" "ce_assoc a = 2 ^ m" using assms by (auto simp: ce_wf_def)
  have mask: "(of_nat (ce_assoc a - 1) :: u64) = mask m"
    using m(2) by (simp add: mask_eq_decr_exp of_nat_diff)
  define r where "r = fst (randInt (ce_rng a)) AND mask m"
  have wf: "mt_wf (ce_rng a)" using assms by (simp add: ce_wf_def)
  have "randInt_n (mask m) (ce_rng a) = Some (r, snd (randInt (ce_rng a)))"
    unfolding randInt_n_def r_def using randInt_loop_first mt_used_mask [of m] m(1) by simp
  moreover have "unat (r AND mask m) < ce_assoc a"
  proof -
    have "unat (r AND mask m) \<le> unat (mask m :: u64)" by (rule unat_and_le2)
    also have "\<dots> = ce_assoc a - 1"
      using m unat_of_nat_small [of "ce_assoc a - 1", where 'a = 64] pow2_less_32 [OF m(1)]
      by (simp flip: mask)
    finally have "unat (r AND mask m) \<le> ce_assoc a - 1" .
    moreover have "0 < ce_assoc a" using m(2) by simp
    ultimately show ?thesis by linarith
  qed
  ultimately show thesis
    using randInt_wf(1) [OF wf] by (intro that) (simp_all only: ce_random_way_def mask, simp_all)
qed

lemma CEASER_insert_cases:
  assumes "ce_wf a"
  obtains w g c where "ce_set a x = Some c" "c < ce_numSets a" "w < ce_assoc a" "mt_wf g"
    "CEASER_insert x a = Some (c * ce_assoc a + w, ce_array a ! (c * ce_assoc a + w),
       a\<lparr>ce_rng := g, ce_array := (ce_array a)[c * ce_assoc a + w := x]\<rparr>)"
proof -
  obtain c where c: "ce_set a x = Some c" "c < ce_numSets a" using ce_set_total [OF assms] by metis
  obtain w g where w: "ce_random_way a = Some (w, a\<lparr>ce_rng := g\<rparr>)" "w < ce_assoc a" "mt_wf g"
    using ce_random_way_total [OF assms] by metis
  show thesis using that [OF c w(2,3)] c(1) w(1)
    by (simp add: CEASER_insert_def CEASER_preinsert_def CEASER_postinsert_def Let_def)
qed

lemma ce_slot: "ce_wf a \<Longrightarrow> c < ce_numSets a \<Longrightarrow> w < ce_assoc a \<Longrightarrow>
    c * ce_assoc a + w < length (ce_array a) \<and> (c * ce_assoc a + w) div ce_assoc a = c"
  using mult_le_mono1 [of "Suc c" "ce_numSets a" "ce_assoc a"] by (simp add: ce_wf_def)

lemma ce_wf_frame:
  "length arr = length (ce_array a) \<Longrightarrow> mt_wf g \<Longrightarrow> ce_wf a \<Longrightarrow> ce_wf (a\<lparr>ce_rng := g, ce_array := arr\<rparr>)"
  "mt_wf g \<Longrightarrow> ce_wf a \<Longrightarrow> ce_wf (a\<lparr>ce_rng := g\<rparr>)"
  "length sw = length (switch_array a) \<Longrightarrow> ce_wf a \<Longrightarrow> ce_wf (a\<lparr>switch_array := sw\<rparr>)"
  by (simp_all add: ce_wf_def)

lemma ce_set_frame [simp]: "ce_set (a\<lparr>ce_rng := g, ce_array := arr\<rparr>) x = ce_set a x"
  by (simp add: ce_frame)

lemma CEASER_lookup_None:
  assumes "ce_inv a" "CEASER_lookup x a = Some None"
  shows "x \<notin> resident (ce_array a)"
proof
  assume "x \<in> resident (ce_array a)"
  then obtain i where i: "i < length (ce_array a)" "ce_array a ! i = x" "x \<noteq> 0"
    by (auto simp: resident_def in_set_conv_nth)
  then have c: "ce_set a x = Some (i div ce_assoc a)"
    using assms(1) unfolding ce_inv_def ce_located_def by metis
  have "i div ce_assoc a * ce_assoc a \<le> i" "i < i div ce_assoc a * ce_assoc a + ce_assoc a"
    using ce_wf_pos [of a] assms(1) by (simp_all add: ce_inv_def dividend_less_div_times add.commute)
  with c i assms(2) show False by (auto simp: CEASER_lookup_def Let_def find_line_None)
qed

interpretation ce: cache_array CEASER_lookup CEASER_insert ce_array ce_inv
proof unfold_locales
  fix a x i wb a'
  assume inv: "ce_inv a"
  then have wf: "ce_wf a" by (simp add: ce_inv_def)
  obtain c where c: "ce_set a x = Some c" "c < ce_numSets a" using ce_set_total [OF wf] by metis
  show "tags_distinct (ce_array a)" using inv by (simp add: ce_inv_def)
  show "CEASER_lookup x a \<noteq> None" using c by (simp add: CEASER_lookup_def Let_def)
  show "CEASER_lookup x a = Some None \<Longrightarrow> x \<notin> resident (ce_array a)"
    by (rule CEASER_lookup_None [OF inv])
  show "i < length (ce_array a) \<and> ce_array a ! i = x" if asm: "CEASER_lookup x a = Some (Some i)"
  proof -
    have "c * ce_assoc a + ce_assoc a \<le> length (ce_array a)"
      using mult_le_mono1 [of "Suc c" "ce_numSets a" "ce_assoc a"] c(2) wf by (simp add: ce_wf_def)
    moreover have "find_line (ce_array a) x [c * ce_assoc a..<c * ce_assoc a + ce_assoc a] = Some i"
      using asm c(1) by (simp add: CEASER_lookup_def Let_def)
    ultimately show ?thesis using find_line_Some by fastforce
  qed
  show "i < length (ce_array a) \<and> wb = ce_array a ! i \<and> ce_array a' = (ce_array a)[i := x] \<and> ce_inv a'"
    if asm: "x \<noteq> 0" "CEASER_lookup x a = Some None" "CEASER_insert x a = Some (i, wb, a')"
  proof -
    obtain w g c' where ins: "ce_set a x = Some c'" "w < ce_assoc a" "mt_wf g"
        "CEASER_insert x a = Some (c' * ce_assoc a + w, ce_array a ! (c' * ce_assoc a + w),
           a\<lparr>ce_rng := g, ce_array := (ce_array a)[c' * ce_assoc a + w := x]\<rparr>)"
      by (rule CEASER_insert_cases [OF wf])
    have "c' = c" using ins(1) c(1) by simp
    with ins asm(3) have w: "w < ce_assoc a" "mt_wf g" "i = c * ce_assoc a + w"
        "wb = ce_array a ! i" "a' = a\<lparr>ce_rng := g, ce_array := (ce_array a)[i := x]\<rparr>"
      by simp_all
    note slot = ce_slot [OF wf c(2) w(1)]
    have "ce_located a'"
      using inv w(3,5) slot c(1) by (auto simp: ce_inv_def ce_located_def list_simps)
    moreover have "tags_distinct (ce_array a')"
      using tags_distinct_update [OF _ CEASER_lookup_None [OF inv asm(2)]] inv w(5) by (simp add: ce_inv_def)
    ultimately show ?thesis using ce_wf_frame(1) [OF _ w(2) wf] slot w(3-5) by (simp add: ce_inv_def)
  qed
qed

subsection \<open>A tick of the re-hashing\<close>

text \<open>While set \<open>cset\<close> is refreshed, a line is either where \<open>ce_set\<close> says, or it has left \<open>cset\<close> for its
  target set already; the ways already passed hold only lines that belong to \<open>cset\<close> under the target hash.\<close>

definition ce_mid :: "nat \<Rightarrow> nat list \<Rightarrow> CEASERArray \<Rightarrow> bool" where
  "ce_mid cset rest a \<longleftrightarrow> ce_wf a \<and> tags_distinct (ce_array a)
     \<and> cset < ce_numSets a \<and> switch_array a ! cset = 0
     \<and> (\<forall>i < length (ce_array a). ce_array a ! i \<noteq> 0 \<longrightarrow>
          ce_set a (ce_array a ! i) = Some (i div ce_assoc a)
          \<or> ce_index a (hf_current a) (ce_array a ! i) = Some cset
            \<and> ce_index a (hf_target a) (ce_array a ! i) = Some (i div ce_assoc a))
     \<and> (\<forall>w < ce_assoc a. w \<notin> set rest \<longrightarrow> ce_array a ! (cset * ce_assoc a + w) \<noteq> 0 \<longrightarrow>
          ce_index a (hf_target a) (ce_array a ! (cset * ce_assoc a + w)) = Some cset)"

definition ce_same :: "CEASERArray \<Rightarrow> CEASERArray \<Rightarrow> bool" where
  "ce_same a b \<longleftrightarrow> ce_numSets b = ce_numSets a \<and> ce_assoc b = ce_assoc a
     \<and> switch_array b = switch_array a \<and> resident (ce_array b) \<subseteq> resident (ce_array a)"

lemma tags_distinct_move:
  assumes "tags_distinct ts" "i < length ts"
  shows "tags_distinct ((ts[j := ts ! i])[i := 0])"
  using assms unfolding tags_distinct_def by (auto simp: list_simps split: if_splits)

lemma resident_move: "i < length ts \<Longrightarrow> resident ((ts[j := ts ! i])[i := 0]) \<subseteq> resident ts"
  by (auto simp: resident_def dest!: set_update_subset_insert [THEN subsetD])

lemma ce_moved_current:
  assumes "ce_mid cset (w # rest) a" "w < ce_assoc a"
    and "ce_array a ! (cset * ce_assoc a + w) = ad" "ad \<noteq> 0"
    and "ce_index a (hf_target a) ad = Some t" "t \<noteq> cset"
  shows "ce_index a (hf_current a) ad = Some cset"
proof -
  have slot: "cset * ce_assoc a + w < length (ce_array a)" "(cset * ce_assoc a + w) div ce_assoc a = cset"
    using ce_slot [of a cset w] assms(1,2) by (auto simp: ce_mid_def)
  with assms(1,3,4) have "ce_set a ad = Some cset \<or> ce_index a (hf_current a) ad = Some cset"
    unfolding ce_mid_def by metis
  then show ?thesis
    using assms(5,6) by (auto simp: ce_set_def abort_simps split: if_splits)
qed

lemma ce_mid_move:
  assumes mid: "ce_mid cset (w # rest) a" and w: "w < ce_assoc a"
    and ad: "ce_array a ! (cset * ce_assoc a + w) = ad" "ad \<noteq> 0"
    and t: "ce_index a (hf_target a) ad = Some t" "t \<noteq> cset" "t < ce_numSets a"
    and v: "v < ce_assoc a" "mt_wf g"
    and b: "b = a\<lparr>ce_rng := g, ce_array :=
        ((ce_array a)[t * ce_assoc a + v := ad])[cset * ce_assoc a + w := 0]\<rparr>"
  shows "ce_mid cset rest b"
proof -
  let ?L = "cset * ce_assoc a + w" and ?R = "t * ce_assoc a + v"
  have wf: "ce_wf a" and cs: "cset < ce_numSets a" using mid by (auto simp: ce_mid_def)
  note sL = ce_slot [OF wf cs w] and sR = ce_slot [OF wf t(3) v(1)]
  have arr: "ce_array b ! i = (if i = ?L then 0 else if i = ?R then ad else ce_array a ! i)"
    if "i < length (ce_array a)" for i using that b by (simp add: nth_list_update)
  have same: "ce_set b = ce_set a" "ce_index b = ce_index a" "hf_current b = hf_current a"
    "hf_target b = hf_target a" "ce_assoc b = ce_assoc a" "length (ce_array b) = length (ce_array a)"
    using b by (auto simp: ce_frame fun_eq_iff)
  have other: "cset * ce_assoc a + u \<noteq> ?R" "cset * ce_assoc a + u < length (ce_array a)"
    if "u < ce_assoc a" for u
    using ce_slot [OF wf cs that] sR t(2) by metis+
  have "tags_distinct (ce_array b)"
    using tags_distinct_move [of "ce_array a" ?L ?R] mid sL ad(1) b by (simp add: ce_mid_def)
  moreover have "ce_wf b" using b wf v(2) by (simp add: ce_wf_frame)
  moreover have "\<forall>i < length (ce_array b). ce_array b ! i \<noteq> 0 \<longrightarrow>
      ce_set b (ce_array b ! i) = Some (i div ce_assoc b)
      \<or> ce_index b (hf_current b) (ce_array b ! i) = Some cset
        \<and> ce_index b (hf_target b) (ce_array b ! i) = Some (i div ce_assoc b)"
    using mid ce_moved_current [OF mid w ad t(1,2)] t(1) sR unfolding same ce_mid_def
    by (auto simp: arr)
  moreover have "\<forall>u < ce_assoc b. u \<notin> set rest \<longrightarrow> ce_array b ! (cset * ce_assoc b + u) \<noteq> 0 \<longrightarrow>
      ce_index b (hf_target b) (ce_array b ! (cset * ce_assoc b + u)) = Some cset"
    using mid other unfolding same ce_mid_def by (auto simp: arr)
  ultimately show ?thesis using mid b by (simp add: ce_mid_def)
qed

lemma ce_same_refl: "ce_same a a"
  by (simp add: ce_same_def)

lemma ce_same_trans: "ce_same a b \<Longrightarrow> ce_same b c \<Longrightarrow> ce_same a c"
  by (auto simp: ce_same_def)

text \<open>One way: the body of the loop is defined and keeps the invariant.\<close>

lemma CEASER_refresh_way:
  assumes mid: "ce_mid cset (w # rest) a" and w: "w < ce_assoc a"
  obtains b where "\<And>ws. CEASER_refresh_ways cset (w # ws) a = CEASER_refresh_ways cset ws b"
    "ce_mid cset rest b" "ce_same a b"
proof -
  let ?L = "cset * ce_assoc a + w"
  define ad where "ad = ce_array a ! ?L"
  have wf: "ce_wf a" and cs: "cset < ce_numSets a" using mid by (auto simp: ce_mid_def)
  have L: "?L < length (ce_array a)" using ce_slot [OF wf cs w] by blast
  have keep: "ce_mid cset rest (a\<lparr>ce_rng := g\<rparr>)"
    if "mt_wf g" "ad = 0 \<or> ce_index a (hf_target a) ad = Some cset" for g
    using mid that unfolding ce_mid_def ad_def
    by (auto simp: ce_frame ce_wf_frame(2))
  show thesis
  proof (cases "ad = 0")
    case True
    have "mt_wf (ce_rng a)" using wf by (simp add: ce_wf_def)
    with keep True have "ce_mid cset rest (a\<lparr>ce_rng := ce_rng a\<rparr>)" by blast
    then have "ce_mid cset rest a" by simp
    then show thesis using that [of a] True by (simp add: ad_def CEASER_getAddr_def ce_same_refl Let_def)
  next
    case ad: False
    obtain t where t: "ce_index a (hf_target a) ad = Some t" "t < ce_numSets a"
      using ce_index_total [OF wf, of "hf_target a" ad] wf unfolding ce_wf_def by metis
    obtain v g where v: "ce_random_way a = Some (v, a\<lparr>ce_rng := g\<rparr>)" "v < ce_assoc a" "mt_wf g"
      using ce_random_way_total [OF wf] by metis
    have R: "t * ce_assoc a + v < length (ce_array a)" using ce_slot [OF wf t(2) v(2)] by blast
    define b where "b = (if t \<noteq> cset then a\<lparr>ce_rng := g, ce_array :=
        ((ce_array a)[t * ce_assoc a + v := ad])[?L := 0]\<rparr> else a\<lparr>ce_rng := g\<rparr>)"
    have eq: "CEASER_refresh_ways cset (w # ws) a = CEASER_refresh_ways cset ws b" for ws
      using ad t(1) v(1)
      by (simp add: ad_def CEASER_getAddr_def CEASER_getReplSet_def CEASER_getReplId_def
          CEASER_moveAddr_def b_def Let_def)
    have "ce_mid cset rest b"
      using ce_mid_move [OF mid w ad_def [symmetric] ad t(1) _ t(2) v(2,3)] keep [OF v(3)] t(1)
      by (cases "t = cset") (simp_all add: b_def)
    moreover have "ce_same a b"
      using resident_move [OF L, of "t * ce_assoc a + v"]
      by (simp add: ce_same_def b_def ad_def)
    ultimately show thesis using that eq by blast
  qed
qed

lemma CEASER_refresh_ways_total:
  assumes "ce_mid cset ws a" "\<forall>w \<in> set ws. w < ce_assoc a"
  shows "\<exists>b. CEASER_refresh_ways cset ws a = Some b \<and> ce_mid cset [] b \<and> ce_same a b"
  using assms
proof (induction ws arbitrary: a)
  case (Cons w ws)
  obtain b where b: "CEASER_refresh_ways cset (w # ws) a = CEASER_refresh_ways cset ws b"
      "ce_mid cset ws b" "ce_same a b"
    using CEASER_refresh_way [OF Cons.prems(1)] Cons.prems(2) by (metis list.set_intros(1))
  moreover have "ce_assoc b = ce_assoc a" using b(3) by (auto simp: ce_same_def)
  ultimately show ?case using Cons.IH [of b] Cons.prems(2) ce_same_trans by (metis list.set_intros(2))
qed (auto simp: ce_same_refl)

lemma ce_set_setSwitch:
  assumes "ce_wf a" "cset < ce_numSets a" "switch_array a ! cset = 0"
  shows "ce_set (CEASER_setSwitch cset a) x =
    (if ce_index a (hf_current a) x = Some cset then ce_index a (hf_target a) x else ce_set a x)"
proof -
  obtain c where c: "ce_index a (hf_current a) x = Some c" "c < ce_numSets a"
    using ce_index_total [OF assms(1), of "hf_current a" x] assms(1) unfolding ce_wf_def by metis
  then show ?thesis
    using assms by (simp add: ce_set_def CEASER_setSwitch_def ce_frame ce_wf_def nth_list_update)
qed

lemma ce_mid_finish:
  assumes "ce_mid cset [] a"
  shows "ce_inv (CEASER_setSwitch cset a)"
proof -
  have wf: "ce_wf a" and cs: "cset < ce_numSets a" "switch_array a ! cset = 0"
    using assms by (auto simp: ce_mid_def)
  have "ce_set (CEASER_setSwitch cset a) (ce_array a ! i) = Some (i div ce_assoc a)"
    if i: "i < length (ce_array a)" "ce_array a ! i \<noteq> 0" for i
  proof (cases "ce_index a (hf_current a) (ce_array a ! i) = Some cset")
    case True
    have "ce_index a (hf_target a) (ce_array a ! i) = Some (i div ce_assoc a)"
    proof (cases "i div ce_assoc a = cset")
      case eq: True
      have "i = cset * ce_assoc a + i mod ce_assoc a" using eq by (metis div_mult_mod_eq)
      moreover have "i mod ce_assoc a < ce_assoc a" using ce_wf_pos [OF wf] by simp
      ultimately show ?thesis using assms i(2) eq unfolding ce_mid_def by (metis list.set(1) empty_iff)
    next
      case False
      then have "ce_set a (ce_array a ! i) \<noteq> Some (i div ce_assoc a)"
        using True cs(2) by (simp add: ce_set_def)
      then show ?thesis using assms i unfolding ce_mid_def by blast
    qed
    then show ?thesis using True by (simp add: ce_set_setSwitch [OF wf cs])
  next
    case False
    then show ?thesis using assms i by (auto simp: ce_set_setSwitch [OF wf cs] ce_mid_def)
  qed
  then show ?thesis using assms
    by (simp add: ce_inv_def ce_located_def ce_mid_def CEASER_setSwitch_def ce_wf_frame(3))
qed

text \<open>The switches record how far the current round has come.\<close>

definition ce_phase :: "nat \<Rightarrow> CEASERArray \<Rightarrow> bool" where
  "ce_phase cur_set a \<longleftrightarrow> cur_set \<le> ce_numSets a
     \<and> (\<forall>c < ce_numSets a. switch_array a ! c = (if c < cur_set then 1 else 0))"

lemma CEASER_refresh_set_total:
  assumes "ce_inv a" "ce_phase cur_set a" "cur_set < ce_numSets a"
  shows "\<exists>b. CEASER_refresh_set cur_set a = Some b \<and> ce_inv b \<and> ce_phase (Suc cur_set) b
    \<and> resident (ce_array b) \<subseteq> resident (ce_array a)"
proof -
  have sw: "switch_array a ! cur_set = 0" using assms(2,3) by (simp add: ce_phase_def)
  have "ce_mid cur_set [0..<ce_assoc a] a"
    using assms sw by (simp add: ce_mid_def ce_inv_def ce_located_def)
  then obtain b where b: "CEASER_refresh_ways cur_set [0..<ce_assoc a] a = Some b"
      "ce_mid cur_set [] b" "ce_same a b"
    using CEASER_refresh_ways_total [of cur_set "[0..<ce_assoc a]" a] by auto
  then have "ce_phase (Suc cur_set) (CEASER_setSwitch cur_set b)"
    using assms by (auto simp: ce_phase_def ce_same_def CEASER_setSwitch_def ce_inv_def ce_wf_def
        nth_list_update less_Suc_eq)
  with b sw ce_mid_finish [OF b(2)] show ?thesis
    by (auto simp: CEASER_refresh_set_def ce_same_def CEASER_setSwitch_def)
qed

lemma CEASER_flip_inv:
  assumes "ce_inv a" "ce_phase (ce_numSets a) a"
  shows "ce_inv (CEASER_resetSwitches (CEASER_switchHash a))"
    "ce_phase 0 (CEASER_resetSwitches (CEASER_switchHash a))"
proof -
  let ?b = "CEASER_resetSwitches (CEASER_switchHash a)"
  have wf: "ce_wf a" using assms(1) by (simp add: ce_inv_def)
  have idx: "ce_index ?b = ce_index a"
    by (simp add: fun_eq_iff ce_index_def CEASER_resetSwitches_def CEASER_switchHash_def)
  have "ce_set ?b x = ce_set a x" for x
  proof -
    obtain c where c: "ce_index a (hf_current a) x = Some c" "c < ce_numSets a"
      using ce_index_total [OF wf, of "hf_current a" x] wf unfolding ce_wf_def by metis
    obtain t where t: "ce_index a (hf_target a) x = Some t" "t < ce_numSets a"
      using ce_index_total [OF wf, of "hf_target a" x] wf unfolding ce_wf_def by metis
    have "ce_set a x = Some t" using c t(1) assms(2) by (simp add: ce_set_def ce_phase_def)
    moreover have "ce_set ?b x = Some t"
      unfolding ce_set_def idx using t
      by (simp add: CEASER_resetSwitches_def CEASER_switchHash_def)
    ultimately show ?thesis by simp
  qed
  then show "ce_inv ?b" using assms(1)
    by (simp add: ce_inv_def ce_located_def ce_wf_def CEASER_resetSwitches_def CEASER_switchHash_def)
  show "ce_phase 0 ?b"
    by (simp add: ce_phase_def CEASER_resetSwitches_def CEASER_switchHash_def)
qed

lemma CEASER_tick_total:
  assumes "ce_inv a" "ce_phase cur_set a"
  shows "\<exists>c b. CEASER_tick (cur_set, a) = Some (c, b) \<and> ce_inv b \<and> ce_phase c b
    \<and> resident (ce_array b) \<subseteq> resident (ce_array a)"
proof (cases "cur_set \<ge> ce_numSets a")
  case True
  then have "cur_set = ce_numSets a" using assms(2) by (simp add: ce_phase_def)
  with CEASER_flip_inv [OF assms(1)] assms(2) show ?thesis
    by (simp add: CEASER_tick_def) (simp add: CEASER_resetSwitches_def CEASER_switchHash_def)
next
  case False
  then obtain b where "CEASER_refresh_set cur_set a = Some b" "ce_inv b" "ce_phase (Suc cur_set) b"
      "resident (ce_array b) \<subseteq> resident (ce_array a)"
    using CEASER_refresh_set_total [OF assms] by auto
  with False show ?thesis by (simp add: CEASER_tick_def)
qed

subsection \<open>Every reachable CEASER array is consistent\<close>

lemma isPow2_exponent:
  fixes w :: "'a::len word"
  assumes "isPow2 w"
  obtains k where "k < LENGTH('a)" "unat w = 2 ^ k"
proof -
  have nz: "w \<noteq> 0" and and0: "w AND (w - 1) = 0" using assms by (auto simp: isPow2_def)
  obtain k where k: "k < LENGTH('a)" "bit w k" "2 ^ k \<le> unat w" "unat w < 2 ^ Suc k"
    using highest_bit_exists [OF nz] by metis
  have "unat w = 2 ^ k"
  proof (rule ccontr)
    assume "unat w \<noteq> 2 ^ k"
    moreover have "unat (w - 1) = unat w - 1" using nz by (simp add: unat_minus_one)
    ultimately have "2 ^ k \<le> unat (w - 1)" "unat (w - 1) < 2 ^ Suc k" using k(3,4) by auto
    then have "unat (w - 1) div 2 ^ k = 1" by (simp add: div_nat_eqI)
    then have "bit (unat (w - 1)) k" by (simp add: bit_iff_odd)
    then have "bit (w - 1) k" by (simp add: bit_unsigned_iff)
    with k(2) have "bit (w AND (w - 1)) k" by (simp add: bit_and_iff)
    with and0 show False by simp
  qed
  with k(1) show thesis using that by blast
qed

lemma CEASERArray_new_inv:
  assumes "CEASERArray_new nLines nAssoc hf_1 hf_2 = Some a"
    and "m < 32" "nAssoc = 2 ^ m" "nAssoc dvd nLines" "nLines < 2 ^ 32"
    and "hf_wf 1 hf_1" "hf_wf 1 hf_2"
  shows "ce_inv a \<and> ce_phase 0 a"
proof -
  have pow: "isPow2 (of_nat (nLines div nAssoc) :: u32)"
    using assms(1) by (simp add: CEASERArray_new_def Let_def abort_simps split: if_splits)
  moreover have lt: "nLines div nAssoc < 2 ^ 32" using assms(5) div_le_dividend le_less_trans by blast
  ultimately obtain k where k: "k < 32" "nLines div nAssoc = 2 ^ k"
    using isPow2_exponent [OF pow] unat_of_nat_small [of "nLines div nAssoc", where 'a = 32] by auto
  then show ?thesis using assms pow
    by (auto simp: CEASERArray_new_def Let_def ce_inv_def ce_wf_def ce_located_def ce_phase_def
        tags_distinct_def mt_seed_wf)
qed

lemma ceaser_step_inv:
  assumes "ceaser_step st st'" "ce_inv (snd st) \<and> ce_phase (fst st) (snd st)"
  shows "ce_inv (snd st') \<and> ce_phase (fst st') (snd st')"
  using assms
proof (cases rule: ceaser_step.cases)
  case (ce_step_insert x a i wb b cur_set)
  with assms(2) have inv: "ce_inv a" "ce_wf a" "ce_phase cur_set a" by (simp_all add: ce_inv_def)
  have "ce_inv b" using ce.ins_tags [OF inv(1)] ce_step_insert by blast
  moreover have "ce_phase cur_set b"
    by (rule CEASER_insert_cases [OF inv(2), of x]) (use ce_step_insert inv(3) in \<open>auto simp: ce_phase_def\<close>)
  ultimately show ?thesis using ce_step_insert by simp
next
  case ce_step_tick
  then show ?thesis using CEASER_tick_total [of "snd st" "fst st"] assms(2) by auto
qed

lemma ceaser_reach_inv:
  assumes "ceaser_step\<^sup>*\<^sup>* st0 st" "ce_inv (snd st0) \<and> ce_phase (fst st0) (snd st0)"
  shows "ce_inv (snd st) \<and> ce_phase (fst st) (snd st)"
  using assms
proof (induction rule: rtranclp_induct)
  case (step y z)
  then show ?case using ceaser_step_inv by blast
qed

subsection \<open>Properties\<close>

text \<open>In an unpartitioned set-associative array, inserting a missing line makes that line resident at the
  returned slot, removes exactly the written-back line, leaves every other lookup as it was, and keeps the
  array's invariant.\<close>

lemma SetAssoc_insert_lookup:
  assumes "sa_full_inv z a" "x \<noteq> 0" "SetAssoc_find z x a = Some None"
    and "SetAssoc_insert z cc req x a = Some (i, wb, a')"
  shows "sa_full_inv z a' \<and> resident (sa_array a') = insert x (resident (sa_array a) - {wb})
    \<and> (\<forall>y. y \<noteq> 0 \<longrightarrow> SetAssoc_find z y a'
         = (if y = x then Some (Some i) else if y = wb then Some None else SetAssoc_find z y a))"
  using sa.ins_tags [OF assms] sa.insert_resident [OF assms] sa.insert_find [OF assms] by blast

text \<open>A small last-level array for the witnesses: four sets of two ways, LRU, identity hash.\<close>

definition sample_cfg :: part_cfg where
  "sample_cfg = \<lparr>setPartition = False, wayPartition = False, proc_partition = 0, pc_numCores = 2\<rparr>"

definition sample_sa :: SetAssocArray where
  "sample_sa = the (SetAssocArray_new sample_cfg 8 2 (RP_LRU (LRU_new False 8)) HF_Id True)"

definition sample_req :: MemReq where
  "sample_req = \<lparr>r_lineAddr = 5, r_type = GETS, r_childId = 0, r_state = LocalCell 0, r_cycle = 0,
     r_initialState = I, r_srcId = 0, r_flags = 0\<rparr>"

definition sample_cc :: cc_query where
  "sample_cc = \<lparr>cc_numSharers = \<lambda>_. 0, cc_isValid = \<lambda>_. False, cc_isSharer = \<lambda>_ _. False\<rparr>"

lemma sample_sa_eq:
  "sample_sa = \<lparr>sa_array = [0, 0, 0, 0, 0, 0, 0, 0],
     sa_rp = RP_LRU \<lparr>sharersAware = False, timestamp = 1, lru_array = [0, 0, 0, 0, 0, 0, 0, 0]\<rparr>,
     sa_hf = HF_Id, numLines = 8, numSets = 4, assoc = 2, setMask = 3, isLLC = True,
     partitionSetCount = 2, partitionMask = 1, partitionAssoc = 1\<rparr>"
  by code_simp

lemmas sample_eval = SetAssoc_insert_def SetAssoc_preinsert_def SetAssoc_postinsert_def sa_region_def
  LRU_rank_def rank_by_def rank_step_def LRU_score_def LRU_replaced_def LRU_update_def b2w_def
  Id_hash_def Let_def sample_sa_eq sample_cfg_def sample_cc_def sample_req_def upt_conv_Cons word_gt_0

lemma sample_sa_wf:
  "sa_wf (sample_cfg\<lparr>setPartition := sp, wayPartition := wp, proc_partition := p\<rparr>) sample_sa \<longleftrightarrow>
     (sp \<or> wp \<longrightarrow> p < 2)"
proof -
  have "(4 :: nat) = 2 ^ 2" "(2 :: nat) = 2 ^ 1" by simp_all
  then have "\<exists>k < 32. (4 :: nat) = 2 ^ k" "\<exists>k < 32. (2 :: nat) = 2 ^ k"
    by (metis numeral_less_iff semiring_norm(76) semiring_norm(78), metis one_less_numeral_iff semiring_norm(76))
  then show ?thesis by (auto simp: sa_wf_def sample_sa_eq sample_cfg_def)
qed

lemma sample_sa_full_inv: "sa_full_inv sample_cfg sample_sa"
proof -
  have "sa_wf sample_cfg sample_sa"
    using sample_sa_wf [where sp = False and wp = False and p = 0] by (simp add: sample_cfg_def)
  moreover have "sa_located sample_cfg sample_sa" "tags_distinct (sa_array sample_sa)"
    by (auto simp: sa_located_def tags_distinct_def sample_sa_eq nth_Cons' )
  ultimately show ?thesis
    by (simp add: sa_full_inv_def sa_inv_def sa_shared_def sample_sa_eq) (simp add: sample_cfg_def)
qed



text \<open>C39: in every state a CEASER array reaches from its construction by insertions and re-hashing ticks,
  a lookup of an address gives exactly the slot that holds it, and the next tick succeeds.\<close>

theorem CEASER_reachable_consistent:
  assumes "CEASERArray_new nLines nAssoc hf_1 hf_2 = Some a0"
    and "m < 32" "nAssoc = 2 ^ m" "nAssoc dvd nLines" "nLines < 2 ^ 32" "hf_wf 1 hf_1" "hf_wf 1 hf_2"
    and "ceaser_step\<^sup>*\<^sup>* (0, a0) (cur_set, a)"
  shows "(\<forall>x i. x \<noteq> 0 \<longrightarrow> (CEASER_lookup x a = Some (Some i)
             \<longleftrightarrow> i < length (ce_array a) \<and> ce_array a ! i = x))
    \<and> (\<exists>st. CEASER_tick (cur_set, a) = Some st)"
proof -
  have "ce_inv a0 \<and> ce_phase 0 a0" by (rule CEASERArray_new_inv [OF assms(1-7)])
  then have inv: "ce_inv a" "ce_phase cur_set a" using ceaser_reach_inv [OF assms(8)] by auto
  then show ?thesis using ce.find_iff [OF inv(1)] CEASER_tick_total [OF inv] by blast
qed

theorem CEASER_reachable_consistent_witness:
  "\<exists>a0 a i. CEASERArray_new 8 2 HF_Id HF_Id = Some a0 \<and> ceaser_step\<^sup>*\<^sup>* (0, a0) (0, a)
     \<and> ce_array a ! i = 5 \<and> CEASER_lookup 5 a = Some (Some i)"
proof -
  have "CEASERArray_new 8 2 HF_Id HF_Id \<noteq> None"
    by (simp add: CEASERArray_new_def Let_def isPow2_def)
  then obtain a0 where a0: "CEASERArray_new 8 2 HF_Id HF_Id = Some a0" by blast
  have inv: "ce_inv a0 \<and> ce_phase 0 a0" by (rule CEASERArray_new_inv [OF a0, of 1]) auto
  have "5 \<notin> resident (ce_array a0)"
    using a0 by (auto simp: CEASERArray_new_def Let_def abort_simps resident_def split: if_splits)
  then have miss: "CEASER_lookup 5 a0 = Some None"
  proof -
    obtain r where r: "CEASER_lookup 5 a0 = Some r" using ce.find_total [of a0 5] inv by auto
    have "r = None"
    proof (rule ccontr)
      assume "r \<noteq> None"
      then obtain j where "CEASER_lookup 5 a0 = Some (Some j)" using r by auto
      then have "5 \<in> set (ce_array a0)" using ce.find_sound [of a0 5 j] inv by (metis nth_mem)
      then show False using \<open>5 \<notin> resident (ce_array a0)\<close> by (simp add: resident_def)
    qed
    with r show ?thesis by simp
  qed
  have wf: "ce_wf a0" using inv by (simp add: ce_inv_def)
  obtain i wb a where ins: "CEASER_insert 5 a0 = Some (i, wb, a)"
    by (rule CEASER_insert_cases [OF wf, of 5]) blast
  then have "ceaser_step (0, a0) (0, a)" using miss by (intro ce_step_insert) auto
  then have reach: "ceaser_step\<^sup>*\<^sup>* (0, a0) (0, a)" by blast
  have at: "i < length (ce_array a)" "ce_array a ! i = 5"
    using ce.ins_tags [OF _ _ miss ins] inv by auto
  have "CEASER_lookup 5 a = Some (Some i)"
    using CEASER_reachable_consistent [OF a0, of 1] reach at by simp
  with a0 reach at show ?thesis by blast
qed

text \<open>a re-hashing tick never brings in a line and never loses the consistency of the array: it
  only drops lines that were displaced.\<close>

lemma CEASER_tick_keeps_lines:
  assumes "ce_inv a" "ce_phase cur_set a" "CEASER_tick (cur_set, a) = Some (c, b)"
  shows "ce_inv b \<and> ce_phase c b \<and> resident (ce_array b) \<subseteq> resident (ce_array a)"
  using CEASER_tick_total [OF assms(1,2)] assms(3) by auto

end
