(* ===== verification/Coherence.thy ===== *)
theory Coherence
  imports CacheArrays
begin

text \<open>
  The MESI controllers of \<^verbatim>\<open>src/src/coherence_ctrls.h\<close> and \<^verbatim>\<open>coherence_ctrls.cpp\<close>.

  \<^item> \<^verbatim>\<open>MESIBottomCC\<close> (\<open>BCC\<close>) holds the MESI state of each line with respect to the level above and calls the
    parents. A parent call writes the line state through the \<^verbatim>\<open>state\<close> pointer of the request and may
    invalidate other lines of the caller, so it maps a pair of the caller's \<open>BCC\<close> and the rest of the
    hierarchy \<open>'w\<close> to a new pair.
  \<^item> \<^verbatim>\<open>MESITopCC\<close> (\<open>TCC\<close>) is the directory of the children's copies and calls them to invalidate and to
    downgrade.
  \<^item> \<^verbatim>\<open>MESICC\<close> composes the two for a cache with children, \<^verbatim>\<open>MESITerminalCC\<close> is a cache without.

  The calls into other objects (\<^verbatim>\<open>parents[i]->access\<close>, \<^verbatim>\<open>children[c]->invalidate\<close>, ...) are the fields of the
  records \<open>up\<close> and \<open>down\<close>. The futex locks that make every handler atomic are not modelled.
\<close>

subsection \<open>The bottom controller\<close>

record Prof =
  profGETSHit :: nat
  profGETSMiss :: nat
  profGETXHit :: nat
  profGETXMissIM :: nat
  profGETXMissSM :: nat
  profPUTS :: nat
  profPUTX :: nat
  profINV :: nat
  profINVX :: nat
  profFWD :: nat
  profGETNextLevelLat :: nat
  profGETNetLat :: nat
  profFirstTimeMiss :: nat
  profIcacheFirstTimeMiss :: nat
  profDcacheFirstTimeMiss :: nat
  profRXPFirstTimeMiss :: nat
  profRPFirstTimeMiss :: nat
  profRWPFirstTimeMiss :: nat
  profRWXPFirstTimeMiss :: nat
  profBinaryFirstTimeMiss :: nat
  profHeapFirstTimeMiss :: nat
  profSLFirstTimeMiss :: nat
  profMMAPFirstTimeMiss :: nat
  profSTACKFirstTimeMiss :: nat
  profVVARFirstTimeMiss :: nat
  profVDSOFirstTimeMiss :: nat
  profVSYSCALLFirstTimeMiss :: nat

definition Prof0 :: Prof where
  "Prof0 = \<lparr>profGETSHit = 0, profGETSMiss = 0, profGETXHit = 0, profGETXMissIM = 0, profGETXMissSM = 0,
     profPUTS = 0, profPUTX = 0, profINV = 0, profINVX = 0, profFWD = 0, profGETNextLevelLat = 0,
     profGETNetLat = 0, profFirstTimeMiss = 0, profIcacheFirstTimeMiss = 0, profDcacheFirstTimeMiss = 0,
     profRXPFirstTimeMiss = 0, profRPFirstTimeMiss = 0, profRWPFirstTimeMiss = 0,
     profRWXPFirstTimeMiss = 0, profBinaryFirstTimeMiss = 0, profHeapFirstTimeMiss = 0,
     profSLFirstTimeMiss = 0, profMMAPFirstTimeMiss = 0, profSTACKFirstTimeMiss = 0,
     profVVARFirstTimeMiss = 0, profVDSOFirstTimeMiss = 0, profVSYSCALLFirstTimeMiss = 0\<rparr>"

text \<open>\<open>b_ident\<close> is the identity that pointers into the state array carry.\<close>

record BCC =
  b_array :: "MESIState list"
  parentRTTs :: "nat list"
  selfId :: nat
  isL2 :: bool
  b_rng :: MTRand
  b_nonInclusiveHack :: bool
  b_prof :: Prof
  b_ident :: nat

record 'w up =
  up_access :: "nat \<Rightarrow> MemReq \<Rightarrow> BCC \<times> 'w \<Rightarrow> (cycle \<times> BCC \<times> 'w) option"
  up_accessSkew :: "nat \<Rightarrow> MemReq \<Rightarrow> BCC \<times> 'w \<Rightarrow> (cycle \<times> BCC \<times> 'w) option"
  up_checkSkew :: "nat \<Rightarrow> MemReq \<Rightarrow> BCC \<times> 'w \<Rightarrow> nat option option"
  up_skews :: nat

definition BCC_new :: "nat \<Rightarrow> nat \<Rightarrow> bool \<Rightarrow> nat \<Rightarrow> BCC" where
  "BCC_new nLines self hack ident = \<lparr>b_array = replicate nLines I, parentRTTs = [], selfId = self,
     isL2 = False, b_rng = mt_seed 0x41220423A, b_nonInclusiveHack = hack, b_prof = Prof0, b_ident = ident\<rparr>"

text \<open>\<^verbatim>\<open>init\<close>: the round-trip times to the parents come from the network (0 without one), and a cache whose name
  starts with \<^verbatim>\<open>l2\<close> treats its parents as the skews of the last level.\<close>

definition BCC_init :: "(string \<Rightarrow> nat) option \<Rightarrow> string \<Rightarrow> string list \<Rightarrow> BCC \<Rightarrow> BCC" where
  "BCC_init getRTT name parentNames b =
     b\<lparr>parentRTTs := map (\<lambda>p. case getRTT of None \<Rightarrow> 0 | Some f \<Rightarrow> f p) parentNames,
       isL2 := (take 2 name = ''l2'')\<rparr>"

definition bump :: "(Prof \<Rightarrow> Prof) \<Rightarrow> BCC \<Rightarrow> BCC" where
  "bump f b = b\<lparr>b_prof := f (b_prof b)\<rparr>"

definition set_st :: "nat \<Rightarrow> MESIState \<Rightarrow> BCC \<Rightarrow> BCC" where
  "set_st lineId s b = b\<lparr>b_array := (b_array b)[lineId := s]\<rparr>"

text \<open>The XOR of the four 16-bit pieces of the address, modulo the number of parents.\<close>

fun parent_hash :: "nat \<Rightarrow> u64 \<Rightarrow> u32 \<Rightarrow> u32" where
  "parent_hash 0 tmp res = res"
| "parent_hash (Suc n) tmp res = parent_hash n (drop_bit 16 tmp) (res XOR ucast (0xffff AND tmp))"

definition getParentId :: "BCC \<Rightarrow> addr \<Rightarrow> nat" where
  "getParentId b lineAddr = unat (parent_hash 4 lineAddr 0) mod length (parentRTTs b)"

definition bcc_isExclusive :: "nat \<Rightarrow> BCC \<Rightarrow> bool" where
  "bcc_isExclusive lineId b \<longleftrightarrow> b_array b ! lineId = E \<or> b_array b ! lineId = M"

definition bcc_isValid :: "nat \<Rightarrow> BCC \<Rightarrow> bool" where
  "bcc_isValid lineId b \<longleftrightarrow> b_array b ! lineId \<noteq> I"

definition bcc_setInvalid :: "nat \<Rightarrow> BCC \<Rightarrow> BCC" where
  "bcc_setInvalid lineId b = set_st lineId I b"

definition bcc_moveAddr :: "nat \<Rightarrow> nat \<Rightarrow> BCC \<Rightarrow> BCC option" where
  "bcc_moveAddr repl_id lineId b = do {
     assert_that (b_array b ! repl_id = I);
     let b1 = set_st repl_id (b_array b ! lineId) b;
     Some (set_st lineId I b1) }"

text \<open>The banks of the skew group of an address, tried in order; the modulo by the number of skews is evaluated
  on every path, so it must not be zero.\<close>

definition start_bank :: "nat \<Rightarrow> nat \<Rightarrow> nat" where
  "start_bank num_skews bank_num = bank_num - bank_num mod num_skews"

fun find_skew :: "'w up \<Rightarrow> MemReq \<Rightarrow> nat list \<Rightarrow> BCC \<times> 'w \<Rightarrow> nat option option" where
  "find_skew u req [] bw = Some None"
| "find_skew u req (i # is) bw = do {
     r \<leftarrow> up_checkSkew u i req bw;
     if r \<noteq> None then Some (Some i) else find_skew u req is bw }"

definition up_put :: "'w up \<Rightarrow> MemReq \<Rightarrow> nat \<Rightarrow> BCC \<times> 'w \<Rightarrow> (cycle \<times> BCC \<times> 'w) option" where
  "up_put u req lineId bw = do {
     let b = fst bw;
     let bank_num = getParentId b (r_lineAddr req);
     assert_that (up_skews u \<noteq> 0);
     let st = start_bank (up_skews u) bank_num;
     if isL2 b then do {
       hit \<leftarrow> find_skew u req [st..<st + up_skews u] bw;
       case hit of
         Some i \<Rightarrow> up_accessSkew u i req bw
       | None \<Rightarrow> do {
           assert_that (b_array b ! lineId \<noteq> r_initialState req);
           Some (r_cycle req, b, snd bw) } }
     else up_access u bank_num req bw }"

definition up_get :: "'w up \<Rightarrow> MemReq \<Rightarrow> BCC \<times> 'w \<Rightarrow> (cycle \<times> BCC \<times> 'w) option" where
  "up_get u req bw = do {
     let b = fst bw;
     let bank_num = getParentId b (r_lineAddr req);
     assert_that (up_skews u \<noteq> 0);
     let st = start_bank (up_skews u) bank_num;
     if isL2 b then do {
       hit \<leftarrow> find_skew u req [st..<st + up_skews u] bw;
       case hit of
         Some i \<Rightarrow> up_accessSkew u i req bw
       | None \<Rightarrow> do {
           (r, g) \<leftarrow> randInt_n (of_nat (up_skews u - 1)) (b_rng b);
           up_accessSkew u (st + unat r) req (b\<lparr>b_rng := g\<rparr>, snd bw) } }
     else up_access u bank_num req bw }"

definition bcc_req ::
  "BCC \<Rightarrow> addr \<Rightarrow> AccessType \<Rightarrow> nat \<Rightarrow> cycle \<Rightarrow> nat \<Rightarrow> u32 \<Rightarrow> MemReq" where
  "bcc_req b lineAddr type lineId cyc srcId flags =
     \<lparr>r_lineAddr = lineAddr, r_type = type, r_childId = selfId b, r_state = LineCell (b_ident b) lineId,
      r_cycle = cyc, r_initialState = b_array b ! lineId, r_srcId = srcId, r_flags = flags\<rparr>"

definition bcc_processEviction ::
  "'w up \<Rightarrow> addr \<Rightarrow> nat \<Rightarrow> bool \<Rightarrow> cycle \<Rightarrow> nat \<Rightarrow> BCC \<times> 'w \<Rightarrow> (cycle \<times> BCC \<times> 'w) option" where
  "bcc_processEviction u wbLineAddr lineId lowerLevelWriteback cyc srcId bw0 = do {
     let b0 = fst bw0;
     b \<leftarrow> (if lowerLevelWriteback then do {
             assert_that (b_array b0 ! lineId = M \<or> b_array b0 ! lineId = E);
             Some (set_st lineId M b0) }
           else Some b0);
     (respCycle, b', w') \<leftarrow>
       (case b_array b ! lineId of
          I \<Rightarrow> Some (cyc, b, snd bw0)
        | S \<Rightarrow> up_put u (bcc_req b wbLineAddr PUTS lineId cyc srcId 0) lineId (b, snd bw0)
        | E \<Rightarrow> up_put u (bcc_req b wbLineAddr PUTS lineId cyc srcId 0) lineId (b, snd bw0)
        | M \<Rightarrow> up_put u (bcc_req b wbLineAddr PUTX lineId cyc srcId 0) lineId (b, snd bw0));
     assert_that (b_array b' ! lineId = I);
     Some (respCycle, b', w') }"

text \<open>The latencies are \<^verbatim>\<open>uint32_t\<close>: the difference of two 64-bit cycles is cut to 32 bits.\<close>

definition lat32 :: "cycle \<Rightarrow> cycle \<Rightarrow> nat" where
  "lat32 resp cyc = nat ((int resp - int cyc) mod 2 ^ 32)"

definition bcc_miss ::
  "'w up \<Rightarrow> addr \<Rightarrow> nat \<Rightarrow> AccessType \<Rightarrow> cycle \<Rightarrow> nat \<Rightarrow> u32 \<Rightarrow> BCC \<times> 'w \<Rightarrow> (cycle \<times> BCC \<times> 'w) option" where
  "bcc_miss u lineAddr lineId type cyc srcId flags bw = do {
     let b = fst bw;
     let parentId = getParentId b lineAddr;
     (resp, b', w') \<leftarrow> up_get u (bcc_req b lineAddr type lineId cyc srcId flags) bw;
     let nextLevelLat = lat32 resp cyc;
     let netLat = parentRTTs b' ! parentId;
     let b'' = bump (\<lambda>p. p\<lparr>profGETNextLevelLat := profGETNextLevelLat p + nextLevelLat,
                             profGETNetLat := profGETNetLat p + netLat\<rparr>) b';
     Some (cyc + (nextLevelLat + netLat) mod 2 ^ 32, b'', w') }"

definition bcc_processAccess ::
  "'w up \<Rightarrow> addr \<Rightarrow> nat \<Rightarrow> AccessType \<Rightarrow> cycle \<Rightarrow> nat \<Rightarrow> u32 \<Rightarrow> BCC \<times> 'w \<Rightarrow> (cycle \<times> BCC \<times> 'w) option" where
  "bcc_processAccess u lineAddr lineId type cyc srcId flags bw = do {
     let b = fst bw; let w = snd bw; let st = b_array b ! lineId;
     (respCycle, b', w') \<leftarrow>
       (case type of
          PUTS \<Rightarrow> do {
            assert_that (st \<noteq> I);
            Some (cyc, bump (\<lambda>p. p\<lparr>profPUTS := Suc (profPUTS p)\<rparr>) b, w) }
        | PUTX \<Rightarrow> do {
            assert_that (st = M \<or> st = E);
            let b1 = (if st = E then set_st lineId M b else b);
            Some (cyc, bump (\<lambda>p. p\<lparr>profPUTX := Suc (profPUTX p)\<rparr>) b1, w) }
        | GETS \<Rightarrow>
            if st = I then do {
              (r, b1, w1) \<leftarrow> bcc_miss u lineAddr lineId GETS cyc srcId flags bw;
              let b2 = bump (\<lambda>p. p\<lparr>profGETSMiss := Suc (profGETSMiss p)\<rparr>) b1;
              assert_that (b_array b2 ! lineId = S \<or> b_array b2 ! lineId = E);
              Some (r, b2, w1) }
            else Some (cyc, bump (\<lambda>p. p\<lparr>profGETSHit := Suc (profGETSHit p)\<rparr>) b, w)
        | GETX \<Rightarrow> do {
            (r, b2, w2) \<leftarrow>
              (if st = I \<or> st = S then
                 let b1 = bump (if st = I then (\<lambda>p. p\<lparr>profGETXMissIM := Suc (profGETXMissIM p)\<rparr>)
                                else (\<lambda>p. p\<lparr>profGETXMissSM := Suc (profGETXMissSM p)\<rparr>)) b
                 in bcc_miss u lineAddr lineId GETX cyc srcId flags (b1, w)
               else
                 let b1 = (if st = E then set_st lineId M b else b)
                 in Some (cyc, bump (\<lambda>p. p\<lparr>profGETXHit := Suc (profGETXHit p)\<rparr>) b1, w));
            assert_that (b_array b2 ! lineId = M);
            Some (r, b2, w2) });
     assert_that (respCycle \<ge> cyc);
     Some (respCycle, b', w') }"

definition bcc_processWritebackOnAccess :: "nat \<Rightarrow> BCC \<Rightarrow> BCC option" where
  "bcc_processWritebackOnAccess lineId b = do {
     assert_that (b_array b ! lineId = M \<or> b_array b ! lineId = E);
     Some (if b_array b ! lineId = E then set_st lineId M b else b) }"

text \<open>\<^verbatim>\<open>processInval\<close> gives the flag it pulls up (\<open>reqWriteback\<close>) and the new controller.\<close>

definition bcc_processInval :: "nat \<Rightarrow> InvType \<Rightarrow> bool \<Rightarrow> BCC \<Rightarrow> (bool \<times> BCC) option" where
  "bcc_processInval lineId type reqWriteback b = do {
     let st = b_array b ! lineId;
     assert_that (st \<noteq> I);
     case type of
       INVX \<Rightarrow> do {
         assert_that (st = E \<or> st = M);
         Some (reqWriteback \<or> st = M,
               bump (\<lambda>p. p\<lparr>profINVX := Suc (profINVX p)\<rparr>) (set_st lineId S b)) }
     | INV \<Rightarrow> Some (reqWriteback \<or> st = M,
               bump (\<lambda>p. p\<lparr>profINV := Suc (profINV p)\<rparr>) (set_st lineId I b))
     | FWD \<Rightarrow> do {
         assert_that (st = S);
         Some (reqWriteback, bump (\<lambda>p. p\<lparr>profFWD := Suc (profFWD p)\<rparr>) b) } }"

text \<open>The writeback of a line this cache does not hold is forwarded with the child's own state pointer, whose
  current value is \<open>childState\<close>.\<close>

definition bcc_processNonInclusiveWriteback ::
  "'w up \<Rightarrow> addr \<Rightarrow> AccessType \<Rightarrow> cycle \<Rightarrow> state_ref \<Rightarrow> MESIState \<Rightarrow> nat \<Rightarrow> u32 \<Rightarrow> BCC \<times> 'w
   \<Rightarrow> (cycle \<times> BCC \<times> 'w) option" where
  "bcc_processNonInclusiveWriteback u lineAddr type cyc ref childState srcId flags bw = do {
     assert_that (b_nonInclusiveHack (fst bw));
     let req = \<lparr>r_lineAddr = lineAddr, r_type = type, r_childId = selfId (fst bw), r_state = ref,
                r_cycle = cyc, r_initialState = childState, r_srcId = srcId, r_flags = flags OR NONINCLWB\<rparr>;
     up_access u (getParentId (fst bw) lineAddr) req bw }"

subsection \<open>The top controller\<close>

definition MAX_CACHE_CHILDREN :: nat where "MAX_CACHE_CHILDREN = 256"

record Entry =
  numSharers :: nat
  sharers_bits :: "bool list"
  owners :: "bool list"
  exclusive :: bool

definition Entry_clear :: Entry where
  "Entry_clear = \<lparr>numSharers = 0, sharers_bits = replicate MAX_CACHE_CHILDREN False,
     owners = replicate MAX_CACHE_CHILDREN False, exclusive = False\<rparr>"

definition Entry_isEmpty :: "Entry \<Rightarrow> bool" where
  "Entry_isEmpty e \<longleftrightarrow> numSharers e = 0"

definition Entry_isExclusive :: "Entry \<Rightarrow> bool" where
  "Entry_isExclusive e \<longleftrightarrow> numSharers e = 1 \<and> exclusive e"

text \<open>The list of round-trip times has one element per child.\<close>

record TCC =
  t_array :: "Entry list"
  childrenRTTs :: "nat list"
  t_nonInclusiveHack :: bool

record 'w down =
  dn_invalidate :: "nat \<Rightarrow> InvReq \<Rightarrow> 'w \<Rightarrow> (cycle \<times> bool \<times> 'w) option"
  dn_refresh :: "nat \<Rightarrow> addr \<Rightarrow> nat \<Rightarrow> 'w \<Rightarrow> 'w option"

definition TCC_new :: "nat \<Rightarrow> bool \<Rightarrow> TCC" where
  "TCC_new nLines hack =
     \<lparr>t_array = replicate nLines Entry_clear, childrenRTTs = [], t_nonInclusiveHack = hack\<rparr>"

definition TCC_init :: "(string \<Rightarrow> nat) option \<Rightarrow> string list \<Rightarrow> TCC \<Rightarrow> TCC option" where
  "TCC_init getRTT childNames t = do {
     assert_that (length childNames \<le> MAX_CACHE_CHILDREN);
     Some (t\<lparr>childrenRTTs := map (\<lambda>c. case getRTT of None \<Rightarrow> 0 | Some f \<Rightarrow> f c) childNames\<rparr>) }"

definition set_entry :: "nat \<Rightarrow> Entry \<Rightarrow> TCC \<Rightarrow> TCC" where
  "set_entry lineId e t = t\<lparr>t_array := (t_array t)[lineId := e]\<rparr>"

definition set_sharer :: "nat \<Rightarrow> bool \<Rightarrow> Entry \<Rightarrow> Entry" where
  "set_sharer c v e = e\<lparr>sharers_bits := (sharers_bits e)[c := v]\<rparr>"

definition set_owner :: "nat \<Rightarrow> Entry \<Rightarrow> Entry" where
  "set_owner c e = e\<lparr>owners := (owners e)[c := True]\<rparr>"

text \<open>\<^verbatim>\<open>numSharers--\<close> on a \<^verbatim>\<open>uint32_t\<close>.\<close>

definition dec32 :: "nat \<Rightarrow> nat" where
  "dec32 n = (if n = 0 then 2 ^ 32 - 1 else n - 1)"

definition tcc_checkSameOwner :: "nat \<Rightarrow> nat \<Rightarrow> TCC \<Rightarrow> bool" where
  "tcc_checkSameOwner lineId srcId t = owners (t_array t ! lineId) ! srcId"

definition tcc_numSharers :: "nat \<Rightarrow> TCC \<Rightarrow> nat" where
  "tcc_numSharers lineId t = numSharers (t_array t ! lineId)"

definition tcc_isSharer :: "nat \<Rightarrow> nat \<Rightarrow> TCC \<Rightarrow> bool" where
  "tcc_isSharer lineId srcId t = sharers_bits (t_array t ! lineId) ! srcId"

text \<open>The loop of \<^verbatim>\<open>evictAddr\<close> over the children: refresh the sharers, drop the directory entry but not its
  owner bits.\<close>

fun evict_loop :: "'w down \<Rightarrow> addr \<Rightarrow> nat \<Rightarrow> nat list \<Rightarrow> Entry \<times> 'w \<Rightarrow> (Entry \<times> 'w) option" where
  "evict_loop d lineAddr lineId [] ew = Some ew"
| "evict_loop d lineAddr lineId (c # cs) ew = do {
     let e = fst ew;
     w1 \<leftarrow> (if sharers_bits e ! c then do {
              assert_that (lineAddr \<noteq> 0);
              dn_refresh d c lineAddr lineId (snd ew) }
            else Some (snd ew));
     evict_loop d lineAddr lineId cs ((set_sharer c False e)\<lparr>exclusive := False, numSharers := 0\<rparr>, w1) }"

definition tcc_evictAddr :: "'w down \<Rightarrow> addr \<Rightarrow> nat \<Rightarrow> TCC \<times> 'w \<Rightarrow> (TCC \<times> 'w) option" where
  "tcc_evictAddr d lineAddr lineId tw = do {
     let t = fst tw;
     (e, w') \<leftarrow> evict_loop d lineAddr lineId [0..<length (childrenRTTs t)] (t_array t ! lineId, snd tw);
     Some (set_entry lineId e t, w') }"

text \<open>The two loops of \<^verbatim>\<open>moveAddr\<close> copy the bits of the children from one entry to the other, then clear the
  source.\<close>

definition copy_bits :: "nat \<Rightarrow> bool list \<Rightarrow> bool list \<Rightarrow> bool list" where
  "copy_bits n from to = foldl (\<lambda>xs c. xs[c := from ! c]) to [0..<n]"

definition clear_bits :: "nat \<Rightarrow> bool list \<Rightarrow> bool list" where
  "clear_bits n to = foldl (\<lambda>xs c. xs[c := False]) to [0..<n]"

definition tcc_moveAddr :: "nat \<Rightarrow> nat \<Rightarrow> TCC \<Rightarrow> TCC option" where
  "tcc_moveAddr repl_id lineId t = do {
     let n = length (childrenRTTs t);
     let e1 = t_array t ! repl_id;
     assert_that (numSharers e1 = 0);
     assert_that (\<not> exclusive e1);
     let e2 = t_array t ! lineId;
     let t1 = set_entry repl_id
       (e1\<lparr>numSharers := numSharers e2, exclusive := exclusive e2,
           sharers_bits := copy_bits n (sharers_bits e2) (sharers_bits e1),
           owners := copy_bits n (owners e2) (owners e1)\<rparr>) t;
     let e2' = t_array t1 ! lineId;
     Some (set_entry lineId
       (e2'\<lparr>numSharers := 0, exclusive := False, sharers_bits := clear_bits n (sharers_bits e2'),
            owners := clear_bits n (owners e2')\<rparr>) t1) }"

text \<open>The loop of \<^verbatim>\<open>sendInvalidates\<close>: the entry, the maximum response cycle, the number of messages, the
  writeback flag and the rest of the hierarchy.\<close>

fun inv_loop ::
  "'w down \<Rightarrow> nat list \<Rightarrow> InvReq \<Rightarrow> nat list \<Rightarrow> Entry \<times> cycle \<times> nat \<times> bool \<times> 'w
   \<Rightarrow> (Entry \<times> cycle \<times> nat \<times> bool \<times> 'w) option" where
  "inv_loop d rtts req [] st = Some st"
| "inv_loop d rtts req (c # cs) (e, maxCycle, sentInvs, wb, w) =
     (if sharers_bits e ! c then do {
        (resp, wbc, w1) \<leftarrow> dn_invalidate d c req w;
        let respCycle = resp + rtts ! c;
        inv_loop d rtts req cs
          (if i_type req = INV then set_sharer c False e else e, max respCycle maxCycle, Suc sentInvs,
           wb \<or> wbc, w1) }
      else inv_loop d rtts req cs (e, maxCycle, sentInvs, wb, w))"

definition tcc_sendInvalidates ::
  "'w down \<Rightarrow> addr \<Rightarrow> nat \<Rightarrow> InvType \<Rightarrow> bool \<Rightarrow> cycle \<Rightarrow> nat \<Rightarrow> TCC \<times> 'w
   \<Rightarrow> (cycle \<times> bool \<times> TCC \<times> 'w) option" where
  "tcc_sendInvalidates d lineAddr lineId type reqWriteback cyc srcId tw = do {
     let t = fst tw; let w = snd tw; let e = t_array t ! lineId;
     if type = INVX \<and> \<not> Entry_isExclusive e then Some (cyc, reqWriteback, t, w)
     else if Entry_isEmpty e then Some (cyc, reqWriteback, t, w)
     else do {
       (e1, maxCycle, sentInvs, wb, w1) \<leftarrow>
         inv_loop d (childrenRTTs t)
           \<lparr>i_lineAddr = lineAddr, i_type = type, i_cycle = cyc, i_srcId = srcId\<rparr>
           [0..<length (childrenRTTs t)] (e, cyc, 0, reqWriteback, w);
       assert_that (sentInvs = numSharers e1);
       e2 \<leftarrow> (if type = INV then Some (e1\<lparr>numSharers := 0\<rparr>)
             else do {
               assert_that (exclusive e1);
               assert_that (numSharers e1 = 1);
               Some (e1\<lparr>exclusive := False\<rparr>) });
       Some (maxCycle, wb, set_entry lineId e2 t, w1) } }"

definition tcc_processEviction ::
  "'w down \<Rightarrow> addr \<Rightarrow> nat \<Rightarrow> bool \<Rightarrow> cycle \<Rightarrow> nat \<Rightarrow> TCC \<times> 'w \<Rightarrow> (cycle \<times> bool \<times> TCC \<times> 'w) option" where
  "tcc_processEviction d wbLineAddr lineId reqWriteback cyc srcId tw =
     (if t_nonInclusiveHack (fst tw)
      then Some (cyc, reqWriteback, set_entry lineId Entry_clear (fst tw), snd tw)
      else tcc_sendInvalidates d wbLineAddr lineId INV reqWriteback cyc srcId tw)"

text \<open>\<^verbatim>\<open>processAccess\<close> reads and writes the state of the requesting child through \<^verbatim>\<open>childState\<close>; here it takes
  the value and returns the new one, with the response cycle, the induced writeback and the directory.\<close>

definition tcc_put :: "nat \<Rightarrow> nat \<Rightarrow> TCC \<Rightarrow> TCC option" where
  "tcc_put lineId childId t = do {
     let e = t_array t ! lineId;
     assert_that (sharers_bits e ! childId);
     Some (set_entry lineId ((set_sharer childId False e)\<lparr>numSharers := dec32 (numSharers e)\<rparr>) t) }"

definition tcc_processAccess ::
  "'w down \<Rightarrow> addr \<Rightarrow> nat \<Rightarrow> AccessType \<Rightarrow> nat \<Rightarrow> bool \<Rightarrow> MESIState \<Rightarrow> bool \<Rightarrow> cycle \<Rightarrow> nat \<Rightarrow> u32 \<Rightarrow> TCC \<times> 'w
   \<Rightarrow> (cycle \<times> MESIState \<times> bool \<times> TCC \<times> 'w) option" where
  "tcc_processAccess d lineAddr lineId type childId haveExclusive childState inducedWriteback cyc srcId flags tw =
     (let t = fst tw; w = snd tw; e = t_array t ! lineId
      in case type of
        PUTX \<Rightarrow> do {
          assert_that (Entry_isExclusive e);
          if is_flag flags PUTX_KEEPEXCL then do {
            assert_that (sharers_bits e ! childId);
            assert_that (childState = M);
            Some (cyc, E, inducedWriteback, t, w) }
          else do {
            t' \<leftarrow> tcc_put lineId childId t;
            Some (cyc, I, inducedWriteback, t', w) } }
      | PUTS \<Rightarrow> do {
          t' \<leftarrow> tcc_put lineId childId t;
          Some (cyc, I, inducedWriteback, t', w) }
      | GETS \<Rightarrow>
          if Entry_isEmpty e \<and> haveExclusive \<and> \<not> is_flag flags NOEXCL then
            Some (cyc, E, inducedWriteback,
              set_entry lineId (set_owner childId (set_sharer childId True e)\<lparr>numSharers := 1, exclusive := True\<rparr>) t, w)
          else do {
            assert_that (\<not> sharers_bits e ! childId);
            (respCycle, wb, t1, w1) \<leftarrow>
              (if Entry_isExclusive e
               then tcc_sendInvalidates d lineAddr lineId INVX inducedWriteback cyc srcId tw
               else Some (cyc, inducedWriteback, t, w));
            let e1 = t_array t1 ! lineId;
            assert_that (\<not> Entry_isExclusive e1);
            Some (respCycle, S, wb,
              set_entry lineId (set_owner childId (set_sharer childId True e1)
                 \<lparr>numSharers := Suc (numSharers e1), exclusive := False\<rparr>) t1, w1) }
      | GETX \<Rightarrow> do {
          assert_that haveExclusive;
          e0 \<leftarrow> (if sharers_bits e ! childId then do {
                   assert_that (\<not> Entry_isExclusive e);
                   Some ((set_sharer childId False e)\<lparr>numSharers := dec32 (numSharers e)\<rparr>) }
                 else Some e);
          (respCycle, wb, t1, w1) \<leftarrow>
            tcc_sendInvalidates d lineAddr lineId INV inducedWriteback cyc srcId (set_entry lineId e0 t, w);
          let e1 = t_array t1 ! lineId;
          let e2 = set_owner childId (set_sharer childId True e1)
                     \<lparr>numSharers := Suc (numSharers e1), exclusive := True\<rparr>;
          assert_that (numSharers e2 = 1);
          Some (respCycle, M, wb, set_entry lineId e2 t1, w1) })"

definition tcc_processInval ::
  "'w down \<Rightarrow> addr \<Rightarrow> nat \<Rightarrow> InvType \<Rightarrow> bool \<Rightarrow> cycle \<Rightarrow> nat \<Rightarrow> TCC \<times> 'w \<Rightarrow> (cycle \<times> bool \<times> TCC \<times> 'w) option" where
  "tcc_processInval d lineAddr lineId type reqWriteback cyc srcId tw =
     (if type = FWD then do {
        assert_that (\<not> t_nonInclusiveHack (fst tw));
        Some (cyc, reqWriteback, fst tw, snd tw) }
      else tcc_sendInvalidates d lineAddr lineId type reqWriteback cyc srcId tw)"

subsection \<open>The controller of a cache with children\<close>

text \<open>\<open>rd\<close> and \<open>wr\<close> dereference the state pointer of a request. The state of the controller is the triple of
  its bottom part, its directory and the rest of the hierarchy.\<close>

record 'w cells =
  rd :: "state_ref \<Rightarrow> 'w \<Rightarrow> MESIState"
  wr :: "state_ref \<Rightarrow> MESIState \<Rightarrow> 'w \<Rightarrow> 'w"

definition MESICC_startAccess :: "'w cells \<Rightarrow> MemReq \<Rightarrow> 'w \<Rightarrow> (bool \<times> MemReq) option" where
  "MESICC_startAccess cl req w = do {
     (skipAccess, type) \<leftarrow> CheckForMESIRace (r_type req) (rd cl (r_state req) w) (r_initialState req);
     Some (skipAccess, req\<lparr>r_type := type\<rparr>) }"

definition MESICC_shouldAllocate :: "bool \<Rightarrow> MemReq \<Rightarrow> bool option" where
  "MESICC_shouldAllocate nonInclusiveHack req =
     (if r_type req = GETS \<or> r_type req = GETX then Some True
      else if \<not> nonInclusiveHack then panic else Some False)"

definition MESICC_processEviction ::
  "(TCC \<times> 'w) up \<Rightarrow> 'w down \<Rightarrow> MemReq \<Rightarrow> addr \<Rightarrow> nat \<Rightarrow> cycle \<Rightarrow> BCC \<times> TCC \<times> 'w
   \<Rightarrow> (cycle \<times> BCC \<times> TCC \<times> 'w) option" where
  "MESICC_processEviction u d triggerReq wbLineAddr lineId startCycle s = (case s of (b, tw) \<Rightarrow> do {
     (evCycle, lowerLevelWriteback, tw1) \<leftarrow>
       tcc_processEviction d wbLineAddr lineId False startCycle (r_srcId triggerReq) tw;
     bcc_processEviction u wbLineAddr lineId lowerLevelWriteback evCycle (r_srcId triggerReq) (b, tw1) })"

definition MESICC_processAccess ::
  "(TCC \<times> 'w) up \<Rightarrow> 'w down \<Rightarrow> 'w cells \<Rightarrow> bool \<Rightarrow> MemReq \<Rightarrow> nat option \<Rightarrow> cycle \<Rightarrow> BCC \<times> TCC \<times> 'w
   \<Rightarrow> (cycle \<times> BCC \<times> TCC \<times> 'w) option" where
  "MESICC_processAccess u d cl nonInclusiveHack req lineIdOpt startCycle s = (case s of (b, t, w) \<Rightarrow>
     (case (case lineIdOpt of
              None \<Rightarrow> None
            | Some lineId \<Rightarrow> if IsPut (r_type req) \<and> \<not> bcc_isValid lineId b then None else Some lineId) of
        None \<Rightarrow> do {
          assert_that nonInclusiveHack;
          assert_that (IsPut (r_type req));
          bcc_processNonInclusiveWriteback u (r_lineAddr req) (r_type req) startCycle (r_state req)
            (rd cl (r_state req) w) (r_srcId req) (r_flags req) s }
      | Some lineId \<Rightarrow> do {
          let isPrefetch = is_flag (r_flags req) PREFETCH;
          assert_that (\<not> isPrefetch \<or> r_type req = GETS);
          let flags = r_flags req AND NOT PREFETCH;
          (respCycle, b1, t1, w1) \<leftarrow>
            bcc_processAccess u (r_lineAddr req) lineId (r_type req) startCycle (r_srcId req) flags s;
          if isPrefetch then Some (respCycle, b1, t1, w1)
          else do {
            (respCycle2, childState, lowerLevelWriteback, t2, w2) \<leftarrow>
              tcc_processAccess d (r_lineAddr req) lineId (r_type req) (r_childId req)
                (bcc_isExclusive lineId b1) (rd cl (r_state req) w1) False respCycle (r_srcId req) flags (t1, w1);
            let w3 = wr cl (r_state req) childState w2;
            b3 \<leftarrow> (if lowerLevelWriteback then bcc_processWritebackOnAccess lineId b1 else Some b1);
            Some (respCycle2, b3, t2, w3) } }))"

definition MESICC_processInv ::
  "'w down \<Rightarrow> InvReq \<Rightarrow> nat \<Rightarrow> cycle \<Rightarrow> BCC \<times> TCC \<times> 'w \<Rightarrow> (cycle \<times> bool \<times> BCC \<times> TCC \<times> 'w) option" where
  "MESICC_processInv d req lineId startCycle s = (case s of (b, tw) \<Rightarrow> do {
     (respCycle, wb, tw1) \<leftarrow>
       tcc_processInval d (i_lineAddr req) lineId (i_type req) False startCycle (i_srcId req) tw;
     (wb', b1) \<leftarrow> bcc_processInval lineId (i_type req) wb b;
     Some (respCycle, wb', b1, tw1) })"

definition MESICC_processRefr ::
  "'w down \<Rightarrow> addr \<Rightarrow> nat \<Rightarrow> BCC \<times> TCC \<times> 'w \<Rightarrow> (BCC \<times> TCC \<times> 'w) option" where
  "MESICC_processRefr d lineAddr lineId s = (case s of (b, tw) \<Rightarrow> do {
     tw1 \<leftarrow> tcc_evictAddr d lineAddr lineId tw;
     Some (bcc_setInvalid lineId b, tw1) })"

text \<open>\<^verbatim>\<open>processRefresh\<close> of a set of a CEASER array: the array steps of \<open>CEASER_refresh_ways\<close>, each with the
  eviction of the line at the destination and the move of the coherence state.\<close>

fun MESICC_refresh_ways ::
  "'w down \<Rightarrow> nat \<Rightarrow> nat list \<Rightarrow> CEASERArray \<times> BCC \<times> TCC \<times> 'w \<Rightarrow> (CEASERArray \<times> BCC \<times> TCC \<times> 'w) option" where
  "MESICC_refresh_ways d cset [] s = Some s"
| "MESICC_refresh_ways d cset (i # is) (a, b, t, w) = do {
     let ad = CEASER_getAddr cset i a;
     s1 \<leftarrow> (if ad \<noteq> 0 then do {
              repl_set \<leftarrow> CEASER_getReplSet ad a;
              (repl_addr, repl_id, a') \<leftarrow> CEASER_getReplId repl_set a;
              if repl_set \<noteq> cset then do {
                let lineId = cset * ce_assoc a + i;
                (t1, w1) \<leftarrow> tcc_evictAddr d repl_addr repl_id (t, w);
                let b1 = bcc_setInvalid repl_id b;
                t2 \<leftarrow> tcc_moveAddr repl_id lineId t1;
                b2 \<leftarrow> bcc_moveAddr repl_id lineId b1;
                a2 \<leftarrow> CEASER_moveAddr repl_addr repl_id ad lineId a';
                Some (a2, b2, t2, w1) }
              else Some (a', b, t, w) }
            else Some (a, b, t, w));
     MESICC_refresh_ways d cset is s1 }"

definition MESICC_processRefresh ::
  "'w down \<Rightarrow> nat \<Rightarrow> CEASERArray \<times> BCC \<times> TCC \<times> 'w \<Rightarrow> (CEASERArray \<times> BCC \<times> TCC \<times> 'w) option" where
  "MESICC_processRefresh d cset s = do {
     assert_that (switch_array (fst s) ! cset = 0);
     (a1, btw) \<leftarrow> MESICC_refresh_ways d cset [0..<ce_assoc (fst s)] s;
     Some (CEASER_setSwitch cset a1, btw) }"

definition MESICC_query :: "BCC \<Rightarrow> TCC \<Rightarrow> cc_query" where
  "MESICC_query b t = \<lparr>cc_numSharers = \<lambda>i. tcc_numSharers i t, cc_isValid = \<lambda>i. bcc_isValid i b,
     cc_isSharer = \<lambda>i src. tcc_isSharer i src t\<rparr>"

subsection \<open>The controller of a cache without children\<close>

definition Terminal_startAccess :: "'w cells \<Rightarrow> MemReq \<Rightarrow> 'w \<Rightarrow> (bool \<times> MemReq) option" where
  "Terminal_startAccess cl req w = do {
     assert_that (IsGet (r_type req));
     (skipAccess, type) \<leftarrow> CheckForMESIRace (r_type req) (rd cl (r_state req) w) (r_initialState req);
     Some (skipAccess, req\<lparr>r_type := type\<rparr>) }"

definition Terminal_shouldAllocate :: "MemReq \<Rightarrow> bool" where
  "Terminal_shouldAllocate req = True"

definition Terminal_processEviction ::
  "'w up \<Rightarrow> MemReq \<Rightarrow> addr \<Rightarrow> nat \<Rightarrow> cycle \<Rightarrow> BCC \<times> 'w \<Rightarrow> (cycle \<times> BCC \<times> 'w) option" where
  "Terminal_processEviction u triggerReq wbLineAddr lineId startCycle bw =
     bcc_processEviction u wbLineAddr lineId False startCycle (r_srcId triggerReq) bw"

definition Terminal_processAccess ::
  "'w up \<Rightarrow> MemReq \<Rightarrow> nat option \<Rightarrow> cycle \<Rightarrow> BCC \<times> 'w \<Rightarrow> (cycle \<times> BCC \<times> 'w) option" where
  "Terminal_processAccess u req lineIdOpt startCycle bw = do {
     lineId \<leftarrow> lineIdOpt;
     bcc_processAccess u (r_lineAddr req) lineId (r_type req) startCycle (r_srcId req) (r_flags req) bw }"

definition Terminal_processInv :: "InvReq \<Rightarrow> nat \<Rightarrow> cycle \<Rightarrow> BCC \<Rightarrow> (cycle \<times> bool \<times> BCC) option" where
  "Terminal_processInv req lineId startCycle b = do {
     (wb, b1) \<leftarrow> bcc_processInval lineId (i_type req) False b;
     Some (startCycle, wb, b1) }"

definition Terminal_processRefr :: "nat \<Rightarrow> BCC \<Rightarrow> BCC" where
  "Terminal_processRefr lineId b = bcc_setInvalid lineId b"

definition Terminal_query :: "BCC \<Rightarrow> cc_query" where
  "Terminal_query b = \<lparr>cc_numSharers = \<lambda>i. 0, cc_isValid = \<lambda>i. bcc_isValid i b, cc_isSharer = \<lambda>i src. False\<rparr>"

end
