(* ===== verification/Directory.thy ===== *)
theory Directory
  imports Coherence
begin

text \<open>
  The directory of \<^verbatim>\<open>MESITopCC\<close>: a directory entry counts its sharers exactly, never marks more than one of
  them exclusive, and every operation of the controller keeps this, whatever the children answer.
\<close>

subsection \<open>Well-formed entries\<close>

definition entry_wf :: "nat \<Rightarrow> Entry \<Rightarrow> bool" where
  "entry_wf n e \<longleftrightarrow> n \<le> MAX_CACHE_CHILDREN
     \<and> length (sharers_bits e) = MAX_CACHE_CHILDREN \<and> length (owners e) = MAX_CACHE_CHILDREN
     \<and> numSharers e = count_list (sharers_bits e) True
     \<and> (\<forall>c < MAX_CACHE_CHILDREN. sharers_bits e ! c \<longrightarrow> c < n)
     \<and> (exclusive e \<longrightarrow> numSharers e \<le> 1)"

definition tcc_wf :: "TCC \<Rightarrow> bool" where
  "tcc_wf t \<longleftrightarrow> length (childrenRTTs t) \<le> MAX_CACHE_CHILDREN
     \<and> (\<forall>e \<in> set (t_array t). entry_wf (length (childrenRTTs t)) e)"

lemma entry_wf_clear: "n \<le> MAX_CACHE_CHILDREN \<Longrightarrow> entry_wf n Entry_clear"
  by (simp add: entry_wf_def Entry_clear_def)

lemma tcc_wf_nth: "tcc_wf t \<Longrightarrow> lineId < length (t_array t) \<Longrightarrow> entry_wf (length (childrenRTTs t)) (t_array t ! lineId)"
  by (simp add: tcc_wf_def)

lemma tcc_wf_set_entry:
  assumes "tcc_wf t" "entry_wf (length (childrenRTTs t)) e"
  shows "tcc_wf (set_entry lineId e t)"
  using assms set_update_subset_insert [of "t_array t" lineId e] by (auto simp: tcc_wf_def set_entry_def)

lemma set_entry_simps [simp]:
  "childrenRTTs (set_entry i e t) = childrenRTTs t"
  "t_nonInclusiveHack (set_entry i e t) = t_nonInclusiveHack t"
  "length (t_array (set_entry i e t)) = length (t_array t)"
  "i < length (t_array t) \<Longrightarrow> t_array (set_entry i e t) ! i = e"
  "j \<noteq> i \<Longrightarrow> t_array (set_entry i e t) ! j = t_array t ! j"
  "set_entry i e' (set_entry i e t) = set_entry i e' t"
  by (simp_all add: set_entry_def)

lemma set_sharer_simps [simp]:
  "numSharers (set_sharer c v e) = numSharers e" "owners (set_sharer c v e) = owners e"
  "exclusive (set_sharer c v e) = exclusive e" "sharers_bits (set_sharer c v e) = (sharers_bits e)[c := v]"
  "numSharers (set_owner c e) = numSharers e" "sharers_bits (set_owner c e) = sharers_bits e"
  "exclusive (set_owner c e) = exclusive e" "owners (set_owner c e) = (owners e)[c := True]"
  by (simp_all add: set_sharer_def set_owner_def)

lemma entry_wf_remove:
  assumes "entry_wf n e" "c < n" "sharers_bits e ! c"
  shows "entry_wf n ((set_sharer c False e)\<lparr>numSharers := dec32 (numSharers e)\<rparr>)"
proof -
  have len: "c < length (sharers_bits e)" using assms by (simp add: entry_wf_def)
  have "Suc (count_list ((sharers_bits e)[c := False]) True) = numSharers e"
    using count_true_clear [OF len assms(3)] assms(1) by (simp add: entry_wf_def)
  then show ?thesis using assms by (auto simp: entry_wf_def dec32_def nth_list_update)
qed

lemma entry_wf_add:
  assumes "entry_wf n e" "c < n" "\<not> sharers_bits e ! c" "x \<longrightarrow> numSharers e = 0"
  shows "entry_wf n ((set_owner c (set_sharer c True e))\<lparr>numSharers := Suc (numSharers e), exclusive := x\<rparr>)"
proof -
  have len: "c < length (sharers_bits e)" using assms by (simp add: entry_wf_def)
  then show ?thesis
    using count_true_set [OF len assms(3)] assms by (auto simp: entry_wf_def nth_list_update)
qed

lemma entry_wf_empty: "entry_wf n e \<Longrightarrow> numSharers e = 0 \<longleftrightarrow> (\<forall>c < MAX_CACHE_CHILDREN. \<not> sharers_bits e ! c)"
  by (simp add: entry_wf_def count_true_0)

lemma entry_wf_only_sharer:
  assumes "entry_wf n e" "Entry_isExclusive e" "sharers_bits e ! c" "sharers_bits e ! d" "c < n" "d < n"
  shows "c = d"
  using count_true_one [of "sharers_bits e" c d] assms by (simp add: entry_wf_def Entry_isExclusive_def)

subsection \<open>The invalidation loop\<close>

lemma inv_loop_result:
  assumes "inv_loop d rtts req cs (e, m, s, wb, w) = Some (e', m', s', wb', w')"
    and "distinct cs" "\<forall>c \<in> set cs. c < length (sharers_bits e)"
  shows "s' = s + length (filter (\<lambda>c. sharers_bits e ! c) cs) \<and> m \<le> m'
    \<and> numSharers e' = numSharers e \<and> exclusive e' = exclusive e \<and> owners e' = owners e
    \<and> length (sharers_bits e') = length (sharers_bits e)
    \<and> (\<forall>c < length (sharers_bits e). sharers_bits e' ! c
         \<longleftrightarrow> sharers_bits e ! c \<and> \<not> (i_type req = INV \<and> c \<in> set cs))"
  using assms
proof (induction cs arbitrary: e m s wb w)
  case (Cons c cs)
  show ?case
  proof (cases "sharers_bits e ! c")
    case True
    define e1 where "e1 = (if i_type req = INV then set_sharer c False e else e)"
    obtain resp wbc w1 where step: "dn_invalidate d c req w = Some (resp, wbc, w1)"
        "inv_loop d rtts req cs (e1, max (resp + rtts ! c) m, Suc s, wb \<or> wbc, w1) = Some (e', m', s', wb', w')"
      using Cons.prems(1) True by (auto simp: e1_def abort_simps Let_def)
    have pre: "distinct cs" "\<forall>c \<in> set cs. c < length (sharers_bits e1)"
      using Cons.prems(2,3) by (auto simp: e1_def)
    have "filter (\<lambda>x. sharers_bits e1 ! x) cs = filter (\<lambda>x. sharers_bits e ! x) cs"
      using Cons.prems(2) by (intro filter_cong) (metis distinct.simps(2) e1_def nth_list_update_neq set_sharer_simps(4))+
    with Cons.IH [OF step(2) pre] True Cons.prems(2,3) show ?thesis
      by (auto simp: e1_def nth_list_update split: if_splits)
  next
    case False
    with Cons.prems Cons.IH [of e m s wb w] show ?thesis by auto
  qed
qed auto

lemma count_true_filter: "count_list bs True = length (filter (\<lambda>c. bs ! c) [0..<length bs])"
proof (induction bs rule: rev_induct)
  case (snoc b bs)
  have "filter (\<lambda>c. (bs @ [b]) ! c) [0..<length bs] = filter (\<lambda>c. bs ! c) [0..<length bs]"
    by (rule filter_cong) (auto simp: nth_append)
  with snoc show ?case by (simp add: nth_append)
qed simp

lemma filter_sharers_count:
  assumes "entry_wf n e"
  shows "length (filter (\<lambda>c. sharers_bits e ! c) [0..<n]) = numSharers e"
proof -
  let ?bs = "sharers_bits e"
  have len: "length ?bs = MAX_CACHE_CHILDREN" and n: "n \<le> length ?bs"
    and out: "\<forall>c < length ?bs. ?bs ! c \<longrightarrow> c < n" using assms by (auto simp: entry_wf_def)
  have "count_list ?bs True = length (filter (\<lambda>c. ?bs ! c) [0..<length ?bs])"
    by (rule count_true_filter)
  also have "filter (\<lambda>c. ?bs ! c) [0..<length ?bs] = filter (\<lambda>c. ?bs ! c) [0..<n]"
  proof -
    have "[0..<length ?bs] = [0..<n] @ [n..<length ?bs]" using n by (metis le_add_diff_inverse upt_add_eq_append zero_le)
    moreover have "filter (\<lambda>c. ?bs ! c) [n..<length ?bs] = []" using out by (auto simp: filter_empty_conv)
    ultimately show ?thesis by simp
  qed
  finally show ?thesis using assms by (simp add: entry_wf_def)
qed

lemma sendInvalidates_cases:
  assumes "tcc_sendInvalidates d lineAddr lineId type wb cyc src (t, w) = Some (cyc', wb', t', w')"
    and "tcc_wf t" "lineId < length (t_array t)" "type \<noteq> FWD"
  obtains e where "t' = set_entry lineId e t" "cyc \<le> cyc'" "entry_wf (length (childrenRTTs t)) e"
    "owners e = owners (t_array t ! lineId)"
    "type = INV \<Longrightarrow> numSharers e = 0"
    "type = INVX \<Longrightarrow> \<not> Entry_isExclusive e \<and> numSharers e = numSharers (t_array t ! lineId)
       \<and> sharers_bits e = sharers_bits (t_array t ! lineId)"
proof -
  let ?e = "t_array t ! lineId" and ?n = "length (childrenRTTs t)"
  have wf: "entry_wf ?n ?e" using tcc_wf_nth [OF assms(2,3)] .
  have same: "set_entry lineId ?e t = t" by (simp add: set_entry_def)
  show thesis
  proof (cases "type = INVX \<and> \<not> Entry_isExclusive ?e \<or> Entry_isEmpty ?e")
    case True
    then have "t' = t" "cyc' = cyc" using assms(1)
      by (auto simp: tcc_sendInvalidates_def Let_def split: if_splits)
    then show thesis using that [of ?e] True same wf assms(4)
      by (cases type) (auto simp: Entry_isEmpty_def Entry_isExclusive_def)
  next
    case False
    let ?req = "\<lparr>i_lineAddr = lineAddr, i_type = type, i_cycle = cyc, i_srcId = src\<rparr>"
    let ?loop = "inv_loop d (childrenRTTs t) ?req [0..<?n] (?e, cyc, 0, wb, w)"
    have unfold: "tcc_sendInvalidates d lineAddr lineId type wb cyc src (t, w) = Option.bind ?loop
        (\<lambda>(e1, m1, s1, wb1, w1). if s1 = numSharers e1 then
           (if type = INV then Some (m1, wb1, set_entry lineId (e1\<lparr>numSharers := 0\<rparr>) t, w1)
            else if exclusive e1 \<and> numSharers e1 = 1
            then Some (m1, wb1, set_entry lineId (e1\<lparr>exclusive := False\<rparr>) t, w1) else None) else None)"
      using False by (cases ?loop) (auto simp: tcc_sendInvalidates_def Let_def bind_assert_that)
    obtain e1 m1 s1 wb1 w1 where lp: "?loop = Some (e1, m1, s1, wb1, w1)"
      using assms(1) unfolding unfold by (cases ?loop) auto
    have m1: "m1 = cyc'" and fin: "type = INV \<and> t' = set_entry lineId (e1\<lparr>numSharers := 0\<rparr>) t
        \<or> type \<noteq> INV \<and> exclusive e1 \<and> numSharers e1 = 1 \<and> t' = set_entry lineId (e1\<lparr>exclusive := False\<rparr>) t"
      using assms(1) unfolding unfold lp by (auto split: if_splits)
    note loop = lp [unfolded m1]
    have n: "?n \<le> length (sharers_bits ?e)" using wf by (simp add: entry_wf_def)
    have r: "cyc \<le> cyc'" "numSharers e1 = numSharers ?e" "exclusive e1 = exclusive ?e" "owners e1 = owners ?e"
        "length (sharers_bits e1) = length (sharers_bits ?e)"
        "\<forall>c < length (sharers_bits ?e). sharers_bits e1 ! c \<longleftrightarrow> sharers_bits ?e ! c \<and> \<not> (type = INV \<and> c < ?n)"
      using inv_loop_result [OF loop] n by auto
    show thesis
    proof (cases "type = INV")
      case True
      have none: "\<forall>c < length (sharers_bits e1). \<not> sharers_bits e1 ! c"
        using r(5,6) True wf by (auto simp: entry_wf_def)
      then have "entry_wf ?n (e1\<lparr>numSharers := 0\<rparr>)"
        using wf r(4,5) count_true_0 [of "sharers_bits e1"] by (auto simp: entry_wf_def)
      then show thesis using that [of "e1\<lparr>numSharers := 0\<rparr>"] fin True r by auto
    next
      case invx: False
      have "sharers_bits e1 = sharers_bits ?e" using r(5,6) invx by (auto intro: nth_equalityI)
      moreover from this have "entry_wf ?n (e1\<lparr>exclusive := False\<rparr>)" using wf r(2,4) by (simp add: entry_wf_def)
      ultimately show thesis using that [of "e1\<lparr>exclusive := False\<rparr>"] fin invx r assms(4)
        by (auto simp: Entry_isExclusive_def)
    qed
  qed
qed

subsection \<open>Every operation keeps the directory well-formed\<close>

lemma tcc_processAccess_wf:
  assumes "tcc_processAccess d lineAddr lineId type childId hx cs wb cyc src fl (t, w) = Some (cyc', cs', wb', t', w')"
    and "tcc_wf t" "lineId < length (t_array t)" "childId < length (childrenRTTs t)"
  shows "tcc_wf t' \<and> length (t_array t') = length (t_array t) \<and> childrenRTTs t' = childrenRTTs t \<and> cyc \<le> cyc'"
proof -
  let ?e = "t_array t ! lineId" and ?n = "length (childrenRTTs t)"
  have wf: "entry_wf ?n ?e" using tcc_wf_nth [OF assms(2,3)] .
  have put: "tcc_wf t1" "length (t_array t1) = length (t_array t)" "childrenRTTs t1 = childrenRTTs t"
    if "tcc_put lineId childId t = Some t1" for t1
    using that entry_wf_remove [OF wf assms(4)] assms(2)
    by (auto simp: tcc_put_def Let_def abort_simps intro!: tcc_wf_set_entry split: if_splits)
  show ?thesis
  proof (cases type)
    case PUTX
    with assms(1,2) put show ?thesis
      by (auto simp: tcc_processAccess_def Let_def abort_simps split: if_splits)
  next
    case PUTS
    with assms(1,2) put show ?thesis
      by (auto simp: tcc_processAccess_def Let_def abort_simps split: if_splits)
  next
    case GETS
    show ?thesis
    proof (cases "Entry_isEmpty ?e \<and> hx \<and> \<not> is_flag fl NOEXCL")
      case True
      then have "numSharers ?e = 0" by (simp add: Entry_isEmpty_def)
      moreover from this have "\<not> sharers_bits ?e ! childId"
        using entry_wf_empty [OF wf] wf assms(4) by (simp add: entry_wf_def)
      ultimately have "entry_wf ?n ((set_owner childId (set_sharer childId True ?e))\<lparr>numSharers := 1, exclusive := True\<rparr>)"
        using entry_wf_add [OF wf assms(4), of True] by simp
      then show ?thesis using assms(1,2) GETS True
        by (auto simp: tcc_processAccess_def Let_def intro!: tcc_wf_set_entry)
    next
      case False
      obtain wb1 t1 where mid: "\<not> sharers_bits ?e ! childId"
          "(if Entry_isExclusive ?e then tcc_sendInvalidates d lineAddr lineId INVX wb cyc src (t, w)
            else Some (cyc, wb, t, w)) = Some (cyc', wb1, t1, w')"
          "\<not> Entry_isExclusive (t_array t1 ! lineId)"
          "t' = set_entry lineId ((set_owner childId (set_sharer childId True (t_array t1 ! lineId)))
                 \<lparr>numSharers := Suc (numSharers (t_array t1 ! lineId)), exclusive := False\<rparr>) t1"
        using assms(1) GETS False
        by (auto simp: tcc_processAccess_def Let_def bind_assert_that bind_Some_conv split: if_splits)
      have t1: "tcc_wf t1 \<and> cyc \<le> cyc' \<and> length (t_array t1) = length (t_array t)
          \<and> childrenRTTs t1 = childrenRTTs t \<and> \<not> sharers_bits (t_array t1 ! lineId) ! childId"
      proof (cases "Entry_isExclusive ?e")
        case True
        with mid(2) have "tcc_sendInvalidates d lineAddr lineId INVX wb cyc src (t, w) = Some (cyc', wb1, t1, w')"
          by simp
        from sendInvalidates_cases [OF this assms(2,3)] show ?thesis
          using assms(2,3) mid(1) tcc_wf_set_entry by (metis InvType.distinct(5) set_entry_simps(1,3,4))
      qed (use mid assms(2) in auto)
      then have "entry_wf ?n (t_array t1 ! lineId)" using tcc_wf_nth [of t1 lineId] assms(3) by simp
      from entry_wf_add [OF this assms(4), of False] t1 show ?thesis
        using mid(4) by (auto intro!: tcc_wf_set_entry)
    qed
  next
    case GETX
    define e0 where "e0 = (if sharers_bits ?e ! childId
        then (set_sharer childId False ?e)\<lparr>numSharers := dec32 (numSharers ?e)\<rparr> else ?e)"
    obtain wb1 t1 where mid:
        "tcc_sendInvalidates d lineAddr lineId INV wb cyc src (set_entry lineId e0 t, w) = Some (cyc', wb1, t1, w')"
        "t' = set_entry lineId ((set_owner childId (set_sharer childId True (t_array t1 ! lineId)))
                 \<lparr>numSharers := Suc (numSharers (t_array t1 ! lineId)), exclusive := True\<rparr>) t1"
      using assms(1) GETX
      by (auto simp: tcc_processAccess_def Let_def bind_assert_that bind_Some_conv e0_def split: if_splits)
    have "entry_wf ?n e0" using entry_wf_remove [OF wf assms(4)] wf by (simp add: e0_def)
    then have t0: "tcc_wf (set_entry lineId e0 t)" "lineId < length (t_array (set_entry lineId e0 t))"
      using assms(2,3) by (auto intro: tcc_wf_set_entry)
    obtain e1 where e1: "t1 = set_entry lineId e1 t" "cyc \<le> cyc'" "entry_wf ?n e1" "numSharers e1 = 0"
      using sendInvalidates_cases [OF mid(1) t0] by (metis InvType.distinct(3) set_entry_simps(1,6))
    then have "\<not> sharers_bits e1 ! childId"
      using entry_wf_empty [OF e1(3)] e1(3) assms(4) by (simp add: entry_wf_def)
    with entry_wf_add [OF e1(3) assms(4), of True] e1 mid(2) assms(2,3) show ?thesis
      by (auto intro!: tcc_wf_set_entry)
  qed
qed

lemma tcc_sendInvalidates_wf:
  assumes "tcc_sendInvalidates d lineAddr lineId type wb cyc src (t, w) = Some (cyc', wb', t', w')"
    and "tcc_wf t" "lineId < length (t_array t)" "type \<noteq> FWD"
  shows "tcc_wf t' \<and> length (t_array t') = length (t_array t) \<and> childrenRTTs t' = childrenRTTs t \<and> cyc \<le> cyc'
    \<and> owners (t_array t' ! lineId) = owners (t_array t ! lineId)"
  by (rule sendInvalidates_cases [OF assms]) (use assms(2,3) tcc_wf_set_entry in auto)

lemma tcc_processEviction_wf:
  assumes "tcc_processEviction d lineAddr lineId wb cyc src (t, w) = Some (cyc', wb', t', w')"
    and "tcc_wf t" "lineId < length (t_array t)"
  shows "tcc_wf t' \<and> length (t_array t') = length (t_array t) \<and> childrenRTTs t' = childrenRTTs t \<and> cyc \<le> cyc'
    \<and> numSharers (t_array t' ! lineId) = 0"
proof (cases "t_nonInclusiveHack t")
  case True
  have "entry_wf (length (childrenRTTs t)) Entry_clear"
    using assms(2) by (intro entry_wf_clear) (simp add: tcc_wf_def)
  moreover have "numSharers Entry_clear = 0" by (simp add: Entry_clear_def)
  ultimately show ?thesis using True assms tcc_wf_set_entry [OF assms(2)]
    by (auto simp: tcc_processEviction_def)
next
  case False
  with assms(1) have send: "tcc_sendInvalidates d lineAddr lineId INV wb cyc src (t, w) = Some (cyc', wb', t', w')"
    by (simp add: tcc_processEviction_def)
  show ?thesis
    by (rule sendInvalidates_cases [OF send assms(2,3)]) (use assms(2,3) tcc_wf_set_entry in auto)
qed

lemma tcc_processInval_wf:
  assumes "tcc_processInval d lineAddr lineId type wb cyc src (t, w) = Some (cyc', wb', t', w')"
    and "tcc_wf t" "lineId < length (t_array t)"
  shows "tcc_wf t' \<and> length (t_array t') = length (t_array t) \<and> childrenRTTs t' = childrenRTTs t \<and> cyc \<le> cyc'"
proof (cases "type = FWD")
  case True
  with assms show ?thesis by (auto simp: tcc_processInval_def bind_assert_that split: if_splits)
next
  case False
  with assms show ?thesis
    using tcc_sendInvalidates_wf [of d lineAddr lineId type wb cyc src t w] by (simp add: tcc_processInval_def)
qed

lemma evict_loop_result:
  assumes "evict_loop d lineAddr lineId cs (e, w) = Some (e', w')" "\<forall>c \<in> set cs. c < length (sharers_bits e)"
  shows "owners e' = owners e \<and> length (sharers_bits e') = length (sharers_bits e)
    \<and> (cs \<noteq> [] \<longrightarrow> numSharers e' = 0 \<and> \<not> exclusive e') \<and> (cs = [] \<longrightarrow> e' = e)
    \<and> (\<forall>c < length (sharers_bits e). sharers_bits e' ! c \<longleftrightarrow> sharers_bits e ! c \<and> c \<notin> set cs)"
  using assms
proof (induction cs arbitrary: e w)
  case (Cons c cs)
  let ?e1 = "(set_sharer c False e)\<lparr>exclusive := False, numSharers := 0\<rparr>"
  obtain w1 where "evict_loop d lineAddr lineId cs (?e1, w1) = Some (e', w')"
    using Cons.prems(1) by (auto simp: Let_def bind_Some_conv)
  moreover have "\<forall>c \<in> set cs. c < length (sharers_bits ?e1)" using Cons.prems(2) by simp
  ultimately have "owners e' = owners ?e1 \<and> length (sharers_bits e') = length (sharers_bits ?e1)
    \<and> (cs \<noteq> [] \<longrightarrow> numSharers e' = 0 \<and> \<not> exclusive e') \<and> (cs = [] \<longrightarrow> e' = ?e1)
    \<and> (\<forall>c < length (sharers_bits ?e1). sharers_bits e' ! c \<longleftrightarrow> sharers_bits ?e1 ! c \<and> c \<notin> set cs)"
    by (rule Cons.IH)
  then show ?case by (cases "cs = []") (auto simp: nth_list_update_if split: if_splits)
qed auto

lemma tcc_evictAddr_cases:
  assumes "tcc_evictAddr d lineAddr lineId (t, w) = Some (t', w')"
    and "tcc_wf t" "lineId < length (t_array t)"
  obtains e where "t' = set_entry lineId e t" "entry_wf (length (childrenRTTs t)) e" "numSharers e = 0"
    "childrenRTTs t \<noteq> [] \<Longrightarrow> \<not> exclusive e"
proof -
  let ?e = "t_array t ! lineId" and ?n = "length (childrenRTTs t)"
  have wf: "entry_wf ?n ?e" using tcc_wf_nth [OF assms(2,3)] .
  obtain e where e: "evict_loop d lineAddr lineId [0..<?n] (?e, w) = Some (e, w')" "t' = set_entry lineId e t"
    using assms(1) by (auto simp: tcc_evictAddr_def Let_def bind_Some_conv)
  have r: "owners e = owners ?e" "length (sharers_bits e) = length (sharers_bits ?e)"
      "?n \<noteq> 0 \<longrightarrow> numSharers e = 0 \<and> \<not> exclusive e" "?n = 0 \<longrightarrow> e = ?e"
      "\<forall>c < length (sharers_bits ?e). sharers_bits e ! c \<longleftrightarrow> sharers_bits ?e ! c \<and> c \<notin> set [0..<?n]"
    using evict_loop_result [OF e(1)] wf by (auto simp: entry_wf_def)
  have none: "\<forall>c < length (sharers_bits e). \<not> sharers_bits e ! c"
    using r(2,5) wf by (auto simp: entry_wf_def)
  then have 0: "count_list (sharers_bits e) True = 0" using count_true_0 by blast
  have "numSharers e = 0"
  proof (cases "?n = 0")
    case True
    then have "e = ?e" using r(4) by blast
    then show ?thesis using 0 wf by (simp add: entry_wf_def)
  qed (use r(3) in blast)
  moreover from this have "entry_wf ?n e" using 0 none r(1,2) wf by (auto simp: entry_wf_def)
  ultimately show thesis using that e(2) r(3) by auto
qed

lemma foldl_update_nth:
  "length (foldl (\<lambda>xs c. xs[c := f c]) to cs) = length to"
  "i < length to \<Longrightarrow> foldl (\<lambda>xs c. xs[c := f c]) to cs ! i = (if i \<in> set cs then f i else to ! i)"
proof (induction cs arbitrary: to)
  case (Cons c cs)
  case 1 show ?case using Cons.IH(1) by simp
  case 2 then show ?case using Cons.IH(2) [of "to[c := f c]"] by (auto simp: nth_list_update)
qed simp_all

lemma copy_bits_all:
  assumes "length from = length to" "\<forall>c < length to. from ! c \<longrightarrow> c < n" "\<forall>c < length to. to ! c \<longrightarrow> c < n"
  shows "copy_bits n from to = from"
  by (rule nth_equalityI) (use assms in \<open>auto simp: copy_bits_def foldl_update_nth\<close>)

lemma clear_bits_all:
  assumes "\<forall>c < length to. to ! c \<longrightarrow> c < n"
  shows "clear_bits n to = replicate (length to) False"
  by (rule nth_equalityI) (use assms in \<open>auto simp: clear_bits_def foldl_update_nth\<close>)

lemma tcc_moveAddr_wf:
  assumes "tcc_moveAddr repl_id lineId t = Some t'" "tcc_wf t"
    and "repl_id < length (t_array t)" "lineId < length (t_array t)" "repl_id \<noteq> lineId"
  shows "tcc_wf t' \<and> sharers_bits (t_array t' ! repl_id) = sharers_bits (t_array t ! lineId)
    \<and> numSharers (t_array t' ! repl_id) = numSharers (t_array t ! lineId)
    \<and> exclusive (t_array t' ! repl_id) = exclusive (t_array t ! lineId)
    \<and> numSharers (t_array t' ! lineId) = 0"
proof -
  let ?n = "length (childrenRTTs t)" and ?e1 = "t_array t ! repl_id" and ?e2 = "t_array t ! lineId"
  have wf1: "entry_wf ?n ?e1" and wf2: "entry_wf ?n ?e2" using tcc_wf_nth assms by auto
  define f1 where "f1 = ?e1\<lparr>numSharers := numSharers ?e2, exclusive := exclusive ?e2,
      sharers_bits := copy_bits ?n (sharers_bits ?e2) (sharers_bits ?e1),
      owners := copy_bits ?n (owners ?e2) (owners ?e1)\<rparr>"
  define f2 where "f2 = ?e2\<lparr>numSharers := 0, exclusive := False,
      sharers_bits := clear_bits ?n (sharers_bits ?e2), owners := clear_bits ?n (owners ?e2)\<rparr>"
  have t': "t' = set_entry lineId f2 (set_entry repl_id f1 t)"
    using assms by (auto simp: tcc_moveAddr_def Let_def bind_assert_that f1_def f2_def split: if_splits)
  have "copy_bits ?n (sharers_bits ?e2) (sharers_bits ?e1) = sharers_bits ?e2"
    using wf1 wf2 by (intro copy_bits_all) (auto simp: entry_wf_def)
  then have f1: "entry_wf ?n f1" "sharers_bits f1 = sharers_bits ?e2" "numSharers f1 = numSharers ?e2"
      "exclusive f1 = exclusive ?e2"
    using wf1 wf2 by (auto simp: f1_def entry_wf_def copy_bits_def foldl_update_nth)
  have "clear_bits ?n (sharers_bits ?e2) = replicate (length (sharers_bits ?e2)) False"
    using wf2 by (intro clear_bits_all) (auto simp: entry_wf_def)
  then have f2: "entry_wf ?n f2" "numSharers f2 = 0"
    using wf2 by (auto simp: f2_def entry_wf_def clear_bits_def foldl_update_nth)
  show ?thesis using t' f1 f2 assms tcc_wf_set_entry [of "set_entry repl_id f1 t" f2 lineId]
      tcc_wf_set_entry [OF assms(2) f1(1), of repl_id] by (auto simp del: set_entry_simps(6))
qed

subsection \<open>Every reachable directory\<close>

text \<open>The calls a cache makes on its directory, in any order, with children that answer in any way.\<close>

inductive tcc_step :: "'w down \<Rightarrow> TCC \<times> 'w \<Rightarrow> TCC \<times> 'w \<Rightarrow> bool" for d :: "'w down" where
  tcc_step_access: "lineId < length (t_array t) \<Longrightarrow> childId < length (childrenRTTs t) \<Longrightarrow>
     tcc_processAccess d lineAddr lineId type childId hx cs wb cyc src fl (t, w) = Some (cyc', cs', wb', t', w') \<Longrightarrow>
     tcc_step d (t, w) (t', w')"
| tcc_step_evict: "lineId < length (t_array t) \<Longrightarrow>
     tcc_processEviction d lineAddr lineId wb cyc src (t, w) = Some (cyc', wb', t', w') \<Longrightarrow>
     tcc_step d (t, w) (t', w')"
| tcc_step_inval: "lineId < length (t_array t) \<Longrightarrow>
     tcc_processInval d lineAddr lineId itype wb cyc src (t, w) = Some (cyc', wb', t', w') \<Longrightarrow>
     tcc_step d (t, w) (t', w')"
| tcc_step_refresh: "lineId < length (t_array t) \<Longrightarrow>
     tcc_evictAddr d lineAddr lineId (t, w) = Some (t', w') \<Longrightarrow> tcc_step d (t, w) (t', w')"
| tcc_step_move: "repl_id < length (t_array t) \<Longrightarrow> lineId < length (t_array t) \<Longrightarrow> repl_id \<noteq> lineId \<Longrightarrow>
     tcc_moveAddr repl_id lineId t = Some t' \<Longrightarrow> tcc_step d (t, w) (t', w)"

lemma tcc_moveAddr_frame:
  "tcc_moveAddr repl_id lineId t = Some t' \<Longrightarrow>
     childrenRTTs t' = childrenRTTs t \<and> length (t_array t') = length (t_array t)"
  by (auto simp: tcc_moveAddr_def Let_def bind_assert_that split: if_splits)

lemma tcc_step_wf:
  assumes "tcc_step d s s'" "tcc_wf (fst s)"
  shows "tcc_wf (fst s') \<and> length (t_array (fst s')) = length (t_array (fst s))"
  using assms
proof cases
  case tcc_step_refresh
  from tcc_evictAddr_cases [OF tcc_step_refresh(4)] tcc_step_refresh assms(2) tcc_wf_set_entry
  show ?thesis by (metis fst_conv set_entry_simps(3))
next
  case tcc_step_move
  then show ?thesis using tcc_moveAddr_wf tcc_moveAddr_frame assms(2) by (metis fst_conv)
qed (use assms(2) tcc_processAccess_wf tcc_processEviction_wf tcc_processInval_wf in \<open>fastforce+\<close>)

lemma tcc_reach_wf:
  assumes "(tcc_step d)\<^sup>*\<^sup>* s s'" "tcc_wf (fst s)"
  shows "tcc_wf (fst s') \<and> length (t_array (fst s')) = length (t_array (fst s))"
  using assms by (induction rule: rtranclp_induct) (use tcc_step_wf in fastforce)+

lemma TCC_new_wf:
  assumes "TCC_init rtt names (TCC_new n hack) = Some t"
  shows "tcc_wf t \<and> length (t_array t) = n \<and> childrenRTTs t = map (\<lambda>c. case rtt of None \<Rightarrow> 0 | Some f \<Rightarrow> f c) names"
  using assms
  by (auto simp: TCC_init_def TCC_new_def bind_assert_that tcc_wf_def intro: entry_wf_clear split: if_splits)

subsection \<open>Who is told\<close>

text \<open>Seen as a list of messages, the invalidation loop calls exactly the sharers, in ascending order.\<close>

definition log_children :: "nat list down" where
  "log_children = \<lparr>dn_invalidate = \<lambda>c req w. Some (i_cycle req, False, w @ [c]), dn_refresh = \<lambda>c ad i w. Some (w @ [c])\<rparr>"

lemma inv_loop_log:
  assumes "distinct cs"
  shows "\<exists>e' m' s' wb'. inv_loop log_children rtts req cs (e, m, s, wb, w)
     = Some (e', m', s', wb', w @ filter (\<lambda>c. sharers_bits e ! c) cs)"
  using assms
proof (induction cs arbitrary: e m s wb w)
  case (Cons c cs)
  define e1 where "e1 = (if i_type req = INV then set_sharer c False e else e)"
  have "filter (\<lambda>x. sharers_bits e1 ! x) cs = filter (\<lambda>x. sharers_bits e ! x) cs"
    using Cons.prems by (intro filter_cong) (metis distinct.simps(2) e1_def nth_list_update_neq set_sharer_simps(4))+
  then have "\<exists>e' m' s' wb'. inv_loop log_children rtts req cs (e1, m1, s1, wb1, w @ [c])
      = Some (e', m', s', wb', (w @ [c]) @ filter (\<lambda>c. sharers_bits e ! c) cs)" for m1 s1 wb1
    using Cons.IH [of e1 m1 s1 wb1 "w @ [c]"] Cons.prems by simp
  then show ?case using Cons.IH [of e m s wb w] Cons.prems
    by (simp add: log_children_def Let_def flip: e1_def)
qed auto

lemma sendInvalidates_log:
  assumes "entry_wf (length (childrenRTTs t)) (t_array t ! lineId)"
  shows "\<exists>cyc' wb' t'. tcc_sendInvalidates log_children lineAddr lineId INV wb cyc src (t, w)
     = Some (cyc', wb', t', w @ filter (\<lambda>c. sharers_bits (t_array t ! lineId) ! c) [0..<length (childrenRTTs t)])"
proof (cases "Entry_isEmpty (t_array t ! lineId)")
  case True
  then have "\<forall>c < MAX_CACHE_CHILDREN. \<not> sharers_bits (t_array t ! lineId) ! c"
    using entry_wf_empty [OF assms] by (simp add: Entry_isEmpty_def)
  then have "filter (\<lambda>c. sharers_bits (t_array t ! lineId) ! c) [0..<length (childrenRTTs t)] = []"
    using assms by (auto simp: entry_wf_def filter_empty_conv)
  then show ?thesis using True by (simp add: tcc_sendInvalidates_def Let_def)
next
  case False
  let ?e = "t_array t ! lineId" and ?n = "length (childrenRTTs t)"
  let ?req = "\<lparr>i_lineAddr = lineAddr, i_type = INV, i_cycle = cyc, i_srcId = src\<rparr>"
  obtain e' m' s' wb' where lp: "inv_loop log_children (childrenRTTs t) ?req [0..<?n] (?e, cyc, 0, wb, w)
      = Some (e', m', s', wb', w @ filter (\<lambda>c. sharers_bits ?e ! c) [0..<?n])"
    using inv_loop_log [of "[0..<?n]"] by (metis distinct_upt)
  have "s' = numSharers e'"
    using inv_loop_result [OF lp] filter_sharers_count [OF assms] assms by (simp add: entry_wf_def)
  with lp False show ?thesis by (simp add: tcc_sendInvalidates_def Let_def)
qed

subsection \<open>Properties\<close>

text \<open>C3: in every state a directory reaches from its initialization, under any sequence of accesses,
  evictions, invalidations, refreshes and moves and whatever the children answer, the sharer count of every line
  is the number of its sharer bits, all sharers are children of the cache, and an exclusive line has exactly
  one sharer.\<close>

theorem directory_reachable_exact:
  assumes "TCC_init rtt names (TCC_new n hack) = Some t0" "(tcc_step d)\<^sup>*\<^sup>* (t0, w0) (t, w)" "lineId < n"
  shows "numSharers (t_array t ! lineId) = card {c. c < MAX_CACHE_CHILDREN \<and> sharers_bits (t_array t ! lineId) ! c}
    \<and> (\<forall>c < MAX_CACHE_CHILDREN. sharers_bits (t_array t ! lineId) ! c \<longrightarrow> c < length (childrenRTTs t))
    \<and> (Entry_isExclusive (t_array t ! lineId) \<longrightarrow>
         (\<exists>!c. c < MAX_CACHE_CHILDREN \<and> sharers_bits (t_array t ! lineId) ! c))"
proof -
  let ?e = "t_array t ! lineId"
  have "tcc_wf t" "length (t_array t) = n"
    using tcc_reach_wf [OF assms(2)] TCC_new_wf [OF assms(1)] by auto
  then have wf: "entry_wf (length (childrenRTTs t)) ?e" using tcc_wf_nth assms(3) by simp
  have len: "length (sharers_bits ?e) = MAX_CACHE_CHILDREN" using wf by (simp add: entry_wf_def)
  have "numSharers ?e = length (filter (\<lambda>c. sharers_bits ?e ! c) [0..<MAX_CACHE_CHILDREN])"
    using wf count_true_filter [of "sharers_bits ?e"] len by (simp add: entry_wf_def)
  also have "\<dots> = card (set (filter (\<lambda>c. sharers_bits ?e ! c) [0..<MAX_CACHE_CHILDREN]))"
    by (rule distinct_card [symmetric]) simp
  also have "set (filter (\<lambda>c. sharers_bits ?e ! c) [0..<MAX_CACHE_CHILDREN])
      = {c. c < MAX_CACHE_CHILDREN \<and> sharers_bits ?e ! c}" by auto
  finally have count: "numSharers ?e = card {c. c < MAX_CACHE_CHILDREN \<and> sharers_bits ?e ! c}" .
  have "\<exists>!c. c < MAX_CACHE_CHILDREN \<and> sharers_bits ?e ! c" if "Entry_isExclusive ?e"
    using that count unfolding Entry_isExclusive_def by (metis (mono_tags, lifting) One_nat_def card_1_singletonE mem_Collect_eq singletonD singletonI)
  with count wf show ?thesis by (auto simp: entry_wf_def)
qed

text \<open>A directory of two lines and three children for the witnesses.\<close>

definition sample_tcc :: TCC where
  "sample_tcc = (TCC_new 2 False)\<lparr>childrenRTTs := [4, 4, 4]\<rparr>"

lemma sample_tcc_init:
  "TCC_init (Some (\<lambda>_. 4)) [''l1d-0'', ''l1d-1'', ''l1d-2''] (TCC_new 2 False) = Some sample_tcc"
  by (simp add: TCC_init_def sample_tcc_def MAX_CACHE_CHILDREN_def)

lemma sample_tcc_wf: "tcc_wf sample_tcc" "length (t_array sample_tcc) = 2" "length (childrenRTTs sample_tcc) = 3"
  using TCC_new_wf [OF sample_tcc_init] by auto

definition sample_tcc1 :: TCC where
  "sample_tcc1 = set_entry 0 ((set_owner 1 (set_sharer 1 True Entry_clear))\<lparr>numSharers := 1, exclusive := True\<rparr>) sample_tcc"

lemma sample_tcc1_access:
  "tcc_processAccess d 7 0 GETS 1 True I False 10 1 0 (sample_tcc, w) = Some (10, E, False, sample_tcc1, w)"
  by (simp add: tcc_processAccess_def Let_def sample_tcc_def TCC_new_def Entry_clear_def Entry_isEmpty_def
      is_flag_def sample_tcc1_def)

theorem directory_reachable_exact_witness:
  "(tcc_step log_children)\<^sup>*\<^sup>* (sample_tcc, []) (sample_tcc1, [])
   \<and> numSharers (t_array sample_tcc1 ! 0)
     = card {c. c < MAX_CACHE_CHILDREN \<and> sharers_bits (t_array sample_tcc1 ! 0) ! c}"
proof -
  have "tcc_step log_children (sample_tcc, []) (sample_tcc1, [])"
    by (rule tcc_step_access [OF _ _ sample_tcc1_access]) (simp_all add: sample_tcc_wf)
  then have "(tcc_step log_children)\<^sup>*\<^sup>* (sample_tcc, []) (sample_tcc1, [])" by blast
  then show ?thesis using directory_reachable_exact [OF sample_tcc_init, of log_children "[]" sample_tcc1 "[]" 0] by simp
qed

text \<open>C4: an invalidation reaches exactly the sharers of the line, each once, in ascending order.\<close>

theorem invalidates_reach_sharers:
  assumes "tcc_wf t" "lineId < length (t_array t)"
  shows "\<exists>cyc' wb' t'. tcc_sendInvalidates log_children lineAddr lineId INV False cyc src (t, [])
     = Some (cyc', wb', t', filter (\<lambda>c. tcc_isSharer lineId c t) [0..<length (childrenRTTs t)])
     \<and> numSharers (t_array t' ! lineId) = 0"
proof -
  obtain cyc' wb' t' where send: "tcc_sendInvalidates log_children lineAddr lineId INV False cyc src (t, [])
     = Some (cyc', wb', t', filter (\<lambda>c. sharers_bits (t_array t ! lineId) ! c) [0..<length (childrenRTTs t)])"
    using sendInvalidates_log [OF tcc_wf_nth [OF assms], of lineAddr False cyc src "[]"] by auto
  have "numSharers (t_array t' ! lineId) = 0"
    by (rule sendInvalidates_cases [OF send assms]) (use assms(2) in auto)
  with send show ?thesis by (simp add: tcc_isSharer_def)
qed

theorem invalidates_reach_sharers_witness:
  "tcc_wf sample_tcc \<and> (\<exists>cyc' wb' t'. tcc_sendInvalidates log_children 7 0 INV False 10 0 (sample_tcc, [])
     = Some (cyc', wb', t', filter (\<lambda>c. tcc_isSharer 0 c sample_tcc) [0..<3]))"
  using invalidates_reach_sharers [OF sample_tcc_wf(1), of 0 7 10 0] sample_tcc_wf by auto

text \<open>C5: after an exclusive request the requester is the only sharer, the line is exclusive, the requester's state
  is M and it is recorded as an owner.\<close>

theorem GETX_grants_exclusive:
  assumes "tcc_processAccess d lineAddr lineId GETX childId hx cs wb cyc src fl (t, w) = Some (cyc', cs', wb', t', w')"
    and "tcc_wf t" "lineId < length (t_array t)" "childId < length (childrenRTTs t)"
  shows "cs' = M \<and> Entry_isExclusive (t_array t' ! lineId)
    \<and> (\<forall>c < MAX_CACHE_CHILDREN. tcc_isSharer lineId c t' \<longleftrightarrow> c = childId)
    \<and> tcc_checkSameOwner lineId childId t'"
proof -
  have wf': "tcc_wf t'" "length (t_array t') = length (t_array t)" "childrenRTTs t' = childrenRTTs t"
    using tcc_processAccess_wf [OF assms] by auto
  let ?e = "t_array t' ! lineId"
  have ewf: "entry_wf (length (childrenRTTs t)) ?e" using tcc_wf_nth [OF wf'(1), of lineId] wf' assms(3) by simp
  obtain t1 where t1: "cs' = M" "numSharers (t_array t1 ! lineId) = 0" "length (t_array t1) = length (t_array t')"
      "t' = set_entry lineId ((set_owner childId (set_sharer childId True (t_array t1 ! lineId)))
              \<lparr>numSharers := Suc (numSharers (t_array t1 ! lineId)), exclusive := True\<rparr>) t1"
    using assms(1)
    by (auto simp: tcc_processAccess_def Let_def bind_assert_that bind_Some_conv split: if_splits)
  have "lineId < length (t_array t1)" using t1(3) wf'(2) assms(3) by simp
  then have e': "numSharers ?e = 1" "exclusive ?e"
      "sharers_bits ?e = (sharers_bits (t_array t1 ! lineId))[childId := True]"
      "owners ?e = (owners (t_array t1 ! lineId))[childId := True]"
    using t1(2,4) by auto
  have len: "childId < length (sharers_bits ?e)" "childId < length (owners ?e)"
    using ewf assms(4) by (auto simp: entry_wf_def)
  then have bits: "sharers_bits ?e ! childId" "owners ?e ! childId" using e'(3,4) by auto
  have "Entry_isExclusive ?e" using e'(1,2) by (simp add: Entry_isExclusive_def)
  moreover have "\<forall>c < MAX_CACHE_CHILDREN. sharers_bits ?e ! c \<longleftrightarrow> c = childId"
    using entry_wf_only_sharer [OF ewf calculation] bits(1) ewf assms(4) by (auto simp: entry_wf_def)
  ultimately show ?thesis using bits(2) t1(1) by (simp add: tcc_isSharer_def tcc_checkSameOwner_def)
qed

theorem GETX_grants_exclusive_witness:
  "\<exists>cyc' wb' t' w'. tcc_processAccess log_children 7 0 GETX 2 True I False 10 2 0 (sample_tcc, [])
     = Some (cyc', M, wb', t', w') \<and> Entry_isExclusive (t_array t' ! 0) \<and> tcc_checkSameOwner 0 2 t'"
proof -
  let ?r = "tcc_processAccess log_children 7 0 GETX 2 True I False 10 2 0 (sample_tcc, [])"
  have "?r \<noteq> None"
    by (simp add: tcc_processAccess_def Let_def sample_tcc_def TCC_new_def Entry_clear_def
        MAX_CACHE_CHILDREN_def tcc_sendInvalidates_def Entry_isEmpty_def)
  then obtain cyc' cs' wb' t' w' where r: "?r = Some (cyc', cs', wb', t', w')" by auto
  from GETX_grants_exclusive [OF r] sample_tcc_wf r show ?thesis by auto
qed

text \<open>C6: evicting a line from an inclusive cache removes its sharers but not its owner bits, so the next line
  placed in the slot inherits the owners of the evicted one.\<close>

theorem eviction_keeps_owners:
  assumes "tcc_processEviction d lineAddr lineId wb cyc src (t, w) = Some (cyc', wb', t', w')"
    and "tcc_wf t" "lineId < length (t_array t)" "\<not> t_nonInclusiveHack t"
  shows "numSharers (t_array t' ! lineId) = 0
    \<and> (\<forall>core. tcc_checkSameOwner lineId core t' = tcc_checkSameOwner lineId core t)"
proof -
  have "tcc_sendInvalidates d lineAddr lineId INV wb cyc src (t, w) = Some (cyc', wb', t', w')"
    using assms(1,4) by (simp add: tcc_processEviction_def)
  from tcc_sendInvalidates_wf [OF this assms(2,3)] tcc_processEviction_wf [OF assms(1-3)]
  show ?thesis by (simp add: tcc_checkSameOwner_def)
qed

theorem eviction_keeps_owners_witness:
  "\<exists>cyc' wb' t' w'. tcc_processEviction log_children 7 0 False 20 0 (sample_tcc1, []) = Some (cyc', wb', t', w')
     \<and> numSharers (t_array t' ! 0) = 0 \<and> tcc_checkSameOwner 0 1 t'"
proof -
  have wf: "tcc_wf sample_tcc1" "length (t_array sample_tcc1) = 2" "\<not> t_nonInclusiveHack sample_tcc1"
    using tcc_processAccess_wf [OF sample_tcc1_access [of log_children "[]"] sample_tcc_wf(1)] sample_tcc_wf
    by (auto simp: sample_tcc1_def sample_tcc_def TCC_new_def)
  have own: "tcc_checkSameOwner 0 1 sample_tcc1"
    by (simp add: tcc_checkSameOwner_def sample_tcc1_def sample_tcc_wf Entry_clear_def MAX_CACHE_CHILDREN_def)
  obtain cyc' wb' t' where ev: "tcc_processEviction log_children 7 0 False 20 0 (sample_tcc1, [])
      = Some (cyc', wb', t', filter (\<lambda>c. sharers_bits (t_array sample_tcc1 ! 0) ! c) [0..<length (childrenRTTs sample_tcc1)])"
    using sendInvalidates_log [OF tcc_wf_nth [OF wf(1)], of 0 7 False 20 0 "[]"] wf
    by (auto simp: tcc_processEviction_def)
  from eviction_keeps_owners [OF this wf(1) _ wf(3)] wf(2) own ev show ?thesis by auto
qed

end
