(* ===== verification/MemCtrls.thy ===== *)
theory MemCtrls
  imports Coherence
begin

text \<open>
  The memory controllers of \<^verbatim>\<open>src/src/mem_ctrls.h\<close> and \<^verbatim>\<open>mem_ctrls.cpp\<close> as parents of a cache, and the contract
  \<open>mem_object\<close> every parent of a bottom controller keeps (the \<^verbatim>\<open>MemObject\<close> interface): a GET leaves the line in a
  state that satisfies it, a PUT leaves it invalid. Under the contract the bottom controller never aborts.
\<close>

subsection \<open>Fixed-latency memory\<close>

text \<open>\<^verbatim>\<open>SimpleMemory::access\<close>: the response cycle and the value stored through the state pointer.\<close>

definition SimpleMemory_access :: "nat \<Rightarrow> MemReq \<Rightarrow> (cycle \<times> MESIState) option" where
  "SimpleMemory_access latency req = do {
     let st = (case r_type req of
                 PUTS \<Rightarrow> I | PUTX \<Rightarrow> I
               | GETS \<Rightarrow> (if is_flag (r_flags req) NOEXCL then S else E)
               | GETX \<Rightarrow> M);
     let respCycle = r_cycle req + latency;
     assert_that (respCycle > r_cycle req);
     Some (respCycle, st) }"

subsection \<open>Memory with an M/D/1 queueing latency\<close>

text \<open>\<^verbatim>\<open>MD1Memory\<close>: the floating-point computation of the new latency in \<^verbatim>\<open>updateLatency\<close> is the parameter \<open>newLat\<close>,
  a function of the accesses of the phase and of the cycles that passed; the two counters of the
  floating-point load are not kept.\<close>

record MD1Memory =
  lastPhase :: nat
  zeroLoadLatency :: nat
  curLatency :: nat
  profReads :: nat
  profWrites :: nat
  profTotalRdLat :: nat
  profTotalWrLat :: nat
  profUpdates :: nat
  curPhaseAccesses :: nat

definition MD1_updateLatency ::
  "(nat \<Rightarrow> nat \<Rightarrow> nat) \<Rightarrow> nat \<Rightarrow> nat \<Rightarrow> MD1Memory \<Rightarrow> MD1Memory" where
  "MD1_updateLatency newLat numPhases phaseLength m =
     (let phaseCycles = ((numPhases - lastPhase m) * phaseLength) mod 2 ^ 32
      in if phaseCycles < 10000 then m
         else m\<lparr>curLatency := newLat (curPhaseAccesses m) phaseCycles mod 2 ^ 32,
                profUpdates := Suc (profUpdates m), curPhaseAccesses := 0, lastPhase := numPhases\<rparr>)"

definition MD1_access ::
  "(nat \<Rightarrow> nat \<Rightarrow> nat) \<Rightarrow> nat \<Rightarrow> nat \<Rightarrow> MemReq \<Rightarrow> MD1Memory \<Rightarrow> cycle \<times> MESIState \<times> MD1Memory" where
  "MD1_access newLat numPhases phaseLength req m0 =
     (let m = (if numPhases > lastPhase m0 then MD1_updateLatency newLat numPhases phaseLength m0 else m0);
          rdm = m\<lparr>profReads := Suc (profReads m), profTotalRdLat := profTotalRdLat m + curLatency m,
                  curPhaseAccesses := Suc (curPhaseAccesses m)\<rparr>
      in case r_type req of
           PUTX \<Rightarrow> (r_cycle req + curLatency m, I,
                    m\<lparr>profWrites := Suc (profWrites m), profTotalWrLat := profTotalWrLat m + curLatency m,
                      curPhaseAccesses := Suc (curPhaseAccesses m)\<rparr>)
         | PUTS \<Rightarrow> (r_cycle req, I, m)
         | GETS \<Rightarrow> (r_cycle req + curLatency m, if is_flag (r_flags req) NOEXCL then S else E, rdm)
         | GETX \<Rightarrow> (r_cycle req + curLatency m, M, rdm))"

subsection \<open>Memories as parents\<close>

text \<open>Write through the state pointer of a request that points into the caller's array.\<close>

definition deref_set :: "state_ref \<Rightarrow> MESIState \<Rightarrow> BCC \<Rightarrow> BCC" where
  "deref_set r st b = (case r of LineCell c i \<Rightarrow> if c = b_ident b then set_st i st b else b | LocalCell _ \<Rightarrow> b)"

text \<open>A memory has the default \<^verbatim>\<open>accessSkew\<close> and \<^verbatim>\<open>checkSkew\<close> of \<^verbatim>\<open>MemObject\<close>, which return 0.\<close>

definition mem_up :: "nat \<Rightarrow> 'w up" where
  "mem_up latency = \<lparr>up_access = \<lambda>p req bw. do {
       (resp, st) \<leftarrow> SimpleMemory_access latency req;
       Some (resp, deref_set (r_state req) st (fst bw), snd bw) },
     up_accessSkew = \<lambda>p req bw. Some (0, bw), up_checkSkew = \<lambda>p req bw. Some (Some 0), up_skews = 1\<rparr>"

definition md1_up :: "(nat \<Rightarrow> nat \<Rightarrow> nat) \<Rightarrow> nat \<Rightarrow> nat \<Rightarrow> MD1Memory up" where
  "md1_up newLat numPhases phaseLength = \<lparr>up_access = \<lambda>p req bw.
       (case MD1_access newLat numPhases phaseLength req (snd bw) of (resp, st, m) \<Rightarrow>
          Some (resp, deref_set (r_state req) st (fst bw), m)),
     up_accessSkew = \<lambda>p req bw. Some (0, bw), up_checkSkew = \<lambda>p req bw. Some (Some 0), up_skews = 1\<rparr>"

subsection \<open>The contract of a parent\<close>

lemma set_st_simps [simp]:
  "b_array (set_st i s b) = (b_array b)[i := s]" "b_ident (set_st i s b) = b_ident b"
  "isL2 (set_st i s b) = isL2 b" "parentRTTs (set_st i s b) = parentRTTs b" "selfId (set_st i s b) = selfId b"
  "b_nonInclusiveHack (set_st i s b) = b_nonInclusiveHack b"
  "b_array (bump f b) = b_array b" "b_ident (bump f b) = b_ident b" "isL2 (bump f b) = isL2 b"
  "parentRTTs (bump f b) = parentRTTs b" "selfId (bump f b) = selfId b"
  "b_nonInclusiveHack (bump f b) = b_nonInclusiveHack b"
  by (simp_all add: set_st_def bump_def)

locale mem_object =
  fixes u :: "'w up"
    and ok :: "nat \<Rightarrow> BCC \<Rightarrow> 'w \<Rightarrow> bool"
  assumes skews: "up_skews u \<noteq> 0"
    and ok_line: "ok l b w \<Longrightarrow> \<not> isL2 b \<and> l < length (b_array b)"
    and ok_bump: "ok l b w \<Longrightarrow> ok l (bump f b) w"
    and ok_silent: "ok l b w \<Longrightarrow> b_array b ! l = E \<Longrightarrow> ok l (set_st l M b) w"
    and get: "ok l b w \<Longrightarrow> ty = GETS \<and> b_array b ! l = I \<or> ty = GETX \<and> b_array b ! l \<in> {I, S} \<Longrightarrow>
      \<not> is_flag fl PREFETCH \<Longrightarrow>
      \<exists>r b' w'. up_access u p (bcc_req b a ty l cyc src fl) (b, w) = Some (r, b', w') \<and> ok l b' w'
        \<and> (ty = GETS \<longrightarrow> b_array b' ! l \<in> {S, E}) \<and> (ty = GETX \<longrightarrow> b_array b' ! l = M)"
    and put: "ok l b w \<Longrightarrow> b_array b ! l \<noteq> I \<Longrightarrow> ty = (if b_array b ! l = M then PUTX else PUTS) \<Longrightarrow>
      \<exists>r b' w'. up_access u p (bcc_req b a ty l cyc src 0) (b, w) = Some (r, b', w') \<and> ok l b' w'
        \<and> b_array b' ! l = I"
begin

lemma miss_total:
  assumes "ok l b w" "ty = GETS \<and> b_array b ! l = I \<or> ty = GETX \<and> b_array b ! l \<in> {I, S}" "\<not> is_flag fl PREFETCH"
  shows "\<exists>r b' w'. bcc_miss u a l ty cyc src fl (b, w) = Some (r, b', w') \<and> ok l b' w' \<and> cyc \<le> r
    \<and> (ty = GETS \<longrightarrow> b_array b' ! l \<in> {S, E}) \<and> (ty = GETX \<longrightarrow> b_array b' ! l = M)"
proof -
  obtain r b' w' where "up_access u (getParentId b a) (bcc_req b a ty l cyc src fl) (b, w) = Some (r, b', w')"
      "ok l b' w'" "ty = GETS \<longrightarrow> b_array b' ! l \<in> {S, E}" "ty = GETX \<longrightarrow> b_array b' ! l = M"
    using get [OF assms] by metis
  then show ?thesis using ok_line [OF assms(1)] skews ok_bump
    by (simp add: bcc_miss_def up_get_def Let_def bcc_req_def)
qed

text \<open>A GET never aborts and leaves a state that satisfies it; a hit leaves the line as it was.\<close>

lemma access_total:
  assumes "ok l b w" "ty = GETS \<or> ty = GETX" "\<not> is_flag fl PREFETCH"
  shows "\<exists>r b' w'. bcc_processAccess u a l ty cyc src fl (b, w) = Some (r, b', w') \<and> ok l b' w' \<and> cyc \<le> r
    \<and> b_array b' ! l \<noteq> I \<and> (ty = GETX \<longrightarrow> b_array b' ! l = M)
    \<and> (ty = GETS \<longrightarrow> b_array b ! l \<noteq> I \<longrightarrow> b_array b' ! l = b_array b ! l)
    \<and> (ty = GETS \<longrightarrow> b_array b ! l = I \<longrightarrow> b_array b' ! l \<noteq> M)"
proof (cases ty)
  case GETS
  show ?thesis
  proof (cases "b_array b ! l = I")
    case True
    with miss_total [OF assms(1) _ assms(3), of GETS a cyc src] obtain r b' w' where
        "bcc_miss u a l GETS cyc src fl (b, w) = Some (r, b', w')" "ok l b' w'" "cyc \<le> r"
        "b_array b' ! l = S \<or> b_array b' ! l = E" by auto
    then show ?thesis using GETS True ok_bump by (auto simp: bcc_processAccess_def Let_def)
  next
    case False
    then show ?thesis using GETS ok_bump [OF assms(1)] by (simp add: bcc_processAccess_def Let_def)
  qed
next
  case GETX
  show ?thesis
  proof (cases "b_array b ! l = I \<or> b_array b ! l = S")
    case True
    let ?b1 = "bump (if b_array b ! l = I then (\<lambda>p. p\<lparr>profGETXMissIM := Suc (profGETXMissIM p)\<rparr>)
                else (\<lambda>p. p\<lparr>profGETXMissSM := Suc (profGETXMissSM p)\<rparr>)) b"
    obtain r b' w' where "bcc_miss u a l GETX cyc src fl (?b1, w) = Some (r, b', w')" "ok l b' w'" "cyc \<le> r"
        "b_array b' ! l = M"
      using miss_total [of l ?b1 w GETX fl a cyc src, OF ok_bump [OF assms(1)] _ assms(3)] True by auto
    then show ?thesis using GETX True by (simp add: bcc_processAccess_def Let_def)
  next
    case False
    then have em: "b_array b ! l = E \<or> b_array b ! l = M" by (cases "b_array b ! l") auto
    then show ?thesis
      using GETX ok_bump [OF assms(1)] ok_bump [OF ok_silent [OF assms(1)]] ok_line [OF assms(1)]
      by (auto simp: bcc_processAccess_def Let_def)
  qed
qed (use assms(2) in auto)

text \<open>An eviction never aborts and leaves the line invalid.\<close>

lemma eviction_total:
  assumes "ok l b w"
  shows "\<exists>r b' w'. bcc_processEviction u a l False cyc src (b, w) = Some (r, b', w') \<and> ok l b' w' \<and> b_array b' ! l = I"
proof (cases "b_array b ! l = I")
  case True
  then show ?thesis using assms by (simp add: bcc_processEviction_def)
next
  case False
  let ?ty = "if b_array b ! l = M then PUTX else PUTS"
  obtain r b' w' where "up_access u (getParentId b a) (bcc_req b a ?ty l cyc src 0) (b, w) = Some (r, b', w')"
      "ok l b' w'" "b_array b' ! l = I" using put [OF assms False refl] by metis
  then show ?thesis using ok_line [OF assms] skews False
    by (cases "b_array b ! l") (simp_all add: bcc_processEviction_def up_put_def Let_def bcc_req_def)
qed

end

text \<open>A controller whose line is in range and whose parents are not skews.\<close>

definition bcc_line :: "nat \<Rightarrow> BCC \<Rightarrow> bool" where
  "bcc_line l b \<longleftrightarrow> \<not> isL2 b \<and> l < length (b_array b)"

lemma mem_up_access:
  assumes "bcc_line l b"
  shows "up_access (mem_up (Suc lat)) p (bcc_req b a ty l cyc src fl) (b, w)
     = Some (cyc + Suc lat, set_st l (case ty of PUTS \<Rightarrow> I | PUTX \<Rightarrow> I | GETS \<Rightarrow> if is_flag fl NOEXCL then S else E | GETX \<Rightarrow> M) b, w)"
  using assms by (simp add: mem_up_def SimpleMemory_access_def Let_def bcc_req_def deref_set_def)

interpretation mem: mem_object "mem_up (Suc lat)" "\<lambda>l b w. bcc_line l b \<and> w = w0" for lat w0
proof unfold_locales
  show "up_skews (mem_up (Suc lat)) \<noteq> 0" by (simp add: mem_up_def)
qed (auto simp: mem_up_access bcc_line_def split: if_splits)

interpretation md1: mem_object "md1_up newLat numPhases phaseLength" "\<lambda>l b w. bcc_line l b"
  for newLat numPhases phaseLength
proof unfold_locales
  show "up_skews (md1_up newLat numPhases phaseLength) \<noteq> 0" by (simp add: md1_up_def)
qed (auto simp: md1_up_def MD1_access_def Let_def bcc_req_def deref_set_def bcc_line_def split: if_splits)

end
