(* ===== verification/Protocol.thy ===== *)
theory Protocol
  imports Directory MemCtrls
begin

text \<open>
  The MESI protocol between a shared cache and its children, for one line followed through the hierarchy: the
  children are terminal caches (\<^verbatim>\<open>MESITerminalCC\<close>), the shared cache is a \<^verbatim>\<open>MESICC\<close> over a memory controller. The
  steps run the controllers of \<^verbatim>\<open>coherence_ctrls.h\<close> and \<^verbatim>\<open>.cpp\<close> unchanged; each controller has one line, number 0,
  and the tag lookups of \<^verbatim>\<open>Cache::access\<close> and \<^verbatim>\<open>finishInvalidate\<close> give that line.

  The invariant relates the directory, the children's states and the shared cache's own state; from it follow
  single writer / multiple readers, inclusion, and that no assertion of the controllers fails.
\<close>

type_synonym lsys = "BCC \<times> TCC \<times> BCC list"

record lat_cfg =
  memLat :: nat
  accLat :: nat
  invLat :: nat

subsection \<open>The children as seen from the shared cache\<close>

definition kid_cells :: "BCC list cells" where
  "kid_cells = \<lparr>rd = \<lambda>r ks. (case r of LineCell c i \<Rightarrow> b_array (ks ! c) ! i | LocalCell _ \<Rightarrow> I),
     wr = \<lambda>r st ks. (case r of LineCell c i \<Rightarrow> ks[c := set_st i st (ks ! c)] | LocalCell _ \<Rightarrow> ks)\<rparr>"

definition kid_invalidate :: "lat_cfg \<Rightarrow> nat \<Rightarrow> InvReq \<Rightarrow> BCC list \<Rightarrow> (cycle \<times> bool \<times> BCC list) option" where
  "kid_invalidate z c req ks = do {
     (respCycle, wb, b') \<leftarrow> Terminal_processInv req 0 (i_cycle req + invLat z) (ks ! c);
     Some (respCycle, wb, ks[c := b']) }"

definition kid_down :: "lat_cfg \<Rightarrow> BCC list down" where
  "kid_down z = \<lparr>dn_invalidate = kid_invalidate z,
     dn_refresh = \<lambda>c lineAddr lineId ks. Some (ks[c := Terminal_processRefr 0 (ks ! c)])\<rparr>"

subsection \<open>The shared cache as seen from a child\<close>

definition shared_access :: "lat_cfg \<Rightarrow> MemReq \<Rightarrow> lsys \<Rightarrow> (cycle \<times> lsys) option" where
  "shared_access z req s = do {
     (skipAccess, req1) \<leftarrow> MESICC_startAccess kid_cells req (snd (snd s));
     if skipAccess then Some (r_cycle req1, s)
     else do {
       (respCycle, s') \<leftarrow> MESICC_processAccess (mem_up (memLat z)) (kid_down z) kid_cells False req1 (Some 0)
                           (r_cycle req1 + accLat z) s;
       assert_that (respCycle \<ge> r_cycle req1);
       Some (respCycle, s') } }"

text \<open>A child that calls up takes its controller out of the list and finds it changed when the call returns.\<close>

definition with_kid :: "BCC \<Rightarrow> lsys \<Rightarrow> lsys" where
  "with_kid kb s = (case s of (b, t, ks) \<Rightarrow> (b, t, ks[b_ident kb := kb]))"

definition kid_up :: "lat_cfg \<Rightarrow> lsys up" where
  "kid_up z = \<lparr>up_access = \<lambda>p req ks. (case ks of (kb, s) \<Rightarrow> do {
       (resp, s') \<leftarrow> shared_access z req (with_kid kb s);
       Some (resp, snd (snd s') ! b_ident kb, s') }),
     up_accessSkew = \<lambda>p req bw. Some (0, bw), up_checkSkew = \<lambda>p req bw. Some (Some 0), up_skews = 1\<rparr>"

subsection \<open>Steps\<close>

definition kid_get :: "lat_cfg \<Rightarrow> nat \<Rightarrow> AccessType \<Rightarrow> addr \<Rightarrow> cycle \<Rightarrow> u32 \<Rightarrow> lsys \<Rightarrow> (cycle \<times> lsys) option" where
  "kid_get z c type lineAddr cyc flags s = do {
     let req = \<lparr>r_lineAddr = lineAddr, r_type = type, r_childId = 0, r_state = LocalCell 0, r_cycle = cyc,
                r_initialState = I, r_srcId = c, r_flags = flags\<rparr>;
     (r, kb, s') \<leftarrow> Terminal_processAccess (kid_up z) req (Some 0) cyc (snd (snd s) ! c, s);
     Some (r, with_kid kb s') }"

definition kid_evict :: "lat_cfg \<Rightarrow> nat \<Rightarrow> addr \<Rightarrow> cycle \<Rightarrow> lsys \<Rightarrow> (cycle \<times> lsys) option" where
  "kid_evict z c lineAddr cyc s = do {
     (r, kb, s') \<leftarrow> bcc_processEviction (kid_up z) lineAddr 0 False cyc c (snd (snd s) ! c, s);
     Some (r, with_kid kb s') }"

definition shared_evict :: "lat_cfg \<Rightarrow> MemReq \<Rightarrow> addr \<Rightarrow> cycle \<Rightarrow> lsys \<Rightarrow> (cycle \<times> lsys) option" where
  "shared_evict z req lineAddr cyc s =
     MESICC_processEviction (mem_up (memLat z)) (kid_down z) req lineAddr 0 cyc s"

definition shared_inv :: "lat_cfg \<Rightarrow> InvReq \<Rightarrow> cycle \<Rightarrow> lsys \<Rightarrow> (cycle \<times> bool \<times> lsys) option" where
  "shared_inv z req cyc s = MESICC_processInv (kid_down z) req 0 cyc s"

text \<open>A step: a child reads or writes, a child evicts, the shared cache evicts, or the level above invalidates or
  downgrades the line of the shared cache, which it only does when the shared cache holds it accordingly.\<close>

inductive line_step :: "lat_cfg \<Rightarrow> lsys \<Rightarrow> lsys \<Rightarrow> bool" for z :: lat_cfg where
  step_get: "c < length (snd (snd s)) \<Longrightarrow> type = GETS \<or> type = GETX \<Longrightarrow> \<not> is_flag flags PREFETCH \<Longrightarrow>
     kid_get z c type lineAddr cyc flags s = Some (r, s') \<Longrightarrow> line_step z s s'"
| step_put: "c < length (snd (snd s)) \<Longrightarrow> kid_evict z c lineAddr cyc s = Some (r, s') \<Longrightarrow> line_step z s s'"
| step_evict: "shared_evict z req lineAddr cyc s = Some (r, s') \<Longrightarrow> line_step z s s'"
| step_inv: "i_type req = INV \<and> b_array (fst s) ! 0 \<noteq> I \<or> i_type req = INVX \<and> b_array (fst s) ! 0 \<in> {E, M} \<Longrightarrow>
     shared_inv z req cyc s = Some (r, wb, s') \<Longrightarrow> line_step z s s'"

subsection \<open>The invariant\<close>

definition kst :: "BCC list \<Rightarrow> nat \<Rightarrow> MESIState" where
  "kst ks c = b_array (ks ! c) ! 0"

definition coherent :: "nat \<Rightarrow> Entry \<Rightarrow> MESIState \<Rightarrow> (nat \<Rightarrow> MESIState) \<Rightarrow> bool" where
  "coherent n e p f \<longleftrightarrow> entry_wf n e
     \<and> (\<forall>c < n. sharers_bits e ! c \<longleftrightarrow> f c \<noteq> I)
     \<and> (\<forall>c < n. f c \<in> {E, M} \<longleftrightarrow> f c \<noteq> I \<and> Entry_isExclusive e)
     \<and> (\<forall>c < n. f c \<noteq> I \<longrightarrow> p \<noteq> I)
     \<and> (\<forall>c < n. f c \<in> {E, M} \<longrightarrow> p \<in> {E, M})"

definition kids_ok :: "nat \<Rightarrow> BCC list \<Rightarrow> bool" where
  "kids_ok n ks \<longleftrightarrow> length ks = n \<and> (\<forall>c < n. bcc_line 0 (ks ! c) \<and> b_ident (ks ! c) = c \<and> selfId (ks ! c) = c)"

definition shared_ok :: "nat \<Rightarrow> BCC \<Rightarrow> TCC \<Rightarrow> bool" where
  "shared_ok n b t \<longleftrightarrow> bcc_line 0 b \<and> tcc_wf t \<and> length (t_array t) = 1 \<and> length (childrenRTTs t) = n
     \<and> \<not> t_nonInclusiveHack t"

definition line_inv :: "nat \<Rightarrow> lsys \<Rightarrow> bool" where
  "line_inv n s \<longleftrightarrow> (case s of (b, t, ks) \<Rightarrow> shared_ok n b t \<and> kids_ok n ks
     \<and> coherent n (t_array t ! 0) (b_array b ! 0) (kst ks))"

definition line_init :: "nat \<Rightarrow> nat list \<Rightarrow> lsys" where
  "line_init n rtts = (BCC_new 1 0 False 0, (TCC_new 1 False)\<lparr>childrenRTTs := rtts\<rparr>,
     map (\<lambda>c. BCC_new 1 c False c) [0..<n])"

lemma coherent_swmr:
  assumes "coherent n e p f" "c < n" "d < n" "c \<noteq> d" "f c \<in> {E, M}"
  shows "f d = I"
proof (rule ccontr)
  assume "f d \<noteq> I"
  then have "sharers_bits e ! c" "sharers_bits e ! d" "Entry_isExclusive e"
    using assms by (auto simp: coherent_def)
  with entry_wf_only_sharer [of n e c d] assms show False by (auto simp: coherent_def)
qed

subsection \<open>Invalidating the children\<close>

lemma kids_ok_update: "kids_ok n ks \<Longrightarrow> bcc_line 0 b \<Longrightarrow> b_ident b = c \<Longrightarrow> selfId b = c \<Longrightarrow> kids_ok n (ks[c := b])"
  by (auto simp: kids_ok_def nth_list_update_if)

lemma kst_update: "c < length ks \<Longrightarrow> kst (ks[c := b]) d = (if d = c then b_array b ! 0 else kst ks d)"
  by (simp add: kst_def)

lemma kid_invalidate_total:
  assumes "kids_ok n ks" "c < n" "kst ks c \<noteq> I" "i_type req = INV \<or> i_type req = INVX \<and> kst ks c \<in> {E, M}"
  obtains resp ks' where "kid_invalidate z c req ks = Some (resp, kst ks c = M, ks')" "kids_ok n ks'"
    "\<And>d. kst ks' d = (if d = c then (if i_type req = INV then I else S) else kst ks d)"
proof -
  have k: "bcc_line 0 (ks ! c)" "b_ident (ks ! c) = c" "selfId (ks ! c) = c" "c < length ks"
    using assms(1,2) by (auto simp: kids_ok_def)
  define b where "b = (if i_type req = INV then bump (\<lambda>p. p\<lparr>profINV := Suc (profINV p)\<rparr>) (set_st 0 I (ks ! c))
      else bump (\<lambda>p. p\<lparr>profINVX := Suc (profINVX p)\<rparr>) (set_st 0 S (ks ! c)))"
  have "kid_invalidate z c req ks = Some (i_cycle req + invLat z, kst ks c = M, ks[c := b])"
    using assms(3,4)
    by (auto simp: kid_invalidate_def Terminal_processInv_def bcc_processInval_def kst_def Let_def b_def)
  moreover have "kids_ok n (ks[c := b])"
    using k by (intro kids_ok_update [OF assms(1)]) (auto simp: b_def bcc_line_def)
  moreover have "kst (ks[c := b]) d = (if d = c then (if i_type req = INV then I else S) else kst ks d)" for d
    using k by (simp add: kst_update b_def bcc_line_def)
  ultimately show thesis using that by blast
qed

lemma kid_inv_loop:
  assumes "kids_ok n ks" "distinct cs" "\<forall>c \<in> set cs. c < n \<and> c < length (sharers_bits e)"
    and "i_type req = INV \<or> i_type req = INVX"
    and "\<forall>c \<in> set cs. sharers_bits e ! c \<longrightarrow> kst ks c \<noteq> I \<and> (i_type req = INVX \<longrightarrow> kst ks c \<in> {E, M})"
  shows "\<exists>e' m' s' wb' ks'. inv_loop (kid_down z) rtts req cs (e, m, s, wb, ks) = Some (e', m', s', wb', ks')
    \<and> kids_ok n ks' \<and> (wb' \<longrightarrow> wb \<or> (\<exists>c \<in> set cs. sharers_bits e ! c \<and> kst ks c = M))
    \<and> (\<forall>c. kst ks' c = (if c \<in> set cs \<and> sharers_bits e ! c then (if i_type req = INV then I else S) else kst ks c))"
  using assms
proof (induction cs arbitrary: e m s wb ks)
  case (Cons c cs)
  show ?case
  proof (cases "sharers_bits e ! c")
    case True
    define e1 where "e1 = (if i_type req = INV then set_sharer c False e else e)"
    have bits: "sharers_bits e1 ! d = sharers_bits e ! d" if "d \<in> set cs" for d
      using that Cons.prems(2) by (cases "d = c") (auto simp: e1_def)
    have "i_type req = INV \<or> i_type req = INVX \<and> kst ks c \<in> {E, M}" "kst ks c \<noteq> I" "c < n"
      using Cons.prems True by auto
    then obtain resp ks1 where inv: "kid_invalidate z c req ks = Some (resp, kst ks c = M, ks1)" "kids_ok n ks1"
        "\<And>d. kst ks1 d = (if d = c then (if i_type req = INV then I else S) else kst ks d)"
      using kid_invalidate_total [OF Cons.prems(1)] by metis
    have pre: "distinct cs" "\<forall>c \<in> set cs. c < n \<and> c < length (sharers_bits e1)"
        "\<forall>c \<in> set cs. sharers_bits e1 ! c \<longrightarrow> kst ks1 c \<noteq> I \<and> (i_type req = INVX \<longrightarrow> kst ks1 c \<in> {E, M})"
      using Cons.prems bits inv(3) by (auto simp: e1_def)
    have "\<exists>e' m' s' wb' ks'. inv_loop (kid_down z) rtts req cs
          (e1, max (resp + rtts ! c) m, Suc s, wb \<or> kst ks c = M, ks1) = Some (e', m', s', wb', ks')
      \<and> kids_ok n ks' \<and> (wb' \<longrightarrow> (wb \<or> kst ks c = M) \<or> (\<exists>c \<in> set cs. sharers_bits e1 ! c \<and> kst ks1 c = M))
      \<and> (\<forall>d. kst ks' d = (if d \<in> set cs \<and> sharers_bits e1 ! d then (if i_type req = INV then I else S) else kst ks1 d))"
      by (rule Cons.IH [OF inv(2) pre(1,2) Cons.prems(4) pre(3)])
    then obtain e' m' s' wb' ks' where r: "inv_loop (kid_down z) rtts req cs
          (e1, max (resp + rtts ! c) m, Suc s, wb \<or> kst ks c = M, ks1) = Some (e', m', s', wb', ks')"
      "kids_ok n ks'" "wb' \<longrightarrow> (wb \<or> kst ks c = M) \<or> (\<exists>c \<in> set cs. sharers_bits e1 ! c \<and> kst ks1 c = M)"
      "\<forall>d. kst ks' d = (if d \<in> set cs \<and> sharers_bits e1 ! d then (if i_type req = INV then I else S) else kst ks1 d)"
      by blast
    have "inv_loop (kid_down z) rtts req (c # cs) (e, m, s, wb, ks) = Some (e', m', s', wb', ks')"
      using True inv(1) r(1) by (simp add: kid_down_def e1_def Let_def)
    moreover have "wb' \<longrightarrow> wb \<or> (\<exists>d \<in> set (c # cs). sharers_bits e ! d \<and> kst ks d = M)"
      using r(3) True bits inv(3) Cons.prems(2) by (auto split: if_splits)
    moreover have "\<forall>d. kst ks' d = (if d \<in> set (c # cs) \<and> sharers_bits e ! d
        then (if i_type req = INV then I else S) else kst ks d)"
      using r(4) True bits inv(3) Cons.prems(2) by auto
    ultimately show ?thesis using r(2) by blast
  next
    case False
    then show ?thesis using Cons.IH [of ks e m s wb] Cons.prems by auto
  qed
qed auto

text \<open>Sending invalidations or downgrades from a coherent directory succeeds and has the stated effect.\<close>

lemma kid_send:
  assumes t: "tcc_wf t" "length (t_array t) = 1" "length (childrenRTTs t) = n" and ks: "kids_ok n ks"
    and type: "type = INV \<or> type = INVX"
    and bits: "\<forall>c < n. sharers_bits (t_array t ! 0) ! c \<longrightarrow> kst ks c \<noteq> I"
    and em: "Entry_isExclusive (t_array t ! 0) \<Longrightarrow> \<forall>c < n. sharers_bits (t_array t ! 0) ! c \<longrightarrow> kst ks c \<in> {E, M}"
  obtains cyc' wb' e ks' where
    "tcc_sendInvalidates (kid_down z) a 0 type wb cyc src (t, ks) = Some (cyc', wb', set_entry 0 e t, ks')"
    "cyc \<le> cyc'" "entry_wf n e" "kids_ok n ks'" "wb' \<Longrightarrow> wb \<or> (\<exists>c < n. sharers_bits (t_array t ! 0) ! c \<and> kst ks c = M)"
    "type = INV \<Longrightarrow> numSharers e = 0 \<and> (\<forall>c < n. kst ks' c = (if sharers_bits (t_array t ! 0) ! c then I else kst ks c))"
    "type = INVX \<Longrightarrow> \<not> Entry_isExclusive e \<and> sharers_bits e = sharers_bits (t_array t ! 0)
       \<and> numSharers e = numSharers (t_array t ! 0)
       \<and> (\<forall>c < n. kst ks' c = (if sharers_bits (t_array t ! 0) ! c \<and> Entry_isExclusive (t_array t ! 0) then S else kst ks c))"
proof -
  let ?e = "t_array t ! 0"
  let ?send = "tcc_sendInvalidates (kid_down z) a 0 type wb cyc src (t, ks)"
  have wf: "entry_wf n ?e" using tcc_wf_nth [of t 0] t by simp
  have "\<exists>cyc' wb' t' ks'. ?send = Some (cyc', wb', t', ks') \<and> kids_ok n ks' \<and> (wb' \<longrightarrow> wb \<or> (\<exists>c < n. sharers_bits ?e ! c \<and> kst ks c = M))
    \<and> (\<forall>c < n. kst ks' c = (if sharers_bits ?e ! c \<and> (type = INV \<or> Entry_isExclusive ?e)
          then (if type = INV then I else S) else kst ks c))"
  proof (cases "type = INVX \<and> \<not> Entry_isExclusive ?e \<or> Entry_isEmpty ?e")
    case True
    have "\<forall>c < n. \<not> sharers_bits ?e ! c" if "Entry_isEmpty ?e"
      using that entry_wf_empty [OF wf] wf by (auto simp: Entry_isEmpty_def entry_wf_def)
    with True ks type show ?thesis by (auto simp: tcc_sendInvalidates_def Let_def)
  next
    case False
    let ?req = "\<lparr>i_lineAddr = a, i_type = type, i_cycle = cyc, i_srcId = src\<rparr>"
    have cs: "\<forall>c \<in> set [0..<n]. c < n \<and> c < length (sharers_bits ?e)" using wf by (auto simp: entry_wf_def)
    have ok: "\<forall>c \<in> set [0..<n]. sharers_bits ?e ! c \<longrightarrow> kst ks c \<noteq> I \<and> (i_type ?req = INVX \<longrightarrow> kst ks c \<in> {E, M})"
      using bits em False by auto
    have ty: "i_type ?req = INV \<or> i_type ?req = INVX" using type by simp
    obtain e1 m1 s1 wb1 ks1 where lp: "inv_loop (kid_down z) (childrenRTTs t) ?req [0..<n] (?e, cyc, 0, wb, ks)
          = Some (e1, m1, s1, wb1, ks1)" "kids_ok n ks1"
        "wb1 \<longrightarrow> wb \<or> (\<exists>c \<in> set [0..<n]. sharers_bits ?e ! c \<and> kst ks c = M)"
      and lp4: "\<forall>c. kst ks1 c = (if c \<in> set [0..<n] \<and> sharers_bits ?e ! c
          then (if i_type ?req = INV then I else S) else kst ks c)"
      using kid_inv_loop [OF ks distinct_upt cs ty ok, of z "childrenRTTs t" cyc 0 wb] by blast
    have lp5: "\<forall>c < n. kst ks1 c = (if sharers_bits ?e ! c then (if type = INV then I else S) else kst ks c)"
      using lp4 by simp
    have r: "s1 = numSharers e1" "exclusive e1 = exclusive ?e" "numSharers e1 = numSharers ?e"
      using inv_loop_result [OF lp(1)] filter_sharers_count [OF wf] wf by (auto simp: entry_wf_def)
    have "\<exists>t'. ?send = Some (m1, wb1, t', ks1)"
      using lp(1) r False type t(3)
      by (auto simp: tcc_sendInvalidates_def Let_def Entry_isExclusive_def Entry_isEmpty_def)
    then show ?thesis using lp(2,3) lp5 bits False type by auto
  qed
  then obtain cyc' wb' t' ks' where send: "?send = Some (cyc', wb', t', ks')" and k: "kids_ok n ks'"
      "wb' \<longrightarrow> wb \<or> (\<exists>c < n. sharers_bits ?e ! c \<and> kst ks c = M)"
      "\<forall>c < n. kst ks' c = (if sharers_bits ?e ! c \<and> (type = INV \<or> Entry_isExclusive ?e)
          then (if type = INV then I else S) else kst ks c)" by blast
  have "type \<noteq> FWD" using type by auto
  from sendInvalidates_cases [OF send t(1) _ this] t obtain e where e: "t' = set_entry 0 e t" "cyc \<le> cyc'"
      "entry_wf n e" "type = INV \<longrightarrow> numSharers e = 0"
      "type = INVX \<longrightarrow> \<not> Entry_isExclusive e \<and> numSharers e = numSharers ?e \<and> sharers_bits e = sharers_bits ?e"
    by (metis zero_less_one)
  have inv: "numSharers e = 0 \<and> (\<forall>c < n. kst ks' c = (if sharers_bits ?e ! c then I else kst ks c))" if "type = INV"
    using that k(3) e(4) by auto
  have st: "kst ks' c = (if sharers_bits ?e ! c \<and> Entry_isExclusive ?e then S else kst ks c)"
    if "type = INVX" "c < n" for c
    using k(3) that by auto
  show thesis
    by (rule that [OF send [unfolded e(1)] e(2,3) k(1)]) (use k(2) inv st e(5) in auto)
qed

subsection \<open>The directory's answer to a child\<close>

lemma coherentD:
  assumes "coherent n e p f"
  shows "entry_wf n e" "\<And>c. c < n \<Longrightarrow> sharers_bits e ! c \<longleftrightarrow> f c \<noteq> I"
    "\<And>c. c < n \<Longrightarrow> f c \<in> {E, M} \<longleftrightarrow> f c \<noteq> I \<and> Entry_isExclusive e"
    "\<And>c. c < n \<Longrightarrow> f c \<noteq> I \<Longrightarrow> p \<noteq> I" "\<And>c. c < n \<Longrightarrow> f c \<in> {E, M} \<Longrightarrow> p \<in> {E, M}"
  using assms by (auto simp: coherent_def)

lemma coherent_empty:
  assumes "entry_wf n e" "numSharers e = 0"
  shows "coherent n e p (\<lambda>_. I)"
  using assms entry_wf_empty [OF assms(1)] by (auto simp: coherent_def entry_wf_def)

lemma coherentI:
  assumes "entry_wf n e" "\<And>c. c < n \<Longrightarrow> sharers_bits e ! c \<longleftrightarrow> f c \<noteq> I"
    "\<And>c. c < n \<Longrightarrow> f c \<in> {E, M} \<longleftrightarrow> f c \<noteq> I \<and> Entry_isExclusive e"
    "\<And>c. c < n \<Longrightarrow> f c \<noteq> I \<Longrightarrow> p \<noteq> I" "\<And>c. c < n \<Longrightarrow> f c \<in> {E, M} \<Longrightarrow> p \<in> {E, M}"
  shows "coherent n e p f"
  unfolding coherent_def using assms by blast

lemma coherent_cong:
  assumes "coherent n e p f" "\<And>c. c < n \<Longrightarrow> f c = g c"
  shows "coherent n e p g"
proof -
  have "\<forall>c < n. g c = f c" using assms(2) by simp
  then show ?thesis using coherentD [OF assms(1)] by (intro coherentI) metis+
qed

text \<open>Adding a sharer to an entry without exclusive sharer, in state S; adding the only sharer, in state E or M.\<close>

lemma coherent_add_shared:
  assumes "coherent n e p f" "c < n" "f c = I" "\<not> Entry_isExclusive e" "p \<noteq> I"
  shows "coherent n ((set_owner c (set_sharer c True e))\<lparr>numSharers := Suc (numSharers e), exclusive := False\<rparr>) p (f(c := S))"
proof (rule coherentI)
  note D = coherentD [OF assms(1)]
  have nb: "\<not> sharers_bits e ! c" using assms(2,3) D(2) by simp
  have len: "n \<le> length (sharers_bits e)" using D(1) by (simp add: entry_wf_def)
  show "entry_wf n ((set_owner c (set_sharer c True e))\<lparr>numSharers := Suc (numSharers e), exclusive := False\<rparr>)"
    using entry_wf_add [OF D(1) assms(2) nb, of False] by simp
  fix d assume d: "d < n"
  show "sharers_bits ((set_owner c (set_sharer c True e))\<lparr>numSharers := Suc (numSharers e), exclusive := False\<rparr>) ! d
      \<longleftrightarrow> (f(c := S)) d \<noteq> I"
    using D(2) [OF d] d len assms(2) by (simp add: nth_list_update)
  show "(f(c := S)) d \<in> {E, M} \<longleftrightarrow> (f(c := S)) d \<noteq> I
      \<and> Entry_isExclusive ((set_owner c (set_sharer c True e))\<lparr>numSharers := Suc (numSharers e), exclusive := False\<rparr>)"
    using D(3) [OF d] assms(4) by (auto simp: Entry_isExclusive_def)
  show "p \<noteq> I" by fact
  show "(f(c := S)) d \<in> {E, M} \<Longrightarrow> p \<in> {E, M}" using D(5) [OF d] by (simp split: if_splits)
qed

lemma coherent_add_exclusive:
  assumes "entry_wf n e" "numSharers e = 0" "c < n" "st \<in> {E, M}" "p \<in> {E, M}"
  shows "coherent n ((set_owner c (set_sharer c True e))\<lparr>numSharers := 1, exclusive := True\<rparr>) p ((\<lambda>_. I)(c := st))"
proof (rule coherentI)
  have nb: "\<forall>d < n. \<not> sharers_bits e ! d" using assms(1,2) entry_wf_empty [OF assms(1)] by (simp add: entry_wf_def)
  have len: "n \<le> length (sharers_bits e)" using assms(1) by (simp add: entry_wf_def)
  show "entry_wf n ((set_owner c (set_sharer c True e))\<lparr>numSharers := 1, exclusive := True\<rparr>)"
    using entry_wf_add [OF assms(1,3), of True] assms(2,3) nb by simp
  fix d assume d: "d < n"
  show "sharers_bits ((set_owner c (set_sharer c True e))\<lparr>numSharers := 1, exclusive := True\<rparr>) ! d
      \<longleftrightarrow> ((\<lambda>_. I)(c := st)) d \<noteq> I"
    using nb d len assms(3,4) by (auto simp: nth_list_update)
  show "((\<lambda>_. I)(c := st)) d \<in> {E, M} \<longleftrightarrow> ((\<lambda>_. I)(c := st)) d \<noteq> I
      \<and> Entry_isExclusive ((set_owner c (set_sharer c True e))\<lparr>numSharers := 1, exclusive := True\<rparr>)"
    using assms(4) by (auto simp: Entry_isExclusive_def)
  show "p \<noteq> I" "p \<in> {E, M}" using assms(5) by auto
qed

lemma coherent_remove:
  assumes "coherent n e p f" "c < n" "f c \<noteq> I"
  shows "coherent n ((set_sharer c False e)\<lparr>numSharers := dec32 (numSharers e)\<rparr>) p (f(c := I))" (is "coherent n ?e p ?f")
proof (rule coherentI)
  note D = coherentD [OF assms(1)]
  have nb: "sharers_bits e ! c" using assms(2,3) D(2) by simp
  have len: "n \<le> length (sharers_bits e)" using D(1) by (simp add: entry_wf_def)
  have pos: "numSharers e \<noteq> 0" using entry_wf_empty [OF D(1)] nb assms(2) D(1) by (auto simp: entry_wf_def)
  show "entry_wf n ?e" by (rule entry_wf_remove [OF D(1) assms(2) nb])
  have nx: "\<not> Entry_isExclusive ?e" using D(1) pos by (auto simp: Entry_isExclusive_def dec32_def entry_wf_def)
  fix d assume d: "d < n"
  have swmr: "f d \<notin> {E, M}" if "d \<noteq> c"
    using coherent_swmr [OF assms(1) d assms(2) that] assms(3) by blast
  show "sharers_bits ?e ! d \<longleftrightarrow> ?f d \<noteq> I" using D(2) [OF d] d len assms(2) by (simp add: nth_list_update)
  show "?f d \<in> {E, M} \<longleftrightarrow> ?f d \<noteq> I \<and> Entry_isExclusive ?e" using nx swmr by auto
  show "?f d \<noteq> I \<Longrightarrow> p \<noteq> I" using D(4) [OF d] by (simp split: if_splits)
  show "?f d \<in> {E, M} \<Longrightarrow> p \<in> {E, M}" using swmr by (auto split: if_splits)
qed

text \<open>A change of the parent's own state that keeps exclusivity.\<close>

lemma coherent_parent:
  assumes "coherent n e p f" "q \<noteq> I \<or> p = I" "p \<in> {E, M} \<longrightarrow> q \<in> {E, M}"
  shows "coherent n e q f"
  by (rule coherentI) (use coherentD [OF assms(1)] assms(2,3) in blast)+

subsection \<open>Requests at the shared cache\<close>

text \<open>A request as a child's bottom controller issues it: the state pointer names the child's line and the initial
  state is its current value, so there is no race.\<close>

definition kid_req :: "nat \<Rightarrow> AccessType \<Rightarrow> u32 \<Rightarrow> MemReq \<Rightarrow> BCC list \<Rightarrow> bool" where
  "kid_req c ty fl req ks \<longleftrightarrow> r_type req = ty \<and> r_childId req = c \<and> r_state req = LineCell c 0
     \<and> r_initialState req = kst ks c \<and> r_flags req = fl"

lemma kid_req_start:
  assumes "kid_req c ty fl req ks"
  shows "MESICC_startAccess kid_cells req ks = Some (False, req)"
  using assms by (simp add: kid_req_def MESICC_startAccess_def CheckForMESIRace_def kid_cells_def kst_def)

text \<open>The bottom half of a GET: the shared cache obtains what it needs from memory.\<close>

lemma shared_bcc_get:
  assumes "bcc_line 0 b" "ty = GETS \<or> ty = GETX" "\<not> is_flag fl PREFETCH" "memLat z > 0"
  obtains r b' where "bcc_processAccess (mem_up (memLat z)) a 0 ty cyc src fl (b, w) = Some (r, b', w)"
    "bcc_line 0 b'" "cyc \<le> r" "b_array b' ! 0 \<noteq> I" "ty = GETX \<Longrightarrow> b_array b' ! 0 = M"
    "ty = GETS \<Longrightarrow> b_array b ! 0 \<noteq> I \<Longrightarrow> b_array b' ! 0 = b_array b ! 0"
proof -
  obtain lat where lat: "memLat z = Suc lat" using assms(4) by (cases "memLat z") auto
  from mem.access_total [of 0 b w w ty fl lat a cyc src] assms(1-3) lat that show thesis by auto
qed

lemma not_prefetch_mask:
  assumes "\<not> is_flag fl PREFETCH"
  shows "fl AND NOT PREFETCH = fl"
proof (rule bit_word_eqI)
  fix i assume i: "i < LENGTH(32)"
  have "\<not> (bit fl i \<and> bit PREFETCH i)"
    using assms bit_and_iff [of fl PREFETCH i] by (simp add: is_flag_def)
  then show "bit (fl AND NOT PREFETCH) i = bit fl i" using i by (auto simp: bit_simps)
qed

lemma tcc_gets_total:
  assumes t: "tcc_wf t" "length (t_array t) = 1" "length (childrenRTTs t) = n" and ks: "kids_ok n ks"
    and coh: "coherent n (t_array t ! 0) p (kst ks)" and c: "c < n" "kst ks c = I" and p: "p \<noteq> I"
  obtains cyc' st wb e ks' where
    "tcc_processAccess (kid_down z) a 0 GETS c (p = E \<or> p = M) cs False cyc src fl (t, ks)
       = Some (cyc', st, wb, set_entry 0 e t, ks')"
    "cyc \<le> cyc'" "st \<in> {S, E}" "kids_ok n ks'" "entry_wf n e" "coherent n e p ((kst ks')(c := st))" "wb \<Longrightarrow> p \<in> {E, M}"
proof -
  let ?e = "t_array t ! 0"
  note D = coherentD [OF coh]
  have nb: "\<not> sharers_bits ?e ! c" using D(2) c by simp
  have len: "0 < length (t_array t)" using t(2) by simp
  consider (grant) "Entry_isEmpty ?e" "p = E \<or> p = M" "\<not> is_flag fl NOEXCL"
    | (down) "\<not> (Entry_isEmpty ?e \<and> (p = E \<or> p = M) \<and> \<not> is_flag fl NOEXCL)" "Entry_isExclusive ?e"
    | (share) "\<not> (Entry_isEmpty ?e \<and> (p = E \<or> p = M) \<and> \<not> is_flag fl NOEXCL)" "\<not> Entry_isExclusive ?e" by blast
  then show thesis
  proof cases
    case grant
    let ?e' = "(set_owner c (set_sharer c True ?e))\<lparr>numSharers := 1, exclusive := True\<rparr>"
    have num: "numSharers ?e = 0" using grant(1) by (simp add: Entry_isEmpty_def)
    have "coherent n ?e' p ((\<lambda>_. I)(c := E))"
      by (rule coherent_add_exclusive [OF D(1) num c(1)]) (use grant(2) in auto)
    moreover have "\<forall>d < n. kst ks d = I"
      using D(2) entry_wf_empty [OF D(1)] num D(1) by (auto simp: entry_wf_def)
    ultimately have "coherent n ?e' p ((kst ks)(c := E))" by (elim coherent_cong) auto
    then show thesis using that [of cyc E False ?e' ks] grant ks coherentD(1)
      by (auto simp: tcc_processAccess_def Let_def)
  next
    case down
    have b1: "\<forall>c < n. sharers_bits ?e ! c \<longrightarrow> kst ks c \<noteq> I" using D(2) by simp
    have b2: "\<forall>c < n. sharers_bits ?e ! c \<longrightarrow> kst ks c \<in> {E, M}" using D(2,3) down(2) by blast
    obtain cyc' wb' e ks' where send:
        "tcc_sendInvalidates (kid_down z) a 0 INVX False cyc src (t, ks) = Some (cyc', wb', set_entry 0 e t, ks')"
        "cyc \<le> cyc'" "entry_wf n e" "kids_ok n ks'" "wb' \<Longrightarrow> \<exists>c < n. sharers_bits ?e ! c \<and> kst ks c = M"
        "\<not> Entry_isExclusive e" "sharers_bits e = sharers_bits ?e"
        "\<forall>c < n. kst ks' c = (if sharers_bits ?e ! c \<and> Entry_isExclusive ?e then S else kst ks c)"
      by (rule kid_send [OF t ks _ b1 b2, of INVX z a False cyc src]) auto
    have st: "\<forall>c < n. kst ks' c = (if kst ks c \<noteq> I then S else I)" using send(8) down(2) D(2) by simp
    have "coherent n e p (kst ks')"
      by (rule coherentI) (use send(3,6,7) st D(2) p in \<open>auto split: if_splits\<close>)
    from coherent_add_shared [OF this c(1) _ send(6) p] st c
    have "coherent n ((set_owner c (set_sharer c True e))\<lparr>numSharers := Suc (numSharers e), exclusive := False\<rparr>)
        p ((kst ks')(c := S))" by simp
    moreover have "wb' \<Longrightarrow> p \<in> {E, M}" using send(5) D(5) by blast
    ultimately show thesis
      using that [of cyc' S wb' _ ks'] send(1,2,4,6) down nb len coherentD(1)
      by (simp add: tcc_processAccess_def Let_def)
  next
    case share
    from coherent_add_shared [OF coh c share(2) p] show thesis
      using that [of cyc S False _ ks] share nb ks coherentD(1) by (auto simp: tcc_processAccess_def Let_def)
  qed
qed

lemma tcc_getx_total:
  assumes t: "tcc_wf t" "length (t_array t) = 1" "length (childrenRTTs t) = n" and ks: "kids_ok n ks"
    and coh: "coherent n (t_array t ! 0) p (kst ks)" and c: "c < n" "kst ks c \<in> {I, S}" and p: "p = M"
  obtains cyc' wb e ks' where
    "tcc_processAccess (kid_down z) a 0 GETX c True cs False cyc src fl (t, ks)
       = Some (cyc', M, wb, set_entry 0 e t, ks')"
    "cyc \<le> cyc'" "kids_ok n ks'" "entry_wf n e" "coherent n e p ((kst ks')(c := M))"
proof -
  let ?e = "t_array t ! 0"
  note D = coherentD [OF coh]
  define e0 where "e0 = (if sharers_bits ?e ! c then (set_sharer c False ?e)\<lparr>numSharers := dec32 (numSharers ?e)\<rparr> else ?e)"
  have len: "0 < length (t_array t)" using t(2) by simp
  have nx: "sharers_bits ?e ! c \<Longrightarrow> \<not> Entry_isExclusive ?e" using D(2,3) [OF c(1)] c(2) by auto
  have coh0: "coherent n e0 p ((kst ks)(c := I))"
    using coherent_remove [OF coh c(1)] coh D(2) [OF c(1)] by (auto simp: e0_def fun_upd_idem)
  note D0 = coherentD [OF coh0]
  define t0 where "t0 = set_entry 0 e0 t"
  have t0: "tcc_wf t0" "length (t_array t0) = 1" "length (childrenRTTs t0) = n" "t_array t0 ! 0 = e0"
    using tcc_wf_set_entry [OF t(1), of e0 0] D0(1) t by (auto simp: t0_def)
  have b1: "\<forall>d < n. sharers_bits (t_array t0 ! 0) ! d \<longrightarrow> kst ks d \<noteq> I"
    using D0(2) t0(4) by (auto split: if_splits)
  have b2: "\<forall>d < n. sharers_bits (t_array t0 ! 0) ! d \<longrightarrow> kst ks d \<in> {E, M}" if "Entry_isExclusive (t_array t0 ! 0)"
  proof (intro allI impI)
    fix d assume d: "d < n" "sharers_bits (t_array t0 ! 0) ! d"
    then show "kst ks d \<in> {E, M}" using D0(2,3) [OF d(1)] t0(4) that by (auto split: if_splits)
  qed
  obtain cyc' wb' e1 ks' where send:
      "tcc_sendInvalidates (kid_down z) a 0 INV False cyc src (t0, ks) = Some (cyc', wb', set_entry 0 e1 t0, ks')"
      "cyc \<le> cyc'" "entry_wf n e1" "kids_ok n ks'" "numSharers e1 = 0"
      "\<forall>d < n. kst ks' d = (if sharers_bits e0 ! d then I else kst ks d)"
    by (rule kid_send [OF t0(1-3) ks _ b1 b2, of INV z a False cyc src]) (auto simp: t0(4))
  let ?e2 = "(set_owner c (set_sharer c True e1))\<lparr>numSharers := 1, exclusive := True\<rparr>"
  have "coherent n ?e2 p ((\<lambda>_. I)(c := M))"
    by (rule coherent_add_exclusive [OF send(3,5) c(1)]) (use p in auto)
  moreover have "\<forall>d < n. d \<noteq> c \<longrightarrow> kst ks' d = I" using send(6) D0(2) by auto
  ultimately have "coherent n ?e2 p ((kst ks')(c := M))" by (elim coherent_cong) auto
  moreover have "tcc_processAccess (kid_down z) a 0 GETX c True cs False cyc src fl (t, ks)
      = Some (cyc', M, wb', set_entry 0 ?e2 t, ks')"
  proof -
    have "(if sharers_bits ?e ! c then do {
             assert_that (\<not> Entry_isExclusive ?e);
             Some ((set_sharer c False ?e)\<lparr>numSharers := dec32 (numSharers ?e)\<rparr>) }
           else Some ?e) = Some e0" using nx by (simp add: e0_def)
    then show ?thesis using send(1,5) len by (simp add: tcc_processAccess_def Let_def t0_def)
  qed
  ultimately show thesis using that send(2,4) coherentD(1) by blast
qed

lemma tcc_put_total:
  assumes t: "tcc_wf t" "length (t_array t) = 1" "length (childrenRTTs t) = n"
    and coh: "coherent n (t_array t ! 0) p (kst ks)" and c: "c < n" "kst ks c \<noteq> I"
    and ty: "ty = (if kst ks c = M then PUTX else PUTS)"
  obtains e where
    "tcc_processAccess d a 0 ty c hx cs False cyc src 0 (t, ks) = Some (cyc, I, False, set_entry 0 e t, ks)"
    "entry_wf n e" "coherent n e p ((kst ks)(c := I))"
proof -
  let ?e = "t_array t ! 0"
  note D = coherentD [OF coh]
  have b: "sharers_bits ?e ! c" "kst ks c = M \<Longrightarrow> Entry_isExclusive ?e" using D(2,3) [OF c(1)] c(2) by auto
  let ?e' = "(set_sharer c False ?e)\<lparr>numSharers := dec32 (numSharers ?e)\<rparr>"
  have "coherent n ?e' p ((kst ks)(c := I))" by (rule coherent_remove [OF coh c])
  then show thesis using that [of ?e'] b ty coherentD(1)
    by (auto simp: tcc_processAccess_def tcc_put_def Let_def is_flag_def split: if_splits)
qed

lemma wr_kid:
  assumes "kids_ok n ks" "c < n"
  shows "kids_ok n (wr kid_cells (LineCell c 0) st ks)"
    "kst (wr kid_cells (LineCell c 0) st ks) = (kst ks)(c := st)"
proof -
  have k: "bcc_line 0 (ks ! c)" "b_ident (ks ! c) = c" "selfId (ks ! c) = c" "c < length ks"
    using assms by (auto simp: kids_ok_def)
  have w: "wr kid_cells (LineCell c 0) st ks = ks[c := set_st 0 st (ks ! c)]" by (simp add: kid_cells_def)
  show "kids_ok n (wr kid_cells (LineCell c 0) st ks)"
    unfolding w using k by (intro kids_ok_update [OF assms(1)]) (auto simp: bcc_line_def)
  show "kst (wr kid_cells (LineCell c 0) st ks) = (kst ks)(c := st)"
    unfolding w using k by (auto simp: fun_eq_iff kst_update bcc_line_def)
qed

lemma shared_ok_entry:
  "shared_ok n b t \<Longrightarrow> entry_wf n e \<Longrightarrow> bcc_line 0 b' \<Longrightarrow> shared_ok n b' (set_entry 0 e t)"
  by (auto simp: shared_ok_def intro: tcc_wf_set_entry)

lemma line_invD:
  assumes "line_inv n (b, t, ks)"
  shows "shared_ok n b t" "kids_ok n ks" "coherent n (t_array t ! 0) (b_array b ! 0) (kst ks)"
    "bcc_line 0 b" "tcc_wf t" "length (t_array t) = 1" "length (childrenRTTs t) = n" "\<not> t_nonInclusiveHack t"
  using assms by (auto simp: line_inv_def shared_ok_def)

lemma line_invI:
  assumes "shared_ok n b t" "kids_ok n ks" "coherent n (t_array t ! 0) (b_array b ! 0) (kst ks)"
  shows "line_inv n (b, t, ks)"
  using assms by (simp add: line_inv_def)

subsection \<open>A child's request at the shared cache\<close>

lemma processWriteback_total:
  assumes "bcc_line 0 b" "wb \<Longrightarrow> b_array b ! 0 \<in> {E, M}"
  obtains b' where "(if wb then bcc_processWritebackOnAccess 0 b else Some b) = Some b'" "bcc_line 0 b'"
    "b_array b' ! 0 \<noteq> I \<or> b_array b ! 0 = I" "b_array b ! 0 \<in> {E, M} \<Longrightarrow> b_array b' ! 0 \<in> {E, M}"
proof (cases wb)
  case True
  let ?b = "if b_array b ! 0 = E then set_st 0 M b else b"
  show thesis using that [of ?b] True assms by (auto simp: bcc_processWritebackOnAccess_def bcc_line_def)
next
  case False
  then show thesis using that [of b] assms(1) by auto
qed

lemma shared_get:
  assumes inv: "line_inv n (b, t, ks)" and c: "c < n"
    and st: "ty = GETS \<and> kst ks c = I \<or> ty = GETX \<and> kst ks c \<in> {I, S}"
    and fl: "\<not> is_flag fl PREFETCH" and req: "kid_req c ty fl req ks" and lat: "memLat z > 0"
  shows "\<exists>r s'. shared_access z req (b, t, ks) = Some (r, s') \<and> line_inv n s'
      \<and> (ty = GETS \<longrightarrow> kst (snd (snd s')) c \<in> {S, E}) \<and> (ty = GETX \<longrightarrow> kst (snd (snd s')) c = M)"
proof -
  note D = line_invD [OF inv]
  have ty: "ty = GETS \<or> ty = GETX" using st by blast
  define cyc where "cyc = r_cycle req + accLat z"
  have rq: "r_type req = ty" "r_flags req = fl" "r_childId req = c" "r_state req = LineCell c 0"
    using req by (auto simp: kid_req_def)
  obtain r1 b1 where b1: "bcc_processAccess (mem_up (memLat z)) (r_lineAddr req) 0 ty cyc (r_srcId req) fl (b, t, ks)
        = Some (r1, b1, t, ks)" "bcc_line 0 b1" "cyc \<le> r1" "b_array b1 ! 0 \<noteq> I" "ty = GETX \<Longrightarrow> b_array b1 ! 0 = M"
      "ty = GETS \<Longrightarrow> b_array b ! 0 \<noteq> I \<Longrightarrow> b_array b1 ! 0 = b_array b ! 0"
    using shared_bcc_get [OF D(4) ty fl lat] by metis
  let ?p = "b_array b1 ! 0"
  have coh1: "coherent n (t_array t ! 0) ?p (kst ks)"
    by (rule coherent_parent [OF D(3)]) (use b1(4-6) ty in auto)
  have "\<exists>cyc' st' wb e ks'. tcc_processAccess (kid_down z) (r_lineAddr req) 0 ty c (bcc_isExclusive 0 b1)
        (rd kid_cells (LineCell c 0) ks) False r1 (r_srcId req) fl (t, ks) = Some (cyc', st', wb, set_entry 0 e t, ks')
      \<and> r1 \<le> cyc' \<and> kids_ok n ks' \<and> entry_wf n e \<and> coherent n e ?p ((kst ks')(c := st')) \<and> (wb \<longrightarrow> ?p \<in> {E, M})
      \<and> (ty = GETS \<longrightarrow> st' \<in> {S, E}) \<and> (ty = GETX \<longrightarrow> st' = M)"
  proof (cases ty)
    case GETS
    with st have I: "kst ks c = I" by simp
    show ?thesis
      by (rule tcc_gets_total [OF D(5-7,2) coh1 c I b1(4), of z "r_lineAddr req"
            "rd kid_cells (LineCell c 0) ks" r1 "r_srcId req" fl])
        (use GETS in \<open>auto simp: bcc_isExclusive_def\<close>)
  next
    case GETX
    with st b1(5) have I: "kst ks c \<in> {I, S}" "?p = M" by auto
    show ?thesis
      by (rule tcc_getx_total [OF D(5-7,2) coh1 c I, of z "r_lineAddr req"
            "rd kid_cells (LineCell c 0) ks" r1 "r_srcId req" fl])
        (use GETX I(2) in \<open>auto simp: bcc_isExclusive_def\<close>)
  qed (use ty in auto)
  then obtain cyc' st' wb e ks' where t: "tcc_processAccess (kid_down z) (r_lineAddr req) 0 ty c (bcc_isExclusive 0 b1)
        (rd kid_cells (LineCell c 0) ks) False r1 (r_srcId req) fl (t, ks) = Some (cyc', st', wb, set_entry 0 e t, ks')"
      "r1 \<le> cyc'" "kids_ok n ks'" "entry_wf n e" "coherent n e ?p ((kst ks')(c := st'))" "wb \<Longrightarrow> ?p \<in> {E, M}"
      "ty = GETS \<longrightarrow> st' \<in> {S, E}" "ty = GETX \<longrightarrow> st' = M" by blast
  obtain b2 where b2: "(if wb then bcc_processWritebackOnAccess 0 b1 else Some b1) = Some b2" "bcc_line 0 b2"
      "b_array b2 ! 0 \<noteq> I \<or> ?p = I" "?p \<in> {E, M} \<Longrightarrow> b_array b2 ! 0 \<in> {E, M}"
    using processWriteback_total [OF b1(2) t(6)] by metis
  define ks2 where "ks2 = wr kid_cells (LineCell c 0) st' ks'"
  have ks2: "kids_ok n ks2" "kst ks2 = (kst ks')(c := st')" unfolding ks2_def by (rule wr_kid [OF t(3) c])+
  have "MESICC_processAccess (mem_up (memLat z)) (kid_down z) kid_cells False req (Some 0) cyc (b, t, ks)
      = Some (cyc', b2, set_entry 0 e t, ks2)"
    using b1(1) t(1) b2(1) fl ty rq not_prefetch_mask [OF fl]
    by (auto simp: MESICC_processAccess_def IsPut_def Let_def ks2_def)
  then have "shared_access z req (b, t, ks) = Some (cyc', b2, set_entry 0 e t, ks2)"
    using kid_req_start [OF req] b1(3) t(2) by (simp add: shared_access_def cyc_def)
  moreover have "line_inv n (b2, set_entry 0 e t, ks2)"
  proof (rule line_invI [OF shared_ok_entry [OF D(1) t(4) b2(2)] ks2(1)])
    have "coherent n e (b_array b2 ! 0) (kst ks2)"
      unfolding ks2(2) by (rule coherent_parent [OF t(5) b2(3)]) (use b2(4) in blast)
    then show "coherent n (t_array (set_entry 0 e t) ! 0) (b_array b2 ! 0) (kst ks2)" using D(6) by simp
  qed
  ultimately show ?thesis using t(7,8) ks2(2) by auto
qed

lemma shared_put:
  assumes inv: "line_inv n (b, t, ks)" and c: "c < n" "kst ks c \<noteq> I"
    and ty: "ty = (if kst ks c = M then PUTX else PUTS)" and req: "kid_req c ty 0 req ks"
  shows "\<exists>r s'. shared_access z req (b, t, ks) = Some (r, s') \<and> line_inv n s' \<and> kst (snd (snd s')) c = I"
proof -
  note D = line_invD [OF inv]
  note C = coherentD [OF D(3)]
  define cyc where "cyc = r_cycle req + accLat z"
  have rq: "r_type req = ty" "r_flags req = 0" "r_childId req = c" "r_state req = LineCell c 0"
    using req by (auto simp: kid_req_def)
  have p: "b_array b ! 0 \<noteq> I" "ty = PUTX \<Longrightarrow> b_array b ! 0 \<in> {E, M}"
    using C(4,5) [OF c(1)] c(2) ty by (auto split: if_splits)
  define b1 where "b1 = (if ty = PUTX then bump (\<lambda>p. p\<lparr>profPUTX := Suc (profPUTX p)\<rparr>)
      (if b_array b ! 0 = E then set_st 0 M b else b) else bump (\<lambda>p. p\<lparr>profPUTS := Suc (profPUTS p)\<rparr>) b)"
  have b1: "bcc_processAccess u (r_lineAddr req) 0 ty cyc (r_srcId req) 0 (b, t, ks) = Some (cyc, b1, t, ks)" for u
    using p ty by (auto simp: bcc_processAccess_def Let_def b1_def)
  have b1p: "bcc_line 0 b1" "b_array b1 ! 0 \<noteq> I" "b_array b ! 0 \<in> {E, M} \<Longrightarrow> b_array b1 ! 0 \<in> {E, M}"
    using D(4) p by (auto simp: b1_def bcc_line_def)
  have coh1: "coherent n (t_array t ! 0) (b_array b1 ! 0) (kst ks)"
    by (rule coherent_parent [OF D(3)]) (use b1p in auto)
  obtain e where t: "tcc_processAccess (kid_down z) (r_lineAddr req) 0 ty c (bcc_isExclusive 0 b1)
        (rd kid_cells (LineCell c 0) ks) False cyc (r_srcId req) 0 (t, ks) = Some (cyc, I, False, set_entry 0 e t, ks)"
      "entry_wf n e" "coherent n e (b_array b1 ! 0) ((kst ks)(c := I))"
    using tcc_put_total [OF D(5-7) coh1 c ty] by metis
  define ks2 where "ks2 = wr kid_cells (LineCell c 0) I ks"
  have ks2: "kids_ok n ks2" "kst ks2 = (kst ks)(c := I)" unfolding ks2_def by (rule wr_kid [OF D(2) c(1)])+
  have "\<not> is_flag (0 :: u32) PREFETCH" "ty \<noteq> GETS" "ty \<noteq> GETX" using ty by (auto simp: is_flag_def)
  then have "MESICC_processAccess (mem_up (memLat z)) (kid_down z) kid_cells False req (Some 0) cyc (b, t, ks)
      = Some (cyc, b1, set_entry 0 e t, ks2)"
    using b1 t(1) rq p(1) by (simp add: MESICC_processAccess_def bcc_isValid_def Let_def ks2_def)
  then have "shared_access z req (b, t, ks) = Some (cyc, b1, set_entry 0 e t, ks2)"
    using kid_req_start [OF req] by (simp add: shared_access_def cyc_def)
  moreover have "line_inv n (b1, set_entry 0 e t, ks2)"
    by (rule line_invI [OF shared_ok_entry [OF D(1) t(2) b1p(1)] ks2(1)]) (use t(3) ks2(2) D(6) in simp)
  ultimately show ?thesis using ks2(2) by simp
qed

subsection \<open>The shared cache is a parent in the sense of the contract\<close>

definition kid_ok :: "nat \<Rightarrow> nat \<Rightarrow> BCC \<Rightarrow> lsys \<Rightarrow> bool" where
  "kid_ok n l kb s \<longleftrightarrow> l = 0 \<and> b_ident kb < n \<and> line_inv n (with_kid kb s)"

lemma coherent_silent:
  assumes "coherent n e p f" "c < n" "f c = E"
  shows "coherent n e p (f(c := M))"
  by (rule coherentI) (use coherentD [OF assms(1)] assms(2,3) in \<open>auto split: if_splits\<close>)

lemma kid_replace:
  assumes "kid_ok n l kb (b, t, ks)" "b_ident kb' = b_ident kb" "selfId kb' = selfId kb" "bcc_line 0 kb'"
    and "b_array kb' ! 0 = b_array kb ! 0 \<or> b_array kb ! 0 = E \<and> b_array kb' ! 0 = M"
  shows "kid_ok n l kb' (b, t, ks)"
proof -
  let ?c = "b_ident kb"
  note D = line_invD [of n b t "ks[?c := kb]"]
  have inv: "line_inv n (b, t, ks[?c := kb])" and c: "?c < n" using assms(1) by (auto simp: kid_ok_def with_kid_def)
  have len: "?c < length ks" using D(2) [OF inv] c by (simp add: kids_ok_def)
  have self: "selfId kb = ?c" using D(2) [OF inv] c len by (auto simp: kids_ok_def)
  have up: "ks[?c := kb'] = (ks[?c := kb])[?c := kb']" by simp
  have "kids_ok n (ks[?c := kb'])"
    unfolding up by (rule kids_ok_update [OF D(2) [OF inv]]) (use assms(2-4) self in auto)
  moreover have st: "kst (ks[?c := kb']) = (kst (ks[?c := kb]))(?c := b_array kb' ! 0)"
    using len by (auto simp: fun_eq_iff kst_update)
  have "coherent n (t_array t ! 0) (b_array b ! 0) (kst (ks[?c := kb']))"
  proof (cases "b_array kb' ! 0 = b_array kb ! 0")
    case True
    have "kst (ks[?c := kb']) = kst (ks[?c := kb])" unfolding st True using len by (simp add: fun_eq_iff kst_update)
    with D(3) [OF inv] show ?thesis by simp
  next
    case False
    with assms(5) have "b_array kb ! 0 = E" "b_array kb' ! 0 = M" by auto
    with coherent_silent [OF D(3) [OF inv] c] len show ?thesis unfolding st by (simp add: kst_update)
  qed
  ultimately show ?thesis using D(1) [OF inv] c assms(1,2) by (simp add: kid_ok_def with_kid_def line_inv_def)
qed

lemma kid_ok_req:
  assumes "kid_ok n l kb (b, t, ks)"
  shows "kid_req (b_ident kb) ty fl (bcc_req kb a ty l cyc src fl) (ks[b_ident kb := kb])"
    "kst (ks[b_ident kb := kb]) (b_ident kb) = b_array kb ! l" "l = 0" "b_ident kb < n"
    "line_inv n (b, t, ks[b_ident kb := kb])" "bcc_line 0 kb"
proof -
  show inv: "line_inv n (b, t, ks[b_ident kb := kb])" "l = 0" "b_ident kb < n"
    using assms by (auto simp: kid_ok_def with_kid_def)
  have k: "kids_ok n (ks[b_ident kb := kb])" using line_invD(2) [OF inv(1)] .
  then have len: "b_ident kb < length ks" using inv(3) by (simp add: kids_ok_def)
  then show "kst (ks[b_ident kb := kb]) (b_ident kb) = b_array kb ! l" using inv(2) by (simp add: kst_update)
  show "bcc_line 0 kb" "kid_req (b_ident kb) ty fl (bcc_req kb a ty l cyc src fl) (ks[b_ident kb := kb])"
    using k len inv by (auto simp: kids_ok_def kid_req_def bcc_req_def kst_update nth_list_update split: if_splits)
qed

lemma kid_ok_back:
  assumes "line_inv n s" "c < n"
  shows "kid_ok n 0 (snd (snd s) ! c) s" "b_ident (snd (snd s) ! c) = c"
proof -
  obtain b t ks where s: "s = (b, t, ks)" by (cases s)
  with line_invD(2) assms have k: "kids_ok n ks" by blast
  then show id: "b_ident (snd (snd s) ! c) = c" using assms(2) s by (simp add: kids_ok_def)
  show "kid_ok n 0 (snd (snd s) ! c) s" using assms s id by (simp add: kid_ok_def with_kid_def)
qed

lemma kid_up_access:
  assumes "shared_access z req (with_kid kb s) = Some (r, s')"
  shows "up_access (kid_up z) p req (kb, s) = Some (r, snd (snd s') ! b_ident kb, s')"
  using assms by (simp add: kid_up_def)

interpretation kid: mem_object "kid_up z" "\<lambda>l b s. memLat z > 0 \<and> kid_ok n l b s \<and> b_ident b = c" for z n c
proof unfold_locales
  fix l b and s :: lsys and f ty fl p a cyc src
  obtain pb t ks where s: "s = (pb, t, ks)" by (cases s)
  assume "memLat z > 0 \<and> kid_ok n l b s \<and> b_ident b = c"
  then have lat: "memLat z > 0" and ok: "kid_ok n l b (pb, t, ks)" and id: "b_ident b = c" using s by auto
  note R = kid_ok_req [OF ok]
  show "\<not> isL2 b \<and> l < length (b_array b)" using R(3,6) by (simp add: bcc_line_def)
  show "memLat z > 0 \<and> kid_ok n l (bump f b) s \<and> b_ident (bump f b) = c"
    unfolding s using lat id kid_replace [OF ok, of "bump f b"] R(6) by (simp add: bcc_line_def)
  show "memLat z > 0 \<and> kid_ok n l (set_st l M b) s \<and> b_ident (set_st l M b) = c" if "b_array b ! l = E"
    unfolding s using lat id kid_replace [OF ok, of "set_st l M b"] R(3,6) that by (simp add: bcc_line_def)
  have ret: "(\<exists>r b' w'. up_access (kid_up z) p req (b, s) = Some (r, b', w')
        \<and> (memLat z > 0 \<and> kid_ok n l b' w' \<and> b_ident b' = c) \<and> P (b_array b' ! l))"
    if ex: "\<exists>r s'. shared_access z req (pb, t, ks[b_ident b := b]) = Some (r, s') \<and> line_inv n s' \<and> P (kst (snd (snd s')) (b_ident b))"
    for req P
  proof -
    obtain r s' where s': "shared_access z req (with_kid b s) = Some (r, s')" "line_inv n s'"
        "P (kst (snd (snd s')) (b_ident b))" using ex s by (auto simp: with_kid_def)
    from kid_up_access [OF s'(1)] kid_ok_back [OF s'(2) R(4)] s'(3) R(3) lat id show ?thesis
      by (auto simp: kst_def kid_up_def)
  qed
  show "\<exists>r b' w'. up_access (kid_up z) p (bcc_req b a ty l cyc src fl) (b, s) = Some (r, b', w')
      \<and> (memLat z > 0 \<and> kid_ok n l b' w' \<and> b_ident b' = c) \<and> (ty = GETS \<longrightarrow> b_array b' ! l \<in> {S, E}) \<and> (ty = GETX \<longrightarrow> b_array b' ! l = M)"
    if "ty = GETS \<and> b_array b ! l = I \<or> ty = GETX \<and> b_array b ! l \<in> {I, S}" "\<not> is_flag fl PREFETCH"
    by (rule ret [where P = "\<lambda>x. (ty = GETS \<longrightarrow> x \<in> {S, E}) \<and> (ty = GETX \<longrightarrow> x = M)"])
      (rule shared_get [OF R(5,4) _ that(2) R(1) lat], use that(1) R(2) in simp)
  show "\<exists>r b' w'. up_access (kid_up z) p (bcc_req b a ty l cyc src 0) (b, s) = Some (r, b', w')
      \<and> (memLat z > 0 \<and> kid_ok n l b' w' \<and> b_ident b' = c) \<and> b_array b' ! l = I"
    if "b_array b ! l \<noteq> I" "ty = (if b_array b ! l = M then PUTX else PUTS)"
    by (rule ret [where P = "\<lambda>x. x = I"]) (rule shared_put [OF R(5,4) _ _ R(1)], use that R(2) in simp_all)
qed (simp add: kid_up_def)

subsection \<open>Every step succeeds and keeps the invariant\<close>

lemma with_kid_inv:
  assumes "kid_ok n 0 kb s" "b_ident kb = c"
  shows "line_inv n (with_kid kb s)" "kst (snd (snd (with_kid kb s))) c = b_array kb ! 0"
proof -
  obtain b t ks where s: "s = (b, t, ks)" by (cases s)
  show "line_inv n (with_kid kb s)" using assms(1) by (simp add: kid_ok_def)
  show "kst (snd (snd (with_kid kb s))) c = b_array kb ! 0"
    using kid_ok_req(2) [of n 0 kb b t ks] assms s by (simp add: with_kid_def)
qed

lemma kid_get_total:
  assumes inv: "line_inv n s" and c: "c < n" and ty: "ty = GETS \<or> ty = GETX" and fl: "\<not> is_flag fl PREFETCH"
    and lat: "memLat z > 0"
  shows "\<exists>r s'. kid_get z c ty a cyc fl s = Some (r, s') \<and> line_inv n s' \<and> cyc \<le> r
    \<and> kst (snd (snd s')) c \<noteq> I \<and> (ty = GETX \<longrightarrow> kst (snd (snd s')) c = M)"
proof -
  let ?kb = "snd (snd s) ! c"
  note ok = kid_ok_back [OF inv c]
  obtain r kb s' where r: "bcc_processAccess (kid_up z) a 0 ty cyc c fl (?kb, s) = Some (r, kb, s')"
      "kid_ok n 0 kb s'" "b_ident kb = c" "cyc \<le> r" "b_array kb ! 0 \<noteq> I" "ty = GETX \<longrightarrow> b_array kb ! 0 = M"
    using kid.access_total [of z n 0 ?kb s c ty fl a cyc c] ok lat ty fl by auto
  then show ?thesis using with_kid_inv [OF r(2,3)]
    by (auto simp: kid_get_def Terminal_processAccess_def Let_def)
qed

lemma kid_evict_total:
  assumes inv: "line_inv n s" and c: "c < n" and lat: "memLat z > 0"
  shows "\<exists>r s'. kid_evict z c a cyc s = Some (r, s') \<and> line_inv n s' \<and> kst (snd (snd s')) c = I"
proof -
  let ?kb = "snd (snd s) ! c"
  note ok = kid_ok_back [OF inv c]
  obtain r kb s' where r: "bcc_processEviction (kid_up z) a 0 False cyc c (?kb, s) = Some (r, kb, s')"
      "kid_ok n 0 kb s'" "b_ident kb = c" "b_array kb ! 0 = I"
    using kid.eviction_total [of z n 0 ?kb s c a cyc c] ok lat by auto
  then show ?thesis using with_kid_inv [OF r(2,3)] by (auto simp: kid_evict_def)
qed

lemma shared_send_inv:
  assumes inv: "line_inv n (b, t, ks)"
  obtains cyc' wb e ks' where
    "tcc_sendInvalidates (kid_down z) a 0 INV False cyc src (t, ks) = Some (cyc', wb, set_entry 0 e t, ks')"
    "entry_wf n e" "kids_ok n ks'" "wb \<Longrightarrow> b_array b ! 0 \<in> {E, M}" "\<And>p. coherent n e p (kst ks')"
    "\<forall>c < n. kst ks' c = I"
proof -
  note D = line_invD [OF inv]
  note C = coherentD [OF D(3)]
  have b1: "\<forall>c < n. sharers_bits (t_array t ! 0) ! c \<longrightarrow> kst ks c \<noteq> I" using C(2) by simp
  have b2: "\<forall>c < n. sharers_bits (t_array t ! 0) ! c \<longrightarrow> kst ks c \<in> {E, M}" if "Entry_isExclusive (t_array t ! 0)"
    using C(2,3) that by blast
  obtain cyc' wb e ks' where send:
      "tcc_sendInvalidates (kid_down z) a 0 INV False cyc src (t, ks) = Some (cyc', wb, set_entry 0 e t, ks')"
      "entry_wf n e" "kids_ok n ks'" "wb \<Longrightarrow> \<exists>c < n. sharers_bits (t_array t ! 0) ! c \<and> kst ks c = M"
      "numSharers e = 0" "\<forall>c < n. kst ks' c = (if sharers_bits (t_array t ! 0) ! c then I else kst ks c)"
    by (rule kid_send [OF D(5-7,2) _ b1 b2, of INV z a False cyc src]) auto
  have all: "\<forall>c < n. kst ks' c = I" using send(6) C(2) by auto
  have "coherent n e p (kst ks')" for p
    using coherent_empty [OF send(2,5)] by (rule coherent_cong) (use all in simp)
  moreover have "wb \<Longrightarrow> b_array b ! 0 \<in> {E, M}" using send(4) C(5) by blast
  ultimately show thesis using that send(1-3) all by blast
qed

lemma bcc_evict_writeback:
  assumes "bcc_line l b" "wb \<Longrightarrow> b_array b ! l \<in> {E, M}"
  shows "bcc_processEviction u a l wb cyc src (b, w)
    = bcc_processEviction u a l False cyc src (if wb then set_st l M b else b, w)"
  using assms by (auto simp: bcc_processEviction_def Let_def bcc_line_def)

lemma shared_evict_total:
  assumes inv: "line_inv n (b, t, ks)" and lat: "memLat z > 0"
  shows "\<exists>r s'. shared_evict z req a cyc (b, t, ks) = Some (r, s') \<and> line_inv n s'
    \<and> b_array (fst s') ! 0 = I \<and> (\<forall>c < n. kst (snd (snd s')) c = I)"
proof -
  note D = line_invD [OF inv]
  obtain cyc' wb e ks' where send:
      "tcc_sendInvalidates (kid_down z) a 0 INV False cyc (r_srcId req) (t, ks) = Some (cyc', wb, set_entry 0 e t, ks')"
      "entry_wf n e" "kids_ok n ks'" "wb \<Longrightarrow> b_array b ! 0 \<in> {E, M}" "\<And>p. coherent n e p (kst ks')"
      "\<forall>c < n. kst ks' c = I"
    using shared_send_inv [OF inv] by metis
  let ?b = "if wb then set_st 0 M b else b" and ?w = "(set_entry 0 e t, ks')"
  obtain lat' where lat': "memLat z = Suc lat'" using lat by (cases "memLat z") auto
  have "bcc_line 0 ?b" using D(4) by (simp add: bcc_line_def)
  then obtain r b' where b': "bcc_processEviction (mem_up (memLat z)) a 0 False cyc' (r_srcId req) (?b, ?w) = Some (r, b', ?w)"
      "bcc_line 0 b'" "b_array b' ! 0 = I"
    using mem.eviction_total [of 0 ?b ?w ?w lat' a cyc' "r_srcId req"] lat' by auto
  then have "shared_evict z req a cyc (b, t, ks) = Some (r, b', ?w)"
    using send(1) D(8) bcc_evict_writeback [OF D(4), of wb "mem_up (memLat z)" a cyc' "r_srcId req" ?w] send(4)
    by (simp add: shared_evict_def MESICC_processEviction_def tcc_processEviction_def)
  moreover have "line_inv n (b', ?w)"
    by (rule line_invI [OF shared_ok_entry [OF D(1) send(2) b'(2)] send(3)]) (use send(5) D(6) in simp)
  ultimately show ?thesis using b'(3) send(6) by auto
qed

lemma shared_inv_total:
  assumes inv: "line_inv n (b, t, ks)"
    and ty: "i_type req = INV \<and> b_array b ! 0 \<noteq> I \<or> i_type req = INVX \<and> b_array b ! 0 \<in> {E, M}"
  shows "\<exists>r wb s'. shared_inv z req cyc (b, t, ks) = Some (r, wb, s') \<and> line_inv n s'
    \<and> b_array (fst s') ! 0 = (if i_type req = INV then I else S)"
proof (cases "i_type req = INV")
  case True
  note D = line_invD [OF inv]
  obtain cyc' wb e ks' where send:
      "tcc_sendInvalidates (kid_down z) (i_lineAddr req) 0 INV False cyc (i_srcId req) (t, ks)
         = Some (cyc', wb, set_entry 0 e t, ks')"
      "entry_wf n e" "kids_ok n ks'" "\<And>p. coherent n e p (kst ks')"
    using shared_send_inv [OF inv] by metis
  let ?b = "bump (\<lambda>p. p\<lparr>profINV := Suc (profINV p)\<rparr>) (set_st 0 I b)"
  have "shared_inv z req cyc (b, t, ks) = Some (cyc', wb \<or> b_array b ! 0 = M, ?b, set_entry 0 e t, ks')"
    using send(1) True ty by (simp add: shared_inv_def MESICC_processInv_def tcc_processInval_def bcc_processInval_def Let_def)
  moreover have "bcc_line 0 ?b" "b_array ?b ! 0 = I" using D(4) by (auto simp: bcc_line_def)
  moreover from this have "line_inv n (?b, set_entry 0 e t, ks')"
    by (intro line_invI [OF shared_ok_entry [OF D(1) send(2)] send(3)]) (use send(4) D(6) in auto)
  ultimately show ?thesis using True by auto
next
  case False
  with ty have x: "i_type req = INVX" "b_array b ! 0 \<in> {E, M}" by auto
  note D = line_invD [OF inv]
  note C = coherentD [OF D(3)]
  have b1: "\<forall>c < n. sharers_bits (t_array t ! 0) ! c \<longrightarrow> kst ks c \<noteq> I" using C(2) by simp
  have b2: "\<forall>c < n. sharers_bits (t_array t ! 0) ! c \<longrightarrow> kst ks c \<in> {E, M}" if "Entry_isExclusive (t_array t ! 0)"
    using C(2,3) that by blast
  obtain cyc' wb e ks' where send:
      "tcc_sendInvalidates (kid_down z) (i_lineAddr req) 0 INVX False cyc (i_srcId req) (t, ks)
         = Some (cyc', wb, set_entry 0 e t, ks')"
      "entry_wf n e" "kids_ok n ks'" "\<not> Entry_isExclusive e" "sharers_bits e = sharers_bits (t_array t ! 0)"
      "\<forall>c < n. kst ks' c = (if sharers_bits (t_array t ! 0) ! c \<and> Entry_isExclusive (t_array t ! 0) then S else kst ks c)"
    by (rule kid_send [OF D(5-7,2) _ b1 b2, of INVX z "i_lineAddr req" False cyc "i_srcId req"]) auto
  let ?b = "bump (\<lambda>p. p\<lparr>profINVX := Suc (profINVX p)\<rparr>) (set_st 0 S b)"
  have "shared_inv z req cyc (b, t, ks) = Some (cyc', wb \<or> b_array b ! 0 = M, ?b, set_entry 0 e t, ks')"
    using send(1) x by (auto simp: shared_inv_def MESICC_processInv_def tcc_processInval_def bcc_processInval_def Let_def)
  moreover have bl: "bcc_line 0 ?b" "b_array ?b ! 0 = S" using D(4) by (auto simp: bcc_line_def)
  moreover have st: "(kst ks' c \<noteq> I \<longleftrightarrow> kst ks c \<noteq> I) \<and> kst ks' c \<notin> {E, M}" if "c < n" for c
    using send(6) that C(2,3) [OF that] by (cases "kst ks c") auto
  have "coherent n e (b_array ?b ! 0) (kst ks')"
    by (rule coherentI) (use send(2,4,5) st C(2) bl(2) in auto)
  then have "line_inv n (?b, set_entry 0 e t, ks')"
    by (intro line_invI [OF shared_ok_entry [OF D(1) send(2) bl(1)] send(3)]) (use D(6) in simp)
  ultimately show ?thesis using False by auto
qed

subsection \<open>Reachable states\<close>

lemma line_init_inv:
  assumes "n \<le> MAX_CACHE_CHILDREN" "length rtts = n"
  shows "line_inv n (line_init n rtts)"
proof -
  have e: "entry_wf n Entry_clear" by (rule entry_wf_clear [OF assms(1)])
  have "coherent n Entry_clear I (\<lambda>_. I)" by (rule coherent_empty [OF e]) (simp add: Entry_clear_def)
  then have "coherent n Entry_clear I (kst (map (\<lambda>c. BCC_new 1 c False c) [0..<n]))"
    by (rule coherent_cong) (simp add: kst_def BCC_new_def)
  then show ?thesis using assms e
    by (simp add: line_inv_def line_init_def shared_ok_def kids_ok_def bcc_line_def BCC_new_def TCC_new_def tcc_wf_def)
qed

lemma line_step_inv:
  assumes "line_step z s s'" "line_inv n s" "memLat z > 0"
  shows "line_inv n s'"
proof -
  obtain b t ks where s: "s = (b, t, ks)" by (cases s)
  have len: "length (snd (snd s)) = n" using line_invD(2) assms(2) s by (auto simp: kids_ok_def)
  from assms(1) show ?thesis
  proof cases
    case (step_get c ty fl a cyc r)
    then show ?thesis using kid_get_total [OF assms(2) _ _ _ assms(3), of c ty fl a cyc] len by auto
  next
    case (step_put c a cyc r)
    then show ?thesis using kid_evict_total [OF assms(2) _ assms(3), of c a cyc] len by auto
  next
    case (step_evict req a cyc r)
    then show ?thesis using shared_evict_total [of n b t ks z req a cyc] assms(2,3) s by auto
  next
    case (step_inv req cyc r wb)
    then show ?thesis using shared_inv_total [of n b t ks req z cyc] assms(2) s by auto
  qed
qed

lemma line_reach_inv:
  assumes "(line_step z)\<^sup>*\<^sup>* s s'" "line_inv n s" "memLat z > 0"
  shows "line_inv n s'"
  using assms by (induction rule: rtranclp_induct) (auto intro: line_step_inv)

subsection \<open>Properties\<close>

text \<open>C1: single writer, multiple readers. In every reachable state of the hierarchy, when a child holds the line
  exclusively (E or M) no other child holds it at all, and the shared cache holds every line a child holds, with
  exclusive rights if the child has them.\<close>

theorem single_writer:
  assumes "n \<le> MAX_CACHE_CHILDREN" "length rtts = n" "memLat z > 0"
    and "(line_step z)\<^sup>*\<^sup>* (line_init n rtts) (b, t, ks)"
  shows "\<forall>c < n. (kst ks c \<in> {E, M} \<longrightarrow> (\<forall>d < n. d \<noteq> c \<longrightarrow> kst ks d = I) \<and> b_array b ! 0 \<in> {E, M})
    \<and> (kst ks c \<noteq> I \<longrightarrow> b_array b ! 0 \<noteq> I)"
proof -
  have inv: "line_inv n (b, t, ks)" by (rule line_reach_inv [OF assms(4) line_init_inv [OF assms(1,2)] assms(3)])
  note C = line_invD(3) [OF inv]
  show ?thesis using coherent_swmr [OF C] coherentD [OF C] by blast
qed

definition sample_lat :: lat_cfg where
  "sample_lat = \<lparr>memLat = 100, accLat = 10, invLat = 5\<rparr>"

theorem single_writer_witness:
  "\<exists>b t ks. (line_step sample_lat)\<^sup>*\<^sup>* (line_init 2 [4, 4]) (b, t, ks) \<and> kst ks 0 = M \<and> kst ks 1 = I
     \<and> b_array b ! 0 \<in> {E, M}"
proof -
  have n: "(2 :: nat) \<le> MAX_CACHE_CHILDREN" "length [4, 4 :: nat] = 2" "memLat sample_lat > 0"
    by (simp_all add: MAX_CACHE_CHILDREN_def sample_lat_def)
  have nf: "\<not> is_flag 0 PREFETCH" by (simp add: is_flag_def)
  obtain r b t ks where g: "kid_get sample_lat 0 GETX 7 100 0 (line_init 2 [4, 4]) = Some (r, b, t, ks)" "kst ks 0 = M"
    using kid_get_total [OF line_init_inv [OF n(1,2)] _ _ nf n(3), of 0 GETX 7 100] by auto
  have "line_step sample_lat (line_init 2 [4, 4]) (b, t, ks)"
    by (rule step_get [OF _ _ nf g(1)]) (simp_all add: line_init_def)
  then have reach: "(line_step sample_lat)\<^sup>*\<^sup>* (line_init 2 [4, 4]) (b, t, ks)" by blast
  have "(0 :: nat) < 2" "(1 :: nat) < 2" by simp_all
  with single_writer [OF n reach] g(2) have "kst ks 1 = I" "b_array b ! 0 \<in> {E, M}" by (metis insertCI one_neq_zero)+
  with reach g(2) show ?thesis by blast
qed



end
