(* ===== verification/CacheOps.thy ===== *)
theory CacheOps
  imports Directory MemCtrls
begin

text \<open>
  The cache of \<^verbatim>\<open>src/src/cache.h\<close> and \<^verbatim>\<open>cache.cpp\<close>: the access sequence over a tag array and a coherence
  controller, the first-time-miss (FTM) delay of the last level, invalidations and refreshes, and the part of
  \<^verbatim>\<open>event_recorder.h\<close> an access uses.

  As in the code, a cache is written against the virtual methods of its array (\<open>array_ops\<close>) and of its controller
  (\<open>cc_ops\<close>); the state \<open>'s\<close> they act on is a parameter. The last-level cache of the development instantiates it
  with a set-associative array, a \<^verbatim>\<open>MESICC\<close> and the event recorders.
\<close>

subsection \<open>Event records\<close>

text \<open>A timing event is an opaque one of a lower level, or a delay event with its minimum start cycle and children.\<close>

datatype TimingEv = EvRef nat | DelayEv nat cycle "TimingEv list"

text \<open>\<^verbatim>\<open>DelayEvent::parentDone\<close> of an event with one parent: it wakes its children after its delay. The result lists
  the opaque events that are woken and when.\<close>

fun delay_wakes :: "cycle \<Rightarrow> TimingEv \<Rightarrow> (nat \<times> cycle) list" where
  "delay_wakes startCycle (EvRef n) = [(n, startCycle)]"
| "delay_wakes startCycle (DelayEv delay minStart children) = concat (map (delay_wakes (startCycle + delay)) children)"

record TimingRecord =
  tr_addr :: addr
  reqCycle :: cycle
  tr_respCycle :: cycle
  tr_type :: AccessType
  startEvent :: "TimingEv option"
  endEvent :: "TimingEv option"

definition tr_isValid :: "TimingRecord \<Rightarrow> bool" where
  "tr_isValid tr \<longleftrightarrow> startEvent tr \<noteq> None"

definition tr_clear :: "TimingRecord \<Rightarrow> TimingRecord" where
  "tr_clear tr = tr\<lparr>startEvent := None\<rparr>"

record EventRecorder =
  er_tr :: TimingRecord
  lastGapCycles :: cycle
  lastStartSlack :: cycle
  er_srcId :: nat

definition pushRecord :: "TimingRecord \<Rightarrow> EventRecorder \<Rightarrow> EventRecorder option" where
  "pushRecord rec er = do {
     assert_that (\<not> tr_isValid (er_tr er));
     let er1 = er\<lparr>er_tr := rec\<rparr>;
     assert_that (tr_isValid (er_tr er1));
     Some er1 }"

definition popRecord :: "EventRecorder \<Rightarrow> TimingRecord \<times> EventRecorder" where
  "popRecord er = (er_tr er, er\<lparr>er_tr := tr_clear (er_tr er)\<rparr>)"

definition hasRecord :: "EventRecorder \<Rightarrow> bool" where
  "hasRecord er = tr_isValid (er_tr er)"

definition getSlack :: "cycle \<Rightarrow> EventRecorder \<Rightarrow> cycle" where
  "getSlack origStartCycle er = origStartCycle + lastStartSlack er"

definition setGapCycles :: "cycle \<Rightarrow> EventRecorder \<Rightarrow> EventRecorder" where
  "setGapCycles gap er = er\<lparr>lastGapCycles := gap\<rparr>"

definition setStartSlack :: "cycle \<Rightarrow> EventRecorder \<Rightarrow> EventRecorder" where
  "setStartSlack slack er = (if lastStartSlack er \<noteq> slack then er\<lparr>lastStartSlack := slack\<rparr> else er)"

text \<open>The record of a writeback is taken out before the access proper; afterwards it is put back, or joined with the
  record of the access under a common start event.\<close>

definition take_wb :: "EventRecorder option \<Rightarrow> TimingRecord option \<times> EventRecorder option" where
  "take_wb evRec = (case evRec of
       None \<Rightarrow> (None, None)
     | Some er \<Rightarrow> if hasRecord er then (let (r, er') = popRecord er in (Some r, Some er')) else (None, Some er))"

definition stitch :: "cycle \<Rightarrow> TimingRecord option \<Rightarrow> EventRecorder option \<Rightarrow> EventRecorder option option" where
  "stitch cyc wbAccOpt evRec = (case wbAccOpt of
       None \<Rightarrow> Some evRec
     | Some wbAcc \<Rightarrow>
         if \<not> tr_isValid wbAcc then Some evRec
         else do {
           er \<leftarrow> evRec;
           if \<not> hasRecord er then map_option Some (pushRecord (wbAcc\<lparr>endEvent := None\<rparr>) er)
           else do {
             let (acc, er1) = popRecord er;
             assert_that (reqCycle wbAcc \<ge> cyc);
             assert_that (reqCycle acc \<ge> cyc);
             let dWbEv = DelayEv (reqCycle wbAcc - cyc) cyc [the (startEvent wbAcc)];
             let dAccEv = DelayEv (reqCycle acc - cyc) cyc [the (startEvent acc)];
             let startEv = DelayEv 0 cyc [dWbEv, dAccEv];
             map_option Some (pushRecord (acc\<lparr>reqCycle := cyc, startEvent := Some startEv\<rparr>) er1) } })"

subsection \<open>The cache\<close>

record 's array_ops =
  ar_lookup :: "addr \<Rightarrow> MemReq option \<Rightarrow> bool \<Rightarrow> 's \<Rightarrow> (nat option \<times> 's) option"
  ar_preinsert :: "addr \<Rightarrow> MemReq \<Rightarrow> 's \<Rightarrow> (nat \<times> addr \<times> 's) option"
  ar_postinsert :: "addr \<Rightarrow> MemReq \<Rightarrow> nat \<Rightarrow> 's \<Rightarrow> 's option"

record 's cc_ops =
  cc_startAccess :: "MemReq \<Rightarrow> 's \<Rightarrow> (bool \<times> MemReq) option"
  cc_startSkewAccess :: "MemReq \<Rightarrow> 's \<Rightarrow> (bool \<times> MemReq) option"
  cc_shouldAllocate :: "MemReq \<Rightarrow> bool option"
  cc_processEviction :: "MemReq \<Rightarrow> addr \<Rightarrow> nat \<Rightarrow> cycle \<Rightarrow> 's \<Rightarrow> (cycle \<times> 's) option"
  cc_processAccess :: "MemReq \<Rightarrow> nat option \<Rightarrow> cycle \<Rightarrow> 's \<Rightarrow> (cycle \<times> 's) option"
  cc_processInv :: "InvReq \<Rightarrow> nat \<Rightarrow> cycle \<Rightarrow> 's \<Rightarrow> (cycle \<times> bool \<times> 's) option"
  cc_processRefr :: "addr \<Rightarrow> nat \<Rightarrow> 's \<Rightarrow> 's option"
  cc_checkSameOwner :: "addr \<Rightarrow> nat \<Rightarrow> nat \<Rightarrow> 's \<Rightarrow> bool"
  cc_prof :: "(Prof \<Rightarrow> Prof) \<Rightarrow> 's \<Rightarrow> 's"

record 's recorders =
  rec_get :: "nat \<Rightarrow> 's \<Rightarrow> EventRecorder option"
  rec_put :: "nat \<Rightarrow> EventRecorder option \<Rightarrow> 's \<Rightarrow> 's"

record cache_cfg =
  c_accLat :: nat
  c_invLat :: nat
  c_isLLC :: bool
  ftmEnable :: bool
  ftmTypeFlag :: u32

definition cache_checkSkew :: "'s array_ops \<Rightarrow> MemReq \<Rightarrow> 's \<Rightarrow> nat option option" where
  "cache_checkSkew ar req s = map_option fst (ar_lookup ar (r_lineAddr req) (Some req) False s)"

text \<open>The common part of \<^verbatim>\<open>access\<close> and \<^verbatim>\<open>accessSkew\<close> after the race check: lookup, allocation, the ownership test of
  FTM (only \<^verbatim>\<open>accessSkew\<close>, on a hit of a GET in the last level), the access and the event records. It gives the
  response cycle and \<^verbatim>\<open>sameOwner\<close>.\<close>

definition cache_fetch ::
  "cache_cfg \<Rightarrow> 's array_ops \<Rightarrow> 's cc_ops \<Rightarrow> MemReq \<Rightarrow> 's \<Rightarrow> (nat option \<times> bool \<times> cycle \<times> 's) option" where
  "cache_fetch z ar cc req s = do {
     let updateReplacement = (r_type req = GETS \<or> r_type req = GETX);
     (lineId, s1) \<leftarrow> ar_lookup ar (r_lineAddr req) (Some req) updateReplacement s;
     let respCycle = r_cycle req + c_accLat z;
     alloc \<leftarrow> (if lineId = None then cc_shouldAllocate cc req else Some False);
     if alloc then do {
       (newId, wbLineAddr, s2) \<leftarrow> ar_preinsert ar (r_lineAddr req) req s1;
       (_, s3) \<leftarrow> cc_processEviction cc req wbLineAddr newId respCycle s2;
       s4 \<leftarrow> ar_postinsert ar (r_lineAddr req) req newId s3;
       Some (Some newId, False, respCycle, s4) }
     else Some (lineId, True, respCycle, s1) }"

definition cache_record ::
  "'s cc_ops \<Rightarrow> 's recorders \<Rightarrow> MemReq \<Rightarrow> nat option \<Rightarrow> cycle \<Rightarrow> 's \<Rightarrow> (cycle \<times> 's) option" where
  "cache_record cc rc req lineId respCycle s = do {
     let (wbAcc, evRec) = take_wb (rec_get rc (r_srcId req) s);
     let s1 = rec_put rc (r_srcId req) evRec s;
     (resp, s2) \<leftarrow> cc_processAccess cc req lineId respCycle s1;
     evRec' \<leftarrow> stitch (r_cycle req) wbAcc (rec_get rc (r_srcId req) s2);
     Some (resp, rec_put rc (r_srcId req) evRec' s2) }"

definition cache_access ::
  "cache_cfg \<Rightarrow> 's array_ops \<Rightarrow> 's cc_ops \<Rightarrow> 's recorders \<Rightarrow> MemReq \<Rightarrow> 's \<Rightarrow> (cycle \<times> 's) option" where
  "cache_access z ar cc rc req0 s = do {
     (skipAccess, req) \<leftarrow> cc_startAccess cc req0 s;
     (respCycle, s') \<leftarrow>
       (if skipAccess then Some (r_cycle req, s)
        else do {
          (lineId, _, resp, s1) \<leftarrow> cache_fetch z ar cc req s;
          cache_record cc rc req lineId resp s1 });
     assert_that (respCycle \<ge> r_cycle req);
     Some (respCycle, s') }"

subsection \<open>First-time misses\<close>

definition has_bit :: "u32 \<Rightarrow> nat \<Rightarrow> bool" where
  "has_bit fl i \<longleftrightarrow> fl AND push_bit i 1 \<noteq> 0"

text \<open>The counter a flag bit selects.\<close>

definition ftm_counters :: "(nat \<times> (Prof \<Rightarrow> Prof)) list" where
  "ftm_counters =
    [(9, \<lambda>p. p\<lparr>profIcacheFirstTimeMiss := Suc (profIcacheFirstTimeMiss p)\<rparr>),
     (10, \<lambda>p. p\<lparr>profDcacheFirstTimeMiss := Suc (profDcacheFirstTimeMiss p)\<rparr>),
     (8, \<lambda>p. p\<lparr>profRXPFirstTimeMiss := Suc (profRXPFirstTimeMiss p)\<rparr>),
     (11, \<lambda>p. p\<lparr>profRPFirstTimeMiss := Suc (profRPFirstTimeMiss p)\<rparr>),
     (7, \<lambda>p. p\<lparr>profRWPFirstTimeMiss := Suc (profRWPFirstTimeMiss p)\<rparr>),
     (12, \<lambda>p. p\<lparr>profRWXPFirstTimeMiss := Suc (profRWXPFirstTimeMiss p)\<rparr>),
     (13, \<lambda>p. p\<lparr>profBinaryFirstTimeMiss := Suc (profBinaryFirstTimeMiss p)\<rparr>),
     (14, \<lambda>p. p\<lparr>profHeapFirstTimeMiss := Suc (profHeapFirstTimeMiss p)\<rparr>),
     (15, \<lambda>p. p\<lparr>profSLFirstTimeMiss := Suc (profSLFirstTimeMiss p)\<rparr>),
     (16, \<lambda>p. p\<lparr>profMMAPFirstTimeMiss := Suc (profMMAPFirstTimeMiss p)\<rparr>),
     (17, \<lambda>p. p\<lparr>profSTACKFirstTimeMiss := Suc (profSTACKFirstTimeMiss p)\<rparr>),
     (18, \<lambda>p. p\<lparr>profVVARFirstTimeMiss := Suc (profVVARFirstTimeMiss p)\<rparr>),
     (19, \<lambda>p. p\<lparr>profVDSOFirstTimeMiss := Suc (profVDSOFirstTimeMiss p)\<rparr>),
     (20, \<lambda>p. p\<lparr>profVSYSCALLFirstTimeMiss := Suc (profVSYSCALLFirstTimeMiss p)\<rparr>)]"

definition ftm_prof :: "u32 \<Rightarrow> Prof \<Rightarrow> Prof" where
  "ftm_prof fl p = foldl (\<lambda>q (i, inc). if has_bit fl i then inc q else q)
     (p\<lparr>profFirstTimeMiss := Suc (profFirstTimeMiss p)\<rparr>) ftm_counters"

definition updateFTMStats :: "'s cc_ops \<Rightarrow> MemReq \<Rightarrow> 's \<Rightarrow> 's" where
  "updateFTMStats cc req s = cc_prof cc (ftm_prof (r_flags req)) s"

text \<open>The last lines of \<^verbatim>\<open>accessSkew\<close>. The condition of the delay tests bit 11 twice.\<close>

definition ftm_finish :: "cache_cfg \<Rightarrow> 's cc_ops \<Rightarrow> MemReq \<Rightarrow> bool \<Rightarrow> cycle \<Rightarrow> 's \<Rightarrow> cycle \<times> 's" where
  "ftm_finish z cc req sameOwner respCycle s =
     (if ftmEnable z \<and> c_isLLC z \<and>
         (r_type req = GETS \<and> has_bit (ftmTypeFlag z) 0 \<or> r_type req = GETX \<and> has_bit (ftmTypeFlag z) 1) \<and>
         \<not> sameOwner
      then (if has_bit (r_flags req) 11 \<or> has_bit (r_flags req) 11 then respCycle + 200 else respCycle,
            updateFTMStats cc req s)
      else (respCycle, s))"

definition cache_accessSkew ::
  "cache_cfg \<Rightarrow> 's array_ops \<Rightarrow> 's cc_ops \<Rightarrow> 's recorders \<Rightarrow> MemReq \<Rightarrow> 's \<Rightarrow> (cycle \<times> 's) option" where
  "cache_accessSkew z ar cc rc req0 s = do {
     (skipAccess, req) \<leftarrow> cc_startSkewAccess cc req0 s;
     (respCycle, sameOwner, s') \<leftarrow>
       (if skipAccess then Some (r_cycle req, True, s)
        else do {
          (lineId, hit, resp, s1) \<leftarrow> cache_fetch z ar cc req s;
          sameOwner \<leftarrow> (if c_isLLC z \<and> hit \<and> (r_type req = GETS \<or> r_type req = GETX)
                        then map_option (\<lambda>i. cc_checkSameOwner cc (r_lineAddr req) i (r_srcId req) s1) lineId
                        else Some True);
          (resp2, s2) \<leftarrow> cache_record cc rc req lineId resp s1;
          Some (resp2, sameOwner, s2) });
     assert_that (respCycle \<ge> r_cycle req);
     Some (ftm_finish z cc req sameOwner respCycle s') }"

subsection \<open>Invalidations and refreshes\<close>

definition cache_finishInvalidate ::
  "cache_cfg \<Rightarrow> 's array_ops \<Rightarrow> 's cc_ops \<Rightarrow> InvReq \<Rightarrow> 's \<Rightarrow> (cycle \<times> bool \<times> 's) option" where
  "cache_finishInvalidate z ar cc req s = do {
     (lineIdOpt, s1) \<leftarrow> ar_lookup ar (i_lineAddr req) None False s;
     lineId \<leftarrow> lineIdOpt;
     cc_processInv cc req lineId (i_cycle req + c_invLat z) s1 }"

definition cache_finishRefresh :: "'s array_ops \<Rightarrow> 's cc_ops \<Rightarrow> addr \<Rightarrow> nat \<Rightarrow> 's \<Rightarrow> 's option" where
  "cache_finishRefresh ar cc lineAddr lineId s = do {
     (lineIdOpt, s1) \<leftarrow> ar_lookup ar lineAddr None False s;
     lineId_new \<leftarrow> lineIdOpt;
     cc_processRefr cc lineAddr lineId_new s1 }"

text \<open>\<^verbatim>\<open>processRefresh\<close> of a cache with a CEASER array: \<open>CEASER_tick\<close> with the controllers' part of the moves.\<close>

definition cache_processRefresh ::
  "'w down \<Rightarrow> nat \<times> CEASERArray \<times> BCC \<times> TCC \<times> 'w \<Rightarrow> (nat \<times> CEASERArray \<times> BCC \<times> TCC \<times> 'w) option" where
  "cache_processRefresh d st = (case st of (cur_set, a, b, t, w) \<Rightarrow>
     (if cur_set \<ge> ce_numSets a
      then Some (0, CEASER_resetSwitches (CEASER_switchHash a), b, t, w)
      else do { s' \<leftarrow> MESICC_processRefresh d cur_set (a, b, t, w); Some (Suc cur_set, s') }))"

end
