(* ===== verification/LastLevel.thy ===== *)
theory LastLevel
  imports CacheOps
begin

text \<open>
  The last-level cache: the access sequence of \<open>CacheOps\<close> over a set-associative array, a \<^verbatim>\<open>MESICC\<close> and the event
  recorders, and what the first-time-miss defence does there. The world behind the controllers holds the state
  cells the requests point to (\<^verbatim>\<open>MemReq::state\<close>) and the recorders of the cores (\<^verbatim>\<open>zinfo->eventRecorders\<close>); the calls
  to the parents and the children stay parameters.
\<close>

subsection \<open>The composition\<close>

record llc_world =
  w_cells :: "state_ref \<Rightarrow> MESIState"
  w_recs :: "nat \<Rightarrow> EventRecorder option"

record llc =
  l_array :: SetAssocArray
  l_bcc :: BCC
  l_tcc :: TCC
  l_world :: llc_world

definition llc_cells :: "llc_world cells" where
  "llc_cells = \<lparr>rd = \<lambda>r w. w_cells w r, wr = \<lambda>r st w. w\<lparr>w_cells := (w_cells w)(r := st)\<rparr>\<rparr>"

definition llc_array :: "part_cfg \<Rightarrow> llc array_ops" where
  "llc_array z =
     \<lparr>ar_lookup = \<lambda>ad rq up s. map_option (\<lambda>(i, a). (i, s\<lparr>l_array := a\<rparr>)) (SetAssoc_lookup z ad rq up (l_array s)),
      ar_preinsert = \<lambda>ad rq s. map_option (\<lambda>(i, wb, a). (i, wb, s\<lparr>l_array := a\<rparr>))
        (SetAssoc_preinsert z (MESICC_query (l_bcc s) (l_tcc s)) ad rq (l_array s)),
      ar_postinsert = \<lambda>ad rq i s. map_option (\<lambda>a. s\<lparr>l_array := a\<rparr>) (SetAssoc_postinsert ad rq i (l_array s))\<rparr>"

definition llc_put :: "llc \<Rightarrow> BCC \<times> TCC \<times> llc_world \<Rightarrow> llc" where
  "llc_put s btw = (case btw of (b, t, w) \<Rightarrow> s\<lparr>l_bcc := b, l_tcc := t, l_world := w\<rparr>)"

definition llc_parts :: "llc \<Rightarrow> BCC \<times> TCC \<times> llc_world" where
  "llc_parts s = (l_bcc s, l_tcc s, l_world s)"

definition llc_cc :: "(TCC \<times> llc_world) up \<Rightarrow> llc_world down \<Rightarrow> bool \<Rightarrow> llc cc_ops" where
  "llc_cc u d hack =
     \<lparr>cc_startAccess = \<lambda>rq s. MESICC_startAccess llc_cells rq (l_world s),
      cc_startSkewAccess = \<lambda>rq s. MESICC_startAccess llc_cells rq (l_world s),
      cc_shouldAllocate = MESICC_shouldAllocate hack,
      cc_processEviction = \<lambda>rq wb i cyc s. map_option (\<lambda>(c, btw). (c, llc_put s btw))
        (MESICC_processEviction u d rq wb i cyc (llc_parts s)),
      cc_processAccess = \<lambda>rq i cyc s. map_option (\<lambda>(c, btw). (c, llc_put s btw))
        (MESICC_processAccess u d llc_cells hack rq i cyc (llc_parts s)),
      cc_processInv = \<lambda>rq i cyc s. map_option (\<lambda>(c, wb, btw). (c, wb, llc_put s btw))
        (MESICC_processInv d rq i cyc (llc_parts s)),
      cc_processRefr = \<lambda>ad i s. map_option (llc_put s) (MESICC_processRefr d ad i (llc_parts s)),
      cc_checkSameOwner = \<lambda>ad i src s. tcc_checkSameOwner i src (l_tcc s),
      cc_prof = \<lambda>f s. s\<lparr>l_bcc := bump f (l_bcc s)\<rparr>\<rparr>"

definition llc_recorders :: "llc recorders" where
  "llc_recorders =
     \<lparr>rec_get = \<lambda>src s. w_recs (l_world s) src,
      rec_put = \<lambda>src r s. s\<lparr>l_world := (l_world s)\<lparr>w_recs := (w_recs (l_world s))(src := r)\<rparr>\<rparr>\<rparr>"

abbreviation llc_access where
  "llc_access c z u d hack \<equiv> cache_access c (llc_array z) (llc_cc u d hack) llc_recorders"

abbreviation llc_accessSkew where
  "llc_accessSkew c z u d hack \<equiv> cache_accessSkew c (llc_array z) (llc_cc u d hack) llc_recorders"

subsection \<open>Hits\<close>

definition ftm_active :: "cache_cfg \<Rightarrow> AccessType \<Rightarrow> bool" where
  "ftm_active c ty \<longleftrightarrow> ftmEnable c \<and> c_isLLC c \<and>
     (ty = GETS \<and> has_bit (ftmTypeFlag c) 0 \<or> ty = GETX \<and> has_bit (ftmTypeFlag c) 1)"

text \<open>What a first-time miss costs: 200 cycles for a line of a read-only page (flag bit 11), and the counters.\<close>

definition ftm_delay :: "u32 \<Rightarrow> nat" where
  "ftm_delay fl = (if has_bit fl 11 then 200 else 0)"

definition ftm_charge :: "u32 \<Rightarrow> cycle \<times> llc \<Rightarrow> cycle \<times> llc" where
  "ftm_charge fl rs = (fst rs + ftm_delay fl, (snd rs)\<lparr>l_bcc := bump (ftm_prof fl) (l_bcc (snd rs))\<rparr>)"

lemma lookup_find:
  assumes "SetAssoc_find z x a = Some (Some i)" "SetAssoc_lookup z x rq up a = Some (j, a')"
  shows "j = Some i"
  using assms by (auto simp: SetAssoc_find_def SetAssoc_lookup_def abort_simps split: option.splits if_splits)

lemma ftm_finish_alt:
  "ftm_finish c (llc_cc u d hack) req so r s =
     (if ftm_active c (r_type req) \<and> \<not> so then ftm_charge (r_flags req) (r, s) else (r, s))"
  by (auto simp: ftm_finish_def ftm_active_def ftm_charge_def ftm_delay_def updateFTMStats_def llc_cc_def)

lemma accessSkew_hit:
  assumes "MESICC_startAccess llc_cells req (l_world s) = Some (False, req)"
    and "SetAssoc_find z (r_lineAddr req) (l_array s) = Some (Some i)"
    and "r_type req = GETS \<or> r_type req = GETX" "c_isLLC c"
  shows "llc_accessSkew c z u d hack req s = do {
     (_, a1) \<leftarrow> SetAssoc_lookup z (r_lineAddr req) (Some req) True (l_array s);
     (r, s2) \<leftarrow> cache_record (llc_cc u d hack) llc_recorders req (Some i) (r_cycle req + c_accLat c) (s\<lparr>l_array := a1\<rparr>);
     assert_that (r \<ge> r_cycle req);
     Some (ftm_finish c (llc_cc u d hack) req (tcc_checkSameOwner i (r_srcId req) (l_tcc s)) r s2) }"
proof (cases "SetAssoc_lookup z (r_lineAddr req) (Some req) True (l_array s)")
  case None
  then show ?thesis using assms
    by (auto simp: cache_accessSkew_def llc_cc_def llc_array_def cache_fetch_def)
next
  case (Some ja)
  obtain a1 where "SetAssoc_lookup z (r_lineAddr req) (Some req) True (l_array s) = Some (Some i, a1)"
    using Some lookup_find [OF assms(2)] by (cases ja) auto
  then show ?thesis using assms
    by (cases "cache_record (llc_cc u d hack) llc_recorders req (Some i) (r_cycle req + c_accLat c) (s\<lparr>l_array := a1\<rparr>)")
      (auto simp: cache_accessSkew_def cache_fetch_def llc_cc_def llc_array_def)
qed

subsection \<open>A hit on a shared line\<close>

text \<open>The situation of a read that the last level serves alone: the line is resident and valid, no child holds it
  exclusively and the requester does not hold it.\<close>

definition rp_plain :: "ReplPolicy \<Rightarrow> bool" where
  "rp_plain p = (case p of RP_ProfViol _ \<Rightarrow> False | _ \<Rightarrow> True)"

definition at_rest :: "part_cfg \<Rightarrow> addr \<Rightarrow> nat \<Rightarrow> nat \<Rightarrow> state_ref \<Rightarrow> llc \<Rightarrow> bool" where
  "at_rest z x i k ref s \<longleftrightarrow>
     SetAssoc_find z x (l_array s) = Some (Some i) \<and> rp_plain (sa_rp (l_array s))
     \<and> bcc_isValid i (l_bcc s) \<and> tcc_wf (l_tcc s) \<and> i < length (t_array (l_tcc s))
     \<and> k < length (childrenRTTs (l_tcc s)) \<and> w_recs (l_world s) k = None"

definition read_ready :: "part_cfg \<Rightarrow> addr \<Rightarrow> nat \<Rightarrow> nat \<Rightarrow> state_ref \<Rightarrow> llc \<Rightarrow> bool" where
  "read_ready z x i k ref s \<longleftrightarrow> at_rest z x i k ref s
     \<and> \<not> Entry_isExclusive (t_array (l_tcc s) ! i) \<and> \<not> tcc_isSharer i k (l_tcc s)
     \<and> w_cells (l_world s) ref = I"

definition read_held :: "part_cfg \<Rightarrow> addr \<Rightarrow> nat \<Rightarrow> nat \<Rightarrow> state_ref \<Rightarrow> llc \<Rightarrow> bool" where
  "read_held z x i k ref s \<longleftrightarrow> at_rest z x i k ref s
     \<and> tcc_isSharer i k (l_tcc s) \<and> w_cells (l_world s) ref \<in> {S, E}"

definition read_req :: "addr \<Rightarrow> AccessType \<Rightarrow> nat \<Rightarrow> state_ref \<Rightarrow> MESIState \<Rightarrow> cycle \<Rightarrow> u32 \<Rightarrow> MemReq" where
  "read_req x ty k ref st cyc fl = \<lparr>r_lineAddr = x, r_type = ty, r_childId = k, r_state = ref, r_cycle = cyc,
     r_initialState = st, r_srcId = k, r_flags = fl\<rparr>"

lemma rp_plain_update: "rp_plain p \<Longrightarrow> \<exists>p'. rp_update i ty cyc p = Some p' \<and> rp_plain p'"
  by (cases p) (auto simp: rp_plain_def)

lemma find_rp_frame [simp]: "SetAssoc_find z x (a\<lparr>sa_rp := p\<rparr>) = SetAssoc_find z x a"
  by (simp add: SetAssoc_find_alt sa_region_frame)

lemma lookup_hit_total:
  assumes "SetAssoc_find z x a = Some (Some i)" "rp_plain (sa_rp a)"
  shows "\<exists>p. SetAssoc_lookup z x (Some rq) True a = Some (Some i, a\<lparr>sa_rp := p\<rparr>) \<and> rp_plain p"
proof -
  obtain p where "rp_update i (r_type rq) (r_cycle rq) (sa_rp a) = Some p" "rp_plain p"
    using rp_plain_update [OF assms(2)] by blast
  moreover obtain low high where "sa_region z a x = Some (low, high)" "find_line (sa_array a) x [low..<high] = Some i"
    using assms(1) by (auto simp: SetAssoc_find_alt)
  ultimately show ?thesis by (auto simp: SetAssoc_lookup_def)
qed

lemma record_without_recorder:
  assumes "rec_get rc (r_srcId req) s = None" "rec_put rc (r_srcId req) None s = s"
  shows "cache_record cc rc req lineId r s = do {
     (resp, s2) \<leftarrow> cc_processAccess cc req lineId r s;
     Some (resp, rec_put rc (r_srcId req) (rec_get rc (r_srcId req) s2) s2) }"
  using assms by (simp add: cache_record_def take_wb_def stitch_def)

lemma llc_rec_put_get [simp]: "rec_put llc_recorders k (rec_get llc_recorders k s) s = s"
  by (simp add: llc_recorders_def)

lemma tcc_read:
  assumes "tcc_wf t" "i < length (t_array t)" "k < length (childrenRTTs t)"
    and "\<not> Entry_isExclusive (t_array t ! i)" "\<not> tcc_isSharer i k t"
  shows "\<exists>st t'. tcc_processAccess d x i GETS k hx cs False r src fl (t, w) = Some (r, st, False, t', w)
     \<and> st \<in> {S, E} \<and> tcc_isSharer i k t' \<and> tcc_checkSameOwner i k t'"
proof -
  have "entry_wf (length (childrenRTTs t)) (t_array t ! i)" using tcc_wf_nth [OF assms(1,2)] .
  then have "k < length (sharers_bits (t_array t ! i))" "k < length (owners (t_array t ! i))"
    using assms(3) by (auto simp: entry_wf_def)
  then show ?thesis using assms(2,4,5)
    by (auto simp: tcc_processAccess_def Let_def bind_assert_that tcc_isSharer_def tcc_checkSameOwner_def)
qed

lemma tcc_release:
  assumes "tcc_wf t" "i < length (t_array t)" "k < length (childrenRTTs t)" "tcc_isSharer i k t"
  shows "\<exists>t'. tcc_processAccess d x i PUTS k hx cs False r src fl (t, w) = Some (r, I, False, t', w)
     \<and> \<not> Entry_isExclusive (t_array t' ! i) \<and> \<not> tcc_isSharer i k t'
     \<and> tcc_checkSameOwner i k t' = tcc_checkSameOwner i k t"
proof -
  have wf: "entry_wf (length (childrenRTTs t)) (t_array t ! i)" using tcc_wf_nth [OF assms(1,2)] .
  have k: "k < length (sharers_bits (t_array t ! i))" using wf assms(3) by (simp add: entry_wf_def)
  have "numSharers (t_array t ! i) \<noteq> 0"
    using count_true_clear [OF k] assms(4) wf by (simp add: entry_wf_def tcc_isSharer_def)
  then show ?thesis using assms(2,4) wf k
    by (auto simp: tcc_processAccess_def tcc_put_def Let_def bind_assert_that tcc_isSharer_def
        tcc_checkSameOwner_def Entry_isExclusive_def entry_wf_def dec32_def split: if_splits)
qed

lemma MESICC_hit:
  assumes "ty = GETS \<or> ty = PUTS" "bcc_isValid i b" "\<not> is_flag fl PREFETCH"
    and "tcc_processAccess d x i ty k (bcc_isExclusive i b) (w_cells w ref) False r k (fl AND NOT PREFETCH) (t, w)
           = Some (r, st, False, t', w)"
  shows "\<exists>f. MESICC_processAccess u d llc_cells hack (read_req x ty k ref st0 cyc fl) (Some i) r (b, t, w)
     = Some (r, bump f b, t', w\<lparr>w_cells := (w_cells w)(ref := st)\<rparr>)"
proof -
  have "\<exists>f. bcc_processAccess u x i ty r k (fl AND NOT PREFETCH) (b, t, w) = Some (r, bump f b, t, w)"
    using assms(1,2) by (auto simp: bcc_processAccess_def bcc_isValid_def)
  then obtain f where f: "bcc_processAccess u x i ty r k (fl AND NOT PREFETCH) (b, t, w) = Some (r, bump f b, t, w)"
    by blast
  have "bcc_isExclusive i (bump f b) = bcc_isExclusive i b" by (simp add: bcc_isExclusive_def bump_def)
  then show ?thesis using assms f
    by (auto simp: MESICC_processAccess_def read_req_def llc_cells_def)
qed

text \<open>One access of either kind, up to the first-time-miss test.\<close>

lemma at_rest_access:
  assumes "at_rest z x i k ref s" "ty = GETS \<or> ty = PUTS" "\<not> is_flag fl PREFETCH"
    and "tcc_processAccess d x i ty k (bcc_isExclusive i (l_bcc s)) (w_cells (l_world s) ref) False
           (cyc + lat) k (fl AND NOT PREFETCH) (l_tcc s, l_world s) = Some (cyc + lat, st, False, t', l_world s)"
    and "rp_plain p"
  shows "\<exists>f. cache_record (llc_cc u d hack) llc_recorders (read_req x ty k ref st0 cyc fl) (Some i) (cyc + lat)
       (s\<lparr>l_array := (l_array s)\<lparr>sa_rp := p\<rparr>\<rparr>)
     = Some (cyc + lat, s\<lparr>l_array := (l_array s)\<lparr>sa_rp := p\<rparr>, l_bcc := bump f (l_bcc s), l_tcc := t',
         l_world := (l_world s)\<lparr>w_cells := (w_cells (l_world s))(ref := st)\<rparr>\<rparr>)
     \<and> (\<forall>g. at_rest z x i k ref (s\<lparr>l_array := (l_array s)\<lparr>sa_rp := p\<rparr>, l_bcc := bump g (l_bcc s), l_tcc := t',
         l_world := (l_world s)\<lparr>w_cells := (w_cells (l_world s))(ref := st)\<rparr>\<rparr>))"
proof -
  note rest = assms(1) [unfolded at_rest_def]
  obtain f where f: "MESICC_processAccess u d llc_cells hack (read_req x ty k ref st0 cyc fl) (Some i) (cyc + lat)
       (l_bcc s, l_tcc s, l_world s)
     = Some (cyc + lat, bump f (l_bcc s), t', (l_world s)\<lparr>w_cells := (w_cells (l_world s))(ref := st)\<rparr>)"
    using MESICC_hit [OF assms(2) _ assms(3,4)] rest by blast
  have none: "rec_get llc_recorders k (s\<lparr>l_array := (l_array s)\<lparr>sa_rp := p\<rparr>\<rparr>) = None"
    using rest by (simp add: llc_recorders_def)
  have put: "rec_put llc_recorders k None (s\<lparr>l_array := (l_array s)\<lparr>sa_rp := p\<rparr>\<rparr>) = s\<lparr>l_array := (l_array s)\<lparr>sa_rp := p\<rparr>\<rparr>"
    using llc_rec_put_get [of k "s\<lparr>l_array := (l_array s)\<lparr>sa_rp := p\<rparr>\<rparr>"] none by simp
  have wf: "tcc_wf t' \<and> length (t_array t') = length (t_array (l_tcc s)) \<and> childrenRTTs t' = childrenRTTs (l_tcc s)"
    using tcc_processAccess_wf [OF assms(4)] rest by blast
  have "at_rest z x i k ref (s\<lparr>l_array := (l_array s)\<lparr>sa_rp := p\<rparr>, l_bcc := bump g (l_bcc s), l_tcc := t',
         l_world := (l_world s)\<lparr>w_cells := (w_cells (l_world s))(ref := st)\<rparr>\<rparr>)" for g
    using rest assms(5) wf by (simp add: at_rest_def bcc_isValid_def bump_def)
  moreover have "r_srcId (read_req x ty k ref st0 cyc fl) = k" by (simp add: read_req_def)
  ultimately show ?thesis using f none put
    by (subst record_without_recorder) (auto simp: llc_cc_def llc_parts_def llc_put_def)
qed

lemma read_step:
  assumes "read_ready z x i k ref s" "c_isLLC c" "\<not> is_flag fl PREFETCH"
  shows "\<exists>s'. llc_accessSkew c z u d hack (read_req x GETS k ref I cyc fl) s
       = Some (cyc + c_accLat c + (if ftm_active c GETS \<and> \<not> tcc_checkSameOwner i k (l_tcc s) then ftm_delay fl else 0), s')
     \<and> read_held z x i k ref s' \<and> tcc_checkSameOwner i k (l_tcc s')"
proof -
  let ?req = "read_req x GETS k ref I cyc fl"
  note ready = assms(1) [unfolded read_ready_def] note rest = conjunct1 [OF ready, unfolded at_rest_def]
  have pre: "tcc_wf (l_tcc s)" "i < length (t_array (l_tcc s))" "k < length (childrenRTTs (l_tcc s))"
      "\<not> Entry_isExclusive (t_array (l_tcc s) ! i)" "\<not> tcc_isSharer i k (l_tcc s)"
    using ready rest by simp_all
  obtain st t' where t': "tcc_processAccess d x i GETS k (bcc_isExclusive i (l_bcc s)) (w_cells (l_world s) ref) False
           (cyc + c_accLat c) k (fl AND NOT PREFETCH) (l_tcc s, l_world s) = Some (cyc + c_accLat c, st, False, t', l_world s)"
      "st \<in> {S, E}" "tcc_isSharer i k t'" "tcc_checkSameOwner i k t'"
    using tcc_read [OF pre] by metis
  obtain p where p: "SetAssoc_lookup z x (Some ?req) True (l_array s) = Some (Some i, (l_array s)\<lparr>sa_rp := p\<rparr>)" "rp_plain p"
    using lookup_hit_total rest by blast
  have start: "MESICC_startAccess llc_cells ?req (l_world s) = Some (False, ?req)"
    using ready by (simp add: MESICC_startAccess_def CheckForMESIRace_def llc_cells_def read_req_def)
  obtain f where f: "cache_record (llc_cc u d hack) llc_recorders ?req (Some i) (cyc + c_accLat c)
       (s\<lparr>l_array := (l_array s)\<lparr>sa_rp := p\<rparr>\<rparr>)
     = Some (cyc + c_accLat c, s\<lparr>l_array := (l_array s)\<lparr>sa_rp := p\<rparr>, l_bcc := bump f (l_bcc s), l_tcc := t',
         l_world := (l_world s)\<lparr>w_cells := (w_cells (l_world s))(ref := st)\<rparr>\<rparr>)"
    and rest': "\<And>g. at_rest z x i k ref (s\<lparr>l_array := (l_array s)\<lparr>sa_rp := p\<rparr>, l_bcc := bump g (l_bcc s), l_tcc := t',
         l_world := (l_world s)\<lparr>w_cells := (w_cells (l_world s))(ref := st)\<rparr>\<rparr>)"
    using at_rest_access [OF conjunct1 [OF ready] _ assms(3) t'(1) p(2)] by blast
  define s2 where "s2 g = s\<lparr>l_array := (l_array s)\<lparr>sa_rp := p\<rparr>, l_bcc := bump g (l_bcc s), l_tcc := t',
         l_world := (l_world s)\<lparr>w_cells := (w_cells (l_world s))(ref := st)\<rparr>\<rparr>" for g
  have held: "read_held z x i k ref (s2 g) \<and> tcc_checkSameOwner i k (l_tcc (s2 g))" for g
    using rest' [of g] t'(2-4) by (simp add: read_held_def s2_def)
  have "llc_accessSkew c z u d hack ?req s
      = Some (ftm_finish c (llc_cc u d hack) ?req (tcc_checkSameOwner i k (l_tcc s)) (cyc + c_accLat c) (s2 f))"
    using accessSkew_hit [OF start, of z i c u d hack] rest assms(2) p(1) f
    by (simp add: read_req_def s2_def)
  also have "ftm_finish c (llc_cc u d hack) ?req (tcc_checkSameOwner i k (l_tcc s)) (cyc + c_accLat c) (s2 f)
      = (if ftm_active c GETS \<and> \<not> tcc_checkSameOwner i k (l_tcc s)
         then (cyc + c_accLat c + ftm_delay fl, s2 (ftm_prof fl \<circ> f)) else (cyc + c_accLat c, s2 f))"
    by (simp add: ftm_finish_alt ftm_charge_def read_req_def s2_def bump_def)
  finally show ?thesis using held by (cases "ftm_active c GETS \<and> \<not> tcc_checkSameOwner i k (l_tcc s)") auto
qed

lemma release_step:
  assumes "read_held z x i k ref s" "\<not> is_flag fl PREFETCH" "st0 = w_cells (l_world s) ref"
  shows "\<exists>s'. llc_accessSkew c z u d hack (read_req x PUTS k ref st0 cyc fl) s = Some (cyc + c_accLat c, s')
     \<and> read_ready z x i k ref s' \<and> tcc_checkSameOwner i k (l_tcc s') = tcc_checkSameOwner i k (l_tcc s)"
proof -
  let ?req = "read_req x PUTS k ref st0 cyc fl"
  note held = assms(1) [unfolded read_held_def] note rest = conjunct1 [OF held, unfolded at_rest_def]
  have pre: "tcc_wf (l_tcc s)" "i < length (t_array (l_tcc s))" "k < length (childrenRTTs (l_tcc s))"
      "tcc_isSharer i k (l_tcc s)"
    using held rest by simp_all
  obtain t' where t': "tcc_processAccess d x i PUTS k (bcc_isExclusive i (l_bcc s)) (w_cells (l_world s) ref) False
           (cyc + c_accLat c) k (fl AND NOT PREFETCH) (l_tcc s, l_world s) = Some (cyc + c_accLat c, I, False, t', l_world s)"
      "\<not> Entry_isExclusive (t_array t' ! i)" "\<not> tcc_isSharer i k t'"
      "tcc_checkSameOwner i k t' = tcc_checkSameOwner i k (l_tcc s)"
    using tcc_release [OF pre] by metis
  have plain: "rp_plain (sa_rp (l_array s))" using rest by simp
  obtain f where f: "cache_record (llc_cc u d hack) llc_recorders ?req (Some i) (cyc + c_accLat c) s
     = Some (cyc + c_accLat c, s\<lparr>l_array := l_array s, l_bcc := bump f (l_bcc s), l_tcc := t',
         l_world := (l_world s)\<lparr>w_cells := (w_cells (l_world s))(ref := I)\<rparr>\<rparr>)"
    and rest': "at_rest z x i k ref (s\<lparr>l_array := l_array s, l_bcc := bump f (l_bcc s), l_tcc := t',
         l_world := (l_world s)\<lparr>w_cells := (w_cells (l_world s))(ref := I)\<rparr>\<rparr>)"
    using at_rest_access [OF conjunct1 [OF held] _ assms(2) t'(1) plain] by fastforce
  have look: "SetAssoc_lookup z x (Some ?req) False (l_array s) = Some (Some i, l_array s)"
    using rest by (auto simp: SetAssoc_find_alt SetAssoc_lookup_def)
  have start: "MESICC_startAccess llc_cells ?req (l_world s) = Some (False, ?req)"
    using assms(3) by (simp add: MESICC_startAccess_def CheckForMESIRace_def llc_cells_def read_req_def)
  have ready: "read_ready z x i k ref (s\<lparr>l_array := l_array s, l_bcc := bump f (l_bcc s), l_tcc := t',
         l_world := (l_world s)\<lparr>w_cells := (w_cells (l_world s))(ref := I)\<rparr>\<rparr>)"
    using rest' t'(2,3) by (simp add: read_ready_def)
  have "llc_accessSkew c z u d hack ?req s
      = Some (cyc + c_accLat c, s\<lparr>l_array := l_array s, l_bcc := bump f (l_bcc s), l_tcc := t',
         l_world := (l_world s)\<lparr>w_cells := (w_cells (l_world s))(ref := I)\<rparr>\<rparr>)"
    using start look f
    by (simp add: cache_accessSkew_def cache_fetch_def llc_cc_def llc_array_def read_req_def ftm_finish_def)
  with ready t'(4) show ?thesis by auto
qed

subsection \<open>Properties\<close>

text \<open>C8: on a hit in the last level a first-time-miss configuration behaves as one without it, except that a requester
  that is not a recorded owner of the line is charged: 200 more cycles for a read-only page, and its counters.\<close>

theorem ftm_charges_new_owners:
  assumes "MESICC_startAccess llc_cells req (l_world s) = Some (False, req)"
    and "SetAssoc_find z (r_lineAddr req) (l_array s) = Some (Some i)"
    and "c_isLLC c" "ftm_active c (r_type req)"
  shows "llc_accessSkew c z u d hack req s
    = map_option (if tcc_checkSameOwner i (r_srcId req) (l_tcc s) then (\<lambda>rs. rs) else ftm_charge (r_flags req))
        (llc_accessSkew (c\<lparr>ftmEnable := False\<rparr>) z u d hack req s)"
proof -
  have get: "r_type req = GETS \<or> r_type req = GETX" using assms(4) by (auto simp: ftm_active_def)
  have "ftm_finish c (llc_cc u d hack) req so r s' = (if so then (\<lambda>rs. rs) else ftm_charge (r_flags req)) (r, s')"
    "ftm_finish (c\<lparr>ftmEnable := False\<rparr>) (llc_cc u d hack) req so r s' = (r, s')" for so r s'
    using assms(4) by (simp_all add: ftm_finish_alt) (simp add: ftm_active_def)
  then show ?thesis
    using accessSkew_hit [OF assms(1,2) get, of c u d hack] assms(3)
      accessSkew_hit [OF assms(1,2) get, of "c\<lparr>ftmEnable := False\<rparr>" u d hack]
    by (simp add: map_option_bind comp_def split: prod.splits Option.bind_splits)
qed

text \<open>A last-level cache for the witnesses: line 5 resident in slot 2, shared state, three children.\<close>

definition sample_llc :: llc where
  "sample_llc = \<lparr>l_array = sample_sa\<lparr>sa_array := (sa_array sample_sa)[2 := 5]\<rparr>, l_bcc = set_st 2 S (BCC_new 8 0 False 0),
     l_tcc = (TCC_new 8 False)\<lparr>childrenRTTs := [4, 4, 4]\<rparr>, l_world = \<lparr>w_cells = \<lambda>_. I, w_recs = \<lambda>_. None\<rparr>\<rparr>"

definition sample_ftm :: cache_cfg where
  "sample_ftm = \<lparr>c_accLat = 4, c_invLat = 4, c_isLLC = True, ftmEnable = True, ftmTypeFlag = 3\<rparr>"

definition sample_down :: "llc_world down" where
  "sample_down = \<lparr>dn_invalidate = \<lambda>_ req w. Some (i_cycle req, False, w), dn_refresh = \<lambda>_ _ _ w. Some w\<rparr>"

lemma sample_llc_find: "SetAssoc_find sample_cfg 5 (l_array sample_llc) = Some (Some 2)"
  by (simp add: SetAssoc_find_alt sa_region_frame sample_llc_def) (simp add: sample_eval)

lemma sample_llc_ready: "read_ready sample_cfg 5 2 1 (LocalCell 0) sample_llc"
proof -
  have "tcc_wf (l_tcc sample_llc)"
    by (auto simp: sample_llc_def TCC_new_def tcc_wf_def MAX_CACHE_CHILDREN_def
        intro: entry_wf_clear [unfolded MAX_CACHE_CHILDREN_def])
  moreover have "\<not> Entry_isExclusive (t_array (l_tcc sample_llc) ! 2)" "\<not> tcc_isSharer 2 1 (l_tcc sample_llc)"
    by (simp_all add: sample_llc_def TCC_new_def Entry_clear_def Entry_isExclusive_def tcc_isSharer_def
        MAX_CACHE_CHILDREN_def)
  moreover have "rp_plain (sa_rp (l_array sample_llc))" by (simp add: sample_llc_def sample_sa_eq rp_plain_def)
  ultimately show ?thesis using sample_llc_find
    by (simp add: read_ready_def at_rest_def) (simp add: sample_llc_def bcc_isValid_def set_st_def BCC_new_def TCC_new_def)
qed

lemma sample_ftm_active: "ftm_active sample_ftm GETS" "c_isLLC sample_ftm"
  by (simp_all add: ftm_active_def sample_ftm_def has_bit_def)

lemma sample_not_owner: "\<not> tcc_checkSameOwner 2 1 (l_tcc sample_llc)"
  by (simp add: sample_llc_def TCC_new_def Entry_clear_def tcc_checkSameOwner_def MAX_CACHE_CHILDREN_def)

theorem ftm_charges_new_owners_witness:
  "llc_accessSkew sample_ftm sample_cfg (mem_up 100) sample_down False (read_req 5 GETS 1 (LocalCell 0) I 10 2048) sample_llc
    = map_option (ftm_charge 2048)
        (llc_accessSkew (sample_ftm\<lparr>ftmEnable := False\<rparr>) sample_cfg (mem_up 100) sample_down False
          (read_req 5 GETS 1 (LocalCell 0) I 10 2048) sample_llc)"
proof -
  let ?req = "read_req 5 GETS 1 (LocalCell 0) I 10 2048"
  have "MESICC_startAccess llc_cells ?req (l_world sample_llc) = Some (False, ?req)"
    by (simp add: MESICC_startAccess_def CheckForMESIRace_def llc_cells_def read_req_def sample_llc_def)
  from ftm_charges_new_owners [OF this, of sample_cfg 2 sample_ftm "mem_up 100" sample_down False]
  show ?thesis using sample_llc_find sample_ftm_active sample_not_owner by (simp add: read_req_def)
qed

text \<open>C7: the first-time-miss delay is paid once. A core that reads a shared resident line, gives it back and reads it
  again is delayed on the first read if it was not an owner, and never on the second; all three accesses complete.\<close>

theorem ftm_delay_once:
  assumes "read_ready z x i k ref s" "c_isLLC c" "ftm_active c GETS" "\<not> is_flag fl PREFETCH"
  shows "\<exists>s1 s2 s3.
     llc_accessSkew c z u d hack (read_req x GETS k ref I cyc1 fl) s
       = Some (cyc1 + c_accLat c + (if tcc_checkSameOwner i k (l_tcc s) then 0 else ftm_delay fl), s1)
   \<and> llc_accessSkew c z u d hack (read_req x PUTS k ref (w_cells (l_world s1) ref) cyc2 fl) s1
       = Some (cyc2 + c_accLat c, s2)
   \<and> llc_accessSkew c z u d hack (read_req x GETS k ref I cyc3 fl) s2 = Some (cyc3 + c_accLat c, s3)"
proof -
  obtain s1 where s1: "llc_accessSkew c z u d hack (read_req x GETS k ref I cyc1 fl) s
      = Some (cyc1 + c_accLat c + (if tcc_checkSameOwner i k (l_tcc s) then 0 else ftm_delay fl), s1)"
      "read_held z x i k ref s1" "tcc_checkSameOwner i k (l_tcc s1)"
    using read_step [OF assms(1,2,4), of u d hack cyc1] assms(3) by auto
  obtain s2 where s2: "llc_accessSkew c z u d hack (read_req x PUTS k ref (w_cells (l_world s1) ref) cyc2 fl) s1
      = Some (cyc2 + c_accLat c, s2)" "read_ready z x i k ref s2" "tcc_checkSameOwner i k (l_tcc s2)"
    using release_step [OF s1(2) assms(4) refl, of c u d hack cyc2] s1(3) by auto
  obtain s3 where "llc_accessSkew c z u d hack (read_req x GETS k ref I cyc3 fl) s2 = Some (cyc3 + c_accLat c, s3)"
    using read_step [OF s2(2) assms(2,4), of u d hack cyc3] s2(3) by auto
  with s1(1) s2(1) show ?thesis by blast
qed

theorem ftm_delay_once_witness:
  "\<exists>s1 s2 s3.
     llc_accessSkew sample_ftm sample_cfg (mem_up 100) sample_down False (read_req 5 GETS 1 (LocalCell 0) I 10 2048) sample_llc
       = Some (214, s1)
   \<and> llc_accessSkew sample_ftm sample_cfg (mem_up 100) sample_down False
       (read_req 5 PUTS 1 (LocalCell 0) (w_cells (l_world s1) (LocalCell 0)) 300 2048) s1 = Some (304, s2)
   \<and> llc_accessSkew sample_ftm sample_cfg (mem_up 100) sample_down False (read_req 5 GETS 1 (LocalCell 0) I 400 2048) s2
       = Some (404, s3)"
proof -
  have "\<not> is_flag 2048 PREFETCH" by (simp add: is_flag_def PREFETCH_def)
  moreover have "ftm_delay 2048 = 200" "c_accLat sample_ftm = 4"
    by (simp_all add: ftm_delay_def has_bit_def sample_ftm_def)
  ultimately show ?thesis
    using ftm_delay_once [OF sample_llc_ready sample_ftm_active(2,1), of 2048 "mem_up 100" sample_down False 10 300 400]
      sample_not_owner by simp
qed

text \<open>when both a writeback and an access left a timing record, the cache leaves one record whose start event wakes the
  start events of both, each at the cycle of its own request.\<close>

lemma stitch_schedules_both:
  assumes "startEvent wb = Some ew" "startEvent (er_tr er) = Some ea"
    and "cyc \<le> reqCycle wb" "cyc \<le> reqCycle (er_tr er)"
  shows "\<exists>er' ev. stitch cyc (Some wb) (Some er) = Some (Some er') \<and> hasRecord er'
     \<and> startEvent (er_tr er') = Some ev \<and> reqCycle (er_tr er') = cyc \<and> endEvent (er_tr er') = endEvent (er_tr er)
     \<and> delay_wakes cyc ev = delay_wakes (reqCycle wb) ew @ delay_wakes (reqCycle (er_tr er)) ea"
  using assms
  by (simp add: stitch_def hasRecord_def tr_isValid_def popRecord_def pushRecord_def tr_clear_def Let_def)

end
