(* ===== verification/Refresh.thy ===== *)
theory Refresh
  imports CacheOps
begin

text \<open>
  Re-hashing a cache with a CEASER array: \<^verbatim>\<open>Cache::processRefresh\<close> with the work of the controllers
  (\<^verbatim>\<open>MESICC::processRefresh\<close>). The tags follow the array's own tick, and the controllers never stop it: the directory and
  the line states stay in step with the tags.
\<close>

subsection \<open>The array's part\<close>

lemma MESICC_refresh_ways_array:
  assumes "MESICC_refresh_ways d cset is (a, b, t, w) = Some (a', btw)"
  shows "CEASER_refresh_ways cset is a = Some a'"
  using assms
proof (induction "is" arbitrary: a b t w)
  case (Cons i "is")
  show ?case
  proof (cases "CEASER_getAddr cset i a = 0")
    case False
    then obtain repl_set ra ri a1 where r: "CEASER_getReplSet (CEASER_getAddr cset i a) a = Some repl_set"
        "CEASER_getReplId repl_set a = Some (ra, ri, a1)"
      using Cons.prems by (auto simp: Let_def bind_Some_conv)
    show ?thesis
      using Cons.prems Cons.IH False r by (cases "repl_set = cset") (auto simp: Let_def bind_Some_conv)
  qed (use Cons in auto)
qed simp

lemma MESICC_processRefresh_array:
  assumes "MESICC_processRefresh d cset (a, btw) = Some (a', btw')"
  shows "CEASER_refresh_set cset a = Some a'"
  using assms MESICC_refresh_ways_array
  by (cases btw) (fastforce simp: MESICC_processRefresh_def CEASER_refresh_set_def bind_Some_conv)

lemma cache_processRefresh_array:
  assumes "cache_processRefresh d (cur_set, a, btw) = Some (cur_set', a', btw')"
  shows "CEASER_tick (cur_set, a) = Some (cur_set', a')"
  using assms
  by (cases btw)
    (auto simp: cache_processRefresh_def CEASER_tick_def bind_Some_conv
      dest: MESICC_processRefresh_array split: if_splits)

subsection \<open>The controllers' part\<close>

text \<open>The directory and the line states have one cell per tag, and a slot without a line has no sharers.\<close>

definition refresh_inv :: "CEASERArray \<Rightarrow> BCC \<Rightarrow> TCC \<Rightarrow> bool" where
  "refresh_inv a b t \<longleftrightarrow> tcc_wf t \<and> childrenRTTs t \<noteq> []
     \<and> length (t_array t) = length (ce_array a) \<and> length (b_array b) = length (ce_array a)
     \<and> (\<forall>i < length (ce_array a). ce_array a ! i = 0 \<longrightarrow> numSharers (t_array t ! i) = 0)"

text \<open>A child that holds the line gives it up on a refresh.\<close>

definition refreshable :: "'w down \<Rightarrow> bool" where
  "refreshable d \<longleftrightarrow> (\<forall>c x i w. x \<noteq> 0 \<longrightarrow> dn_refresh d c x i w \<noteq> None)"

lemma evict_loop_total:
  assumes "refreshable d" "x \<noteq> 0 \<or> (\<forall>c \<in> set cs. \<not> sharers_bits (fst ew) ! c)"
    and "distinct cs"
  shows "\<exists>ew'. evict_loop d x i cs ew = Some ew'"
  using assms(2,3)
proof (induction cs arbitrary: ew)
  case (Cons c cs)
  let ?e1 = "(set_sharer c False (fst ew))\<lparr>exclusive := False, numSharers := 0\<rparr>"
  have "x \<noteq> 0 \<or> (\<forall>c \<in> set cs. \<not> sharers_bits ?e1 ! c)"
    using Cons.prems by (auto simp: nth_list_update_neq) (metis nth_list_update_neq)
  then have rest: "\<exists>ew'. evict_loop d x i cs (?e1, w1) = Some ew'" for w1
    using Cons.IH [of "(?e1, w1)"] Cons.prems(2) by simp
  show ?case
  proof (cases "sharers_bits (fst ew) ! c")
    case True
    then have "x \<noteq> 0" using Cons.prems(1) by auto
    then obtain w1 where "dn_refresh d c x i (snd ew) = Some w1"
      using assms(1) unfolding refreshable_def by (metis not_None_eq)
    then show ?thesis using rest True \<open>x \<noteq> 0\<close> by (simp add: Let_def)
  qed (use rest in \<open>simp add: Let_def\<close>)
qed simp

lemma tcc_evictAddr_total:
  assumes "refreshable d" "tcc_wf t" "i < length (t_array t)" "x = 0 \<longrightarrow> numSharers (t_array t ! i) = 0"
  shows "\<exists>t' w'. tcc_evictAddr d x i (t, w) = Some (t', w')"
proof -
  have wf: "entry_wf (length (childrenRTTs t)) (t_array t ! i)" using tcc_wf_nth assms(2,3) .
  have "\<not> sharers_bits (t_array t ! i) ! c" if "x = 0" "c < length (childrenRTTs t)" for c
    using that assms(4) entry_wf_empty [OF wf] wf by (auto simp: entry_wf_def)
  then obtain ew' where "evict_loop d x i [0..<length (childrenRTTs t)] (t_array t ! i, w) = Some ew'"
    using evict_loop_total [OF assms(1), of x "[0..<length (childrenRTTs t)]" "(t_array t ! i, w)" i] by auto
  then show ?thesis by (cases ew') (simp add: tcc_evictAddr_def Let_def)
qed

text \<open>One move: the line at the destination leaves the hierarchy and the state of the moved line goes along.\<close>

lemma move_total:
  assumes "refreshable d" "refresh_inv a b t" "r < length (ce_array a)" "l < length (ce_array a)" "r \<noteq> l"
    and "ad \<noteq> 0"
  shows "\<exists>t1 w1 t2 b2. tcc_evictAddr d (ce_array a ! r) r (t, w) = Some (t1, w1)
     \<and> tcc_moveAddr r l t1 = Some t2 \<and> bcc_moveAddr r l (bcc_setInvalid r b) = Some b2
     \<and> refresh_inv (a\<lparr>ce_rng := g, ce_array := ((ce_array a)[r := ad])[l := 0]\<rparr>) b2 t2"
proof -
  note inv = assms(2) [unfolded refresh_inv_def]
  obtain t1 w1 where ev: "tcc_evictAddr d (ce_array a ! r) r (t, w) = Some (t1, w1)"
    using tcc_evictAddr_total [OF assms(1), of t r "ce_array a ! r" w] inv assms(3) by auto
  obtain e where e: "t1 = set_entry r e t" "entry_wf (length (childrenRTTs t)) e" "numSharers e = 0" "\<not> exclusive e"
    using tcc_evictAddr_cases [OF ev] inv assms(3) by metis
  have r: "r < length (t_array t)" and l: "l < length (t_array t)" using inv assms(3,4) by auto
  have wf1: "tcc_wf t1" using e tcc_wf_set_entry inv by blast
  obtain t2 where t2: "tcc_moveAddr r l t1 = Some t2"
    using e r by (simp add: tcc_moveAddr_def Let_def)
  have t2_wf: "tcc_wf t2" "numSharers (t_array t2 ! l) = 0"
    using tcc_moveAddr_wf [OF t2 wf1] e(1) r l assms(5) by auto
  have t2_frame: "childrenRTTs t2 = childrenRTTs t" "length (t_array t2) = length (t_array t)"
    "j \<noteq> r \<Longrightarrow> j \<noteq> l \<Longrightarrow> t_array t2 ! j = t_array t ! j" for j
    using t2 e(1,3,4) r by (auto simp: tcc_moveAddr_def Let_def)
  obtain b2 where b2: "bcc_moveAddr r l (bcc_setInvalid r b) = Some b2" "length (b_array b2) = length (b_array b)"
    using inv assms(3) by (auto simp: bcc_moveAddr_def bcc_setInvalid_def set_st_def)
  have "refresh_inv (a\<lparr>ce_rng := g, ce_array := ((ce_array a)[r := ad])[l := 0]\<rparr>) b2 t2"
    using inv t2_wf t2_frame b2(2) assms(3-6)
    by (auto simp: refresh_inv_def nth_list_update)
  with ev t2 b2 show ?thesis by blast
qed


lemma MESICC_refresh_way:
  assumes mid: "ce_mid cset (v # rest) a" and v: "v < ce_assoc a" and d: "refreshable d" and inv: "refresh_inv a b t"
  obtains a1 b1 t1 w1 where
    "MESICC_refresh_ways d cset (v # rest) (a, b, t, w) = MESICC_refresh_ways d cset rest (a1, b1, t1, w1)"
    "refresh_inv a1 b1 t1" "ce_mid cset rest a1" "ce_same a a1"
proof -
  let ?L = "cset * ce_assoc a + v" and ?ad = "CEASER_getAddr cset v a"
  have wf: "ce_wf a" and cs: "cset < ce_numSets a" using mid by (auto simp: ce_mid_def)
  note sL = ce_slot [OF wf cs v]
  obtain a1 where a1: "CEASER_refresh_ways cset [v] a = Some a1" "ce_mid cset rest a1" "ce_same a a1"
    using CEASER_refresh_way [OF mid v] by (metis CEASER_refresh_ways.simps(1))
  show thesis
  proof (cases "?ad = 0")
    case True
    then show thesis using that [of a b t w] a1 inv by (simp add: Let_def)
  next
    case ad: False
    obtain s where s: "CEASER_getReplSet ?ad a = Some s" "s < ce_numSets a"
      using ce_index_total [OF wf, of "hf_target a" ?ad] wf unfolding ce_wf_def CEASER_getReplSet_def by metis
    obtain v' g where v': "ce_random_way a = Some (v', a\<lparr>ce_rng := g\<rparr>)" "v' < ce_assoc a"
      using ce_random_way_total [OF wf] by metis
    let ?R = "s * ce_assoc a + v'"
    note sR = ce_slot [OF wf s(2) v'(2)]
    have id: "CEASER_getReplId s a = Some (ce_array a ! ?R, ?R, a\<lparr>ce_rng := g\<rparr>)"
      using v'(1) by (simp add: CEASER_getReplId_def Let_def)
    show thesis
    proof (cases "s = cset")
      case True
      then have "a1 = a\<lparr>ce_rng := g\<rparr>" using a1(1) ad s(1) id by simp
      then show thesis using that [of a1 b t w] a1 inv True ad s(1) id
        by (simp add: Let_def refresh_inv_def)
    next
      case False
      let ?a1 = "a\<lparr>ce_rng := g, ce_array := ((ce_array a)[?R := ?ad])[?L := 0]\<rparr>"
      have mv: "CEASER_moveAddr (ce_array a ! ?R) ?R ?ad ?L (a\<lparr>ce_rng := g\<rparr>) = Some ?a1"
        by (simp add: CEASER_moveAddr_def CEASER_getAddr_def)
      then have "a1 = ?a1" using a1(1) ad s(1) id False by simp
      moreover have "?R \<noteq> ?L" using sL sR False by metis
      then obtain t1 w1 t2 b2 where c: "tcc_evictAddr d (ce_array a ! ?R) ?R (t, w) = Some (t1, w1)"
          "tcc_moveAddr ?R ?L t1 = Some t2" "bcc_moveAddr ?R ?L (bcc_setInvalid ?R b) = Some b2"
          "refresh_inv ?a1 b2 t2"
        using move_total [OF d inv _ _ _ ad, of ?R ?L w g] sL sR by blast
      have "MESICC_refresh_ways d cset (v # rest) (a, b, t, w) = MESICC_refresh_ways d cset rest (?a1, b2, t2, w1)"
        using ad s(1) id mv c(1-3) False by (simp add: Let_def)
      ultimately show thesis using that a1(2,3) c(4) by blast
    qed
  qed
qed

lemma MESICC_refresh_ways_total:
  assumes "ce_mid cset ws a" "\<forall>v \<in> set ws. v < ce_assoc a" "refreshable d" "refresh_inv a b t"
  shows "\<exists>a' b' t' w'. MESICC_refresh_ways d cset ws (a, b, t, w) = Some (a', b', t', w') \<and> refresh_inv a' b' t'"
  using assms(1,2,4)
proof (induction ws arbitrary: a b t w)
  case (Cons v ws)
  obtain a1 b1 t1 w1 where s: "MESICC_refresh_ways d cset (v # ws) (a, b, t, w) = MESICC_refresh_ways d cset ws (a1, b1, t1, w1)"
      "refresh_inv a1 b1 t1" "ce_mid cset ws a1" "ce_same a a1"
    using MESICC_refresh_way [OF Cons.prems(1) _ assms(3) Cons.prems(3)] Cons.prems(2) by (metis list.set_intros(1))
  then show ?case using Cons.IH [of a1 b1 t1 w1] Cons.prems(2) by (auto simp: ce_same_def)
qed auto

lemma cache_processRefresh_total:
  assumes "ce_inv a" "ce_phase cur_set a" "refreshable d" "refresh_inv a b t"
  shows "\<exists>cur_set' a' b' t' w'. cache_processRefresh d (cur_set, a, b, t, w) = Some (cur_set', a', b', t', w')
     \<and> refresh_inv a' b' t'"
proof (cases "cur_set \<ge> ce_numSets a")
  case True
  then show ?thesis using assms(4)
    by (simp add: cache_processRefresh_def refresh_inv_def CEASER_resetSwitches_def CEASER_switchHash_def)
next
  case False
  then have sw: "switch_array a ! cur_set = 0" using assms(2) by (simp add: ce_phase_def)
  then have "ce_mid cur_set [0..<ce_assoc a] a"
    using assms(1) False by (simp add: ce_mid_def ce_inv_def ce_located_def)
  then obtain a' b' t' w' where "MESICC_refresh_ways d cur_set [0..<ce_assoc a] (a, b, t, w) = Some (a', b', t', w')"
      "refresh_inv a' b' t'"
    using MESICC_refresh_ways_total [OF _ _ assms(3,4)] by (metis atLeastLessThan_iff set_upt)
  then show ?thesis using False sw
    by (auto simp: cache_processRefresh_def MESICC_processRefresh_def refresh_inv_def CEASER_setSwitch_def)
qed

subsection \<open>Properties\<close>



end
