(* ===== verification/PrioQueue.thy ===== *)
theory PrioQueue
  imports Prelude "HOL-Library.Multiset"
begin

text \<open>
  The calendar queue of \<^verbatim>\<open>src/src/prio_queue.h\<close> that orders the events of the contention simulation: \<^verbatim>\<open>B\<close> blocks of 64
  cycles used as a ring, with one occupancy word per block, and a multimap for the elements beyond the ring.

  A slot's chain through the \<^verbatim>\<open>next\<close> pointers is a list, the multimap an association list in key order. The advance
  loop of \<^verbatim>\<open>dequeue\<close> is a partial function; that it ends is proved. The interface \<open>prio_queue\<close> states what the
  simulation relies on, and is interpreted on the calendar queue.
\<close>

subsection \<open>Blocks\<close>

definition ctz :: "'a::len word \<Rightarrow> nat" where
  "ctz w = length (takeWhile (\<lambda>i. \<not> bit w i) [0..<LENGTH('a)])"

record 'a PQBlock =
  pq_array :: "'a list list"
  occ :: u64

definition PQBlock_new :: "'a PQBlock" where
  "PQBlock_new = \<lparr>pq_array = replicate 64 [], occ = 0\<rparr>"

definition PQBlock_dequeue :: "'a PQBlock \<Rightarrow> ('a \<times> nat \<times> 'a PQBlock) option" where
  "PQBlock_dequeue b = do {
     assert_that (occ b \<noteq> 0);
     let pos = ctz (occ b);
     case pq_array b ! pos of
       [] \<Rightarrow> None
     | res # next \<Rightarrow>
         Some (res, pos, b\<lparr>pq_array := (pq_array b)[pos := next],
           occ := (if next = [] then occ b XOR push_bit pos 1 else occ b)\<rparr>) }"

definition PQBlock_enqueue :: "'a \<Rightarrow> nat \<Rightarrow> 'a PQBlock \<Rightarrow> 'a PQBlock" where
  "PQBlock_enqueue obj pos b =
     b\<lparr>occ := occ b OR push_bit pos 1, pq_array := (pq_array b)[pos := obj # (pq_array b ! pos)]\<rparr>"

subsection \<open>The queue\<close>

record 'a PrioQueue =
  blocks :: "'a PQBlock list"
  feMap :: "(cycle \<times> 'a) list"
  curBlock :: nat
  elems :: nat

definition PrioQueue_new :: "nat \<Rightarrow> 'a PrioQueue" where
  "PrioQueue_new B = \<lparr>blocks = replicate B PQBlock_new, feMap = [], curBlock = 0, elems = 0\<rparr>"

text \<open>Insertion into a \<^verbatim>\<open>multimap\<close>: after the elements of the same key.\<close>

definition fe_insert :: "cycle \<Rightarrow> 'a \<Rightarrow> (cycle \<times> 'a) list \<Rightarrow> (cycle \<times> 'a) list" where
  "fe_insert c x m = takeWhile (\<lambda>p. fst p \<le> c) m @ (c, x) # dropWhile (\<lambda>p. fst p \<le> c) m"

definition near_insert :: "nat \<Rightarrow> cycle \<Rightarrow> 'a \<Rightarrow> 'a PQBlock list \<Rightarrow> 'a PQBlock list" where
  "near_insert B c obj bs = (let i = (c div 64) mod B in bs[i := PQBlock_enqueue obj (c mod 64) (bs ! i)])"

definition pq_enqueue :: "nat \<Rightarrow> 'a \<Rightarrow> cycle \<Rightarrow> 'a PrioQueue \<Rightarrow> 'a PrioQueue option" where
  "pq_enqueue B obj c q = do {
     let absBlock = c div 64;
     assert_that (absBlock \<ge> curBlock q);
     Some ((if absBlock < curBlock q + B then q\<lparr>blocks := near_insert B c obj (blocks q)\<rparr>
            else q\<lparr>feMap := fe_insert c obj (feMap q)\<rparr>)\<lparr>elems := Suc (elems q)\<rparr>) }"

text \<open>The inner loop of \<^verbatim>\<open>dequeue\<close> moves the far elements that the ring can now hold.\<close>

fun move_far :: "nat \<Rightarrow> nat \<Rightarrow> (cycle \<times> 'a) list \<Rightarrow> 'a PQBlock list \<Rightarrow> ((cycle \<times> 'a) list \<times> 'a PQBlock list) option" where
  "move_far B cur [] bs = Some ([], bs)"
| "move_far B cur ((c, x) # m) bs =
     (if c < (cur + B) * 64 then do {
        assert_that (c div 64 \<ge> cur);
        assert_that (c div 64 < cur + B);
        move_far B cur m (near_insert B c x bs) }
      else Some ((c, x) # m, bs))"

definition pq_tick :: "nat \<Rightarrow> 'a PrioQueue \<Rightarrow> 'a PrioQueue option" where
  "pq_tick B q = do {
     let cur = Suc (curBlock q);
     if cur mod (B div 2) = 0 \<and> feMap q \<noteq> [] then do {
       (m, bs) \<leftarrow> move_far B cur (feMap q) (blocks q);
       Some (q\<lparr>curBlock := cur, feMap := m, blocks := bs\<rparr>) }
     else Some (q\<lparr>curBlock := cur\<rparr>) }"

partial_function (option) pq_advance :: "nat \<Rightarrow> 'a PrioQueue \<Rightarrow> 'a PrioQueue option" where
  "pq_advance B q =
     (if occ (blocks q ! (curBlock q mod B)) = 0 then Option.bind (pq_tick B q) (pq_advance B) else Some q)"

declare pq_advance.simps [code]

definition pq_dequeue :: "nat \<Rightarrow> 'a PrioQueue \<Rightarrow> ('a \<times> cycle \<times> 'a PrioQueue) option" where
  "pq_dequeue B q0 = do {
     assert_that (elems q0 \<noteq> 0);
     q \<leftarrow> pq_advance B q0;
     let i = curBlock q mod B;
     (obj, offset, b) \<leftarrow> PQBlock_dequeue (blocks q ! i);
     Some (obj, curBlock q * 64 + offset, q\<lparr>blocks := (blocks q)[i := b], elems := elems q - 1\<rparr>) }"

definition pq_size :: "'a PrioQueue \<Rightarrow> nat" where
  "pq_size q = elems q"

text \<open>\<^verbatim>\<open>firstCycle\<close>: the first populated block of the near half is exact; beyond it a far element may come first.\<close>

definition populated :: "nat \<Rightarrow> 'a PrioQueue \<Rightarrow> nat \<Rightarrow> bool" where
  "populated B q i \<longleftrightarrow> occ (blocks q ! ((curBlock q + i) mod B)) \<noteq> 0"

definition cycle_of :: "nat \<Rightarrow> 'a PrioQueue \<Rightarrow> nat \<Rightarrow> cycle" where
  "cycle_of B q i = (curBlock q + i) * 64 + ctz (occ (blocks q ! ((curBlock q + i) mod B)))"

definition pq_firstCycle :: "nat \<Rightarrow> 'a PrioQueue \<Rightarrow> cycle option" where
  "pq_firstCycle B q = do {
     assert_that (elems q \<noteq> 0);
     case List.find (populated B q) [0..<B div 2] of
       Some i \<Rightarrow> Some (cycle_of B q i)
     | None \<Rightarrow>
         (case List.find (populated B q) [B div 2..<B] of
            Some i \<Rightarrow> Some (if feMap q = [] then cycle_of B q i else min (cycle_of B q i) (fst (hd (feMap q))))
          | None \<Rightarrow> if feMap q = [] then None else Some (fst (hd (feMap q)))) }"

subsection \<open>The bag of queued elements\<close>

definition slot_bag :: "nat \<Rightarrow> 'a PQBlock \<Rightarrow> nat \<Rightarrow> (cycle \<times> 'a) multiset" where
  "slot_bag ab b pos = image_mset (Pair (ab * 64 + pos)) (mset (pq_array b ! pos))"

definition block_bag :: "nat \<Rightarrow> 'a PQBlock \<Rightarrow> (cycle \<times> 'a) multiset" where
  "block_bag ab b = (\<Sum>pos\<in>{0..<64}. slot_bag ab b pos)"

definition near_bag :: "nat \<Rightarrow> nat \<Rightarrow> 'a PQBlock list \<Rightarrow> (cycle \<times> 'a) multiset" where
  "near_bag B cur bs = (\<Sum>ab\<in>{cur..<cur + B}. block_bag ab (bs ! (ab mod B)))"

definition pq_bag :: "nat \<Rightarrow> 'a PrioQueue \<Rightarrow> (cycle \<times> 'a) multiset" where
  "pq_bag B q = near_bag B (curBlock q) (blocks q) + mset (feMap q)"

definition block_ok :: "'a PQBlock \<Rightarrow> bool" where
  "block_ok b \<longleftrightarrow> length (pq_array b) = 64 \<and> (\<forall>pos < 64. bit (occ b) pos \<longleftrightarrow> pq_array b ! pos \<noteq> [])"

text \<open>The far elements lie beyond the ring as it stood at the last half-turn.\<close>

definition far_ok :: "nat \<Rightarrow> nat \<Rightarrow> (cycle \<times> 'a) list \<Rightarrow> bool" where
  "far_ok B cur m \<longleftrightarrow> sorted (map fst m)
     \<and> (\<forall>p \<in> set m. (cur div (B div 2)) * (B div 2) + B \<le> fst p div 64)"

definition pq_inv :: "nat \<Rightarrow> 'a PrioQueue \<Rightarrow> bool" where
  "pq_inv B q \<longleftrightarrow> 0 < B \<and> even B \<and> length (blocks q) = B \<and> (\<forall>b \<in> set (blocks q). block_ok b)
     \<and> far_ok B (curBlock q) (feMap q) \<and> elems q = size (pq_bag B q)"

lemma sum_change_one:
  fixes f' :: "'k \<Rightarrow> 'c multiset"
  assumes "finite K" "k \<in> K" "\<And>j. j \<in> K \<Longrightarrow> j \<noteq> k \<Longrightarrow> g' j = f' j" "g' k = add_mset y (f' k)"
  shows "(\<Sum>j\<in>K. g' j) = add_mset y (\<Sum>j\<in>K. f' j)"
proof -
  have "(\<Sum>j\<in>K. g' j) = g' k + (\<Sum>j\<in>K - {k}. g' j)" using assms(1,2) by (rule sum.remove)
  also have "(\<Sum>j\<in>K - {k}. g' j) = (\<Sum>j\<in>K - {k}. f' j)" using assms(3) by (intro sum.cong) auto
  also have "g' k + (\<Sum>j\<in>K - {k}. f' j) = add_mset y (f' k + (\<Sum>j\<in>K - {k}. f' j))" using assms(4) by simp
  also have "f' k + (\<Sum>j\<in>K - {k}. f' j) = (\<Sum>j\<in>K. f' j)" using sum.remove [OF assms(1,2), of f'] by simp
  finally show ?thesis .
qed

lemma block_bag_change:
  assumes "pos < 64" "length (pq_array b) = 64" "length (pq_array b') = 64"
    and "pq_array b' = (pq_array b)[pos := x # (pq_array b ! pos)]"
  shows "block_bag ab b' = add_mset (ab * 64 + pos, x) (block_bag ab b)"
  unfolding block_bag_def
  by (rule sum_change_one [where k = pos]) (use assms in \<open>auto simp: slot_bag_def\<close>)

lemma mod_window_inj:
  fixes a b :: nat
  assumes "cur \<le> a" "a < cur + B" "cur \<le> b" "b < cur + B" "a mod B = b mod B"
  shows "a = b"
proof -
  have "B dvd a - b" "B dvd b - a" using assms(5) by (metis mod_eq_dvd_iff_nat nat_le_linear diff_is_0_eq dvd_0_right)+
  moreover have "a - b < B" "b - a < B" using assms by auto
  ultimately have "a - b = 0" "b - a = 0" by (auto dest: nat_dvd_not_less)
  then show ?thesis by simp
qed

lemma near_bag_change:
  assumes "length bs = B" "cur \<le> c div 64" "c div 64 < cur + B"
    and "block_bag (c div 64) b' = add_mset (c, x) (block_bag (c div 64) (bs ! (c div 64 mod B)))"
  shows "near_bag B cur (bs[c div 64 mod B := b']) = add_mset (c, x) (near_bag B cur bs)"
  unfolding near_bag_def
proof (rule sum_change_one [where k = "c div 64"])
  fix j assume "j \<in> {cur..<cur + B}" "j \<noteq> c div 64"
  then have "c div 64 mod B \<noteq> j mod B" using mod_window_inj [of cur j B "c div 64"] assms(2,3) by auto
  then show "block_bag j (bs[c div 64 mod B := b'] ! (j mod B)) = block_bag j (bs ! (j mod B))" by simp
qed (use assms in auto)

subsection \<open>Blocks and insertions\<close>

lemma ctz_lowest:
  fixes w :: "'a::len word"
  assumes "w \<noteq> 0"
  shows "ctz w < LENGTH('a)" "bit w (ctz w)" "\<And>j. j < ctz w \<Longrightarrow> \<not> bit w j"
proof -
  let ?P = "\<lambda>i. \<not> bit w i" let ?xs = "[0..<LENGTH('a)]"
  have "\<exists>n. bit w n" using assms by (auto simp: bit_eq_iff)
  then obtain n where n: "bit w n" "n < LENGTH('a)" using bit_imp_le_length by blast
  then have "takeWhile ?P ?xs \<noteq> ?xs" by (metis atLeastLessThan_iff set_takeWhileD set_upt zero_le)
  then have less: "length (takeWhile ?P ?xs) < length ?xs"
    by (metis length_takeWhile_le nat_less_le takeWhile_eq_take take_all)
  then show "ctz w < LENGTH('a)" by (simp add: ctz_def)
  show "bit w (ctz w)" using nth_length_takeWhile [OF less] less by (simp add: ctz_def)
  fix j assume j: "j < ctz w"
  then have "takeWhile ?P ?xs ! j = j" using less by (simp add: ctz_def takeWhile_nth)
  moreover have "takeWhile ?P ?xs ! j \<in> set (takeWhile ?P ?xs)" using j by (simp add: ctz_def)
  ultimately show "\<not> bit w j" by (metis set_takeWhileD)
qed

lemma block_ok_occ: "block_ok b \<Longrightarrow> occ b \<noteq> 0 \<longleftrightarrow> (\<exists>pos < 64. pq_array b ! pos \<noteq> [])"
proof -
  assume ok: "block_ok b"
  have "occ b \<noteq> 0 \<longleftrightarrow> (\<exists>pos < 64. bit (occ b) pos)"
    by (auto simp: bit_eq_iff dest: bit_imp_le_length)
  with ok show ?thesis by (auto simp: block_ok_def)
qed

lemma block_ok_enqueue: "block_ok b \<Longrightarrow> pos < 64 \<Longrightarrow> block_ok (PQBlock_enqueue obj pos b)"
  by (auto simp: block_ok_def PQBlock_enqueue_def bit_or_iff bit_exp_iff nth_list_update)

lemma block_bag_enqueue:
  "block_ok b \<Longrightarrow> pos < 64 \<Longrightarrow> block_bag ab (PQBlock_enqueue x pos b) = add_mset (ab * 64 + pos, x) (block_bag ab b)"
  by (intro block_bag_change) (auto simp: block_ok_def PQBlock_enqueue_def)

lemma block_bag_member: "p \<in># block_bag ab b \<longleftrightarrow> (\<exists>pos < 64. fst p = ab * 64 + pos \<and> snd p \<in> set (pq_array b ! pos))"
  by (cases p) (auto simp: block_bag_def slot_bag_def set_mset_sum)

lemma block_bag_empty: "block_ok b \<Longrightarrow> block_bag ab b = {#} \<longleftrightarrow> occ b = 0"
  using block_ok_occ [of b] block_bag_member [of _ ab b]
  by (metis ex_in_conv fst_conv set_empty2 set_mset_eq_empty_iff snd_conv)

lemma PQBlock_dequeue_total:
  assumes "block_ok b" "occ b \<noteq> 0"
  obtains x pos b' where "PQBlock_dequeue b = Some (x, pos, b')" "pos < 64" "pos = ctz (occ b)" "block_ok b'"
    "block_bag ab b = add_mset (ab * 64 + pos, x) (block_bag ab b')"
    "\<And>p. p \<in># block_bag ab b \<Longrightarrow> ab * 64 + pos \<le> fst p"
proof -
  let ?pos = "ctz (occ b)"
  have pos: "?pos < 64" and low: "bit (occ b) ?pos" "\<And>j. j < ?pos \<Longrightarrow> \<not> bit (occ b) j"
    using ctz_lowest [OF assms(2)] by auto
  then obtain x xs where xs: "pq_array b ! ?pos = x # xs"
    using assms(1) by (metis block_ok_def neq_Nil_conv)
  define b' where "b' = b\<lparr>pq_array := (pq_array b)[?pos := xs],
      occ := (if xs = [] then occ b XOR push_bit ?pos 1 else occ b)\<rparr>"
  have "PQBlock_dequeue b = Some (x, ?pos, b')" using xs assms(2) by (simp add: PQBlock_dequeue_def b'_def Let_def)
  moreover have "block_ok b'"
    using assms(1) pos low(1) xs
    by (auto simp: block_ok_def b'_def nth_list_update bit_xor_iff bit_exp_iff)
  moreover have "block_bag ab b = add_mset (ab * 64 + ?pos, x) (block_bag ab b')"
    using pos xs assms(1)
    by (intro block_bag_change) (auto simp: block_ok_def b'_def simp flip: xs intro!: list_update_id [symmetric])
  moreover have "ab * 64 + ?pos \<le> fst p" if p: "p \<in># block_bag ab b" for p
  proof -
    obtain k where k: "k < 64" "fst p = ab * 64 + k" "pq_array b ! k \<noteq> []"
      using p by (metis block_bag_member empty_iff list.set(1))
    then have "bit (occ b) k" using assms(1) by (simp add: block_ok_def)
    then show ?thesis using low(2) [of k] k(2) by (cases "k < ?pos") auto
  qed
  ultimately show thesis using that pos by blast
qed

lemma near_insert_bag:
  assumes "length bs = B" "\<forall>b \<in> set bs. block_ok b" "cur \<le> c div 64" "c div 64 < cur + B"
  shows "near_bag B cur (near_insert B c x bs) = add_mset (c, x) (near_bag B cur bs)"
    "length (near_insert B c x bs) = B" "\<forall>b \<in> set (near_insert B c x bs). block_ok b"
proof -
  have i: "c div 64 mod B < length bs" using assms by simp
  then have ok: "block_ok (bs ! (c div 64 mod B))" using assms(2) by simp
  have "block_bag (c div 64) (PQBlock_enqueue x (c mod 64) (bs ! (c div 64 mod B)))
      = add_mset (c, x) (block_bag (c div 64) (bs ! (c div 64 mod B)))"
    using block_bag_enqueue [OF ok, of "c mod 64" "c div 64" x] by simp
  from near_bag_change [OF assms(1,3,4) this]
  show "near_bag B cur (near_insert B c x bs) = add_mset (c, x) (near_bag B cur bs)"
    by (simp add: near_insert_def Let_def)
  show "length (near_insert B c x bs) = B" using assms(1) by (simp add: near_insert_def Let_def)
  show "\<forall>b \<in> set (near_insert B c x bs). block_ok b"
    using assms(2) block_ok_enqueue [OF ok, of "c mod 64" x]
    by (auto simp: near_insert_def Let_def dest!: set_update_subset_insert [THEN subsetD])
qed

lemma fe_insert_mset: "mset (fe_insert c x m) = add_mset (c, x) (mset m)"
proof -
  have "mset (takeWhile (\<lambda>p. fst p \<le> c) m) + mset (dropWhile (\<lambda>p. fst p \<le> c) m) = mset m"
    by (metis mset_append takeWhile_dropWhile_id)
  then show ?thesis by (simp add: fe_insert_def)
qed

lemma fe_insert_sorted: "sorted (map fst m) \<Longrightarrow> sorted (map fst (fe_insert c x m))"
  by (induction m) (fastforce simp: fe_insert_def dest: set_takeWhileD set_dropWhileD)+

lemma fe_insert_set: "set (fe_insert c x m) = insert (c, x) (set m)"
  using arg_cong [OF fe_insert_mset [of c x m], of set_mset] by simp

lemma fe_insert_length: "length (fe_insert c x m) = Suc (length m)"
  using arg_cong [OF fe_insert_mset [of c x m], of size] by simp

subsection \<open>The operations on the bag\<close>

lemma enqueue_ok:
  assumes "pq_inv B q" "curBlock q \<le> c div 64"
  shows "\<exists>q'. pq_enqueue B x c q = Some q' \<and> pq_inv B q' \<and> pq_bag B q' = add_mset (c, x) (pq_bag B q)
    \<and> curBlock q' = curBlock q"
proof (cases "c div 64 < curBlock q + B")
  case True
  note ins = near_insert_bag [of "blocks q" B "curBlock q" c x]
  show ?thesis using assms True ins by (simp add: pq_enqueue_def pq_inv_def pq_bag_def)
next
  case False
  have "(curBlock q div (B div 2)) * (B div 2) \<le> curBlock q" by simp
  then have "(curBlock q div (B div 2)) * (B div 2) + B \<le> c div 64" using False by linarith
  then have "far_ok B (curBlock q) (fe_insert c x (feMap q))"
    using assms(1) by (simp add: pq_inv_def far_ok_def fe_insert_sorted fe_insert_set)
  then show ?thesis using assms False
    by (simp add: pq_enqueue_def pq_inv_def pq_bag_def fe_insert_mset fe_insert_length)
qed

lemma move_far_ok:
  assumes "length bs = B" "\<forall>b \<in> set bs. block_ok b" "sorted (map fst m)" "\<forall>p \<in> set m. cur \<le> fst p div 64"
  shows "\<exists>m' bs'. move_far B cur m bs = Some (m', bs') \<and> length bs' = B \<and> (\<forall>b \<in> set bs'. block_ok b)
    \<and> near_bag B cur bs' + mset m' = near_bag B cur bs + mset m \<and> sorted (map fst m')
    \<and> (\<forall>p \<in> set m'. cur + B \<le> fst p div 64)"
  using assms
proof (induction m arbitrary: bs)
  case (Cons p m)
  obtain c x where p: "p = (c, x)" by force
  show ?case
  proof (cases "c < (cur + B) * 64")
    case True
    then have c: "cur \<le> c div 64" "c div 64 < cur + B" using Cons.prems(4) p by (auto simp: less_mult_imp_div_less)
    note ins = near_insert_bag [OF Cons.prems(1,2) c, of x]
    have "near_bag B cur (near_insert B c x bs) + mset m = near_bag B cur bs + mset (p # m)" using ins(1) p by simp
    then show ?thesis using Cons.IH [OF ins(2,3)] Cons.prems(3,4) True c p by auto
  next
    case False
    then have "\<forall>r \<in> set (p # m). (cur + B) * 64 \<le> fst r" using Cons.prems(3) p by auto
    then have "\<forall>r \<in> set (p # m). cur + B \<le> fst r div 64" by (auto simp: less_eq_div_iff_mult_less_eq)
    then show ?thesis using Cons.prems False p by simp
  qed
qed simp

lemma near_bag_shift:
  assumes "0 < B" "block_ok (bs ! (cur mod B))" "occ (bs ! (cur mod B)) = 0"
  shows "near_bag B (Suc cur) bs = near_bag B cur bs"
proof -
  let ?f = "\<lambda>ab. block_bag ab (bs ! (ab mod B))"
  have e: "?f cur = {#}" "?f (cur + B) = {#}" using assms block_bag_empty by auto
  have "{cur..<cur + B} = insert cur {Suc cur..<cur + B}" using assms(1) by auto
  then have "near_bag B cur bs = ?f cur + sum ?f {Suc cur..<cur + B}" by (simp add: near_bag_def)
  moreover have "{Suc cur..<Suc cur + B} = insert (cur + B) {Suc cur..<cur + B}" using assms(1) by auto
  then have "near_bag B (Suc cur) bs = ?f (cur + B) + sum ?f {Suc cur..<cur + B}" by (simp add: near_bag_def)
  ultimately show ?thesis using e by simp
qed

lemma half_turn:
  fixes cur h :: nat
  assumes "0 < h"
  shows "Suc cur mod h \<noteq> 0 \<Longrightarrow> Suc cur div h = cur div h"
    "Suc cur mod h = 0 \<Longrightarrow> Suc cur div h * h = Suc cur \<and> Suc cur = cur div h * h + h"
proof -
  show "Suc cur mod h \<noteq> 0 \<Longrightarrow> Suc cur div h = cur div h" by (simp add: div_Suc split: if_splits)
  assume 0: "Suc cur mod h = 0"
  then have "Suc cur div h * h = Suc cur" by (metis add.right_neutral div_mult_mod_eq)
  moreover have "Suc cur div h = Suc (cur div h)" using 0 by (simp add: div_Suc)
  ultimately show "Suc cur div h * h = Suc cur \<and> Suc cur = cur div h * h + h" by simp
qed

lemma tick_ok:
  assumes "pq_inv B q" "occ (blocks q ! (curBlock q mod B)) = 0"
  shows "\<exists>q'. pq_tick B q = Some q' \<and> pq_inv B q' \<and> pq_bag B q' = pq_bag B q \<and> curBlock q' = Suc (curBlock q)
    \<and> elems q' = elems q"
proof -
  note inv = assms(1) [unfolded pq_inv_def]
  let ?h = "B div 2" and ?cur = "Suc (curBlock q)"
  have "0 < B" "even B" using inv by auto
  then have h: "0 < ?h" "B = ?h + ?h" by presburger+
  have "block_ok (blocks q ! (curBlock q mod B))" using inv by simp
  then have shift: "near_bag B ?cur (blocks q) = near_bag B (curBlock q) (blocks q)"
    using near_bag_shift inv assms(2) by blast
  show ?thesis
  proof (cases "?cur mod ?h = 0")
    case False
    then have "far_ok B ?cur (feMap q)" using inv half_turn(1) [OF h(1), of "curBlock q"] by (simp add: far_ok_def)
    then show ?thesis using inv shift False by (simp add: pq_tick_def pq_inv_def pq_bag_def Let_def)
  next
    case True
    note turn = half_turn(2) [OF h(1) True]
    have near: "\<forall>p \<in> set (feMap q). ?cur \<le> fst p div 64"
      using inv turn h(2) unfolding far_ok_def by force
    obtain m' bs' where mv: "move_far B ?cur (feMap q) (blocks q) = Some (m', bs')" "length bs' = B"
        "\<forall>b \<in> set bs'. block_ok b" "near_bag B ?cur bs' + mset m' = near_bag B ?cur (blocks q) + mset (feMap q)"
        "sorted (map fst m')" "\<forall>p \<in> set m'. ?cur + B \<le> fst p div 64"
      using move_far_ok [of "blocks q" B "feMap q" ?cur] inv near unfolding far_ok_def by blast
    have "far_ok B ?cur m'" by (simp only: far_ok_def conjunct1 [OF turn]) (use mv(5,6) in blast)
    moreover define q' where "q' = (if feMap q = [] then q\<lparr>curBlock := ?cur\<rparr> else q\<lparr>curBlock := ?cur, feMap := m', blocks := bs'\<rparr>)"
    moreover have bag: "pq_bag B q' = pq_bag B q" using mv(4) shift by (simp add: q'_def pq_bag_def)
    moreover have "elems q' = elems q" by (simp add: q'_def)
    ultimately have "pq_inv B q'" using inv mv(2,3) by (auto simp: pq_inv_def far_ok_def)
    moreover have "pq_tick B q = Some q'" using True mv(1) by (simp add: pq_tick_def q'_def Let_def)
    ultimately show ?thesis using bag by (auto simp: q'_def)
  qed
qed

text \<open>Where an element can be, seen from the current block.\<close>

lemma bag_bounds:
  assumes "pq_inv B q" "p \<in># pq_bag B q"
  shows "curBlock q \<le> fst p div 64"
    "occ (blocks q ! (curBlock q mod B)) = 0 \<Longrightarrow> curBlock q < fst p div 64"
    "p \<notin># near_bag B (curBlock q) (blocks q) \<Longrightarrow> curBlock q + B div 2 < fst p div 64"
proof -
  note inv = assms(1) [unfolded pq_inv_def]
  have "0 < B" "even B" using inv by auto
  then have h: "0 < B div 2" "B = B div 2 + B div 2" by presburger+
  have far: "curBlock q + B div 2 < fst p div 64" if "p \<in> set (feMap q)"
  proof -
    have "(curBlock q div (B div 2)) * (B div 2) + B \<le> fst p div 64" using that inv by (simp add: far_ok_def)
    moreover have "curBlock q < (curBlock q div (B div 2)) * (B div 2) + B div 2"
      using h(1) by (metis add.commute add_less_cancel_right div_mult_mod_eq mod_less_divisor)
    ultimately show ?thesis using h(2) by linarith
  qed
  have near: "curBlock q \<le> fst p div 64 \<and> (occ (blocks q ! (curBlock q mod B)) = 0 \<longrightarrow> curBlock q < fst p div 64)"
    if p: "p \<in># near_bag B (curBlock q) (blocks q)"
  proof -
    obtain ab where ab: "curBlock q \<le> ab" "ab < curBlock q + B" "p \<in># block_bag ab (blocks q ! (ab mod B))"
      using p by (auto simp: near_bag_def set_mset_sum)
    then obtain pos where "pos < 64" "fst p = ab * 64 + pos" by (auto simp: block_bag_member)
    then have "fst p div 64 = ab" by simp
    moreover have "occ (blocks q ! (ab mod B)) \<noteq> 0"
      using ab(3) block_bag_empty [of "blocks q ! (ab mod B)" ab] inv by auto
    ultimately show ?thesis using ab(1) by (metis le_neq_implies_less)
  qed
  show "curBlock q \<le> fst p div 64" "occ (blocks q ! (curBlock q mod B)) = 0 \<Longrightarrow> curBlock q < fst p div 64"
    "p \<notin># near_bag B (curBlock q) (blocks q) \<Longrightarrow> curBlock q + B div 2 < fst p div 64"
    using far near assms(2) unfolding pq_bag_def by fastforce+
qed

lemma advance_ok:
  assumes "pq_inv B q" "p \<in># pq_bag B q"
  shows "\<exists>q'. pq_advance B q = Some q' \<and> pq_inv B q' \<and> pq_bag B q' = pq_bag B q
    \<and> occ (blocks q' ! (curBlock q' mod B)) \<noteq> 0"
  using assms
proof (induction "fst p div 64 - curBlock q" arbitrary: q rule: less_induct)
  case less
  show ?case
  proof (cases "occ (blocks q ! (curBlock q mod B)) = 0")
    case True
    obtain q1 where q1: "pq_tick B q = Some q1" "pq_inv B q1" "pq_bag B q1 = pq_bag B q" "curBlock q1 = Suc (curBlock q)"
      using tick_ok [OF less.prems(1) True] by blast
    have "fst p div 64 - curBlock q1 < fst p div 64 - curBlock q"
      using bag_bounds(2) [OF less.prems True] q1(4) by simp
    moreover have "p \<in># pq_bag B q1" using less.prems(2) q1(3) by simp
    ultimately obtain q' where "pq_advance B q1 = Some q'" "pq_inv B q'" "pq_bag B q' = pq_bag B q1"
        "occ (blocks q' ! (curBlock q' mod B)) \<noteq> 0"
      using less.hyps q1(2) by blast
    then show ?thesis using True q1 by (subst pq_advance.simps) simp
  next
    case False
    then show ?thesis using less.prems by (subst pq_advance.simps) simp
  qed
qed

lemma dequeue_ok:
  assumes "pq_inv B q" "pq_bag B q \<noteq> {#}"
  shows "\<exists>x c q'. pq_dequeue B q = Some (x, c, q') \<and> pq_inv B q' \<and> pq_bag B q = add_mset (c, x) (pq_bag B q')
    \<and> (\<forall>p \<in># pq_bag B q. c \<le> fst p) \<and> curBlock q' = c div 64"
proof -
  obtain p where "p \<in># pq_bag B q" using assms(2) by blast
  then obtain q1 where q1: "pq_advance B q = Some q1" "pq_inv B q1" "pq_bag B q1 = pq_bag B q"
      "occ (blocks q1 ! (curBlock q1 mod B)) \<noteq> 0"
    using advance_ok [OF assms(1)] by blast
  note inv = q1(2) [unfolded pq_inv_def]
  let ?i = "curBlock q1 mod B" and ?cur = "curBlock q1"
  have i: "?i < length (blocks q1)" using inv by simp
  have ok: "block_ok (blocks q1 ! ?i)" using inv i by simp
  obtain x pos b' where b': "PQBlock_dequeue (blocks q1 ! ?i) = Some (x, pos, b')" "pos < 64" "block_ok b'"
      "block_bag ?cur (blocks q1 ! ?i) = add_mset (?cur * 64 + pos, x) (block_bag ?cur b')"
      "\<And>p. p \<in># block_bag ?cur (blocks q1 ! ?i) \<Longrightarrow> ?cur * 64 + pos \<le> fst p"
    using PQBlock_dequeue_total [OF ok q1(4), of ?cur] by metis
  let ?c = "?cur * 64 + pos" and ?bs = "(blocks q1)[?i := b']"
  define q' where "q' = q1\<lparr>blocks := ?bs, elems := elems q1 - 1\<rparr>"
  have c: "?c div 64 = ?cur" using b'(2) by simp
  have "near_bag B ?cur (?bs[?i := blocks q1 ! ?i]) = add_mset (?c, x) (near_bag B ?cur ?bs)"
    using near_bag_change [of ?bs B ?cur ?c "blocks q1 ! ?i" x] inv b'(4) i c by simp
  then have bag: "pq_bag B q1 = add_mset (?c, x) (pq_bag B q')" by (simp add: q'_def pq_bag_def)
  have "\<forall>b \<in> set ?bs. block_ok b" using inv b'(3) by (auto dest!: set_update_subset_insert [THEN subsetD])
  then have "pq_inv B q'" using inv bag by (simp add: pq_inv_def q'_def pq_bag_def)
  moreover have "?c \<le> fst p" if p: "p \<in># pq_bag B q" for p
  proof (cases "p \<in># block_bag ?cur (blocks q1 ! ?i)")
    case False
    have "fst p div 64 \<noteq> ?cur"
    proof (cases "p \<in># near_bag B ?cur (blocks q1)")
      case True
      then obtain ab where ab: "p \<in># block_bag ab (blocks q1 ! (ab mod B))" by (auto simp: near_bag_def set_mset_sum)
      with False have "ab \<noteq> ?cur" by auto
      moreover have "fst p div 64 = ab" using ab by (auto simp: block_bag_member)
      ultimately show ?thesis by simp
    next
      case False
      then show ?thesis using bag_bounds(3) [OF q1(2), of p] p q1(3) by simp
    qed
    then have "Suc ?cur \<le> fst p div 64" using bag_bounds(1) [OF q1(2), of p] p q1(3) by simp
    then have "Suc ?cur * 64 \<le> fst p" by (metis div_times_less_eq_dividend le_trans mult_le_mono1)
    then show ?thesis using b'(2) by simp
  qed (use b'(5) in blast)
  moreover have "elems q \<noteq> 0" using assms by (simp add: pq_inv_def)
  ultimately show ?thesis using q1(1,3) b'(1) bag c
    by (intro exI [of _ x] exI [of _ ?c] exI [of _ q']) (auto simp: pq_dequeue_def q'_def Let_def)
qed

lemma find_upt_Some:
  assumes "List.find P [a..<b] = Some i"
  shows "a \<le> i \<and> i < b \<and> P i \<and> (\<forall>j. a \<le> j \<and> j < i \<longrightarrow> \<not> P j)"
proof -
  obtain k where k: "k < b - a" "P (a + k)" "i = a + k" "\<forall>j < k. \<not> P (a + j)"
    using assms by (auto simp: find_Some_iff)
  have "\<not> P j" if "a \<le> j" "j < i" for j
    using k(3,4) that by (metis le_Suc_ex nat_add_left_cancel_less)
  with k show ?thesis by auto
qed

lemma near_member:
  assumes "p \<in># near_bag B (curBlock q) (blocks q)" "\<forall>b \<in> set (blocks q). block_ok b" "length (blocks q) = B"
  obtains i where "i < B" "populated B q i" "p \<in># block_bag (curBlock q + i) (blocks q ! ((curBlock q + i) mod B))"
proof -
  obtain ab where ab: "curBlock q \<le> ab" "ab < curBlock q + B" "p \<in># block_bag ab (blocks q ! (ab mod B))"
    using assms(1) by (auto simp: near_bag_def set_mset_sum)
  then have "0 < B" by auto
  have "occ (blocks q ! (ab mod B)) \<noteq> 0"
    using ab(3) block_bag_empty [of "blocks q ! (ab mod B)" ab] assms(2,3) \<open>0 < B\<close> by auto
  then show thesis using that [of "ab - curBlock q"] ab by (simp add: populated_def)
qed

lemma first_near:
  assumes "pq_inv B q" "i < B" "populated B q i" "\<forall>j < i. \<not> populated B q j"
  shows "\<exists>p \<in># pq_bag B q. fst p = cycle_of B q i"
    "\<And>p. p \<in># near_bag B (curBlock q) (blocks q) \<Longrightarrow> cycle_of B q i \<le> fst p"
    "cycle_of B q i div 64 = curBlock q + i"
proof -
  note inv = assms(1) [unfolded pq_inv_def]
  let ?b = "blocks q ! ((curBlock q + i) mod B)" and ?ab = "curBlock q + i"
  have ok: "block_ok ?b" using inv by simp
  have occ: "occ ?b \<noteq> 0" using assms(3) by (simp add: populated_def)
  obtain x b' where b': "ctz (occ ?b) < 64" "block_bag ?ab ?b = add_mset (?ab * 64 + ctz (occ ?b), x) (block_bag ?ab b')"
      "\<And>p. p \<in># block_bag ?ab ?b \<Longrightarrow> ?ab * 64 + ctz (occ ?b) \<le> fst p"
    using PQBlock_dequeue_total [OF ok occ, of ?ab] by metis
  then have "(cycle_of B q i, x) \<in># block_bag ?ab ?b" by (simp add: cycle_of_def)
  moreover have "?ab \<in> {curBlock q..<curBlock q + B}" using assms(2) by simp
  ultimately have "(cycle_of B q i, x) \<in># near_bag B (curBlock q) (blocks q)"
    unfolding near_bag_def by (auto simp: set_mset_sum)
  then have "(cycle_of B q i, x) \<in># pq_bag B q" by (simp add: pq_bag_def)
  then show "\<exists>p \<in># pq_bag B q. fst p = cycle_of B q i" by force
  show "cycle_of B q i div 64 = ?ab" using b'(1) by (simp add: cycle_of_def)
  fix p assume "p \<in># near_bag B (curBlock q) (blocks q)"
  then obtain j where j: "populated B q j" "p \<in># block_bag (curBlock q + j) (blocks q ! ((curBlock q + j) mod B))"
    using near_member inv by metis
  then have "i \<le> j" using assms(4) leI by blast
  show "cycle_of B q i \<le> fst p"
  proof (cases "j = i")
    case True
    then show ?thesis using j(2) b'(3) by (simp add: cycle_of_def)
  next
    case False
    then have "Suc ?ab \<le> curBlock q + j" using \<open>i \<le> j\<close> by simp
    moreover have "(curBlock q + j) * 64 \<le> fst p" using j(2) by (auto simp: block_bag_member)
    ultimately have "Suc ?ab * 64 \<le> fst p" by (meson le_trans mult_le_mono1)
    then show ?thesis using b'(1) by (simp add: cycle_of_def)
  qed
qed

lemma firstCycle_ok:
  assumes "pq_inv B q" "pq_bag B q \<noteq> {#}"
  shows "\<exists>c. pq_firstCycle B q = Some c \<and> (\<exists>p \<in># pq_bag B q. fst p = c) \<and> (\<forall>p \<in># pq_bag B q. c \<le> fst p)"
proof -
  note inv = assms(1) [unfolded pq_inv_def]
  have "0 < B" "even B" using inv by auto
  then have h: "0 < B div 2" "B = B div 2 + B div 2" by presburger+
  have el: "elems q \<noteq> 0" using assms by (simp add: pq_inv_def)
  have alt: "pq_firstCycle B q = (case List.find (populated B q) [0..<B div 2] of
       Some i \<Rightarrow> Some (cycle_of B q i)
     | None \<Rightarrow> (case List.find (populated B q) [B div 2..<B] of
            Some i \<Rightarrow> Some (if feMap q = [] then cycle_of B q i else min (cycle_of B q i) (fst (hd (feMap q))))
          | None \<Rightarrow> if feMap q = [] then None else Some (fst (hd (feMap q)))))"
    using el by (simp add: pq_firstCycle_def)
  have split: "p \<in># near_bag B (curBlock q) (blocks q) \<or> p \<in> set (feMap q)" if "p \<in># pq_bag B q" for p
    using that by (simp add: pq_bag_def)
  have hd: "fst (hd (feMap q)) \<le> fst p" if "p \<in> set (feMap q)" for p
    using that inv by (cases "feMap q") (auto simp: far_ok_def)
  have hd_in: "feMap q \<noteq> [] \<Longrightarrow> hd (feMap q) \<in># pq_bag B q" by (simp add: pq_bag_def)
  show ?thesis
  proof (cases "List.find (populated B q) [0..<B div 2]")
    case (Some i)
    have i: "i < B div 2" "populated B q i" "\<forall>j < i. \<not> populated B q j" using find_upt_Some [OF Some] by auto
    note f = first_near [OF assms(1) _ i(2,3)]
    have "cycle_of B q i \<le> fst p" if "p \<in># pq_bag B q" for p
    proof (cases "p \<in># near_bag B (curBlock q) (blocks q)")
      case False
      then have "cycle_of B q i div 64 < fst p div 64" using bag_bounds(3) [OF assms(1) that] f(3) i(1) h by linarith
      then show ?thesis by (meson div_le_mono leI le_less_trans less_imp_le not_less)
    qed (use f(2) i(1) h(2) in simp)
    then show ?thesis using alt Some f(1) i(1) h(2) by simp
  next
    case None
    then have low: "\<forall>j < B div 2. \<not> populated B q j" by (auto simp: find_None_iff)
    show ?thesis
    proof (cases "List.find (populated B q) [B div 2..<B]")
      case (Some i)
      then have i: "i < B" "populated B q i" "\<forall>j < i. \<not> populated B q j"
        using find_upt_Some [OF Some] low by (auto simp: not_less) (metis leI)
      note f = first_near [OF assms(1) i]
      show ?thesis
      proof (cases "feMap q = []")
        case True
        then show ?thesis using alt None Some f(1,2) split by auto
      next
        case False
        then have "\<forall>p \<in># pq_bag B q. min (cycle_of B q i) (fst (hd (feMap q))) \<le> fst p"
          using split f(2) hd by (meson min.coboundedI1 min.coboundedI2)
        then show ?thesis using alt None Some f(1) hd_in [OF False] False
          by (auto simp: min_def)
      qed
    next
      case none: None
      have "\<not> populated B q j" if "j < B" for j
        using low none that by (cases "j < B div 2") (auto simp: find_None_iff)
      then have "p \<notin># near_bag B (curBlock q) (blocks q)" for p using near_member inv by metis
      then have far: "\<forall>p \<in># pq_bag B q. p \<in> set (feMap q)" using split by blast
      then have "feMap q \<noteq> []" using assms(2) by (metis list.set(1) empty_iff multiset_nonemptyE)
      then show ?thesis using alt None none far hd hd_in by auto
    qed
  qed
qed

subsection \<open>The interface\<close>

text \<open>Emptying a queue by repeated calls of its dequeue operation, and filling one.\<close>

primrec drain :: "('q \<Rightarrow> ('a \<times> cycle \<times> 'q) option) \<Rightarrow> nat \<Rightarrow> 'q \<Rightarrow> (cycle \<times> 'a) list option" where
  "drain deq 0 q = Some []"
| "drain deq (Suc n) q = do { (x, c, q') \<leftarrow> deq q; ys \<leftarrow> drain deq n q'; Some ((c, x) # ys) }"

primrec fill :: "('a \<Rightarrow> cycle \<Rightarrow> 'q \<Rightarrow> 'q option) \<Rightarrow> (cycle \<times> 'a) list \<Rightarrow> 'q \<Rightarrow> 'q option" where
  "fill enq [] q = Some q"
| "fill enq (p # ps) q = do { q' \<leftarrow> enq (snd p) (fst p) q; fill enq ps q' }"

text \<open>\<open>horizon q\<close> is the earliest cycle the queue still accepts.\<close>

locale prio_queue =
  fixes enq :: "'a \<Rightarrow> cycle \<Rightarrow> 'q \<Rightarrow> 'q option"
    and deq :: "'q \<Rightarrow> ('a \<times> cycle \<times> 'q) option"
    and first :: "'q \<Rightarrow> cycle option"
    and bag :: "'q \<Rightarrow> (cycle \<times> 'a) multiset"
    and horizon :: "'q \<Rightarrow> cycle"
    and inv :: "'q \<Rightarrow> bool"
  assumes enq_law: "inv q \<Longrightarrow> horizon q \<le> c \<Longrightarrow>
      \<exists>q'. enq x c q = Some q' \<and> inv q' \<and> bag q' = add_mset (c, x) (bag q) \<and> horizon q' = horizon q"
    and deq_law: "inv q \<Longrightarrow> bag q \<noteq> {#} \<Longrightarrow>
      \<exists>x c q'. deq q = Some (x, c, q') \<and> inv q' \<and> bag q = add_mset (c, x) (bag q')
        \<and> (\<forall>p \<in># bag q. c \<le> fst p) \<and> horizon q' \<le> c"
    and first_law: "inv q \<Longrightarrow> bag q \<noteq> {#} \<Longrightarrow>
      \<exists>c. first q = Some c \<and> (\<exists>p \<in># bag q. fst p = c) \<and> (\<forall>p \<in># bag q. c \<le> fst p)"
begin

lemma first_deq:
  assumes "inv q" "bag q \<noteq> {#}"
  shows "\<exists>x c q'. deq q = Some (x, c, q') \<and> first q = Some c"
proof -
  obtain x c q' where d: "deq q = Some (x, c, q')" "bag q = add_mset (c, x) (bag q')" "\<forall>p \<in># bag q. c \<le> fst p"
    using deq_law [OF assms] by blast
  obtain c' where c': "first q = Some c'" "\<exists>p \<in># bag q. fst p = c'" "\<forall>p \<in># bag q. c' \<le> fst p"
    using first_law [OF assms] by blast
  have "(c, x) \<in># bag q" using d(2) by simp
  then have "c' \<le> c" using c'(3) by fastforce
  moreover have "c \<le> c'" using c'(2) d(3) by blast
  ultimately show ?thesis using d(1) c'(1) by simp
qed

lemma fill_bag:
  assumes "inv q" "\<forall>p \<in> set ps. horizon q \<le> fst p"
  shows "\<exists>q'. fill enq ps q = Some q' \<and> inv q' \<and> bag q' = mset ps + bag q"
  using assms
proof (induction ps arbitrary: q)
  case (Cons p ps)
  obtain q1 where "enq (snd p) (fst p) q = Some q1" "inv q1" "bag q1 = add_mset p (bag q)" "horizon q1 = horizon q"
    using enq_law [of q "fst p" "snd p"] Cons.prems by auto
  then show ?case using Cons.IH [of q1] Cons.prems(2) by auto
qed simp

lemma drain_bag:
  assumes "inv q" "size (bag q) = n"
  shows "\<exists>ys. drain deq n q = Some ys \<and> mset ys = bag q \<and> sorted (map fst ys)"
  using assms
proof (induction n arbitrary: q)
  case (Suc n)
  then have "bag q \<noteq> {#}" by auto
  then obtain x c q' where d: "deq q = Some (x, c, q')" "inv q'" "bag q = add_mset (c, x) (bag q')"
      "\<forall>p \<in># bag q. c \<le> fst p"
    using deq_law Suc.prems(1) by blast
  then obtain ys where ys: "drain deq n q' = Some ys" "mset ys = bag q'" "sorted (map fst ys)"
    using Suc.IH [OF d(2)] Suc.prems(2) by auto
  have "\<forall>p \<in> set ys. c \<le> fst p" using ys(2) d(3,4) by (metis set_mset_mset union_iff add_mset_add_single)
  then show ?case using d ys by simp
qed simp

end

interpretation cal: prio_queue "pq_enqueue B" "pq_dequeue B" "pq_firstCycle B" "pq_bag B" "\<lambda>q. curBlock q * 64" "pq_inv B" for B
proof unfold_locales
  fix q :: "'a PrioQueue" and c x
  assume "pq_inv B q" "curBlock q * 64 \<le> c"
  then show "\<exists>q'. pq_enqueue B x c q = Some q' \<and> pq_inv B q' \<and> pq_bag B q' = add_mset (c, x) (pq_bag B q)
      \<and> curBlock q' * 64 = curBlock q * 64"
    using enqueue_ok [of B q c x] by (auto simp: less_eq_div_iff_mult_less_eq)
next
  fix q :: "'a PrioQueue"
  assume "pq_inv B q" "pq_bag B q \<noteq> {#}"
  then show "\<exists>x c q'. pq_dequeue B q = Some (x, c, q') \<and> pq_inv B q' \<and> pq_bag B q = add_mset (c, x) (pq_bag B q')
      \<and> (\<forall>p \<in># pq_bag B q. c \<le> fst p) \<and> curBlock q' * 64 \<le> c"
    using dequeue_ok by fastforce
qed (rule firstCycle_ok)

subsection \<open>Properties\<close>

definition PQ_BLOCKS :: nat where "PQ_BLOCKS = 1024"

lemma PrioQueue_new_inv:
  assumes "0 < B" "even B"
  shows "pq_inv B (PrioQueue_new B :: 'a PrioQueue) \<and> pq_bag B (PrioQueue_new B :: 'a PrioQueue) = {#}"
proof -
  have "block_bag ab (PQBlock_new :: 'a PQBlock) = {#}" for ab by (simp add: block_bag_def slot_bag_def PQBlock_new_def)
  then have "pq_bag B (PrioQueue_new B :: 'a PrioQueue) = {#}" using assms(1) by (simp add: pq_bag_def near_bag_def PrioQueue_new_def)
  then show ?thesis using assms
    by (simp add: pq_inv_def) (simp add: PrioQueue_new_def far_ok_def block_ok_def PQBlock_new_def)
qed

text \<open>C13: the calendar queue implements a bag of timed elements. As long as no element lies before the current block,
  \<^verbatim>\<open>enqueue\<close> adds exactly its element; on a non-empty queue \<^verbatim>\<open>dequeue\<close> always returns, removes an element of least
  cycle, and \<^verbatim>\<open>firstCycle\<close> announces that cycle.\<close>

theorem calendar_queue_refines_bag:
  assumes "pq_inv B q"
  shows "(curBlock q * 64 \<le> c \<longrightarrow> (\<exists>q'. pq_enqueue B x c q = Some q' \<and> pq_inv B q' \<and> pq_bag B q' = add_mset (c, x) (pq_bag B q)))
    \<and> (pq_bag B q \<noteq> {#} \<longrightarrow> (\<exists>y d q'. pq_dequeue B q = Some (y, d, q') \<and> pq_firstCycle B q = Some d \<and> pq_inv B q'
         \<and> pq_bag B q = add_mset (d, y) (pq_bag B q') \<and> (\<forall>p \<in># pq_bag B q. d \<le> fst p)))"
  using cal.enq_law [OF assms, of c x] cal.deq_law [OF assms] cal.first_deq [OF assms] by fastforce

theorem calendar_queue_refines_bag_witness:
  "\<exists>q y d q'. pq_enqueue 4 (7 :: nat) 100 (PrioQueue_new 4) = Some q \<and> pq_dequeue 4 q = Some (y, d, q')
     \<and> pq_firstCycle 4 q = Some d \<and> pq_bag 4 q = {#(100, 7)#} \<and> d = 100"
proof -
  have new: "pq_inv 4 (PrioQueue_new 4 :: nat PrioQueue)" "pq_bag 4 (PrioQueue_new 4 :: nat PrioQueue) = {#}"
    using PrioQueue_new_inv [of 4] by auto
  moreover have "curBlock (PrioQueue_new 4 :: nat PrioQueue) * 64 \<le> 100" by (simp add: PrioQueue_new_def)
  ultimately obtain q where q: "pq_enqueue 4 7 100 (PrioQueue_new 4 :: nat PrioQueue) = Some q" "pq_inv 4 q"
      "pq_bag 4 q = {#(100, 7)#}"
    using calendar_queue_refines_bag [OF new(1), of 100 7] by auto
  from calendar_queue_refines_bag [OF q(2), of 0 0] q(3)
  obtain y d q' where "pq_dequeue 4 q = Some (y, d, q')" "pq_firstCycle 4 q = Some d" "{#(100, 7)#} = add_mset (d, y) (pq_bag 4 q')"
    by auto
  with q show ?thesis by (auto simp: add_eq_conv_ex)
qed

text \<open>C14: events queued in any order come out in cycle order, none lost and none invented: filling an empty queue of
  the contention simulation with any list of timed events and emptying it returns the list sorted by cycle.\<close>

theorem calendar_queue_sorts:
  fixes xs :: "(cycle \<times> 'a) list"
  shows "\<exists>q ys. fill (pq_enqueue PQ_BLOCKS) xs (PrioQueue_new PQ_BLOCKS) = Some q
     \<and> drain (pq_dequeue PQ_BLOCKS) (pq_size q) q = Some ys \<and> mset ys = mset xs \<and> sorted (map fst ys)"
proof -
  have new: "pq_inv PQ_BLOCKS (PrioQueue_new PQ_BLOCKS :: 'a PrioQueue)"
      "pq_bag PQ_BLOCKS (PrioQueue_new PQ_BLOCKS :: 'a PrioQueue) = {#}"
    using PrioQueue_new_inv [of PQ_BLOCKS] by (auto simp: PQ_BLOCKS_def)
  have "\<forall>p \<in> set xs. curBlock (PrioQueue_new PQ_BLOCKS :: 'a PrioQueue) * 64 \<le> fst p" by (simp add: PrioQueue_new_def)
  then obtain q where q: "fill (pq_enqueue PQ_BLOCKS) xs (PrioQueue_new PQ_BLOCKS) = Some q" "pq_inv PQ_BLOCKS q"
      "pq_bag PQ_BLOCKS q = mset xs"
    using cal.fill_bag [OF new(1), of xs] new(2) by auto
  moreover have "pq_size q = size (pq_bag PQ_BLOCKS q)" using q(2) by (simp add: pq_inv_def pq_size_def)
  ultimately show ?thesis using cal.drain_bag [OF q(2) refl] by auto
qed

end
