(* ===== verification/ProcMaps.thy ===== *)
theory ProcMaps
  imports MemTypes
begin

text \<open>
  The memory maps of the simulated processes: the FTM functions of \<^verbatim>\<open>src/src/zsim.cpp\<close> that read \<^verbatim>\<open>/proc/<pid>/maps\<close>
  (\<^verbatim>\<open>create_ul\<close>, \<^verbatim>\<open>addSharedLib\<close>, \<^verbatim>\<open>populateProcessMap\<close>) and the tables they fill (\<^verbatim>\<open>zsim.h\<close>, \<^verbatim>\<open>init.cpp\<close>).

  The content of a map file is a list of lines, each split at white space into its words. A file holds hexadecimal
  ranges as the kernel prints them.
\<close>

subsection \<open>Keys of names\<close>

text \<open>\<^verbatim>\<open>char\<close> is signed: a byte above 127 is sign-extended when it is or-ed into the key.\<close>

definition char_ul :: "char \<Rightarrow> u64" where
  "char_ul c = scast (of_char c :: 8 word)"

fun create_ul_loop :: "u64 \<Rightarrow> nat \<Rightarrow> string \<Rightarrow> u64" where
  "create_ul_loop key len [] = key"
| "create_ul_loop key len (c # temp) =
     (let key' = push_bit 8 (key OR char_ul c)
      in if temp \<noteq> [] \<and> Suc len < 4 then create_ul_loop key' (Suc len) temp else key')"

text \<open>On the empty string the loop would step over the terminator.\<close>

definition create_ul :: "string \<Rightarrow> u64 option" where
  "create_ul temp = do { assert_that (temp \<noteq> []); Some (create_ul_loop 0 0 temp) }"

subsection \<open>The tables\<close>

record ProcMapInfo =
  start_range :: u64
  end_range :: u64
  pm_name :: u64
  permissions :: u64
  pm_binary :: bool
  pm_heap :: bool
  pm_sl :: bool
  pm_mmap :: bool
  pm_stack :: bool
  pm_vvar :: bool
  pm_vdso :: bool
  pm_vsyscall :: bool
  pm_result :: int

definition ProcMapInfo0 :: ProcMapInfo where
  "ProcMapInfo0 = \<lparr>start_range = 0, end_range = 0, pm_name = 0, permissions = 0, pm_binary = False, pm_heap = False,
     pm_sl = False, pm_mmap = False, pm_stack = False, pm_vvar = False, pm_vdso = False, pm_vsyscall = False, pm_result = 0\<rparr>"

text \<open>The part of \<^verbatim>\<open>zinfo\<close> that holds the maps; of \<^verbatim>\<open>sharedLibInfo_info\<close> only \<^verbatim>\<open>libAddr\<close> is used.\<close>

record proc_maps =
  perProcessInfo_idx :: "int list"
  perProcessInfo_info :: "ProcMapInfo list list"
  sharedLibInfo_idx :: "u64 list"
  libAddr :: "u64 list"
  sharedLibAddress :: u64
  sharedLibEndAddress :: u64

definition proc_maps_new :: "nat \<Rightarrow> proc_maps" where
  "proc_maps_new numCores = \<lparr>perProcessInfo_idx = replicate numCores 0,
     perProcessInfo_info = replicate numCores (replicate 1000 ProcMapInfo0),
     sharedLibInfo_idx = replicate 1000 0, libAddr = replicate 1000 0,
     sharedLibAddress = 0x10000000, sharedLibEndAddress = 0x10000000000\<rparr>"

subsection \<open>Lines of a map file\<close>

definition hex_digit :: "char \<Rightarrow> u64" where
  "hex_digit c = (let n = of_char c :: nat in of_nat (if n < 58 then n - 48 else n - 87))"

definition hex_value :: "string \<Rightarrow> u64" where
  "hex_value s = foldl (\<lambda>v c. push_bit 4 v + hex_digit c) 0 s"

text \<open>\<^verbatim>\<open>s.substr(0, s.find("-"))\<close> and the rest after the delimiter; without a delimiter \<^verbatim>\<open>find\<close> gives \<^verbatim>\<open>npos\<close>, the first
  part is all of the string and \<^verbatim>\<open>erase(0, npos + 1)\<close> erases nothing.\<close>

definition split_range :: "string \<Rightarrow> string \<times> string" where
  "split_range s = (if CHR ''-'' \<in> set s
     then (takeWhile (\<lambda>c. c \<noteq> CHR ''-'') s, tl (dropWhile (\<lambda>c. c \<noteq> CHR ''-'') s)) else (s, s))"

text \<open>The loop that erases up to the last slash, and whether there was one.\<close>

function base_name :: "string \<Rightarrow> string" where
  "base_name s = (if CHR ''/'' \<in> set s then base_name (tl (dropWhile (\<lambda>c. c \<noteq> CHR ''/'') s)) else s)"
  by pat_completeness auto

termination
proof (relation "measure length")
  fix s :: string
  assume "CHR ''/'' \<in> set s"
  then have "s \<noteq> []" by auto
  then show "(tl (dropWhile (\<lambda>c. c \<noteq> CHR ''/'') s), s) \<in> measure length"
    using length_dropWhile_le [of "\<lambda>c. c \<noteq> CHR ''/''" s] by (cases s) (auto simp: less_Suc_eq_le)
qed simp

declare base_name.simps [simp del]

definition has_path :: "string \<Rightarrow> bool" where
  "has_path s \<longleftrightarrow> CHR ''/'' \<in> set s"

text \<open>The name of a line is its last word, past the range and the permissions.\<close>

definition line_name :: "string list \<Rightarrow> string" where
  "line_name ws = (case drop 2 ws of [] \<Rightarrow> '''' | rest \<Rightarrow> last rest)"

definition line_word :: "nat \<Rightarrow> string list \<Rightarrow> string" where
  "line_word i ws = (if i < length ws then ws ! i else '''')"

definition parse_line :: "string list \<Rightarrow> ProcMapInfo option" where
  "parse_line ws = do {
     permissions_ul \<leftarrow> create_ul (line_word 1 ws);
     let (lo, hi) = split_range (line_word 0 ws);
     let name = base_name (line_name ws);
     name_ul \<leftarrow> create_ul name;
     let pm = ProcMapInfo0\<lparr>start_range := hex_value lo, end_range := hex_value hi, pm_name := name_ul,
                            permissions := permissions_ul\<rparr>;
     Some (if name = ''[stack]'' then pm\<lparr>pm_stack := True, pm_result := 2 ^ 4\<rparr>
           else if name = ''[heap]'' then pm\<lparr>pm_heap := True, pm_result := 2 ^ 1\<rparr>
           else if name = ''[vdso]'' then pm\<lparr>pm_vdso := True, pm_result := 2 ^ 6\<rparr>
           else if name = ''[vvar]'' then pm\<lparr>pm_vvar := True, pm_result := 2 ^ 5\<rparr>
           else if name = ''[vsyscall]'' then pm\<lparr>pm_vsyscall := True, pm_result := 2 ^ 7\<rparr>
           else if name = ''0'' then pm\<lparr>pm_mmap := True, pm_result := 2 ^ 3\<rparr>
           else pm\<lparr>pm_sl := True, pm_result := 2 ^ 2\<rparr>) }"

subsection \<open>Filling the tables\<close>

text \<open>The slot of a process: the first with its pid, or the first free one, which is claimed.\<close>

fun claim_slot :: "int \<Rightarrow> nat \<Rightarrow> int list \<Rightarrow> (nat \<times> int list) option" where
  "claim_slot p i [] = None"
| "claim_slot p i (q # qs) =
     (if q = p then Some (i, q # qs)
      else if q = 0 then Some (i, p # qs)
      else map_option (\<lambda>(j, rs). (j, q # rs)) (claim_slot p (Suc i) qs))"

fun fill_map :: "nat \<Rightarrow> string list list \<Rightarrow> ProcMapInfo list \<Rightarrow> ProcMapInfo list option" where
  "fill_map ii [] pm = Some pm"
| "fill_map ii (ws # lines) pm = do {
     info \<leftarrow> parse_line ws;
     let pm' = pm[ii := info];
     assert_that (Suc ii < 1000);
     fill_map (Suc ii) lines pm' }"

definition populateProcessMap :: "int \<Rightarrow> string list list \<Rightarrow> proc_maps \<Rightarrow> proc_maps option" where
  "populateProcessMap p lines z = do {
     (idx, idxs) \<leftarrow> claim_slot p 0 (perProcessInfo_idx z);
     pm \<leftarrow> fill_map 0 lines (replicate 1000 ProcMapInfo0);
     Some (z\<lparr>perProcessInfo_idx := idxs, perProcessInfo_info := (perProcessInfo_info z)[idx := pm]\<rparr>) }"

text \<open>\<^verbatim>\<open>files\<close> gives the content of a process's map file, \<open>None\<close> if it cannot be opened.\<close>

fun populateProcessMaps :: "(int \<Rightarrow> string list list option) \<Rightarrow> int list \<Rightarrow> proc_maps \<Rightarrow> proc_maps option" where
  "populateProcessMaps files [] z = Some z"
| "populateProcessMaps files (p # ps) z = do {
     z' \<leftarrow> (if p \<noteq> 0 then do { lines \<leftarrow> files p; populateProcessMap p lines z } else Some z);
     populateProcessMaps files ps z' }"

text \<open>The slot of a library: the first with its key, or the first free one.\<close>

fun lib_slot :: "u64 \<Rightarrow> nat \<Rightarrow> u64 list \<Rightarrow> (nat \<times> bool) option" where
  "lib_slot key i [] = None"
| "lib_slot key i (k # ks) =
     (if k = key then Some (i, False) else if k = 0 then Some (i, True) else lib_slot key (Suc i) ks)"

definition register_lib :: "u64 \<Rightarrow> proc_maps \<Rightarrow> proc_maps option" where
  "register_lib name_ul z = do {
     (idx_1, newFlag) \<leftarrow> lib_slot name_ul 0 (sharedLibInfo_idx z);
     let z' = (if newFlag
       then z\<lparr>sharedLibInfo_idx := (sharedLibInfo_idx z)[idx_1 := name_ul],
              libAddr := (libAddr z)[idx_1 := sharedLibAddress z],
              sharedLibAddress := sharedLibAddress z + 0x100000000\<rparr>
       else z);
     assert_that (sharedLibAddress z' < sharedLibEndAddress z');
     Some z' }"

definition addSharedLib_line :: "string list \<Rightarrow> proc_maps \<Rightarrow> proc_maps option" where
  "addSharedLib_line ws z =
     (let name = line_name ws; base = base_name name
      in if has_path name \<and> length base > 1 then do { key \<leftarrow> create_ul base; register_lib key z } else Some z)"

fun addSharedLib_lines :: "string list list \<Rightarrow> proc_maps \<Rightarrow> proc_maps option" where
  "addSharedLib_lines [] z = Some z"
| "addSharedLib_lines (ws # lines) z = do { z' \<leftarrow> addSharedLib_line ws z; addSharedLib_lines lines z' }"

fun addSharedLib_procs :: "(int \<Rightarrow> string list list option) \<Rightarrow> int list \<Rightarrow> proc_maps \<Rightarrow> proc_maps option" where
  "addSharedLib_procs files [] z = Some z"
| "addSharedLib_procs files (p # ps) z =
     (if p = 0 then Some z
      else do { lines \<leftarrow> files p; z' \<leftarrow> addSharedLib_lines lines z; addSharedLib_procs files ps z' })"

definition addSharedLib :: "(int \<Rightarrow> string list list option) \<Rightarrow> proc_maps \<Rightarrow> proc_maps option" where
  "addSharedLib files z = addSharedLib_procs files (perProcessInfo_idx z) z"

subsection \<open>Keys and names\<close>

text \<open>A path keeps what follows its last slash.\<close>

lemma base_name_id: "CHR ''/'' \<notin> set s \<Longrightarrow> base_name s = s"
  by (subst base_name.simps) simp

lemma dropWhile_stop: "\<forall>y \<in> set a. P y \<Longrightarrow> \<not> P x \<Longrightarrow> dropWhile P (a @ x # r) = x # r"
  by (induction a) auto

lemma base_name_path: "base_name (p @ CHR ''/'' # s) = base_name s"
proof (induction "length p" arbitrary: p rule: less_induct)
  case less
  show ?case
  proof (cases "CHR ''/'' \<in> set p")
    case True
    then obtain a b where p: "p = a @ CHR ''/'' # b" "CHR ''/'' \<notin> set a" using split_list_first by metis
    have "dropWhile (\<lambda>c. c \<noteq> CHR ''/'') (p @ CHR ''/'' # s) = CHR ''/'' # b @ CHR ''/'' # s"
      unfolding p(1) append_assoc append_Cons by (rule dropWhile_stop) (use p(2) in auto)
    then show ?thesis using less [of b] p(1) by (subst base_name.simps) simp
  next
    case False
    then have "dropWhile (\<lambda>c. c \<noteq> CHR ''/'') (p @ CHR ''/'' # s) = CHR ''/'' # s"
      by (intro dropWhile_stop) auto
    then show ?thesis by (subst base_name.simps) simp
  qed
qed

lemma create_ul_loop_take:
  "len < 4 \<Longrightarrow> s \<noteq> [] \<Longrightarrow> create_ul_loop key len s = create_ul_loop key len (take (4 - len) s)"
proof (induction key len s rule: create_ul_loop.induct)
  case (2 key len c temp)
  show ?case
  proof (cases "Suc len < 4")
    case True
    then have "take (4 - len) (c # temp) = c # take (4 - Suc len) temp" by (simp add: take_Cons' numeral_eq_Suc Suc_diff_le)
    then show ?thesis using 2 True by (cases "temp = []") (auto simp: Let_def)
  next
    case False
    then have "len = 3" using 2 by simp
    then show ?thesis by (simp add: Let_def)
  qed
qed simp

text \<open>On ASCII text the key is the number its first four characters spell in base 256, shifted by one byte.\<close>

definition ascii :: "string \<Rightarrow> bool" where
  "ascii s \<longleftrightarrow> (\<forall>c \<in> set s. 0 < (of_char c :: nat) \<and> (of_char c :: nat) < 128)"

lemma char_ul_ascii: "(of_char c :: nat) < 128 \<Longrightarrow> char_ul c = of_nat (of_char c)"
proof -
  assume c: "(of_char c :: nat) < 128"
  have "(of_char c :: 8 word) = of_nat (of_char c)" by (simp add: of_char_def)
  then have u: "uint (of_char c :: 8 word) = int (of_char c)" using c by (simp add: unsigned_of_nat take_bit_nat_eq_self)
  have "sint (of_char c :: 8 word) = int (of_char c)"
    using c u by (simp add: sint_uint signed_take_bit_int_eq_self)
  then show ?thesis by (simp add: char_ul_def scast_eq)
qed

lemma key_step:
  assumes "n < 128"
  shows "push_bit 8 ((of_nat (v * 256) :: u64) OR of_nat n) = of_nat ((v * 256 + n) * 256)"
proof -
  have hi: "(of_nat (v * 256) :: u64) = push_bit 8 (of_nat v)" by (simp add: push_bit_eq_mult)
  have "\<not> bit (of_nat (v * 256) :: u64) k \<or> \<not> bit (of_nat n :: u64) k" for k
  proof (cases "k < 8")
    case True
    then show ?thesis unfolding hi by (simp add: bit_push_bit_iff)
  next
    case False
    have "(2 :: nat) ^ 7 \<le> 2 ^ k" using False by (intro power_increasing) auto
    then have "n < 2 ^ k" using assms by simp
    then have "\<not> bit n k" by (simp add: bit_iff_odd)
    then show ?thesis by (simp add: bit_of_nat_iff)
  qed
  then have "(of_nat (v * 256) :: u64) OR of_nat n = of_nat (v * 256) + of_nat n" by (simp add: disjunctive_add)
  then show ?thesis by (simp add: push_bit_eq_mult algebra_simps)
qed

primrec spell :: "nat \<Rightarrow> string \<Rightarrow> nat" where
  "spell v [] = v"
| "spell v (c # s) = spell ((v + of_char c) * 256) s"

lemma create_ul_loop_spell:
  "ascii s \<Longrightarrow> len + length s \<le> 4 \<Longrightarrow> s \<noteq> [] \<Longrightarrow> create_ul_loop (of_nat (v * 256)) len s = of_nat (spell (v * 256) s)"
proof (induction s arbitrary: v len)
  case (Cons c s)
  have c: "(of_char c :: nat) < 128" using Cons.prems(1) by (simp add: ascii_def)
  note step = key_step [OF c, of v, folded char_ul_ascii [OF c]]
  show ?case
  proof (cases "s = []")
    case True
    then show ?thesis using step by (simp add: Let_def)
  next
    case False
    then have "Suc len < 4" using Cons.prems(2) by (cases s) auto
    moreover have "ascii s" using Cons.prems(1) by (simp add: ascii_def)
    ultimately show ?thesis using Cons.IH [of "Suc len" "v * 256 + of_char c"] Cons.prems(2) False step
      by (simp only: create_ul_loop.simps Let_def spell.simps) simp
  qed
qed simp

lemma spell_snoc: "spell v (s @ [c]) = (spell v s + of_char c) * 256"
  by (induction s arbitrary: v) auto

lemma spell_dvd: "256 dvd spell 0 s"
  by (cases s rule: rev_cases) (simp_all add: spell_snoc)

lemma spell_inj: "ascii s \<Longrightarrow> ascii t \<Longrightarrow> spell 0 s = spell 0 t \<Longrightarrow> s = t"
proof (induction s arbitrary: t rule: rev_induct)
  case Nil
  then show ?case by (cases t rule: rev_cases) (auto simp: spell_snoc ascii_def)
next
  case (snoc c s)
  from snoc.prems obtain t' d where t: "t = t' @ [d]"
    by (cases t rule: rev_cases) (auto simp: spell_snoc ascii_def)
  have eq: "spell 0 s + of_char c = spell 0 t' + (of_char d :: nat)" using snoc.prems(3) t by (simp add: spell_snoc)
  have lt: "(of_char c :: nat) < 256" "(of_char d :: nat) < 256" using snoc.prems t by (auto simp: ascii_def)
  have "(of_char c :: nat) = (spell 0 s + of_char c) mod 256" using spell_dvd [of s] lt by (auto elim!: dvdE)
  also have "\<dots> = of_char d" using spell_dvd [of t'] lt unfolding eq by (auto elim!: dvdE)
  finally have "c = d" by simp
  moreover have "s = t'" using snoc.IH [of t'] snoc.prems(1,2) t eq \<open>c = d\<close> by (simp add: ascii_def)
  ultimately show ?case using t by simp
qed

lemma spell_bound: "ascii s \<Longrightarrow> spell 0 s < 128 * 256 ^ length s"
proof (induction s rule: rev_induct)
  case (snoc c s)
  have "spell 0 s < 128 * 256 ^ length s" using snoc by (simp add: ascii_def)
  moreover have "(of_char c :: nat) < 128" using snoc.prems by (simp add: ascii_def)
  moreover obtain k where "spell 0 s = 256 * k" using spell_dvd by (auto elim: dvdE)
  ultimately show ?case by (cases s) (auto simp: spell_snoc)
qed simp

subsection \<open>The table of shared libraries\<close>

text \<open>The steps that change the tables, at the end of a phase.\<close>

inductive maps_step :: "proc_maps \<Rightarrow> proc_maps \<Rightarrow> bool" where
  maps_populate: "populateProcessMap p lines z = Some z' \<Longrightarrow> maps_step z z'"
| maps_libs: "addSharedLib files z = Some z' \<Longrightarrow> maps_step z z'"

definition lib_base :: "nat \<Rightarrow> nat" where
  "lib_base i = 0x10000000 + i * 2 ^ 32"

text \<open>The first \<open>n\<close> slots are taken by different keys, each with its own 4 GB range.\<close>

definition lib_table :: "nat \<Rightarrow> proc_maps \<Rightarrow> bool" where
  "lib_table n z \<longleftrightarrow> n < 256 \<and> length (sharedLibInfo_idx z) = 1000 \<and> length (libAddr z) = 1000
     \<and> (\<forall>i < n. sharedLibInfo_idx z ! i \<noteq> 0) \<and> (\<forall>i < 1000. n \<le> i \<longrightarrow> sharedLibInfo_idx z ! i = 0)
     \<and> (\<forall>i < n. \<forall>j < n. sharedLibInfo_idx z ! i = sharedLibInfo_idx z ! j \<longrightarrow> i = j)
     \<and> (\<forall>i < n. libAddr z ! i = of_nat (lib_base i))
     \<and> sharedLibAddress z = of_nat (lib_base n) \<and> sharedLibEndAddress z = 0x10000000000"

lemma lib_slot_shift: "lib_slot key i ks = map_option (\<lambda>(j, f). (j + i, f)) (lib_slot key 0 ks)"
proof (induction ks arbitrary: i)
  case (Cons k ks)
  show ?case using Cons [of "Suc i"] Cons [of "Suc 0"] by (cases "lib_slot key 0 ks") auto
qed simp

lemma lib_slot_result:
  "lib_slot key 0 ks = Some (i, new) \<Longrightarrow> i < length ks \<and> (\<forall>j < i. ks ! j \<noteq> key \<and> ks ! j \<noteq> 0)
     \<and> (if new then ks ! i = 0 \<and> key \<noteq> 0 else ks ! i = key)"
proof (induction ks arbitrary: i)
  case (Cons k ks)
  show ?case
  proof (cases "k = key \<or> k = 0")
    case False
    then obtain j where "lib_slot key 0 ks = Some (j, new)" "i = Suc j"
      using Cons.prems by (simp add: lib_slot_shift [of key "Suc 0"]) (auto split: option.splits)
    then show ?thesis using Cons.IH [of j] False by (auto simp: nth_Cons split: nat.splits)
  qed (use Cons.prems in \<open>auto split: if_splits\<close>)
qed simp

lemma lib_base_word: "n < 2 ^ 31 \<Longrightarrow> unat (of_nat (lib_base n) :: u64) = lib_base n"
proof -
  assume "n < 2 ^ 31"
  then have "lib_base n < 2 ^ 64" by (simp add: lib_base_def)
  then show ?thesis by (simp add: unsigned_of_nat take_bit_nat_eq_self)
qed

lemma register_lib_table:
  assumes "lib_table n z" "register_lib key z = Some z'"
  shows "\<exists>n'. lib_table n' z'"
proof -
  note t = assms(1) [unfolded lib_table_def]
  obtain i new where slot: "lib_slot key 0 (sharedLibInfo_idx z) = Some (i, new)"
    using assms(2) by (auto simp: register_lib_def bind_Some_conv)
  note r = lib_slot_result [OF slot]
  have used: "\<forall>i < n. sharedLibInfo_idx z ! i \<noteq> 0" "\<forall>i < 1000. n \<le> i \<longrightarrow> sharedLibInfo_idx z ! i = 0"
    "length (sharedLibInfo_idx z) = 1000" using t by auto
  show ?thesis
  proof (cases new)
    case False
    then have "z' = z" using assms(2) slot by (auto simp: register_lib_def abort_simps split: if_splits)
    then show ?thesis using assms(1) by blast
  next
    case True
    have "i = n"
    proof (rule ccontr)
      assume "i \<noteq> n"
      then consider "i < n" | "n < i" by linarith
      then show False
      proof cases
        case 1
        then show False using r True used(1) by auto
      next
        case 2
        then show False using r used(2,3) by auto
      qed
    qed
    have z': "z' = z\<lparr>sharedLibInfo_idx := (sharedLibInfo_idx z)[n := key], libAddr := (libAddr z)[n := sharedLibAddress z],
        sharedLibAddress := sharedLibAddress z + 0x100000000\<rparr>"
      and lt: "sharedLibAddress z + 0x100000000 < sharedLibEndAddress z"
      using assms(2) slot True \<open>i = n\<close> by (auto simp: register_lib_def abort_simps Let_def split: if_splits)
    have nxt: "sharedLibAddress z + 0x100000000 = of_nat (lib_base (Suc n))" using t by (simp add: lib_base_def)
    have "lib_base (Suc n) < 2 ^ 40"
      using lt lib_base_word [of "Suc n"] t unfolding nxt word_less_nat_alt by simp
    then have "Suc n < 256" by (simp add: lib_base_def)
    then have "lib_table (Suc n) z'"
      using t z' r True \<open>i = n\<close> nxt by (auto simp: lib_table_def nth_list_update less_Suc_eq)
    then show ?thesis by blast
  qed
qed

lemma addSharedLib_lines_table:
  "lib_table n z \<Longrightarrow> addSharedLib_lines lines z = Some z' \<Longrightarrow> \<exists>n'. lib_table n' z'"
proof (induction lines arbitrary: n z)
  case (Cons ws lines)
  then obtain z1 where z1: "addSharedLib_line ws z = Some z1" "addSharedLib_lines lines z1 = Some z'"
    by (auto simp: bind_Some_conv)
  then have "\<exists>n1. lib_table n1 z1"
    using register_lib_table Cons.prems(1) by (fastforce simp: addSharedLib_line_def Let_def bind_Some_conv split: if_splits)
  then show ?case using Cons.IH z1(2) by blast
qed auto

lemma addSharedLib_procs_table:
  "lib_table n z \<Longrightarrow> addSharedLib_procs files ps z = Some z' \<Longrightarrow> \<exists>n'. lib_table n' z'"
proof (induction ps arbitrary: n z)
  case (Cons p ps)
  show ?case
  proof (cases "p = 0")
    case False
    then obtain lines z1 where "addSharedLib_lines lines z = Some z1" "addSharedLib_procs files ps z1 = Some z'"
      using Cons.prems(2) by (auto simp: bind_Some_conv)
    then show ?thesis using addSharedLib_lines_table Cons by metis
  qed (use Cons.prems in auto)
qed auto

lemma maps_step_table: "maps_step z z' \<Longrightarrow> lib_table n z \<Longrightarrow> \<exists>n'. lib_table n' z'"
proof (induction rule: maps_step.induct)
  case (maps_populate p lines z z')
  then show ?case by (auto simp: populateProcessMap_def bind_Some_conv lib_table_def)
next
  case (maps_libs files z z')
  then show ?case using addSharedLib_procs_table by (metis addSharedLib_def)
qed

lemma maps_reach_table:
  assumes "maps_step\<^sup>*\<^sup>* (proc_maps_new numCores) z"
  shows "\<exists>n. lib_table n z"
  using assms
proof (induction rule: rtranclp_induct)
  case base
  have "lib_table 0 (proc_maps_new numCores)" by (simp add: lib_table_def proc_maps_new_def lib_base_def)
  then show ?case by blast
qed (use maps_step_table in blast)

subsection \<open>Properties\<close>

text \<open>Two ASCII names get the same key exactly when their first four characters agree; in particular libraries such
  as \<^verbatim>\<open>libc.so.6\<close> and \<^verbatim>\<open>libcrypto.so.1\<close> share a key, and so a range of shared-library addresses.\<close>

lemma create_ul_four_chars:
  assumes "ascii s" "ascii t" "s \<noteq> []" "t \<noteq> []"
  shows "create_ul s = create_ul t \<longleftrightarrow> take 4 s = take 4 t"
proof -
  have key: "create_ul u = Some (of_nat (spell 0 (take 4 u))) \<and> spell 0 (take 4 u) < 2 ^ 64 \<and> ascii (take 4 u)"
    if u: "ascii u" "u \<noteq> []" for u
  proof -
    have a: "ascii (take 4 u)" using u(1) by (auto simp: ascii_def dest: in_set_takeD)
    have "create_ul u = Some (of_nat (spell 0 (take 4 u)))"
      using create_ul_loop_take [of 0 u 0] create_ul_loop_spell [OF a, of 0 0] u(2) by (simp add: create_ul_def)
    moreover have "(256 :: nat) ^ length (take 4 u) \<le> 256 ^ 4" by (intro power_increasing) auto
    then have "spell 0 (take 4 u) < 2 ^ 64" using spell_bound [OF a] by simp
    ultimately show ?thesis using a by blast
  qed
  have "(of_nat m :: u64) = of_nat n \<longleftrightarrow> m = n" if "m < 2 ^ 64" "n < 2 ^ 64" for m n
    using that by (simp add: word_of_nat_eq_iff take_bit_nat_eq_self)
  then show ?thesis using key [OF assms(1,3)] key [OF assms(2,4)] spell_inj by auto
qed

text \<open>C12: however the maps are rebuilt, registered libraries with different keys have disjoint ranges: an offset below
  4 GB into one never meets an offset below 4 GB into another.\<close>

theorem shared_lib_ranges_disjoint:
  assumes "maps_step\<^sup>*\<^sup>* (proc_maps_new numCores) z"
    and "i < 1000" "j < 1000" "sharedLibInfo_idx z ! i \<noteq> 0" "sharedLibInfo_idx z ! j \<noteq> 0"
    and "sharedLibInfo_idx z ! i \<noteq> sharedLibInfo_idx z ! j" "off1 < 0x100000000" "off2 < 0x100000000"
  shows "libAddr z ! i + off1 \<noteq> libAddr z ! j + off2"
proof
  assume eq: "libAddr z ! i + off1 = libAddr z ! j + off2"
  obtain n where n: "lib_table n z" using maps_reach_table [OF assms(1)] by blast
  then have ij: "i < n" "j < n" using assms(2-5) by (auto simp: lib_table_def not_less [symmetric])
  have off: "unat off1 < 2 ^ 32" "unat off2 < 2 ^ 32" using assms(7,8) by (simp_all add: word_less_nat_alt)
  have v: "unat (libAddr z ! k + off) = lib_base k + unat off" if "k < n" "unat off < 2 ^ 32" for k off
  proof -
    have "libAddr z ! k = of_nat (lib_base k)" "k < 256" using n that by (auto simp: lib_table_def)
    then show ?thesis using that(2) lib_base_word [of k]
      by (subst unat_add_lem [THEN iffD1]) (auto simp: lib_base_def)
  qed
  have "lib_base i + unat off1 = lib_base j + unat off2" using v ij off eq by metis
  then have "i = j" using off by (auto simp: lib_base_def)
  then show False using assms(6) by simp
qed

text \<open>Two libraries of a process for the witness.\<close>

definition sample_lines :: "string list list" where
  "sample_lines = [[''7f0000000000-7f0000200000'', ''r-xp'', ''0'', ''08:01'', ''12'', ''/lib/libm.so.6''],
     [''7f0000200000-7f0000400000'', ''r--p'', ''0'', ''08:01'', ''13'', ''/lib/libc.so.6'']]"

lemma sample_keys: "create_ul ''libm.so.6'' = Some 0x6C69626D00" "create_ul ''libc.so.6'' = Some 0x6C69626300"
  by code_simp+

lemma replicate_1000: "replicate 1000 x = x # x # replicate 998 x"
  by (simp add: numeral_eq_Suc)

lemma sample_names: "base_name ''/lib/libm.so.6'' = ''libm.so.6''" "base_name ''/lib/libc.so.6'' = ''libc.so.6''"
  by (simp_all add: base_name.simps)

lemma sample_libs:
  "\<exists>z1 z2. populateProcessMap 7 [] (proc_maps_new 2) = Some z1
     \<and> addSharedLib (\<lambda>p. Some sample_lines) z1 = Some z2
     \<and> sharedLibInfo_idx z2 ! 0 = 0x6C69626D00 \<and> sharedLibInfo_idx z2 ! 1 = 0x6C69626300
     \<and> libAddr z2 ! 0 = 0x10000000 \<and> libAddr z2 ! 1 = 0x110000000"
proof -
  let ?z1 = "(proc_maps_new 2)\<lparr>perProcessInfo_idx := [7, 0]\<rparr>"
  have "populateProcessMap 7 [] (proc_maps_new 2) = Some ?z1"
    by (simp add: populateProcessMap_def proc_maps_new_def numeral_2_eq_2)
  moreover have "\<exists>z2. addSharedLib (\<lambda>p. Some sample_lines) ?z1 = Some z2
     \<and> sharedLibInfo_idx z2 ! 0 = 0x6C69626D00 \<and> sharedLibInfo_idx z2 ! 1 = 0x6C69626300
     \<and> libAddr z2 ! 0 = 0x10000000 \<and> libAddr z2 ! 1 = 0x110000000"
    by (simp add: addSharedLib_def sample_lines_def addSharedLib_line_def line_name_def has_path_def sample_names
        sample_keys register_lib_def proc_maps_new_def replicate_1000 Let_def)
  ultimately show ?thesis by blast
qed

theorem shared_lib_ranges_disjoint_witness:
  "\<exists>z. maps_step\<^sup>*\<^sup>* (proc_maps_new 2) z \<and> sharedLibInfo_idx z ! 0 = 0x6C69626D00
     \<and> sharedLibInfo_idx z ! 1 = 0x6C69626300 \<and> libAddr z ! 0 + 0x40 \<noteq> libAddr z ! 1 + 0x80"
proof -
  obtain z1 z2 where z: "populateProcessMap 7 [] (proc_maps_new 2) = Some z1"
      "addSharedLib (\<lambda>p. Some sample_lines) z1 = Some z2"
      "sharedLibInfo_idx z2 ! 0 = 0x6C69626D00" "sharedLibInfo_idx z2 ! 1 = 0x6C69626300"
    using sample_libs by blast
  have "maps_step (proc_maps_new 2) z1" "maps_step z1 z2"
    using maps_populate [OF z(1)] maps_libs [OF z(2)] by blast+
  then have reach: "maps_step\<^sup>*\<^sup>* (proc_maps_new 2) z2" by (meson converse_rtranclp_into_rtranclp r_into_rtranclp)
  then show ?thesis using shared_lib_ranges_disjoint [OF reach, of 0 1 "0x40" "0x80"] z(3,4) by auto
qed

end
