(* ===== verification/FilterCache.thy ===== *)
theory FilterCache
  imports ProcMaps CacheOps
begin

text \<open>
  The first-level cache of \<^verbatim>\<open>src/src/filter_cache.h\<close>: the translation of virtual lines to the lines the hierarchy sees
  (private lines carry the process index in their top bits, read-only library pages are shared between processes), the
  first-time-miss flags of a request, and the filter array of recently used lines. The access itself is \<^verbatim>\<open>Cache::access\<close>,
  a parameter here.

  The model is of the default build (neither \<^verbatim>\<open>GPG_ATTACK\<close> nor \<^verbatim>\<open>PDFTOPS_ATTACK\<close>).
\<close>

subsection \<open>Configuration and state\<close>

text \<open>What the cache reads of \<^verbatim>\<open>zinfo\<close> and of the process-wide variables.\<close>

record ftm_env =
  maps :: proc_maps
  firstPhase :: bool
  noSharing :: bool
  scatterCache :: bool
  perm_rxp :: u64
  perm_rwp :: u64
  perm_rwxp :: u64
  perm_rp :: u64
  lineBits :: nat
  procMask :: u64
  env_pid :: int

definition proc_mask :: "nat \<Rightarrow> nat \<Rightarrow> u64" where
  "proc_mask lb procIdx = push_bit (64 - lb) (of_nat procIdx)"

record FilterEntry =
  rdAddr :: addr
  wrAddr :: addr
  availCycle :: cycle

definition FilterEntry_clear :: FilterEntry where
  "FilterEntry_clear = \<lparr>rdAddr = 0, wrAddr = 0, availCycle = 0\<rparr>"

record fc_counters =
  procTableHit :: nat
  procTableMiss :: nat
  unlabelledAccess :: nat
  translatedAccessCount :: nat
  rxpCount :: nat
  rwpCount :: nat
  rpCount :: nat
  rwxpCount :: nat

record FilterCache =
  filterArray :: "FilterEntry list"
  fc_setMask :: addr
  fc_numSets :: nat
  fc_srcId :: nat
  fc_reqFlags :: u32
  fc_name :: string
  fc_count :: fc_counters

definition FilterCache_new :: "nat \<Rightarrow> string \<Rightarrow> FilterCache" where
  "FilterCache_new n name = \<lparr>filterArray = replicate n FilterEntry_clear, fc_setMask = of_nat n - 1, fc_numSets = n,
     fc_srcId = 2 ^ 32 - 1, fc_reqFlags = 0, fc_name = name,
     fc_count = \<lparr>procTableHit = 0, procTableMiss = 0, unlabelledAccess = 0, translatedAccessCount = 0, rxpCount = 0,
       rwpCount = 0, rpCount = 0, rwxpCount = 0\<rparr>\<rparr>"

definition fc_setSourceId :: "nat \<Rightarrow> FilterCache \<Rightarrow> FilterCache" where
  "fc_setSourceId k f = f\<lparr>fc_srcId := k\<rparr>"

definition fc_setFlags :: "u32 \<Rightarrow> FilterCache \<Rightarrow> FilterCache" where
  "fc_setFlags fl f = f\<lparr>fc_reqFlags := fl\<rparr>"

definition fc_bump :: "(fc_counters \<Rightarrow> fc_counters) \<Rightarrow> FilterCache \<Rightarrow> FilterCache" where
  "fc_bump g f = f\<lparr>fc_count := g (fc_count f)\<rparr>"

subsection \<open>The maps of the process\<close>

text \<open>The slot of the process; an empty slot before it panics, and so does its absence.\<close>

fun find_proc :: "int \<Rightarrow> nat \<Rightarrow> int list \<Rightarrow> nat option" where
  "find_proc p i [] = None"
| "find_proc p i (q # qs) = (if q = p then Some i else if q = 0 then panic else find_proc p (Suc i) qs)"

text \<open>The first entry that contains an address; a null entry ends the table.\<close>

fun find_range :: "u64 \<Rightarrow> ProcMapInfo list \<Rightarrow> ProcMapInfo option" where
  "find_range ad [] = None"
| "find_range ad (pm # pms) =
     (if start_range pm = 0 \<and> end_range pm = 0 then None
      else if start_range pm \<le> ad \<and> ad < end_range pm then Some pm
      else find_range ad pms)"

text \<open>The first entry of a name starts the library; the last resort 0 is the initial value of \<^verbatim>\<open>baseline\<close>.\<close>

definition lib_baseline :: "u64 \<Rightarrow> ProcMapInfo list \<Rightarrow> u64" where
  "lib_baseline name_ul pms = (case List.find (\<lambda>pm. pm_name pm = name_ul) pms of None \<Rightarrow> 0 | Some pm \<Rightarrow> start_range pm)"

text \<open>The search for the library ends at a slot that holds -1.\<close>

fun find_lib :: "u64 \<Rightarrow> nat \<Rightarrow> u64 list \<Rightarrow> nat option" where
  "find_lib key i [] = None"
| "find_lib key i (k # ks) = (if k = key then Some i else if k = - 1 then None else find_lib key (Suc i) ks)"

definition proc_map :: "ftm_env \<Rightarrow> ProcMapInfo list option" where
  "proc_map z = do {
     idx \<leftarrow> find_proc (env_pid z) 0 (perProcessInfo_idx (maps z));
     Some (perProcessInfo_info (maps z) ! idx) }"

definition checkSharedLib :: "ftm_env \<Rightarrow> addr \<Rightarrow> FilterCache \<Rightarrow> (addr \<times> FilterCache) option" where
  "checkSharedLib z lineAddr f = do {
     let ad = push_bit 6 lineAddr;
     process_map \<leftarrow> proc_map z;
     case find_range ad process_map of
       None \<Rightarrow> Some (- 1, fc_bump (\<lambda>c. c\<lparr>unlabelledAccess := Suc (unlabelledAccess c)\<rparr>) f)
     | Some pm \<Rightarrow> do {
         let offset = ad - lib_baseline (pm_name pm) process_map;
         assert_that (offset \<le> 0x100000000);
         idx_1 \<leftarrow> find_lib (pm_name pm) 0 (sharedLibInfo_idx (maps z));
         let new_baseline = libAddr (maps z) ! idx_1;
         Some (drop_bit 6 (offset + new_baseline), f) } }"

definition b2u :: "bool \<Rightarrow> u32" where
  "b2u b = (if b then 1 else 0)"

definition region_of :: "ProcMapInfo \<Rightarrow> u32" where
  "region_of pm = b2u (pm_binary pm) OR push_bit 1 (b2u (pm_heap pm)) OR push_bit 2 (b2u (pm_sl pm))
     OR push_bit 3 (b2u (pm_mmap pm)) OR push_bit 4 (b2u (pm_stack pm)) OR push_bit 5 (b2u (pm_vvar pm))
     OR push_bit 6 (b2u (pm_vdso pm)) OR push_bit 7 (b2u (pm_vsyscall pm))"

text \<open>\<^verbatim>\<open>protection\<close> returns the permissions and, through its reference parameter, the region type (0 before).\<close>

definition protection :: "ftm_env \<Rightarrow> addr \<Rightarrow> FilterCache \<Rightarrow> (u64 \<times> u32 \<times> FilterCache) option" where
  "protection z lineAddr f = do {
     let ad = push_bit 6 lineAddr;
     process_map \<leftarrow> proc_map z;
     Some (case find_range ad process_map of
       Some pm \<Rightarrow> (permissions pm, region_of pm, fc_bump (\<lambda>c. c\<lparr>procTableHit := Suc (procTableHit c)\<rparr>) f)
     | None \<Rightarrow> (10, 0, fc_bump (\<lambda>c. c\<lparr>procTableMiss := Suc (procTableMiss c)\<rparr>) f)) }"

subsection \<open>Translation\<close>

text \<open>The first part of \<^verbatim>\<open>replace\<close>: the line the hierarchy sees, the permissions and the region type.\<close>

definition fc_translate :: "ftm_env \<Rightarrow> addr \<Rightarrow> FilterCache \<Rightarrow> (addr \<times> u64 \<times> u32 \<times> FilterCache) option" where
  "fc_translate z vLineAddr f = do {
     let pLineAddr = procMask z OR vLineAddr;
     if firstPhase z \<and> \<not> noSharing z then do {
       (new_pLineAddr, permission, region_type, f1) \<leftarrow>
         (if scatterCache z then Some (pLineAddr, 1, 0, f)
          else do {
            (permission, region_type, f1) \<leftarrow> protection z vLineAddr f;
            if bit region_type 3 \<or> permission = 10 then Some (pLineAddr, permission, region_type, f1)
            else if bit region_type 2 \<and> (permission = perm_rxp z \<or> permission = perm_rp z) then do {
              (a, f2) \<leftarrow> checkSharedLib z vLineAddr f1;
              Some (a, permission, region_type, f2) }
            else Some (pLineAddr, permission, region_type, f1) });
       if new_pLineAddr \<noteq> 0 \<and> new_pLineAddr \<noteq> - 1
       then Some (new_pLineAddr, permission, region_type,
              fc_bump (\<lambda>c. c\<lparr>translatedAccessCount := Suc (translatedAccessCount c)\<rparr>) f1)
       else Some (pLineAddr, permission, region_type, f1) }
     else Some (pLineAddr, 1, 0, f) }"

text \<open>The flags of the request and the counters of the permission classes.\<close>

definition name_starts :: "string \<Rightarrow> FilterCache \<Rightarrow> bool" where
  "name_starts s f \<longleftrightarrow> take (length s) (fc_name f) = s"

definition fc_flags :: "ftm_env \<Rightarrow> u64 \<Rightarrow> u32 \<Rightarrow> FilterCache \<Rightarrow> u32 \<times> FilterCache" where
  "fc_flags z permission region_type f0 =
     (let fl0 = fc_reqFlags f0 OR push_bit 13 region_type;
          (fl1, f1) = (if permission = perm_rxp z
             then (fl0 OR push_bit 8 1, fc_bump (\<lambda>c. c\<lparr>rxpCount := Suc (rxpCount c)\<rparr>) f0) else (fl0, f0));
          (fl2, f2) =
            (if permission = perm_rwp z then (fl1 OR push_bit 7 1, fc_bump (\<lambda>c. c\<lparr>rwpCount := Suc (rwpCount c)\<rparr>) f1)
             else if permission = perm_rp z then (fl1 OR push_bit 11 1, fc_bump (\<lambda>c. c\<lparr>rpCount := Suc (rpCount c)\<rparr>) f1)
             else if permission = perm_rwxp z then (fl1 OR push_bit 12 1, fc_bump (\<lambda>c. c\<lparr>rwxpCount := Suc (rwxpCount c)\<rparr>) f1)
             else (fl1, f1));
          fl3 = (if \<not> scatterCache z \<and> name_starts ''l1i'' f2 then fl2 OR push_bit 9 1 else fl2);
          fl4 = (if \<not> scatterCache z \<and> name_starts ''l1d'' f2 then fl3 OR push_bit 10 1 else fl3)
      in (fl4, f2))"

subsection \<open>Accesses\<close>

text \<open>\<open>acc\<close> is \<^verbatim>\<open>Cache::access\<close> on the rest of the cache. The state cell of the request is the local variable
  \<^verbatim>\<open>dummyState\<close>, which starts invalid.\<close>

definition fc_replace ::
  "(MemReq \<Rightarrow> 's \<Rightarrow> (cycle \<times> 's) option) \<Rightarrow> ftm_env \<Rightarrow> addr \<Rightarrow> nat \<Rightarrow> bool \<Rightarrow> cycle \<Rightarrow> FilterCache \<times> 's
   \<Rightarrow> (cycle \<times> FilterCache \<times> 's) option" where
  "fc_replace acc z vLineAddr idx isLoad curCycle fs = do {
     (pLineAddr, permission, region_type, f1) \<leftarrow> fc_translate z vLineAddr (fst fs);
     let (fl, f2) = fc_flags z permission region_type f1;
     let req = \<lparr>r_lineAddr = pLineAddr, r_type = (if isLoad then GETS else GETX), r_childId = 0, r_state = LocalCell 0,
                r_cycle = curCycle, r_initialState = I, r_srcId = fc_srcId f2, r_flags = fl\<rparr>;
     (respCycle, s') \<leftarrow> acc req (snd fs);
     let e = filterArray f2 ! idx;
     let oldAddr = rdAddr e;
     let e1 = e\<lparr>wrAddr := (if isLoad then - 1 else vLineAddr), rdAddr := vLineAddr\<rparr>;
     let e2 = (if oldAddr \<noteq> vLineAddr then e1\<lparr>availCycle := respCycle\<rparr> else e1);
     Some (respCycle, f2\<lparr>filterArray := (filterArray f2)[idx := e2]\<rparr>, s') }"

definition fc_index :: "addr \<Rightarrow> FilterCache \<Rightarrow> nat" where
  "fc_index lineAddr f = unat (ucast (lineAddr AND fc_setMask f) :: u32)"

definition fc_load ::
  "(MemReq \<Rightarrow> 's \<Rightarrow> (cycle \<times> 's) option) \<Rightarrow> ftm_env \<Rightarrow> addr \<Rightarrow> cycle \<Rightarrow> FilterCache \<times> 's \<Rightarrow> (cycle \<times> FilterCache \<times> 's) option" where
  "fc_load acc z vAddr curCycle fs =
     (let vLineAddr = drop_bit (lineBits z) vAddr in fc_replace acc z vLineAddr (fc_index vLineAddr (fst fs)) True curCycle fs)"

definition fc_store ::
  "(MemReq \<Rightarrow> 's \<Rightarrow> (cycle \<times> 's) option) \<Rightarrow> ftm_env \<Rightarrow> addr \<Rightarrow> cycle \<Rightarrow> FilterCache \<times> 's \<Rightarrow> (cycle \<times> FilterCache \<times> 's) option" where
  "fc_store acc z vAddr curCycle fs =
     (let vLineAddr = drop_bit (lineBits z) vAddr in fc_replace acc z vLineAddr (fc_index vLineAddr (fst fs)) False curCycle fs)"

text \<open>\<open>finish\<close> is \<^verbatim>\<open>Cache::finishInvalidate\<close>.\<close>

definition fc_invalidate ::
  "(InvReq \<Rightarrow> 's \<Rightarrow> (cycle \<times> bool \<times> 's) option) \<Rightarrow> ftm_env \<Rightarrow> InvReq \<Rightarrow> FilterCache \<times> 's
   \<Rightarrow> (cycle \<times> bool \<times> FilterCache \<times> 's) option" where
  "fc_invalidate finish z req fs = do {
     let f = fst fs;
     let idx = fc_index (i_lineAddr req) f;
     let e = filterArray f ! idx;
     let f1 = (if rdAddr e OR procMask z = i_lineAddr req
               then f\<lparr>filterArray := (filterArray f)[idx := e\<lparr>wrAddr := - 1, rdAddr := - 1\<rparr>]\<rparr> else f);
     (respCycle, wb, s') \<leftarrow> finish req (snd fs);
     Some (respCycle, wb, f1, s') }"

definition fc_contextSwitch :: "FilterCache \<Rightarrow> FilterCache" where
  "fc_contextSwitch f = f\<lparr>filterArray := map (\<lambda>i. if i < fc_numSets f then FilterEntry_clear else filterArray f ! i)
     [0..<length (filterArray f)]\<rparr>"

subsection \<open>Private and shared pages\<close>

text \<open>A page is private unless sharing is on and it is a read-only page of a library.\<close>

definition private_page :: "ftm_env \<Rightarrow> addr \<Rightarrow> FilterCache \<Rightarrow> bool" where
  "private_page z v f \<longleftrightarrow> \<not> firstPhase z \<or> noSharing z \<or> scatterCache z \<or>
     (case protection z v f of None \<Rightarrow> False
      | Some (perm, rt, _) \<Rightarrow> bit rt 3 \<or> perm = 10 \<or> \<not> (bit rt 2 \<and> (perm = perm_rxp z \<or> perm = perm_rp z)))"

lemma private_translate:
  assumes "private_page z v f"
  shows "\<exists>r. fc_translate z v f = Some (procMask z OR v, r)"
proof (cases "firstPhase z \<and> \<not> noSharing z \<and> \<not> scatterCache z")
  case True
  then obtain perm rt f1 where "protection z v f = Some (perm, rt, f1)"
      "bit rt 3 \<or> perm = 10 \<or> \<not> (bit rt 2 \<and> (perm = perm_rxp z \<or> perm = perm_rp z))"
    using assms by (auto simp: private_page_def split: option.splits)
  then show ?thesis using True by (auto simp: fc_translate_def Let_def)
qed (auto simp: fc_translate_def Let_def)

lemma proc_mask_line:
  assumes "lb \<le> 64" "p < 2 ^ lb"
  shows "drop_bit (64 - lb) (proc_mask lb p OR drop_bit lb a) = of_nat p"
    "take_bit (64 - lb) (proc_mask lb p OR drop_bit lb a) = drop_bit lb a"
proof -
  have p: "bit (of_nat p :: u64) n \<longleftrightarrow> n < lb \<and> bit p n" for n
  proof -
    have "bit p n \<Longrightarrow> n < lb"
      using assms(2) by (metis bit_take_bit_iff take_bit_nat_eq_self_iff)
    then show ?thesis using assms(1) by (auto simp: bit_of_nat_iff possible_bit_word)
  qed
  show "drop_bit (64 - lb) (proc_mask lb p OR drop_bit lb a) = of_nat p"
    using assms(1) bit_imp_le_length [of a]
    by (intro bit_eqI) (auto simp: proc_mask_def bit_drop_bit_eq bit_or_iff bit_push_bit_iff p)
  show "take_bit (64 - lb) (proc_mask lb p OR drop_bit lb a) = drop_bit lb a"
    using assms(1) bit_imp_le_length [of a]
    by (intro bit_eqI) (fastforce simp: proc_mask_def bit_drop_bit_eq bit_or_iff bit_push_bit_iff bit_take_bit_iff)
qed

lemma proc_mask_inj:
  assumes "lb \<le> 64" "p < 2 ^ lb" "q < 2 ^ lb"
  shows "proc_mask lb p OR drop_bit lb a = proc_mask lb q OR drop_bit lb b \<longleftrightarrow> p = q \<and> drop_bit lb a = drop_bit lb b"
proof -
  have "p < 2 ^ 64" "q < 2 ^ 64"
    using assms power_increasing [OF assms(1), of "2 :: nat"] by linarith+
  then have "(of_nat p :: u64) = of_nat q \<longleftrightarrow> p = q" by (simp add: word_of_nat_eq_iff take_bit_nat_eq_self)
  then show ?thesis using proc_mask_line [OF assms(1,2), of a] proc_mask_line [OF assms(1,3), of b] by metis
qed

text \<open>A read-only page of the library \<open>key\<close> at offset \<open>off\<close> from the start of the library.\<close>

definition library_page :: "ftm_env \<Rightarrow> addr \<Rightarrow> u64 \<Rightarrow> u64 \<Rightarrow> bool" where
  "library_page z v key off \<longleftrightarrow> firstPhase z \<and> \<not> noSharing z \<and> \<not> scatterCache z \<and>
     (case proc_map z of None \<Rightarrow> False | Some pms \<Rightarrow>
        (case find_range (push_bit 6 v) pms of None \<Rightarrow> False | Some pm \<Rightarrow>
           pm_name pm = key \<and> pm_sl pm \<and> \<not> pm_mmap pm \<and> permissions pm \<noteq> 10
           \<and> (permissions pm = perm_rxp z \<or> permissions pm = perm_rp z)
           \<and> off = push_bit 6 v - lib_baseline key pms))"

lemma region_of_bits: "bit (region_of pm) 2 \<longleftrightarrow> pm_sl pm" "bit (region_of pm) 3 \<longleftrightarrow> pm_mmap pm"
  by (auto simp: region_of_def b2u_def bit_or_iff bit_push_bit_iff bit_1_iff)

lemma library_translate:
  assumes "library_page z v key off" "off \<le> 0x100000000" "find_lib key 0 (sharedLibInfo_idx (maps z)) = Some i"
    and "drop_bit 6 (off + libAddr (maps z) ! i) \<noteq> 0"
  shows "\<exists>r. fc_translate z v f = Some (drop_bit 6 (off + libAddr (maps z) ! i), r)"
proof -
  obtain pms pm where pm: "proc_map z = Some pms" "find_range (push_bit 6 v) pms = Some pm" "pm_name pm = key"
      "pm_sl pm" "\<not> pm_mmap pm" "permissions pm \<noteq> 10" "permissions pm = perm_rxp z \<or> permissions pm = perm_rp z"
      "off = push_bit 6 v - lib_baseline key pms" and on: "firstPhase z" "\<not> noSharing z" "\<not> scatterCache z"
    using assms(1) by (auto simp: library_page_def split: option.splits)
  have all_ones: "bit (- 1 :: u64) 63" by simp
  have "\<not> bit (drop_bit 6 (off + libAddr (maps z) ! i)) 63"
    using bit_imp_le_length [of "off + libAddr (maps z) ! i" 69] by (auto simp: bit_drop_bit_eq)
  then have "drop_bit 6 (off + libAddr (maps z) ! i) \<noteq> - 1" using all_ones by metis
  then show ?thesis
    using pm on assms(2-4)
    by (auto simp: fc_translate_def protection_def checkSharedLib_def region_of_bits Let_def)
qed

subsection \<open>The filter array\<close>

definition fc_wf :: "nat \<Rightarrow> FilterCache \<Rightarrow> bool" where
  "fc_wf k f \<longleftrightarrow> k \<le> 32 \<and> fc_numSets f = 2 ^ k \<and> fc_setMask f = mask k \<and> length (filterArray f) = fc_numSets f
     \<and> (\<forall>i < fc_numSets f. let a = rdAddr (filterArray f ! i) in a = 0 \<or> a = - 1 \<or> fc_index a f = i)"

lemma fc_index_frame:
  "fc_setMask f' = fc_setMask f \<Longrightarrow> fc_index a f' = fc_index a f"
  by (simp add: fc_index_def)

lemma fc_index_update [simp]: "fc_index a (f\<lparr>filterArray := fa\<rparr>) = fc_index a f"
  by (simp add: fc_index_def)

lemma fc_index_less:
  assumes "fc_wf k f"
  shows "fc_index a f < fc_numSets f"
proof -
  have k: "k \<le> 32" "fc_numSets f = 2 ^ k" "fc_setMask f = mask k" using assms by (auto simp: fc_wf_def)
  have "fc_index a f = unat (ucast (take_bit k a) :: u32)" by (simp only: fc_index_def k(3) take_bit_eq_mask)
  also have "\<dots> \<le> unat (take_bit k a)" by (simp only: unsigned_ucast_eq take_bit_nat_less_eq_self)
  also have "unat (take_bit k a) = take_bit k (unat a)" by (rule unsigned_take_bit_eq)
  also have "\<dots> < 2 ^ k" by (rule take_bit_nat_less_exp)
  finally show ?thesis using k(2) by simp
qed

lemma fc_wf_update:
  assumes "fc_wf k f" "rdAddr e = 0 \<or> rdAddr e = - 1 \<or> fc_index (rdAddr e) f = i"
  shows "fc_wf k (f\<lparr>filterArray := (filterArray f)[i := e]\<rparr>)"
  using assms by (auto simp: fc_wf_def Let_def list_simps)

text \<open>The bits of the process index lie above the index of any filter array of at most \<open>2 ^ (64 - lineBits)\<close> sets.\<close>

lemma fc_index_masked:
  assumes "fc_setMask f = mask k" "k \<le> 64 - lb"
  shows "fc_index (a OR proc_mask lb p) f = fc_index a f"
proof -
  have "(a OR proc_mask lb p) AND mask k = a AND mask k"
    using assms(2) by (intro bit_eqI) (auto simp: bit_or_iff bit_and_iff bit_mask_iff proc_mask_def bit_push_bit_iff)
  then show ?thesis using assms(1) by (simp add: fc_index_def)
qed

lemma fc_bump_frame [simp]:
  "filterArray (fc_bump g f) = filterArray f" "fc_setMask (fc_bump g f) = fc_setMask f"
  "fc_numSets (fc_bump g f) = fc_numSets f" "fc_name (fc_bump g f) = fc_name f" "fc_reqFlags (fc_bump g f) = fc_reqFlags f"
  by (simp_all add: fc_bump_def)

definition same_filter :: "FilterCache \<Rightarrow> FilterCache \<Rightarrow> bool" where
  "same_filter f g \<longleftrightarrow> filterArray g = filterArray f \<and> fc_setMask g = fc_setMask f \<and> fc_numSets g = fc_numSets f"

lemma same_filter_wf: "same_filter f g \<Longrightarrow> fc_wf k g = fc_wf k f"
  by (simp add: same_filter_def fc_wf_def fc_index_def)

lemma translate_same:
  assumes "fc_translate z v f = Some (a, perm, rt, f')"
  shows "same_filter f f'"
proof -
  have p: "protection z v f = Some (perm, rt, g) \<Longrightarrow> same_filter f g" for perm rt g
    by (auto simp: protection_def bind_Some_conv same_filter_def split: option.splits)
  have c: "checkSharedLib z v g = Some (x, g') \<Longrightarrow> same_filter g g'" for x g g'
    by (auto simp: checkSharedLib_def abort_simps same_filter_def Let_def split: option.splits if_splits)
  have trans: "same_filter f g \<Longrightarrow> same_filter g h \<Longrightarrow> same_filter f h" for f g h by (simp add: same_filter_def)
  have bump: "same_filter f (fc_bump h g) = same_filter f g" "same_filter f f" for f g h by (simp_all add: same_filter_def)
  show ?thesis
  proof (cases "firstPhase z \<and> \<not> noSharing z \<and> \<not> scatterCache z")
    case True
    then obtain pr rt1 f1 where 1: "protection z v f = Some (pr, rt1, f1)"
      using assms by (auto simp: fc_translate_def bind_Some_conv Let_def)
    note s1 = p [OF 1]
    show ?thesis
    proof (cases "\<not> (bit rt1 3 \<or> pr = 10) \<and> bit rt1 2 \<and> (pr = perm_rxp z \<or> pr = perm_rp z)")
      case shared: True
      then obtain x f2 where 2: "checkSharedLib z v f1 = Some (x, f2)"
        using assms True 1 by (auto simp: fc_translate_def bind_Some_conv Let_def split: if_splits)
      show ?thesis using assms True 1 shared 2 trans [OF s1 c [OF 2]]
        by (auto simp: fc_translate_def Let_def bump split: if_splits)
    next
      case False
      then show ?thesis using assms True 1 s1 by (auto simp: fc_translate_def Let_def bump split: if_splits)
    qed
  qed (use assms in \<open>auto simp: fc_translate_def Let_def bump split: if_splits\<close>)
qed

lemma flags_same: "same_filter f (snd (fc_flags z perm rt f))"
  by (auto simp: fc_flags_def Let_def same_filter_def)

lemma replace_wf:
  assumes "fc_replace acc z v (fc_index v f) isLoad cyc (f, s) = Some (r, f', s')" "fc_wf k f"
  shows "fc_wf k f'"
proof -
  obtain a perm rt f1 where t: "fc_translate z v f = Some (a, perm, rt, f1)"
    using assms(1) by (auto simp: fc_replace_def bind_Some_conv)
  obtain fl f2 where fl: "fc_flags z perm rt f1 = (fl, f2)" by force
  have same: "same_filter f f2" using translate_same [OF t] flags_same [of f1 z perm rt] fl by (simp add: same_filter_def)
  have wf2: "fc_wf k f2" using same_filter_wf [OF same] assms(2) by simp
  have idx: "fc_index v f2 = fc_index v f" using same by (simp add: same_filter_def fc_index_def)
  show ?thesis using assms(1) t fl fc_wf_update [OF wf2, of _ "fc_index v f"] idx
    by (auto simp: fc_replace_def bind_Some_conv Let_def split: if_splits)
qed

text \<open>The calls on a filter cache, by any processes in any order.\<close>

inductive fc_step ::
  "(MemReq \<Rightarrow> 's \<Rightarrow> (cycle \<times> 's) option) \<Rightarrow> (InvReq \<Rightarrow> 's \<Rightarrow> (cycle \<times> bool \<times> 's) option)
   \<Rightarrow> FilterCache \<times> 's \<Rightarrow> FilterCache \<times> 's \<Rightarrow> bool" for acc fin where
  fc_step_load: "fc_load acc z ad cyc fs = Some (r, fs') \<Longrightarrow> fc_step acc fin fs fs'"
| fc_step_store: "fc_store acc z ad cyc fs = Some (r, fs') \<Longrightarrow> fc_step acc fin fs fs'"
| fc_step_inv: "fc_invalidate fin z req fs = Some (r, wb, fs') \<Longrightarrow> fc_step acc fin fs fs'"
| fc_step_switch: "fc_step acc fin (f, s) (fc_contextSwitch f, s)"

lemma fc_step_wf: "fc_step acc fin fs fs' \<Longrightarrow> fc_wf k (fst fs) \<Longrightarrow> fc_wf k (fst fs')"
proof (induction rule: fc_step.induct)
  case (fc_step_load z ad cyc fs r fs')
  then show ?case by (cases fs; cases fs') (auto simp: fc_load_def Let_def intro: replace_wf)
next
  case (fc_step_store z ad cyc fs r fs')
  then show ?case by (cases fs; cases fs') (auto simp: fc_store_def Let_def intro: replace_wf)
next
  case (fc_step_inv z req fs r wb fs')
  then have "fst fs' = fst fs \<or>
      (\<exists>i e. rdAddr e = - 1 \<and> fst fs' = (fst fs)\<lparr>filterArray := (filterArray (fst fs))[i := e]\<rparr>)"
    by (force simp: fc_invalidate_def bind_Some_conv Let_def split: if_splits)
  then show ?case using fc_step_inv.prems fc_wf_update by metis
next
  case (fc_step_switch f s)
  then show ?case by (simp add: fc_contextSwitch_def fc_wf_def FilterEntry_clear_def Let_def)
qed

lemma FilterCache_new_wf:
  assumes "k \<le> 32"
  shows "fc_wf k (FilterCache_new (2 ^ k) name)"
  using assms
  by (auto simp: fc_wf_def FilterCache_new_def FilterEntry_clear_def Let_def mask_eq_decr_exp )

lemma fc_reach_wf: "(fc_step acc fin)\<^sup>*\<^sup>* fs fs' \<Longrightarrow> fc_wf k (fst fs) \<Longrightarrow> fc_wf k (fst fs')"
  by (induction rule: rtranclp_induct) (auto intro: fc_step_wf)

subsection \<open>Properties\<close>

text \<open>C9: processes are isolated on their private pages: the lines two processes reach there are equal only for the same
  process and the same virtual line.\<close>

theorem private_lines_disjoint:
  assumes "private_page z1 (drop_bit lb a1) f1" "private_page z2 (drop_bit lb a2) f2"
    and "procMask z1 = proc_mask lb p1" "procMask z2 = proc_mask lb p2" "p1 < 2 ^ lb" "p2 < 2 ^ lb" "lb \<le> 64"
  shows "\<exists>l1 r1 l2 r2. fc_translate z1 (drop_bit lb a1) f1 = Some (l1, r1)
     \<and> fc_translate z2 (drop_bit lb a2) f2 = Some (l2, r2)
     \<and> (l1 = l2 \<longleftrightarrow> p1 = p2 \<and> drop_bit lb a1 = drop_bit lb a2)"
  using private_translate [OF assms(1)] private_translate [OF assms(2)] proc_mask_inj [OF assms(7,5,6), of a1 a2] assms(3,4)
  by auto

text \<open>Two processes that map one library at different addresses, for the witnesses.\<close>

definition sample_entry :: "u64 \<Rightarrow> ProcMapInfo" where
  "sample_entry base = ProcMapInfo0\<lparr>start_range := base, end_range := base + 0x2000, pm_name := 0x6C69626300,
     permissions := 0x722D2D7000, pm_sl := True\<rparr>"

definition sample_maps :: proc_maps where
  "sample_maps = \<lparr>perProcessInfo_idx = [7, 8], perProcessInfo_info = [[sample_entry 0x7f0000000000], [sample_entry 0x7e0000000000]],
     sharedLibInfo_idx = [0x6C69626300], libAddr = [0x10000000], sharedLibAddress = 0x110000000,
     sharedLibEndAddress = 0x10000000000\<rparr>"

definition sample_env :: "nat \<Rightarrow> int \<Rightarrow> bool \<Rightarrow> ftm_env" where
  "sample_env p pid ns = \<lparr>maps = sample_maps, firstPhase = True, noSharing = ns, scatterCache = False,
     perm_rxp = 0x722D787000, perm_rwp = 0x72772D7000, perm_rwxp = 0x7277787000, perm_rp = 0x722D2D7000,
     lineBits = 6, procMask = proc_mask 6 p, env_pid = pid\<rparr>"

abbreviation sample_fc :: FilterCache where
  "sample_fc \<equiv> FilterCache_new (2 ^ 2) ''l1d-0''"

theorem private_lines_disjoint_witness:
  "\<exists>l1 r1 l2 r2. fc_translate (sample_env 1 7 True) (drop_bit 6 0x1040) sample_fc = Some (l1, r1)
     \<and> fc_translate (sample_env 2 8 True) (drop_bit 6 0x1040) sample_fc = Some (l2, r2) \<and> l1 \<noteq> l2"
proof -
  have "private_page (sample_env p q True) v f" for p q v f by (simp add: private_page_def sample_env_def)
  moreover have "procMask (sample_env p q b) = proc_mask 6 p" for p q b by (simp add: sample_env_def)
  ultimately show ?thesis
    using private_lines_disjoint [where ?z1.0 = "sample_env 1 7 True" and ?z2.0 = "sample_env 2 8 True" and lb = 6
        and ?a1.0 = "0x1040" and ?a2.0 = "0x1040" and ?f1.0 = sample_fc and ?f2.0 = sample_fc and ?p1.0 = 1 and ?p2.0 = 2]
    by auto
qed

text \<open>C10: processes share library code: two processes that map a library at different addresses reach the same line at
  equal offsets into its read-only pages.\<close>

theorem library_lines_coincide:
  assumes "library_page z1 v1 key off" "library_page z2 v2 key off" "maps z2 = maps z1" "off \<le> 0x100000000"
    and "find_lib key 0 (sharedLibInfo_idx (maps z1)) = Some i" "drop_bit 6 (off + libAddr (maps z1) ! i) \<noteq> 0"
  shows "\<exists>l r1 r2. fc_translate z1 v1 f1 = Some (l, r1) \<and> fc_translate z2 v2 f2 = Some (l, r2)"
proof -
  obtain r1 where "fc_translate z1 v1 f1 = Some (drop_bit 6 (off + libAddr (maps z1) ! i), r1)"
    using library_translate [OF assms(1,4,5,6)] by blast
  moreover obtain r2 where "fc_translate z2 v2 f2 = Some (drop_bit 6 (off + libAddr (maps z1) ! i), r2)"
    using library_translate [OF assms(2,4), of i f2] assms(3,5,6) by auto
  ultimately show ?thesis by blast
qed

theorem library_lines_coincide_witness:
  "\<exists>l r1 r2. fc_translate (sample_env 1 7 False) (drop_bit 6 0x7f0000001040) sample_fc = Some (l, r1)
     \<and> fc_translate (sample_env 2 8 False) (drop_bit 6 0x7e0000001040) sample_fc = Some (l, r2)"
proof -
  have "library_page (sample_env 1 7 False) (drop_bit 6 0x7f0000001040) 0x6C69626300 0x1040"
    "library_page (sample_env 2 8 False) (drop_bit 6 0x7e0000001040) 0x6C69626300 0x1040"
    by (simp_all add: library_page_def sample_env_def sample_maps_def sample_entry_def ProcMapInfo0_def proc_map_def
        lib_baseline_def)
  then show ?thesis
    by (rule library_lines_coincide [where i = 0]) (simp_all add: sample_env_def sample_maps_def)
qed



text \<open>the first-time-miss delay concerns read-only pages only: a request carries the flag that is charged exactly when
  its page is read-only private (or the core's own flags carry it).\<close>

lemma charged_flag_marks_read_only:
  "has_bit (fst (fc_flags z permission (region_of pm) f)) 11
     \<longleftrightarrow> has_bit (fc_reqFlags f) 11 \<or> permission = perm_rp z \<and> permission \<noteq> perm_rwp z"
proof -
  have hb: "has_bit fl 11 \<longleftrightarrow> bit fl 11" for fl :: u32
    by (simp only: has_bit_def bit_iff_and_push_bit_not_eq_0)
  show ?thesis
    unfolding hb by (auto simp: fc_flags_def Let_def bit_or_iff bit_push_bit_iff bit_1_iff bit_exp_iff split: prod.splits if_splits)
qed

end
