(* ===== verification/ZArray.thy ===== *)
theory ZArray
  imports CacheArrays "HOL-Library.Multiset"
begin

text \<open>
  The zcache array of \<^verbatim>\<open>src/src/cache_arrays.cpp\<close>. Each way has its own hash function; a replacement walks the
  positions the resident lines could move to, breadth first, picks a victim among all the lines met, and makes room by
  moving the lines on the path from the victim back to a position of the new line. Lines keep their identifiers:
  \<^verbatim>\<open>lookupArray\<close> maps positions to identifiers and the moves permute it.

  \<open>swapArray\<close> is the part of the array in use (\<^verbatim>\<open>swapArrayLen\<close> is its length); a parent index of -1 is \<open>None\<close>. The walk
  and the path back are loops without a fixed bound and are partial functions; that they return is proved.
\<close>

subsection \<open>State\<close>

record ZWalkInfo =
  zw_pos :: nat
  zw_lineId :: nat
  zw_parentIdx :: "nat option"

record ZArray =
  za_array :: "addr list"
  lookupArray :: "nat list"
  za_rp :: ReplPolicy
  za_hf :: HashFamily
  za_numLines :: nat
  za_numSets :: nat
  ways :: nat
  za_cands :: nat
  za_setMask :: u32
  swapArray :: "nat list"
  lastCandIdx :: nat
  statSwaps :: nat

definition ZArray_new :: "nat \<Rightarrow> nat \<Rightarrow> nat \<Rightarrow> ReplPolicy \<Rightarrow> HashFamily \<Rightarrow> ZArray option" where
  "ZArray_new nLines nWays nCands rp hf = do {
     assert_that (nWays > 1);
     assert_that (nCands \<ge> nWays);
     assert_that (nLines mod nWays = 0);
     let nSets = nLines div nWays;
     assert_that (isPow2 (of_nat nSets :: u32));
     Some \<lparr>za_array = replicate nLines 0, lookupArray = [0..<nLines], za_rp = rp, za_hf = hf, za_numLines = nLines,
           za_numSets = nSets, ways = nWays, za_cands = nCands, za_setMask = of_nat nSets - 1, swapArray = [],
           lastCandIdx = 0, statSwaps = 0\<rparr> }"

text \<open>The position of an address in a way.\<close>

definition za_pos :: "ZArray \<Rightarrow> nat \<Rightarrow> addr \<Rightarrow> nat option" where
  "za_pos a w lineAddr = do {
     h \<leftarrow> hf_hash (za_hf a) w lineAddr;
     Some (w * za_numSets a + unat (h AND ucast (za_setMask a))) }"

subsection \<open>Lookup\<close>

fun za_search :: "ZArray \<Rightarrow> addr \<Rightarrow> nat list \<Rightarrow> nat option option" where
  "za_search a lineAddr [] = Some None"
| "za_search a lineAddr (w # ws) = do {
     pos \<leftarrow> za_pos a w lineAddr;
     let lineId = lookupArray a ! pos;
     if za_array a ! lineId = lineAddr then Some (Some lineId) else za_search a lineAddr ws }"

definition ZArray_lookup :: "addr \<Rightarrow> MemReq option \<Rightarrow> bool \<Rightarrow> ZArray \<Rightarrow> (nat option \<times> ZArray) option" where
  "ZArray_lookup lineAddr req updateReplacement a =
     (if lineAddr = 0 then panic
      else do {
        r \<leftarrow> za_search a lineAddr [0..<ways a];
        case r of
          None \<Rightarrow> Some (None, a)
        | Some lineId \<Rightarrow>
            if updateReplacement then do {
              rq \<leftarrow> req;
              rp \<leftarrow> rp_update lineId (r_type rq) (r_cycle rq) (za_rp a);
              Some (Some lineId, a\<lparr>za_rp := rp\<rparr>) }
            else Some (Some lineId, a) })"

subsection \<open>The replacement walk\<close>

text \<open>The seeds: the positions of the new line, and whether they all hold lines.\<close>

fun za_seeds :: "ZArray \<Rightarrow> addr \<Rightarrow> nat list \<Rightarrow> ZWalkInfo list \<times> bool \<Rightarrow> (ZWalkInfo list \<times> bool) option" where
  "za_seeds a lineAddr [] cv = Some cv"
| "za_seeds a lineAddr (w # ws) (cs, all_valid) = do {
     pos \<leftarrow> za_pos a w lineAddr;
     let lineId = lookupArray a ! pos;
     za_seeds a lineAddr ws (cs @ [\<lparr>zw_pos = pos, zw_lineId = lineId, zw_parentIdx = None\<rparr>],
       all_valid \<and> za_array a ! lineId \<noteq> 0) }"

text \<open>The expansion of one candidate: the positions its line could move to. The candidate of the position it is already
  in is written and then overwritten by the next one, as \<^verbatim>\<open>numCandidates\<close> does not count it.\<close>

fun za_expand :: "ZArray \<Rightarrow> nat \<Rightarrow> nat \<Rightarrow> addr \<Rightarrow> nat list \<Rightarrow> ZWalkInfo list \<times> bool \<Rightarrow> (ZWalkInfo list \<times> bool) option" where
  "za_expand a fringeStart fringeId fringeAddr [] cv = Some cv"
| "za_expand a fringeStart fringeId fringeAddr (w # ws) (cs, all_valid) = do {
     pos \<leftarrow> za_pos a w fringeAddr;
     let lineId = lookupArray a ! pos;
     za_expand a fringeStart fringeId fringeAddr ws
       (if lineId \<noteq> fringeId then cs @ [\<lparr>zw_pos = pos, zw_lineId = lineId, zw_parentIdx = Some fringeStart\<rparr>] else cs,
        all_valid \<and> za_array a ! lineId \<noteq> 0) }"

partial_function (option) za_walk :: "ZArray \<Rightarrow> nat \<Rightarrow> ZWalkInfo list \<times> bool \<Rightarrow> (ZWalkInfo list \<times> bool) option" where
  "za_walk a fringeStart cv =
     (if length (fst cv) < za_cands a \<and> snd cv then do {
        let fringeId = zw_lineId (fst cv ! fringeStart);
        let fringeAddr = za_array a ! fringeId;
        assert_that (fringeAddr \<noteq> 0);
        cv' \<leftarrow> za_expand a fringeStart fringeId fringeAddr [0..<ways a] cv;
        za_walk a (Suc fringeStart) cv' }
      else Some cv)"

declare za_walk.simps [code]

text \<open>The first candidate with the chosen line, and the positions from it back to a seed.\<close>

fun za_minIdx :: "nat \<Rightarrow> nat \<Rightarrow> ZWalkInfo list \<Rightarrow> nat option" where
  "za_minIdx best i [] = None"
| "za_minIdx best i (c # cs) = (if best = zw_lineId c then Some i else za_minIdx best (Suc i) cs)"

partial_function (option) za_chain :: "ZWalkInfo list \<Rightarrow> nat \<Rightarrow> nat list option" where
  "za_chain cs idx = (case zw_parentIdx (cs ! idx) of
     None \<Rightarrow> Some [zw_pos (cs ! idx)]
   | Some p \<Rightarrow> do { ps \<leftarrow> za_chain cs p; Some (zw_pos (cs ! idx) # ps) })"

declare za_chain.simps [code]

text \<open>When no candidate has the chosen line the path is empty and the last assertion fails.\<close>

definition ZArray_preinsert :: "cc_query \<Rightarrow> addr \<Rightarrow> MemReq \<Rightarrow> ZArray \<Rightarrow> (nat \<times> addr \<times> ZArray) option" where
  "ZArray_preinsert cc lineAddr req a = do {
     cv0 \<leftarrow> za_seeds a lineAddr [0..<ways a] ([], True);
     (cs0, all_valid) \<leftarrow> za_walk a 0 cv0;
     assert_that (\<not> all_valid \<or> length cs0 \<ge> za_cands a);
     let cs = take (za_cands a) cs0;
     (best, rp) \<leftarrow> rp_rankCands cc (r_srcId req) (map zw_lineId cs) (za_rp a);
     assert_that (best < za_numLines a);
     minIdx \<leftarrow> za_minIdx best 0 cs;
     swaps \<leftarrow> za_chain cs minIdx;
     Some (best, za_array a ! best, a\<lparr>za_rp := rp, lastCandIdx := minIdx, swapArray := swaps\<rparr>) }"

text \<open>The moves of \<^verbatim>\<open>postinsert\<close>: each position takes the line of the next one on the path.\<close>

fun za_moves :: "nat list \<Rightarrow> nat list \<Rightarrow> nat list" where
  "za_moves (p # q # ps) la = za_moves (q # ps) (la[p := la ! q])"
| "za_moves ps la = la"

definition ZArray_postinsert :: "addr \<Rightarrow> MemReq \<Rightarrow> nat \<Rightarrow> ZArray \<Rightarrow> ZArray option" where
  "ZArray_postinsert lineAddr req candidate a = do {
     assert_that (lookupArray a ! (swapArray a ! 0) = candidate);
     let a1 = a\<lparr>lookupArray := (za_moves (swapArray a) (lookupArray a))[last (swapArray a) := candidate],
                za_rp := rp_replaced candidate (za_rp a), za_array := (za_array a)[candidate := lineAddr]\<rparr>;
     rp \<leftarrow> rp_update candidate (r_type req) (r_cycle req) (za_rp a1);
     Some (a1\<lparr>za_rp := rp, statSwaps := statSwaps a + (length (swapArray a) - 1)\<rparr>) }"

definition ZArray_insert :: "cc_query \<Rightarrow> MemReq \<Rightarrow> addr \<Rightarrow> ZArray \<Rightarrow> (nat \<times> addr \<times> ZArray) option" where
  "ZArray_insert cc req lineAddr a = do {
     (candidate, wbLineAddr, a1) \<leftarrow> ZArray_preinsert cc lineAddr req a;
     a2 \<leftarrow> ZArray_postinsert lineAddr req candidate a1;
     Some (candidate, wbLineAddr, a2) }"

definition ZArray_find :: "addr \<Rightarrow> ZArray \<Rightarrow> nat option option" where
  "ZArray_find lineAddr a = map_option fst (ZArray_lookup lineAddr None False a)"

subsection \<open>The invariant\<close>

definition za_wf :: "ZArray \<Rightarrow> bool" where
  "za_wf a \<longleftrightarrow> 1 < ways a \<and> ways a \<le> za_cands a \<and> za_numLines a = ways a * za_numSets a \<and> (\<exists>k < 32. za_numSets a = 2 ^ k)
     \<and> za_setMask a = of_nat (za_numSets a) - 1 \<and> hf_wf (ways a) (za_hf a)
     \<and> length (za_array a) = za_numLines a \<and> length (lookupArray a) = za_numLines a"

text \<open>Every identifier has one position, and a line sits in the position of its way's hash.\<close>

definition za_perm :: "ZArray \<Rightarrow> bool" where
  "za_perm a \<longleftrightarrow> distinct (lookupArray a) \<and> set (lookupArray a) = {..<za_numLines a}"

definition za_located :: "ZArray \<Rightarrow> bool" where
  "za_located a \<longleftrightarrow> (\<forall>p < za_numLines a. za_array a ! (lookupArray a ! p) \<noteq> 0 \<longrightarrow>
     za_pos a (p div za_numSets a) (za_array a ! (lookupArray a ! p)) = Some p)"

text \<open>The number of candidates varies from one replacement to the next, which the random policy does not support.\<close>

fun rp_varying :: "nat \<Rightarrow> nat \<Rightarrow> ReplPolicy \<Rightarrow> bool" where
  "rp_varying n lines (RP_Rand p) = False"
| "rp_varying n lines p = rp_rest n lines p"

definition za_inv :: "ZArray \<Rightarrow> bool" where
  "za_inv a \<longleftrightarrow> za_wf a \<and> za_perm a \<and> za_located a \<and> tags_distinct (za_array a) \<and> rp_varying (za_cands a) (za_numLines a) (za_rp a)"

lemma rp_varying_rest: "rp_varying n lines p \<Longrightarrow> m \<le> n \<Longrightarrow> rp_rest m lines p"
  by (cases p) auto

lemma rp_varying_turn:
  assumes "rp_varying n lines p" "length cs \<le> n" "rp_rankCands cc src cs p = Some (v, p')" "i < lines"
    and "rp_update i ty cyc (rp_replaced i p') = Some p''"
  shows "rp_varying n lines p''"
proof (cases p)
  case (RP_NRU q)
  then have p': "p' = RP_NRU (foldl NRU_recordCandidate q cs)"
    using assms(3) by (auto simp: NRU_rank_def Let_def abort_simps)
  have "rp_rest (length cs) lines (rp_replaced i p')"
    using rp.replaced_rest [OF rp_varying_rest [OF assms(1,2)] assms(3,4)] .
  then have "rp_rest (length cs) lines p''" using rp.update_rest [OF _ assms(4,5)] by blast
  moreover obtain r where "p'' = RP_NRU r" "length (nru_candArray r) = length (nru_candArray q)"
    using assms(5) p' NRU_record_foldl_frame [of q cs] by (auto simp: NRU_update_def NRU_replaced_def Let_def)
  ultimately show ?thesis using assms(1) RP_NRU by simp
next
  case (RP_LFU q)
  then obtain r where "p' = RP_LFU r" using assms(3) by auto
  moreover have "rp_rest (length cs) lines (rp_replaced i p')"
    using rp.replaced_rest [OF rp_varying_rest [OF assms(1,2)] assms(3,4)] .
  ultimately show ?thesis using rp.update_rest [OF _ assms(4,5)] assms(5) by fastforce
qed (use assms in auto)

subsection \<open>Positions\<close>

definition posn :: "ZArray \<Rightarrow> nat \<Rightarrow> addr \<Rightarrow> nat" where
  "posn a w x = the (za_pos a w x)"

lemma za_pos_posn:
  assumes "za_wf a" "w < ways a"
  shows "za_pos a w x = Some (posn a w x)" "posn a w x < za_numLines a" "posn a w x div za_numSets a = w"
proof -
  obtain k where k: "k < 32" "za_numSets a = 2 ^ k" using assms(1) by (auto simp: za_wf_def)
  obtain h where h: "hf_hash (za_hf a) w x = Some h"
    using hf_hash_total [of "ways a" "za_hf a" w x] assms by (auto simp: za_wf_def)
  then show "za_pos a w x = Some (posn a w x)" by (simp add: posn_def za_pos_def)
  have p: "posn a w x = w * za_numSets a + unat (h AND ucast (za_setMask a))" using h by (simp add: posn_def za_pos_def)
  have "0 < za_numSets a" "za_numSets a < 2 ^ 32" using k pow2_less_32 by auto
  then have lt: "unat (h AND ucast (za_setMask a)) < za_numSets a"
    using and_mask_less [of "za_numSets a" h] assms(1) by (simp add: za_wf_def)
  then show "posn a w x div za_numSets a = w" unfolding p by simp
  have "Suc w * za_numSets a \<le> ways a * za_numSets a" by (rule mult_le_mono1) (use assms(2) in simp)
  then show "posn a w x < za_numLines a" using lt assms(1) unfolding p by (simp add: za_wf_def)
qed

lemma za_pos_frame:
  "za_hf a' = za_hf a \<Longrightarrow> za_numSets a' = za_numSets a \<Longrightarrow> za_setMask a' = za_setMask a \<Longrightarrow> za_pos a' w x = za_pos a w x"
  by (simp add: za_pos_def)

lemma lookup_inj:
  assumes "za_wf a" "za_perm a" "p < za_numLines a" "q < za_numLines a"
  shows "lookupArray a ! p = lookupArray a ! q \<longleftrightarrow> p = q"
  using assms by (simp add: za_wf_def za_perm_def nth_eq_iff_index_eq)

lemma lookup_bound: "za_wf a \<Longrightarrow> za_perm a \<Longrightarrow> p < za_numLines a \<Longrightarrow> lookupArray a ! p < za_numLines a"
  unfolding za_perm_def za_wf_def by (metis lessThan_iff nth_mem)

lemma za_search_result:
  assumes "za_wf a" "set ws \<subseteq> {..<ways a}"
  shows "\<exists>r. za_search a x ws = Some r \<and> (case r of
     None \<Rightarrow> \<forall>w \<in> set ws. za_array a ! (lookupArray a ! posn a w x) \<noteq> x
   | Some i \<Rightarrow> \<exists>w \<in> set ws. i = lookupArray a ! posn a w x \<and> za_array a ! i = x)"
  using assms(2)
proof (induction ws)
  case (Cons w ws)
  then have "w < ways a" by simp
  then show ?case using Cons za_pos_posn(1) [OF assms(1), of w x] by (auto simp: Let_def split: option.splits)
qed simp

lemma ZArray_find_alt: "x \<noteq> 0 \<Longrightarrow> ZArray_find x a = za_search a x [0..<ways a]"
  by (cases "za_search a x [0..<ways a]") (auto simp: ZArray_find_def ZArray_lookup_def split: option.splits)

lemma ZArray_find_result:
  assumes "za_wf a" "x \<noteq> 0"
  obtains (miss) "ZArray_find x a = Some None" "\<And>w. w < ways a \<Longrightarrow> za_array a ! (lookupArray a ! posn a w x) \<noteq> x"
    | (hit) w where "w < ways a" "ZArray_find x a = Some (Some (lookupArray a ! posn a w x))" "za_array a ! (lookupArray a ! posn a w x) = x"
proof -
  have "set [0..<ways a] \<subseteq> {..<ways a}" by auto
  from za_search_result [OF assms(1) this, of x] show thesis
    using that unfolding ZArray_find_alt [OF assms(2)] by (fastforce split: option.splits)
qed

lemma ZArray_find_sound:
  assumes "za_wf a" "za_perm a" "ZArray_find x a = Some (Some i)"
  shows "i < za_numLines a \<and> za_array a ! i = x"
proof -
  have "x \<noteq> 0" using assms(3) by (auto simp: ZArray_find_def ZArray_lookup_def)
  with assms(1) show ?thesis
    by (cases rule: ZArray_find_result) (use assms lookup_bound [OF assms(1,2)] za_pos_posn(2) [OF assms(1)] in auto)
qed

lemma ZArray_find_None:
  assumes "za_wf a" "za_perm a" "za_located a" "x \<noteq> 0" "ZArray_find x a = Some None"
  shows "x \<notin> resident (za_array a)"
proof
  assume "x \<in> resident (za_array a)"
  then obtain i where i: "i < za_numLines a" "za_array a ! i = x"
    using assms(1) by (auto simp: resident_def in_set_conv_nth za_wf_def)
  then obtain p where p: "p < za_numLines a" "lookupArray a ! p = i"
    using assms(1,2) by (metis in_set_conv_nth lessThan_iff za_perm_def za_wf_def)
  have w: "p div za_numSets a < ways a" using p(1) assms(1) by (auto simp: za_wf_def less_mult_imp_div_less)
  have "za_pos a (p div za_numSets a) x = Some p" using assms(3,4) i p by (auto simp: za_located_def)
  then have "posn a (p div za_numSets a) x = p" by (simp add: posn_def)
  note here = this
  show False
  proof (rule ZArray_find_result [OF assms(1,4)])
    assume "\<And>w. w < ways a \<Longrightarrow> za_array a ! (lookupArray a ! posn a w x) \<noteq> x"
    from this [OF w] show False using here i p by simp
  qed (use assms(5) in auto)
qed

subsection \<open>The walk\<close>

text \<open>The seeds and the expansion of a candidate in closed form.\<close>

definition seed :: "ZArray \<Rightarrow> addr \<Rightarrow> nat \<Rightarrow> ZWalkInfo" where
  "seed a x w = \<lparr>zw_pos = posn a w x, zw_lineId = lookupArray a ! posn a w x, zw_parentIdx = None\<rparr>"

definition kid :: "ZArray \<Rightarrow> nat \<Rightarrow> addr \<Rightarrow> nat \<Rightarrow> ZWalkInfo" where
  "kid a p y w = \<lparr>zw_pos = posn a w y, zw_lineId = lookupArray a ! posn a w y, zw_parentIdx = Some p\<rparr>"

lemma za_seeds_eq:
  assumes "za_wf a" "set ws \<subseteq> {..<ways a}"
  shows "\<exists>v'. za_seeds a x ws (cs, v) = Some (cs @ map (seed a x) ws, v') \<and> (v' \<longleftrightarrow> v \<and> (\<forall>w \<in> set ws. za_array a ! zw_lineId (seed a x w) \<noteq> 0))"
  using assms(2)
proof (induction ws arbitrary: cs v)
  case (Cons w ws)
  then have "w < ways a" by simp
  then show ?case using Cons.IH [of "cs @ [seed a x w]"] Cons.prems za_pos_posn(1) [OF assms(1), of w x]
    by (auto simp: Let_def seed_def)
qed simp

lemma za_expand_eq:
  assumes "za_wf a" "set ws \<subseteq> {..<ways a}"
  shows "\<exists>v'. za_expand a p fid y ws (cs, v) = Some (cs @ map (kid a p y) (filter (\<lambda>w. lookupArray a ! posn a w y \<noteq> fid) ws), v')
     \<and> (v' \<longleftrightarrow> v \<and> (\<forall>w \<in> set ws. za_array a ! (lookupArray a ! posn a w y) \<noteq> 0))"
  using assms(2)
proof (induction ws arbitrary: cs v)
  case (Cons w ws)
  then have "w < ways a" by simp
  then show ?case using Cons.IH Cons.prems za_pos_posn(1) [OF assms(1), of w y]
    by (auto simp: Let_def kid_def)
qed simp

text \<open>What holds of every candidate: it is a seed, or a position the line of its parent could move to; no candidate is
  nearer than \<^verbatim>\<open>ways\<close> entries to its parent.\<close>

definition cand_ok :: "ZArray \<Rightarrow> addr \<Rightarrow> ZWalkInfo list \<Rightarrow> nat \<Rightarrow> bool" where
  "cand_ok a x cs j \<longleftrightarrow> zw_pos (cs ! j) < za_numLines a \<and> zw_lineId (cs ! j) = lookupArray a ! zw_pos (cs ! j) \<and>
     (case zw_parentIdx (cs ! j) of
        None \<Rightarrow> \<exists>w < ways a. zw_pos (cs ! j) = posn a w x
      | Some p \<Rightarrow> p + ways a \<le> j \<and> za_array a ! zw_lineId (cs ! p) \<noteq> 0
          \<and> (\<exists>w < ways a. zw_pos (cs ! j) = posn a w (za_array a ! zw_lineId (cs ! p))))"

text \<open>The first \<open>fs\<close> candidates have been expanded, in order and completely.\<close>

definition expanded :: "ZArray \<Rightarrow> nat \<Rightarrow> ZWalkInfo list \<Rightarrow> bool" where
  "expanded a fs cs \<longleftrightarrow>
     (\<forall>j < length cs. \<forall>p. zw_parentIdx (cs ! j) = Some p \<longrightarrow> p < fs \<and> zw_lineId (cs ! j) \<noteq> zw_lineId (cs ! p))
     \<and> (\<forall>p < fs. \<forall>w < ways a. lookupArray a ! posn a w (za_array a ! zw_lineId (cs ! p)) \<noteq> zw_lineId (cs ! p) \<longrightarrow>
          (\<exists>j < length cs. zw_lineId (cs ! j) = lookupArray a ! posn a w (za_array a ! zw_lineId (cs ! p)) \<and> zw_parentIdx (cs ! j) = Some p))
     \<and> (\<forall>j j' p p'. j < j' \<longrightarrow> j' < length cs \<longrightarrow> zw_parentIdx (cs ! j) = Some p \<longrightarrow> zw_parentIdx (cs ! j') = Some p' \<longrightarrow> p \<le> p')"

definition walked :: "ZArray \<Rightarrow> addr \<Rightarrow> nat \<Rightarrow> ZWalkInfo list \<times> bool \<Rightarrow> bool" where
  "walked a x fs cv \<longleftrightarrow> fs + ways a \<le> length (fst cv) \<and> (\<forall>j < length (fst cv). cand_ok a x (fst cv) j) \<and> expanded a fs (fst cv)
     \<and> (snd cv \<longrightarrow> (\<forall>j < length (fst cv). za_array a ! zw_lineId (fst cv ! j) \<noteq> 0))"

lemma cand_ok_append: "j < length cs \<Longrightarrow> 1 < ways a \<Longrightarrow> cand_ok a x (cs @ ds) j \<longleftrightarrow> cand_ok a x cs j"
  by (auto simp: cand_ok_def nth_append split: option.splits)

lemma cand_ok_take: "j < n \<Longrightarrow> n \<le> length cs \<Longrightarrow> 1 < ways a \<Longrightarrow> cand_ok a x (take n cs) j \<longleftrightarrow> cand_ok a x cs j"
  using cand_ok_append [of j "take n cs" a x "drop n cs"] by simp

lemma walked_seeds:
  assumes "za_wf a"
  shows "\<exists>cv. za_seeds a x [0..<ways a] ([], True) = Some cv \<and> walked a x 0 cv \<and> length (fst cv) = ways a"
proof -
  have "set [0..<ways a] \<subseteq> {..<ways a}" by auto
  from za_seeds_eq [OF assms this, of x "[]" True] show ?thesis
    using za_pos_posn(2) [OF assms] by (auto simp: walked_def cand_ok_def expanded_def seed_def)
qed

text \<open>A line can stay in at most one of its positions, so an expansion adds at least one candidate.\<close>

lemma expand_adds:
  assumes "za_wf a" "za_perm a"
  shows "filter (\<lambda>w. lookupArray a ! posn a w y \<noteq> fid) [0..<ways a] \<noteq> []"
proof
  assume "filter (\<lambda>w. lookupArray a ! posn a w y \<noteq> fid) [0..<ways a] = []"
  then have all: "\<forall>w < ways a. lookupArray a ! posn a w y = fid" by (auto simp: filter_empty_conv)
  have w: "0 < ways a" "1 < ways a" using assms(1) by (auto simp: za_wf_def)
  then have "posn a 0 y = posn a 1 y"
    using all lookup_inj [OF assms za_pos_posn(2) [OF assms(1) w(1), of y] za_pos_posn(2) [OF assms(1) w(2), of y]] by simp
  then show False using za_pos_posn(3) [OF assms(1) w(1), of y] za_pos_posn(3) [OF assms(1) w(2), of y] by simp
qed

lemma expanded_kids:
  assumes "expanded a fs cs" "fs < length cs" "1 < ways a" and y: "y = za_array a ! zw_lineId (cs ! fs)"
    and ws: "ws = filter (\<lambda>w. lookupArray a ! posn a w y \<noteq> zw_lineId (cs ! fs)) [0..<ways a]"
  shows "expanded a (Suc fs) (cs @ map (kid a fs y) ws)"
proof -
  let ?cs = "cs @ map (kid a fs y) ws"
  note e = assms(1) [unfolded expanded_def]
  have old: "?cs ! j = cs ! j" if "j < length cs" for j using that by (simp add: nth_append)
  have new: "\<exists>w \<in> set ws. ?cs ! j = kid a fs y w" if "\<not> j < length cs" "j < length ?cs" for j
    using that by (simp add: nth_append) (metis add_less_cancel_left le_add_diff_inverse leI nth_mem)
  have one: "p < Suc fs \<and> zw_lineId (?cs ! j) \<noteq> zw_lineId (?cs ! p)" if j: "j < length ?cs" "zw_parentIdx (?cs ! j) = Some p" for j p
  proof (cases "j < length cs")
    case True
    then have "p < fs" "zw_lineId (cs ! j) \<noteq> zw_lineId (cs ! p)" using e j old [of j] by auto
    then show ?thesis using old [of j] old [of p] True assms(2) by simp
  next
    case False
    from new [OF this j(1)] show ?thesis using j(2) old [OF assms(2)] ws by (auto simp: kid_def)
  qed
  have two: "\<exists>j < length ?cs. zw_lineId (?cs ! j) = lookupArray a ! posn a w (za_array a ! zw_lineId (?cs ! p)) \<and> zw_parentIdx (?cs ! j) = Some p"
    if p: "p < Suc fs" "w < ways a" "lookupArray a ! posn a w (za_array a ! zw_lineId (?cs ! p)) \<noteq> zw_lineId (?cs ! p)" for p w
  proof (cases "p < fs")
    case True
    then have pc: "?cs ! p = cs ! p" using old [of p] assms(2) by simp
    have "lookupArray a ! posn a w (za_array a ! zw_lineId (cs ! p)) \<noteq> zw_lineId (cs ! p)" using p(3) pc by simp
    then obtain j where "j < length cs" "zw_lineId (cs ! j) = lookupArray a ! posn a w (za_array a ! zw_lineId (cs ! p))" "zw_parentIdx (cs ! j) = Some p"
      using conjunct1 [OF conjunct2 [OF e]] p(2) True by blast
    then show ?thesis using old [of j] pc by (intro exI [of _ j]) simp
  next
    case False
    then have [simp]: "p = fs" using p(1) by simp
    have "w \<in> set ws" using p(2,3) old [OF assms(2)] y ws by simp
    then obtain k where k: "k < length ws" "ws ! k = w" by (auto simp: in_set_conv_nth)
    then have "?cs ! (length cs + k) = kid a fs y w" by (simp add: nth_append)
    then show ?thesis using k(1) old [OF assms(2)] y by (intro exI [of _ "length cs + k"]) (simp add: kid_def)
  qed
  have three: "p \<le> p'" if j: "j < j'" "j' < length ?cs" "zw_parentIdx (?cs ! j) = Some p" "zw_parentIdx (?cs ! j') = Some p'" for j j' p p'
  proof (cases "j' < length cs")
    case True
    then show ?thesis using e j old [of j] old [of j'] by (metis less_trans)
  next
    case False
    then have "p' = fs" using new [of j'] j by (auto simp: kid_def)
    then show ?thesis using one [of j p] j by simp
  qed
  show ?thesis unfolding expanded_def using one two three by blast
qed

lemma walked_expand:
  assumes "za_wf a" "za_perm a" "walked a x fs cv" and y: "y = za_array a ! zw_lineId (fst cv ! fs)" "y \<noteq> 0"
  shows "\<exists>cv'. za_expand a fs (zw_lineId (fst cv ! fs)) y [0..<ways a] cv = Some cv' \<and> walked a x (Suc fs) cv' \<and> length (fst cv) < length (fst cv')"
proof -
  obtain cs v where cv: "cv = (cs, v)" by fastforce
  define ws where "ws = filter (\<lambda>w. lookupArray a ! posn a w y \<noteq> zw_lineId (cs ! fs)) [0..<ways a]"
  note wd = assms(3) [unfolded walked_def cv fst_conv snd_conv]
  have w: "1 < ways a" using assms(1) by (simp add: za_wf_def)
  have fs: "fs < length cs" "fs + ways a \<le> length cs" using wd w by auto
  let ?cs = "cs @ map (kid a fs y) ws"
  have "set [0..<ways a] \<subseteq> {..<ways a}" by auto
  then obtain v' where ex: "za_expand a fs (zw_lineId (cs ! fs)) y [0..<ways a] (cs, v) = Some (?cs, v')"
      "v' \<longleftrightarrow> v \<and> (\<forall>w \<in> set [0..<ways a]. za_array a ! (lookupArray a ! posn a w y) \<noteq> 0)"
    using za_expand_eq [OF assms(1), of "[0..<ways a]" fs "zw_lineId (cs ! fs)" y cs v] unfolding ws_def by blast
  have grow: "0 < length ws" using expand_adds [OF assms(1,2), of y "zw_lineId (cs ! fs)"] by (simp add: ws_def)
  have new: "\<exists>w < ways a. ?cs ! j = kid a fs y w" if "\<not> j < length cs" "j < length ?cs" for j
  proof -
    have "ws ! (j - length cs) \<in> set ws" using that by (intro nth_mem) auto
    then show ?thesis using that by (auto simp: ws_def nth_append)
  qed
  have ok: "cand_ok a x ?cs j" if j: "j < length ?cs" for j
  proof (cases "j < length cs")
    case True
    then show ?thesis using wd cand_ok_append [OF True w] by simp
  next
    case False
    then obtain w where "w < ways a" "?cs ! j = kid a fs y w" using new j by blast
    moreover have "?cs ! fs = cs ! fs" using fs(1) by (simp add: nth_append)
    ultimately show ?thesis using za_pos_posn(2) [OF assms(1)] y fs(2) False cv by (auto simp: cand_ok_def kid_def)
  qed
  have valid: "za_array a ! zw_lineId (?cs ! j) \<noteq> 0" if "v'" "j < length ?cs" for j
  proof (cases "j < length cs")
    case True
    then show ?thesis using wd ex(2) that by (simp add: nth_append)
  next
    case False
    then show ?thesis using new [of j] ex(2) that by (auto simp: kid_def)
  qed
  have "expanded a (Suc fs) ?cs" using expanded_kids [OF _ fs(1) w _ ws_def] wd y cv by simp
  moreover have "Suc fs + ways a \<le> length ?cs" using fs(2) grow unfolding length_append length_map by linarith
  ultimately have "walked a x (Suc fs) (?cs, v')" using ok valid unfolding walked_def fst_conv snd_conv by blast
  then show ?thesis using ex(1) grow cv by auto
qed

lemma za_walk_returns:
  assumes "za_wf a" "za_perm a" "walked a x fs cv"
  shows "\<exists>fs' cv'. za_walk a fs cv = Some cv' \<and> walked a x fs' cv' \<and> (\<not> snd cv' \<or> za_cands a \<le> length (fst cv')) \<and> length (fst cv) \<le> length (fst cv')"
  using assms(3)
proof (induction "za_cands a - length (fst cv)" arbitrary: fs cv rule: less_induct)
  case less
  show ?case
  proof (cases "length (fst cv) < za_cands a \<and> snd cv")
    case True
    have "fs < length (fst cv)" using less.prems assms(1) by (auto simp: walked_def za_wf_def)
    then have y: "za_array a ! zw_lineId (fst cv ! fs) \<noteq> 0" using less.prems True by (simp add: walked_def)
    obtain cv1 where cv1: "za_expand a fs (zw_lineId (fst cv ! fs)) (za_array a ! zw_lineId (fst cv ! fs)) [0..<ways a] cv = Some cv1"
        "walked a x (Suc fs) cv1" "length (fst cv) < length (fst cv1)"
      using walked_expand [OF assms(1,2) less.prems refl y] by blast
    have "za_cands a - length (fst cv1) < za_cands a - length (fst cv)" using cv1(3) True by linarith
    from less.hyps [OF this cv1(2)] obtain fs' cv' where "za_walk a (Suc fs) cv1 = Some cv'" "walked a x fs' cv'"
        "\<not> snd cv' \<or> za_cands a \<le> length (fst cv')" "length (fst cv1) \<le> length (fst cv')" by blast
    then show ?thesis using True y cv1 by (subst za_walk.simps) (auto simp: Let_def)
  next
    case False
    then have "za_walk a fs cv = Some cv" by (subst za_walk.simps) (simp only: False if_False)
    then show ?thesis using less.prems False by auto
  qed
qed

subsection \<open>The path back to a seed\<close>

text \<open>A candidate is new if no earlier candidate has its line. The parent of a new candidate is new: an earlier candidate
  with the parent's line would have been expanded earlier, into the same lines.\<close>

definition new_cand :: "ZWalkInfo list \<Rightarrow> nat \<Rightarrow> bool" where
  "new_cand cs j \<longleftrightarrow> (\<forall>i < j. zw_lineId (cs ! i) \<noteq> zw_lineId (cs ! j))"

definition path_ok :: "ZArray \<Rightarrow> addr \<Rightarrow> ZWalkInfo list \<Rightarrow> bool" where
  "path_ok a x cs \<longleftrightarrow> (\<forall>j < length cs. cand_ok a x cs j
     \<and> (\<forall>p. new_cand cs j \<longrightarrow> zw_parentIdx (cs ! j) = Some p \<longrightarrow> new_cand cs p))"

lemma walked_path:
  assumes "za_wf a" "walked a x fs (cs, v)"
  shows "path_ok a x cs"
proof -
  note e = assms(2) [unfolded walked_def fst_conv snd_conv]
  note ex = conjunct1 [OF conjunct2 [OF conjunct2 [OF e]], unfolded expanded_def]
  have "new_cand cs p" if j: "j < length cs" "new_cand cs j" "zw_parentIdx (cs ! j) = Some p" for j p
    unfolding new_cand_def
  proof (intro allI impI notI)
    fix i assume i: "i < p" "zw_lineId (cs ! i) = zw_lineId (cs ! p)"
    have p: "p < fs" "zw_lineId (cs ! j) \<noteq> zw_lineId (cs ! p)" using ex j by blast+
    have "cand_ok a x cs j" using e j(1) by blast
    then obtain w where w: "w < ways a" "zw_lineId (cs ! j) = lookupArray a ! posn a w (za_array a ! zw_lineId (cs ! p))"
      using j(3) by (auto simp: cand_ok_def)
    have "lookupArray a ! posn a w (za_array a ! zw_lineId (cs ! i)) \<noteq> zw_lineId (cs ! i)" using w p(2) i(2) by simp
    then obtain k where k: "k < length cs" "zw_lineId (cs ! k) = zw_lineId (cs ! j)" "zw_parentIdx (cs ! k) = Some i"
      using conjunct1 [OF conjunct2 [OF ex], rule_format, OF less_trans [OF i(1) p(1)] w(1)] w(2) i(2) by auto
    have "\<not> j < k" using conjunct2 [OF conjunct2 [OF ex]] k(1,3) j(3) i(1) by (metis not_le)
    moreover have "k \<noteq> j" using k(3) j(3) i(1) by auto
    ultimately have "k < j" by simp
    then show False using j(2) k(2) by (auto simp: new_cand_def)
  qed
  then show ?thesis using e by (auto simp: path_ok_def)
qed

lemma path_ok_take:
  assumes "path_ok a x cs" "1 < ways a"
  shows "path_ok a x (take n cs)"
proof -
  let ?n = "min n (length cs)"
  have at: "take n cs ! i = cs ! i" if "i < ?n" for i using that by simp
  have new: "new_cand (take n cs) j = new_cand cs j" if "j < ?n" for j
    unfolding new_cand_def using that at by (metis less_trans)
  have "cand_ok a x (take n cs) j \<and> (\<forall>p. new_cand (take n cs) j \<longrightarrow> zw_parentIdx (take n cs ! j) = Some p \<longrightarrow> new_cand (take n cs) p)"
    if j: "j < ?n" for j
  proof -
    have c: "cand_ok a x cs j" using assms(1) j by (simp add: path_ok_def)
    have "cand_ok a x (take n cs) j" using c cand_ok_take [of j "?n" cs a x] j assms(2) by (simp add: min_def split: if_splits)
    moreover have "new_cand (take n cs) p" if "new_cand (take n cs) j" "zw_parentIdx (cs ! j) = Some p" for p
    proof -
      have "p < j" using c that(2) assms(2) by (auto simp: cand_ok_def)
      then show ?thesis using assms(1) j that new [of j] new [of p] by (auto simp: path_ok_def)
    qed
    ultimately show ?thesis using at [OF j] by simp
  qed
  then show ?thesis unfolding path_ok_def length_take by (simp add: min.commute)
qed

definition moves_ok :: "ZArray \<Rightarrow> addr \<Rightarrow> nat list \<Rightarrow> bool" where
  "moves_ok a x ps \<longleftrightarrow> ps \<noteq> [] \<and> distinct ps \<and> (\<forall>p \<in> set ps. p < za_numLines a) \<and> (\<exists>w < ways a. last ps = posn a w x)
     \<and> (\<forall>i. Suc i < length ps \<longrightarrow> za_array a ! (lookupArray a ! (ps ! Suc i)) \<noteq> 0
          \<and> (\<exists>w < ways a. ps ! i = posn a w (za_array a ! (lookupArray a ! (ps ! Suc i)))))"

lemma za_chain_returns:
  assumes "path_ok a x cs" "1 < ways a" "idx < length cs" "new_cand cs idx"
  shows "\<exists>ps. za_chain cs idx = Some ps \<and> moves_ok a x ps \<and> hd ps = zw_pos (cs ! idx) \<and> length ps \<le> idx div ways a + 1
    \<and> (\<forall>q \<in> set ps. \<exists>j \<le> idx. q = zw_pos (cs ! j))"
  using assms(3,4)
proof (induction idx rule: less_induct)
  case (less idx)
  have c: "cand_ok a x cs idx" using assms(1) less.prems by (simp add: path_ok_def)
  show ?case
  proof (cases "zw_parentIdx (cs ! idx)")
    case None
    then have "za_chain cs idx = Some [zw_pos (cs ! idx)]" by (subst za_chain.simps) simp
    then show ?thesis using None c by (auto simp: cand_ok_def moves_ok_def)
  next
    case (Some p)
    have p: "p + ways a \<le> idx" "za_array a ! zw_lineId (cs ! p) \<noteq> 0" "\<exists>w < ways a. zw_pos (cs ! idx) = posn a w (za_array a ! zw_lineId (cs ! p))"
      "zw_lineId (cs ! idx) = lookupArray a ! zw_pos (cs ! idx)" "zw_pos (cs ! idx) < za_numLines a"
      using c Some by (auto simp: cand_ok_def)
    have lt: "p < idx" "p < length cs" using p(1) assms(2) less.prems(1) by auto
    have "new_cand cs p" using assms(1) less.prems Some by (simp add: path_ok_def)
    then obtain ps where ps: "za_chain cs p = Some ps" "moves_ok a x ps" "hd ps = zw_pos (cs ! p)" "length ps \<le> p div ways a + 1"
        "\<forall>q \<in> set ps. \<exists>j \<le> p. q = zw_pos (cs ! j)"
      using less.IH [OF lt] by blast
    let ?ps = "zw_pos (cs ! idx) # ps"
    have ch: "za_chain cs idx = Some ?ps" using Some ps(1) by (subst za_chain.simps) simp
    have fresh: "zw_pos (cs ! idx) \<noteq> q" if "q \<in> set ps" for q
    proof
      assume q: "zw_pos (cs ! idx) = q"
      from bspec [OF ps(5) that] obtain j where j: "j \<le> p" "q = zw_pos (cs ! j)" by (elim exE conjE)
      then have "j < length cs" "j < idx" using lt by auto
      moreover have "cand_ok a x cs j" using assms(1) calculation by (simp add: path_ok_def)
      then have "zw_lineId (cs ! j) = lookupArray a ! zw_pos (cs ! j)" by (simp add: cand_ok_def)
      ultimately show False using j(2) q p(4) less.prems(2) by (auto simp: new_cand_def)
    qed
    note m = ps(2) [unfolded moves_ok_def]
    have "cand_ok a x cs p" using assms(1) lt(2) by (simp add: path_ok_def)
    then have line: "zw_lineId (cs ! p) = lookupArray a ! (ps ! 0)"
      using m ps(3) hd_conv_nth [of ps] by (simp add: cand_ok_def)
    have "za_array a ! (lookupArray a ! (?ps ! Suc i)) \<noteq> 0 \<and> (\<exists>w < ways a. ?ps ! i = posn a w (za_array a ! (lookupArray a ! (?ps ! Suc i))))"
      if "Suc i < length ?ps" for i
    proof (cases i)
      case 0
      then show ?thesis using p(2,3) line by simp
    next
      case (Suc k)
      then show ?thesis using m that by simp
    qed
    moreover have "distinct ?ps" "\<forall>q \<in> set ?ps. q < za_numLines a" "last ?ps = last ps" using m fresh p(5) by auto
    ultimately have "moves_ok a x ?ps" using m unfolding moves_ok_def by (metis list.distinct(1))
    moreover have "length ?ps \<le> idx div ways a + 1"
    proof -
      have "(p + ways a) div ways a \<le> idx div ways a" by (rule div_le_mono [OF p(1)])
      moreover have "(p + ways a) div ways a = p div ways a + 1" using assms(2) by (intro div_add_self2) simp
      ultimately show ?thesis using ps(4) by simp
    qed
    moreover have "\<forall>q \<in> set ?ps. \<exists>j \<le> idx. q = zw_pos (cs ! j)"
      using ps(5) lt(1) by (auto dest: bspec) (meson le_trans less_imp_le)
    ultimately show ?thesis using ch by simp
  qed
qed

subsection \<open>The moves\<close>

definition za_place :: "nat list \<Rightarrow> nat \<Rightarrow> nat list \<Rightarrow> nat list" where
  "za_place ps c la = (za_moves ps la)[last ps := c]"

lemma za_moves_length [simp]: "length (za_moves ps la) = length la"
  by (induction ps la rule: za_moves.induct) auto

lemma za_moves_off: "q \<notin> set (butlast ps) \<Longrightarrow> za_moves ps la ! q = la ! q"
  by (induction ps la rule: za_moves.induct) (auto split: if_splits)

lemma za_moves_path:
  assumes "distinct ps" "\<forall>p \<in> set ps. p < length la" "Suc i < length ps"
  shows "za_moves ps la ! (ps ! i) = la ! (ps ! Suc i)"
  using assms
proof (induction ps la arbitrary: i rule: za_moves.induct)
  case (1 p q ps la)
  show ?case
  proof (cases i)
    case 0
    have "p \<notin> set (butlast (q # ps))" using "1.prems"(1) by (auto dest: in_set_butlastD split: if_splits)
    then show ?thesis using za_moves_off [of p "q # ps"] "1.prems"(2) 0 by simp
  next
    case (Suc j)
    have "(q # ps) ! Suc j \<in> set (q # ps)" using "1.prems"(3) Suc by (intro nth_mem) simp
    then have "(q # ps) ! Suc j \<noteq> p" using "1.prems"(1) by auto
    then show ?thesis using "1.IH" [of j] "1.prems" Suc by simp
  qed
qed auto

lemma mset_move:
  assumes "p \<noteq> q" "p < length la" "q < length la"
  shows "mset (la[p := la ! q, q := c]) = mset (la[p := (c :: nat)])"
proof -
  have "mset (la[p := la ! q, q := c]) = add_mset c (mset (la[p := la ! q]) - {# la ! q #})"
    using assms by (simp add: mset_update)
  also have "mset (la[p := la ! q]) = add_mset (la ! q) (mset la - {# la ! p #})" using assms by (simp add: mset_update)
  finally show ?thesis using assms by (simp add: mset_update)
qed

lemma mset_za_place:
  assumes "distinct ps" "\<forall>p \<in> set ps. p < length la" "ps \<noteq> []"
  shows "mset (za_place ps c la) = mset (la[hd ps := c])"
  using assms
proof (induction ps la rule: za_moves.induct)
  case (1 p q ps la)
  have "mset (za_place (p # q # ps) c la) = mset (la[p := la ! q, q := c])"
    using 1 by (simp add: za_place_def)
  also have "\<dots> = mset (la[p := c])" using "1.prems" by (intro mset_move) auto
  finally show ?case by simp
qed (auto simp: za_place_def)

text \<open>What the moves do to the position of every line, for a path of the walk.\<close>

lemma moves_place:
  assumes "za_inv a" "moves_ok a x ps" "x \<noteq> 0" "c = lookupArray a ! hd ps"
    and a': "lookupArray a' = za_place ps c (lookupArray a)" "za_array a' = (za_array a)[c := x]"
      "za_hf a' = za_hf a" "za_numSets a' = za_numSets a" "za_setMask a' = za_setMask a" "za_numLines a' = za_numLines a"
  shows "za_perm a'" "za_located a'"
proof -
  note inv = assms(1) [unfolded za_inv_def] note m = assms(2) [unfolded moves_ok_def]
  let ?la = "lookupArray a" let ?la' = "lookupArray a'"
  have wf: "za_wf a" "za_perm a" and len: "length ?la = za_numLines a" "length (za_array a) = za_numLines a"
    using inv by (auto simp: za_wf_def)
  have ps: "distinct ps" "\<forall>p \<in> set ps. p < length ?la" "ps \<noteq> []" "hd ps < za_numLines a" using m len by auto
  have c: "c < za_numLines a" using lookup_bound [OF wf ps(4)] assms(4) by simp
  have "mset ?la' = mset ?la" using mset_za_place [OF ps(1-3), of c] assms(4) a'(1) by (simp add: list_update_id)
  then show "za_perm a'" using wf(2) a'(6) mset_eq_imp_distinct_iff mset_eq_setD unfolding za_perm_def by metis
  have pos: "za_pos a' w y = za_pos a w y" for w y by (rule za_pos_frame [OF a'(3-5)])
  show "za_located a'"
    unfolding za_located_def pos a'(4,6)
  proof (intro allI impI)
    fix p assume p: "p < za_numLines a" "za_array a' ! (?la' ! p) \<noteq> 0"
    have way: "za_pos a (p div za_numSets a) y = Some p" if "w < ways a" "p = posn a w y" for w y
      using za_pos_posn [OF wf(1) that(1), of y] that(2) by simp
    consider (last) "p = last ps" | (path) i where "Suc i < length ps" "p = ps ! i" | (off) "p \<notin> set ps"
    proof (cases "p \<in> set ps")
      case True
      then obtain i where i: "i < length ps" "p = ps ! i" by (auto simp: in_set_conv_nth)
      show thesis
      proof (cases "Suc i = length ps")
        case True
        then show thesis using that(1) i last_conv_nth [OF ps(3)] by (metis diff_Suc_1)
      next
        case False
        then show thesis using that(2) [of i] i by simp
      qed
    qed (rule that(3))
    then show "za_pos a (p div za_numSets a) (za_array a' ! (?la' ! p)) = Some p"
    proof cases
      case last
      then have "?la' ! p = c" using p(1) len a'(1) by (simp add: za_place_def)
      then show ?thesis using last m way c len a'(2) by auto
    next
      case (path i)
      have "p \<noteq> last ps"
        using nth_eq_iff_index_eq [OF ps(1), of i "length ps - 1"] path last_conv_nth [OF ps(3)] by simp
      then have l: "?la' ! p = ?la ! (ps ! Suc i)"
        using za_moves_path [OF ps(1,2) path(1)] path a'(1) by (simp add: za_place_def)
      have "ps ! Suc i \<noteq> hd ps" 
        using nth_eq_iff_index_eq [OF ps(1), of "Suc i" 0] path(1) hd_conv_nth [OF ps(3)] ps(3) by simp
      then have "?la ! (ps ! Suc i) \<noteq> c" using lookup_inj [OF wf] m path(1) ps(4) assms(4) by simp
      then have "za_array a' ! (?la' ! p) = za_array a ! (?la ! (ps ! Suc i))" using l a'(2) by simp
      then show ?thesis using m path way by auto
    next
      case off
      then have "p \<noteq> last ps" "p \<notin> set (butlast ps)" using ps(3) by (auto dest: in_set_butlastD)
      then have l: "?la' ! p = ?la ! p" using za_moves_off [of p ps] a'(1) by (simp add: za_place_def)
      have "p \<noteq> hd ps" using off ps(3) by auto
      then have "?la ! p \<noteq> c" using lookup_inj [OF wf p(1) ps(4)] assms(4) by simp
      then show ?thesis using inv p l a'(2) by (auto simp: za_located_def)
    qed
  qed
qed

subsection \<open>Insertion\<close>

lemma za_minIdx_first:
  "za_minIdx b k cs = (if b \<in> zw_lineId ` set cs then Some (k + (LEAST i. i < length cs \<and> zw_lineId (cs ! i) = b)) else None)"
proof (induction cs arbitrary: k)
  case (Cons c cs)
  show ?case
  proof (cases "b = zw_lineId c")
    case True
    then have "(LEAST i. i < length (c # cs) \<and> zw_lineId ((c # cs) ! i) = b) = 0" by (intro Least_equality) auto
    then show ?thesis using True by simp
  next
    case False
    have "(LEAST i. i < length (c # cs) \<and> zw_lineId ((c # cs) ! i) = b) = Suc (LEAST i. i < length cs \<and> zw_lineId (cs ! i) = b)"
      if mem: "b \<in> zw_lineId ` set cs"
    proof -
      obtain i where i: "i < length cs" "zw_lineId (cs ! i) = b"  using mem by (fastforce simp: in_set_conv_nth)
      then have "(LEAST i. i < length (c # cs) \<and> zw_lineId ((c # cs) ! i) = b)
          = Suc (LEAST m. Suc m < length (c # cs) \<and> zw_lineId ((c # cs) ! Suc m) = b)"
        using False by (intro Least_Suc [of _ "Suc i"]) auto
      then show ?thesis by simp
    qed
    then show ?thesis using Cons.IH False by auto
  qed
qed simp

lemma za_minIdx_new:
  assumes "b \<in> zw_lineId ` set cs"
  obtains i where "za_minIdx b 0 cs = Some i" "i < length cs" "zw_lineId (cs ! i) = b" "new_cand cs i"
proof -
  let ?P = "\<lambda>i. i < length cs \<and> zw_lineId (cs ! i) = b"
  obtain i where "?P i" using assms by (fastforce simp: in_set_conv_nth)
  then have P: "?P (LEAST i. ?P i)" by (rule LeastI)
  moreover have "new_cand cs (LEAST i. ?P i)" unfolding new_cand_def using P not_less_Least [of _ ?P] by (metis less_trans)
  ultimately show thesis using that za_minIdx_first [of b 0 cs] assms by simp
qed

lemma preinsert_walk:
  assumes "za_inv a"
  obtains cv0 cs0 v where "za_seeds a x [0..<ways a] ([], True) = Some cv0" "za_walk a 0 cv0 = Some (cs0, v)"
    "\<not> v \<or> za_cands a \<le> length cs0" "path_ok a x (take (za_cands a) cs0)" "ways a \<le> length (take (za_cands a) cs0)"
proof -
  have wf: "za_wf a" "za_perm a" using assms by (auto simp: za_inv_def)
  obtain cv0 where cv0: "za_seeds a x [0..<ways a] ([], True) = Some cv0" "walked a x 0 cv0" "length (fst cv0) = ways a"
    using walked_seeds [OF wf(1)] by blast
  obtain fs cs0 v where w: "za_walk a 0 cv0 = Some (cs0, v)" "walked a x fs (cs0, v)" "\<not> v \<or> za_cands a \<le> length cs0" "ways a \<le> length cs0"
    using za_walk_returns [OF wf cv0(2)] cv0(3) by auto
  have "path_ok a x (take (za_cands a) cs0)" using path_ok_take [OF walked_path [OF wf(1) w(2)]] wf(1) by (simp add: za_wf_def)
  then show thesis using that cv0(1) w wf(1) by (simp add: za_wf_def)
qed

text \<open>Either \<^verbatim>\<open>preinsert\<close> returns with a path that can be moved, or the policy has not returned a candidate.\<close>

definition rank_moves :: "cc_query \<Rightarrow> MemReq \<Rightarrow> addr \<Rightarrow> ZArray \<Rightarrow> ZWalkInfo list \<Rightarrow> bool" where
  "rank_moves cc req x a cs \<longleftrightarrow> length cs \<le> za_cands a \<and> (case rp_rankCands cc (r_srcId req) (map zw_lineId cs) (za_rp a) of
     None \<Rightarrow> ZArray_preinsert cc x req a = None
   | Some (best, rp) \<Rightarrow> best < za_numLines a \<and> (\<exists>minIdx ps. ZArray_preinsert cc x req a
         = Some (best, za_array a ! best, a\<lparr>za_rp := rp, lastCandIdx := minIdx, swapArray := ps\<rparr>)
         \<and> moves_ok a x ps \<and> best = lookupArray a ! hd ps \<and> length ps \<le> za_cands a div ways a + 1))"

lemma ZArray_preinsert_moves:
  assumes "za_inv a"
  shows "\<exists>cs. rank_moves cc req x a cs"
proof -
  have wf: "za_wf a" "za_perm a" using assms by (auto simp: za_inv_def)
  obtain cv0 cs0 v where w: "za_seeds a x [0..<ways a] ([], True) = Some cv0" "za_walk a 0 cv0 = Some (cs0, v)"
      "\<not> v \<or> za_cands a \<le> length cs0" "path_ok a x (take (za_cands a) cs0)" "ways a \<le> length (take (za_cands a) cs0)"
    using preinsert_walk [OF assms] .
  let ?cs = "take (za_cands a) cs0"
  have one: "1 < ways a" using wf(1) by (simp add: za_wf_def)
  have lines: "\<forall>l \<in> set (map zw_lineId ?cs). l < za_numLines a"
  proof
    fix l assume "l \<in> set (map zw_lineId ?cs)"
    then obtain j where j: "j < length ?cs" "l = zw_lineId (?cs ! j)" unfolding in_set_conv_nth by auto
    then have "cand_ok a x ?cs j" using w(4) unfolding path_ok_def by blast
    then show "l < za_numLines a" using j(2) lookup_bound [OF wf] by (simp add: cand_ok_def)
  qed
  have res: "best < za_numLines a \<and> (\<exists>minIdx ps. ZArray_preinsert cc x req a
         = Some (best, za_array a ! best, a\<lparr>za_rp := rp, lastCandIdx := minIdx, swapArray := ps\<rparr>)
         \<and> moves_ok a x ps \<and> best = lookupArray a ! hd ps \<and> length ps \<le> za_cands a div ways a + 1)"
    if r: "rp_rankCands cc (r_srcId req) (map zw_lineId ?cs) (za_rp a) = Some (best, rp)" for best rp
  proof -
    have "rp_rest (length (map zw_lineId ?cs)) (za_numLines a) (za_rp a)"
      by (rule rp_varying_rest) (use assms in \<open>auto simp: za_inv_def\<close>)
    moreover have "map zw_lineId ?cs \<noteq> []" using w(5) one by auto
    ultimately have "best \<in> set (map zw_lineId ?cs)" using rp.rank_in [OF _ _ lines r] by blast
    then have b: "best \<in> zw_lineId ` set ?cs" and lt: "best < za_numLines a" using lines by auto
    obtain i where i: "za_minIdx best 0 ?cs = Some i" "i < length ?cs" "zw_lineId (?cs ! i) = best" "new_cand ?cs i"
      using za_minIdx_new [OF b] .
    obtain ps where ps: "za_chain ?cs i = Some ps" "moves_ok a x ps" "hd ps = zw_pos (?cs ! i)" "length ps \<le> i div ways a + 1"
      using za_chain_returns [OF w(4) one i(2,4)] by blast
    have "cand_ok a x ?cs i" using w(4) i(2) unfolding path_ok_def by blast
    then have "best = lookupArray a ! hd ps" using i(3) ps(3) by (simp add: cand_ok_def)
    moreover have "length ps \<le> za_cands a div ways a + 1"
      using ps(4) div_le_mono [of i "za_cands a" "ways a"] i(2) by simp
    moreover have "ZArray_preinsert cc x req a = Some (best, za_array a ! best, a\<lparr>za_rp := rp, lastCandIdx := i, swapArray := ps\<rparr>)"
      using w(1-3) r lt i(1) ps(1) by (simp add: ZArray_preinsert_def Let_def)
    ultimately show ?thesis using lt ps(2) by blast
  qed
  have "ZArray_preinsert cc x req a = None" if "rp_rankCands cc (r_srcId req) (map zw_lineId ?cs) (za_rp a) = None"
    using w(1-3) that by (simp add: ZArray_preinsert_def Let_def)
  with res have "rank_moves cc req x a ?cs" unfolding rank_moves_def by (simp split: option.split)
  then show ?thesis by blast
qed

lemma ZArray_insert_inv:
  assumes "za_inv a" "x \<noteq> 0" "ZArray_find x a = Some None" "ZArray_insert cc req x a = Some (i, wb, a')"
  shows "i < za_numLines a \<and> wb = za_array a ! i \<and> za_array a' = (za_array a)[i := x] \<and> za_inv a'"
proof -
  have wf: "za_wf a" "za_perm a" "za_located a" using assms(1) by (auto simp: za_inv_def)
  obtain a1 where pre: "ZArray_preinsert cc x req a = Some (i, wb, a1)" and post: "ZArray_postinsert x req i a1 = Some a'"
    using assms(4) by (auto simp: ZArray_insert_def bind_Some_conv)
  obtain cs where cs: "rank_moves cc req x a cs" using ZArray_preinsert_moves [OF assms(1)] by blast
  obtain best rp1 where rk: "rp_rankCands cc (r_srcId req) (map zw_lineId cs) (za_rp a) = Some (best, rp1)"
    using cs pre by (auto simp: rank_moves_def split: option.splits)
  then obtain m ps where r: "i < za_numLines a" "wb = za_array a ! i" "best = i"
      "a1 = a\<lparr>za_rp := rp1, lastCandIdx := m, swapArray := ps\<rparr>" "moves_ok a x ps" "i = lookupArray a ! hd ps"
    using cs pre by (auto simp: rank_moves_def)
  obtain rp2 where up: "rp_update i (r_type req) (r_cycle req) (rp_replaced i rp1) = Some rp2"
    and a': "a' = a\<lparr>lookupArray := za_place ps i (lookupArray a), za_rp := rp2, za_array := (za_array a)[i := x], swapArray := ps,
      lastCandIdx := m, statSwaps := statSwaps a + (length ps - 1)\<rparr>"
    using post r(4) by (auto simp: ZArray_postinsert_def Let_def bind_Some_conv za_place_def)
  have "za_perm a'" "za_located a'"
    by (rule moves_place [OF assms(1) r(5) assms(2) r(6)]; simp add: a')+
  moreover have "za_wf a'" using wf(1) by (simp add: a' za_wf_def za_place_def)
  moreover have "tags_distinct (za_array a')"
    using tags_distinct_update [OF _ ZArray_find_None [OF wf assms(2,3)]] assms(1) by (simp add: a' za_inv_def)
  moreover have "rp_varying (za_cands a') (za_numLines a') (za_rp a')"
    using rp_varying_turn [OF _ _ rk r(1) up] assms(1) cs by (simp add: a' za_inv_def rank_moves_def)
  ultimately show ?thesis using r a' by (simp add: za_inv_def)
qed

interpretation za: cache_array ZArray_find "ZArray_insert cc req" za_array za_inv for cc req
proof unfold_locales
  fix a :: ZArray and x i wb a'
  assume inv: "za_inv a"
  then have wf: "za_wf a" "za_perm a" "za_located a" "length (za_array a) = za_numLines a" by (auto simp: za_inv_def za_wf_def)
  show "tags_distinct (za_array a)" using inv by (simp add: za_inv_def)
  show "ZArray_find x a \<noteq> None" if "x \<noteq> 0" by (rule ZArray_find_result [OF wf(1) that]) auto
  show "ZArray_find x a = Some (Some i) \<Longrightarrow> i < length (za_array a) \<and> za_array a ! i = x"
    using ZArray_find_sound [OF wf(1,2)] wf(4) by simp
  show "x \<noteq> 0 \<Longrightarrow> ZArray_find x a = Some None \<Longrightarrow> x \<notin> resident (za_array a)" by (rule ZArray_find_None [OF wf(1-3)])
  show "x \<noteq> 0 \<Longrightarrow> ZArray_find x a = Some None \<Longrightarrow> ZArray_insert cc req x a = Some (i, wb, a') \<Longrightarrow>
      i < length (za_array a) \<and> wb = za_array a ! i \<and> za_array a' = (za_array a)[i := x] \<and> za_inv a'"
    using ZArray_insert_inv [OF inv] wf(4) by simp
qed

subsection \<open>Reachable arrays\<close>

inductive za_step :: "ZArray \<Rightarrow> ZArray \<Rightarrow> bool" where
  za_step_lookup: "ZArray_lookup x rq up a = Some (r, a') \<Longrightarrow> za_step a a'"
| za_step_insert: "x \<noteq> 0 \<Longrightarrow> ZArray_find x a = Some None \<Longrightarrow> ZArray_insert cc req x a = Some (i, wb, a') \<Longrightarrow> za_step a a'"

lemma rp_varying_update:
  assumes "rp_varying n lines p" "i < lines" "rp_update i ty cyc p = Some p'"
  shows "rp_varying n lines p'"
  using assms rp.update_rest [OF rp_varying_rest [OF assms(1) order_refl] assms(2,3)] by (cases p) auto

lemma ZArray_lookup_inv:
  assumes "za_inv a" "ZArray_lookup x rq up a = Some (r, a')"
  shows "za_inv a'"
proof (cases r)
  case None
  then show ?thesis using assms by (auto simp: ZArray_lookup_def bind_Some_conv split: if_splits option.splits)
next
  case (Some i)
  have "x \<noteq> 0" "za_search a x [0..<ways a] = Some (Some i)"
    using assms(2) Some by (auto simp: ZArray_lookup_def bind_Some_conv split: if_splits option.splits)
  then have i: "i < za_numLines a" using ZArray_find_sound [of a x i] assms(1) by (simp add: ZArray_find_alt za_inv_def)
  consider "a' = a"
    | q :: MemReq and rp where "rp_update i (r_type q) (r_cycle q) (za_rp a) = Some rp" "a' = a\<lparr>za_rp := rp\<rparr>"
  proof (cases up)
    case True
    then obtain q :: MemReq and rp where "rp_update i (r_type q) (r_cycle q) (za_rp a) = Some rp" "a' = a\<lparr>za_rp := rp\<rparr>"
      using assms(2) \<open>x \<noteq> 0\<close> \<open>za_search a x [0..<ways a] = Some (Some i)\<close>
      by (auto simp: ZArray_lookup_def bind_Some_conv)
    then show thesis by (rule that(2))
  next
    case False
    then show thesis using assms(2) that(1) \<open>x \<noteq> 0\<close> \<open>za_search a x [0..<ways a] = Some (Some i)\<close>
      by (auto simp: ZArray_lookup_def)
  qed
  then show ?thesis
  proof cases
    case 2
    have "za_located a'" using assms(1) by (simp add: 2 za_inv_def za_located_def za_pos_def)
    moreover have "za_wf a'" "za_perm a'" using assms(1) by (simp_all add: 2(2) za_inv_def za_wf_def za_perm_def)
    ultimately show ?thesis using assms(1) rp_varying_update [OF _ i 2(1)] by (simp add: 2(2) za_inv_def)
  qed (use assms(1) in simp)
qed

lemma za_step_inv: "za_step a a' \<Longrightarrow> za_inv a \<Longrightarrow> za_inv a'"
  by (induction rule: za_step.induct) (use ZArray_lookup_inv ZArray_insert_inv in blast)+

lemma ZArray_new_inv:
  assumes "ZArray_new nLines nWays nCands rp hf = Some a" "nLines < 2 ^ 32" "hf_wf nWays hf" "rp_varying nCands nLines rp"
  shows "za_inv a"
proof -
  have pow: "isPow2 (of_nat (nLines div nWays) :: u32)" and n: "1 < nWays" "nWays \<le> nCands" "nLines = nWays * (nLines div nWays)"
    and a: "a = \<lparr>za_array = replicate nLines 0, lookupArray = [0..<nLines], za_rp = rp, za_hf = hf, za_numLines = nLines,
           za_numSets = nLines div nWays, ways = nWays, za_cands = nCands, za_setMask = of_nat (nLines div nWays) - 1, swapArray = [],
           lastCandIdx = 0, statSwaps = 0\<rparr>"
    using assms(1) by (auto simp: ZArray_new_def Let_def bind_Some_conv)
  have "nLines div nWays < 2 ^ 32" using assms(2) div_le_dividend le_less_trans by blast
  then have "\<exists>k < 32. nLines div nWays = 2 ^ k"
    using isPow2_exponent [OF pow] unat_of_nat_small [of "nLines div nWays", where 'a = 32] by auto
  then have "za_wf a" using n assms(3) unfolding a by (simp add: za_wf_def)
  moreover have "za_perm a" "za_located a" "tags_distinct (za_array a)"
    unfolding a by (auto simp: za_perm_def za_located_def tags_distinct_def)
  ultimately show ?thesis using assms(4) unfolding a by (simp add: za_inv_def)
qed

lemma za_reachable_inv:
  assumes "za_step\<^sup>*\<^sup>* a0 a" "za_inv a0"
  shows "za_inv a"
  using assms by (induction rule: rtranclp_induct) (auto intro: za_step_inv)

lemma ZArray_insert_LRU:
  assumes "za_inv a" "za_rp a = RP_LRU p"
  shows "\<exists>i a'. ZArray_insert cc req x a = Some (i, za_array a ! i, a') \<and> length (swapArray a') \<le> za_cands a div ways a + 1"
proof -
  obtain cs where cs: "rank_moves cc req x a cs" using ZArray_preinsert_moves [OF assms(1)] by blast
  then obtain b m ps where b: "ZArray_preinsert cc x req a = Some (b, za_array a ! b, a\<lparr>za_rp := RP_LRU p, lastCandIdx := m, swapArray := ps\<rparr>)"
      "ps \<noteq> []" "b = lookupArray a ! hd ps" "length ps \<le> za_cands a div ways a + 1"
    using assms(2) by (auto simp: rank_moves_def moves_ok_def)
  then show ?thesis
    by (auto simp: ZArray_insert_def ZArray_postinsert_def Let_def hd_conv_nth [symmetric])
qed

subsection \<open>Properties\<close>

text \<open>C36: in every state a zcache reaches from its construction by lookups and insertions, inserting a missing line makes it
  resident, removes exactly the line written back and leaves every other line where a lookup finds it under the same
  identifier, although lines on the path have moved to other ways.\<close>

theorem zcache_relocation_keeps_lines:
  assumes "ZArray_new nLines nWays nCands rp hf = Some a0" "nLines < 2 ^ 32" "hf_wf nWays hf" "rp_varying nCands nLines rp"
    and "za_step\<^sup>*\<^sup>* a0 a" "x \<noteq> 0" "ZArray_find x a = Some None" "ZArray_insert cc req x a = Some (i, wb, a')" "y \<noteq> 0"
  shows "ZArray_find y a' = (if y = x then Some (Some i) else if y = wb then Some None else ZArray_find y a)"
  using za.insert_find [OF za_reachable_inv [OF assms(5) ZArray_new_inv [OF assms(1-4)]] assms(6-9)] .

definition sample_za :: ZArray where
  "sample_za = the (ZArray_new 4 2 4 (RP_LRU (LRU_new False 4)) HF_Id)"

lemma sample_za_new: "ZArray_new 4 2 4 (RP_LRU (LRU_new False 4)) HF_Id = Some sample_za"
  by (simp add: sample_za_def ZArray_new_def isPow2_def)

lemma sample_za_inv: "za_inv sample_za"
  by (rule ZArray_new_inv [OF sample_za_new]) simp_all

theorem zcache_relocation_keeps_lines_witness:
  "\<exists>i wb a'. ZArray_insert sample_cc sample_req 5 sample_za = Some (i, wb, a') \<and> ZArray_find 5 a' = Some (Some i)"
proof -
  obtain i a' where "ZArray_insert sample_cc sample_req 5 sample_za = Some (i, za_array sample_za ! i, a')"
    using ZArray_insert_LRU [OF sample_za_inv, of "LRU_new False 4" sample_cc sample_req 5]
    by (auto simp: sample_za_def ZArray_new_def isPow2_def)
  moreover have "ZArray_find 5 sample_za = Some None" by code_simp
  ultimately show ?thesis
    using zcache_relocation_keeps_lines [OF sample_za_new _ _ _ rtranclp.rtrancl_refl, of 5 sample_cc sample_req i _ a' 5] by auto
qed

text \<open>C37: a replacement in a zcache under LRU always returns: the walk ends, a candidate is found, the path back to a seed ends,
  and the path fits in the swap buffer of \<^verbatim>\<open>cands / ways + 2\<close> entries the constructor allocates.\<close>

theorem zcache_replacement_returns:
  assumes "ZArray_new nLines nWays nCands (RP_LRU p0) hf = Some a0" "nLines < 2 ^ 32" "hf_wf nWays hf"
    and "za_step\<^sup>*\<^sup>* a0 a" "za_rp a = RP_LRU p"
  shows "\<exists>i a'. ZArray_insert cc req x a = Some (i, za_array a ! i, a') \<and> length (swapArray a') < za_cands a div ways a + 2"
  using ZArray_insert_LRU [OF za_reachable_inv [OF assms(4) ZArray_new_inv [OF assms(1-3)]] assms(5), of cc req x] by auto

theorem zcache_replacement_returns_witness:
  "\<exists>i a'. ZArray_insert sample_cc sample_req 7 sample_za = Some (i, za_array sample_za ! i, a')
     \<and> length (swapArray a') < za_cands sample_za div ways sample_za + 2"
  by (rule zcache_replacement_returns [OF sample_za_new _ _ rtranclp.rtrancl_refl, of "LRU_new False 4"])
    (simp_all add: sample_za_def ZArray_new_def isPow2_def)

end
