(* ===== verification/Contention.thy ===== *)
theory Contention
  imports PrioQueue
begin

text \<open>
  The weave phase: the timing events of \<^verbatim>\<open>src/src/timing_event.h\<close> and \<^verbatim>\<open>timing_event.cpp\<close>, and the event loop of
  \<^verbatim>\<open>src/src/contention_sim.cpp\<close> for a simulation thread with one domain. Events form a graph; an event runs when all its
  parents are done, at the latest of their completion cycles.

  Events are numbers (their addresses) in a heap. The union of \<^verbatim>\<open>child\<close> and \<^verbatim>\<open>children\<close> is the datatype \<open>kids\<close>. The virtual
  method \<^verbatim>\<open>simulate\<close> of an event class is a parameter: it says whether the event is done, queued again or held. The recursion
  of \<^verbatim>\<open>done\<close> through \<^verbatim>\<open>parentDone\<close> of delay events is a work list in the order of the calls. \<open>logVec\<close> is the log of a build with
  \<^verbatim>\<open>POST_MORTEM\<close> set, kept over the phases. Domain crossings, which couple concurrent threads, are not modelled, and neither is
  the freeing of events.
\<close>

subsection \<open>Events\<close>

type_synonym event = nat

datatype EventState = EV_INVALID | EV_NONE | EV_QUEUED | EV_RUNNING | EV_HELD | EV_DONE

datatype kids = NoChild | OneChild event | Blocks "event option list list"

text \<open>The two classes of events: \<^verbatim>\<open>DelayEvent\<close> and those that implement \<^verbatim>\<open>simulate\<close>.\<close>

datatype ev_class = SimEvent | DelayEvent

record TimingEvent =
  te_class :: ev_class
  privCycle :: cycle
  te_state :: EventState
  te_cycle :: cycle
  minStartCycle :: cycle
  te_kids :: kids
  te_domain :: int
  numChildren :: nat
  numParents :: nat
  preDelay :: nat
  postDelay :: nat

definition TimingEvent_new :: "ev_class \<Rightarrow> nat \<Rightarrow> nat \<Rightarrow> int \<Rightarrow> TimingEvent" where
  "TimingEvent_new cls pre post dmn = \<lparr>te_class = cls, privCycle = 0, te_state = EV_NONE, te_cycle = 0,
     minStartCycle = 2 ^ 64 - 1, te_kids = NoChild, te_domain = dmn, numChildren = 0, numParents = 0,
     preDelay = pre, postDelay = post\<rparr>"

record DomainData =
  dd_pq :: "event PrioQueue"
  curCycle :: cycle

record csim =
  heap :: "event \<Rightarrow> TimingEvent"
  domains :: "DomainData list"
  csLimit :: cycle
  lastLimit :: cycle
  inCSim :: bool
  phaseLength :: nat
  logVec :: "(cycle \<times> event) list"

definition upd :: "event \<Rightarrow> (TimingEvent \<Rightarrow> TimingEvent) \<Rightarrow> csim \<Rightarrow> csim" where
  "upd e f s = s\<lparr>heap := (heap s)(e := f (heap s e))\<rparr>"

definition set_dom :: "nat \<Rightarrow> (DomainData \<Rightarrow> DomainData) \<Rightarrow> csim \<Rightarrow> csim" where
  "set_dom d f s = s\<lparr>domains := (domains s)[d := f (domains s ! d)]\<rparr>"

subsection \<open>Children\<close>

definition TIMING_BLOCK_EVENTS :: nat where "TIMING_BLOCK_EVENTS = 3"

definition TimingEventBlock_new :: "event option list" where
  "TimingEventBlock_new = replicate TIMING_BLOCK_EVENTS None"

text \<open>The three cases of \<^verbatim>\<open>addChild\<close>; a block list is written newest block first.\<close>

fun add_kid :: "nat \<Rightarrow> event \<Rightarrow> kids \<Rightarrow> kids option" where
  "add_kid 0 c k = Some (OneChild c)"
| "add_kid (Suc 0) c (OneChild f) = Some (Blocks [TimingEventBlock_new[0 := Some f, 1 := Some c]])"
| "add_kid n c (Blocks bs) =
     (let idx = n mod TIMING_BLOCK_EVENTS;
          bs1 = (if idx = 0 then TimingEventBlock_new # bs else bs)
      in case bs1 of b # rest \<Rightarrow> Some (Blocks (b[idx := Some c] # rest)) | [] \<Rightarrow> None)"
| "add_kid n c k = None"

definition block_visit :: "event option list \<Rightarrow> event list" where
  "block_visit b = map the (takeWhile (\<lambda>x. x \<noteq> None) b)"

text \<open>\<^verbatim>\<open>visitChildren\<close>: the children in the order they are visited, and the assertion on their number.\<close>

definition visitChildren :: "TimingEvent \<Rightarrow> event list option" where
  "visitChildren t = (case te_kids t of
     NoChild \<Rightarrow> if numChildren t = 0 then Some [] else None
   | OneChild c \<Rightarrow> if numChildren t = 0 then Some [] else if numChildren t = 1 then Some [c] else None
   | Blocks bs \<Rightarrow> if numChildren t = 0 then Some [] else do {
       let vs = concat (map block_visit bs);
       assert_that (length vs = numChildren t);
       Some vs })"

partial_function (option) propagateDomain :: "int \<Rightarrow> event list \<Rightarrow> csim \<Rightarrow> csim option" where
  "propagateDomain dmn es s = (case es of
     [] \<Rightarrow> Some s
   | e # rest \<Rightarrow>
       if te_domain (heap s e) \<noteq> - 1 then propagateDomain dmn rest s
       else do {
         ks \<leftarrow> visitChildren (heap s e);
         propagateDomain dmn (ks @ rest) (upd e (\<lambda>t. t\<lparr>te_domain := dmn\<rparr>) s) })"

declare propagateDomain.simps [code]

definition addChild :: "event \<Rightarrow> event \<Rightarrow> csim \<Rightarrow> csim option" where
  "addChild p c s = do {
     let t = heap s p;
     assert_that (te_state t = EV_NONE \<or> te_state t = EV_QUEUED);
     assert_that (te_state (heap s c) = EV_NONE);
     ks \<leftarrow> add_kid (numChildren t) c (te_kids t);
     let s1 = upd p (\<lambda>t. t\<lparr>te_kids := ks, numChildren := Suc (numChildren t)\<rparr>) s;
     s2 \<leftarrow> (if te_domain (heap s1 p) \<noteq> - 1 \<and> te_domain (heap s1 c) = - 1
           then propagateDomain (te_domain (heap s1 p)) [c] s1 else Some s1);
     Some (upd c (\<lambda>t. t\<lparr>numParents := Suc (numParents t)\<rparr>) s2) }"

subsection \<open>Queueing\<close>

definition cs_enqueue :: "event \<Rightarrow> cycle \<Rightarrow> csim \<Rightarrow> csim option" where
  "cs_enqueue e c s = do {
     assert_that (inCSim s);
     assert_that (c \<ge> lastLimit s);
     assert_that (c < lastLimit s + 10 * phaseLength s + 1000000);
     assert_that (te_domain (heap s e) \<noteq> - 1);
     assert_that (te_domain (heap s e) < int (length (domains s)));
     let d = nat (te_domain (heap s e));
     assert_that (c \<ge> curCycle (domains s ! d));
     assert_that (numParents (heap s e) = 0);
     q \<leftarrow> pq_enqueue PQ_BLOCKS e c (dd_pq (domains s ! d));
     Some (set_dom d (\<lambda>x. x\<lparr>dd_pq := q\<rparr>) (upd e (\<lambda>t. t\<lparr>privCycle := c\<rparr>) s)) }"

definition enqueueSynced :: "event \<Rightarrow> cycle \<Rightarrow> csim \<Rightarrow> csim option" where
  "enqueueSynced e c s = do {
     assert_that (\<not> inCSim s);
     assert_that (te_domain (heap s e) \<noteq> - 1);
     assert_that (te_domain (heap s e) < int (length (domains s)));
     let d = nat (te_domain (heap s e));
     assert_that (c \<ge> lastLimit s);
     assert_that (c < lastLimit s + 10 * phaseLength s + 10000);
     assert_that (numParents (heap s e) = 0);
     q \<leftarrow> pq_enqueue PQ_BLOCKS e c (dd_pq (domains s ! d));
     Some (set_dom d (\<lambda>x. x\<lparr>dd_pq := q\<rparr>) (upd e (\<lambda>t. t\<lparr>privCycle := c\<rparr>) s)) }"

definition te_queue :: "event \<Rightarrow> cycle \<Rightarrow> csim \<Rightarrow> csim option" where
  "te_queue e c s = do {
     assert_that (te_state (heap s e) = EV_NONE \<and> numParents (heap s e) = 0);
     enqueueSynced e c (upd e (\<lambda>t. t\<lparr>te_state := EV_QUEUED\<rparr>) s) }"

definition te_requeue :: "event \<Rightarrow> cycle \<Rightarrow> csim \<Rightarrow> csim option" where
  "te_requeue e c s = do {
     assert_that (numParents (heap s e) = 0);
     assert_that (te_state (heap s e) = EV_RUNNING \<or> te_state (heap s e) = EV_HELD);
     cs_enqueue e c (upd e (\<lambda>t. t\<lparr>te_state := EV_QUEUED\<rparr>) s) }"

subsection \<open>Completion\<close>

text \<open>\<^verbatim>\<open>TimingEvent::parentDone\<close>.\<close>

definition sim_parentDone :: "event \<Rightarrow> cycle \<Rightarrow> csim \<Rightarrow> csim option" where
  "sim_parentDone e c s = do {
     let s1 = upd e (\<lambda>t. t\<lparr>te_cycle := max (te_cycle t) c\<rparr>) s;
     assert_that (numParents (heap s1 e) \<noteq> 0);
     let s2 = upd e (\<lambda>t. t\<lparr>numParents := numParents t - 1\<rparr>) s1;
     if numParents (heap s2 e) = 0 then do {
       assert_that (te_state (heap s2 e) = EV_NONE);
       cs_enqueue e (te_cycle (heap s2 e) + preDelay (heap s2 e)) (upd e (\<lambda>t. t\<lparr>te_state := EV_QUEUED\<rparr>) s2) }
     else Some s2 }"

text \<open>\<^verbatim>\<open>DelayEvent::parentDone\<close> up to its call of \<^verbatim>\<open>done\<close>; the unsigned counter is not checked before it is decremented.\<close>

definition delay_parentDone :: "event \<Rightarrow> cycle \<Rightarrow> csim \<Rightarrow> csim" where
  "delay_parentDone e c s = upd e (\<lambda>t. t\<lparr>te_cycle := max (te_cycle t) c,
     numParents := (if numParents t = 0 then 2 ^ 32 - 1 else numParents t - 1)\<rparr>) s"

text \<open>The calls of \<^verbatim>\<open>parentDone\<close> that are still to be made, in order; a delay event whose last parent is done is done at once
  and calls its children before the rest.\<close>

partial_function (option) wake :: "(event \<times> cycle) list \<Rightarrow> csim \<Rightarrow> csim option" where
  "wake ws s = (case ws of
     [] \<Rightarrow> Some s
   | (e, c) # rest \<Rightarrow>
       if te_class (heap s e) = SimEvent then do { s1 \<leftarrow> sim_parentDone e c s; wake rest s1 }
       else do {
         let s1 = delay_parentDone e c s;
         let t = heap s1 e;
         if numParents t = 0 then do {
           ks \<leftarrow> visitChildren t;
           wake (map (\<lambda>k. (k, te_cycle t + preDelay t + postDelay t)) ks @ rest) (upd e (\<lambda>t. t\<lparr>te_state := EV_DONE\<rparr>) s1) }
         else wake rest s1 })"

declare wake.simps [code]

definition te_done :: "event \<Rightarrow> cycle \<Rightarrow> csim \<Rightarrow> csim option" where
  "te_done e c s = do {
     assert_that (te_state (heap s e) = EV_RUNNING);
     ks \<leftarrow> visitChildren (heap s e);
     wake (map (\<lambda>k. (k, c + postDelay (heap s e))) ks) (upd e (\<lambda>t. t\<lparr>te_state := EV_DONE\<rparr>) s) }"

definition te_hold :: "event \<Rightarrow> csim \<Rightarrow> csim option" where
  "te_hold e s = do { assert_that (te_state (heap s e) = EV_RUNNING); Some (upd e (\<lambda>t. t\<lparr>te_state := EV_HELD\<rparr>) s) }"

definition te_release :: "event \<Rightarrow> csim \<Rightarrow> csim option" where
  "te_release e s = do { assert_that (te_state (heap s e) = EV_HELD); Some (upd e (\<lambda>t. t\<lparr>te_state := EV_RUNNING\<rparr>) s) }"

subsection \<open>The event loop\<close>

text \<open>What a \<^verbatim>\<open>simulate\<close> method ends with: \<^verbatim>\<open>done(c)\<close>, \<^verbatim>\<open>requeue(c)\<close> or \<^verbatim>\<open>hold()\<close>; \<open>'w\<close> is the state of the simulated components.\<close>

datatype verdict = SimDone cycle | SimRequeue cycle | SimHold

type_synonym 'w simulator = "event \<Rightarrow> cycle \<Rightarrow> 'w \<Rightarrow> (verdict \<times> 'w) option"

definition te_run :: "'w simulator \<Rightarrow> event \<Rightarrow> cycle \<Rightarrow> csim \<times> 'w \<Rightarrow> (csim \<times> 'w) option" where
  "te_run sim e startCycle sw = do {
     let s = fst sw;
     assert_that (te_state (heap s e) = EV_NONE \<or> te_state (heap s e) = EV_QUEUED);
     let s1 = upd e (\<lambda>t. t\<lparr>te_state := EV_RUNNING\<rparr>) s;
     assert_that (startCycle \<ge> minStartCycle (heap s1 e));
     (v, w') \<leftarrow> sim e startCycle (snd sw);
     s2 \<leftarrow> (case v of SimDone c \<Rightarrow> te_done e c s1 | SimRequeue c \<Rightarrow> te_requeue e c s1 | SimHold \<Rightarrow> te_hold e s1);
     Some (s2, w') }"

definition next_cycle :: "nat \<Rightarrow> csim \<Rightarrow> cycle option" where
  "next_cycle d s = (let q = dd_pq (domains s ! d) in if pq_size q \<noteq> 0 then pq_firstCycle PQ_BLOCKS q else Some (csLimit s))"

text \<open>One turn of the loop of \<^verbatim>\<open>simulatePhaseThread\<close>, with the post-mortem log.\<close>

definition weave_turn :: "'w simulator \<Rightarrow> nat \<Rightarrow> csim \<times> 'w \<Rightarrow> (csim \<times> 'w) option" where
  "weave_turn sim d sw = do {
     let s = fst sw;
     (te, c, q) \<leftarrow> pq_dequeue PQ_BLOCKS (dd_pq (domains s ! d));
     assert_that (c \<ge> curCycle (domains s ! d));
     (s2, w2) \<leftarrow> te_run sim te c (set_dom d (\<lambda>x. x\<lparr>dd_pq := q, curCycle := c\<rparr>) s, snd sw);
     newCycle \<leftarrow> next_cycle d s2;
     assert_that (newCycle \<ge> c);
     Some ((set_dom d (\<lambda>x. x\<lparr>curCycle := newCycle\<rparr>) s2)\<lparr>logVec := logVec s2 @ [(c, te)]\<rparr>, w2) }"

definition weave_more :: "nat \<Rightarrow> csim \<Rightarrow> bool option" where
  "weave_more d s = (let q = dd_pq (domains s ! d) in
     if pq_size q = 0 then Some False else do { c \<leftarrow> pq_firstCycle PQ_BLOCKS q; Some (c < csLimit s) })"

partial_function (option) simulatePhaseThread :: "'w simulator \<Rightarrow> nat \<Rightarrow> csim \<times> 'w \<Rightarrow> (csim \<times> 'w) option" where
  "simulatePhaseThread sim d sw = do {
     more \<leftarrow> weave_more d (fst sw);
     if more then do { sw' \<leftarrow> weave_turn sim d sw; simulatePhaseThread sim d sw' }
     else Some (set_dom d (\<lambda>x. x\<lparr>curCycle := csLimit (fst sw)\<rparr>) (fst sw), snd sw) }"

declare simulatePhaseThread.simps [code]

text \<open>\<^verbatim>\<open>simulatePhase\<close> for one domain and one simulation thread, when there are cores with contention (\<^verbatim>\<open>skipContention\<close> is
  false); the calls to the cores before and after are left out.\<close>

definition simulatePhase :: "'w simulator \<Rightarrow> cycle \<Rightarrow> csim \<times> 'w \<Rightarrow> (csim \<times> 'w) option" where
  "simulatePhase sim lim sw = do {
     let s = (fst sw)\<lparr>csLimit := lim\<rparr>;
     assert_that (lim \<ge> lastLimit s);
     (s1, w1) \<leftarrow> simulatePhaseThread sim 0 (s\<lparr>inCSim := True\<rparr>, snd sw);
     Some (s1\<lparr>inCSim := False, lastLimit := lim\<rparr>, w1) }"

definition csim_new :: "(event \<Rightarrow> TimingEvent) \<Rightarrow> nat \<Rightarrow> csim" where
  "csim_new h pl = \<lparr>heap = h, domains = [\<lparr>dd_pq = PrioQueue_new PQ_BLOCKS, curCycle = 0\<rparr>], csLimit = 0, lastLimit = 0, inCSim = False,
     phaseLength = pl, logVec = []\<rparr>"

lemma upd_simps [simp]:
  "domains (upd e f s) = domains s" "csLimit (upd e f s) = csLimit s" "lastLimit (upd e f s) = lastLimit s"
  "inCSim (upd e f s) = inCSim s" "phaseLength (upd e f s) = phaseLength s" "logVec (upd e f s) = logVec s"
  "heap (upd e f s) = (heap s)(e := f (heap s e))"
  by (simp_all add: upd_def)

lemma set_dom_simps [simp]:
  "heap (set_dom d g s) = heap s" "csLimit (set_dom d g s) = csLimit s" "lastLimit (set_dom d g s) = lastLimit s"
  "inCSim (set_dom d g s) = inCSim s" "phaseLength (set_dom d g s) = phaseLength s" "logVec (set_dom d g s) = logVec s"
  "domains (set_dom d g s) = (domains s)[d := g (domains s ! d)]"
  by (simp_all add: set_dom_def)

subsection \<open>Children are stored and visited\<close>

text \<open>With \<open>n \<ge> 2\<close> children the newest block holds a non-empty prefix and the other blocks are full.\<close>

definition block_prefix :: "nat \<Rightarrow> event option list \<Rightarrow> bool" where
  "block_prefix k b \<longleftrightarrow> (\<exists>xs. length xs = k \<and> b = map Some xs @ replicate (TIMING_BLOCK_EVENTS - k) None)"

definition kids_ok :: "nat \<Rightarrow> event multiset \<Rightarrow> kids \<Rightarrow> bool" where
  "kids_ok n M k \<longleftrightarrow> (case k of
     NoChild \<Rightarrow> n = 0 \<and> M = {#}
   | OneChild c \<Rightarrow> n = 1 \<and> M = {#c#}
   | Blocks bs \<Rightarrow> 2 \<le> n \<and> (\<exists>b rest. bs = b # rest \<and> block_prefix ((n - 1) mod TIMING_BLOCK_EVENTS + 1) b
       \<and> (\<forall>x \<in> set rest. block_prefix TIMING_BLOCK_EVENTS x)) \<and> mset (concat (map block_visit bs)) = M \<and> size M = n)"

lemma block_visit_prefix: "block_visit (map Some xs @ replicate k None) = xs"
proof -
  have "takeWhile (\<lambda>x. x \<noteq> None) (map Some xs @ replicate k None) = map Some xs"
    by (subst takeWhile_append2) (auto simp: takeWhile_replicate)
  then show ?thesis by (simp add: block_visit_def o_def)
qed

lemma block_prefix_add:
  assumes "block_prefix k b" "k < TIMING_BLOCK_EVENTS"
  shows "block_prefix (Suc k) (b[k := Some c])" "mset (block_visit (b[k := Some c])) = add_mset c (mset (block_visit b))"
proof -
  obtain xs where xs: "length xs = k" "b = map Some xs @ replicate (TIMING_BLOCK_EVENTS - k) None"
    using assms(1) by (auto simp: block_prefix_def)
  obtain m where m: "TIMING_BLOCK_EVENTS - k = Suc m" using assms(2) by (metis Suc_diff_Suc)
  have "b[k := Some c] = map Some (xs @ [c]) @ replicate m None" using xs m by (simp add: list_update_append)
  moreover have "m = TIMING_BLOCK_EVENTS - Suc k" using m by simp
  ultimately show "block_prefix (Suc k) (b[k := Some c])" "mset (block_visit (b[k := Some c])) = add_mset c (mset (block_visit b))"
    using xs block_visit_prefix [of "xs @ [c]" m] block_visit_prefix [of xs] unfolding block_prefix_def
    by (auto intro!: exI [of _ "xs @ [c]"])
qed

lemma prev_mod: "n mod k = 0 \<Longrightarrow> 0 < n \<Longrightarrow> 0 < k \<Longrightarrow> Suc ((n - 1) mod k) = (k :: nat)"
  by (cases n) (auto simp: mod_Suc split: if_splits)

lemma add_kid_ok:
  assumes "kids_ok n M k"
  shows "\<exists>k'. add_kid n c k = Some k' \<and> kids_ok (Suc n) (add_mset c M) k'"
proof (cases k)
  case NoChild
  then show ?thesis using assms by (auto simp: kids_ok_def)
next
  case (OneChild f)
  have "block_visit (TimingEventBlock_new[0 := Some f, 1 := Some c]) = [f, c]"
    using block_visit_prefix [of "[f, c]" 1] by (simp add: TimingEventBlock_new_def TIMING_BLOCK_EVENTS_def numeral_3_eq_3)
  moreover have "block_prefix 2 (TimingEventBlock_new[0 := Some f, 1 := Some c])"
    unfolding block_prefix_def by (rule exI [of _ "[f, c]"]) (simp add: TimingEventBlock_new_def TIMING_BLOCK_EVENTS_def numeral_3_eq_3)
  ultimately show ?thesis using assms OneChild by (auto simp: kids_ok_def TIMING_BLOCK_EVENTS_def numeral_2_eq_2)
next
  case (Blocks bs)
  have "2 \<le> n" using assms Blocks by (simp add: kids_ok_def)
  then obtain m where n: "n = Suc (Suc m)" by (metis add_2_eq_Suc le_Suc_ex)
  obtain b rest where b: "bs = b # rest" "block_prefix ((n - 1) mod TIMING_BLOCK_EVENTS + 1) b"
      "\<forall>x \<in> set rest. block_prefix TIMING_BLOCK_EVENTS x" "mset (concat (map block_visit bs)) = M" "size M = n"
    using assms unfolding Blocks kids_ok_def kids.case by blast
  let ?i = "n mod TIMING_BLOCK_EVENTS"
  show ?thesis
  proof (cases "?i = 0")
    case True
    have "(n - 1) mod TIMING_BLOCK_EVENTS + 1 = TIMING_BLOCK_EVENTS" 
      using prev_mod [of n TIMING_BLOCK_EVENTS] True n by (simp add: TIMING_BLOCK_EVENTS_def)
    then have full: "block_prefix TIMING_BLOCK_EVENTS b" using b(2) by simp
    have new: "block_prefix 0 TimingEventBlock_new" by (simp add: block_prefix_def TimingEventBlock_new_def)
    have "block_visit TimingEventBlock_new = []" using block_visit_prefix [of "[]"] by (simp add: TimingEventBlock_new_def)
    then show ?thesis using True n Blocks b full block_prefix_add [OF new, of c]
      by (auto simp: kids_ok_def TIMING_BLOCK_EVENTS_def)
  next
    case False
    have i: "(n - 1) mod TIMING_BLOCK_EVENTS + 1 = ?i" "?i < TIMING_BLOCK_EVENTS"
      using False n by (simp_all add: TIMING_BLOCK_EVENTS_def mod_Suc split: if_splits)
    show ?thesis using False n Blocks b block_prefix_add [OF b(2) [unfolded i(1)] i(2), of c] by (auto simp: kids_ok_def)
  qed
qed

lemma visitChildren_ok:
  assumes "kids_ok (numChildren t) M (te_kids t)"
  shows "\<exists>vs. visitChildren t = Some vs \<and> mset vs = M"
proof (cases "te_kids t")
  case (Blocks bs)
  then have m: "mset (concat (map block_visit bs)) = M" "size M = numChildren t" "2 \<le> numChildren t" using assms by (auto simp: kids_ok_def)
  then have "length (concat (map block_visit bs)) = numChildren t" by (metis size_mset)
  then show ?thesis using Blocks m by (simp add: visitChildren_def Let_def)
qed (use assms in \<open>auto simp: kids_ok_def visitChildren_def\<close>)

primrec addChildren :: "event \<Rightarrow> event list \<Rightarrow> csim \<Rightarrow> csim option" where
  "addChildren p [] s = Some s"
| "addChildren p (c # cs) s = do { s1 \<leftarrow> addChild p c s; addChildren p cs s1 }"

lemma propagateDomain_leaf:
  assumes "numChildren (heap s c) = 0"
  shows "\<exists>d. propagateDomain dmn [c] s = Some (upd c (\<lambda>t. t\<lparr>te_domain := d\<rparr>) s)"
proof (cases "te_domain (heap s c) = - 1")
  case True
  have "visitChildren (heap s c) = Some []" using assms by (simp add: visitChildren_def split: kids.splits)
  then have "propagateDomain dmn [c] s = Some (upd c (\<lambda>t. t\<lparr>te_domain := dmn\<rparr>) s)"
    using True by (simp add: propagateDomain.simps)
  then show ?thesis by blast
next
  case False
  then have "propagateDomain dmn [c] s = Some (upd c (\<lambda>t. t\<lparr>te_domain := te_domain (heap s c)\<rparr>) s)"
    by (simp add: propagateDomain.simps upd_def)
  then show ?thesis by blast
qed

text \<open>A child is anything that has not started; here it has no children of its own.\<close>

definition fresh_child :: "event \<Rightarrow> csim \<Rightarrow> event \<Rightarrow> bool" where
  "fresh_child p s c \<longleftrightarrow> c \<noteq> p \<and> te_state (heap s c) = EV_NONE \<and> numChildren (heap s c) = 0"

definition open_parent :: "event \<Rightarrow> event multiset \<Rightarrow> csim \<Rightarrow> bool" where
  "open_parent p M s \<longleftrightarrow> (te_state (heap s p) = EV_NONE \<or> te_state (heap s p) = EV_QUEUED)
     \<and> kids_ok (numChildren (heap s p)) M (te_kids (heap s p))"

lemma addChild_ok:
  assumes "open_parent p M s" "fresh_child p s c"
  shows "\<exists>s'. addChild p c s = Some s' \<and> open_parent p (add_mset c M) s' \<and> (\<forall>x. fresh_child p s x \<longrightarrow> fresh_child p s' x)
    \<and> (\<forall>x. numParents (heap s' x) = numParents (heap s x) + of_bool (x = c))"
proof -
  obtain k where k: "add_kid (numChildren (heap s p)) c (te_kids (heap s p)) = Some k" "kids_ok (Suc (numChildren (heap s p))) (add_mset c M) k"
    using add_kid_ok assms(1) unfolding open_parent_def by blast
  let ?s1 = "upd p (\<lambda>t. t\<lparr>te_kids := k, numChildren := Suc (numChildren t)\<rparr>) s"
  have "numChildren (heap ?s1 c) = 0" using assms(2) by (simp add: fresh_child_def)
  then obtain d where d: "propagateDomain (te_domain (heap ?s1 p)) [c] ?s1 = Some (upd c (\<lambda>t. t\<lparr>te_domain := d\<rparr>) ?s1)"
    using propagateDomain_leaf by blast
  define s2 where "s2 = (if te_domain (heap ?s1 p) \<noteq> - 1 \<and> te_domain (heap ?s1 c) = - 1 then upd c (\<lambda>t. t\<lparr>te_domain := d\<rparr>) ?s1 else ?s1)"
  have "addChild p c s = Some (upd c (\<lambda>t. t\<lparr>numParents := Suc (numParents t)\<rparr>) s2)"
    using assms k(1) d unfolding addChild_def open_parent_def fresh_child_def s2_def by (auto simp: Let_def)
  moreover have "c \<noteq> p" using assms(2) by (simp add: fresh_child_def)
  ultimately show ?thesis using assms k(2)
    by (auto simp: s2_def open_parent_def fresh_child_def)
qed

lemma addChildren_ok:
  assumes "open_parent p M s" "\<forall>c \<in> set cs. fresh_child p s c"
  shows "\<exists>s'. addChildren p cs s = Some s' \<and> open_parent p (mset cs + M) s'
    \<and> (\<forall>x. numParents (heap s' x) = numParents (heap s x) + count_list cs x)"
  using assms
proof (induction cs arbitrary: s M)
  case (Cons c cs)
  obtain s1 where s1: "addChild p c s = Some s1" "open_parent p (add_mset c M) s1" "\<forall>x. fresh_child p s x \<longrightarrow> fresh_child p s1 x"
      "\<forall>x. numParents (heap s1 x) = numParents (heap s x) + of_bool (x = c)"
    using addChild_ok [OF Cons.prems(1), of c] Cons.prems(2) by auto
  obtain s' where s': "addChildren p cs s1 = Some s'" "open_parent p (mset cs + add_mset c M) s'"
      "\<forall>x. numParents (heap s' x) = numParents (heap s1 x) + count_list cs x"
    using Cons.IH [OF s1(2)] Cons.prems(2) s1(3) by auto
  then show ?case using s1(1,4) by auto
qed simp

subsection \<open>Time never runs backwards\<close>

definition dom_bag :: "csim \<Rightarrow> nat \<Rightarrow> (cycle \<times> event) multiset" where
  "dom_bag s d = pq_bag PQ_BLOCKS (dd_pq (domains s ! d))"

definition dom_ok :: "csim \<Rightarrow> nat \<Rightarrow> bool" where
  "dom_ok s d \<longleftrightarrow> pq_inv PQ_BLOCKS (dd_pq (domains s ! d)) \<and> curBlock (dd_pq (domains s ! d)) * 64 \<le> curCycle (domains s ! d)
     \<and> (\<forall>p \<in># dom_bag s d. curCycle (domains s ! d) \<le> fst p)"

definition time_ok :: "csim \<Rightarrow> bool" where
  "time_ok s \<longleftrightarrow> (\<forall>d < length (domains s). dom_ok s d)"

definition same_time :: "csim \<Rightarrow> csim \<Rightarrow> bool" where
  "same_time s s' \<longleftrightarrow> csLimit s' = csLimit s \<and> lastLimit s' = lastLimit s \<and> inCSim s' = inCSim s \<and> phaseLength s' = phaseLength s
     \<and> logVec s' = logVec s \<and> length (domains s') = length (domains s)
     \<and> (\<forall>d. curCycle (domains s' ! d) = curCycle (domains s ! d)
           \<and> curBlock (dd_pq (domains s' ! d)) = curBlock (dd_pq (domains s ! d)))"

lemma same_time_refl: "same_time s s"
  by (simp add: same_time_def)

lemma same_time_trans: "same_time s1 s2 \<Longrightarrow> same_time s2 s3 \<Longrightarrow> same_time s1 s3"
  by (simp add: same_time_def)

lemma dom_ok_cong: "domains s' = domains s \<Longrightarrow> dom_ok s' d = dom_ok s d"
  by (simp add: dom_ok_def dom_bag_def)

lemma time_ok_upd [simp]:
  "time_ok (upd e f s) = time_ok s" "same_time s' (upd e f s) = same_time s' s" "same_time (upd e f s) s' = same_time s s'" "same_time s s"
  by (auto simp: time_ok_def dom_ok_def dom_bag_def same_time_def)

text \<open>The common part of the two enqueue operations: the queue accepts an event that is not in the past.\<close>

lemma queue_insert:
  assumes "time_ok s" "d < length (domains s)" "curCycle (domains s ! d) \<le> c"
  shows "\<exists>q. pq_enqueue PQ_BLOCKS e c (dd_pq (domains s ! d)) = Some q
    \<and> time_ok (set_dom d (\<lambda>x. x\<lparr>dd_pq := q\<rparr>) s) \<and> same_time s (set_dom d (\<lambda>x. x\<lparr>dd_pq := q\<rparr>) s)
    \<and> dom_bag (set_dom d (\<lambda>x. x\<lparr>dd_pq := q\<rparr>) s) d = add_mset (c, e) (dom_bag s d)"
proof -
  have ok: "dom_ok s d" using assms(1,2) by (simp add: time_ok_def)
  then obtain q where q: "pq_enqueue PQ_BLOCKS e c (dd_pq (domains s ! d)) = Some q" "pq_inv PQ_BLOCKS q"
      "pq_bag PQ_BLOCKS q = add_mset (c, e) (dom_bag s d)" "curBlock q * 64 = curBlock (dd_pq (domains s ! d)) * 64"
    using cal.enq_law [of PQ_BLOCKS "dd_pq (domains s ! d)" c e] assms(3) by (auto simp: dom_ok_def dom_bag_def)
  let ?s = "set_dom d (\<lambda>x. x\<lparr>dd_pq := q\<rparr>) s"
  have "dom_ok ?s d'" if "d' < length (domains s)" for d'
  proof (cases "d' = d")
    case True
    then show ?thesis using ok q(2-4) assms(2,3) by (auto simp: dom_ok_def dom_bag_def)
  next
    case False
    then show ?thesis using assms(1) that by (simp add: time_ok_def dom_ok_def dom_bag_def)
  qed
  then have "time_ok ?s" by (simp add: time_ok_def)
  moreover have "same_time s ?s" using assms(2) q(4) by (auto simp: same_time_def nth_list_update)
  moreover have "dom_bag ?s d = add_mset (c, e) (dom_bag s d)" using q(3) assms(2) by (simp add: dom_bag_def)
  ultimately show ?thesis using q(1) by blast
qed

lemma cs_enqueue_time:
  assumes "time_ok s" "cs_enqueue e c s = Some s'"
  shows "time_ok s' \<and> same_time s s'"
proof -
  let ?d = "nat (te_domain (heap s e))" let ?s1 = "upd e (\<lambda>t. t\<lparr>privCycle := c\<rparr>) s"
  obtain q where q: "pq_enqueue PQ_BLOCKS e c (dd_pq (domains s ! ?d)) = Some q" "s' = set_dom ?d (\<lambda>x. x\<lparr>dd_pq := q\<rparr>) ?s1"
    and g: "te_domain (heap s e) < int (length (domains s))" "curCycle (domains s ! ?d) \<le> c"
    using assms(2) by (auto simp: cs_enqueue_def bind_Some_conv Let_def)
  show ?thesis
  proof (cases "?d < length (domains s)")
    case True
    then show ?thesis using queue_insert [of ?s1 ?d c e] assms(1) q g(2) by auto
  next
    case False
    then have "set_dom ?d (\<lambda>x. x\<lparr>dd_pq := q\<rparr>) ?s1 = ?s1" by (simp add: set_dom_def not_less list_update_beyond)
    then show ?thesis using q(2) assms(1) by simp
  qed
qed

lemma sim_parentDone_time:
  assumes "time_ok s" "sim_parentDone e c s = Some s'"
  shows "time_ok s' \<and> same_time s s'"
proof -
  let ?s2 = "upd e (\<lambda>t. t\<lparr>numParents := numParents t - 1\<rparr>) (upd e (\<lambda>t. t\<lparr>te_cycle := max (te_cycle t) c\<rparr>) s)"
  show ?thesis
  proof (cases "numParents (heap ?s2 e) = 0")
    case True
    then have "cs_enqueue e (te_cycle (heap ?s2 e) + preDelay (heap ?s2 e)) (upd e (\<lambda>t. t\<lparr>te_state := EV_QUEUED\<rparr>) ?s2) = Some s'"
      using assms(2) by (simp add: sim_parentDone_def Let_def abort_simps split: if_splits)
    from cs_enqueue_time [OF _ this] show ?thesis using assms(1) by simp
  next
    case False
    then have "s' = ?s2" using assms(2) by (simp add: sim_parentDone_def Let_def abort_simps split: if_splits)
    then show ?thesis using assms(1) by simp
  qed
qed

lemma wake_time:
  assumes "wake ws s = Some s'"
  shows "time_ok s \<longrightarrow> time_ok s' \<and> same_time s s'"
  using assms
proof (rule wake.raw_induct [of "\<lambda>ws s s'. time_ok s \<longrightarrow> time_ok s' \<and> same_time s s'", rotated])
  fix rec :: "(event \<times> cycle) list \<Rightarrow> csim \<Rightarrow> csim option" and ws s s'
  assume IH: "\<And>ws s s'. rec ws s = Some s' \<Longrightarrow> time_ok s \<longrightarrow> time_ok s' \<and> same_time s s'"
    and body: "(case ws of [] \<Rightarrow> Some s
     | (e, c) # rest \<Rightarrow>
       if te_class (heap s e) = SimEvent then do { s1 \<leftarrow> sim_parentDone e c s; rec rest s1 }
       else do {
         let s1 = delay_parentDone e c s;
         let t = heap s1 e;
         if numParents t = 0 then do {
           ks \<leftarrow> visitChildren t;
           rec (map (\<lambda>k. (k, te_cycle t + preDelay t + postDelay t)) ks @ rest) (upd e (\<lambda>t. t\<lparr>te_state := EV_DONE\<rparr>) s1) }
         else rec rest s1 }) = Some s'"
  show "time_ok s \<longrightarrow> time_ok s' \<and> same_time s s'"
  proof
    assume ok: "time_ok s"
    show "time_ok s' \<and> same_time s s'"
    proof (cases ws)
      case Nil
      then show ?thesis using body ok same_time_refl by simp
    next
      case (Cons ec rest)
      obtain e c where ec: "ec = (e, c)" by fastforce
      show ?thesis
      proof (cases "te_class (heap s e) = SimEvent")
        case True
        then obtain s1 where s1: "sim_parentDone e c s = Some s1" "rec rest s1 = Some s'"
          using body Cons ec by (auto simp: bind_Some_conv)
        then show ?thesis using sim_parentDone_time [OF ok s1(1)] IH [OF s1(2)] same_time_trans by blast
      next
        case False
        let ?s1 = "delay_parentDone e c s"
        have ok1: "time_ok ?s1" "same_time s ?s1" using ok by (simp_all add: delay_parentDone_def)
        show ?thesis
        proof (cases "numParents (heap ?s1 e) = 0")
          case True
          then obtain ks where ks: "rec ks (upd e (\<lambda>t. t\<lparr>te_state := EV_DONE\<rparr>) ?s1) = Some s'"
            using body Cons ec False by (auto simp: bind_Some_conv Let_def)
          from IH [OF this] show ?thesis using ok1 same_time_trans by auto
        next
          case np: False
          then have "rec rest ?s1 = Some s'" using body Cons ec False by (simp add: Let_def)
          from IH [OF this] show ?thesis using ok1 same_time_trans by auto
        qed
      qed
    qed
  qed
qed

lemma te_done_time: "time_ok s \<Longrightarrow> te_done e c s = Some s' \<Longrightarrow> time_ok s' \<and> same_time s s'"
  by (auto simp: te_done_def bind_Some_conv dest!: wake_time)

lemma te_requeue_time: "time_ok s \<Longrightarrow> te_requeue e c s = Some s' \<Longrightarrow> time_ok s' \<and> same_time s s'"
  by (auto simp: te_requeue_def bind_Some_conv dest!: cs_enqueue_time [rotated])

lemma te_run_time:
  assumes "time_ok s" "te_run sim e c (s, w) = Some (s', w')"
  shows "time_ok s' \<and> same_time s s'"
proof -
  let ?s1 = "upd e (\<lambda>t. t\<lparr>te_state := EV_RUNNING\<rparr>) s"
  obtain v where v: "(case v of SimDone c \<Rightarrow> te_done e c ?s1 | SimRequeue c \<Rightarrow> te_requeue e c ?s1 | SimHold \<Rightarrow> te_hold e ?s1) = Some s'"
    using assms(2) by (auto simp: te_run_def bind_Some_conv Let_def)
  have ok: "time_ok ?s1" using assms(1) by simp
  show ?thesis
  proof (cases v)
    case (SimDone c')
    then show ?thesis using te_done_time [OF ok] v by auto
  next
    case (SimRequeue c')
    then show ?thesis using te_requeue_time [OF ok] v by auto
  next
    case SimHold
    then show ?thesis using v ok by (auto simp: te_hold_def bind_Some_conv)
  qed
qed

lemma next_cycle_least:
  assumes "dom_ok s d" "next_cycle d s = Some c"
  shows "\<forall>p \<in># dom_bag s d. c \<le> fst p"
proof (cases "dom_bag s d = {#}")
  case False
  then have "pq_size (dd_pq (domains s ! d)) \<noteq> 0" using assms(1) by (simp add: dom_ok_def dom_bag_def pq_inv_def pq_size_def)
  then have "pq_firstCycle PQ_BLOCKS (dd_pq (domains s ! d)) = Some c" using assms(2) by (simp add: next_cycle_def Let_def)
  then show ?thesis
    using cal.first_law [of PQ_BLOCKS "dd_pq (domains s ! d)"] assms(1) False by (auto simp: dom_ok_def dom_bag_def)
qed simp

lemma set_cur_ok:
  assumes "time_ok s" "d < length (domains s)" "curBlock (dd_pq (domains s ! d)) * 64 \<le> c" "\<forall>p \<in># dom_bag s d. c \<le> fst p"
  shows "time_ok (set_dom d (\<lambda>x. x\<lparr>curCycle := c\<rparr>) s)"
  using assms unfolding time_ok_def by (auto simp: dom_ok_def dom_bag_def nth_list_update)

text \<open>Taking the first event of a domain.\<close>

lemma take_first:
  assumes "time_ok s" "d < length (domains s)" "pq_dequeue PQ_BLOCKS (dd_pq (domains s ! d)) = Some (te, c, q)"
  shows "time_ok (set_dom d (\<lambda>x. x\<lparr>dd_pq := q, curCycle := c\<rparr>) s)" "curCycle (domains s ! d) \<le> c"
    "dom_bag s d = add_mset (c, te) (pq_bag PQ_BLOCKS q)" "pq_firstCycle PQ_BLOCKS (dd_pq (domains s ! d)) = Some c"
    "curBlock q * 64 \<le> c"
proof -
  let ?q = "dd_pq (domains s ! d)"
  have ok: "dom_ok s d" using assms(1,2) by (simp add: time_ok_def)
  then have inv: "pq_inv PQ_BLOCKS ?q" by (simp add: dom_ok_def)
  have ne: "pq_bag PQ_BLOCKS ?q \<noteq> {#}"
    using assms(3) inv by (auto simp: pq_dequeue_def bind_Some_conv pq_inv_def)
  have d: "pq_inv PQ_BLOCKS q" "pq_bag PQ_BLOCKS ?q = add_mset (c, te) (pq_bag PQ_BLOCKS q)" "\<forall>p \<in># pq_bag PQ_BLOCKS ?q. c \<le> fst p"
      "curBlock q * 64 \<le> c"
    using cal.deq_law [OF inv ne] assms(3) by auto
  show "curBlock q * 64 \<le> c" by (rule d(4))
  show "dom_bag s d = add_mset (c, te) (pq_bag PQ_BLOCKS q)" using d(2) by (simp add: dom_bag_def)
  then show "curCycle (domains s ! d) \<le> c" using ok by (simp add: dom_ok_def)
  show "pq_firstCycle PQ_BLOCKS ?q = Some c" using cal.first_deq [OF inv ne] assms(3) by auto
  show "time_ok (set_dom d (\<lambda>x. x\<lparr>dd_pq := q, curCycle := c\<rparr>) s)"
    using assms(1,2) d unfolding time_ok_def by (auto simp: dom_ok_def dom_bag_def nth_list_update)
qed

lemma weave_turn_time:
  assumes "time_ok s" "d < length (domains s)" "weave_turn sim d (s, w) = Some (s', w')"
  shows "time_ok s' \<and> length (domains s') = length (domains s) \<and> csLimit s' = csLimit s
    \<and> (\<exists>c te. pq_firstCycle PQ_BLOCKS (dd_pq (domains s ! d)) = Some c \<and> logVec s' = logVec s @ [(c, te)]
         \<and> curCycle (domains s ! d) \<le> c \<and> c \<le> curCycle (domains s' ! d) \<and> curBlock (dd_pq (domains s' ! d)) * 64 \<le> c)"
proof -
  obtain te c q s2 n where t: "pq_dequeue PQ_BLOCKS (dd_pq (domains s ! d)) = Some (te, c, q)"
      "te_run sim te c (set_dom d (\<lambda>x. x\<lparr>dd_pq := q, curCycle := c\<rparr>) s, w) = Some (s2, w')"
      "next_cycle d s2 = Some n" "c \<le> n" "s' = (set_dom d (\<lambda>x. x\<lparr>curCycle := n\<rparr>) s2)\<lparr>logVec := logVec s2 @ [(c, te)]\<rparr>"
    using assms(3) by (auto simp: weave_turn_def bind_Some_conv Let_def)
  note f = take_first [OF assms(1,2) t(1)]
  have r: "time_ok s2" "same_time (set_dom d (\<lambda>x. x\<lparr>dd_pq := q, curCycle := c\<rparr>) s) s2" using te_run_time [OF f(1) t(2)] by auto
  have cur: "curCycle (domains s2 ! d) = c" "curBlock (dd_pq (domains s2 ! d)) = curBlock q" "length (domains s2) = length (domains s)" "logVec s2 = logVec s" "csLimit s2 = csLimit s"
    using r(2) assms(2) by (auto simp: same_time_def nth_list_update)
  have "dom_ok s2 d" using r(1) cur(3) assms(2) by (simp add: time_ok_def)
  then have "time_ok (set_dom d (\<lambda>x. x\<lparr>curCycle := n\<rparr>) s2)"
    using set_cur_ok [OF r(1), of d n] next_cycle_least t(3,4) f(5) cur assms(2) by auto
  then have "time_ok s'" by (simp add: t(5) time_ok_def dom_ok_def dom_bag_def)
  then show ?thesis using f(2,4,5) t(4,5) cur assms(2) by auto
qed

definition weave_ordered :: "nat \<Rightarrow> csim \<Rightarrow> csim \<Rightarrow> bool" where
  "weave_ordered d s s' \<longleftrightarrow> time_ok s' \<and> curCycle (domains s' ! d) = csLimit s \<and> (\<forall>p \<in># dom_bag s' d. csLimit s \<le> fst p)
     \<and> (\<exists>new. logVec s' = logVec s @ new \<and> sorted (map fst new) \<and> (\<forall>p \<in> set new. curCycle (domains s ! d) \<le> fst p \<and> fst p < csLimit s))"

lemma weave_stop:
  assumes "time_ok s" "d < length (domains s)" "weave_more d s = Some False" "curBlock (dd_pq (domains s ! d)) * 64 \<le> csLimit s"
  shows "weave_ordered d s (set_dom d (\<lambda>x. x\<lparr>curCycle := csLimit s\<rparr>) s)"
proof -
  have ok: "dom_ok s d" using assms(1,2) by (simp add: time_ok_def)
  have rest: "\<forall>p \<in># dom_bag s d. csLimit s \<le> fst p"
  proof (cases "pq_size (dd_pq (domains s ! d)) = 0")
    case True
    then show ?thesis using ok by (simp add: dom_ok_def dom_bag_def pq_inv_def pq_size_def)
  next
    case False
    then obtain c where "pq_firstCycle PQ_BLOCKS (dd_pq (domains s ! d)) = Some c" "csLimit s \<le> c"
      using assms(3) by (auto simp: weave_more_def Let_def bind_Some_conv)
    moreover have "next_cycle d s = Some c" using calculation False by (simp add: next_cycle_def)
    ultimately show ?thesis using next_cycle_least [OF ok] by fastforce
  qed
  moreover have "dom_bag (set_dom d (\<lambda>x. x\<lparr>curCycle := csLimit s\<rparr>) s) d = dom_bag s d" using assms(2) by (simp add: dom_bag_def)
  ultimately show ?thesis using set_cur_ok [OF assms(1,2,4)] assms(2) by (simp add: weave_ordered_def)
qed

lemma weave_time:
  assumes "simulatePhaseThread sim d sw = Some sw'"
  shows "time_ok (fst sw) \<longrightarrow> d < length (domains (fst sw)) \<longrightarrow> curBlock (dd_pq (domains (fst sw) ! d)) * 64 \<le> csLimit (fst sw)
     \<longrightarrow> weave_ordered d (fst sw) (fst sw')"
proof (rule simulatePhaseThread.raw_induct [where P = "\<lambda>sim d sw sw'. time_ok (fst sw) \<longrightarrow> d < length (domains (fst sw))
      \<longrightarrow> curBlock (dd_pq (domains (fst sw) ! d)) * 64 \<le> csLimit (fst sw) \<longrightarrow> weave_ordered d (fst sw) (fst sw')", OF _ assms], intro impI)
  fix rec sim d and sw sw' :: "csim \<times> 'a"
  assume IH: "\<And>sim d sw sw'. rec sim d sw = Some sw' \<Longrightarrow> time_ok (fst sw) \<longrightarrow> d < length (domains (fst sw))
      \<longrightarrow> curBlock (dd_pq (domains (fst sw) ! d)) * 64 \<le> csLimit (fst sw) \<longrightarrow> weave_ordered d (fst sw) (fst sw')"
    and body: "do { more \<leftarrow> weave_more d (fst sw);
       if more then do { sw' \<leftarrow> weave_turn sim d sw; rec sim d sw' }
       else Some (set_dom d (\<lambda>x. x\<lparr>curCycle := csLimit (fst sw)\<rparr>) (fst sw), snd sw) } = Some sw'"
    and a: "time_ok (fst sw)" "d < length (domains (fst sw))" "curBlock (dd_pq (domains (fst sw) ! d)) * 64 \<le> csLimit (fst sw)"
  obtain s w where sw: "sw = (s, w)" by fastforce
  obtain m where m: "weave_more d s = Some m" using body sw by (auto simp: bind_Some_conv)
  show "weave_ordered d (fst sw) (fst sw')"
  proof (cases m)
    case False
    then show ?thesis using weave_stop a body m sw by auto
  next
    case True
    then obtain s1 w1 where t: "weave_turn sim d (s, w) = Some (s1, w1)" "rec sim d (s1, w1) = Some sw'"
      using body m sw by (auto simp: bind_Some_conv)
    obtain c te where c: "time_ok s1" "length (domains s1) = length (domains s)" "csLimit s1 = csLimit s"
        "pq_firstCycle PQ_BLOCKS (dd_pq (domains s ! d)) = Some c" "logVec s1 = logVec s @ [(c, te)]"
        "curCycle (domains s ! d) \<le> c" "c \<le> curCycle (domains s1 ! d)" "curBlock (dd_pq (domains s1 ! d)) * 64 \<le> c"
      using weave_turn_time [of s d sim w s1 w1] a t(1) sw by auto
    have lt: "c < csLimit s" using m True c(4) by (auto simp: weave_more_def Let_def split: if_splits)
    have "curBlock (dd_pq (domains s1 ! d)) * 64 \<le> csLimit s1" using c(3,8) lt by linarith
    then have r: "weave_ordered d s1 (fst sw')" using IH [OF t(2)] c(1,2) a(2) sw by simp
    then obtain new where new: "logVec (fst sw') = logVec s1 @ new" "sorted (map fst new)"
        "\<forall>p \<in> set new. curCycle (domains s1 ! d) \<le> fst p \<and> fst p < csLimit s1"
      by (auto simp: weave_ordered_def)
    have log: "logVec (fst sw') = logVec s @ ((c, te) # new)" using new(1) c(5) by simp
    have sort: "sorted (map fst ((c, te) # new))" using new(2,3) c(7) by fastforce
    have "\<forall>p \<in> set ((c, te) # new). curCycle (domains s ! d) \<le> fst p \<and> fst p < csLimit s" using new(3) c(3,6,7) lt by fastforce
    with log sort have "\<exists>new. logVec (fst sw') = logVec s @ new \<and> sorted (map fst new)
        \<and> (\<forall>p \<in> set new. curCycle (domains s ! d) \<le> fst p \<and> fst p < csLimit s)" by blast
    then show ?thesis using r c(3) sw by (simp add: weave_ordered_def)
  qed
qed

subsection \<open>A phase always ends\<close>

text \<open>The hypotheses, for a finite set \<open>V\<close> of events: the events of a component are in domain 0, a child's earliest start does not
  exceed what its parent's earliest start and the delays allow (the schedule of the bound phase), and the delays are small
  against the horizon that \<^verbatim>\<open>enqueue\<close> asserts; \<open>r e\<close> bounds the delay a chain of delay events adds before \<open>e\<close>.\<close>

definition kids_of :: "TimingEvent \<Rightarrow> event list" where
  "kids_of t = (case visitChildren t of Some ks \<Rightarrow> ks | None \<Rightarrow> [])"

definition graph_ok :: "event set \<Rightarrow> (event \<Rightarrow> nat) \<Rightarrow> nat \<Rightarrow> csim \<Rightarrow> bool" where
  "graph_ok V r L s \<longleftrightarrow> finite V \<and> 0 < length (domains s) \<and> (\<forall>p \<in> V. te_domain (heap s p) = 0 \<and> visitChildren (heap s p) \<noteq> None
     \<and> L + r p + preDelay (heap s p) < lastLimit s + 10 * phaseLength s + 1000000
     \<and> (\<forall>k \<in> set (kids_of (heap s p)). k \<in> V
          \<and> minStartCycle (heap s k) \<le> minStartCycle (heap s p) + postDelay (heap s p) + preDelay (heap s k)
          \<and> (if te_class (heap s p) = SimEvent then postDelay (heap s p)
             else r p + preDelay (heap s p) + postDelay (heap s p)) \<le> r k))"

definition undone :: "event set \<Rightarrow> csim \<Rightarrow> event set" where
  "undone V s = {p \<in> V. te_state (heap s p) \<noteq> EV_DONE}"

definition counts_ok :: "event set \<Rightarrow> (event \<times> cycle) list \<Rightarrow> csim \<Rightarrow> bool" where
  "counts_ok V ws s \<longleftrightarrow> (\<forall>e \<in> V. numParents (heap s e)
     = (\<Sum>p \<in> undone V s. count_list (kids_of (heap s p)) e) + count_list (map fst ws) e)"

definition waiting_ok :: "event set \<Rightarrow> (event \<Rightarrow> nat) \<Rightarrow> nat \<Rightarrow> csim \<Rightarrow> bool" where
  "waiting_ok V r L s \<longleftrightarrow> (\<forall>e \<in> V. 0 < numParents (heap s e) \<longrightarrow> te_state (heap s e) = EV_NONE \<and> te_cycle (heap s e) \<le> L + r e)"

definition queued_ok :: "event set \<Rightarrow> csim \<Rightarrow> bool" where
  "queued_ok V s \<longleftrightarrow> (\<forall>p \<in># dom_bag s 0. snd p \<in> V \<and> te_state (heap s (snd p)) = EV_QUEUED \<and> numParents (heap s (snd p)) = 0
     \<and> te_class (heap s (snd p)) = SimEvent \<and> minStartCycle (heap s (snd p)) \<le> fst p)
     \<and> (\<forall>e. count (image_mset snd (dom_bag s 0)) e \<le> 1)"

definition calls_ok :: "event set \<Rightarrow> (event \<Rightarrow> nat) \<Rightarrow> nat \<Rightarrow> cycle \<Rightarrow> (event \<times> cycle) list \<Rightarrow> csim \<Rightarrow> bool" where
  "calls_ok V r L lo ws s \<longleftrightarrow> (\<forall>(e, t) \<in> set ws. e \<in> V \<and> lo \<le> t \<and> t \<le> L + r e \<and> minStartCycle (heap s e) \<le> t + preDelay (heap s e))"

definition live :: "event set \<Rightarrow> (event \<Rightarrow> nat) \<Rightarrow> nat \<Rightarrow> cycle \<Rightarrow> (event \<times> cycle) list \<Rightarrow> csim \<Rightarrow> bool" where
  "live V r L lo ws s \<longleftrightarrow> graph_ok V r L s \<and> counts_ok V ws s \<and> waiting_ok V r L s \<and> queued_ok V s \<and> calls_ok V r L lo ws s
     \<and> time_ok s \<and> inCSim s \<and> lastLimit s \<le> lo \<and> curCycle (domains s ! 0) \<le> lo"

definition work :: "event set \<Rightarrow> csim \<Rightarrow> nat" where
  "work V s = (\<Sum>e \<in> V. numParents (heap s e))"

text \<open>What the loop never changes of an event.\<close>

definition same_graph :: "csim \<Rightarrow> csim \<Rightarrow> bool" where
  "same_graph s s' \<longleftrightarrow> (\<forall>e. te_class (heap s' e) = te_class (heap s e) \<and> minStartCycle (heap s' e) = minStartCycle (heap s e)
     \<and> te_kids (heap s' e) = te_kids (heap s e) \<and> numChildren (heap s' e) = numChildren (heap s e)
     \<and> te_domain (heap s' e) = te_domain (heap s e) \<and> preDelay (heap s' e) = preDelay (heap s e)
     \<and> postDelay (heap s' e) = postDelay (heap s e))"

lemma same_graph_visit: "same_graph s s' \<Longrightarrow> visitChildren (heap s' e) = visitChildren (heap s e)"
  by (simp add: same_graph_def visitChildren_def cong: kids.case_cong)

lemma same_graph_kids: "same_graph s s' \<Longrightarrow> kids_of (heap s' e) = kids_of (heap s e)"
  by (simp add: kids_of_def same_graph_visit)

lemma graph_ok_frame:
  assumes "same_graph s s'" "length (domains s') = length (domains s)" "lastLimit s' = lastLimit s" "phaseLength s' = phaseLength s"
  shows "graph_ok V r L s' = graph_ok V r L s"
  using assms same_graph_kids [OF assms(1)] same_graph_visit [OF assms(1)] by (simp add: graph_ok_def same_graph_def)

lemma graph_ok_cong: "same_graph s s' \<Longrightarrow> same_time s s' \<Longrightarrow> graph_ok V r L s' = graph_ok V r L s"
  by (rule graph_ok_frame) (auto simp: same_time_def)

lemma calls_ok_cong: "same_graph s s' \<Longrightarrow> calls_ok V r L lo ws s' = calls_ok V r L lo ws s"
  by (simp add: calls_ok_def same_graph_def)

lemma counts_ok_move:
  assumes "counts_ok V ws s" "same_graph s s'" "undone V s' = undone V s"
    and "\<And>x. x \<in> V \<Longrightarrow> numParents (heap s' x) + count_list (map fst ws) x = numParents (heap s x) + count_list (map fst ws') x"
  shows "counts_ok V ws' s'"
proof -
  have "numParents (heap s' e) = (\<Sum>p \<in> undone V s. count_list (kids_of (heap s p)) e) + count_list (map fst ws') e" if "e \<in> V" for e
    using assms(1,4) that unfolding counts_ok_def by fastforce
  then show ?thesis using assms(2,3) by (simp add: counts_ok_def same_graph_kids)
qed

lemma work_less:
  assumes "finite V" "e \<in> V" "\<And>x. x \<in> V \<Longrightarrow> numParents (heap s' x) = numParents (heap s x) - of_bool (x = e)" "0 < numParents (heap s e)"
  shows "Suc (work V s') = work V s"
proof -
  have "work V s = numParents (heap s e) + (\<Sum>x \<in> V - {e}. numParents (heap s x))"
    "work V s' = numParents (heap s' e) + (\<Sum>x \<in> V - {e}. numParents (heap s' x))"
    using assms(1,2) by (simp_all add: work_def sum.remove)
  moreover have "(\<Sum>x \<in> V - {e}. numParents (heap s' x)) = (\<Sum>x \<in> V - {e}. numParents (heap s x))"
    by (rule sum.cong) (use assms(3) in auto)
  ultimately show ?thesis using assms(2-4) by simp
qed

text \<open>One call of \<^verbatim>\<open>parentDone\<close>: the counter goes down and the cycle up.\<close>

lemma call_counts:
  assumes "live V r L lo ((e, t) # rest) s"
  shows "e \<in> V" "0 < numParents (heap s e)" "te_state (heap s e) = EV_NONE" "te_cycle (heap s e) \<le> L + r e" "lo \<le> t" "t \<le> L + r e"
    "minStartCycle (heap s e) \<le> t + preDelay (heap s e)" "e \<notin> snd ` set_mset (dom_bag s 0)" "finite V"
proof -
  note l = assms [unfolded live_def]
  show "e \<in> V" "lo \<le> t" "t \<le> L + r e" "minStartCycle (heap s e) \<le> t + preDelay (heap s e)" using l by (auto simp: calls_ok_def)
  then show np: "0 < numParents (heap s e)" using l by (simp add: counts_ok_def)
  then show "te_state (heap s e) = EV_NONE" "te_cycle (heap s e) \<le> L + r e" using l \<open>e \<in> V\<close> by (auto simp: waiting_ok_def)
  show "e \<notin> snd ` set_mset (dom_bag s 0)" using l np by (auto simp: queued_ok_def)
  show "finite V" using l by (simp add: graph_ok_def)
qed

lemma call_step:
  assumes "live V r L lo ((e, t) # rest) s"
    and s1: "heap s1 = (heap s)(e := (heap s e)\<lparr>te_cycle := max (te_cycle (heap s e)) t, numParents := numParents (heap s e) - 1\<rparr>)"
      "domains s1 = domains s" "inCSim s1 = inCSim s" "lastLimit s1 = lastLimit s" "phaseLength s1 = phaseLength s" "csLimit s1 = csLimit s" "logVec s1 = logVec s"
  shows "live V r L lo rest s1" "Suc (work V s1) = work V s" "same_graph s s1"
proof -
  note l = assms(1) [unfolded live_def] note c = call_counts [OF assms(1)]
  have np: "numParents (heap s1 x) = numParents (heap s x) - of_bool (x = e)" for x by (simp add: s1(1))
  show sg: "same_graph s s1" by (simp add: same_graph_def s1(1))
  have st: "same_time s s1" by (simp add: same_time_def s1)
  show "Suc (work V s1) = work V s" by (rule work_less [OF c(9,1) np c(2)])
  have "undone V s1 = undone V s" by (auto simp: undone_def s1(1))
  then have "counts_ok V rest s1" using l c(2) np by (intro counts_ok_move [OF _ sg]) auto
  moreover have "queued_ok V s1" using l c(8) unfolding queued_ok_def dom_bag_def s1(2) by (auto simp: s1(1))
  moreover have "waiting_ok V r L s1" using l c(3,4,6) unfolding waiting_ok_def by (auto simp: s1(1))
  moreover have "calls_ok V r L lo rest s1" using l unfolding calls_ok_cong [OF sg] by (simp add: calls_ok_def)
  moreover have "graph_ok V r L s1" using l graph_ok_cong [OF sg st] by simp
  moreover have "time_ok s1" using l by (simp add: time_ok_def dom_ok_def dom_bag_def s1(2))
  ultimately show "live V r L lo rest s1" using l s1(2-4) by (simp add: live_def)
qed

lemma queue_call:
  assumes "live V r L lo rest s" "e \<in> V" "numParents (heap s e) = 0" "te_state (heap s e) \<noteq> EV_DONE" "e \<notin> snd ` set_mset (dom_bag s 0)"
    "te_class (heap s e) = SimEvent" "lo \<le> c" "minStartCycle (heap s e) \<le> c" "c \<le> L + r e + preDelay (heap s e)"
  shows "\<exists>s'. cs_enqueue e c (upd e (\<lambda>t. t\<lparr>te_state := EV_QUEUED\<rparr>) s) = Some s' \<and> live V r L lo rest s' \<and> work V s' = work V s
    \<and> same_graph s s' \<and> size (dom_bag s' 0) = Suc (size (dom_bag s 0))"
proof -
  note l = assms(1) [unfolded live_def]
  let ?s1 = "upd e (\<lambda>t. t\<lparr>privCycle := c\<rparr>) (upd e (\<lambda>t. t\<lparr>te_state := EV_QUEUED\<rparr>) s)"
  have d: "te_domain (heap s e) = 0" "0 < length (domains s)" "c < lastLimit s + 10 * phaseLength s + 1000000"
    using l assms(2,9) by (auto simp: graph_ok_def)
  have "time_ok ?s1" using l by simp
  then obtain q where q: "pq_enqueue PQ_BLOCKS e c (dd_pq (domains s ! 0)) = Some q" "time_ok (set_dom 0 (\<lambda>x. x\<lparr>dd_pq := q\<rparr>) ?s1)"
      "same_time ?s1 (set_dom 0 (\<lambda>x. x\<lparr>dd_pq := q\<rparr>) ?s1)" "dom_bag (set_dom 0 (\<lambda>x. x\<lparr>dd_pq := q\<rparr>) ?s1) 0 = add_mset (c, e) (dom_bag ?s1 0)"
    using queue_insert [of ?s1 0 c e] l d(2) assms(7) by auto
  let ?s' = "set_dom 0 (\<lambda>x. x\<lparr>dd_pq := q\<rparr>) ?s1"
  have en: "cs_enqueue e c (upd e (\<lambda>t. t\<lparr>te_state := EV_QUEUED\<rparr>) s) = Some ?s'"
    using d q(1) l assms(3,7) by (simp add: cs_enqueue_def Let_def)
  have sg: "same_graph s ?s'" by (simp add: same_graph_def)
  have st: "same_time s ?s'" using q(3) by simp
  have bag: "dom_bag ?s' 0 = add_mset (c, e) (dom_bag s 0)" using q(4) by (simp add: dom_bag_def)
  have np: "numParents (heap ?s' x) = numParents (heap s x)" for x by simp
  have "undone V ?s' = undone V s" using assms(4) by (auto simp: undone_def)
  then have "counts_ok V rest ?s'" using l by (intro counts_ok_move [OF _ sg]) auto
  moreover have "queued_ok V ?s'"
  proof -
    have z: "count (image_mset snd (dom_bag s 0)) e = 0" using assms(5) by (simp add: count_eq_zero_iff)
    have one: "count (image_mset snd (dom_bag ?s' 0)) x \<le> 1" for x
      using z l unfolding bag queued_ok_def by (cases "x = e") auto
    have "\<forall>p \<in># dom_bag s 0. snd p \<noteq> e" using assms(5) by auto
    then have "\<forall>p \<in># dom_bag ?s' 0. snd p \<in> V \<and> te_state (heap ?s' (snd p)) = EV_QUEUED \<and> numParents (heap ?s' (snd p)) = 0
     \<and> te_class (heap ?s' (snd p)) = SimEvent \<and> minStartCycle (heap ?s' (snd p)) \<le> fst p"
      using l assms(2,3,6,8) unfolding bag queued_ok_def by simp
    then show ?thesis using one unfolding queued_ok_def by blast
  qed
  moreover have "waiting_ok V r L ?s'" using l assms(3) unfolding waiting_ok_def by auto
  moreover have "calls_ok V r L lo rest ?s'" using l unfolding calls_ok_cong [OF sg] by simp
  moreover have "graph_ok V r L ?s'" using l graph_ok_cong [OF sg st] by simp
  ultimately have "live V r L lo rest ?s'" using l q(2) st by (simp add: live_def same_time_def)
  then show ?thesis using en sg bag np by (auto simp: work_def)
qed

lemma done_call:
  assumes "live V r L lo rest s" "e \<in> V" "numParents (heap s e) = 0" "te_state (heap s e) \<noteq> EV_DONE" "e \<notin> snd ` set_mset (dom_bag s 0)"
    "visitChildren (heap s e) = Some ks" "lo \<le> c" "minStartCycle (heap s e) \<le> c"
    "c \<le> (if te_class (heap s e) = SimEvent then L else L + r e + preDelay (heap s e))"
  shows "live V r L lo (map (\<lambda>k. (k, c + postDelay (heap s e))) ks @ rest) (upd e (\<lambda>t. t\<lparr>te_state := EV_DONE\<rparr>) s)"
proof -
  note l = assms(1) [unfolded live_def]
  let ?s' = "upd e (\<lambda>t. t\<lparr>te_state := EV_DONE\<rparr>) s" let ?ws = "map (\<lambda>k. (k, c + postDelay (heap s e))) ks @ rest"
  have sg: "same_graph s ?s'" by (simp add: same_graph_def)
  have ks: "kids_of (heap s e) = ks" using assms(6) by (simp add: kids_of_def)
  have un: "undone V s = insert e (undone V ?s')" "e \<notin> undone V ?s'" using assms(2,4) by (auto simp: undone_def)
  have fin: "finite (undone V ?s')" using l by (simp add: undone_def graph_ok_def)
  have "(\<Sum>p \<in> undone V s. count_list (kids_of (heap s p)) x) = count_list ks x + (\<Sum>p \<in> undone V ?s'. count_list (kids_of (heap s p)) x)" for x
    unfolding un(1) using un(2) fin ks by simp
  moreover have "map fst ?ws = ks @ map fst rest" by (simp add: o_def)
  ultimately have "counts_ok V ?ws ?s'"
    using l unfolding counts_ok_def same_graph_kids [OF sg] by (simp add: count_list_append)
  moreover have "queued_ok V ?s'" using l assms(5) unfolding queued_ok_def by (auto simp: dom_bag_def)
  moreover have "waiting_ok V r L ?s'" using l assms(3) unfolding waiting_ok_def by auto
  moreover have "calls_ok V r L lo ?ws ?s'"
  proof -
    have "k \<in> V \<and> lo \<le> c + postDelay (heap s e) \<and> c + postDelay (heap s e) \<le> L + r k
        \<and> minStartCycle (heap s k) \<le> c + postDelay (heap s e) + preDelay (heap s k)" if "k \<in> set ks" for k
    proof -
      have g: "k \<in> V" "minStartCycle (heap s k) \<le> minStartCycle (heap s e) + postDelay (heap s e) + preDelay (heap s k)"
          "(if te_class (heap s e) = SimEvent then postDelay (heap s e) else r e + preDelay (heap s e) + postDelay (heap s e)) \<le> r k"
        using l assms(2) that ks unfolding graph_ok_def by auto
      have "c + postDelay (heap s e) \<le> L + r k" using g(3) assms(9) by (cases "te_class (heap s e) = SimEvent") auto
      then show ?thesis using g(1,2) assms(7,8) by linarith
    qed
    then show ?thesis using l unfolding calls_ok_cong [OF sg] by (auto simp: calls_ok_def)
  qed
  moreover have "graph_ok V r L ?s'" using l graph_ok_cong [OF sg, of V r L] by simp
  ultimately show ?thesis using l by (simp add: live_def)
qed

lemma work_upd: "(\<And>t. numParents (f t) = numParents t) \<Longrightarrow> work V (upd e f s) = work V s"
  unfolding work_def by (rule sum.cong) auto

text \<open>All calls: the work list ends, and an event enters the queue only for a counter that went down.\<close>

lemma wake_live:
  assumes "live V r L lo ws s"
  shows "\<exists>s'. wake ws s = Some s' \<and> live V r L lo [] s' \<and> work V s' + size (dom_bag s' 0) \<le> work V s + size (dom_bag s 0) \<and> same_graph s s'"
  using assms
proof (induction "work V s" arbitrary: ws s rule: less_induct)
  case less
  show ?case
  proof (cases ws)
    case Nil
    then show ?thesis using less.prems by (auto simp: wake.simps same_graph_def)
  next
    case (Cons et rest)
    obtain e t where et: "et = (e, t)" by fastforce
    note lv = less.prems [unfolded Cons et] note c = call_counts [OF lv]
    let ?s1 = "upd e (\<lambda>x. x\<lparr>te_cycle := max (te_cycle x) t, numParents := numParents x - 1\<rparr>) s"
    have s1: "live V r L lo rest ?s1" "Suc (work V ?s1) = work V s" "same_graph s ?s1"
      by (rule call_step [OF lv]; simp)+
    have bag: "dom_bag ?s1 0 = dom_bag s 0" by (simp add: dom_bag_def)
    have lt: "work V ?s1 < work V s" using s1(2) by linarith
    let ?T = "max (te_cycle (heap s e)) t"
    have T: "lo \<le> ?T" "?T \<le> L + r e" "minStartCycle (heap s e) \<le> ?T + preDelay (heap s e)" using c by auto
    have e1: "e \<in> V" "te_state (heap ?s1 e) \<noteq> EV_DONE" "e \<notin> snd ` set_mset (dom_bag ?s1 0)" using c(1,3,8) bag by auto
    show ?thesis
    proof (cases "te_class (heap s e) = SimEvent")
      case sim: True
      have pd: "sim_parentDone e t s = (if numParents (heap ?s1 e) = 0
          then cs_enqueue e (?T + preDelay (heap s e)) (upd e (\<lambda>t. t\<lparr>te_state := EV_QUEUED\<rparr>) ?s1) else Some ?s1)"
        using c(2,3) by (simp add: sim_parentDone_def Let_def upd_def)
      have wk: "wake ws s = do { s2 \<leftarrow> sim_parentDone e t s; wake rest s2 }"
        using Cons et sim by (subst wake.simps) simp
      show ?thesis
      proof (cases "numParents (heap ?s1 e) = 0")
        case True
        obtain s2 where s2: "cs_enqueue e (?T + preDelay (heap s e)) (upd e (\<lambda>t. t\<lparr>te_state := EV_QUEUED\<rparr>) ?s1) = Some s2"
            "live V r L lo rest s2" "work V s2 = work V ?s1" "same_graph ?s1 s2" "size (dom_bag s2 0) = Suc (size (dom_bag ?s1 0))"
          using queue_call [OF s1(1) e1(1) True e1(2,3), of "?T + preDelay (heap s e)"] T sim by auto
        have "work V s2 < work V s" using s2(3) lt by simp
        from less.hyps [OF this s2(2)] obtain s' where "wake rest s2 = Some s'" "live V r L lo [] s'"
            "work V s' + size (dom_bag s' 0) \<le> work V s2 + size (dom_bag s2 0)" "same_graph s2 s'" by blast
        then show ?thesis using wk pd True s2 s1(2,3) bag by (auto simp: same_graph_def)
      next
        case False
        from less.hyps [OF lt s1(1)] obtain s' where "wake rest ?s1 = Some s'" "live V r L lo [] s'"
            "work V s' + size (dom_bag s' 0) \<le> work V ?s1 + size (dom_bag ?s1 0)" "same_graph ?s1 s'" by blast
        then show ?thesis using wk pd False s1(2,3) bag by (auto simp: same_graph_def)
      qed
    next
      case delay: False
      have d1: "delay_parentDone e t s = ?s1" using c(2) by (simp add: delay_parentDone_def upd_def)
      show ?thesis
      proof (cases "numParents (heap ?s1 e) = 0")
        case True
        obtain ks where ks: "visitChildren (heap ?s1 e) = Some ks" using s1(1) c(1) by (auto simp: live_def graph_ok_def)
        let ?s2 = "upd e (\<lambda>t. t\<lparr>te_state := EV_DONE\<rparr>) ?s1"
        let ?ws = "map (\<lambda>k. (k, ?T + preDelay (heap s e) + postDelay (heap s e))) ks @ rest"
        have l2: "live V r L lo ?ws ?s2"
          using done_call [OF s1(1) e1(1) True e1(2,3) ks, of "?T + preDelay (heap s e)"] T delay by simp
        have w2: "work V ?s2 = work V ?s1" by (rule work_upd) simp
        have "work V ?s2 < work V s" using w2 lt by simp
        from less.hyps [OF this l2] obtain s' where s': "wake ?ws ?s2 = Some s'" "live V r L lo [] s'"
            "work V s' + size (dom_bag s' 0) \<le> work V ?s2 + size (dom_bag ?s2 0)" "same_graph ?s2 s'" by blast
        have "wake ws s = wake ?ws ?s2" using Cons et delay True ks d1 by (subst wake.simps) (simp add: Let_def)
        moreover have "same_graph s s'" using s'(4) s1(3) by (simp add: same_graph_def)
        moreover have "dom_bag ?s2 0 = dom_bag s 0" by (simp add: dom_bag_def)
        ultimately show ?thesis using s' w2 lt by auto
      next
        case False
        from less.hyps [OF lt s1(1)] obtain s' where s': "wake rest ?s1 = Some s'" "live V r L lo [] s'"
            "work V s' + size (dom_bag s' 0) \<le> work V ?s1 + size (dom_bag ?s1 0)" "same_graph ?s1 s'" by blast
        have "wake ws s = wake rest ?s1" using Cons et delay False d1 by (subst wake.simps) (simp add: Let_def)
        then show ?thesis using s' s1(2,3) bag by (auto simp: same_graph_def)
      qed
    qed
  qed
qed

definition prompt :: "'w simulator \<Rightarrow> nat \<Rightarrow> bool" where
  "prompt sim D \<longleftrightarrow> (\<forall>e c w. \<exists>c' w'. sim e c w = Some (SimDone c', w') \<and> c \<le> c' \<and> c' \<le> c + D)"

lemma live_lo: "live V r L lo [] s \<Longrightarrow> lastLimit s \<le> lo' \<Longrightarrow> curCycle (domains s ! 0) \<le> lo' \<Longrightarrow> live V r L lo' [] s"
  by (simp add: live_def calls_ok_def)

lemma live_next:
  assumes "live V r L lo [] s" "heap s' = heap s" "dom_bag s' 0 = dom_bag s 0" "length (domains s') = length (domains s)" "time_ok s'"
    "inCSim s'" "lastLimit s' = lastLimit s" "phaseLength s' = phaseLength s" "lastLimit s \<le> n" "curCycle (domains s' ! 0) \<le> n"
  shows "live V r L n [] s'"
proof -
  have sg: "same_graph s s'" by (simp add: same_graph_def assms(2))
  have "graph_ok V r L s'" using assms(1) graph_ok_frame [OF sg assms(4,7,8)] by (simp add: live_def)
  moreover have "counts_ok V [] s'" "waiting_ok V r L s'" "queued_ok V s'"
    using assms(1) unfolding live_def counts_ok_def undone_def waiting_ok_def queued_ok_def assms(2,3) by blast+
  ultimately show ?thesis using assms(5-10) by (simp add: live_def calls_ok_def)
qed

lemma weave_turn_live:
  assumes "prompt sim D" "live V r L lo [] s" "dom_bag s 0 \<noteq> {#}" "pq_firstCycle PQ_BLOCKS (dd_pq (domains s ! 0)) = Some c0" "c0 + D \<le> L"
    "lastLimit s \<le> curCycle (domains s ! 0)" "c0 < csLimit s"
  shows "\<exists>s' w' lo'. weave_turn sim 0 (s, w) = Some (s', w') \<and> live V r L lo' [] s' \<and> work V s' + size (dom_bag s' 0) < work V s + size (dom_bag s 0)
    \<and> lastLimit s' \<le> curCycle (domains s' ! 0) \<and> csLimit s' = csLimit s"
proof -
  note l = assms(2) [unfolded live_def]
  have dn: "0 < length (domains s)" using l by (simp add: graph_ok_def)
  have inv: "pq_inv PQ_BLOCKS (dd_pq (domains s ! 0))" using l dn by (simp add: time_ok_def dom_ok_def)
  obtain te c q where dq: "pq_dequeue PQ_BLOCKS (dd_pq (domains s ! 0)) = Some (te, c, q)"
    using cal.deq_law [OF inv] assms(3) by (auto simp: dom_bag_def)
  have tm: "time_ok s" using l by simp
  note f = take_first [OF tm dn dq]
  have c0: "c0 = c" using f(4) assms(4) by simp
  let ?s1 = "set_dom 0 (\<lambda>x. x\<lparr>dd_pq := q, curCycle := c\<rparr>) s"
  have bag1: "dom_bag s 0 = add_mset (c, te) (dom_bag ?s1 0)" using f(3) dn by (simp add: dom_bag_def)
  have te: "te \<in> V" "te_state (heap s te) = EV_QUEUED" "numParents (heap s te) = 0" "te_class (heap s te) = SimEvent" "minStartCycle (heap s te) \<le> c"
    "te \<notin> snd ` set_mset (dom_bag ?s1 0)"
  proof -
    have q: "snd (c, te) \<in> V \<and> te_state (heap s (snd (c, te))) = EV_QUEUED \<and> numParents (heap s (snd (c, te))) = 0
        \<and> te_class (heap s (snd (c, te))) = SimEvent \<and> minStartCycle (heap s (snd (c, te))) \<le> fst (c, te)"
      using l bag1 unfolding queued_ok_def by (metis union_single_eq_member)
    then show "te \<in> V" "te_state (heap s te) = EV_QUEUED" "numParents (heap s te) = 0" "te_class (heap s te) = SimEvent" "minStartCycle (heap s te) \<le> c"
      by simp_all
    have "count (image_mset snd (dom_bag s 0)) te \<le> 1" using l by (simp add: queued_ok_def)
    then have "count (image_mset snd (dom_bag ?s1 0)) te = 0" unfolding bag1 by simp
    then show "te \<notin> snd ` set_mset (dom_bag ?s1 0)" by (simp add: count_eq_zero_iff)
  qed
  let ?s2 = "upd te (\<lambda>t. t\<lparr>te_state := EV_RUNNING\<rparr>) ?s1"
  have live2: "live V r L c [] ?s2"
  proof -
    have sg: "same_graph s ?s2" by (simp add: same_graph_def)
    have "undone V ?s2 = undone V s" using te(2) by (auto simp: undone_def)
    then have "counts_ok V [] ?s2" using l by (intro counts_ok_move [OF _ sg]) auto
    moreover have "queued_ok V ?s2"
    proof -
      have "dom_bag ?s2 0 = dom_bag ?s1 0" by (simp add: dom_bag_def)
      moreover have "snd p \<noteq> te" if "p \<in># dom_bag ?s1 0" for p using te(6) that by auto
      moreover have "count (image_mset snd (dom_bag ?s1 0)) e \<le> 1" for e
      proof -
        have "count (image_mset snd (dom_bag ?s1 0)) e \<le> count (image_mset snd (dom_bag s 0)) e" unfolding bag1 by simp
        also have "\<dots> \<le> 1" using l by (simp add: queued_ok_def)
        finally show ?thesis .
      qed
      moreover have "snd p \<in> V \<and> te_state (heap s (snd p)) = EV_QUEUED \<and> numParents (heap s (snd p)) = 0
          \<and> te_class (heap s (snd p)) = SimEvent \<and> minStartCycle (heap s (snd p)) \<le> fst p" if "p \<in># dom_bag ?s1 0" for p
      proof -
        have "p \<in># dom_bag s 0" unfolding bag1 using that by simp
        then show ?thesis using l unfolding queued_ok_def by blast
      qed
      ultimately show ?thesis unfolding queued_ok_def by simp
    qed
    moreover have "waiting_ok V r L ?s2" using l te(3) unfolding waiting_ok_def by auto
    moreover have "graph_ok V r L ?s2" using l graph_ok_frame [OF sg] by simp
    moreover have "curCycle (domains s ! 0) \<le> c" by (rule f(2))
    ultimately show ?thesis using l f(1) assms(6) dn by (simp add: live_def calls_ok_def)
  qed
  obtain c' w' where v: "sim te c w = Some (SimDone c', w')" "c \<le> c'" "c' \<le> c + D" using assms(1) unfolding prompt_def by blast
  obtain ks where ks: "visitChildren (heap ?s2 te) = Some ks" using live2 te(1) by (auto simp: live_def graph_ok_def)
  have t2: "numParents (heap ?s2 te) = 0" "te_state (heap ?s2 te) \<noteq> EV_DONE" "te \<notin> snd ` set_mset (dom_bag ?s2 0)"
    using te(3,6) by (auto simp: dom_bag_def)
  have "live V r L c (map (\<lambda>k. (k, c' + postDelay (heap ?s2 te))) ks @ []) (upd te (\<lambda>t. t\<lparr>te_state := EV_DONE\<rparr>) ?s2)"
    by (rule done_call [OF live2 te(1) t2 ks]) (use v te(4,5) assms(5) c0 in auto)
  note dc = this
  let ?s3 = "upd te (\<lambda>t. t\<lparr>te_state := EV_DONE\<rparr>) ?s2"
  have same: "work V ?s3 = work V s" "dom_bag ?s3 0 = dom_bag ?s1 0"
    by (simp_all add: work_upd dom_bag_def) (simp add: work_def)
  obtain s3 where s3: "wake (map (\<lambda>k. (k, c' + postDelay (heap ?s2 te))) ks) ?s3 = Some s3"
      "live V r L c [] s3" "work V s3 + size (dom_bag s3 0) \<le> work V s + size (dom_bag ?s1 0)"
    using wake_live [OF dc] unfolding same append_Nil2 by blast
  have run: "te_run sim te c (?s1, w) = Some (s3, w')"
    using te(2,5) v(1) ks s3(1) by (simp add: te_run_def te_done_def Let_def)
  have r: "time_ok s3" "same_time ?s1 s3" using te_run_time [OF f(1) run] by auto
  have cur: "curCycle (domains s3 ! 0) = c" "0 < length (domains s3)" "lastLimit s3 = lastLimit s" "csLimit s3 = csLimit s"
    using r(2) dn by (auto simp: same_time_def nth_list_update)
  have ok3: "dom_ok s3 0" using r(1) cur(2) by (simp add: time_ok_def)
  obtain n where n: "next_cycle 0 s3 = Some n" "c \<le> n"
  proof (cases "dom_bag s3 0 = {#}")
    case True
    then show thesis using that ok3 assms(7) c0 cur(4) by (simp add: next_cycle_def dom_ok_def dom_bag_def pq_inv_def pq_size_def)
  next
    case False
    then obtain n p where "pq_firstCycle PQ_BLOCKS (dd_pq (domains s3 ! 0)) = Some n" "p \<in># dom_bag s3 0" "fst p = n"
      using cal.first_law [of PQ_BLOCKS "dd_pq (domains s3 ! 0)"] ok3 by (auto simp: dom_ok_def dom_bag_def)
    moreover have "pq_size (dd_pq (domains s3 ! 0)) \<noteq> 0" using False ok3 by (simp add: dom_ok_def dom_bag_def pq_inv_def pq_size_def)
    ultimately show thesis using that ok3 cur(1) by (auto simp: next_cycle_def dom_ok_def)
  qed
  let ?s' = "(set_dom 0 (\<lambda>x. x\<lparr>curCycle := n\<rparr>) s3)\<lparr>logVec := logVec s3 @ [(c, te)]\<rparr>"
  have turn: "weave_turn sim 0 (s, w) = Some (?s', w')" using dq f(2) run n by (simp add: weave_turn_def Let_def)
  have bag: "dom_bag ?s' 0 = dom_bag s3 0" and hp: "heap ?s' = heap s3" using cur(2) by (simp_all add: dom_bag_def)
  have tok: "time_ok ?s'" using weave_turn_time [OF tm dn turn] by (elim exE conjE)
  have "live V r L n [] ?s'"
    by (rule live_next [OF s3(2) hp bag _ tok]) (use s3(2) n(2) cur assms(6) f(2) in \<open>auto simp: live_def\<close>)
  moreover have "work V ?s' + size (dom_bag ?s' 0) < work V s + size (dom_bag s 0)"
    using s3(3) bag1 unfolding bag by (simp add: work_def hp)
  ultimately show ?thesis using turn n(2) cur assms(6) f(2) by auto
qed

lemma weave_live:
  assumes "prompt sim D" "live V r L lo [] s" "csLimit s + D \<le> L" "lastLimit s \<le> curCycle (domains s ! 0)"
  shows "\<exists>s' w' lo'. simulatePhaseThread sim 0 (s, w) = Some (set_dom 0 (\<lambda>x. x\<lparr>curCycle := csLimit s\<rparr>) s', w') \<and> live V r L lo' [] s'"
  using assms(2-4)
proof (induction "work V s + size (dom_bag s 0)" arbitrary: s w lo rule: less_induct)
  case less
  have ok: "dom_ok s 0" using less.prems(1) by (simp add: live_def graph_ok_def time_ok_def)
  have sz: "pq_size (dd_pq (domains s ! 0)) = 0 \<longleftrightarrow> dom_bag s 0 = {#}" using ok by (simp add: dom_ok_def dom_bag_def pq_inv_def pq_size_def)
  show ?case
  proof (cases "dom_bag s 0 = {#}")
    case True
    then have "weave_more 0 s = Some False" using sz by (simp add: weave_more_def)
    then show ?thesis using less.prems(1) by (subst simulatePhaseThread.simps) auto
  next
    case False
    then obtain c where c: "pq_firstCycle PQ_BLOCKS (dd_pq (domains s ! 0)) = Some c"
      using cal.first_law [of PQ_BLOCKS "dd_pq (domains s ! 0)"] ok by (auto simp: dom_ok_def dom_bag_def)
    have more: "weave_more 0 s = Some (c < csLimit s)" using False sz c by (simp add: weave_more_def Let_def)
    show ?thesis
    proof (cases "c < csLimit s")
      case lt: True
      have "c + D \<le> L" using lt less.prems(2) by linarith
      from weave_turn_live [OF assms(1) less.prems(1) False c this less.prems(3) lt, of w]
      obtain s1 w1 lo1 where t: "weave_turn sim 0 (s, w) = Some (s1, w1)" "live V r L lo1 [] s1"
          "work V s1 + size (dom_bag s1 0) < work V s + size (dom_bag s 0)" "lastLimit s1 \<le> curCycle (domains s1 ! 0)" "csLimit s1 = csLimit s"
        by blast
      from less.hyps [OF t(3,2) _ t(4), of w1] t(5) less.prems(2)
      obtain s' w' lo' where "simulatePhaseThread sim 0 (s1, w1) = Some (set_dom 0 (\<lambda>x. x\<lparr>curCycle := csLimit s\<rparr>) s', w')" "live V r L lo' [] s'"
        by auto
      then show ?thesis using more lt t(1) by (subst simulatePhaseThread.simps) auto
    next
      case False
      then show ?thesis using more less.prems(1) by (subst simulatePhaseThread.simps) auto
    qed
  qed
qed

text \<open>What the bound phase leaves: an event queued by \<^verbatim>\<open>queue\<close> is in its domain's queue.\<close>

lemma te_queue_ok:
  assumes "time_ok s" "\<not> inCSim s" "te_domain (heap s e) = int d" "d < length (domains s)" "te_state (heap s e) = EV_NONE"
    "numParents (heap s e) = 0" "lastLimit s \<le> c" "curCycle (domains s ! d) \<le> c" "c < lastLimit s + 10 * phaseLength s + 10000"
  shows "\<exists>s'. te_queue e c s = Some s' \<and> time_ok s' \<and> same_time s s' \<and> dom_bag s' d = add_mset (c, e) (dom_bag s d)
    \<and> heap s' = (heap s)(e := (heap s e)\<lparr>te_state := EV_QUEUED, privCycle := c\<rparr>)"
proof -
  let ?s1 = "upd e (\<lambda>t. t\<lparr>privCycle := c\<rparr>) (upd e (\<lambda>t. t\<lparr>te_state := EV_QUEUED\<rparr>) s)"
  have "time_ok ?s1" using assms(1) by simp
  then obtain q where q: "pq_enqueue PQ_BLOCKS e c (dd_pq (domains s ! d)) = Some q" "time_ok (set_dom d (\<lambda>x. x\<lparr>dd_pq := q\<rparr>) ?s1)"
      "same_time ?s1 (set_dom d (\<lambda>x. x\<lparr>dd_pq := q\<rparr>) ?s1)" "dom_bag (set_dom d (\<lambda>x. x\<lparr>dd_pq := q\<rparr>) ?s1) d = add_mset (c, e) (dom_bag ?s1 d)"
    using queue_insert [of ?s1 d c e] assms(4,8) by auto
  have "te_queue e c s = Some (set_dom d (\<lambda>x. x\<lparr>dd_pq := q\<rparr>) ?s1)"
    using assms q(1) by (simp add: te_queue_def enqueueSynced_def Let_def)
  then show ?thesis using q(2-4) by (auto simp: dom_bag_def)
qed

lemma csim_new_ok: "time_ok (csim_new h pl)" "dom_bag (csim_new h pl) 0 = {#}"
  using PrioQueue_new_inv [of PQ_BLOCKS, where 'a = event]
  by (auto simp: time_ok_def dom_ok_def dom_bag_def csim_new_def PQ_BLOCKS_def PrioQueue_new_def)

lemma simulatePhase_live:
  assumes "prompt sim D" "live V r (lim + D) lo [] (s\<lparr>csLimit := lim, inCSim := True\<rparr>)" "lastLimit s \<le> curCycle (domains s ! 0)" "lastLimit s \<le> lim"
  shows "\<exists>s' w'. simulatePhase sim lim (s, w) = Some (s', w') \<and> lastLimit s' = lim \<and> \<not> inCSim s' \<and> counts_ok V [] s'"
proof -
  let ?s = "s\<lparr>csLimit := lim, inCSim := True\<rparr>"
  obtain s' w' lo' where s': "simulatePhaseThread sim 0 (?s, w) = Some (set_dom 0 (\<lambda>x. x\<lparr>curCycle := lim\<rparr>) s', w')" "live V r (lim + D) lo' [] s'"
    using weave_live [OF assms(1,2), of w] assms(3) by auto
  have "counts_ok V [] s'" using s'(2) by (simp add: live_def)
  then have "counts_ok V [] ((set_dom 0 (\<lambda>x. x\<lparr>curCycle := lim\<rparr>) s')\<lparr>inCSim := False, lastLimit := lim\<rparr>)"
    by (simp add: counts_ok_def undone_def)
  then show ?thesis using s'(1) assms(4) by (simp add: simulatePhase_def Let_def)
qed

text \<open>A small schedule: event 0 releases the delay event 1, which releases event 2; event 0 is queued for cycle 10.\<close>

definition sample_heap :: "event \<Rightarrow> TimingEvent" where
  "sample_heap e = (TimingEvent_new (if e = 1 then DelayEvent else SimEvent) 5 2 0)\<lparr>minStartCycle := 10\<rparr>"

definition sample_sim :: "unit simulator" where
  "sample_sim e c w = Some (SimDone (c + 3), w)"

definition sample_rank :: "event \<Rightarrow> nat" where
  "sample_rank e = (if e = 0 then 0 else if e = 1 then 2 else 9)"

definition sample_queued :: "csim option" where
  "sample_queued = do { s1 \<leftarrow> addChild 0 1 (csim_new sample_heap 10000); s2 \<leftarrow> addChild 1 2 s1; te_queue 0 10 s2 }"

lemma sample_live:
  "\<exists>s. sample_queued = Some s \<and> live {0, 1, 2} sample_rank 103 10 [] (s\<lparr>csLimit := 100, inCSim := True\<rparr>)
     \<and> time_ok s \<and> domains s \<noteq> [] \<and> lastLimit s = 0 \<and> curCycle (domains s ! 0) = 0 \<and> curBlock (dd_pq (domains s ! 0)) = 0
     \<and> dom_bag s 0 = {#(10, 0)#} \<and> logVec s = []"
proof -
  let ?h = "sample_heap(0 := (sample_heap 0)\<lparr>te_kids := OneChild 1, numChildren := 1\<rparr>,
     1 := (sample_heap 1)\<lparr>numParents := 1, te_kids := OneChild 2, numChildren := 1\<rparr>, 2 := (sample_heap 2)\<lparr>numParents := 1\<rparr>)"
  let ?s2 = "(csim_new sample_heap 10000)\<lparr>heap := ?h\<rparr>"
  have ad: "do { s1 \<leftarrow> addChild 0 1 (csim_new sample_heap 10000); addChild 1 2 s1 } = Some ?s2"
    by (simp add: addChild_def upd_def Let_def csim_new_def sample_heap_def TimingEvent_new_def fun_eq_iff)
  have ok: "time_ok ?s2" "dom_bag ?s2 0 = {#}" using csim_new_ok [of sample_heap 10000] by (simp_all add: time_ok_def dom_ok_def dom_bag_def)
  have "\<exists>s'. te_queue 0 10 ?s2 = Some s' \<and> time_ok s' \<and> same_time ?s2 s' \<and> dom_bag s' 0 = add_mset (10, 0) (dom_bag ?s2 0)
    \<and> heap s' = (heap ?s2)(0 := (heap ?s2 0)\<lparr>te_state := EV_QUEUED, privCycle := 10\<rparr>)"
    by (rule te_queue_ok [OF ok(1)]) (simp_all add: csim_new_def sample_heap_def TimingEvent_new_def)
  then obtain s where s: "te_queue 0 10 ?s2 = Some s" "time_ok s" "same_time ?s2 s" "dom_bag s 0 = {#(10, 0)#}"
      "heap s = ?h(0 := (?h 0)\<lparr>te_state := EV_QUEUED, privCycle := 10\<rparr>)"
    using ok(2) by auto
  have q: "sample_queued = Some s" using ad s(1) by (auto simp: sample_queued_def bind_Some_conv)
  have t: "domains s \<noteq> []" "lastLimit s = 0" "curCycle (domains s ! 0) = 0" "curBlock (dd_pq (domains s ! 0)) = 0" "logVec s = []" "phaseLength s = 10000"
    using s(3) by (auto simp: same_time_def csim_new_def PrioQueue_new_def)
  let ?s = "s\<lparr>csLimit := 100, inCSim := True\<rparr>"
  have kids: "visitChildren (heap ?s 0) = Some [1]" "visitChildren (heap ?s 1) = Some [2]" "visitChildren (heap ?s 2) = Some []"
    by (simp_all add: s(5) visitChildren_def sample_heap_def TimingEvent_new_def)
  have bag: "dom_bag ?s 0 = {#(10, 0)#}" using s(4) by (simp add: dom_bag_def)
  have un: "undone {0, 1, 2} ?s = {0, 1, 2}" by (auto simp: undone_def s(5) sample_heap_def TimingEvent_new_def)
  have "graph_ok {0, 1, 2} sample_rank 103 ?s"
    using t kids by (auto simp: graph_ok_def kids_of_def sample_rank_def) (simp_all add: s(5) sample_heap_def TimingEvent_new_def)
  moreover have "counts_ok {0, 1, 2} [] ?s"
    unfolding counts_ok_def un using kids by (simp add: kids_of_def) (simp add: s(5) sample_heap_def TimingEvent_new_def)
  moreover have "waiting_ok {0, 1, 2} sample_rank 103 ?s" by (simp add: waiting_ok_def s(5) sample_heap_def TimingEvent_new_def)
  moreover have "queued_ok {0, 1, 2} ?s" unfolding queued_ok_def bag by (simp add: s(5) sample_heap_def TimingEvent_new_def)
  moreover have "time_ok ?s" using s(2) by (simp add: time_ok_def dom_ok_def dom_bag_def)
  ultimately have "live {0, 1, 2} sample_rank 103 10 [] ?s" using t by (simp add: live_def calls_ok_def)
  then show ?thesis using q s(2,4) t by blast
qed

lemma sample_prompt: "prompt sample_sim 3"
  by (simp add: prompt_def sample_sim_def)

text \<open>C15: a weave phase respects time. Whatever the events do, when \<^verbatim>\<open>simulatePhase\<close> returns, the events it ran are
  logged in cycle order, each at or after the domain's cycle when the phase started and before the limit; the domain's clock
  stands at the limit and every event still queued lies at or beyond it.\<close>

theorem weave_phase_in_time_order:
  assumes "time_ok s" "0 < length (domains s)" "curBlock (dd_pq (domains s ! 0)) * 64 \<le> lim" "simulatePhase sim lim (s, w) = Some (s', w')"
  shows "\<exists>new. logVec s' = logVec s @ new \<and> sorted (map fst new) \<and> (\<forall>p \<in> set new. curCycle (domains s ! 0) \<le> fst p \<and> fst p < lim)
    \<and> curCycle (domains s' ! 0) = lim \<and> lastLimit s' = lim \<and> (\<forall>p \<in># dom_bag s' 0. lim \<le> fst p)"
proof -
  let ?s = "s\<lparr>csLimit := lim, inCSim := True\<rparr>"
  obtain s1 where s1: "simulatePhaseThread sim 0 (?s, w) = Some (s1, w')" "s' = s1\<lparr>inCSim := False, lastLimit := lim\<rparr>"
    using assms(4) by (auto simp: simulatePhase_def bind_Some_conv Let_def)
  have "time_ok ?s" using assms(1) by (simp add: time_ok_def dom_ok_def dom_bag_def)
  then have "weave_ordered 0 ?s s1" using weave_time [OF s1(1)] assms(2,3) by simp
  then show ?thesis unfolding s1(2) weave_ordered_def by (auto simp: dom_bag_def)
qed

theorem weave_phase_in_time_order_witness:
  "\<exists>s s' w'. sample_queued = Some s \<and> simulatePhase sample_sim 100 (s, ()) = Some (s', w') \<and> sorted (map fst (logVec s'))
     \<and> (\<forall>p \<in># dom_bag s' 0. 100 \<le> fst p)"
proof -
  obtain s where s: "sample_queued = Some s" "live {0, 1, 2} sample_rank (100 + 3) 10 [] (s\<lparr>csLimit := 100, inCSim := True\<rparr>)"
      "time_ok s" "0 < length (domains s)" "lastLimit s = 0" "curBlock (dd_pq (domains s ! 0)) = 0" "logVec s = []"
    using sample_live by auto
  obtain s' w' where r: "simulatePhase sample_sim 100 (s, ()) = Some (s', w')"
    using simulatePhase_live [OF sample_prompt s(2), of "()"] s(5) by auto
  from weave_phase_in_time_order [OF s(3,4) _ r] s(6,7) show ?thesis using s(1) r by auto
qed

text \<open>C16: a weave phase ends. Let the simulated components answer every event with \<^verbatim>\<open>done\<close> within \<open>D\<close> cycles, and let the event
  graph be scheduled consistently: counters equal to the number of unfinished parents, minimum start cycles that follow the
  edges, delays small against the horizon asserted by \<^verbatim>\<open>enqueue\<close>. Then \<^verbatim>\<open>simulatePhase\<close> returns, with none of its assertions
  failing, for every limit and every chain of delay events, and the counters again equal the number of unfinished parents.\<close>

theorem weave_phase_returns:
  assumes "prompt sim D" "live V r (lim + D) lo [] (s\<lparr>csLimit := lim, inCSim := True\<rparr>)" "lastLimit s \<le> curCycle (domains s ! 0)" "lastLimit s \<le> lim"
  shows "\<exists>s' w'. simulatePhase sim lim (s, w) = Some (s', w') \<and> lastLimit s' = lim \<and> \<not> inCSim s'
    \<and> (\<forall>e \<in> V. numParents (heap s' e) = (\<Sum>p \<in> undone V s'. count_list (kids_of (heap s' p)) e))"
  using simulatePhase_live [OF assms, of w] by (auto simp: counts_ok_def)

theorem weave_phase_returns_witness:
  "\<exists>s s' w'. sample_queued = Some s \<and> simulatePhase sample_sim 100 (s, ()) = Some (s', w') \<and> lastLimit s' = 100"
proof -
  obtain s where s: "sample_queued = Some s" "live {0, 1, 2} sample_rank (100 + 3) 10 [] (s\<lparr>csLimit := 100, inCSim := True\<rparr>)" "lastLimit s = 0"
    using sample_live by auto
  from weave_phase_returns [OF sample_prompt s(2), of "()"] s show ?thesis by auto
qed

text \<open>C17: children are stored and visited faithfully. Give an event that has no children yet any list of children that have
  not started and have none of their own, repetitions allowed: \<^verbatim>\<open>addChild\<close> accepts them all, \<^verbatim>\<open>visitChildren\<close> then visits
  exactly these children with their multiplicities (its assertion on the count holds for one child, within a block and across
  block boundaries), and each child counts one parent more per occurrence.\<close>

theorem children_round_trip:
  assumes "te_state (heap s p) = EV_NONE" "te_kids (heap s p) = NoChild" "numChildren (heap s p) = 0" "\<forall>c \<in> set cs. fresh_child p s c"
  shows "\<exists>s' vs. addChildren p cs s = Some s' \<and> visitChildren (heap s' p) = Some vs \<and> mset vs = mset cs
    \<and> (\<forall>x. numParents (heap s' x) = numParents (heap s x) + count_list cs x)"
proof -
  have "open_parent p {#} s" using assms(1-3) by (simp add: open_parent_def kids_ok_def)
  from addChildren_ok [OF this assms(4)] obtain s' where s': "addChildren p cs s = Some s'" "open_parent p (mset cs) s'"
      "\<forall>x. numParents (heap s' x) = numParents (heap s x) + count_list cs x" by auto
  then show ?thesis using visitChildren_ok unfolding open_parent_def by blast
qed

theorem children_round_trip_witness:
  "\<exists>s' vs. addChildren 0 [1, 2, 3, 2, 4] (csim_new sample_heap 10000) = Some s' \<and> visitChildren (heap s' 0) = Some vs
     \<and> mset vs = {#1, 2, 2, 3, 4#} \<and> numParents (heap s' 2) = 2"
proof -
  have "\<exists>s' vs. addChildren 0 [1, 2, 3, 2, 4] (csim_new sample_heap 10000) = Some s' \<and> visitChildren (heap s' 0) = Some vs
     \<and> mset vs = mset [1, 2, 3, 2, 4] \<and> (\<forall>x. numParents (heap s' x) = numParents (heap (csim_new sample_heap 10000) x) + count_list [1, 2, 3, 2, 4] x)"
    by (rule children_round_trip) (auto simp: csim_new_def sample_heap_def TimingEvent_new_def fresh_child_def)
  then show ?thesis by (auto simp: csim_new_def sample_heap_def TimingEvent_new_def)
qed

end
