(* ===== verification/Barrier.thy ===== *)
theory Barrier
  imports MTRand
begin

text \<open>
  The phase barrier of \<^verbatim>\<open>src/src/barrier.h\<close>: threads join, synchronise at the end of a phase and leave; at most
  \<^verbatim>\<open>parallelThreads\<close> of them run at a time. Every operation runs under the scheduler lock up to the point where its thread
  blocks on its futex, so an operation is one atomic step here; a thread that is \<open>WAITING\<close> afterwards sleeps until another
  step makes it \<open>RUNNING\<close>. The callback at the end of a phase is a parameter that acts on the scheduler's state.
\<close>

subsection \<open>State\<close>

datatype BState = OFFLINE | WAITING | RUNNING | LEFT

definition MAX_THREADS :: nat where "MAX_THREADS = 2048"

record ThreadSyncInfo =
  ts_state :: BState
  futexWord :: nat
  lastIdx :: nat

record Barrier =
  parallelThreads :: nat
  threadList :: "ThreadSyncInfo list"
  runList :: "nat list"
  runListSize :: nat
  curThreadIdx :: nat
  runningThreads :: nat
  leftThreads :: nat
  phaseCount :: nat
  bar_rnd :: MTRand

text \<open>The constructor leaves \<^verbatim>\<open>lastIdx\<close> as the allocation has it (\<open>junk\<close>).\<close>

definition Barrier_new :: "(nat \<Rightarrow> nat) \<Rightarrow> nat \<Rightarrow> Barrier" where
  "Barrier_new junk parallel = \<lparr>parallelThreads = parallel,
     threadList = map (\<lambda>t. \<lparr>ts_state = OFFLINE, futexWord = 0, lastIdx = junk t\<rparr>) [0..<MAX_THREADS],
     runList = replicate MAX_THREADS 0, runListSize = 0, curThreadIdx = 0, runningThreads = 0, leftThreads = 0,
     phaseCount = 0, bar_rnd = mt_seed 0xBA77137\<rparr>"

definition state_of :: "Barrier \<Rightarrow> nat \<Rightarrow> BState" where
  "state_of b t = ts_state (threadList b ! t)"

definition set_thread :: "nat \<Rightarrow> (ThreadSyncInfo \<Rightarrow> ThreadSyncInfo) \<Rightarrow> Barrier \<Rightarrow> Barrier" where
  "set_thread t f b = b\<lparr>threadList := (threadList b)[t := f (threadList b ! t)]\<rparr>"

definition set_slot :: "nat \<Rightarrow> nat \<Rightarrow> Barrier \<Rightarrow> Barrier" where
  "set_slot i t b = b\<lparr>runList := (runList b)[i := t]\<rparr>"

subsection \<open>Waking threads\<close>

text \<open>The body of the loop of \<^verbatim>\<open>checkRunList\<close>; a failed compare-and-swap panics.\<close>

definition wake_at :: "nat \<Rightarrow> Barrier \<Rightarrow> Barrier option" where
  "wake_at idx b = (let wtid = runList b ! idx in
     if state_of b wtid = WAITING then do {
       assert_that (futexWord (threadList b ! wtid) = 1);
       Some ((set_thread wtid (\<lambda>th. th\<lparr>ts_state := RUNNING, lastIdx := idx, futexWord := 0\<rparr>) b)
         \<lparr>curThreadIdx := Suc idx, runningThreads := Suc (runningThreads b)\<rparr>) }
     else Some (b\<lparr>curThreadIdx := Suc idx\<rparr>))"

fun checkRunList_loop :: "nat \<Rightarrow> Barrier \<Rightarrow> Barrier option" where
  "checkRunList_loop 0 b = Some b"
| "checkRunList_loop (Suc k) b =
     (if runningThreads b < parallelThreads b \<and> curThreadIdx b < runListSize b
      then do { b' \<leftarrow> wake_at (curThreadIdx b) b; checkRunList_loop k b' } else Some b)"

text \<open>Every turn advances \<^verbatim>\<open>curThreadIdx\<close>, so as many turns as entries are left are enough.\<close>

definition checkRunList :: "Barrier \<Rightarrow> Barrier option" where
  "checkRunList b = checkRunList_loop (runListSize b - curThreadIdx b) b"

subsection \<open>The end of a phase\<close>

text \<open>The cleanup pass: threads that left go offline and their entries are filled from the end.\<close>

function cleanup :: "nat \<Rightarrow> nat \<Rightarrow> Barrier \<Rightarrow> nat \<times> Barrier" where
  "cleanup idx newSize b =
     (if idx < newSize then
        let wtid = runList b ! idx in
        if state_of b wtid = LEFT then
          let b1 = set_thread wtid (\<lambda>th. th\<lparr>ts_state := OFFLINE\<rparr>) b;
              stid = runList b1 ! (newSize - 1);
              b2 = set_slot idx stid b1;
              b3 = set_thread stid (\<lambda>th. th\<lparr>lastIdx := idx\<rparr>) b2
          in cleanup idx (newSize - 1) b3
        else cleanup (Suc idx) newSize b
      else (newSize, b))"
  by pat_completeness auto

termination
  by (relation "measure (\<lambda>(idx, newSize, b). newSize - idx)") auto

declare cleanup.simps [simp del]

text \<open>Fisher-Yates, from the last entry down to the second.\<close>

definition swap_slots :: "nat \<Rightarrow> nat \<Rightarrow> Barrier \<Rightarrow> Barrier" where
  "swap_slots i j b = (let itid = runList b ! i; jtid = runList b ! j
     in set_thread jtid (\<lambda>th. th\<lparr>lastIdx := i\<rparr>) (set_thread itid (\<lambda>th. th\<lparr>lastIdx := j\<rparr>)
          (set_slot j itid (set_slot i jtid b))))"

fun shuffle :: "nat \<Rightarrow> Barrier \<Rightarrow> Barrier option" where
  "shuffle 0 b = Some b"
| "shuffle (Suc i) b = do {
     (j, g) \<leftarrow> randInt_n (of_nat (Suc i)) (bar_rnd b);
     shuffle i (swap_slots (Suc i) (unat j) (b\<lparr>bar_rnd := g\<rparr>)) }"

text \<open>One phase out of 32 runs the cleanup pass; the run list is shuffled when not every thread runs at once.\<close>

definition cleanupPass :: "Barrier \<Rightarrow> Barrier option" where
  "cleanupPass b = do {
     assert_that (runListSize b > 0);
     let (newSize, b') = cleanup 0 (runListSize b) b;
     assert_that (runListSize b' - newSize = leftThreads b');
     Some (b'\<lparr>leftThreads := 0, runListSize := newSize\<rparr>) }"

definition reorder :: "Barrier \<Rightarrow> Barrier option" where
  "reorder b = (if parallelThreads b < runListSize b then shuffle (runListSize b - 1) b else Some b)"

definition checkEndPhase :: "('w \<Rightarrow> 'w option) \<Rightarrow> Barrier \<times> 'w \<Rightarrow> (Barrier \<times> 'w) option" where
  "checkEndPhase callback bw = (case bw of (b, w) \<Rightarrow>
     if curThreadIdx b = runListSize b \<and> runningThreads b = 0 then
       if leftThreads b = runListSize b then Some (b, w)
       else do {
         w' \<leftarrow> callback w;
         b2 \<leftarrow> (if phaseCount b mod 32 = 0 then cleanupPass else Some) (b\<lparr>curThreadIdx := 0, phaseCount := Suc (phaseCount b)\<rparr>);
         b3 \<leftarrow> reorder b2;
         Some (b3, w') }
     else Some (b, w))"

definition tryWakeNext :: "('w \<Rightarrow> 'w option) \<Rightarrow> Barrier \<times> 'w \<Rightarrow> (Barrier \<times> 'w) option" where
  "tryWakeNext callback bw = do {
     b1 \<leftarrow> checkRunList (fst bw);
     (b2, w2) \<leftarrow> checkEndPhase callback (b1, snd bw);
     b3 \<leftarrow> checkRunList b2;
     Some (b3, w2) }"

subsection \<open>Operations\<close>

text \<open>\<^verbatim>\<open>join\<close> up to the call of \<^verbatim>\<open>tryWakeNext\<close>: a thread that left in this phase swaps places with the last thread reached.\<close>

definition bar_enter :: "nat \<Rightarrow> Barrier \<Rightarrow> Barrier option" where
  "bar_enter tid b = do {
     assert_that (state_of b tid = LEFT \<or> state_of b tid = OFFLINE);
     b1 \<leftarrow> (if state_of b tid = OFFLINE
            then Some ((set_slot (runListSize b) tid b)\<lparr>runListSize := Suc (runListSize b)\<rparr>)
            else do {
              let b0 = b\<lparr>leftThreads := leftThreads b - 1\<rparr>;
              let l = lastIdx (threadList b0 ! tid);
              if curThreadIdx b0 > l then do {
                let cur = curThreadIdx b0 - 1;
                assert_that (tid = runList b0 ! l);
                let otherTid = runList b0 ! cur;
                Some (set_thread tid (\<lambda>th. th\<lparr>lastIdx := cur\<rparr>) (set_thread otherTid (\<lambda>th. th\<lparr>lastIdx := l\<rparr>)
                  (set_slot cur tid (set_slot l otherTid (b0\<lparr>curThreadIdx := cur\<rparr>))))) }
              else Some b0 });
     Some (set_thread tid (\<lambda>th. th\<lparr>ts_state := WAITING, futexWord := 1\<rparr>) b1) }"

definition bar_join :: "('w \<Rightarrow> 'w option) \<Rightarrow> nat \<Rightarrow> Barrier \<times> 'w \<Rightarrow> (Barrier \<times> 'w) option" where
  "bar_join callback tid bw = do { b \<leftarrow> bar_enter tid (fst bw); tryWakeNext callback (b, snd bw) }"

definition bar_leave :: "('w \<Rightarrow> 'w option) \<Rightarrow> nat \<Rightarrow> Barrier \<times> 'w \<Rightarrow> (Barrier \<times> 'w) option" where
  "bar_leave callback tid bw = do {
     let b = fst bw;
     let b1 = (set_thread tid (\<lambda>th. th\<lparr>ts_state := LEFT\<rparr>) b)\<lparr>leftThreads := Suc (leftThreads b)\<rparr>;
     if state_of b tid = RUNNING
     then tryWakeNext callback (b1\<lparr>runningThreads := runningThreads b - 1\<rparr>, snd bw)
     else do { assert_that (state_of b tid = WAITING); Some (b1, snd bw) } }"

definition bar_sync :: "('w \<Rightarrow> 'w option) \<Rightarrow> nat \<Rightarrow> Barrier \<times> 'w \<Rightarrow> (Barrier \<times> 'w) option" where
  "bar_sync callback tid bw = do {
     let b = fst bw;
     assert_that (state_of b tid = RUNNING);
     tryWakeNext callback ((set_thread tid (\<lambda>th. th\<lparr>futexWord := 1, ts_state := WAITING\<rparr>) b)
       \<lparr>runningThreads := runningThreads b - 1\<rparr>, snd bw) }"

text \<open>The calls the scheduler makes: a thread leaves or synchronises while it runs.\<close>

inductive bar_step :: "('w \<Rightarrow> 'w option) \<Rightarrow> Barrier \<times> 'w \<Rightarrow> Barrier \<times> 'w \<Rightarrow> bool" for callback where
  bar_step_join: "tid < MAX_THREADS \<Longrightarrow> state_of b tid = LEFT \<or> state_of b tid = OFFLINE \<Longrightarrow>
     bar_join callback tid (b, w) = Some bw' \<Longrightarrow> bar_step callback (b, w) bw'"
| bar_step_leave: "tid < MAX_THREADS \<Longrightarrow> state_of b tid = RUNNING \<Longrightarrow>
     bar_leave callback tid (b, w) = Some bw' \<Longrightarrow> bar_step callback (b, w) bw'"
| bar_step_sync: "tid < MAX_THREADS \<Longrightarrow> state_of b tid = RUNNING \<Longrightarrow>
     bar_sync callback tid (b, w) = Some bw' \<Longrightarrow> bar_step callback (b, w) bw'"

subsection \<open>The invariant\<close>

definition cnt :: "BState \<Rightarrow> Barrier \<Rightarrow> nat" where
  "cnt s b = card {t. t < MAX_THREADS \<and> state_of b t = s}"

definition bar_shape :: "Barrier \<Rightarrow> bool" where
  "bar_shape b \<longleftrightarrow> length (threadList b) = MAX_THREADS \<and> length (runList b) = MAX_THREADS
     \<and> runListSize b \<le> MAX_THREADS
     \<and> (\<forall>i < runListSize b. runList b ! i < MAX_THREADS \<and> state_of b (runList b ! i) \<noteq> OFFLINE)
     \<and> (\<forall>i < runListSize b. \<forall>j < runListSize b. runList b ! i = runList b ! j \<longrightarrow> i = j)
     \<and> (\<forall>t < MAX_THREADS. state_of b t \<noteq> OFFLINE \<longrightarrow> (\<exists>i < runListSize b. runList b ! i = t))"

text \<open>The counters are exact, the bound on parallelism holds, threads not yet reached in this phase do not run, the
  recorded position of a thread that runs or left is right, and a waiting thread has its futex set.\<close>

definition bar_inv :: "Barrier \<Rightarrow> bool" where
  "bar_inv b \<longleftrightarrow> bar_shape b \<and> curThreadIdx b \<le> runListSize b \<and> 0 < parallelThreads b
     \<and> runningThreads b = cnt RUNNING b \<and> leftThreads b = cnt LEFT b \<and> runningThreads b \<le> parallelThreads b
     \<and> (\<forall>i < runListSize b. curThreadIdx b \<le> i \<longrightarrow> state_of b (runList b ! i) \<noteq> RUNNING)
     \<and> (\<forall>t < MAX_THREADS. state_of b t = RUNNING \<or> state_of b t = LEFT \<longrightarrow>
          lastIdx (threadList b ! t) < runListSize b \<and> runList b ! lastIdx (threadList b ! t) = t)
     \<and> (\<forall>t < MAX_THREADS. state_of b t = WAITING \<longrightarrow> futexWord (threadList b ! t) = 1)
     \<and> mt_wf (bar_rnd b)"

lemma set_thread_simps [simp]:
  "runList (set_thread t f b) = runList b" "runListSize (set_thread t f b) = runListSize b"
  "curThreadIdx (set_thread t f b) = curThreadIdx b" "runningThreads (set_thread t f b) = runningThreads b"
  "leftThreads (set_thread t f b) = leftThreads b" "parallelThreads (set_thread t f b) = parallelThreads b"
  "bar_rnd (set_thread t f b) = bar_rnd b" "phaseCount (set_thread t f b) = phaseCount b"
  "length (threadList (set_thread t f b)) = length (threadList b)"
  by (simp_all add: set_thread_def)

lemma set_slot_simps [simp]:
  "threadList (set_slot i t b) = threadList b" "runListSize (set_slot i t b) = runListSize b"
  "curThreadIdx (set_slot i t b) = curThreadIdx b" "runningThreads (set_slot i t b) = runningThreads b"
  "leftThreads (set_slot i t b) = leftThreads b" "parallelThreads (set_slot i t b) = parallelThreads b"
  "bar_rnd (set_slot i t b) = bar_rnd b" "phaseCount (set_slot i t b) = phaseCount b"
  "runList (set_slot i t b) = (runList b)[i := t]" "state_of (set_slot i t b) = state_of b"
  by (simp_all add: set_slot_def state_of_def [abs_def])

lemma thread_nth:
  "t < length (threadList b) \<Longrightarrow> threadList (set_thread t f b) ! t' = (if t' = t then f (threadList b ! t) else threadList b ! t')"
  by (simp add: set_thread_def)

lemma state_of_set_thread:
  "t < length (threadList b) \<Longrightarrow> state_of (set_thread t f b) t' = (if t' = t then ts_state (f (threadList b ! t)) else state_of b t')"
  by (simp add: state_of_def thread_nth)

lemma state_of_frame [simp]:
  "state_of (b\<lparr>curThreadIdx := c\<rparr>) = state_of b" "state_of (b\<lparr>runningThreads := c\<rparr>) = state_of b"
  "state_of (b\<lparr>leftThreads := c\<rparr>) = state_of b" "state_of (b\<lparr>runListSize := c\<rparr>) = state_of b"
  "state_of (b\<lparr>phaseCount := c\<rparr>) = state_of b" "state_of (b\<lparr>bar_rnd := g\<rparr>) = state_of b"
  by (simp_all add: state_of_def [abs_def])

lemma cnt_cong: "state_of b = state_of b' \<Longrightarrow> cnt s b = cnt s b'"
  by (simp add: cnt_def)

lemma cnt_move:
  assumes "t < MAX_THREADS" "state_of b t = s1" "s1 \<noteq> s2" "\<And>u. state_of b' u = (if u = t then s2 else state_of b u)"
  shows "Suc (cnt s1 b') = cnt s1 b" "cnt s2 b' = Suc (cnt s2 b)" "s \<noteq> s1 \<Longrightarrow> s \<noteq> s2 \<Longrightarrow> cnt s b' = cnt s b"
proof -
  let ?S = "\<lambda>s b. {t. t < MAX_THREADS \<and> state_of b t = s}"
  have "?S s1 b = insert t (?S s1 b')" "t \<notin> ?S s1 b'" using assms by auto
  then show "Suc (cnt s1 b') = cnt s1 b" by (simp add: cnt_def)
  have "?S s2 b' = insert t (?S s2 b)" "t \<notin> ?S s2 b" using assms by auto
  then show "cnt s2 b' = Suc (cnt s2 b)" by (simp add: cnt_def)
  assume "s \<noteq> s1" "s \<noteq> s2"
  then have "?S s b' = ?S s b" using assms by auto
  then show "cnt s b' = cnt s b" by (simp add: cnt_def)
qed

lemma cnt_slots:
  assumes "bar_shape b" "s \<noteq> OFFLINE"
  shows "cnt s b = card {i. i < runListSize b \<and> state_of b (runList b ! i) = s}"
proof -
  have "bij_betw ((!) (runList b)) {i. i < runListSize b \<and> state_of b (runList b ! i) = s} {t. t < MAX_THREADS \<and> state_of b t = s}"
    using assms unfolding bij_betw_def inj_on_def bar_shape_def by auto
  then show ?thesis by (simp add: cnt_def bij_betw_same_card)
qed

lemma cnt_total:
  assumes "bar_shape b"
  shows "runListSize b = cnt WAITING b + cnt RUNNING b + cnt LEFT b"
proof -
  let ?A = "\<lambda>s. {i. i < runListSize b \<and> state_of b (runList b ! i) = s}"
  have "{..<runListSize b} = ?A WAITING \<union> ?A RUNNING \<union> ?A LEFT"
    using assms by (auto simp: bar_shape_def) (metis BState.exhaust)
  then have "runListSize b = card (?A WAITING \<union> ?A RUNNING \<union> ?A LEFT)" by (metis card_lessThan)
  also have "\<dots> = card (?A WAITING) + card (?A RUNNING) + card (?A LEFT)"
    by (subst card_Un_disjoint; (subst card_Un_disjoint)?) auto
  finally show ?thesis using cnt_slots [OF assms] by simp
qed

lemma cnt_zero: "cnt s b = 0 \<longleftrightarrow> (\<forall>t < MAX_THREADS. state_of b t \<noteq> s)"
  by (auto simp: cnt_def)

lemma bar_shape_cong:
  assumes "bar_shape b" "\<And>u. state_of b' u = OFFLINE \<longleftrightarrow> state_of b u = OFFLINE" "runList b' = runList b"
    "runListSize b' = runListSize b" "length (threadList b') = length (threadList b)"
  shows "bar_shape b'"
  using assms by (simp add: bar_shape_def)

subsection \<open>Waking keeps the invariant\<close>

lemma wake_at_inv:
  assumes "bar_inv b" "runningThreads b < parallelThreads b" "curThreadIdx b < runListSize b"
  shows "\<exists>b'. wake_at (curThreadIdx b) b = Some b' \<and> bar_inv b' \<and> curThreadIdx b' = Suc (curThreadIdx b)
    \<and> runListSize b' = runListSize b \<and> parallelThreads b' = parallelThreads b \<and> cnt LEFT b' = cnt LEFT b
    \<and> cnt RUNNING b \<le> cnt RUNNING b' \<and> (state_of b (runList b ! curThreadIdx b) = WAITING \<longrightarrow> 0 < cnt RUNNING b')
    \<and> runList b' = runList b
    \<and> (\<forall>t. state_of b' t = state_of b t \<or> state_of b t = WAITING \<and> state_of b' t = RUNNING \<and> t = runList b ! curThreadIdx b)"
proof -
  note inv = assms(1) [unfolded bar_inv_def] note shape = conjunct1 [OF inv, unfolded bar_shape_def]
  let ?i = "curThreadIdx b" let ?t = "runList b ! ?i"
  have t: "?t < MAX_THREADS" "?t < length (threadList b)" using shape assms(3) by auto
  show ?thesis
  proof (cases "state_of b ?t = WAITING")
    case False
    then show ?thesis using inv assms(3)
      by (auto simp: wake_at_def Let_def bar_inv_def bar_shape_def Suc_le_eq cnt_def state_of_def)
  next
    case True
    define b1 where "b1 = set_thread ?t (\<lambda>th. th\<lparr>ts_state := RUNNING, lastIdx := ?i, futexWord := 0\<rparr>) b"
    define b' where "b' = b1\<lparr>curThreadIdx := Suc ?i, runningThreads := Suc (runningThreads b)\<rparr>"
    have w: "wake_at ?i b = Some b'" using True inv t by (simp add: wake_at_def Let_def b1_def b'_def)
    have st: "state_of b' u = (if u = ?t then RUNNING else state_of b u)" for u
      using t(2) by (simp add: b'_def b1_def state_of_set_thread)
    note c = cnt_move [OF t(1) True _ st]
    have th: "threadList b' ! u = (if u = ?t then (threadList b ! ?t)\<lparr>ts_state := RUNNING, lastIdx := ?i, futexWord := 0\<rparr>
        else threadList b ! u)" for u using t(2) by (simp add: b'_def b1_def thread_nth)
    have fr: "runList b' = runList b" "runListSize b' = runListSize b" "curThreadIdx b' = Suc ?i"
      "runningThreads b' = Suc (runningThreads b)" "leftThreads b' = leftThreads b" "parallelThreads b' = parallelThreads b"
      "bar_rnd b' = bar_rnd b" "length (threadList b') = length (threadList b)"
      by (simp_all add: b'_def b1_def)
    have "bar_shape b'"
      by (rule bar_shape_cong [OF conjunct1 [OF inv]]) (use True in \<open>auto simp: fr st\<close>)
    moreover have "\<forall>i < runListSize b'. curThreadIdx b' \<le> i \<longrightarrow> state_of b' (runList b' ! i) \<noteq> RUNNING"
      using inv shape assms(3) unfolding fr by (auto simp: st Suc_le_eq)
    ultimately have "bar_inv b'" using inv c assms(2,3) by (auto simp: bar_inv_def fr st th)
    then show ?thesis using w c fr st True by auto
  qed
qed

lemma checkRunList_loop_inv:
  assumes "bar_inv b" "runListSize b - curThreadIdx b \<le> k"
  shows "\<exists>b'. checkRunList_loop k b = Some b' \<and> bar_inv b' \<and> runListSize b' = runListSize b
    \<and> parallelThreads b' = parallelThreads b \<and> cnt LEFT b' = cnt LEFT b \<and> cnt RUNNING b \<le> cnt RUNNING b'
    \<and> (runningThreads b' = parallelThreads b' \<or> curThreadIdx b' = runListSize b')
    \<and> ((\<exists>i. curThreadIdx b \<le> i \<and> i < runListSize b \<and> state_of b (runList b ! i) = WAITING) \<longrightarrow> 0 < cnt RUNNING b')"
  using assms
proof (induction k arbitrary: b)
  case 0
  then show ?case by (auto simp: bar_inv_def)
next
  case (Suc k)
  show ?case
  proof (cases "runningThreads b < parallelThreads b \<and> curThreadIdx b < runListSize b")
    case True
    obtain b1 where w: "wake_at (curThreadIdx b) b = Some b1" "bar_inv b1" "curThreadIdx b1 = Suc (curThreadIdx b)"
        "runListSize b1 = runListSize b" "parallelThreads b1 = parallelThreads b" "cnt LEFT b1 = cnt LEFT b"
        "cnt RUNNING b \<le> cnt RUNNING b1" "state_of b (runList b ! curThreadIdx b) = WAITING \<longrightarrow> 0 < cnt RUNNING b1"
        "runList b1 = runList b"
        "\<forall>t. state_of b1 t = state_of b t \<or> state_of b t = WAITING \<and> state_of b1 t = RUNNING \<and> t = runList b ! curThreadIdx b"
      using wake_at_inv [OF Suc.prems(1)] True by blast
    have less: "runListSize b1 - curThreadIdx b1 \<le> k" using w(3,4) Suc.prems(2) by linarith
    obtain b' where b': "checkRunList_loop k b1 = Some b'" "bar_inv b'" "runListSize b' = runListSize b1"
        "parallelThreads b' = parallelThreads b1" "cnt LEFT b' = cnt LEFT b1" "cnt RUNNING b1 \<le> cnt RUNNING b'"
        "runningThreads b' = parallelThreads b' \<or> curThreadIdx b' = runListSize b'"
        "(\<exists>i. curThreadIdx b1 \<le> i \<and> i < runListSize b1 \<and> state_of b1 (runList b1 ! i) = WAITING) \<longrightarrow> 0 < cnt RUNNING b'"
      using Suc.IH [OF w(2) less] by blast
    have "0 < cnt RUNNING b'" if i: "curThreadIdx b \<le> i" "i < runListSize b" "state_of b (runList b ! i) = WAITING" for i
    proof (cases "state_of b (runList b ! curThreadIdx b) = WAITING")
      case True
      then show ?thesis using w(8) b'(6) by linarith
    next
      case False
      then have "i \<noteq> curThreadIdx b" using i by auto
      moreover have "state_of b1 (runList b1 ! i) = WAITING" using w(9,10) i(3) False by metis
      ultimately show ?thesis using b'(8) w(3,4) i(1,2) by (metis Suc_leI le_neq_implies_less)
    qed
    then show ?thesis using True w b' by auto
  next
    case False
    have "0 < cnt RUNNING b" if "curThreadIdx b < runListSize b"
      using False that Suc.prems(1) by (auto simp: bar_inv_def)
    then show ?thesis using False Suc.prems(1) by (auto simp: bar_inv_def)
  qed
qed

lemma checkRunList_inv:
  assumes "bar_inv b"
  shows "\<exists>b'. checkRunList b = Some b' \<and> bar_inv b' \<and> runListSize b' = runListSize b
    \<and> parallelThreads b' = parallelThreads b \<and> cnt LEFT b' = cnt LEFT b \<and> cnt RUNNING b \<le> cnt RUNNING b'
    \<and> (runningThreads b' = parallelThreads b' \<or> curThreadIdx b' = runListSize b')
    \<and> ((\<exists>i. curThreadIdx b \<le> i \<and> i < runListSize b \<and> state_of b (runList b ! i) = WAITING) \<longrightarrow> 0 < cnt RUNNING b')"
  unfolding checkRunList_def by (rule checkRunList_loop_inv [OF assms order_refl])

subsection \<open>Ending a phase keeps the invariant\<close>

definition clean_ok :: "nat \<Rightarrow> nat \<Rightarrow> Barrier \<Rightarrow> bool" where
  "clean_ok idx m b \<longleftrightarrow> bar_shape (b\<lparr>runListSize := m\<rparr>) \<and> idx \<le> m \<and> (\<forall>i < idx. state_of b (runList b ! i) \<noteq> LEFT)"

lemma clean_step:
  assumes "clean_ok idx m b" "idx < m" "state_of b (runList b ! idx) = LEFT"
    and b1: "b1 = set_thread (runList b ! idx) (\<lambda>th. th\<lparr>ts_state := OFFLINE\<rparr>) b"
    and b3: "b3 = set_thread (runList b ! (m - 1)) (\<lambda>th. th\<lparr>lastIdx := idx\<rparr>) (set_slot idx (runList b ! (m - 1)) b1)"
  shows "clean_ok idx (m - 1) b3" "Suc (cnt LEFT b3) = cnt LEFT b"
    "state_of b3 u = (if u = runList b ! idx then OFFLINE else state_of b u)"
    "futexWord (threadList b3 ! u) = futexWord (threadList b ! u)"
proof -
  let ?w = "runList b ! idx" and ?s = "runList b ! (m - 1)"
  note shape = conjunct1 [OF assms(1) [unfolded clean_ok_def], unfolded bar_shape_def, simplified]
  have m: "m - 1 < m" "m \<le> MAX_THREADS" using assms(2) shape by auto
  have w: "?w < length (threadList b)" and s: "?s < length (threadList b1)" and i: "idx < length (runList b)"
    using shape assms(2) m b1 by auto
  have st: "state_of b3 u = (if u = ?w then OFFLINE else state_of b u)" for u
  proof -
    have "state_of b3 u = state_of b1 u"
      using s unfolding b3 by (simp add: state_of_def thread_nth)
    then show ?thesis using w unfolding b1 by (simp add: state_of_set_thread)
  qed
  show "state_of b3 u = (if u = ?w then OFFLINE else state_of b u)" by (rule st)
  show "futexWord (threadList b3 ! u) = futexWord (threadList b ! u)"
    using w s unfolding b3 b1 by (simp add: thread_nth)
  have wmax: "?w < MAX_THREADS" using shape assms(2) by blast
  show "Suc (cnt LEFT b3) = cnt LEFT b" using cnt_move(1) [OF wmax assms(3) _ st] by simp
  have rl: "runList b3 = (runList b)[idx := ?s]" unfolding b3 b1 by simp
  have at: "runList b3 ! j = (if j = idx then ?s else runList b ! j)" for j using i unfolding rl by (simp add: nth_list_update)
  have inj: "runList b ! j = runList b ! k \<Longrightarrow> j < m \<Longrightarrow> k < m \<Longrightarrow> j = k" for j k using shape by blast
  have cover: "\<exists>j < m - 1. runList b3 ! j = t" if t: "t < MAX_THREADS" "state_of b3 t \<noteq> OFFLINE" for t
  proof -
    have "t \<noteq> ?w" "state_of b t \<noteq> OFFLINE" using t(2) st by (auto split: if_splits)
    then obtain j where j: "j < m" "runList b ! j = t" using shape t(1) by blast
    then have "j \<noteq> idx" using \<open>t \<noteq> ?w\<close> by auto
    show ?thesis
    proof (cases "j = m - 1")
      case True
      then have "idx < m - 1" using \<open>j \<noteq> idx\<close> assms(2) by simp
      then show ?thesis using at j(2) True by auto
    next
      case False
      then show ?thesis using at j \<open>j \<noteq> idx\<close> by (intro exI [of _ j]) auto
    qed
  qed
  have pos: "runList b3 ! j < MAX_THREADS \<and> state_of b3 (runList b3 ! j) \<noteq> OFFLINE" if "j < m - 1" for j
  proof (cases "j = idx")
    case True
    then have "?s \<noteq> ?w" using inj [of "m - 1" idx] that m assms(2) by auto
    then show ?thesis using True at st shape m(1) by simp
  next
    case False
    moreover have "j < m" using that by linarith
    ultimately have "runList b ! j \<noteq> ?w" using inj [of j idx] assms(2) by auto
    then show ?thesis using False at st shape \<open>j < m\<close> by simp
  qed
  have dist: "j = k" if "j < m - 1" "k < m - 1" "runList b3 ! j = runList b3 ! k" for j k
  proof -
    have lt: "j < m" "k < m" "j \<noteq> m - 1" "k \<noteq> m - 1" using that by linarith+
    consider "j = idx" "k = idx" | "j = idx" "k \<noteq> idx" | "j \<noteq> idx" "k = idx" | "j \<noteq> idx" "k \<noteq> idx" by blast
    then show ?thesis
    proof cases
      case 2
      then have "?s = runList b ! k" using that(3) at [of j] at [of k] by simp
      then show ?thesis using inj [OF _ m(1) lt(2)] lt(4) by metis
    next
      case 3
      then have "runList b ! j = ?s" using that(3) at [of j] at [of k] by simp
      then show ?thesis using inj [OF _ lt(1) m(1)] lt(3) by metis
    next
      case 4
      then have "runList b ! j = runList b ! k" using that(3) at [of j] at [of k] by simp
      then show ?thesis using inj lt(1,2) by metis
    qed simp
  qed
  have "bar_shape (b3\<lparr>runListSize := m - 1\<rparr>)"
    using shape m pos dist cover rl unfolding bar_shape_def by (simp add: b3 b1)
  moreover have "\<forall>j < idx. state_of b3 (runList b3 ! j) \<noteq> LEFT"
    using assms(1) at st by (auto simp: clean_ok_def)
  ultimately show "clean_ok idx (m - 1) b3" using assms(2) by (simp add: clean_ok_def)
qed

definition clean_one :: "nat \<Rightarrow> nat \<Rightarrow> Barrier \<Rightarrow> Barrier" where
  "clean_one idx m b = set_thread (runList b ! (m - 1)) (\<lambda>th. th\<lparr>lastIdx := idx\<rparr>) (set_slot idx (runList b ! (m - 1))
     (set_thread (runList b ! idx) (\<lambda>th. th\<lparr>ts_state := OFFLINE\<rparr>) b))"

lemma cleanup_cases:
  "\<not> idx < m \<Longrightarrow> cleanup idx m b = (m, b)"
  "idx < m \<Longrightarrow> state_of b (runList b ! idx) \<noteq> LEFT \<Longrightarrow> cleanup idx m b = cleanup (Suc idx) m b"
  "idx < m \<Longrightarrow> state_of b (runList b ! idx) = LEFT \<Longrightarrow> cleanup idx m b = cleanup idx (m - 1) (clean_one idx m b)"
  by (subst cleanup.simps, simp add: Let_def clean_one_def)+

definition same_counters :: "Barrier \<Rightarrow> Barrier \<Rightarrow> bool" where
  "same_counters b b' \<longleftrightarrow> runListSize b' = runListSize b \<and> curThreadIdx b' = curThreadIdx b
     \<and> runningThreads b' = runningThreads b \<and> leftThreads b' = leftThreads b \<and> parallelThreads b' = parallelThreads b
     \<and> bar_rnd b' = bar_rnd b"

lemma cleanup_result:
  "clean_ok idx m b \<Longrightarrow> \<exists>m' b'. cleanup idx m b = (m', b') \<and> clean_ok m' m' b' \<and> m' \<le> m \<and> m - m' = cnt LEFT b
     \<and> (\<forall>u. state_of b' u = (if state_of b u = LEFT \<and> u < MAX_THREADS then OFFLINE else state_of b u))
     \<and> (\<forall>u. futexWord (threadList b' ! u) = futexWord (threadList b ! u)) \<and> same_counters b b'"
proof (induction "m - idx" arbitrary: idx m b rule: less_induct)
  case less
  consider "idx < m" "state_of b (runList b ! idx) = LEFT" | "idx < m" "state_of b (runList b ! idx) \<noteq> LEFT" | "\<not> idx < m"
    by blast
  then show ?case
  proof cases
    case 1
    let ?b3 = "clean_one idx m b"
    note step = clean_step [OF less.prems 1 refl refl, folded clean_one_def]
    have w: "runList b ! idx < MAX_THREADS" using less.prems 1(1) by (auto simp: clean_ok_def bar_shape_def)
    have lt: "m - 1 - idx < m - idx" using 1(1) by linarith
    obtain m' b' where b': "cleanup idx (m - 1) ?b3 = (m', b')" "clean_ok m' m' b'" "m' \<le> m - 1" "m - 1 - m' = cnt LEFT ?b3"
        "\<forall>u. state_of b' u = (if state_of ?b3 u = LEFT \<and> u < MAX_THREADS then OFFLINE else state_of ?b3 u)"
        "\<forall>u. futexWord (threadList b' ! u) = futexWord (threadList ?b3 ! u)" "same_counters ?b3 b'"
      using less.hyps [OF lt step(1)] by blast
    have "m - m' = cnt LEFT b" using b'(3,4) step(2) 1(1) by linarith
    moreover have "same_counters b b'" using b'(7) by (simp add: same_counters_def clean_one_def)
    moreover have "state_of b' u = (if state_of b u = LEFT \<and> u < MAX_THREADS then OFFLINE else state_of b u)" for u
      using b'(5) step(3) 1(2) w by auto
    ultimately show ?thesis using b' step(4) cleanup_cases(3) [OF 1] by auto
  next
    case 2
    then have "clean_ok (Suc idx) m b" using less.prems by (auto simp: clean_ok_def less_Suc_eq)
    then show ?thesis using less.hyps [of m "Suc idx" b] 2 cleanup_cases(2) [OF 2] by auto
  next
    case 3
    then have "idx = m" using less.prems by (simp add: clean_ok_def)
    have "cnt LEFT b = 0"
      unfolding cnt_zero
    proof (intro allI impI)
      fix t assume t: "t < MAX_THREADS"
      show "state_of b t \<noteq> LEFT"
        using less.prems t \<open>idx = m\<close> unfolding clean_ok_def bar_shape_def by (auto dest: spec [of _ t])
    qed
    then show ?thesis using less.prems 3 \<open>idx = m\<close> cleanup_cases(1) [OF 3] by (auto simp: same_counters_def cnt_zero)
  qed
qed

text \<open>One swap of the shuffle, and the whole shuffle, with no thread running.\<close>

lemma swap_slots_inv:
  assumes "bar_inv b" "i < runListSize b" "j < runListSize b" "mt_wf g" "c \<le> runListSize b"
    and b': "b' = swap_slots i j (b\<lparr>bar_rnd := g, curThreadIdx := c\<rparr>)"
    and nr: "\<And>k. c \<le> k \<Longrightarrow> k < runListSize b \<Longrightarrow> state_of b (runList b' ! k) \<noteq> RUNNING"
  shows "bar_inv b'" "state_of b' = state_of b" "runListSize b' = runListSize b" "curThreadIdx b' = c"
    "parallelThreads b' = parallelThreads b"
proof -
  let ?it = "runList b ! i" and ?jt = "runList b ! j"
  note inv = assms(1) [unfolded bar_inv_def] note shape = conjunct1 [OF inv, unfolded bar_shape_def]
  have len: "?it < length (threadList b)" "?jt < length (threadList b)" "i < length (runList b)" "j < length (runList b)"
    using shape assms(2,3) by auto
  have th: "threadList b' ! u = (if u = ?jt then (threadList b ! u)\<lparr>lastIdx := i\<rparr>
      else if u = ?it then (threadList b ! u)\<lparr>lastIdx := j\<rparr> else threadList b ! u)" for u
    using len unfolding b' swap_slots_def by (simp add: Let_def thread_nth)
  have at: "runList b' ! k = (if k = j then ?it else if k = i then ?jt else runList b ! k)" for k
    using len unfolding b' swap_slots_def by (simp add: Let_def nth_list_update)
  show st: "state_of b' = state_of b" by (simp add: fun_eq_iff state_of_def th)
  have fr: "runListSize b' = runListSize b" "curThreadIdx b' = c" "parallelThreads b' = parallelThreads b"
    "length (threadList b') = length (threadList b)" "length (runList b') = length (runList b)" "bar_rnd b' = g"
    "runningThreads b' = runningThreads b" "leftThreads b' = leftThreads b"
    unfolding b' swap_slots_def by (simp_all add: Let_def)
  then show "runListSize b' = runListSize b" "curThreadIdx b' = c" "parallelThreads b' = parallelThreads b"
    by simp_all
  have inj: "runList b ! k = runList b ! l \<Longrightarrow> k < runListSize b \<Longrightarrow> l < runListSize b \<Longrightarrow> k = l" for k l
    using shape by blast
  have cover: "\<exists>k < runListSize b. runList b' ! k = t" if t: "t < MAX_THREADS" "state_of b t \<noteq> OFFLINE" for t
  proof -
    obtain k where k: "k < runListSize b" "runList b ! k = t" using shape t by blast
    define l where "l = (if k = i then j else if k = j then i else k)"
    have "runList b' ! l = t" using at [of l] k(2) unfolding l_def by (auto split: if_splits)
    moreover have "l < runListSize b" using k(1) assms(2,3) by (simp add: l_def)
    ultimately show ?thesis by blast
  qed
  have "bar_shape b'"
    unfolding bar_shape_def fr st
    using shape cover inj [of i] inj [of j] inj [of _ i] inj [of _ j] assms(2,3) by (auto simp: at)
  moreover have "lastIdx (threadList b' ! t) < runListSize b \<and> runList b' ! lastIdx (threadList b' ! t) = t"
    if t: "t < MAX_THREADS" "state_of b t = RUNNING \<or> state_of b t = LEFT" for t
  proof -
    have l: "lastIdx (threadList b ! t) < runListSize b" "runList b ! lastIdx (threadList b ! t) = t" using inv t by blast+
    then have "lastIdx (threadList b ! t) \<noteq> i" if "t \<noteq> ?it" using that by auto
    moreover have "lastIdx (threadList b ! t) \<noteq> j" if "t \<noteq> ?jt" using l that by auto
    ultimately show ?thesis using l assms(2,3) inj [of i j] by (auto simp: th at)
  qed
  ultimately show "bar_inv b'"
    using inv assms(4,5) nr cnt_cong [OF st] unfolding bar_inv_def fr st by (auto simp: th)
qed

lemma shuffle_inv:
  "bar_inv b \<Longrightarrow> cnt RUNNING b = 0 \<Longrightarrow> i < runListSize b \<Longrightarrow> shuffle i b = Some b' \<Longrightarrow>
     bar_inv b' \<and> state_of b' = state_of b \<and> runListSize b' = runListSize b \<and> curThreadIdx b' = curThreadIdx b
     \<and> parallelThreads b' = parallelThreads b"
proof (induction i arbitrary: b)
  case (Suc i)
  obtain j g where j: "randInt_n (of_nat (Suc i)) (bar_rnd b) = Some (j, g)"
      "shuffle i (swap_slots (Suc i) (unat j) (b\<lparr>bar_rnd := g\<rparr>)) = Some b'"
    using Suc.prems(4) by (auto simp: bind_Some_conv)
  let ?b1 = "swap_slots (Suc i) (unat j) (b\<lparr>bar_rnd := g\<rparr>)"
  have wf: "mt_wf (bar_rnd b)" and n: "runListSize b \<le> MAX_THREADS" using Suc.prems(1) by (auto simp: bar_inv_def bar_shape_def)
  have "j \<le> of_nat (Suc i)" "mt_wf g"
    using randInt_loop_result [OF j(1) [unfolded randInt_n_def] wf] by auto
  moreover have "unat (of_nat (Suc i) :: u64) = Suc i"
    using Suc.prems(3) n by (simp only: unsigned_of_nat MAX_THREADS_def) (simp add: take_bit_nat_eq_self)
  ultimately have jn: "unat j < runListSize b" "mt_wf g" using Suc.prems(3) by (metis le_less_trans word_le_nat_alt, simp)
  have cur: "curThreadIdx b \<le> runListSize b" "?b1 = swap_slots (Suc i) (unat j) (b\<lparr>bar_rnd := g, curThreadIdx := curThreadIdx b\<rparr>)"
    using Suc.prems(1) by (auto simp: bar_inv_def)
  have nr: "state_of b (runList ?b1 ! k) \<noteq> RUNNING" if "k < runListSize b" for k
  proof -
    have "runList ?b1 ! k \<in> (!) (runList b) ` {..<runListSize b}"
      using Suc.prems(1,3) jn(1) that by (auto simp: swap_slots_def Let_def nth_list_update bar_inv_def bar_shape_def)
    then show ?thesis using Suc.prems(1,2) unfolding cnt_zero bar_inv_def bar_shape_def by auto
  qed
  note sw = swap_slots_inv [OF Suc.prems(1,3) jn cur nr]
  have "cnt RUNNING ?b1 = 0" using cnt_cong [OF sw(2)] Suc.prems(2) by simp
  then show ?case using Suc.IH [OF sw(1) _ _ j(2)] sw Suc.prems(3) by auto
qed simp

text \<open>The cleanup pass of every thirty-second phase, then the whole end of a phase.\<close>

lemma cleanup_pass:
  assumes "bar_inv b" "curThreadIdx b = 0" "cnt RUNNING b = 0"
    and c: "cleanup 0 (runListSize b) b = (m, b1)" and b2: "b2 = b1\<lparr>leftThreads := 0, runListSize := m\<rparr>"
  shows "bar_inv b2" "runListSize b1 - m = leftThreads b1" "m = cnt WAITING b" "cnt WAITING b2 = cnt WAITING b"
    "cnt RUNNING b2 = 0" "curThreadIdx b2 = 0" "runListSize b2 = m" "parallelThreads b2 = parallelThreads b"
proof -
  note inv = assms(1) [unfolded bar_inv_def]
  have total: "runListSize b = cnt WAITING b + cnt LEFT b" using cnt_total [OF conjunct1 [OF inv]] assms(3) by simp
  have "clean_ok 0 (runListSize b) b" using inv by (simp add: clean_ok_def)
  then have r: "clean_ok m m b1" "m \<le> runListSize b" "runListSize b - m = cnt LEFT b" "same_counters b b1"
      "\<forall>u. state_of b1 u = (if state_of b u = LEFT \<and> u < MAX_THREADS then OFFLINE else state_of b u)"
      "\<forall>u. futexWord (threadList b1 ! u) = futexWord (threadList b ! u)"
    using cleanup_result [of 0 "runListSize b" b] c by auto
  have st: "state_of b2 u = (if state_of b u = LEFT \<and> u < MAX_THREADS then OFFLINE else state_of b u)" for u
    using r(5) by (simp add: b2)
  have no: "state_of b2 t \<noteq> RUNNING \<and> state_of b2 t \<noteq> LEFT" if "t < MAX_THREADS" for t
    using st that assms(3) unfolding cnt_zero by auto
  then have z: "cnt RUNNING b2 = 0" "cnt LEFT b2 = 0" unfolding cnt_zero by auto
  have shape: "bar_shape b2" using r(1) unfolding b2 clean_ok_def bar_shape_def by (auto simp: state_of_def)
  show m: "m = cnt WAITING b" using total r(2,3) by linarith
  show w: "cnt WAITING b2 = cnt WAITING b" unfolding cnt_def st by (rule arg_cong [of _ _ card]) auto
  show "runListSize b1 - m = leftThreads b1" using r(3,4) inv by (simp add: same_counters_def)
  show f: "curThreadIdx b2 = 0" "runListSize b2 = m" "parallelThreads b2 = parallelThreads b"
    using r(4) assms(2) by (simp_all add: b2 same_counters_def)
  have "futexWord (threadList b2 ! t) = 1" if "t < MAX_THREADS" "state_of b2 t = WAITING" for t
    using that inv r(6) st [of t] by (auto simp: b2 split: if_splits)
  moreover have "runningThreads b2 = 0" "mt_wf (bar_rnd b2)" "leftThreads b2 = 0" "0 < parallelThreads b2"
    using r(4) inv assms(3) by (simp_all add: b2 same_counters_def)
  moreover have "state_of b2 (runList b2 ! i) \<noteq> RUNNING" if "i < runListSize b2" for i
    using no shape that by (simp add: bar_shape_def)
  ultimately show "bar_inv b2" unfolding bar_inv_def using shape f no z by auto
  show "cnt RUNNING b2 = 0" by (rule z)
qed

definition ended :: "Barrier \<Rightarrow> bool" where
  "ended b \<longleftrightarrow> curThreadIdx b = runListSize b \<and> runningThreads b = 0 \<and> leftThreads b \<noteq> runListSize b"

lemma rewind_inv:
  assumes "bar_inv b" "ended b"
  shows "bar_inv (b\<lparr>curThreadIdx := 0, phaseCount := n\<rparr>)" "cnt RUNNING b = 0" "0 < cnt WAITING b"
proof -
  note inv = assms(1) [unfolded bar_inv_def]
  show z: "cnt RUNNING b = 0" using inv assms(2) by (simp add: ended_def)
  show "0 < cnt WAITING b" using cnt_total [OF conjunct1 [OF inv]] z inv assms(2) by (auto simp: ended_def)
  have "cnt s (b\<lparr>curThreadIdx := 0, phaseCount := n\<rparr>) = cnt s b" for s by (rule cnt_cong) simp
  note c = this
  have sh: "bar_shape (b\<lparr>curThreadIdx := 0, phaseCount := n\<rparr>)" using inv by (simp add: bar_shape_def)
  have nr: "\<forall>i < runListSize b. state_of b (runList b ! i) \<noteq> RUNNING"
    using z conjunct1 [OF inv] unfolding cnt_zero bar_shape_def by blast
  show "bar_inv (b\<lparr>curThreadIdx := 0, phaseCount := n\<rparr>)" using inv sh nr unfolding bar_inv_def c by simp
qed

lemma checkEndPhase_idle: "\<not> ended b \<Longrightarrow> checkEndPhase callback (b, w) = Some (b, w)"
  by (auto simp: checkEndPhase_def ended_def)

lemma checkEndPhase_inv:
  assumes "bar_inv b" "ended b" "checkEndPhase callback (b, w) = Some (b', w')"
  shows "bar_inv b'" "callback w = Some w'" "curThreadIdx b' = 0" "0 < cnt WAITING b'" "parallelThreads b' = parallelThreads b"
proof -
  let ?b1 = "b\<lparr>curThreadIdx := 0, phaseCount := Suc (phaseCount b)\<rparr>"
  note rw = rewind_inv [OF assms(1,2)]
  have c1: "cnt s ?b1 = cnt s b" for s by (rule cnt_cong) simp
  obtain b2 where b2: "callback w = Some w'" "(if phaseCount b mod 32 = 0 then cleanupPass else Some) ?b1 = Some b2"
      "reorder b2 = Some b'"
    using assms(2,3) by (auto simp: checkEndPhase_def ended_def bind_Some_conv simp del: if_split)
  show "callback w = Some w'" by (rule b2(1))
  obtain m bc where c: "cleanup 0 (runListSize ?b1) ?b1 = (m, bc)" by fastforce
  have z1: "cnt RUNNING ?b1 = 0" using c1 rw(2) by simp
  have b2': "bar_inv b2 \<and> cnt RUNNING b2 = 0 \<and> 0 < cnt WAITING b2 \<and> curThreadIdx b2 = 0 \<and> parallelThreads b2 = parallelThreads b"
  proof (cases "phaseCount b mod 32 = 0")
    case True
    then have "b2 = bc\<lparr>leftThreads := 0, runListSize := m\<rparr>"
      using b2(2) c by (auto simp: cleanupPass_def bind_Some_conv abort_simps split: if_splits)
    from cleanup_pass [OF rw(1) _ z1 c this] show ?thesis using c1 rw(3) by simp
  next
    case False
    then have "b2 = ?b1" using b2(2) by simp
    then show ?thesis using rw z1 c1 by simp
  qed
  have "bar_inv b' \<and> state_of b' = state_of b2 \<and> curThreadIdx b' = 0 \<and> parallelThreads b' = parallelThreads b"
  proof (cases "parallelThreads b2 < runListSize b2")
    case True
    then have "runListSize b2 - 1 < runListSize b2" "shuffle (runListSize b2 - 1) b2 = Some b'" using b2(3) by (auto simp: reorder_def)
    then show ?thesis using shuffle_inv [of b2 "runListSize b2 - 1" b'] b2' by auto
  qed (use b2' b2(3) in \<open>auto simp: reorder_def\<close>)
  then show "bar_inv b'" "curThreadIdx b' = 0" "0 < cnt WAITING b'" "parallelThreads b' = parallelThreads b"
    using b2' cnt_cong [of b' b2] by auto
qed

subsection \<open>The operations keep the invariant\<close>

definition progress :: "Barrier \<Rightarrow> bool" where
  "progress b \<longleftrightarrow> 0 < cnt WAITING b \<longrightarrow> 0 < cnt RUNNING b"

lemma waiting_slot:
  assumes "bar_shape b" "0 < cnt WAITING b"
  shows "\<exists>i < runListSize b. state_of b (runList b ! i) = WAITING"
  using assms(2) unfolding cnt_slots [OF assms(1) BState.distinct(2)] by (auto simp: card_gt_0_iff)

lemma tryWakeNext_inv:
  assumes "bar_inv b" "tryWakeNext callback (b, w) = Some (b', w')"
  shows "bar_inv b'" "progress b'" "parallelThreads b' = parallelThreads b"
    "\<exists>i. curThreadIdx b \<le> i \<and> i < runListSize b \<and> state_of b (runList b ! i) = WAITING \<Longrightarrow> w' = w"
proof -
  obtain b1 b2 where s: "checkRunList b = Some b1" "checkEndPhase callback (b1, w) = Some (b2, w')" "checkRunList b2 = Some b'"
    using assms(2) by (auto simp: tryWakeNext_def bind_Some_conv)
  have b1: "bar_inv b1" "parallelThreads b1 = parallelThreads b" "runningThreads b1 = parallelThreads b1 \<or> curThreadIdx b1 = runListSize b1"
    "(\<exists>i. curThreadIdx b \<le> i \<and> i < runListSize b \<and> state_of b (runList b ! i) = WAITING) \<longrightarrow> 0 < cnt RUNNING b1"
    using checkRunList_inv [OF assms(1)] s(1) by auto
  have b2: "bar_inv b2 \<and> parallelThreads b2 = parallelThreads b"
    using checkEndPhase_idle [of b1 callback w] checkEndPhase_inv [OF b1(1) _ s(2)] s(2) b1 by (cases "ended b1") auto
  then have c: "bar_inv b'" "parallelThreads b' = parallelThreads b2" "runListSize b' = runListSize b2" "cnt LEFT b' = cnt LEFT b2"
      "cnt RUNNING b2 \<le> cnt RUNNING b'"
      "(\<exists>i. curThreadIdx b2 \<le> i \<and> i < runListSize b2 \<and> state_of b2 (runList b2 ! i) = WAITING) \<longrightarrow> 0 < cnt RUNNING b'"
    using checkRunList_inv [of b2] s(3) by auto
  show "bar_inv b'" "parallelThreads b' = parallelThreads b" using c(1,2) b2 by auto
  show "progress b'"
  proof (cases "ended b1")
    case True
    note e = checkEndPhase_inv [OF b1(1) True s(2)]
    have "0 < cnt RUNNING b'" using waiting_slot [OF _ e(4)] e(1,3) c(6) by (auto simp: bar_inv_def)
    then show ?thesis by (simp add: progress_def)
  next
    case False
    have "b2 = b1" using checkEndPhase_idle [OF False, of callback w] s(2) by simp
    moreover have "0 < runningThreads b1 \<or> leftThreads b1 = runListSize b1"
      using False b1(1,3) by (auto simp: ended_def bar_inv_def)
    moreover have "runListSize b' = cnt WAITING b' + cnt RUNNING b' + cnt LEFT b'"
      using c(1) cnt_total by (simp add: bar_inv_def)
    ultimately show ?thesis using b1(1) c(3-5) by (auto simp: progress_def bar_inv_def)
  qed
  show "w' = w" if "\<exists>i. curThreadIdx b \<le> i \<and> i < runListSize b \<and> state_of b (runList b ! i) = WAITING"
  proof -
    have "\<not> ended b1" using b1(1,4) that by (auto simp: ended_def bar_inv_def)
    then show ?thesis using checkEndPhase_idle [of b1 callback w] s(2) by simp
  qed
qed

text \<open>A thread of the run list changes state, and the counters follow.\<close>

lemma move_inv:
  assumes "bar_inv b" "t < MAX_THREADS" "state_of b t = s1" "s1 \<noteq> OFFLINE" "s2 \<noteq> OFFLINE" "s1 \<noteq> s2" "s2 \<noteq> RUNNING"
    "s2 = LEFT \<longrightarrow> s1 = RUNNING"
    and th: "threadList b' = (threadList b)[t := x]" "ts_state x = s2" "lastIdx x = lastIdx (threadList b ! t)"
      "s2 = WAITING \<longrightarrow> futexWord x = 1"
    and fr: "runList b' = runList b" "runListSize b' = runListSize b" "curThreadIdx b' = curThreadIdx b"
      "parallelThreads b' = parallelThreads b" "bar_rnd b' = bar_rnd b"
    and r: "runningThreads b' = runningThreads b - of_bool (s1 = RUNNING)"
      "leftThreads b' = leftThreads b + of_bool (s2 = LEFT) - of_bool (s1 = LEFT)"
  shows "bar_inv b'"
proof -
  note inv = assms(1) [unfolded bar_inv_def]
  have t: "t < length (threadList b)" using inv assms(2) by (simp add: bar_shape_def)
  have at: "threadList b' ! u = (if u = t then x else threadList b ! u)" for u using t th(1) by simp
  have st: "state_of b' u = (if u = t then s2 else state_of b u)" for u using th(2) by (simp add: state_of_def at)
  note c = cnt_move [OF assms(2,3,6) st]
  have "bar_shape b'"
    by (rule bar_shape_cong [OF conjunct1 [OF inv]]) (use assms(3-5) fr in \<open>auto simp: th(1) st\<close>)
  moreover have "runningThreads b' = cnt RUNNING b'" "leftThreads b' = cnt LEFT b'"
    using inv c(1) c(2) c(3) [of RUNNING] c(3) [of LEFT] assms(6,7) r
    by (cases "s1 = RUNNING"; cases "s1 = LEFT"; cases "s2 = LEFT"; simp)+
  moreover have "lastIdx (threadList b' ! u) < runListSize b' \<and> runList b' ! lastIdx (threadList b' ! u) = u"
    if "u < MAX_THREADS" "state_of b' u = RUNNING \<or> state_of b' u = LEFT" for u
    using inv that assms(2,3,7,8) fr th(3) by (cases "u = t") (auto simp: st at)
  ultimately show ?thesis
    using inv assms(7) fr r(1) th(4) unfolding bar_inv_def by (auto simp: st at)
qed

lemma sync_move:
  assumes "bar_inv b" "tid < MAX_THREADS" "state_of b tid = RUNNING"
  shows "bar_inv ((set_thread tid (\<lambda>th. th\<lparr>futexWord := 1, ts_state := WAITING\<rparr>) b)\<lparr>runningThreads := runningThreads b - 1\<rparr>)"
  by (rule move_inv [OF assms, of WAITING _ "(threadList b ! tid)\<lparr>futexWord := 1, ts_state := WAITING\<rparr>"])
    (simp_all add: set_thread_def)

lemma leave_move:
  assumes "bar_inv b" "tid < MAX_THREADS" "state_of b tid = RUNNING"
  shows "bar_inv ((set_thread tid (\<lambda>th. th\<lparr>ts_state := LEFT\<rparr>) b)
     \<lparr>leftThreads := Suc (leftThreads b), runningThreads := runningThreads b - 1\<rparr>)"
  by (rule move_inv [OF assms, of LEFT _ "(threadList b ! tid)\<lparr>ts_state := LEFT\<rparr>"]) (simp_all add: set_thread_def)

lemma rejoin_move:
  assumes "bar_inv b" "tid < MAX_THREADS" "state_of b tid = LEFT"
  shows "bar_inv ((set_thread tid (\<lambda>th. th\<lparr>ts_state := WAITING, futexWord := 1\<rparr>) b)\<lparr>leftThreads := leftThreads b - 1\<rparr>)"
  by (rule move_inv [OF assms, of WAITING _ "(threadList b ! tid)\<lparr>ts_state := WAITING, futexWord := 1\<rparr>"])
    (simp_all add: set_thread_def)

text \<open>A thread off the run list: there is room for it.\<close>

lemma offline_room:
  assumes "bar_shape b" "t < MAX_THREADS" "state_of b t = OFFLINE"
  shows "runListSize b < MAX_THREADS"
proof -
  have "inj_on ((!) (runList b)) {..<runListSize b}" "(!) (runList b) ` {..<runListSize b} \<subseteq> {..<MAX_THREADS} - {t}"
    using assms unfolding bar_shape_def inj_on_def by auto
  then have "card {..<runListSize b} \<le> card ({..<MAX_THREADS} - {t})" by (intro card_inj_on_le) auto
  then show ?thesis using assms(2) by (simp add: MAX_THREADS_def)
qed

lemma fresh_join_inv:
  assumes "bar_inv b" "t < MAX_THREADS" "state_of b t = OFFLINE"
    and b': "b' = set_thread t (\<lambda>th. th\<lparr>ts_state := WAITING, futexWord := 1\<rparr>) ((set_slot (runListSize b) t b)\<lparr>runListSize := Suc (runListSize b)\<rparr>)"
  shows "bar_inv b'" "state_of b' t = WAITING" "runList b' ! runListSize b = t"
proof -
  note inv = assms(1) [unfolded bar_inv_def] note shape = conjunct1 [OF inv]
  let ?n = "runListSize b"
  have room: "?n < MAX_THREADS" by (rule offline_room [OF shape assms(2,3)])
  have len: "t < length (threadList b)" "?n < length (runList b)" using shape assms(2) room by (auto simp: bar_shape_def)
  have fr: "runListSize b' = Suc ?n" "curThreadIdx b' = curThreadIdx b" "parallelThreads b' = parallelThreads b" "bar_rnd b' = bar_rnd b"
    "runningThreads b' = runningThreads b" "leftThreads b' = leftThreads b" "length (threadList b') = length (threadList b)"
    "length (runList b') = length (runList b)"
    by (simp_all add: b')
  have th: "threadList b' ! u = (if u = t then (threadList b ! t)\<lparr>ts_state := WAITING, futexWord := 1\<rparr> else threadList b ! u)" for u
    using len by (simp add: b' thread_nth)
  have st: "state_of b' u = (if u = t then WAITING else state_of b u)" for u by (simp add: state_of_def th)
  have at: "runList b' ! i = (if i = ?n then t else runList b ! i)" for i using len by (simp add: b')
  show "state_of b' t = WAITING" "runList b' ! ?n = t" by (simp_all add: st at)
  have new: "runList b ! i \<noteq> t" if "i < ?n" for i using shape assms(3) that by (auto simp: bar_shape_def)
  have cover: "\<exists>i < Suc ?n. runList b' ! i = u" if u: "u < MAX_THREADS" "state_of b' u \<noteq> OFFLINE" for u
  proof (cases "u = t")
    case True
    then show ?thesis using at by auto
  next
    case False
    then obtain i where "i < ?n" "runList b ! i = u" using shape u st by (auto simp: bar_shape_def)
    then show ?thesis using at by (intro exI [of _ i]) auto
  qed
  have "runList b' ! i < MAX_THREADS \<and> state_of b' (runList b' ! i) \<noteq> OFFLINE" if "i < Suc ?n" for i
    using shape that assms(2) by (cases "i = ?n") (auto simp: at st bar_shape_def)
  moreover have "i = j" if "i < Suc ?n" "j < Suc ?n" "runList b' ! i = runList b' ! j" for i j
    using shape that new [of i] new [of j] by (cases "i = ?n"; cases "j = ?n") (auto simp: at bar_shape_def)
  ultimately have "bar_shape b'"
    using shape cover room unfolding bar_shape_def fr by simp
  moreover have "cnt RUNNING b' = cnt RUNNING b" "cnt LEFT b' = cnt LEFT b"
    using cnt_move(3) [OF assms(2,3) _ st] by simp_all
  moreover have "lastIdx (threadList b' ! u) < Suc ?n \<and> runList b' ! lastIdx (threadList b' ! u) = u"
    if u: "u < MAX_THREADS" "state_of b' u = RUNNING \<or> state_of b' u = LEFT" for u
  proof -
    have "u \<noteq> t" "lastIdx (threadList b ! u) < ?n \<and> runList b ! lastIdx (threadList b ! u) = u"
      using u inv assms(3) st by (auto split: if_splits)
    then show ?thesis by (auto simp: at th)
  qed
  moreover have "state_of b' (runList b' ! i) \<noteq> RUNNING" if "i < Suc ?n" "curThreadIdx b \<le> i" for i
    using inv that by (cases "i = ?n") (auto simp: at st)
  ultimately show "bar_inv b'" using inv unfolding bar_inv_def fr by (auto simp: st th)
qed

lemma swap_slots_commute:
  assumes "runList b ! i = runList b ! j \<Longrightarrow> i = j" "itid = runList b ! i" "jtid = runList b ! j"
  shows "set_thread itid (\<lambda>th. th\<lparr>lastIdx := j\<rparr>) (set_thread jtid (\<lambda>th. th\<lparr>lastIdx := i\<rparr>) (set_slot j itid (set_slot i jtid b)))
    = swap_slots i j b"
proof (cases "i = j")
  case True
  then show ?thesis using assms by (simp add: swap_slots_def Let_def)
next
  case False
  then have "runList b ! i \<noteq> runList b ! j" using assms(1) by auto
  then show ?thesis using assms(2,3) by (simp add: swap_slots_def Let_def set_thread_def list_update_swap [of "runList b ! i"])
qed

lemma bar_enter_inv:
  assumes "bar_inv b" "tid < MAX_THREADS" "state_of b tid = LEFT \<or> state_of b tid = OFFLINE"
  shows "\<exists>b'. bar_enter tid b = Some b' \<and> bar_inv b' \<and> parallelThreads b' = parallelThreads b
    \<and> (\<exists>i. curThreadIdx b' \<le> i \<and> i < runListSize b' \<and> state_of b' (runList b' ! i) = WAITING)"
proof (cases "state_of b tid = OFFLINE")
  case True
  have "curThreadIdx b \<le> runListSize b" using assms(1) by (simp add: bar_inv_def)
  then show ?thesis using fresh_join_inv [OF assms(1,2) True refl] True by (auto simp: bar_enter_def intro!: exI [of _ "runListSize b"])
next
  case False
  then have left: "state_of b tid = LEFT" using assms(3) by simp
  define l where "l = lastIdx (threadList b ! tid)"
  have l: "l < runListSize b" "runList b ! l = tid" and cur: "curThreadIdx b \<le> runListSize b" and wf: "mt_wf (bar_rnd b)"
    and len: "tid < length (threadList b)" "length (runList b) = MAX_THREADS" "runListSize b \<le> MAX_THREADS"
    using assms(1,2) left unfolding l_def by (auto simp: bar_inv_def bar_shape_def)
  show ?thesis
  proof (cases "l < curThreadIdx b")
    case True
    define c where "c = curThreadIdx b - 1"
    have c: "c < runListSize b" "c \<le> runListSize b" "Suc c = curThreadIdx b" using True cur by (auto simp: c_def)
    define b1 where "b1 = swap_slots l c (b\<lparr>bar_rnd := bar_rnd b, curThreadIdx := c\<rparr>)"
    have at: "runList b1 ! k = (if k = c then tid else if k = l then runList b ! c else runList b ! k)" for k
      using l c len by (simp add: b1_def swap_slots_def Let_def nth_list_update)
    have "state_of b (runList b1 ! k) \<noteq> RUNNING" if "c \<le> k" "k < runListSize b" for k
      using assms(1) left that True c unfolding at bar_inv_def by (cases "k = c") auto
    note sw = swap_slots_inv [OF assms(1) l(1) c(1) wf c(2) b1_def this]
    let ?b' = "(set_thread tid (\<lambda>th. th\<lparr>ts_state := WAITING, futexWord := 1\<rparr>) b1)\<lparr>leftThreads := leftThreads b1 - 1\<rparr>"
    let ?b0 = "b\<lparr>leftThreads := leftThreads b - 1, curThreadIdx := c\<rparr>"
    have "runList b ! l = runList b ! c \<Longrightarrow> l = c" using assms(1) l(1) c(1) by (simp add: bar_inv_def bar_shape_def)
    then have "set_thread tid (\<lambda>th. th\<lparr>lastIdx := c\<rparr>) (set_thread (runList b ! c) (\<lambda>th. th\<lparr>lastIdx := l\<rparr>)
        (set_slot c tid (set_slot l (runList b ! c) ?b0))) = swap_slots l c ?b0"
      using l(2) by (intro swap_slots_commute) auto
    moreover have "swap_slots l c ?b0 = b1\<lparr>leftThreads := leftThreads b - 1\<rparr>"
      by (simp add: b1_def swap_slots_def set_thread_def set_slot_def Let_def)
    moreover have "leftThreads b1 = leftThreads b" by (simp add: b1_def swap_slots_def Let_def)
    ultimately have "bar_enter tid b = Some ?b'"
      using left True l(2) unfolding bar_enter_def l_def c_def by (simp add: Let_def) (simp add: set_thread_def)
    moreover have "bar_inv ?b'" using rejoin_move [OF sw(1) assms(2)] sw(2) left by simp
    moreover have "state_of ?b' (runList ?b' ! c) = WAITING"
      using len(1) at [of c] by (simp add: b1_def swap_slots_def Let_def state_of_set_thread)
    ultimately show ?thesis using sw c by auto
  next
    case False
    let ?b' = "(set_thread tid (\<lambda>th. th\<lparr>ts_state := WAITING, futexWord := 1\<rparr>) b)\<lparr>leftThreads := leftThreads b - 1\<rparr>"
    have "bar_enter tid b = Some ?b'"
      using left False by (simp add: bar_enter_def Let_def l_def set_thread_def)
    moreover have "state_of ?b' (runList ?b' ! l) = WAITING" using l len(1) by (simp add: state_of_set_thread)
    ultimately show ?thesis using rejoin_move [OF assms(1,2) left] l(1) False by (auto intro!: exI [of _ l])
  qed
qed

lemma bar_step_inv:
  assumes "bar_step callback (b, w) (b', w')" "bar_inv b"
  shows "bar_inv b' \<and> progress b' \<and> parallelThreads b' = parallelThreads b"
  using assms(1)
proof (cases rule: bar_step.cases)
  case (bar_step_join tid)
  then show ?thesis
    using bar_enter_inv [OF assms(2) bar_step_join(1,2)] tryWakeNext_inv(1-3) by (fastforce simp: bar_join_def)
next
  case (bar_step_leave tid)
  let ?b1 = "(set_thread tid (\<lambda>th. th\<lparr>ts_state := LEFT\<rparr>) b)\<lparr>leftThreads := Suc (leftThreads b), runningThreads := runningThreads b - 1\<rparr>"
  have "tryWakeNext callback (?b1, w) = Some (b', w')" using bar_step_leave(2,3) by (simp add: bar_leave_def Let_def)
  from tryWakeNext_inv(1-3) [OF leave_move [OF assms(2) bar_step_leave(1,2)] this] show ?thesis by simp
next
  case (bar_step_sync tid)
  let ?b1 = "(set_thread tid (\<lambda>th. th\<lparr>futexWord := 1, ts_state := WAITING\<rparr>) b)\<lparr>runningThreads := runningThreads b - 1\<rparr>"
  have "tryWakeNext callback (?b1, w) = Some (b', w')" using bar_step_sync(2,3) by (simp add: bar_sync_def Let_def)
  from tryWakeNext_inv(1-3) [OF sync_move [OF assms(2) bar_step_sync(1,2)] this] show ?thesis by simp
qed

lemma Barrier_new_inv:
  assumes "0 < n"
  shows "bar_inv (Barrier_new junk n)" "progress (Barrier_new junk n)"
proof -
  have st: "state_of (Barrier_new junk n) t = OFFLINE" if "t < MAX_THREADS" for t
    using that by (simp add: state_of_def Barrier_new_def)
  then have "cnt s (Barrier_new junk n) = 0" if "s \<noteq> OFFLINE" for s using that unfolding cnt_zero by auto
  then show "bar_inv (Barrier_new junk n)" "progress (Barrier_new junk n)" using assms st
    by (auto simp: bar_inv_def bar_shape_def progress_def) (auto simp: Barrier_new_def mt_seed_wf)
qed

lemma bar_reachable_inv:
  assumes "(bar_step callback)\<^sup>*\<^sup>* (Barrier_new junk n, w) bw" "0 < n"
  shows "bar_inv (fst bw) \<and> progress (fst bw) \<and> parallelThreads (fst bw) = n"
  using assms(1)
proof (induction rule: rtranclp_induct)
  case base
  then show ?case using Barrier_new_inv [OF assms(2)] by (simp add: Barrier_new_def)
next
  case (step bw1 bw2)
  then show ?case using bar_step_inv [of callback "fst bw1" "snd bw1" "fst bw2" "snd bw2"] by simp
qed

lemma join_returns:
  assumes "bar_inv b" "tid < MAX_THREADS" "state_of b tid = LEFT \<or> state_of b tid = OFFLINE"
  shows "\<exists>b'. bar_join callback tid (b, w) = Some (b', w) \<and> cnt RUNNING b' > 0"
proof -
  obtain b1 where b1: "bar_enter tid b = Some b1" "bar_inv b1"
      "\<exists>i. curThreadIdx b1 \<le> i \<and> i < runListSize b1 \<and> state_of b1 (runList b1 ! i) = WAITING"
    using bar_enter_inv [OF assms] by blast
  obtain b2 where b2: "checkRunList b1 = Some b2" "bar_inv b2" "0 < cnt RUNNING b2"
    using checkRunList_inv [OF b1(2)] b1(3) by blast
  have "checkEndPhase callback (b2, w) = Some (b2, w)"
    using b2(2,3) by (intro checkEndPhase_idle) (auto simp: ended_def bar_inv_def)
  moreover obtain b3 where "checkRunList b2 = Some b3" "cnt RUNNING b2 \<le> cnt RUNNING b3" using checkRunList_inv [OF b2(2)] by blast
  ultimately show ?thesis using b1(1) b2 by (auto simp: bar_join_def tryWakeNext_def)
qed

text \<open>A single running thread: what \<^verbatim>\<open>join\<close> does while the only slot is taken.\<close>

lemma busy_tryWakeNext:
  assumes "runningThreads b = parallelThreads b" "0 < parallelThreads b"
  shows "tryWakeNext callback (b, w) = Some (b, w)"
proof -
  have "checkRunList b = Some b" unfolding checkRunList_def using assms(1)
    by (cases "runListSize b - curThreadIdx b") auto
  then show ?thesis using assms by (simp add: tryWakeNext_def checkEndPhase_def)
qed

lemma stale_rejoin:
  assumes "state_of b tid = WAITING" "lastIdx (threadList b ! tid) < curThreadIdx b" "runList b ! lastIdx (threadList b ! tid) \<noteq> tid"
    "tid < length (threadList b)"
  shows "do { bw \<leftarrow> bar_leave callback tid (b, w); bar_join callback tid bw } = None"
  using assms by (simp add: bar_leave_def bar_join_def bar_enter_def Let_def state_of_set_thread thread_nth)

subsection \<open>Properties\<close>


lemma first_join:
  assumes "0 < n" "tid < MAX_THREADS"
  shows "\<exists>b. bar_step callback (Barrier_new junk n, w) (b, w) \<and> cnt RUNNING b > 0"
proof -
  have off: "state_of (Barrier_new junk n) tid = OFFLINE" using assms(2) by (simp add: state_of_def Barrier_new_def)
  show ?thesis
    using join_returns [OF Barrier_new_inv(1) [OF assms(1)] assms(2) disjI2 [OF off], of callback w]
      bar_step_join [OF assms(2) disjI2 [OF off], of callback w] by auto
qed


text \<open>A \<^verbatim>\<open>join\<close> in any reachable state returns without a failed assertion and without ending the phase: the callback is not run.\<close>

lemma join_never_ends_phase:
  assumes "(bar_step callback)\<^sup>*\<^sup>* (Barrier_new junk n, w) (b, w')" "0 < n" "tid < MAX_THREADS"
    "state_of b tid = LEFT \<or> state_of b tid = OFFLINE"
  shows "\<exists>b'. bar_join callback tid (b, w') = Some (b', w')"
  using bar_reachable_inv [OF assms(1,2)] join_returns [OF _ assms(3,4), of callback w'] by auto

text \<open>\<^verbatim>\<open>leave\<close> accepts a thread that still waits, but its recorded position is then that of an earlier phase, or never set:
  a thread that joins, leaves before it was woken and joins again fails the assertion on its position.\<close>

lemma waiting_leave_rejoin_aborts:
  "\<exists>b. do { bw1 \<leftarrow> bar_join callback 0 (Barrier_new (\<lambda>_. 0) 1, w);
            bw2 \<leftarrow> bar_join callback 1 bw1;
            bar_leave callback 1 bw2 } = Some (b, w)
     \<and> bar_join callback 1 (b, w) = None"
proof -
  let ?b0 = "Barrier_new (\<lambda>_. 0) 1"
  define e where "e = set_thread 0 (\<lambda>th. th\<lparr>ts_state := WAITING, futexWord := 1\<rparr>) ((set_slot 0 0 ?b0)\<lparr>runListSize := 1\<rparr>)"
  define b1 where "b1 = (set_thread 0 (\<lambda>th. th\<lparr>ts_state := RUNNING, lastIdx := 0, futexWord := 0\<rparr>) e)\<lparr>curThreadIdx := 1, runningThreads := 1\<rparr>"
  define b2 where "b2 = set_thread 1 (\<lambda>th. th\<lparr>ts_state := WAITING, futexWord := 1\<rparr>) ((set_slot 1 1 b1)\<lparr>runListSize := 2\<rparr>)"
  have new: "threadList ?b0 ! t = \<lparr>ts_state = OFFLINE, futexWord = 0, lastIdx = 0\<rparr>" if "t < 2048" for t
    using that by (simp add: Barrier_new_def MAX_THREADS_def)
  have len: "length (threadList ?b0) = 2048" "length (runList ?b0) = 2048" by (simp_all add: Barrier_new_def MAX_THREADS_def)
  have fld: "runListSize ?b0 = 0" "curThreadIdx ?b0 = 0" "runningThreads ?b0 = 0" "leftThreads ?b0 = 0" "parallelThreads ?b0 = 1"
    by (simp_all add: Barrier_new_def)
  have th_e: "threadList e ! t = (if t = 0 then \<lparr>ts_state = WAITING, futexWord = 1, lastIdx = 0\<rparr> else threadList ?b0 ! t)" for t
    using len new [of 0] by (simp add: e_def thread_nth)
  have f_e: "runListSize e = 1" "curThreadIdx e = 0" "runningThreads e = 0" "parallelThreads e = 1" "runList e ! 0 = 0"
      "length (threadList e) = 2048" "length (runList e) = 2048"
    using len fld by (simp_all add: e_def)
  have "bar_enter 0 ?b0 = Some e" using new [of 0] fld by (simp add: bar_enter_def state_of_def e_def)
  moreover have "checkRunList e = Some b1"
    using th_e [of 0] by (simp add: checkRunList_def wake_at_def state_of_def Let_def f_e b1_def)
  moreover have f1: "runListSize b1 = 1" "curThreadIdx b1 = 1" "runningThreads b1 = 1" "parallelThreads b1 = 1"
      "runList b1 = runList e" "length (threadList b1) = 2048"
    by (simp_all add: b1_def f_e)
  moreover have "checkRunList b1 = Some b1" by (simp add: checkRunList_def f1)
  ultimately have j0: "bar_join callback 0 (?b0, w) = Some (b1, w)" by (simp add: bar_join_def tryWakeNext_def checkEndPhase_def)
  have th1: "threadList b1 ! 1 = \<lparr>ts_state = OFFLINE, futexWord = 0, lastIdx = 0\<rparr>"
    using th_e new [of 1] f_e by (simp add: b1_def thread_nth)
  then have "bar_enter 1 b1 = Some b2" using f1 by (simp add: bar_enter_def state_of_def b2_def numeral_2_eq_2)
  moreover have f2: "curThreadIdx b2 = 1" "runningThreads b2 = 1" "parallelThreads b2 = 1" "runList b2 ! 0 = 0" "length (threadList b2) = 2048"
    by (simp_all add: b2_def f1 f_e)
  ultimately have j1: "bar_join callback 1 (b1, w) = Some (b2, w)" by (simp add: bar_join_def busy_tryWakeNext)
  have th2: "threadList b2 ! 1 = \<lparr>ts_state = WAITING, futexWord = 1, lastIdx = 0\<rparr>"
    using th1 f1 by (simp add: b2_def thread_nth)
  have "do { bw \<leftarrow> bar_leave callback 1 (b2, w); bar_join callback 1 bw } = None"
    by (rule stale_rejoin) (use th2 f2 in \<open>simp_all add: state_of_def\<close>)
  moreover have "\<exists>b. bar_leave callback 1 (b2, w) = Some (b, w)" using th2 by (simp add: bar_leave_def state_of_def Let_def)
  ultimately show ?thesis using j0 j1 by auto
qed

end
