(* ===== verification/InList.thy ===== *)
theory InList
  imports Prelude
begin

text \<open>
  The intrusive doubly linked list of \<^verbatim>\<open>src/src/intrusive_list.h\<close>, with which the scheduler keeps its queues. The nodes live in
  a heap and carry the links and the list that owns them; a list is a head, a tail and a count. The interface \<open>linked_lists\<close>
  says what its users rely on: a family of disjoint sequences, updated by the usual list operations, while every other
  operation on a wrong list or a linked node aborts. It is interpreted on the pointer structure.
\<close>

subsection \<open>Nodes and lists\<close>

type_synonym node = nat
type_synonym list_id = nat

record InListNode =
  nd_next :: "node option"
  nd_prev :: "node option"
  nd_owner :: "list_id option"

record InList =
  il_head :: "node option"
  il_tail :: "node option"
  il_elems :: nat

record inlists =
  nodes :: "node \<Rightarrow> InListNode"
  lists_of :: "list_id \<Rightarrow> InList"

definition InListNode_new :: InListNode where
  "InListNode_new = \<lparr>nd_next = None, nd_prev = None, nd_owner = None\<rparr>"

definition InList_new :: InList where
  "InList_new = \<lparr>il_head = None, il_tail = None, il_elems = 0\<rparr>"

definition set_node :: "node \<Rightarrow> (InListNode \<Rightarrow> InListNode) \<Rightarrow> inlists \<Rightarrow> inlists" where
  "set_node e f h = h\<lparr>nodes := (nodes h)(e := f (nodes h e))\<rparr>"

definition set_list :: "list_id \<Rightarrow> (InList \<Rightarrow> InList) \<Rightarrow> inlists \<Rightarrow> inlists" where
  "set_list l f h = h\<lparr>lists_of := (lists_of h)(l := f (lists_of h l))\<rparr>"

text \<open>A write through a pointer that may be null.\<close>

definition set_opt :: "node option \<Rightarrow> (InListNode \<Rightarrow> InListNode) \<Rightarrow> inlists \<Rightarrow> inlists" where
  "set_opt p f h = (case p of None \<Rightarrow> h | Some e \<Rightarrow> set_node e f h)"

definition unlink :: "node \<Rightarrow> list_id \<Rightarrow> inlists \<Rightarrow> inlists option" where
  "unlink e l h = do {
     let n = nodes h e;
     let h1 = set_opt (nd_next n) (\<lambda>x. x\<lparr>nd_prev := nd_prev n\<rparr>) h;
     let h2 = set_opt (nd_prev n) (\<lambda>x. x\<lparr>nd_next := nd_next n\<rparr>) h1;
     let h3 = set_node e (\<lambda>x. x\<lparr>nd_next := None, nd_prev := None\<rparr>) h2;
     assert_that (nd_owner (nodes h3 e) = Some l);
     Some (set_node e (\<lambda>x. x\<lparr>nd_owner := None\<rparr>) h3) }"

definition linkPrev :: "node \<Rightarrow> node \<Rightarrow> list_id \<Rightarrow> inlists \<Rightarrow> inlists option" where
  "linkPrev e p l h = do {
     assert_that (nd_owner (nodes h e) = None);
     assert_that (nd_prev (nodes h e) = None \<and> nd_next (nodes h e) = None);
     h1 \<leftarrow> (case nd_next (nodes h p) of
        None \<Rightarrow> Some h
      | Some n \<Rightarrow> do {
          assert_that (nd_prev (nodes h n) = Some p);
          Some (set_node e (\<lambda>x. x\<lparr>nd_next := Some n\<rparr>) (set_node n (\<lambda>x. x\<lparr>nd_prev := Some e\<rparr>) h)) });
     let h2 = set_node p (\<lambda>x. x\<lparr>nd_next := Some e\<rparr>) h1;
     Some (set_node e (\<lambda>x. x\<lparr>nd_prev := Some p, nd_owner := Some l\<rparr>) h2) }"

subsection \<open>Operations\<close>

definition unlinked :: "inlists \<Rightarrow> node \<Rightarrow> bool" where
  "unlinked h e \<longleftrightarrow> nd_next (nodes h e) = None \<and> nd_prev (nodes h e) = None \<and> nd_owner (nodes h e) = None"

definition il_empty :: "list_id \<Rightarrow> inlists \<Rightarrow> bool" where
  "il_empty l h \<longleftrightarrow> il_head (lists_of h l) = None"

definition il_push_front :: "list_id \<Rightarrow> node \<Rightarrow> inlists \<Rightarrow> inlists option" where
  "il_push_front l e h = do {
     assert_that (unlinked h e);
     h1 \<leftarrow> (case il_head (lists_of h l) of
        None \<Rightarrow> Some (set_list l (\<lambda>x. x\<lparr>il_head := Some e, il_tail := Some e\<rparr>) h)
      | Some f \<Rightarrow> do {
          assert_that (nd_prev (nodes h f) = None \<and> nd_owner (nodes h f) = Some l);
          Some (set_list l (\<lambda>x. x\<lparr>il_head := Some e\<rparr>)
            (set_node f (\<lambda>x. x\<lparr>nd_prev := Some e\<rparr>) (set_node e (\<lambda>x. x\<lparr>nd_next := Some f\<rparr>) h))) });
     Some (set_list l (\<lambda>x. x\<lparr>il_elems := Suc (il_elems x)\<rparr>) (set_node e (\<lambda>x. x\<lparr>nd_owner := Some l\<rparr>) h1)) }"

definition il_push_back :: "list_id \<Rightarrow> node \<Rightarrow> inlists \<Rightarrow> inlists option" where
  "il_push_back l e h = do {
     assert_that (unlinked h e);
     h1 \<leftarrow> (if il_empty l h
            then Some (set_node e (\<lambda>x. x\<lparr>nd_owner := Some l\<rparr>) (set_list l (\<lambda>x. x\<lparr>il_head := Some e, il_tail := Some e\<rparr>) h))
            else case il_tail (lists_of h l) of
              None \<Rightarrow> None
            | Some t \<Rightarrow> do {
                h' \<leftarrow> linkPrev e t l h;
                Some (set_list l (\<lambda>x. x\<lparr>il_tail := Some e\<rparr>) h') });
     Some (set_list l (\<lambda>x. x\<lparr>il_elems := Suc (il_elems x)\<rparr>) h1) }"

definition il_pop_front :: "list_id \<Rightarrow> inlists \<Rightarrow> inlists option" where
  "il_pop_front l h = (case il_head (lists_of h l) of
     None \<Rightarrow> Some h
   | Some e \<Rightarrow> do {
       let h1 = set_list l (\<lambda>x. x\<lparr>il_head := nd_next (nodes h e)\<rparr>) h;
       h2 \<leftarrow> unlink e l h1;
       Some (set_list l (\<lambda>x. x\<lparr>il_tail := (if il_head x = None then None else il_tail x), il_elems := il_elems x - 1\<rparr>) h2) })"

definition il_pop_back :: "list_id \<Rightarrow> inlists \<Rightarrow> inlists option" where
  "il_pop_back l h = (if il_empty l h then Some h else case il_tail (lists_of h l) of
     None \<Rightarrow> None
   | Some e \<Rightarrow> do {
       let h1 = set_list l (\<lambda>x. x\<lparr>il_tail := nd_prev (nodes h e)\<rparr>) h;
       h2 \<leftarrow> unlink e l h1;
       Some (set_list l (\<lambda>x. x\<lparr>il_head := (if il_tail x = None then None else il_head x), il_elems := il_elems x - 1\<rparr>) h2) })"

definition il_remove :: "list_id \<Rightarrow> node \<Rightarrow> inlists \<Rightarrow> inlists option" where
  "il_remove l e h = do {
     let h1 = (if il_head (lists_of h l) = Some e then set_list l (\<lambda>x. x\<lparr>il_head := nd_next (nodes h e)\<rparr>) h else h);
     let h2 = (if il_tail (lists_of h1 l) = Some e then set_list l (\<lambda>x. x\<lparr>il_tail := nd_prev (nodes h1 e)\<rparr>) h1 else h1);
     h3 \<leftarrow> unlink e l h2;
     Some (set_list l (\<lambda>x. x\<lparr>il_elems := il_elems x - 1\<rparr>) h3) }"

definition il_insertAfter :: "list_id \<Rightarrow> node \<Rightarrow> node \<Rightarrow> inlists \<Rightarrow> inlists option" where
  "il_insertAfter l p e h = do {
     assert_that (nd_owner (nodes h e) = None);
     assert_that (nd_owner (nodes h p) = Some l);
     h1 \<leftarrow> linkPrev e p l h;
     let h2 = (if il_tail (lists_of h1 l) = Some p then set_list l (\<lambda>x. x\<lparr>il_tail := Some e\<rparr>) h1 else h1);
     Some (set_list l (\<lambda>x. x\<lparr>il_elems := Suc (il_elems x)\<rparr>) h2) }"

definition il_size :: "list_id \<Rightarrow> inlists \<Rightarrow> nat" where
  "il_size l h = il_elems (lists_of h l)"

subsection \<open>Representation\<close>

definition opt_hd :: "'a list \<Rightarrow> 'a option" where
  "opt_hd xs = (case xs of [] \<Rightarrow> None | x # _ \<Rightarrow> Some x)"

definition opt_last :: "'a list \<Rightarrow> 'a option" where
  "opt_last xs = (if xs = [] then None else Some (last xs))"

lemma opt_hd_simps [simp]: "opt_hd [] = None" "opt_hd (x # xs) = Some x" "opt_hd (xs @ y # ys) = Some (if xs = [] then y else hd xs)"
  by (simp_all add: opt_hd_def) (cases xs; simp)

lemma opt_last_simps [simp]: "opt_last [] = None" "opt_last (xs @ [x]) = Some x" "opt_last (xs @ y # ys) = Some (last (y # ys))"
  by (auto simp: opt_last_def)

lemma opt_in: "opt_hd xs = Some x \<Longrightarrow> x \<in> set xs" "opt_last xs = Some x \<Longrightarrow> x \<in> set xs"
  by (auto simp: opt_hd_def opt_last_def split: list.splits if_splits)

text \<open>A stretch of linked nodes, between a predecessor and a successor.\<close>

fun seg :: "(node \<Rightarrow> InListNode) \<Rightarrow> node option \<Rightarrow> node list \<Rightarrow> node option \<Rightarrow> bool" where
  "seg n p [] q \<longleftrightarrow> True"
| "seg n p (x # xs) q \<longleftrightarrow> nd_prev (n x) = p \<and> nd_next (n x) = (if xs = [] then q else opt_hd xs) \<and> seg n (Some x) xs q"

definition il_of :: "node list \<Rightarrow> InList" where
  "il_of xs = \<lparr>il_head = opt_hd xs, il_tail = opt_last xs, il_elems = length xs\<rparr>"

definition reps :: "inlists \<Rightarrow> (list_id \<Rightarrow> node list) \<Rightarrow> bool" where
  "reps h X \<longleftrightarrow> (\<forall>l. lists_of h l = il_of (X l) \<and> seg (nodes h) None (X l) None \<and> distinct (X l))
     \<and> (\<forall>e l. nd_owner (nodes h e) = Some l \<longleftrightarrow> e \<in> set (X l))
     \<and> (\<forall>e. nd_owner (nodes h e) = None \<longrightarrow> nodes h e = InListNode_new)"

lemma seg_append:
  "seg n p (xs @ ys) q \<longleftrightarrow> seg n p xs (if ys = [] then q else opt_hd ys) \<and> seg n (if xs = [] then p else opt_last xs) ys q"
proof (induction xs arbitrary: p)
  case (Cons x xs)
  then show ?case by (cases xs) (auto simp: opt_last_def opt_hd_def split: list.splits)
qed simp

lemma seg_cong: "(\<And>x. x \<in> set xs \<Longrightarrow> n' x = n x) \<Longrightarrow> seg n' p xs q = seg n p xs q"
  by (induction xs arbitrary: p) auto

lemma seg_set_next:
  assumes "seg n p xs q" "distinct xs" "\<And>x. x \<in> set xs \<Longrightarrow> n' x = (if opt_last xs = Some x then (n x)\<lparr>nd_next := q'\<rparr> else n x)"
  shows "seg n' p xs q'"
  using assms
proof (induction xs arbitrary: p)
  case (Cons x xs)
  show ?case
  proof (cases "xs = []")
    case False
    then have "opt_last (x # xs) = opt_last xs" by (simp add: opt_last_def)
    moreover have "opt_last xs \<noteq> Some x" using Cons.prems(2) opt_in(2) by fastforce
    ultimately show ?thesis using Cons False by auto
  qed (use Cons.prems in \<open>simp add: opt_last_def\<close>)
qed simp

lemma seg_set_prev:
  assumes "seg n p xs q" "distinct xs" "\<And>x. x \<in> set xs \<Longrightarrow> n' x = (if opt_hd xs = Some x then (n x)\<lparr>nd_prev := p'\<rparr> else n x)"
  shows "seg n' p' xs q"
proof (cases xs)
  case (Cons x ys)
  then have "seg n' (Some x) ys q = seg n (Some x) ys q" using assms(2,3) by (intro seg_cong) auto
  then show ?thesis using assms Cons by simp
qed simp

text \<open>Taking a node out and putting one in, on the nodes.\<close>

definition cut :: "node list \<Rightarrow> node \<Rightarrow> node list \<Rightarrow> (node \<Rightarrow> InListNode) \<Rightarrow> node \<Rightarrow> InListNode" where
  "cut as e bs n x = (if x = e then InListNode_new else if opt_last as = Some x then (n x)\<lparr>nd_next := opt_hd bs\<rparr>
     else if opt_hd bs = Some x then (n x)\<lparr>nd_prev := opt_last as\<rparr> else n x)"

definition graft :: "list_id \<Rightarrow> node list \<Rightarrow> node \<Rightarrow> node list \<Rightarrow> (node \<Rightarrow> InListNode) \<Rightarrow> node \<Rightarrow> InListNode" where
  "graft l as e bs n x = (if x = e then \<lparr>nd_next = opt_hd bs, nd_prev = opt_last as, nd_owner = Some l\<rparr>
     else if opt_last as = Some x then (n x)\<lparr>nd_next := Some e\<rparr> else if opt_hd bs = Some x then (n x)\<lparr>nd_prev := Some e\<rparr> else n x)"

lemma opt_notin: "x \<notin> set xs \<Longrightarrow> opt_hd xs \<noteq> Some x" "x \<notin> set xs \<Longrightarrow> opt_last xs \<noteq> Some x"
  using opt_in by fastforce+

lemma cut_sides:
  assumes "distinct (as @ e # bs)"
  shows "x \<in> set as \<Longrightarrow> cut as e bs n x = (if opt_last as = Some x then (n x)\<lparr>nd_next := opt_hd bs\<rparr> else n x)"
    "x \<in> set bs \<Longrightarrow> cut as e bs n x = (if opt_hd bs = Some x then (n x)\<lparr>nd_prev := opt_last as\<rparr> else n x)"
  using assms opt_notin(1) [of x bs] opt_notin(2) [of x as] by (auto simp: cut_def)

lemma graft_sides:
  assumes "distinct (as @ e # bs)"
  shows "x \<in> set as \<Longrightarrow> graft l as e bs n x = (if opt_last as = Some x then (n x)\<lparr>nd_next := Some e\<rparr> else n x)"
    "x \<in> set bs \<Longrightarrow> graft l as e bs n x = (if opt_hd bs = Some x then (n x)\<lparr>nd_prev := Some e\<rparr> else n x)"
  using assms opt_notin(1) [of x bs] opt_notin(2) [of x as] by (auto simp: graft_def)

lemma seg_parts:
  "seg n None (as @ bs) None \<longleftrightarrow> seg n None as (opt_hd bs) \<and> seg n (opt_last as) bs None"
  unfolding seg_append by (cases "as = []"; cases "bs = []") simp_all

lemma seg_cut:
  assumes "seg n None (as @ e # bs) None" "distinct (as @ e # bs)"
  shows "seg (cut as e bs n) None (as @ bs) None"
proof -
  have d: "distinct as" "distinct bs" using assms(2) by auto
  have s: "seg n None as (Some e)" "seg n (Some e) bs None" using assms(1) by (auto simp: seg_parts)
  have "seg (cut as e bs n) None as (opt_hd bs)" by (rule seg_set_next [OF s(1) d(1)]) (rule cut_sides(1) [OF assms(2)])
  moreover have "seg (cut as e bs n) (opt_last as) bs None" by (rule seg_set_prev [OF s(2) d(2)]) (rule cut_sides(2) [OF assms(2)])
  ultimately show ?thesis unfolding seg_parts by blast
qed

lemma seg_graft:
  assumes "seg n None (as @ bs) None" "distinct (as @ e # bs)"
  shows "seg (graft l as e bs n) None (as @ e # bs) None"
proof -
  have d: "distinct as" "distinct bs" using assms(2) by auto
  have s: "seg n None as (opt_hd bs)" "seg n (opt_last as) bs None" using assms(1) by (auto simp: seg_parts)
  have "seg (graft l as e bs n) None as (Some e)" by (rule seg_set_next [OF s(1) d(1)]) (rule graft_sides(1) [OF assms(2)])
  moreover have "seg (graft l as e bs n) (Some e) bs None" by (rule seg_set_prev [OF s(2) d(2)]) (rule graft_sides(2) [OF assms(2)])
  moreover have "nd_prev (graft l as e bs n e) = opt_last as" "nd_next (graft l as e bs n e) = opt_hd bs" by (simp_all add: graft_def)
  ultimately show ?thesis unfolding seg_parts by simp
qed

lemma node_simps [simp]:
  "nodes (set_node e f h) = (nodes h)(e := f (nodes h e))" "lists_of (set_node e f h) = lists_of h"
  "nodes (set_list l g h) = nodes h" "lists_of (set_list l g h) = (lists_of h)(l := g (lists_of h l))"
  by (simp_all add: set_node_def set_list_def)

lemma owner_side [simp]:
  "nd_owner (cut as e bs n x) = (if x = e then None else nd_owner (n x))"
  "nd_owner (graft l as e bs n x) = (if x = e then Some l else nd_owner (n x))"
  by (simp_all add: cut_def graft_def InListNode_new_def)

lemma reps_cut:
  assumes "reps h X" "X l = as @ e # bs" "nodes h' = cut as e bs (nodes h)" "lists_of h' = (lists_of h)(l := il_of (as @ bs))"
  shows "reps h' (X(l := as @ bs))"
proof -
  note r = assms(1) [unfolded reps_def]
  have d: "distinct (as @ e # bs)" "seg (nodes h) None (as @ e # bs) None" using r assms(2) by metis+
  have other: "cut as e bs (nodes h) x = nodes h x" if "x \<notin> set (X l)" for x
    using that opt_notin [of x as] opt_notin [of x bs] assms(2) by (auto simp: cut_def)
  have disj: "x \<notin> set (X l)" if "x \<in> set (X k)" "k \<noteq> l" for x k using r that by (metis option.inject)
  have "seg (nodes h') None (X k) None" if "k \<noteq> l" for k
    unfolding assms(3) using r other disj [OF _ that] by (subst seg_cong [of _ _ "nodes h"]) auto
  then have "lists_of h' k = il_of ((X(l := as @ bs)) k) \<and> seg (nodes h') None ((X(l := as @ bs)) k) None \<and> distinct ((X(l := as @ bs)) k)" for k
    using r seg_cut [OF d(2,1)] d(1) assms(3,4) by simp
  moreover have "nd_owner (nodes h' x) = Some k \<longleftrightarrow> x \<in> set ((X(l := as @ bs)) k)" for x k
    using r d(1) assms(2) disj unfolding assms(3) by (cases "k = l"; cases "x = e") (force simp: assms(2))+
  moreover have "nodes h' x = InListNode_new" if "nd_owner (nodes h' x) = None" for x
  proof (cases "x = e")
    case False
    then have "nd_owner (nodes h x) = None" using that assms(3) by simp
    then show ?thesis using r other [of x] assms(3) by (metis option.distinct(1))
  qed (simp add: assms(3) cut_def)
  ultimately show ?thesis unfolding reps_def by blast
qed

lemma reps_graft:
  assumes "reps h X" "X l = as @ bs" "\<forall>k. e \<notin> set (X k)" "nodes h' = graft l as e bs (nodes h)"
    "lists_of h' = (lists_of h)(l := il_of (as @ e # bs))"
  shows "reps h' (X(l := as @ e # bs))"
proof -
  note r = assms(1) [unfolded reps_def]
  have d: "distinct (as @ e # bs)" "seg (nodes h) None (as @ bs) None" using r assms(2,3) by (metis distinct_append distinct.simps(2) Un_iff disjoint_insert(1) list.simps(15) set_append)+
  have other: "graft l as e bs (nodes h) x = nodes h x" if "x \<notin> set (X l)" "x \<noteq> e" for x
    using that opt_notin [of x as] opt_notin [of x bs] assms(2) by (auto simp: graft_def)
  have disj: "x \<notin> set (X l)" if "x \<in> set (X k)" "k \<noteq> l" for x k using r that by (metis option.inject)
  have "seg (nodes h') None (X k) None" if "k \<noteq> l" for k
    unfolding assms(4) using r other disj [OF _ that] assms(3) by (subst seg_cong [of _ _ "nodes h"]) metis+
  then have "lists_of h' k = il_of ((X(l := as @ e # bs)) k) \<and> seg (nodes h') None ((X(l := as @ e # bs)) k) None
      \<and> distinct ((X(l := as @ e # bs)) k)" for k
    using r seg_graft [OF d(2,1)] d(1) assms(4,5) by simp
  moreover have "nd_owner (nodes h' x) = Some k \<longleftrightarrow> x \<in> set ((X(l := as @ e # bs)) k)" for x k
    using r assms(2,3) unfolding assms(4) by (cases "k = l"; cases "x = e") (force simp: assms(2))+
  moreover have "nodes h' x = InListNode_new" if "nd_owner (nodes h' x) = None" for x
  proof -
    have "x \<noteq> e" "nd_owner (nodes h x) = None" using that assms(4) by (auto split: if_splits)
    then show ?thesis using r other [of x] assms(4) by (metis option.distinct(1))
  qed
  ultimately show ?thesis unfolding reps_def by blast
qed

lemma member_links:
  assumes "reps h X" "X l = as @ e # bs"
  shows "nd_next (nodes h e) = opt_hd bs" "nd_prev (nodes h e) = opt_last as" "nd_owner (nodes h e) = Some l" "distinct (as @ e # bs)"
    "lists_of h l = il_of (as @ e # bs)"
proof -
  note r = assms(1) [unfolded reps_def]
  have "seg (nodes h) None (as @ e # bs) None" using r assms(2) by metis
  then show "nd_next (nodes h e) = opt_hd bs" "nd_prev (nodes h e) = opt_last as" by (auto simp: seg_parts)
  show "nd_owner (nodes h e) = Some l" using r assms(2) by simp
  show "distinct (as @ e # bs)" "lists_of h l = il_of (as @ e # bs)" using r assms(2) by metis+
qed

lemma unlink_cut:
  assumes "reps h X" "X l = as @ e # bs" "nodes h1 = nodes h"
  shows "unlink e l h1 = Some (h1\<lparr>nodes := cut as e bs (nodes h)\<rparr>)"
proof -
  note m = member_links [OF assms(1,2)]
  have "opt_hd bs \<noteq> Some e" "opt_last as \<noteq> Some e" "\<And>x. opt_hd bs = Some x \<Longrightarrow> opt_last as \<noteq> Some x"
    using m(4) opt_in opt_notin by (fastforce dest: opt_in)+
  then show ?thesis using m(1-3) assms(3)
    by (auto simp: unlink_def Let_def set_opt_def cut_def fun_eq_iff InListNode_new_def set_node_def split: option.splits)
qed

lemma linkPrev_graft:
  assumes "reps h X" "X l = as @ bs" "\<forall>k. e \<notin> set (X k)" "opt_last as = Some p"
  shows "linkPrev e p l h = Some (h\<lparr>nodes := graft l as e bs (nodes h)\<rparr>)"
proof -
  note r = assms(1) [unfolded reps_def]
  obtain as' where as: "as = as' @ [p]" using assms(4) by (metis append_butlast_last_id opt_last_def option.distinct(1) option.inject)
  have "nd_owner (nodes h e) = None" using r assms(3) by (metis option.exhaust)
  then have e: "nodes h e = InListNode_new" using r by blast
  have Xl: "X l = as' @ p # bs" using as assms(2) by simp
  note m = member_links [OF assms(1) Xl]
  have "e \<notin> set (X l)" using assms(3) by blast
  then have ne: "e \<noteq> p" "e \<notin> set bs" "p \<notin> set bs" using Xl m(4) by auto
  show ?thesis
  proof (cases bs)
    case Nil
    then show ?thesis using e m(1) ne(1) assms(4) by (auto simp: linkPrev_def InListNode_new_def set_node_def graft_def fun_eq_iff)
  next
    case (Cons b bs')
    have "X l = (as' @ [p]) @ b # bs'" using Xl Cons by simp
    from member_links [OF assms(1) this] have "nd_prev (nodes h b) = Some p" by simp
    then show ?thesis using e m(1) ne Cons assms(4) by (auto simp: linkPrev_def InListNode_new_def set_node_def graft_def fun_eq_iff)
  qed
qed

subsection \<open>The operations on a represented family\<close>

lemma rep_list: "reps h X \<Longrightarrow> lists_of h l = il_of (X l)"
  by (simp add: reps_def)

lemma rep_unlinked: "reps h X \<Longrightarrow> unlinked h e \<longleftrightarrow> (\<forall>k. e \<notin> set (X k))"
  unfolding reps_def unlinked_def InListNode_new_def by (metis InListNode.select_convs(1,2) option.exhaust option.distinct(1))

lemma rep_owner: "reps h X \<Longrightarrow> nd_owner (nodes h e) = None \<longleftrightarrow> (\<forall>k. e \<notin> set (X k))"
  unfolding reps_def by (metis option.exhaust option.distinct(1))

lemma push_front_ok:
  assumes "reps h X" "\<forall>k. e \<notin> set (X k)"
  shows "\<exists>h'. il_push_front l e h = Some h' \<and> reps h' (X(l := e # X l))"
proof -
  have u: "unlinked h e" using rep_unlinked assms by blast
  have g: "reps h' (X(l := [] @ e # X l))" if "nodes h' = graft l [] e (X l) (nodes h)" "lists_of h' = (lists_of h)(l := il_of ([] @ e # X l))" for h'
    by (rule reps_graft [OF assms(1) _ assms(2) that]) simp
  show ?thesis
  proof (cases "X l")
    case Nil
    then show ?thesis using u g assms(1) rep_list [OF assms(1), of l]
      by (intro exI conjI [rotated]) (rule g [simplified], auto simp: il_push_front_def il_of_def unlinked_def graft_def fun_eq_iff opt_last_def)
  next
    case (Cons x xs)
    have m: "X l = [] @ x # xs" using Cons by simp
    have "x \<noteq> e" using assms(2) Cons by (metis list.set_intros(1))
    then show ?thesis using u member_links [OF assms(1) m] rep_list [OF assms(1), of l] Cons
      by (intro exI conjI [rotated]) (rule g [simplified], auto simp: il_push_front_def il_of_def unlinked_def graft_def fun_eq_iff opt_last_def)
  qed
qed

lemma push_back_ok:
  assumes "reps h X" "\<forall>k. e \<notin> set (X k)"
  shows "\<exists>h'. il_push_back l e h = Some h' \<and> reps h' (X(l := X l @ [e]))"
proof -
  have u: "unlinked h e" using rep_unlinked assms by blast
  have g: "reps h' (X(l := X l @ e # []))" if "nodes h' = graft l (X l) e [] (nodes h)" "lists_of h' = (lists_of h)(l := il_of (X l @ e # []))" for h'
    by (rule reps_graft [OF assms(1) _ assms(2) that]) simp
  show ?thesis
  proof (cases "X l = []")
    case True
    then show ?thesis using u g assms(1) rep_list [OF assms(1), of l]
      by (intro exI conjI [rotated]) (rule g, auto simp: il_push_back_def il_empty_def il_of_def unlinked_def graft_def fun_eq_iff opt_last_def)
  next
    case False
    then have t: "opt_last (X l) = Some (last (X l))" "opt_hd (X l) = Some (hd (X l))" by (simp_all add: opt_last_def opt_hd_def split: list.splits)
    have "linkPrev e (last (X l)) l h = Some (h\<lparr>nodes := graft l (X l) e [] (nodes h)\<rparr>)"
      by (rule linkPrev_graft [OF assms(1) _ assms(2) t(1)]) simp
    then show ?thesis using u t False rep_list [OF assms(1), of l]
      by (intro exI conjI [rotated]) (rule g, auto simp: il_push_back_def il_empty_def il_of_def)
  qed
qed

lemma remove_ok:
  assumes "reps h X" "X l = as @ e # bs"
  shows "\<exists>h'. il_remove l e h = Some h' \<and> reps h' (X(l := as @ bs))"
proof -
  note m = member_links [OF assms]
  have g: "reps h' (X(l := as @ bs))" if "nodes h' = cut as e bs (nodes h)" "lists_of h' = (lists_of h)(l := il_of (as @ bs))" for h'
    by (rule reps_cut [OF assms that])
  have "hd as \<noteq> e" if "as \<noteq> []" using m(4) hd_in_set [OF that] by auto
  then have hd: "il_head (lists_of h l) = Some e \<longleftrightarrow> as = []" using m(5) by (auto simp: il_of_def)
  have "last bs \<noteq> e" if "bs \<noteq> []" using m(4) last_in_set [OF that] by auto
  then have tl: "il_tail (lists_of h l) = Some e \<longleftrightarrow> bs = []" using m(5) by (auto simp: il_of_def)
  have u: "unlink e l h1 = Some (h1\<lparr>nodes := cut as e bs (nodes h)\<rparr>)" if "nodes h1 = nodes h" for h1
    by (rule unlink_cut [OF assms that])
  have opts: "opt_hd (as @ bs) = (if as = [] then opt_hd bs else opt_hd as)" "opt_last (as @ bs) = (if bs = [] then opt_last as else opt_last bs)"
      "opt_hd (as @ e # bs) = (if as = [] then Some e else opt_hd as)" "opt_last (as @ e # bs) = (if bs = [] then Some e else opt_last bs)"
    by (cases as; simp add: opt_last_def)+
  show ?thesis using hd tl m(1,2,5) opts
    by (intro exI conjI [rotated]) (rule g, auto simp: il_remove_def u Let_def il_of_def)
qed

lemma set_opt_owner: "(\<And>x. nd_owner (f x) = nd_owner x) \<Longrightarrow> nd_owner (nodes (set_opt p f h) e) = nd_owner (nodes h e)"
  by (simp add: set_opt_def split: option.split)

lemma foreign_unlink: "nd_owner (nodes h e) \<noteq> Some l \<Longrightarrow> unlink e l h = None"
  by (simp add: unlink_def Let_def set_opt_owner)

lemma foreign_remove:
  assumes "reps h X" "e \<notin> set (X l)"
  shows "il_remove l e h = None"
proof -
  have "unlink e l h1 = None" if "nodes h1 = nodes h" for h1
    using assms that by (intro foreign_unlink) (simp add: reps_def)
  then show ?thesis by (simp add: il_remove_def Let_def)
qed

lemma pop_front_ok:
  assumes "reps h X"
  shows "\<exists>h'. il_pop_front l h = Some h' \<and> reps h' (X(l := tl (X l)))"
proof (cases "X l")
  case Nil
  then have "il_pop_front l h = Some h" "X(l := tl (X l)) = X" using rep_list [OF assms, of l] by (auto simp: il_pop_front_def il_of_def)
  then show ?thesis using assms by simp
next
  case (Cons e bs)
  then have Xl: "X l = [] @ e # bs" by simp
  note m = member_links [OF assms Xl]
  have "il_pop_front l h = Some (set_list l (\<lambda>x. x\<lparr>il_tail := (if il_head x = None then None else il_tail x), il_elems := il_elems x - 1\<rparr>)
     ((set_list l (\<lambda>x. x\<lparr>il_head := opt_hd bs\<rparr>) h)\<lparr>nodes := cut [] e bs (nodes h)\<rparr>))"
    using m(1,5) unlink_cut [OF assms Xl] by (simp add: il_pop_front_def il_of_def)
  moreover have "il_of bs = \<lparr>il_head = opt_hd bs, il_tail = (if opt_hd bs = None then None else opt_last (e # bs)), il_elems = length bs\<rparr>"
    by (cases bs) (simp_all add: il_of_def opt_last_def)
  ultimately show ?thesis using reps_cut [OF assms Xl] m(5) Cons by (auto simp: il_of_def)
qed

lemma pop_back_ok:
  assumes "reps h X"
  shows "\<exists>h'. il_pop_back l h = Some h' \<and> reps h' (X(l := butlast (X l)))"
proof (cases "X l" rule: rev_cases)
  case Nil
  then have "il_pop_back l h = Some h" "X(l := butlast (X l)) = X"
    using rep_list [OF assms, of l] by (auto simp: il_pop_back_def il_empty_def il_of_def)
  then show ?thesis using assms by simp
next
  case (snoc as e)
  note m = member_links [OF assms snoc]
  have "il_pop_back l h = Some (set_list l (\<lambda>x. x\<lparr>il_head := (if il_tail x = None then None else il_head x), il_elems := il_elems x - 1\<rparr>)
     ((set_list l (\<lambda>x. x\<lparr>il_tail := opt_last as\<rparr>) h)\<lparr>nodes := cut as e [] (nodes h)\<rparr>))"
    using m(2,5) unlink_cut [OF assms snoc] by (simp add: il_pop_back_def il_empty_def il_of_def)
  moreover have "il_of as = \<lparr>il_head = (if opt_last as = None then None else opt_hd (as @ [e])), il_tail = opt_last as, il_elems = length as\<rparr>"
    by (cases as) (simp_all add: il_of_def opt_last_def)
  ultimately show ?thesis using reps_cut [OF assms snoc] m(5) snoc by (auto simp: il_of_def)
qed

lemma insertAfter_ok:
  assumes "reps h X" "X l = as @ p # bs" "\<forall>k. e \<notin> set (X k)"
  shows "\<exists>h'. il_insertAfter l p e h = Some h' \<and> reps h' (X(l := as @ p # e # bs))"
proof -
  have Xl: "X l = (as @ [p]) @ bs" using assms(2) by simp
  note m = member_links [OF assms(1,2)]
  have o: "nd_owner (nodes h e) = None" using rep_owner [OF assms(1)] assms(3) by blast
  have lk: "linkPrev e p l h = Some (h\<lparr>nodes := graft l (as @ [p]) e bs (nodes h)\<rparr>)"
    by (rule linkPrev_graft [OF assms(1) Xl assms(3)]) simp
  have "last bs \<noteq> p" if "bs \<noteq> []" using m(4) last_in_set [OF that] by auto
  then have tl: "il_tail (lists_of h l) = Some p \<longleftrightarrow> bs = []" using m(5) by (auto simp: il_of_def)
  have il: "il_of (as @ p # e # bs) = (il_of (as @ p # bs))\<lparr>il_tail := (if bs = [] then Some e else il_tail (il_of (as @ p # bs))),
      il_elems := Suc (il_elems (il_of (as @ p # bs)))\<rparr>"
    by (simp add: il_of_def)
  have "il_insertAfter l p e h = Some (set_list l (\<lambda>x. il_of (as @ p # e # bs)) (h\<lparr>nodes := graft l (as @ [p]) e bs (nodes h)\<rparr>))"
    using o m(3,5) lk tl il by (simp add: il_insertAfter_def set_list_def Let_def)
  then show ?thesis using reps_graft [OF assms(1) Xl assms(3)] by auto
qed

subsection \<open>The interface of linked lists\<close>

text \<open>The specification: one step on a family of sequences, undefined where the code aborts.\<close>

datatype list_op = PushFront list_id node | PushBack list_id node | PopFront list_id | PopBack list_id
  | Remove list_id node | InsertAfter list_id node node

definition is_free :: "(list_id \<Rightarrow> node list) \<Rightarrow> node \<Rightarrow> bool" where
  "is_free X e \<longleftrightarrow> (\<forall>k. e \<notin> set (X k))"

fun insert_after :: "node \<Rightarrow> node \<Rightarrow> node list \<Rightarrow> node list" where
  "insert_after p e [] = []"
| "insert_after p e (x # xs) = (if x = p then x # e # xs else x # insert_after p e xs)"

fun spec_op :: "list_op \<Rightarrow> (list_id \<Rightarrow> node list) \<Rightarrow> (list_id \<Rightarrow> node list) option" where
  "spec_op (PushFront l e) X = (if is_free X e then Some (X(l := e # X l)) else None)"
| "spec_op (PushBack l e) X = (if is_free X e then Some (X(l := X l @ [e])) else None)"
| "spec_op (PopFront l) X = Some (X(l := tl (X l)))"
| "spec_op (PopBack l) X = Some (X(l := butlast (X l)))"
| "spec_op (Remove l e) X = (if e \<in> set (X l) then Some (X(l := remove1 e (X l))) else None)"
| "spec_op (InsertAfter l p e) X = (if is_free X e \<and> p \<in> set (X l) then Some (X(l := insert_after p e (X l))) else None)"

fun spec_run :: "list_op list \<Rightarrow> (list_id \<Rightarrow> node list) \<Rightarrow> (list_id \<Rightarrow> node list) option" where
  "spec_run [] X = Some X"
| "spec_run (op # ops) X = do { X' \<leftarrow> spec_op op X; spec_run ops X' }"

primrec run_ops :: "(list_op \<Rightarrow> 's \<Rightarrow> 's option) \<Rightarrow> list_op list \<Rightarrow> 's \<Rightarrow> 's option" where
  "run_ops ex [] s = Some s"
| "run_ops ex (op # ops) s = do { s' \<leftarrow> ex op s; run_ops ex ops s' }"

text \<open>The walk of a client along the list, for as long as the next key does not exceed a bound.\<close>

partial_function (option) walk_le :: "(node \<Rightarrow> node option) \<Rightarrow> (node \<Rightarrow> nat) \<Rightarrow> nat \<Rightarrow> node \<Rightarrow> node option" where
  "walk_le nxt key w cur = (case nxt cur of None \<Rightarrow> Some cur | Some n \<Rightarrow> if key n \<le> w then walk_le nxt key w n else Some cur)"

declare walk_le.simps [code]

locale linked_lists =
  fixes rep :: "'s \<Rightarrow> (list_id \<Rightarrow> node list) \<Rightarrow> bool"
    and exec :: "list_op \<Rightarrow> 's \<Rightarrow> 's option"
    and front :: "list_id \<Rightarrow> 's \<Rightarrow> node option"
    and succ :: "node \<Rightarrow> 's \<Rightarrow> node option"
  assumes exec_some: "rep s X \<Longrightarrow> spec_op op X = Some X' \<Longrightarrow> \<exists>s'. exec op s = Some s' \<and> rep s' X'"
    and exec_none: "rep s X \<Longrightarrow> spec_op op X = None \<Longrightarrow> exec op s = None"
    and front_law: "rep s X \<Longrightarrow> front l s = opt_hd (X l)"
    and succ_law: "rep s X \<Longrightarrow> X l = as @ x # bs \<Longrightarrow> succ x s = opt_hd bs"
    and distinct_law: "rep s X \<Longrightarrow> distinct (X l)"
begin

lemma run_refines:
  assumes "rep s X"
  shows "case spec_run ops X of None \<Rightarrow> run_ops exec ops s = None | Some X' \<Rightarrow> \<exists>s'. run_ops exec ops s = Some s' \<and> rep s' X'"
  using assms
proof (induction ops arbitrary: s X)
  case (Cons op ops)
  show ?case
  proof (cases "spec_op op X")
    case None
    then show ?thesis using exec_none [OF Cons.prems] by simp
  next
    case (Some X1)
    then obtain s1 where "exec op s = Some s1" "rep s1 X1" using exec_some [OF Cons.prems] by blast
    then show ?thesis using Cons.IH [of s1 X1] Some by (cases "spec_run ops X1") simp_all
  qed
qed simp

lemma walk_ok:
  assumes "rep s X" "X l = as @ x # bs"
  shows "walk_le (\<lambda>y. succ y s) key w x = Some (last (x # takeWhile (\<lambda>y. key y \<le> w) bs))"
  using assms(2)
proof (induction bs arbitrary: as x)
  case Nil
  then show ?case using succ_law [OF assms(1), of l as x "[]"] by (subst walk_le.simps) simp
next
  case (Cons b bs)
  have "succ x s = Some b" using succ_law [OF assms(1) Cons.prems] by simp
  moreover have "walk_le (\<lambda>y. succ y s) key w b = Some (last (b # takeWhile (\<lambda>y. key y \<le> w) bs))"
    using Cons.IH [of "as @ [x]" b] Cons.prems by simp
  ultimately show ?case by (subst walk_le.simps) simp
qed

end

fun il_exec :: "list_op \<Rightarrow> inlists \<Rightarrow> inlists option" where
  "il_exec (PushFront l e) h = il_push_front l e h"
| "il_exec (PushBack l e) h = il_push_back l e h"
| "il_exec (PopFront l) h = il_pop_front l h"
| "il_exec (PopBack l) h = il_pop_back l h"
| "il_exec (Remove l e) h = il_remove l e h"
| "il_exec (InsertAfter l p e) h = il_insertAfter l p e h"

lemma insert_after_split: "p \<notin> set as \<Longrightarrow> insert_after p e (as @ p # bs) = as @ p # e # bs"
  by (induction as) auto

lemma il_exec_some:
  assumes "reps h X" "spec_op op X = Some X'"
  shows "\<exists>h'. il_exec op h = Some h' \<and> reps h' X'"
proof (cases op)
  case (Remove l e)
  then have "e \<in> set (X l)" "X' = X(l := remove1 e (X l))" using assms(2) by (auto split: if_splits)
  moreover from this(1) obtain as bs where s: "X l = as @ e # bs" "e \<notin> set as" by (meson split_list_first)
  ultimately show ?thesis using remove_ok [OF assms(1) s(1)] Remove by (simp add: remove1_append)
next
  case (InsertAfter l p e)
  then have g: "is_free X e" "p \<in> set (X l)" "X' = X(l := insert_after p e (X l))" using assms(2) by (auto split: if_splits)
  from g(2) obtain as bs where s: "X l = as @ p # bs" "p \<notin> set as" by (meson split_list_first)
  then show ?thesis using insertAfter_ok [OF assms(1) s(1)] g(1,3) InsertAfter by (simp add: is_free_def insert_after_split)
qed (use assms push_front_ok push_back_ok pop_front_ok pop_back_ok in \<open>auto simp: is_free_def split: if_splits\<close>)

lemma il_exec_none:
  assumes "reps h X" "spec_op op X = None"
  shows "il_exec op h = None"
proof (cases op)
  case (InsertAfter l p e)
  then have "\<not> is_free X e \<or> p \<notin> set (X l)" using assms(2) by (auto split: if_splits)
  then have "nd_owner (nodes h e) \<noteq> None \<or> nd_owner (nodes h p) \<noteq> Some l"
    using assms(1) rep_owner [OF assms(1)] by (auto simp: is_free_def reps_def)
  then show ?thesis using InsertAfter by (auto simp: il_insertAfter_def)
next
  case (PushFront l e)
  then have "\<not> unlinked h e" using assms rep_unlinked by (auto simp: is_free_def split: if_splits)
  then show ?thesis using PushFront by (simp add: il_push_front_def)
next
  case (PushBack l e)
  then have "\<not> unlinked h e" using assms rep_unlinked by (auto simp: is_free_def split: if_splits)
  then show ?thesis using PushBack by (simp add: il_push_back_def)
next
  case (Remove l e)
  then show ?thesis using assms foreign_remove by (simp split: if_splits)
qed (use assms in simp_all)

interpretation il: linked_lists reps il_exec "\<lambda>l h. il_head (lists_of h l)" "\<lambda>e h. nd_next (nodes h e)"
proof unfold_locales
  show "\<exists>s'. il_exec op s = Some s' \<and> reps s' X'" if "reps s X" "spec_op op X = Some X'" for s X op X'
    using that by (rule il_exec_some)
  show "il_exec op s = None" if "reps s X" "spec_op op X = None" for s X op using that by (rule il_exec_none)
  show "il_head (lists_of s l) = opt_hd (X l)" if "reps s X" for s X l using rep_list [OF that] by (simp add: il_of_def)
  show "nd_next (nodes s x) = opt_hd bs" if "reps s X" "X l = as @ x # bs" for s X l as x bs using that by (rule member_links)
  show "distinct (X l)" if "reps s X" for s X l using that by (simp add: reps_def)
qed

definition inlists_new :: inlists where
  "inlists_new = \<lparr>nodes = (\<lambda>_. InListNode_new), lists_of = (\<lambda>_. InList_new)\<rparr>"

lemma reps_new: "reps inlists_new (\<lambda>_. [])"
  by (simp add: reps_def inlists_new_def il_of_def InList_new_def InListNode_new_def)

text \<open>The ordered insertion of the scheduler's sleep queue (\<^verbatim>\<open>Scheduler::leave\<close>).\<close>

definition sleepQueue_insert :: "list_id \<Rightarrow> (node \<Rightarrow> nat) \<Rightarrow> node \<Rightarrow> inlists \<Rightarrow> inlists option" where
  "sleepQueue_insert l wakeupPhase e h = (case il_head (lists_of h l) of
     None \<Rightarrow> il_push_front l e h
   | Some f \<Rightarrow>
       if wakeupPhase f > wakeupPhase e then il_push_front l e h
       else do {
         cur \<leftarrow> walk_le (\<lambda>x. nd_next (nodes h x)) wakeupPhase (wakeupPhase e) f;
         il_insertAfter l cur e h })"

definition ord_insert :: "('a \<Rightarrow> nat) \<Rightarrow> 'a \<Rightarrow> 'a list \<Rightarrow> 'a list" where
  "ord_insert key e xs = takeWhile (\<lambda>y. key y \<le> key e) xs @ e # dropWhile (\<lambda>y. key y \<le> key e) xs"

lemma dropWhile_above: "sorted (map key xs) \<Longrightarrow> y \<in> set (dropWhile (\<lambda>z. key z \<le> (w :: nat)) xs) \<Longrightarrow> w < key y"
  by (induction xs) (auto split: if_splits)

lemma ord_insert_sorted:
  assumes "sorted (map key xs)"
  shows "sorted (map key (ord_insert key e xs))"
proof -
  let ?P = "\<lambda>y. key y \<le> key e"
  have "sorted (map key (takeWhile ?P xs))" "sorted (map key (dropWhile ?P xs))"
    using assms by (metis map_append sorted_append takeWhile_dropWhile_id)+
  moreover have "\<forall>y \<in> set (dropWhile ?P xs). key e < key y" using dropWhile_above [OF assms] by blast
  moreover have "\<forall>y \<in> set (takeWhile ?P xs). key y \<le> key e" by (metis set_takeWhileD)
  ultimately show ?thesis by (fastforce simp: ord_insert_def sorted_append)
qed

lemma ord_insert_set: "set (ord_insert key e xs) = insert e (set xs)" "distinct (ord_insert key e xs) \<longleftrightarrow> e \<notin> set xs \<and> distinct xs"
proof -
  have "set xs = set (takeWhile P xs) \<union> set (dropWhile P xs)" for P by (metis set_append takeWhile_dropWhile_id)
  moreover have "distinct xs \<longleftrightarrow> distinct (takeWhile P xs @ dropWhile P xs)" for P by simp
  ultimately show "set (ord_insert key e xs) = insert e (set xs)" "distinct (ord_insert key e xs) \<longleftrightarrow> e \<notin> set xs \<and> distinct xs"
    unfolding ord_insert_def by (auto simp del: takeWhile_dropWhile_id)
qed

lemma sleepQueue_insert_ok:
  assumes "reps h X" "is_free X e"
  shows "\<exists>h'. sleepQueue_insert l key e h = Some h' \<and> reps h' (X(l := ord_insert key e (X l)))"
proof (cases "X l")
  case Nil
  then have "il_head (lists_of h l) = None" using il.front_law [OF assms(1), of l] by simp
  then show ?thesis using push_front_ok [OF assms(1), of e l] assms(2) Nil by (simp add: sleepQueue_insert_def ord_insert_def is_free_def)
next
  case (Cons f bs)
  then have hd: "il_head (lists_of h l) = Some f" using il.front_law [OF assms(1), of l] by simp
  show ?thesis
  proof (cases "key f > key e")
    case True
    then show ?thesis using push_front_ok [OF assms(1), of e l] assms(2) Cons hd by (simp add: sleepQueue_insert_def ord_insert_def is_free_def)
  next
    case False
    let ?t = "takeWhile (\<lambda>y. key y \<le> key e) bs" let ?d = "dropWhile (\<lambda>y. key y \<le> key e) bs"
    have "X l = [] @ f # bs" using Cons by simp
    from il.walk_ok [OF assms(1) this, of key "key e"]
    have w: "walk_le (\<lambda>x. nd_next (nodes h x)) key (key e) f = Some (last (f # ?t))" .
    have "X l = butlast (f # ?t) @ last (f # ?t) # ?d"
      using Cons by (metis append_Cons append_butlast_last_id append.assoc append_Nil list.distinct(1) takeWhile_dropWhile_id)
    from insertAfter_ok [OF assms(1) this] assms(2)
    obtain h' where "il_insertAfter l (last (f # ?t)) e h = Some h'" "reps h' (X(l := butlast (f # ?t) @ last (f # ?t) # e # ?d))"
      unfolding is_free_def by blast
    moreover have "butlast (f # ?t) @ last (f # ?t) # e # ?d = f # ?t @ e # ?d"
      by (metis append_Cons append_butlast_last_id append.assoc append_Nil list.distinct(1))
    then have "ord_insert key e (X l) = butlast (f # ?t) @ last (f # ?t) # e # ?d" using Cons False by (simp add: ord_insert_def)
    moreover have "sleepQueue_insert l key e h = il_insertAfter l (last (f # ?t)) e h" using hd w False by (simp add: sleepQueue_insert_def)
    ultimately show ?thesis by (metis (no_types, lifting))
  qed
qed

text \<open>C34: the intrusive lists implement sequences. Whatever calls are made on lists that start empty, the pointer structure
  aborts exactly when a call is not allowed (linking a node that some list holds, removing or inserting after a node of
  another list); otherwise every list, read forwards or backwards, holds what the sequence operations give, its nodes know
  their owner, nodes in no list are clean, and the sizes are right.\<close>

theorem inlist_implements_sequences:
  "case spec_run ops (\<lambda>_. []) of
     None \<Rightarrow> run_ops il_exec ops inlists_new = None
   | Some X \<Rightarrow> \<exists>h. run_ops il_exec ops inlists_new = Some h \<and> reps h X \<and> (\<forall>l. il_size l h = length (X l))"
  using il.run_refines [OF reps_new, of ops] by (auto simp: il_size_def rep_list il_of_def split: option.splits)

text \<open>The sleep queue stays ordered. Inserting a free node into a queue ordered by wake-up phase, by walking its links as
  \<^verbatim>\<open>Scheduler::leave\<close> does, always ends; the queue is ordered again, holds exactly one node more, and nodes with the same
  wake-up phase keep their order of arrival; no other queue changes.\<close>

lemma sleep_queue_stays_ordered:
  assumes "reps h X" "is_free X e" "sorted (map key (X l))"
  shows "\<exists>h' ys. sleepQueue_insert l key e h = Some h' \<and> reps h' (X(l := ys)) \<and> sorted (map key ys)
    \<and> set ys = insert e (set (X l)) \<and> filter (\<lambda>y. key y = key e) ys = filter (\<lambda>y. key y = key e) (X l) @ [e]"
proof -
  have s: "sorted (map key (ord_insert key e (X l)))" by (rule ord_insert_sorted [OF assms(3)])
  have "filter (\<lambda>y. key y = key e) (dropWhile (\<lambda>y. key y \<le> key e) (X l)) = []"
    using dropWhile_above [OF assms(3), of _ "key e"] by (force simp: filter_empty_conv)
  moreover have "filter P (X l) = filter P (takeWhile Q (X l)) @ filter P (dropWhile Q (X l))" for P Q
    by (metis filter_append takeWhile_dropWhile_id)
  ultimately have "filter (\<lambda>y. key y = key e) (X l) = filter (\<lambda>y. key y = key e) (takeWhile (\<lambda>y. key y \<le> key e) (X l))"
      "filter (\<lambda>y. key y = key e) (dropWhile (\<lambda>y. key y \<le> key e) (X l)) = []"
    by (metis append_Nil2)+
  then have "filter (\<lambda>y. key y = key e) (ord_insert key e (X l)) = filter (\<lambda>y. key y = key e) (X l) @ [e]"
    unfolding ord_insert_def by simp
  moreover obtain h' where "sleepQueue_insert l key e h = Some h'" "reps h' (X(l := ord_insert key e (X l)))"
    using sleepQueue_insert_ok [OF assms(1,2)] by blast
  ultimately show ?thesis using s ord_insert_set(1) by (intro exI conjI) assumption+
qed

end
