(* ===== verification/Scheduler.thy ===== *)
theory Scheduler
  imports Barrier InList
begin

text \<open>
  The scheduler of \<^verbatim>\<open>src/src/scheduler.h\<close> and \<^verbatim>\<open>scheduler.cpp\<close>: it assigns the threads of the simulated processes to contexts
  (cores), queues the threads that find none, hands contexts over at the end of a quantum, and keeps the threads that sleep
  until a phase. The barrier of \<open>Barrier\<close> decides when a phase ends and calls back.

  Every operation runs under \<^verbatim>\<open>schedLock\<close> and is one atomic step here; \<^verbatim>\<open>sync\<close> releases the lock in the middle and is two
  steps, \<open>sched_sync\<close> and \<open>sync_handoff\<close>. A \<^verbatim>\<open>ThreadInfo\<close> is named by its global identifier, a context by its index. The queues
  are sequences, which the intrusive lists implement (\<open>InList\<close>). The calls to the cores are recorded in \<open>coreLog\<close>; the system
  calls that put a thread to sleep or wake it have no effect on this state but through \<^verbatim>\<open>futexWord\<close>. \<^verbatim>\<open>wakeup\<close> is always called
  with \<^verbatim>\<open>needsJoin\<close> false, so nothing happens after the wait in \<^verbatim>\<open>waitForContext\<close>. The entry of \<open>gidMap\<close> stands for the object too, so
  \<^verbatim>\<open>finish\<close> removes it where the code deletes the object. Statistics and the simulator's own
  end-of-phase actions are left out.
\<close>

subsection \<open>State\<close>

type_synonym gid = u32

datatype ThreadState = TH_STARTED | TH_RUNNING | TH_OUT | TH_BLOCKED | TH_SLEEPING | TH_QUEUED

datatype ContextState = IDLE | USED

datatype FutexJoinAction = FJA_NONE | FJA_WAKE | FJA_WAIT

record FutexJoinInfo =
  fj_action :: FutexJoinAction
  maxWakes :: u32
  wokenUp :: u32

record ThreadInfo =
  th_state :: ThreadState
  th_cid :: nat
  handoffThread :: "gid option"
  th_futexWord :: nat
  needsJoin :: bool
  markedForSleep :: bool
  wakeupPhase :: nat
  th_mask :: "bool list"
  fakeLeave :: "u64 option"
  futexJoin :: FutexJoinInfo

record ContextInfo =
  ctx_state :: ContextState
  curThread :: "gid option"

datatype core_call = CoreJoin nat | CoreLeave nat | CoreSwitch nat "gid option"

record sched =
  gidMap :: "gid \<Rightarrow> ThreadInfo option"
  contexts :: "ContextInfo list"
  freeList :: "nat list"
  runQueue :: "gid list"
  outQueue :: "gid list"
  sleepQueue :: "gid list"
  fakeLeaves :: "gid list"
  schedQuantum :: nat
  curPhase :: nat
  numPhases :: nat
  sc_rnd :: MTRand
  scheduledThreads :: nat
  blockingSyscalls :: "nat \<Rightarrow> u64 set"
  maxAllowedFutexWakeups :: u32
  unmatchedFutexWakeups :: u32
  coreLog :: "core_call list"

text \<open>The constructor leaves \<^verbatim>\<open>needsJoin\<close> and the two counts of \<^verbatim>\<open>futexJoin\<close> as they are in memory (\<open>junk\<close>).\<close>

definition ThreadInfo_new :: "bool \<times> u32 \<times> u32 \<Rightarrow> bool list \<Rightarrow> ThreadInfo" where
  "ThreadInfo_new junk msk = \<lparr>th_state = TH_STARTED, th_cid = 0, handoffThread = None, th_futexWord = 0, needsJoin = fst junk,
     markedForSleep = False, wakeupPhase = 0, th_mask = msk, fakeLeave = None,
     futexJoin = \<lparr>fj_action = FJA_NONE, maxWakes = fst (snd junk), wokenUp = snd (snd junk)\<rparr>\<rparr>"

definition Scheduler_new :: "nat \<Rightarrow> nat \<Rightarrow> sched" where
  "Scheduler_new numCores quantum = \<lparr>gidMap = Map.empty, contexts = replicate numCores \<lparr>ctx_state = IDLE, curThread = None\<rparr>,
     freeList = [0..<numCores], runQueue = [], outQueue = [], sleepQueue = [], fakeLeaves = [], schedQuantum = quantum,
     curPhase = 0, numPhases = 0, sc_rnd = mt_seed 0x5C73D9134, scheduledThreads = 0, blockingSyscalls = (\<lambda>_. {}),
     maxAllowedFutexWakeups = 0, unmatchedFutexWakeups = 0, coreLog = []\<rparr>"

definition getGid :: "u32 \<Rightarrow> u32 \<Rightarrow> gid" where "getGid pid tid = (push_bit 16 pid) OR tid"
definition getPid :: "gid \<Rightarrow> u32" where "getPid g = drop_bit 16 g"
definition getTid :: "gid \<Rightarrow> u32" where "getTid g = g AND 0x0FFFF"

definition upd_th :: "gid \<Rightarrow> (ThreadInfo \<Rightarrow> ThreadInfo) \<Rightarrow> sched \<Rightarrow> sched" where
  "upd_th g f s = s\<lparr>gidMap := (gidMap s)(g := map_option f (gidMap s g))\<rparr>"

definition upd_ctx :: "nat \<Rightarrow> (ContextInfo \<Rightarrow> ContextInfo) \<Rightarrow> sched \<Rightarrow> sched" where
  "upd_ctx c f s = s\<lparr>contexts := (contexts s)[c := f (contexts s ! c)]\<rparr>"

definition core :: "core_call \<Rightarrow> sched \<Rightarrow> sched" where
  "core x s = s\<lparr>coreLog := coreLog s @ [x]\<rparr>"

text \<open>A node of the intrusive lists: removing needs the right owner, linking needs none.\<close>

definition list_remove :: "'a \<Rightarrow> 'a list \<Rightarrow> 'a list option" where
  "list_remove x xs = (if x \<in> set xs then Some (remove1 x xs) else None)"

definition no_owner :: "gid \<Rightarrow> sched \<Rightarrow> bool" where
  "no_owner g s \<longleftrightarrow> g \<notin> set (runQueue s) \<and> g \<notin> set (outQueue s) \<and> g \<notin> set (sleepQueue s)"

definition allows :: "sched \<Rightarrow> gid \<Rightarrow> nat \<Rightarrow> bool" where
  "allows s g c \<longleftrightarrow> (case gidMap s g of None \<Rightarrow> False | Some th \<Rightarrow> th_mask th ! c)"

definition cid_of :: "sched \<Rightarrow> gid \<Rightarrow> nat" where
  "cid_of s g = (case gidMap s g of None \<Rightarrow> 0 | Some th \<Rightarrow> th_cid th)"

subsection \<open>Threads and contexts\<close>

definition schedule :: "gid \<Rightarrow> nat \<Rightarrow> sched \<Rightarrow> sched option" where
  "schedule g c s = do {
     th \<leftarrow> gidMap s g;
     assert_that (th_state th = TH_STARTED \<or> th_state th = TH_BLOCKED \<or> th_state th = TH_QUEUED);
     assert_that (ctx_state (contexts s ! c) = IDLE);
     assert_that (curThread (contexts s ! c) = None);
     let s1 = upd_th g (\<lambda>t. t\<lparr>th_state := TH_RUNNING, th_cid := c\<rparr>) s;
     let s2 = upd_ctx c (\<lambda>x. x\<lparr>ctx_state := USED, curThread := Some g\<rparr>) s1;
     Some (core (CoreSwitch c (Some g)) (s2\<lparr>scheduledThreads := Suc (scheduledThreads s2)\<rparr>)) }"

definition deschedule :: "gid \<Rightarrow> nat \<Rightarrow> ThreadState \<Rightarrow> sched \<Rightarrow> sched option" where
  "deschedule g c targetState s = do {
     th \<leftarrow> gidMap s g;
     assert_that (th_state th = TH_RUNNING \<or> th_state th = TH_OUT);
     assert_that (ctx_state (contexts s ! c) = USED);
     assert_that (c = th_cid th);
     assert_that (curThread (contexts s ! c) = Some g);
     assert_that (targetState = TH_BLOCKED \<or> targetState = TH_QUEUED \<or> targetState = TH_SLEEPING);
     let s1 = upd_th g (\<lambda>t. t\<lparr>th_state := targetState\<rparr>) s;
     let s2 = upd_ctx c (\<lambda>x. x\<lparr>ctx_state := IDLE, curThread := None\<rparr>) s1;
     Some (core (CoreSwitch c None) (s2\<lparr>scheduledThreads := scheduledThreads s2 - 1\<rparr>)) }"

text \<open>\<^verbatim>\<open>waitForContext\<close> up to the wait.\<close>

definition waitForContext :: "gid \<Rightarrow> sched \<Rightarrow> sched" where
  "waitForContext g s = upd_th g (\<lambda>t. t\<lparr>th_futexWord := 1\<rparr>) s"

definition wakeup :: "gid \<Rightarrow> bool \<Rightarrow> sched \<Rightarrow> sched option" where
  "wakeup g nj s = do {
     th \<leftarrow> gidMap s g;
     assert_that (th_futexWord th = 1);
     Some (upd_th g (\<lambda>t. t\<lparr>needsJoin := nj, th_futexWord := 0\<rparr>) s) }"

subsection \<open>The policy\<close>

definition schedThread :: "gid \<Rightarrow> sched \<Rightarrow> (nat option \<times> sched) option" where
  "schedThread g s = do {
     th \<leftarrow> gidMap s g;
     assert_that (th_cid th < length (contexts s));
     (ctx, s') \<leftarrow>
       (if ctx_state (contexts s ! th_cid th) = IDLE \<and> th_mask th ! th_cid th then do {
          fl \<leftarrow> list_remove (th_cid th) (freeList s);
          Some (Some (th_cid th), s\<lparr>freeList := fl\<rparr>) }
        else case find (\<lambda>c. th_mask th ! c) (freeList s) of
          Some c \<Rightarrow> Some (Some c, s\<lparr>freeList := remove1 c (freeList s)\<rparr>)
        | None \<Rightarrow>
          (case find (\<lambda>t. th_mask th ! cid_of s t) (outQueue s) of
             Some t \<Rightarrow> do {
               s1 \<leftarrow> deschedule t (cid_of s t) TH_BLOCKED (s\<lparr>outQueue := remove1 t (outQueue s)\<rparr>);
               Some (Some (cid_of s t), s1) }
           | None \<Rightarrow> Some (None, s)));
     assert_that (case ctx of None \<Rightarrow> True | Some c \<Rightarrow> th_mask th ! c);
     Some (ctx, s') }"

definition schedContext :: "nat \<Rightarrow> sched \<Rightarrow> gid option \<times> sched" where
  "schedContext c s = (case find (\<lambda>g. allows s g c) (runQueue s) of
     None \<Rightarrow> (None, s) | Some g \<Rightarrow> (Some g, s\<lparr>runQueue := remove1 g (runQueue s)\<rparr>))"

text \<open>\<^verbatim>\<open>schedTick\<close>: a random order of the contexts, then each queued thread takes the first that its mask allows.\<close>

fun avail_shuffle :: "nat \<Rightarrow> nat list \<Rightarrow> MTRand \<Rightarrow> (nat list \<times> MTRand) option" where
  "avail_shuffle 0 xs g = Some (xs, g)"
| "avail_shuffle (Suc i) xs g = do {
     (j, g') \<leftarrow> randInt_n (of_nat (Suc i)) g;
     avail_shuffle i (xs[Suc i := xs ! unat j, unat j := xs ! Suc i]) g' }"

fun tick_loop :: "gid list \<Rightarrow> nat list \<Rightarrow> sched \<Rightarrow> sched option" where
  "tick_loop [] avail s = Some s"
| "tick_loop (g # gs) avail s =
     (if avail = [] then Some s
      else case find (\<lambda>c. allows s g c) avail of
        None \<Rightarrow> tick_loop gs avail s
      | Some c \<Rightarrow> do {
          victim \<leftarrow> curThread (contexts s ! c);
          let s1 = upd_th victim (\<lambda>t. t\<lparr>handoffThread := Some g\<rparr>) s;
          tick_loop gs (remove1 c avail) (s1\<lparr>runQueue := remove1 g (runQueue s1)\<rparr>) })"

definition printState_ok :: "sched \<Rightarrow> bool" where
  "printState_ok s \<longleftrightarrow> (\<forall>x \<in> set (contexts s). ctx_state x = USED \<longrightarrow>
     (case curThread x of None \<Rightarrow> False
      | Some g \<Rightarrow> (case gidMap s g of None \<Rightarrow> False | Some th \<Rightarrow> th_state th = TH_RUNNING \<or> th_state th = TH_OUT)))"

definition schedTick :: "sched \<Rightarrow> sched option" where
  "schedTick s = do {
     let n = length (contexts s);
     (avail, g) \<leftarrow> avail_shuffle (n - 1) [0..<n] (sc_rnd s);
     s1 \<leftarrow> tick_loop (runQueue s) avail (s\<lparr>sc_rnd := g\<rparr>);
     assert_that (printState_ok s1);
     Some s1 }"

subsection \<open>The end of a phase\<close>

text \<open>The loop over the sleep queue, whose front is the head of the list.\<close>

fun wake_sleepers :: "gid list \<Rightarrow> sched \<Rightarrow> sched option" where
  "wake_sleepers [] s = Some s"
| "wake_sleepers (g # gs) s = do {
     th \<leftarrow> gidMap s g;
     if wakeupPhase th \<le> curPhase s then do {
       assert_that (wakeupPhase th = curPhase s);
       s1 \<leftarrow> wakeup g False (upd_th g (\<lambda>t. t\<lparr>th_state := TH_BLOCKED\<rparr>) s);
       wake_sleepers gs (s1\<lparr>sleepQueue := gs\<rparr>) }
     else Some s }"

definition sched_callback :: "sched \<Rightarrow> sched option" where
  "sched_callback s = do {
     assert_that (scheduledThreads s \<le> length (contexts s));
     let s1 = s\<lparr>numPhases := Suc (numPhases s), curPhase := Suc (curPhase s)\<rparr>;
     assert_that (curPhase s1 = numPhases s1);
     s2 \<leftarrow> wake_sleepers (sleepQueue s1) s1;
     if runQueue s2 = [] then Some s2
     else do {
       assert_that (schedQuantum s2 \<noteq> 0);
       if curPhase s2 mod schedQuantum s2 = 0 then schedTick s2 else Some s2 } }"

subsection \<open>Operations\<close>

type_synonym sim = "Barrier \<times> sched"

abbreviation on_sched :: "(sched \<Rightarrow> sched option) \<Rightarrow> sim \<Rightarrow> sim option" where
  "on_sched f bs \<equiv> map_option (Pair (fst bs)) (f (snd bs))"

definition sched_start :: "bool \<times> u32 \<times> u32 \<Rightarrow> u32 \<Rightarrow> u32 \<Rightarrow> bool list \<Rightarrow> sched \<Rightarrow> sched option" where
  "sched_start junk pid tid msk s = do {
     let g = getGid pid tid;
     assert_that (gidMap s g = None);
     assert_that (length msk = length (contexts s));
     assert_that (count_list msk True \<noteq> 0);
     Some (s\<lparr>gidMap := (gidMap s)(g \<mapsto> ThreadInfo_new junk msk)\<rparr>) }"

definition finishFakeLeave :: "gid \<Rightarrow> sched \<Rightarrow> sched option" where
  "finishFakeLeave g s = do {
     th \<leftarrow> gidMap s g;
     assert_that (fakeLeave th \<noteq> None);
     assert_that (th_state th = TH_RUNNING);
     fl \<leftarrow> list_remove g (fakeLeaves s);
     Some (upd_th g (\<lambda>t. t\<lparr>fakeLeave := None\<rparr>) (s\<lparr>fakeLeaves := fl\<rparr>)) }"

text \<open>The rest of \<^verbatim>\<open>join\<close> once a thread has no context: take one, or wait in the run queue.\<close>

definition take_context :: "gid \<Rightarrow> sim \<Rightarrow> sim option" where
  "take_context g bs = do {
     (ctx, s1) \<leftarrow> schedThread g (snd bs);
     (case ctx of
        Some c \<Rightarrow> do {
          s2 \<leftarrow> schedule g c s1;
          bar_join sched_callback c (fst bs, core (CoreJoin c) s2) }
      | None \<Rightarrow> do {
          let s2 = upd_th g (\<lambda>t. t\<lparr>th_state := TH_QUEUED\<rparr>) s1;
          assert_that (no_owner g s2);
          Some (fst bs, waitForContext g (s2\<lparr>runQueue := runQueue s2 @ [g]\<rparr>)) }) }"

text \<open>\<^verbatim>\<open>join\<close> after the futex matching, which is a step of its own.\<close>

definition sched_join :: "u32 \<Rightarrow> u32 \<Rightarrow> sim \<Rightarrow> sim option" where
  "sched_join pid tid bs = do {
     let g = getGid pid tid;
     th \<leftarrow> gidMap (snd bs) g;
     if fakeLeave th \<noteq> None then on_sched (finishFakeLeave g) bs
     else do {
       assert_that (\<not> markedForSleep th);
       if th_state th = TH_OUT then do {
         let s1 = upd_th g (\<lambda>t. t\<lparr>th_state := TH_RUNNING\<rparr>) (snd bs);
         oq \<leftarrow> list_remove g (outQueue s1);
         bar_join sched_callback (th_cid th) (fst bs, core (CoreJoin (th_cid th)) (s1\<lparr>outQueue := oq\<rparr>)) }
       else do {
         s1 \<leftarrow> (if th_state th = TH_SLEEPING then do {
                  sq \<leftarrow> list_remove g (sleepQueue (snd bs));
                  Some (upd_th g (\<lambda>t. t\<lparr>th_state := TH_BLOCKED\<rparr>) ((snd bs)\<lparr>sleepQueue := sq\<rparr>)) }
                else Some (snd bs));
         th1 \<leftarrow> gidMap s1 g;
         assert_that (th_state th1 = TH_BLOCKED \<or> th_state th1 = TH_STARTED);
         take_context g (fst bs, s1) } } }"

definition wake_key :: "sched \<Rightarrow> gid \<Rightarrow> nat" where
  "wake_key s g = (case gidMap s g of None \<Rightarrow> 0 | Some th \<Rightarrow> wakeupPhase th)"

text \<open>The ordered insertion is \<open>sleepQueue_insert\<close> of \<open>InList\<close> on the sequence.\<close>

definition sched_leave :: "u32 \<Rightarrow> u32 \<Rightarrow> nat \<Rightarrow> sim \<Rightarrow> sim option" where
  "sched_leave pid tid c bs = do {
     g \<leftarrow> curThread (contexts (snd bs) ! c);
     assert_that (g = getGid pid tid);
     th \<leftarrow> gidMap (snd bs) g;
     assert_that (th_state th = TH_RUNNING);
     let s = core (CoreLeave c) (snd bs);
     if markedForSleep th then do {
       s1 \<leftarrow> deschedule g c TH_SLEEPING (upd_th g (\<lambda>t. t\<lparr>markedForSleep := False\<rparr>) s);
       assert_that (no_owner g s1);
       let s2 = s1\<lparr>sleepQueue := ord_insert (wake_key s1) g (sleepQueue s1)\<rparr>;
       (case schedContext c s2 of
          (Some inTh, s3) \<Rightarrow> do {
            s4 \<leftarrow> schedule inTh c s3;
            s5 \<leftarrow> wakeup inTh False (core (CoreJoin c) s4);
            Some (fst bs, s5) }
        | (None, s3) \<Rightarrow> do {
            assert_that (c \<notin> set (freeList s3));
            bar_leave sched_callback c (fst bs, s3\<lparr>freeList := freeList s3 @ [c]\<rparr>) }) }
     else
       (case schedContext c s of
          (Some inTh, s1) \<Rightarrow> do {
            s2 \<leftarrow> deschedule g c TH_BLOCKED s1;
            s3 \<leftarrow> schedule inTh c s2;
            s4 \<leftarrow> wakeup inTh False (core (CoreJoin c) s3);
            Some (fst bs, s4) }
        | (None, s1) \<Rightarrow> do {
            assert_that (no_owner g s1);
            let s2 = upd_th g (\<lambda>t. t\<lparr>th_state := TH_OUT\<rparr>) s1;
            bar_leave sched_callback c (fst bs, s2\<lparr>outQueue := outQueue s2 @ [g]\<rparr>) }) }"

definition sched_sync :: "nat \<Rightarrow> sim \<Rightarrow> sim option" where
  "sched_sync c bs = do {
     g \<leftarrow> curThread (contexts (snd bs) ! c);
     th \<leftarrow> gidMap (snd bs) g;
     assert_that (\<not> markedForSleep th);
     bar_sync sched_callback c bs }"

text \<open>The rest of \<^verbatim>\<open>sync\<close>, when the barrier lets the thread go.\<close>

definition sync_handoff :: "gid \<Rightarrow> sim \<Rightarrow> sim option" where
  "sync_handoff g bs = do {
     th \<leftarrow> gidMap (snd bs) g;
     (case handoffThread th of
        None \<Rightarrow> do { assert_that (th_state th = TH_RUNNING); Some bs }
      | Some dst \<Rightarrow> do {
          let s0 = upd_th g (\<lambda>t. t\<lparr>handoffThread := None\<rparr>) (snd bs);
          s1 \<leftarrow> deschedule g (th_cid th) TH_QUEUED s0;
          s2 \<leftarrow> schedule dst (th_cid th) s1;
          s3 \<leftarrow> wakeup dst False s2;
          take_context g (fst bs, s3) }) }"

definition markForSleep :: "u32 \<Rightarrow> u32 \<Rightarrow> nat \<Rightarrow> sched \<Rightarrow> sched option" where
  "markForSleep pid tid phase s = do {
     th \<leftarrow> gidMap s (getGid pid tid);
     assert_that (\<not> markedForSleep th);
     Some (upd_th (getGid pid tid) (\<lambda>t. t\<lparr>markedForSleep := True, wakeupPhase := phase, th_futexWord := 1\<rparr>) s) }"

definition isSleeping :: "u32 \<Rightarrow> u32 \<Rightarrow> sched \<Rightarrow> bool option" where
  "isSleeping pid tid s = do { th \<leftarrow> gidMap s (getGid pid tid); Some (th_state th = TH_SLEEPING) }"

definition notifySleepEnd :: "u32 \<Rightarrow> u32 \<Rightarrow> sched \<Rightarrow> sched option" where
  "notifySleepEnd pid tid s = do {
     let g = getGid pid tid;
     th \<leftarrow> gidMap s g;
     assert_that (\<not> markedForSleep th);
     assert_that (th_state th = TH_SLEEPING \<or> th_state th = TH_BLOCKED);
     if th_state th = TH_BLOCKED then Some s
     else do {
       sq \<leftarrow> list_remove g (sleepQueue s);
       Some (upd_th g (\<lambda>t. t\<lparr>th_state := TH_BLOCKED\<rparr>) (s\<lparr>sleepQueue := sq\<rparr>)) } }"

text \<open>The end of \<^verbatim>\<open>finish\<close>: the thread leaves its queue and gives its context up.\<close>

definition finish_release :: "gid \<Rightarrow> ThreadInfo \<Rightarrow> sched \<Rightarrow> sched option" where
  "finish_release g th s =
     (if th_state th = TH_QUEUED then do { rq \<leftarrow> list_remove g (runQueue s); Some (s\<lparr>runQueue := rq\<rparr>) }
      else if no_owner g s then Some s
      else do {
        oq \<leftarrow> list_remove g (outQueue s);
        s1 \<leftarrow> deschedule g (th_cid th) TH_BLOCKED (s\<lparr>outQueue := oq\<rparr>);
        assert_that (th_cid th \<notin> set (freeList s1));
        Some (s1\<lparr>freeList := freeList s1 @ [th_cid th]\<rparr>) })"

definition sched_finish :: "u32 \<Rightarrow> u32 \<Rightarrow> sim \<Rightarrow> sim option" where
  "sched_finish pid tid bs = do {
     let g = getGid pid tid;
     th \<leftarrow> gidMap (snd bs) g;
     bs1 \<leftarrow> (if fakeLeave th \<noteq> None
             then do { s1 \<leftarrow> finishFakeLeave g (snd bs); sched_leave pid tid (th_cid th) (fst bs, s1) } else Some bs);
     th1 \<leftarrow> gidMap (snd bs1) g;
     bs2 \<leftarrow> (if th_state th1 = TH_RUNNING then sched_leave pid tid (th_cid th1) bs1 else Some bs1);
     th2 \<leftarrow> gidMap (snd bs2) g;
     assert_that (th_state th2 = TH_STARTED \<or> th_state th2 = TH_OUT \<or> th_state th2 = TH_BLOCKED \<or> th_state th2 = TH_QUEUED);
     s3 \<leftarrow> finish_release g th2 (snd bs2);
     Some (fst bs2, s3\<lparr>gidMap := (gidMap s3)(g := None)\<rparr>) }"

definition syscallLeave :: "u32 \<Rightarrow> u32 \<Rightarrow> nat \<Rightarrow> u64 \<Rightarrow> sim \<Rightarrow> sim option" where
  "syscallLeave pid tid c pc bs = do {
     let s = snd bs;
     g \<leftarrow> curThread (contexts s ! c);
     assert_that (g = getGid pid tid);
     th \<leftarrow> gidMap s g;
     assert_that (th_cid th = c);
     assert_that (th_state th = TH_RUNNING);
     assert_that (unat pid < MAX_THREADS);
     if pc \<in> blockingSyscalls s (unat pid) \<or> markedForSleep th then sched_leave pid tid c bs
     else do {
       assert_that (fakeLeave th = None);
       assert_that (g \<notin> set (fakeLeaves s));
       Some (fst bs, upd_th g (\<lambda>t. t\<lparr>fakeLeave := Some pc\<rparr>) (s\<lparr>fakeLeaves := fakeLeaves s @ [g]\<rparr>)) } }"

definition getScheduledPid :: "nat \<Rightarrow> sched \<Rightarrow> u32" where
  "getScheduledPid c s = (if ctx_state (contexts s ! c) = USED then (case curThread (contexts s ! c) of Some g \<Rightarrow> getPid g | None \<Rightarrow> - 1) else - 1)"

text \<open>The two interventions of the watchdog: it drives time forward while every thread is out, blocked or asleep, and turns
  the oldest fake leave into a real one, blacklisting the call when it is the only one.\<close>

definition watchdog_idle :: "sched \<Rightarrow> bool" where
  "watchdog_idle s \<longleftrightarrow> scheduledThreads s = length (outQueue s) \<and> sleepQueue s \<noteq> []"

definition watchdog_tick :: "sched \<Rightarrow> sched option" where
  "watchdog_tick s = (if watchdog_idle s then sched_callback s else Some s)"

fun watchdog_leaves :: "nat \<Rightarrow> u32 \<Rightarrow> u64 \<Rightarrow> gid \<Rightarrow> sim \<Rightarrow> sim option" where
  "watchdog_leaves 0 pid pc g bs = None"
| "watchdog_leaves (Suc k) pid pc g bs = do {
     th \<leftarrow> gidMap (snd bs) g;
     s1 \<leftarrow> finishFakeLeave g (snd bs);
     bs2 \<leftarrow> sched_leave pid (getTid g) (th_cid th) (fst bs, s1);
     (case fakeLeaves (snd bs2) of
        [] \<Rightarrow> Some bs2
      | g' # _ \<Rightarrow> do {
          th' \<leftarrow> gidMap (snd bs2) g';
          if getPid g \<noteq> pid \<or> fakeLeave th' \<noteq> Some pc then Some bs2
          else if length (fakeLeaves (snd bs2)) > 8 then watchdog_leaves k pid pc g' bs2 else Some bs2 }) }"

text \<open>The system call of the first fake leave matches the blacklist expression of its process. Every turn of the loop ends a fake
  leave and none begins, so their number bounds the turns.\<close>

definition watchdog_unfake :: "sim \<Rightarrow> sim option" where
  "watchdog_unfake bs = (case fakeLeaves (snd bs) of
     [] \<Rightarrow> Some bs
   | g # gs \<Rightarrow> do {
       let s = snd bs;
       th \<leftarrow> gidMap s g;
       pc \<leftarrow> fakeLeave th;
       let p = unat (getPid g);
       let s0 = (if gs = [] then s\<lparr>blockingSyscalls := (blockingSyscalls s)(p := insert pc (blockingSyscalls s p))\<rparr> else s);
       watchdog_leaves (length (fakeLeaves s)) (getPid g) pc g (fst bs, s0) })"

subsection \<open>The invariant of the scheduler\<close>

definition in_state :: "sched \<Rightarrow> ThreadState \<Rightarrow> gid \<Rightarrow> bool" where
  "in_state s x g \<longleftrightarrow> (\<exists>th. gidMap s g = Some th \<and> th_state th = x)"

definition target :: "sched \<Rightarrow> gid \<Rightarrow> bool" where
  "target s d \<longleftrightarrow> (\<exists>g th. gidMap s g = Some th \<and> handoffThread th = Some d)"

text \<open>Contexts and threads point at each other; \<open>F\<close> are idle contexts in the hands of an operation, outside the free list.\<close>

definition thread_ok :: "sched \<Rightarrow> gid \<Rightarrow> ThreadInfo \<Rightarrow> bool" where
  "thread_ok s g th \<longleftrightarrow> th_cid th < length (contexts s) \<and> length (th_mask th) = length (contexts s) \<and> True \<in> set (th_mask th)
     \<and> (th_state th = TH_RUNNING \<or> th_state th = TH_OUT \<longrightarrow> curThread (contexts s ! th_cid th) = Some g \<and> th_mask th ! th_cid th)"

definition ctx_ok :: "nat set \<Rightarrow> sched \<Rightarrow> bool" where
  "ctx_ok F s \<longleftrightarrow> (\<forall>g th. gidMap s g = Some th \<longrightarrow> thread_ok s g th)
     \<and> (\<forall>c < length (contexts s). \<forall>g. curThread (contexts s ! c) = Some g \<longrightarrow>
          (\<exists>th. gidMap s g = Some th \<and> th_cid th = c \<and> (th_state th = TH_RUNNING \<or> th_state th = TH_OUT)))
     \<and> (\<forall>c < length (contexts s). ctx_state (contexts s ! c) = IDLE \<longleftrightarrow> curThread (contexts s ! c) = None)
     \<and> distinct (freeList s) \<and> set (freeList s) \<inter> F = {}
     \<and> set (freeList s) \<union> F = {c. c < length (contexts s) \<and> curThread (contexts s ! c) = None}
     \<and> scheduledThreads s = card {c. c < length (contexts s) \<and> curThread (contexts s ! c) \<noteq> None}"

text \<open>Queues and thread states agree; \<open>U\<close> are threads in the hands of an operation, in no queue yet.\<close>

definition queues_ok :: "gid set \<Rightarrow> sched \<Rightarrow> bool" where
  "queues_ok U s \<longleftrightarrow> distinct (runQueue s) \<and> distinct (outQueue s) \<and> distinct (sleepQueue s)
     \<and> (\<forall>g \<in> set (runQueue s). in_state s TH_QUEUED g \<and> \<not> target s g)
     \<and> (\<forall>g \<in> set (outQueue s). in_state s TH_OUT g) \<and> (\<forall>g \<in> set (sleepQueue s). in_state s TH_SLEEPING g)
     \<and> (\<forall>g. g \<notin> U \<longrightarrow> (in_state s TH_OUT g \<longrightarrow> g \<in> set (outQueue s)) \<and> (in_state s TH_SLEEPING g \<longrightarrow> g \<in> set (sleepQueue s))
          \<and> (in_state s TH_QUEUED g \<longrightarrow> g \<in> set (runQueue s) \<or> target s g))"

text \<open>A handoff goes from a running thread to one queued thread that the context admits.\<close>

definition hand_ok :: "sched \<Rightarrow> bool" where
  "hand_ok s \<longleftrightarrow> (\<forall>g th d. gidMap s g = Some th \<longrightarrow> handoffThread th = Some d \<longrightarrow>
        th_state th = TH_RUNNING \<and> in_state s TH_QUEUED d \<and> allows s d (th_cid th))
     \<and> (\<forall>g th g' th' d. gidMap s g = Some th \<longrightarrow> gidMap s g' = Some th' \<longrightarrow> handoffThread th = Some d \<longrightarrow> handoffThread th' = Some d \<longrightarrow> g = g')"

text \<open>No queued thread could run on a context that is free or whose thread is out.\<close>

definition work_ok :: "sched \<Rightarrow> bool" where
  "work_ok s \<longleftrightarrow> (\<forall>q \<in> set (runQueue s). (\<forall>c \<in> set (freeList s). \<not> allows s q c) \<and> (\<forall>t \<in> set (outQueue s). \<not> allows s q (cid_of s t)))"

definition sleep_ok :: "gid set \<Rightarrow> sched \<Rightarrow> bool" where
  "sleep_ok U s \<longleftrightarrow> sorted (map (wake_key s) (sleepQueue s)) \<and> (\<forall>g \<in> set (sleepQueue s). curPhase s < wake_key s g)
     \<and> (\<forall>g th. gidMap s g = Some th \<longrightarrow> th_state th = TH_QUEUED \<and> g \<notin> U \<or> th_state th = TH_SLEEPING \<or> markedForSleep th \<longrightarrow> th_futexWord th = 1)
     \<and> (\<forall>g th. gidMap s g = Some th \<longrightarrow> markedForSleep th \<longrightarrow> th_state th = TH_RUNNING \<and> handoffThread th = None \<and> curPhase s < wakeupPhase th)"

definition fake_ok :: "sched \<Rightarrow> bool" where
  "fake_ok s \<longleftrightarrow> distinct (fakeLeaves s) \<and> (\<forall>g. g \<in> set (fakeLeaves s) \<longleftrightarrow> (\<exists>th. gidMap s g = Some th \<and> fakeLeave th \<noteq> None))
     \<and> (\<forall>g th. gidMap s g = Some th \<longrightarrow> fakeLeave th \<noteq> None \<longrightarrow> th_state th = TH_RUNNING \<and> handoffThread th = None \<and> \<not> markedForSleep th)"

definition misc_ok :: "sched \<Rightarrow> bool" where
  "misc_ok s \<longleftrightarrow> 0 < length (contexts s) \<and> length (contexts s) \<le> MAX_THREADS \<and> 0 < schedQuantum s \<and> numPhases s = curPhase s \<and> mt_wf (sc_rnd s)"

definition sched_inv :: "nat set \<Rightarrow> gid set \<Rightarrow> sched \<Rightarrow> bool" where
  "sched_inv F U s \<longleftrightarrow> ctx_ok F s \<and> queues_ok U s \<and> hand_ok s \<and> work_ok s \<and> sleep_ok U s \<and> fake_ok s \<and> misc_ok s"

lemma upd_th_simps [simp]:
  "gidMap (upd_th g f s) = (gidMap s)(g := map_option f (gidMap s g))" "contexts (upd_th g f s) = contexts s" "freeList (upd_th g f s) = freeList s"
  "runQueue (upd_th g f s) = runQueue s" "outQueue (upd_th g f s) = outQueue s" "sleepQueue (upd_th g f s) = sleepQueue s"
  "fakeLeaves (upd_th g f s) = fakeLeaves s" "schedQuantum (upd_th g f s) = schedQuantum s" "curPhase (upd_th g f s) = curPhase s"
  "numPhases (upd_th g f s) = numPhases s" "sc_rnd (upd_th g f s) = sc_rnd s" "scheduledThreads (upd_th g f s) = scheduledThreads s"
  by (simp_all add: upd_th_def)

lemma upd_ctx_simps [simp]:
  "gidMap (upd_ctx c h s) = gidMap s" "contexts (upd_ctx c h s) = (contexts s)[c := h (contexts s ! c)]" "freeList (upd_ctx c h s) = freeList s"
  "runQueue (upd_ctx c h s) = runQueue s" "outQueue (upd_ctx c h s) = outQueue s" "sleepQueue (upd_ctx c h s) = sleepQueue s"
  "fakeLeaves (upd_ctx c h s) = fakeLeaves s" "schedQuantum (upd_ctx c h s) = schedQuantum s" "curPhase (upd_ctx c h s) = curPhase s"
  "numPhases (upd_ctx c h s) = numPhases s" "sc_rnd (upd_ctx c h s) = sc_rnd s" "scheduledThreads (upd_ctx c h s) = scheduledThreads s"
  by (simp_all add: upd_ctx_def)

lemma core_simps [simp]:
  "gidMap (core x s) = gidMap s" "contexts (core x s) = contexts s" "freeList (core x s) = freeList s"
  "runQueue (core x s) = runQueue s" "outQueue (core x s) = outQueue s" "sleepQueue (core x s) = sleepQueue s"
  "fakeLeaves (core x s) = fakeLeaves s" "schedQuantum (core x s) = schedQuantum s" "curPhase (core x s) = curPhase s"
  "numPhases (core x s) = numPhases s" "sc_rnd (core x s) = sc_rnd s" "scheduledThreads (core x s) = scheduledThreads s"
  by (simp_all add: core_def)

text \<open>The predicates only read the fields they name.\<close>

lemma reads_map:
  assumes "gidMap s' = gidMap s"
  shows "in_state s' = in_state s" "target s' = target s" "allows s' = allows s" "cid_of s' = cid_of s" "wake_key s' = wake_key s"
  using assms by (auto simp: in_state_def target_def allows_def cid_of_def wake_key_def fun_eq_iff)

lemma one_thread:
  assumes "gidMap s g = Some th" "gidMap s' = (gidMap s)(g \<mapsto> th')" "th_mask th' = th_mask th"
    "handoffThread th' = handoffThread th" "wakeupPhase th' = wakeupPhase th"
  shows "in_state s' x y \<longleftrightarrow> (if y = g then th_state th' = x else in_state s x y)" "target s' = target s" "allows s' = allows s"
    "wake_key s' = wake_key s" "cid_of s' y = (if y = g then th_cid th' else cid_of s y)"
proof -
  show "in_state s' x y \<longleftrightarrow> (if y = g then th_state th' = x else in_state s x y)" "cid_of s' y = (if y = g then th_cid th' else cid_of s y)"
    "allows s' = allows s" "wake_key s' = wake_key s"
    using assms by (auto simp: in_state_def cid_of_def allows_def wake_key_def fun_eq_iff)
  have "(\<exists>y t. gidMap s' y = Some t \<and> handoffThread t = Some d) \<longleftrightarrow> (\<exists>y t. gidMap s y = Some t \<and> handoffThread t = Some d)" for d
    unfolding assms(2) using assms(1,4) by (metis fun_upd_apply option.inject)
  then show "target s' = target s" by (simp add: target_def fun_eq_iff)
qed

lemma hand_facts:
  assumes "hand_ok s" "gidMap s g = Some th"
  shows "th_state th \<noteq> TH_RUNNING \<Longrightarrow> handoffThread th = None" "th_state th \<noteq> TH_QUEUED \<Longrightarrow> \<not> target s g"
proof -
  show "handoffThread th = None" if "th_state th \<noteq> TH_RUNNING" using assms that unfolding hand_ok_def by (metis option.exhaust)
  show "\<not> target s g" if "th_state th \<noteq> TH_QUEUED"
  proof
    assume "target s g"
    then have "in_state s TH_QUEUED g" using assms(1) unfolding hand_ok_def target_def by blast
    then show False using assms(2) that by (simp add: in_state_def)
  qed
qed

lemma hand_frame:
  assumes "hand_ok s" "in_state s' = in_state s" "allows s' = allows s"
    and e: "\<And>y t d. gidMap s' y = Some t \<Longrightarrow> handoffThread t = Some d \<Longrightarrow>
      \<exists>u. gidMap s y = Some u \<and> handoffThread u = Some d \<and> th_state t = th_state u \<and> th_cid t = th_cid u"
  shows "hand_ok s'"
proof -
  have "th_state t = TH_RUNNING \<and> in_state s' TH_QUEUED d \<and> allows s' d (th_cid t)" if "gidMap s' y = Some t" "handoffThread t = Some d" for y t d
    using e [OF that] assms(1) unfolding hand_ok_def assms(2,3) by metis
  moreover have "y = y'" if "gidMap s' y = Some t" "gidMap s' y' = Some t'" "handoffThread t = Some d" "handoffThread t' = Some d" for y t y' t' d
    using e [OF that(1,3)] e [OF that(2,4)] assms(1) unfolding hand_ok_def by metis
  ultimately show ?thesis unfolding hand_ok_def by blast
qed

lemma hand_ok_upd:
  assumes "hand_ok s" "gidMap s g = Some th" "gidMap s' = (gidMap s)(g \<mapsto> th')" "th_mask th' = th_mask th" "handoffThread th = None"
    "handoffThread th' = None" "wakeupPhase th' = wakeupPhase th" "target s g \<Longrightarrow> th_state th' = TH_QUEUED"
  shows "hand_ok s'"
proof -
  note o = one_thread [OF assms(2-4), unfolded assms(5,6), OF refl assms(7)]
  have "th_state t = TH_RUNNING \<and> in_state s' TH_QUEUED d \<and> allows s' d (th_cid t)"
    if "gidMap s' y = Some t" "handoffThread t = Some d" for y t d
  proof -
    have y: "y \<noteq> g" "gidMap s y = Some t" using that assms(3,6) by (auto split: if_splits)
    then have "th_state t = TH_RUNNING" "in_state s TH_QUEUED d" "allows s d (th_cid t)" "target s d"
      using assms(1) that(2) unfolding hand_ok_def target_def by blast+
    then show ?thesis using o(1,3) assms(8) by auto
  qed
  moreover have "y = y'" if "gidMap s' y = Some t" "gidMap s' y' = Some t'" "handoffThread t = Some d" "handoffThread t' = Some d" for y t y' t' d
  proof -
    have "gidMap s y = Some t" "gidMap s y' = Some t'" using that assms(3,6) by (auto split: if_splits)
    then show ?thesis using assms(1) that(3,4) unfolding hand_ok_def by blast
  qed
  ultimately show ?thesis unfolding hand_ok_def by blast
qed

lemma card_set_update:
  assumes "c < n" "\<And>x. x \<noteq> c \<Longrightarrow> Q x = P x"
  shows "Q c \<Longrightarrow> \<not> P c \<Longrightarrow> card {x. x < (n :: nat) \<and> Q x} = Suc (card {x. x < n \<and> P x})"
    "\<not> Q c \<Longrightarrow> P c \<Longrightarrow> card {x. x < n \<and> Q x} = card {x. x < n \<and> P x} - 1"
proof -
  have f: "finite {x. x < n \<and> P x}" by simp
  show "card {x. x < n \<and> Q x} = Suc (card {x. x < n \<and> P x})" if "Q c" "\<not> P c"
  proof -
    have "{x. x < n \<and> Q x} = insert c {x. x < n \<and> P x}" using assms that by (intro set_eqI) (metis insert_iff mem_Collect_eq)
    then show ?thesis using f that by simp
  qed
  show "card {x. x < n \<and> Q x} = card {x. x < n \<and> P x} - 1" if "\<not> Q c" "P c"
  proof -
    have "{x. x < n \<and> Q x} = {x. x < n \<and> P x} - {c}" using assms that by (intro set_eqI) (metis Diff_iff mem_Collect_eq singletonD singletonI)
    then show ?thesis using f that assms(1) by simp
  qed
qed

lemma ctx_okI:
  assumes "\<And>g th. gidMap s g = Some th \<Longrightarrow> thread_ok s g th"
    "\<And>c g. c < length (contexts s) \<Longrightarrow> curThread (contexts s ! c) = Some g \<Longrightarrow>
       \<exists>th. gidMap s g = Some th \<and> th_cid th = c \<and> (th_state th = TH_RUNNING \<or> th_state th = TH_OUT)"
    "\<And>c. c < length (contexts s) \<Longrightarrow> ctx_state (contexts s ! c) = IDLE \<longleftrightarrow> curThread (contexts s ! c) = None"
    "distinct (freeList s)" "set (freeList s) \<inter> F = {}"
    "set (freeList s) \<union> F = {c. c < length (contexts s) \<and> curThread (contexts s ! c) = None}"
    "scheduledThreads s = card {c. c < length (contexts s) \<and> curThread (contexts s ! c) \<noteq> None}"
  shows "ctx_ok F s"
  unfolding ctx_ok_def by (intro conjI allI impI; (rule assms; assumption)?)

lemma ctx_okD:
  assumes "ctx_ok F s"
  shows "gidMap s g = Some th \<Longrightarrow> thread_ok s g th"
    "c < length (contexts s) \<Longrightarrow> curThread (contexts s ! c) = Some g \<Longrightarrow>
       \<exists>th. gidMap s g = Some th \<and> th_cid th = c \<and> (th_state th = TH_RUNNING \<or> th_state th = TH_OUT)"
    "c < length (contexts s) \<Longrightarrow> ctx_state (contexts s ! c) = IDLE \<longleftrightarrow> curThread (contexts s ! c) = None"
    "distinct (freeList s)" "set (freeList s) \<inter> F = {}"
    "set (freeList s) \<union> F = {c. c < length (contexts s) \<and> curThread (contexts s ! c) = None}"
    "scheduledThreads s = card {c. c < length (contexts s) \<and> curThread (contexts s ! c) \<noteq> None}"
  using assms unfolding ctx_ok_def by blast+

lemma ctx_free_iff: "ctx_ok F s \<Longrightarrow> c \<in> set (freeList s) \<or> c \<in> F \<longleftrightarrow> c < length (contexts s) \<and> curThread (contexts s ! c) = None"
  using ctx_okD(6) by blast

lemma ctx_desched:
  assumes "ctx_ok F s" "gidMap s g = Some th" "th_state th = TH_RUNNING \<or> th_state th = TH_OUT" "t \<noteq> TH_RUNNING" "t \<noteq> TH_OUT"
    "gidMap s' = (gidMap s)(g \<mapsto> th\<lparr>th_state := t\<rparr>)" "contexts s' = (contexts s)[th_cid th := \<lparr>ctx_state = IDLE, curThread = None\<rparr>]"
    "freeList s' = freeList s" "scheduledThreads s' = scheduledThreads s - 1"
  shows "ctx_ok (insert (th_cid th) F) s'"
proof -
  note c = ctx_okD [OF assms(1)] let ?c = "th_cid th" let ?n = "length (contexts s)"
  have g: "?c < ?n" "curThread (contexts s ! ?c) = Some g" using ctx_okD(1) [OF assms(1,2)] assms(3) by (auto simp: thread_ok_def)
  have at: "contexts s' ! x = (if x = ?c then \<lparr>ctx_state = IDLE, curThread = None\<rparr> else contexts s ! x)" for x using g(1) assms(7) by simp
  have n: "length (contexts s') = ?n" by (simp add: assms(7))
  have "thread_ok s' y u" if "gidMap s' y = Some u" for y u
  proof (cases "y = g")
    case True
    then have "u = th\<lparr>th_state := t\<rparr>" using that assms(6) by simp
    then show ?thesis using ctx_okD(1) [OF assms(1,2)] assms(4,5) by (simp add: thread_ok_def n)
  next
    case False
    then have "gidMap s y = Some u" using that assms(6) by simp
    from ctx_okD(1) [OF assms(1) this] show ?thesis using False g(2) unfolding thread_ok_def n at by auto
  qed
  moreover have "\<exists>u. gidMap s' y = Some u \<and> th_cid u = x \<and> (th_state u = TH_RUNNING \<or> th_state u = TH_OUT)"
    if "x < ?n" "curThread (contexts s' ! x) = Some y" for x y
  proof -
    have "x \<noteq> ?c" "curThread (contexts s ! x) = Some y" using that(2) by (auto simp: at split: if_splits)
    moreover from this that(1) obtain u where "gidMap s y = Some u" "th_cid u = x" "th_state u = TH_RUNNING \<or> th_state u = TH_OUT" using c(2) by blast
    ultimately show ?thesis using assms(2,6) by (metis fun_upd_apply option.inject)
  qed
  moreover have "?c \<notin> set (freeList s)" using ctx_free_iff [OF assms(1), of ?c] g(2) by simp
  then have "set (freeList s) \<inter> insert ?c F = {}" using c(5) by simp
  moreover have "set (freeList s) \<union> insert ?c F = {x. x < ?n \<and> curThread (contexts s' ! x) = None}"
    using ctx_free_iff [OF assms(1)] g(1) by (intro set_eqI) (auto simp: at)
  moreover have "card {x. x < ?n \<and> curThread (contexts s' ! x) \<noteq> None} = card {x. x < ?n \<and> curThread (contexts s ! x) \<noteq> None} - 1"
    by (rule card_set_update(2) [OF g(1)]) (use g(2) in \<open>auto simp: at\<close>)
  moreover have "\<forall>x < ?n. ctx_state (contexts s' ! x) = IDLE \<longleftrightarrow> curThread (contexts s' ! x) = None" using c(3) unfolding at by auto
  ultimately show ?thesis using c(4,7) by (intro ctx_okI) (auto simp only: n assms(8,9))
qed

lemma ctx_sched:
  assumes "ctx_ok F s" "gidMap s g = Some th" "th_state th \<noteq> TH_RUNNING" "th_state th \<noteq> TH_OUT" "c \<in> F" "th_mask th ! c"
    "gidMap s' = (gidMap s)(g \<mapsto> th\<lparr>th_state := TH_RUNNING, th_cid := c\<rparr>)" "contexts s' = (contexts s)[c := \<lparr>ctx_state = USED, curThread = Some g\<rparr>]"
    "freeList s' = freeList s" "scheduledThreads s' = Suc (scheduledThreads s)"
  shows "ctx_ok (F - {c}) s'"
proof -
  note k = ctx_okD [OF assms(1)] let ?n = "length (contexts s)"
  have c: "c < ?n" "curThread (contexts s ! c) = None" using ctx_free_iff [OF assms(1), of c] assms(5) by auto
  have at: "contexts s' ! x = (if x = c then \<lparr>ctx_state = USED, curThread = Some g\<rparr> else contexts s ! x)" for x using c(1) assms(8) by simp
  have n: "length (contexts s') = ?n" by (simp add: assms(8))
  have "thread_ok s' y u" if "gidMap s' y = Some u" for y u
  proof (cases "y = g")
    case True
    then have "u = th\<lparr>th_state := TH_RUNNING, th_cid := c\<rparr>" using that assms(7) by simp
    then show ?thesis using ctx_okD(1) [OF assms(1,2)] True c(1) assms(6) by (simp add: thread_ok_def n at)
  next
    case False
    then have "gidMap s y = Some u" using that assms(7) by simp
    from ctx_okD(1) [OF assms(1) this] show ?thesis using c(2) unfolding thread_ok_def n at by auto
  qed
  moreover have "\<exists>u. gidMap s' y = Some u \<and> th_cid u = x \<and> (th_state u = TH_RUNNING \<or> th_state u = TH_OUT)"
    if "x < ?n" "curThread (contexts s' ! x) = Some y" for x y
  proof (cases "x = c")
    case True
    then show ?thesis using that(2) assms(7) by (auto simp: at)
  next
    case False
    then have "curThread (contexts s ! x) = Some y" using that(2) by (simp add: at)
    with that(1) obtain u where "gidMap s y = Some u" "th_cid u = x" "th_state u = TH_RUNNING \<or> th_state u = TH_OUT" using k(2) by blast
    moreover from this have "y \<noteq> g" using assms(2-4) by auto
    ultimately show ?thesis using assms(7) by auto
  qed
  moreover have "set (freeList s) \<union> (F - {c}) = {x. x < ?n \<and> curThread (contexts s' ! x) = None}"
    using ctx_free_iff [OF assms(1)] c(2) k(5) assms(5) by (intro set_eqI) (simp add: at, metis disjoint_iff)
  moreover have "card {x. x < ?n \<and> curThread (contexts s' ! x) \<noteq> None} = Suc (card {x. x < ?n \<and> curThread (contexts s ! x) \<noteq> None})"
    by (rule card_set_update(1) [OF c(1)]) (use c(2) in \<open>auto simp: at\<close>)
  moreover have "\<forall>x < ?n. ctx_state (contexts s' ! x) = IDLE \<longleftrightarrow> curThread (contexts s' ! x) = None" using k(3) unfolding at by auto
  moreover have "set (freeList s) \<inter> (F - {c}) = {}" using k(5) by auto
  ultimately show ?thesis using k(4,7) by (intro ctx_okI) (auto simp only: n assms(9,10))
qed

text \<open>A thread update that leaves states and contexts alone.\<close>

lemma ctx_same:
  assumes "ctx_ok F s" "gidMap s g = Some th" "gidMap s' = (gidMap s)(g \<mapsto> th')" "th_cid th' = th_cid th" "th_mask th' = th_mask th"
    "th_state th' = th_state th \<or> th_state th \<noteq> TH_RUNNING \<and> th_state th \<noteq> TH_OUT \<and> th_state th' \<noteq> TH_RUNNING \<and> th_state th' \<noteq> TH_OUT
       \<or> (th_state th = TH_RUNNING \<or> th_state th = TH_OUT) \<and> (th_state th' = TH_RUNNING \<or> th_state th' = TH_OUT)"
    "contexts s' = contexts s" "freeList s' = freeList s" "scheduledThreads s' = scheduledThreads s"
  shows "ctx_ok F s'"
proof -
  note k = ctx_okD [OF assms(1)]
  have "thread_ok s' y u" if "gidMap s' y = Some u" for y u
  proof (cases "y = g")
    case True
    then have "u = th'" using that assms(3) by simp
    then show ?thesis using ctx_okD(1) [OF assms(1,2)] True assms(4-7) unfolding thread_ok_def by auto
  next
    case False
    then have "gidMap s y = Some u" using that assms(3) by simp
    from ctx_okD(1) [OF assms(1) this] show ?thesis unfolding thread_ok_def assms(7) .
  qed
  moreover have "\<exists>u. gidMap s' y = Some u \<and> th_cid u = x \<and> (th_state u = TH_RUNNING \<or> th_state u = TH_OUT)"
    if "x < length (contexts s)" "curThread (contexts s ! x) = Some y" for x y
  proof -
    from that obtain u where u: "gidMap s y = Some u" "th_cid u = x" "th_state u = TH_RUNNING \<or> th_state u = TH_OUT" using k(2) by blast
    show ?thesis
    proof (cases "y = g")
      case True
      then show ?thesis using u assms(2,3,4,6) by auto
    next
      case False
      then show ?thesis using u assms(3) by auto
    qed
  qed
  ultimately show ?thesis using k(3-7) by (intro ctx_okI) (auto simp only: assms(7-9))
qed

subsubsection \<open>One thread changes\<close>

definition same_lists :: "sched \<Rightarrow> sched \<Rightarrow> bool" where
  "same_lists s s' \<longleftrightarrow> runQueue s' = runQueue s \<and> outQueue s' = outQueue s \<and> sleepQueue s' = sleepQueue s \<and> freeList s' = freeList s
     \<and> fakeLeaves s' = fakeLeaves s \<and> curPhase s' = curPhase s \<and> numPhases s' = numPhases s \<and> schedQuantum s' = schedQuantum s
     \<and> sc_rnd s' = sc_rnd s \<and> length (contexts s') = length (contexts s)"

lemma queues_okI:
  assumes "distinct (runQueue s)" "distinct (outQueue s)" "distinct (sleepQueue s)"
    "\<And>g. g \<in> set (runQueue s) \<Longrightarrow> in_state s TH_QUEUED g" "\<And>g. g \<in> set (runQueue s) \<Longrightarrow> \<not> target s g"
    "\<And>g. g \<in> set (outQueue s) \<Longrightarrow> in_state s TH_OUT g" "\<And>g. g \<in> set (sleepQueue s) \<Longrightarrow> in_state s TH_SLEEPING g"
    "\<And>g. g \<notin> U \<Longrightarrow> in_state s TH_OUT g \<Longrightarrow> g \<in> set (outQueue s)" "\<And>g. g \<notin> U \<Longrightarrow> in_state s TH_SLEEPING g \<Longrightarrow> g \<in> set (sleepQueue s)"
    "\<And>g. g \<notin> U \<Longrightarrow> in_state s TH_QUEUED g \<Longrightarrow> g \<in> set (runQueue s) \<or> target s g"
  shows "queues_ok U s"
  unfolding queues_ok_def using assms by simp

lemma queues_okD:
  assumes "queues_ok U s"
  shows "distinct (runQueue s)" "distinct (outQueue s)" "distinct (sleepQueue s)"
    "g \<in> set (runQueue s) \<Longrightarrow> in_state s TH_QUEUED g" "g \<in> set (runQueue s) \<Longrightarrow> \<not> target s g"
    "g \<in> set (outQueue s) \<Longrightarrow> in_state s TH_OUT g" "g \<in> set (sleepQueue s) \<Longrightarrow> in_state s TH_SLEEPING g"
    "g \<notin> U \<Longrightarrow> in_state s TH_OUT g \<Longrightarrow> g \<in> set (outQueue s)" "g \<notin> U \<Longrightarrow> in_state s TH_SLEEPING g \<Longrightarrow> g \<in> set (sleepQueue s)"
    "g \<notin> U \<Longrightarrow> in_state s TH_QUEUED g \<Longrightarrow> g \<in> set (runQueue s) \<or> target s g"
  using assms unfolding queues_ok_def by blast+

lemma fake_okI:
  assumes "distinct (fakeLeaves s)" "\<And>g. g \<in> set (fakeLeaves s) \<longleftrightarrow> (\<exists>th. gidMap s g = Some th \<and> fakeLeave th \<noteq> None)"
    "\<And>g th. gidMap s g = Some th \<Longrightarrow> fakeLeave th \<noteq> None \<Longrightarrow> th_state th = TH_RUNNING \<and> handoffThread th = None \<and> \<not> markedForSleep th"
  shows "fake_ok s"
  unfolding fake_ok_def using assms by blast

lemma fake_okD:
  assumes "fake_ok s"
  shows "distinct (fakeLeaves s)" "g \<in> set (fakeLeaves s) \<longleftrightarrow> (\<exists>th. gidMap s g = Some th \<and> fakeLeave th \<noteq> None)"
    "gidMap s g = Some th \<Longrightarrow> fakeLeave th \<noteq> None \<Longrightarrow> th_state th = TH_RUNNING \<and> handoffThread th = None \<and> \<not> markedForSleep th"
  using assms unfolding fake_ok_def by blast+

lemma sleep_okI:
  assumes "sorted (map (wake_key s) (sleepQueue s))" "\<And>g. g \<in> set (sleepQueue s) \<Longrightarrow> curPhase s < wake_key s g"
    "\<And>g th. gidMap s g = Some th \<Longrightarrow> th_state th = TH_QUEUED \<and> g \<notin> U \<or> th_state th = TH_SLEEPING \<or> markedForSleep th \<Longrightarrow> th_futexWord th = 1"
    "\<And>g th. gidMap s g = Some th \<Longrightarrow> markedForSleep th \<Longrightarrow> th_state th = TH_RUNNING \<and> handoffThread th = None \<and> curPhase s < wakeupPhase th"
  shows "sleep_ok U s"
  unfolding sleep_ok_def using assms by blast

lemma sleep_okD:
  assumes "sleep_ok U s"
  shows "sorted (map (wake_key s) (sleepQueue s))" "g \<in> set (sleepQueue s) \<Longrightarrow> curPhase s < wake_key s g"
    "gidMap s g = Some th \<Longrightarrow> th_state th = TH_QUEUED \<and> g \<notin> U \<or> th_state th = TH_SLEEPING \<or> markedForSleep th \<Longrightarrow> th_futexWord th = 1"
    "gidMap s g = Some th \<Longrightarrow> markedForSleep th \<Longrightarrow> th_state th = TH_RUNNING \<and> handoffThread th = None \<and> curPhase s < wakeupPhase th"
  using assms unfolding sleep_ok_def by blast+

lemma queues_move:
  assumes "queues_ok U s" "gidMap s g = Some th" "gidMap s' = (gidMap s)(g \<mapsto> th')" "th_mask th' = th_mask th"
    "handoffThread th' = handoffThread th" "wakeupPhase th' = wakeupPhase th" "same_lists s s'"
    "no_owner g s \<or> th_state th' = th_state th"
  shows "queues_ok (insert g U) s'"
proof -
  note o = one_thread [OF assms(2-6)] note l = assms(7) [unfolded same_lists_def]
  have up: "in_state s' x y" if "in_state s x y" "y \<noteq> g \<or> th_state th' = th_state th" for x y
    using that o(1) assms(2) by (auto simp: in_state_def)
  have dn: "in_state s x y" if "in_state s' x y" "y \<noteq> g" for x y using that o(1) by simp
  have own: "y \<noteq> g \<or> th_state th' = th_state th" if "y \<in> set (runQueue s) \<union> set (outQueue s) \<union> set (sleepQueue s)" for y
    using that assms(8) by (auto simp: no_owner_def)
  note q = queues_okD [OF assms(1)]
  have l': "runQueue s' = runQueue s" "outQueue s' = outQueue s" "sleepQueue s' = sleepQueue s" using l by simp_all
  show ?thesis
  proof (rule queues_okI, unfold l' o(2))
    fix y
    show "in_state s' TH_QUEUED y" if "y \<in> set (runQueue s)" using up [OF q(4) [OF that] own] that by simp
    show "in_state s' TH_OUT y" if "y \<in> set (outQueue s)" using up [OF q(6) [OF that] own] that by simp
    show "in_state s' TH_SLEEPING y" if "y \<in> set (sleepQueue s)" using up [OF q(7) [OF that] own] that by simp
    show "\<not> target s y" if "y \<in> set (runQueue s)" using q(5) [OF that] .
    assume y: "y \<notin> insert g U"
    show "y \<in> set (outQueue s)" if "in_state s' TH_OUT y" using q(8) [OF _ dn [OF that]] y by simp
    show "y \<in> set (sleepQueue s)" if "in_state s' TH_SLEEPING y" using q(9) [OF _ dn [OF that]] y by simp
    show "y \<in> set (runQueue s) \<or> target s y" if "in_state s' TH_QUEUED y" using q(10) [OF _ dn [OF that]] y by simp
  qed (rule q)+
qed

lemma queues_drop:
  assumes "queues_ok (insert g U) s" "gidMap s g = Some th" "th_state th = TH_STARTED \<or> th_state th = TH_RUNNING \<or> th_state th = TH_BLOCKED"
  shows "queues_ok U s"
proof -
  note q = queues_okD [OF assms(1)]
  have n: "y \<noteq> g" if "in_state s TH_OUT y \<or> in_state s TH_SLEEPING y \<or> in_state s TH_QUEUED y" for y
    using that assms(2,3) by (auto simp: in_state_def)
  show ?thesis by (rule queues_okI) (use q n in \<open>blast\<close>)+
qed

lemma queues_mono: "queues_ok U s \<Longrightarrow> U \<subseteq> V \<Longrightarrow> queues_ok V s"
  unfolding queues_ok_def by blast

lemma sleep_upd:
  assumes "sleep_ok U s" "gidMap s g = Some th" "gidMap s' = (gidMap s)(g \<mapsto> th')" "th_mask th' = th_mask th"
    "handoffThread th' = handoffThread th" "wakeupPhase th' = wakeupPhase th" "same_lists s s'" "U \<subseteq> insert g V"
    "th_state th' = TH_QUEUED \<and> g \<notin> V \<or> th_state th' = TH_SLEEPING \<or> markedForSleep th' \<longrightarrow> th_futexWord th' = 1"
    "markedForSleep th' \<longrightarrow> th_state th' = TH_RUNNING \<and> handoffThread th' = None \<and> curPhase s < wakeupPhase th'"
  shows "sleep_ok V s'"
proof -
  note o = one_thread [OF assms(2-6)] note l = assms(7) [unfolded same_lists_def]
  have a: "th_state t = TH_QUEUED \<and> y \<notin> V \<or> th_state t = TH_SLEEPING \<or> markedForSleep t \<longrightarrow> th_futexWord t = 1"
    and b: "markedForSleep t \<longrightarrow> th_state t = TH_RUNNING \<and> handoffThread t = None \<and> curPhase s < wakeupPhase t" if "gidMap s' y = Some t" for y t
  proof (atomize (full), cases "y = g")
    case True
    then have "t = th'" using that assms(3) by simp
    then show "(th_state t = TH_QUEUED \<and> y \<notin> V \<or> th_state t = TH_SLEEPING \<or> markedForSleep t \<longrightarrow> th_futexWord t = 1) \<and>
      (markedForSleep t \<longrightarrow> th_state t = TH_RUNNING \<and> handoffThread t = None \<and> curPhase s < wakeupPhase t)" unfolding \<open>t = th'\<close> using assms(9,10) True by simp
  next
    case False
    then have "gidMap s y = Some t" "y \<in> U \<longrightarrow> y \<in> V" using that assms(3,8) by auto
    then show "(th_state t = TH_QUEUED \<and> y \<notin> V \<or> th_state t = TH_SLEEPING \<or> markedForSleep t \<longrightarrow> th_futexWord t = 1) \<and>
      (markedForSleep t \<longrightarrow> th_state t = TH_RUNNING \<and> handoffThread t = None \<and> curPhase s < wakeupPhase t)"
      using assms(1) unfolding sleep_ok_def by blast
  qed
  show ?thesis
    by (rule sleep_okI) (use sleep_okD(1,2) [OF assms(1)] a b l in \<open>auto simp: o(4)\<close>)
qed

lemma fake_upd:
  assumes "fake_ok s" "gidMap s g = Some th" "gidMap s' = (gidMap s)(g \<mapsto> th')" "fakeLeave th' = fakeLeave th" "same_lists s s'"
    "fakeLeave th' \<noteq> None \<longrightarrow> th_state th' = TH_RUNNING \<and> handoffThread th' = None \<and> \<not> markedForSleep th'"
  shows "fake_ok s'"
proof -
  have "(\<exists>t. gidMap s' y = Some t \<and> fakeLeave t \<noteq> None) \<longleftrightarrow> (\<exists>t. gidMap s y = Some t \<and> fakeLeave t \<noteq> None)" for y
    using assms(2-4) by (cases "y = g") auto
  moreover have "th_state t = TH_RUNNING \<and> handoffThread t = None \<and> \<not> markedForSleep t" if "gidMap s' y = Some t" "fakeLeave t \<noteq> None" for y t
    using assms(1,3,6) that unfolding fake_ok_def by (cases "y = g") auto
  ultimately show ?thesis using fake_okD(1,2) [OF assms(1)] assms(5) by (intro fake_okI) (auto simp: same_lists_def)
qed

lemma work_ok_upd:
  assumes "work_ok s" "gidMap s g = Some th" "gidMap s' = (gidMap s)(g \<mapsto> th')" "th_mask th' = th_mask th"
    "handoffThread th' = handoffThread th" "wakeupPhase th' = wakeupPhase th" "same_lists s s'" "g \<notin> set (outQueue s) \<or> th_cid th' = th_cid th"
  shows "work_ok s'"
proof -
  note o = one_thread [OF assms(2-6)]
  have "cid_of s' t = cid_of s t" if "t \<in> set (outQueue s)" for t using that o(5) assms(2,8) by (auto simp: cid_of_def)
  then show ?thesis using assms(1,7) unfolding work_ok_def same_lists_def o(3) by auto
qed

lemma misc_upd: "misc_ok s \<Longrightarrow> same_lists s s' \<Longrightarrow> misc_ok s'"
  by (simp add: misc_ok_def same_lists_def)

lemma sched_invD:
  assumes "sched_inv F U s"
  shows "ctx_ok F s" "queues_ok U s" "hand_ok s" "work_ok s" "sleep_ok U s" "fake_ok s" "misc_ok s"
  using assms by (simp_all add: sched_inv_def)

lemma owner_state:
  assumes "queues_ok U s" "gidMap s g = Some th"
  shows "g \<in> set (runQueue s) \<Longrightarrow> th_state th = TH_QUEUED" "g \<in> set (outQueue s) \<Longrightarrow> th_state th = TH_OUT"
    "g \<in> set (sleepQueue s) \<Longrightarrow> th_state th = TH_SLEEPING"
  using queues_okD(4,6,7) [OF assms(1), of g] assms(2) by (simp_all add: in_state_def)

lemma quiet_state:
  assumes "sched_inv F U s" "gidMap s g = Some th" "th_state th \<noteq> TH_RUNNING"
  shows "handoffThread th = None" "\<not> markedForSleep th" "fakeLeave th = None"
  using hand_facts(1) [OF sched_invD(3) [OF assms(1)] assms(2,3)] sleep_okD(4) [OF sched_invD(5) [OF assms(1)] assms(2)]
    fake_okD(3) [OF sched_invD(6) [OF assms(1)] assms(2)] assms(3) by blast+

lemma ctx_record: "(x :: ContextInfo)\<lparr>ctx_state := a, curThread := b\<rparr> = \<lparr>ctx_state = a, curThread = b\<rparr>"
  by (cases x) simp

lemma deschedule_ok:
  assumes inv: "sched_inv F U s" and g: "gidMap s g = Some th" "th_state th = TH_RUNNING \<or> th_state th = TH_OUT" "g \<notin> set (outQueue s)"
    and q: "handoffThread th = None" "\<not> markedForSleep th" "fakeLeave th = None"
    and t: "t = TH_BLOCKED \<or> t = TH_QUEUED \<or> t = TH_SLEEPING" "t = TH_SLEEPING \<longrightarrow> th_futexWord th = 1"
  shows "\<exists>s'. deschedule g (th_cid th) t s = Some s' \<and> sched_inv (insert (th_cid th) F) (insert g U) s'
    \<and> gidMap s' = (gidMap s)(g \<mapsto> th\<lparr>th_state := t\<rparr>) \<and> same_lists s s'"
proof -
  note i = sched_invD [OF inv]
  have c: "th_cid th < length (contexts s)" "curThread (contexts s ! th_cid th) = Some g"
    using ctx_okD(1) [OF i(1) g(1)] g(2) by (auto simp: thread_ok_def)
  have used: "ctx_state (contexts s ! th_cid th) = USED"
    using ctx_okD(3) [OF i(1) c(1)] c(2) by (cases "ctx_state (contexts s ! th_cid th)") auto
  let ?c = "th_cid th" let ?th' = "th\<lparr>th_state := t\<rparr>"
  define s' where "s' = core (CoreSwitch ?c None) ((upd_ctx ?c (\<lambda>x. x\<lparr>ctx_state := IDLE, curThread := None\<rparr>) (upd_th g (\<lambda>x. x\<lparr>th_state := t\<rparr>) s))
     \<lparr>scheduledThreads := scheduledThreads s - 1\<rparr>)"
  have de: "deschedule g ?c t s = Some s'" using g(1,2) used c(2) t(1) by (simp add: deschedule_def s'_def Let_def)
  have m: "gidMap s' = (gidMap s)(g \<mapsto> ?th')" using g(1) by (simp add: s'_def)
  have cx: "contexts s' = (contexts s)[?c := \<lparr>ctx_state = IDLE, curThread = None\<rparr>]" by (simp add: s'_def ctx_record)
  have sl: "same_lists s s'" by (simp add: s'_def same_lists_def)
  have no: "no_owner g s" using owner_state [OF i(2) g(1)] g(2,3) by (auto simp: no_owner_def)
  have nt: "\<not> target s g" using hand_facts(2) [OF i(3) g(1)] g(2) by auto
  have "ctx_ok (insert ?c F) s'" by (rule ctx_desched [OF i(1) g(1,2) _ _ m cx]) (use t(1) in \<open>auto simp: s'_def\<close>)
  moreover have "queues_ok (insert g U) s'" by (rule queues_move [OF i(2) g(1) m _ _ _ sl]) (use no in auto)
  moreover have "hand_ok s'" by (rule hand_ok_upd [OF i(3) g(1) m]) (use q nt in auto)
  moreover have "work_ok s'" by (rule work_ok_upd [OF i(4) g(1) m _ _ _ sl]) auto
  moreover have "sleep_ok (insert g U) s'" by (rule sleep_upd [OF i(5) g(1) m _ _ _ sl]) (use q t in auto)
  moreover have "fake_ok s'" by (rule fake_upd [OF i(6) g(1) m _ sl]) (use q in auto)
  moreover have "misc_ok s'" by (rule misc_upd [OF i(7) sl])
  ultimately have "sched_inv (insert ?c F) (insert g U) s'" by (simp add: sched_inv_def)
  then show ?thesis using de m sl by blast
qed

lemma schedule_ok:
  assumes inv: "sched_inv F U s" and g: "gidMap s g = Some th" "th_state th = TH_STARTED \<or> th_state th = TH_BLOCKED \<or> th_state th = TH_QUEUED"
    "g \<notin> set (runQueue s)" "\<not> target s g" and c: "c \<in> F" "th_mask th ! c"
  shows "\<exists>s'. schedule g c s = Some s' \<and> sched_inv (F - {c}) (U - {g}) s'
    \<and> gidMap s' = (gidMap s)(g \<mapsto> th\<lparr>th_state := TH_RUNNING, th_cid := c\<rparr>) \<and> same_lists s s'"
proof -
  note i = sched_invD [OF inv]
  have k: "c < length (contexts s)" "curThread (contexts s ! c) = None" using ctx_free_iff [OF i(1), of c] c(1) by auto
  have idle: "ctx_state (contexts s ! c) = IDLE" using ctx_okD(3) [OF i(1) k(1)] k(2) by simp
  let ?th' = "th\<lparr>th_state := TH_RUNNING, th_cid := c\<rparr>"
  have nr: "th_state th \<noteq> TH_RUNNING" "th_state th \<noteq> TH_OUT" using g(2) by auto
  note q = quiet_state [OF inv g(1) nr(1)]
  define s' where "s' = core (CoreSwitch c (Some g)) ((upd_ctx c (\<lambda>x. x\<lparr>ctx_state := USED, curThread := Some g\<rparr>)
     (upd_th g (\<lambda>x. x\<lparr>th_state := TH_RUNNING, th_cid := c\<rparr>) s))\<lparr>scheduledThreads := Suc (scheduledThreads s)\<rparr>)"
  have sc: "schedule g c s = Some s'" using g(1,2) idle k(2) by (simp add: schedule_def s'_def Let_def)
  have m: "gidMap s' = (gidMap s)(g \<mapsto> ?th')" using g(1) by (simp add: s'_def)
  have cx: "contexts s' = (contexts s)[c := \<lparr>ctx_state = USED, curThread = Some g\<rparr>]" by (simp add: s'_def ctx_record)
  have sl: "same_lists s s'" by (simp add: s'_def same_lists_def)
  have no: "no_owner g s" using owner_state [OF i(2) g(1)] g(2,3) by (auto simp: no_owner_def)
  have "ctx_ok (F - {c}) s'" by (rule ctx_sched [OF i(1) g(1) nr c m cx]) (simp_all add: s'_def)
  moreover have "queues_ok (insert g U) s'" by (rule queues_move [OF i(2) g(1) m _ _ _ sl]) (use no in auto)
  then have "queues_ok (insert g (U - {g})) s'" by simp
  then have "queues_ok (U - {g}) s'" by (rule queues_drop [of g _ _ ?th']) (simp_all add: m)
  moreover have "hand_ok s'" by (rule hand_ok_upd [OF i(3) g(1) m]) (use q g(4) in auto)
  moreover have "work_ok s'" by (rule work_ok_upd [OF i(4) g(1) m _ _ _ sl]) (use no in \<open>auto simp: no_owner_def\<close>)
  moreover have "sleep_ok (U - {g}) s'" by (rule sleep_upd [OF i(5) g(1) m _ _ _ sl]) (use q in auto)
  moreover have "fake_ok s'" by (rule fake_upd [OF i(6) g(1) m _ sl]) (use q in auto)
  moreover have "misc_ok s'" by (rule misc_upd [OF i(7) sl])
  ultimately have "sched_inv (F - {c}) (U - {g}) s'" by (simp add: sched_inv_def)
  then show ?thesis using sc m sl by blast
qed

text \<open>A change of a thread that neither the queues nor the contexts notice.\<close>

lemma note_ok:
  assumes inv: "sched_inv F U s" and g: "gidMap s g = Some th" and m: "gidMap s' = (gidMap s)(g \<mapsto> th')"
    and k: "th_mask th' = th_mask th" "th_state th' = th_state th" "th_cid th' = th_cid th" "wakeupPhase th' = wakeupPhase th"
      "handoffThread th' = handoffThread th" "fakeLeave th' = fakeLeave th" "markedForSleep th' = markedForSleep th"
    and f: "contexts s' = contexts s" "scheduledThreads s' = scheduledThreads s" "same_lists s s'" "U \<subseteq> insert g V" "V \<subseteq> U"
    and w: "th_state th = TH_QUEUED \<and> g \<notin> V \<or> th_state th = TH_SLEEPING \<or> markedForSleep th \<longrightarrow> th_futexWord th' = 1"
    and v: "g \<in> U \<longrightarrow> g \<notin> V \<longrightarrow> queues_ok V s'"
  shows "sched_inv F V s'"
proof -
  note i = sched_invD [OF inv] note o = one_thread [OF g m k(1,5,4)]
  have "ctx_ok F s'" by (rule ctx_same [OF i(1) g m]) (use k f in \<open>auto simp: same_lists_def\<close>)
  moreover have "queues_ok V s'"
  proof (cases "g \<in> U \<and> g \<notin> V")
    case False
    then have "U = V" using f(4,5) by auto
    moreover have "in_state s' = in_state s" using o(1) g k(2) by (auto simp: fun_eq_iff in_state_def)
    ultimately show ?thesis using i(2) f(3) unfolding queues_ok_def same_lists_def o(2) by simp
  qed (use v in blast)
  moreover have "in_state s' = in_state s" using o(1) g k(2) by (auto simp: fun_eq_iff in_state_def)
  then have "hand_ok s'" by (rule hand_frame [OF i(3) _ o(3)]) (use m g k in \<open>auto split: if_splits\<close>)
  moreover have "work_ok s'" by (rule work_ok_upd [OF i(4) g m k(1,5,4) f(3)]) (simp add: k(3))
  moreover have "sleep_ok V s'"
    by (rule sleep_upd [OF i(5) g m k(1,5,4) f(3,4)]) (use w k(2,4,5,7) sleep_okD(4) [OF i(5) g] in auto)
  moreover have "fake_ok s'" by (rule fake_upd [OF i(6) g m k(6) f(3)]) (use k(2,5,6,7) fake_okD(3) [OF i(6) g] in auto)
  moreover have "misc_ok s'" by (rule misc_upd [OF i(7) f(3)])
  ultimately show ?thesis by (simp add: sched_inv_def)
qed

lemma wakeup_ok:
  assumes inv: "sched_inv F U s" and g: "gidMap s g = Some th" "th_futexWord th = 1" "th_state th = TH_RUNNING" "\<not> markedForSleep th"
  shows "\<exists>s'. wakeup g b s = Some s' \<and> sched_inv F U s' \<and> gidMap s' = (gidMap s)(g \<mapsto> th\<lparr>needsJoin := b, th_futexWord := 0\<rparr>)
    \<and> same_lists s s' \<and> contexts s' = contexts s"
proof -
  let ?s' = "upd_th g (\<lambda>t. t\<lparr>needsJoin := b, th_futexWord := 0\<rparr>) s"
  have "wakeup g b s = Some ?s'" using g by (simp add: wakeup_def)
  moreover have "sched_inv F U ?s'"
    by (rule note_ok [OF inv g(1), of _ "th\<lparr>needsJoin := b, th_futexWord := 0\<rparr>"]) (use g in \<open>auto simp: same_lists_def\<close>)
  ultimately show ?thesis using g(1) by (auto simp: same_lists_def)
qed

lemma core_inv [simp]: "sched_inv F U (core x s) = sched_inv F U s" "in_state (core x s) = in_state s" "target (core x s) = target s"
  "allows (core x s) = allows s" "cid_of (core x s) = cid_of s" "no_owner g (core x s) = no_owner g s" "wake_key (core x s) = wake_key s"
proof -
  note r = reads_map [of "core x s" s, OF core_simps(1)]
  show "in_state (core x s) = in_state s" "target (core x s) = target s" "allows (core x s) = allows s" "cid_of (core x s) = cid_of s"
    "wake_key (core x s) = wake_key s" "no_owner g (core x s) = no_owner g s" by (simp_all add: r no_owner_def)
  show "sched_inv F U (core x s) = sched_inv F U s"
    unfolding sched_inv_def ctx_ok_def thread_ok_def queues_ok_def hand_ok_def work_ok_def sleep_ok_def fake_ok_def misc_ok_def r by simp
qed

subsubsection \<open>One queue changes\<close>

lemma same_map_inv:
  assumes "gidMap s' = gidMap s" "contexts s' = contexts s" "freeList s' = freeList s" "scheduledThreads s' = scheduledThreads s"
    "fakeLeaves s' = fakeLeaves s" "curPhase s' = curPhase s" "numPhases s' = numPhases s" "schedQuantum s' = schedQuantum s" "sc_rnd s' = sc_rnd s"
  shows "ctx_ok F s' = ctx_ok F s" "hand_ok s' = hand_ok s" "fake_ok s' = fake_ok s" "misc_ok s' = misc_ok s"
    "sleepQueue s' = sleepQueue s \<Longrightarrow> sleep_ok U s' = sleep_ok U s"
proof -
  note r = reads_map [OF assms(1)]
  show "ctx_ok F s' = ctx_ok F s" "hand_ok s' = hand_ok s" "fake_ok s' = fake_ok s" "misc_ok s' = misc_ok s"
    unfolding ctx_ok_def thread_ok_def hand_ok_def fake_ok_def misc_ok_def r assms by (rule refl)+
  show "sleep_ok U s' = sleep_ok U s" if "sleepQueue s' = sleepQueue s" unfolding sleep_ok_def r assms that by (rule refl)
qed

lemma sleep_more: "sleep_ok U s \<Longrightarrow> U \<subseteq> V \<Longrightarrow> sleep_ok V s"
  unfolding sleep_ok_def by blast

lemma sleep_less:
  assumes "sleep_ok (insert g U) s" "gidMap s g = Some th" "th_state th = TH_QUEUED \<longrightarrow> th_futexWord th = 1"
  shows "sleep_ok U s"
proof (rule sleep_okI)
  note d = sleep_okD [OF assms(1)]
  show "th_futexWord u = 1" if "gidMap s y = Some u" "th_state u = TH_QUEUED \<and> y \<notin> U \<or> th_state u = TH_SLEEPING \<or> markedForSleep u" for y u
    using d(3) [OF that(1)] that assms(2,3) by (cases "y = g") auto
qed (rule sleep_okD [OF assms(1)]; assumption)+

lemma run_remove:
  assumes "sched_inv F U s" "g \<in> set (runQueue s)"
  shows "sched_inv F (insert g U) (s\<lparr>runQueue := remove1 g (runQueue s)\<rparr>)"
proof -
  note i = sched_invD [OF assms(1)] note q = queues_okD [OF i(2)] let ?s' = "s\<lparr>runQueue := remove1 g (runQueue s)\<rparr>"
  note r = reads_map [of ?s' s, simplified] note m = same_map_inv [of ?s' s, simplified]
  have sub: "set (remove1 g (runQueue s)) = set (runQueue s) - {g}" using q(1) by (simp add: set_remove1_eq)
  have "queues_ok (insert g U) ?s'"
    by (rule queues_okI) (use q in \<open>simp_all add: r sub distinct_remove1\<close>)
  moreover have "work_ok ?s'" using i(4) by (simp add: work_ok_def r sub)
  ultimately show ?thesis using i(1,3,6,7) sleep_more [OF i(5), of "insert g U"] m by (simp add: sched_inv_def subset_insertI)
qed

lemma out_remove:
  assumes "sched_inv F U s" "g \<in> set (outQueue s)"
  shows "sched_inv F (insert g U) (s\<lparr>outQueue := remove1 g (outQueue s)\<rparr>)"
proof -
  note i = sched_invD [OF assms(1)] note q = queues_okD [OF i(2)] let ?s' = "s\<lparr>outQueue := remove1 g (outQueue s)\<rparr>"
  note r = reads_map [of ?s' s, simplified] note m = same_map_inv [of ?s' s, simplified]
  have sub: "set (remove1 g (outQueue s)) = set (outQueue s) - {g}" using q(2) by (simp add: set_remove1_eq)
  have "queues_ok (insert g U) ?s'"
    by (rule queues_okI) (use q in \<open>simp_all add: r sub distinct_remove1\<close>)
  moreover have "work_ok ?s'" using i(4) by (simp add: work_ok_def r sub)
  ultimately show ?thesis using i(1,3,6,7) sleep_more [OF i(5), of "insert g U"] m by (simp add: sched_inv_def subset_insertI)
qed

lemma sorted_remove1_key: "sorted (map k xs) \<Longrightarrow> sorted (map k (remove1 x xs))"
  by (induction xs) (auto dest: notin_set_remove1)

lemma sleep_remove:
  assumes "sched_inv F U s" "g \<in> set (sleepQueue s)"
  shows "sched_inv F (insert g U) (s\<lparr>sleepQueue := remove1 g (sleepQueue s)\<rparr>)"
proof -
  note i = sched_invD [OF assms(1)] note q = queues_okD [OF i(2)] let ?s' = "s\<lparr>sleepQueue := remove1 g (sleepQueue s)\<rparr>"
  note r = reads_map [of ?s' s, simplified] note m = same_map_inv [of ?s' s, simplified]
  have sub: "set (remove1 g (sleepQueue s)) = set (sleepQueue s) - {g}" using q(3) by (simp add: set_remove1_eq)
  have "queues_ok (insert g U) ?s'"
    by (rule queues_okI) (use q in \<open>simp_all add: r sub distinct_remove1\<close>)
  moreover have "work_ok ?s'" using i(4) by (simp add: work_ok_def r)
  moreover have "sleep_ok (insert g U) ?s'"
    by (rule sleep_okI) (use sleep_okD [OF sleep_more [OF i(5) subset_insertI]] sorted_remove1_key in \<open>simp_all add: r sub\<close>)
  ultimately show ?thesis using i(1,3,6,7) m by (simp add: sched_inv_def)
qed

lemma run_add:
  assumes "sched_inv F (insert g U) s" "gidMap s g = Some th" "th_state th = TH_QUEUED" "\<not> target s g" "g \<notin> set (runQueue s)" "th_futexWord th = 1"
    "\<forall>c \<in> set (freeList s). \<not> th_mask th ! c" "\<forall>t \<in> set (outQueue s). \<not> th_mask th ! cid_of s t"
  shows "sched_inv F U (s\<lparr>runQueue := runQueue s @ [g]\<rparr>)"
proof -
  note i = sched_invD [OF assms(1)] note q = queues_okD [OF i(2)] let ?s' = "s\<lparr>runQueue := runQueue s @ [g]\<rparr>"
  note r = reads_map [of ?s' s, simplified] note m = same_map_inv [of ?s' s, simplified]
  have g: "in_state s TH_QUEUED g" "\<not> in_state s TH_OUT g" "\<not> in_state s TH_SLEEPING g" using assms(2,3) by (simp_all add: in_state_def)
  have "queues_ok U ?s'"
  proof (rule queues_okI, unfold r)
    show "y \<in> set (outQueue ?s')" if "y \<notin> U" "in_state s TH_OUT y" for y using q(8) [of y] that g by (cases "y = g") auto
    show "y \<in> set (sleepQueue ?s')" if "y \<notin> U" "in_state s TH_SLEEPING y" for y using q(9) [of y] that g by (cases "y = g") auto
    show "y \<in> set (runQueue ?s') \<or> target s y" if "y \<notin> U" "in_state s TH_QUEUED y" for y using q(10) [of y] that by (cases "y = g") auto
  qed (use q g(1) assms(4,5) in auto)
  moreover have "work_ok ?s'" using i(4) assms(2,7,8) by (auto simp: work_ok_def r allows_def)
  moreover have "sleep_ok U s" by (rule sleep_less [OF i(5) assms(2)]) (simp add: assms(6))
  ultimately show ?thesis using i(1,3,6,7) m by (simp add: sched_inv_def)
qed

lemma out_add:
  assumes "sched_inv F (insert g U) s" "gidMap s g = Some th" "th_state th = TH_OUT" "g \<notin> set (outQueue s)"
    "\<forall>q \<in> set (runQueue s). \<not> allows s q (th_cid th)"
  shows "sched_inv F U (s\<lparr>outQueue := outQueue s @ [g]\<rparr>)"
proof -
  note i = sched_invD [OF assms(1)] note q = queues_okD [OF i(2)] let ?s' = "s\<lparr>outQueue := outQueue s @ [g]\<rparr>"
  note r = reads_map [of ?s' s, simplified] note m = same_map_inv [of ?s' s, simplified]
  have g: "in_state s TH_OUT g" "\<not> in_state s TH_QUEUED g" "\<not> in_state s TH_SLEEPING g" using assms(2,3) by (simp_all add: in_state_def)
  have "queues_ok U ?s'"
  proof (rule queues_okI, unfold r)
    show "y \<in> set (outQueue ?s')" if "y \<notin> U" "in_state s TH_OUT y" for y using q(8) [of y] that g by (cases "y = g") auto
    show "y \<in> set (sleepQueue ?s')" if "y \<notin> U" "in_state s TH_SLEEPING y" for y using q(9) [of y] that g by (cases "y = g") auto
    show "y \<in> set (runQueue ?s') \<or> target s y" if "y \<notin> U" "in_state s TH_QUEUED y" for y using q(10) [of y] that g by (cases "y = g") auto
  qed (use q g(1) assms(4) in auto)
  moreover have "work_ok ?s'" using i(4) assms(2,5) by (auto simp: work_ok_def r cid_of_def)
  moreover have "sleep_ok U s" by (rule sleep_less [OF i(5) assms(2)]) (simp add: assms(3))
  ultimately show ?thesis using i(1,3,6,7) m by (simp add: sched_inv_def)
qed

lemma sleep_add:
  assumes "sched_inv F (insert g U) s" "gidMap s g = Some th" "th_state th = TH_SLEEPING" "g \<notin> set (sleepQueue s)" "curPhase s < wakeupPhase th"
  shows "sched_inv F U (s\<lparr>sleepQueue := ord_insert (wake_key s) g (sleepQueue s)\<rparr>)"
proof -
  note i = sched_invD [OF assms(1)] note q = queues_okD [OF i(2)] let ?s' = "s\<lparr>sleepQueue := ord_insert (wake_key s) g (sleepQueue s)\<rparr>"
  note r = reads_map [of ?s' s, simplified] note m = same_map_inv [of ?s' s, simplified]
  have g: "in_state s TH_SLEEPING g" "\<not> in_state s TH_QUEUED g" "\<not> in_state s TH_OUT g" using assms(2,3) by (simp_all add: in_state_def)
  have "queues_ok U ?s'"
  proof (rule queues_okI, unfold r)
    show "y \<in> set (outQueue ?s')" if "y \<notin> U" "in_state s TH_OUT y" for y using q(8) [of y] that g by (cases "y = g") auto
    show "y \<in> set (sleepQueue ?s')" if "y \<notin> U" "in_state s TH_SLEEPING y" for y
      using q(9) [of y] that g by (cases "y = g") (auto simp: ord_insert_set)
    show "y \<in> set (runQueue ?s') \<or> target s y" if "y \<notin> U" "in_state s TH_QUEUED y" for y using q(10) [of y] that g by (cases "y = g") auto
  qed (use q g(1) assms(4) in \<open>auto simp: ord_insert_set\<close>)
  moreover have "work_ok ?s'" using i(4) by (simp add: work_ok_def r)
  moreover have "sleep_ok U ?s'"
  proof (rule sleep_okI, unfold r)
    show "sorted (map (wake_key s) (sleepQueue ?s'))" using sleep_okD(1) [OF i(5)] by (simp add: ord_insert_sorted)
    show "curPhase ?s' < wake_key s y" if "y \<in> set (sleepQueue ?s')" for y
      using that sleep_okD(2) [OF i(5), of y] assms(2,5) by (auto simp: ord_insert_set wake_key_def)
    show "th_futexWord u = 1" if "gidMap ?s' y = Some u" "th_state u = TH_QUEUED \<and> y \<notin> U \<or> th_state u = TH_SLEEPING \<or> markedForSleep u" for y u
      using sleep_okD(3) [OF i(5), of y u] that g(2) by (cases "y = g") (auto simp: in_state_def)
  qed (use sleep_okD(4) [OF i(5)] in simp)
  ultimately show ?thesis using i(1,3,6,7) m by (simp add: sched_inv_def)
qed

lemma free_remove:
  assumes "sched_inv F U s" "c \<in> set (freeList s)"
  shows "sched_inv (insert c F) U (s\<lparr>freeList := remove1 c (freeList s)\<rparr>)"
proof -
  note i = sched_invD [OF assms(1)] note k = ctx_okD [OF i(1)] let ?s' = "s\<lparr>freeList := remove1 c (freeList s)\<rparr>"
  note r = reads_map [of ?s' s, simplified]
  have sub: "set (remove1 c (freeList s)) = set (freeList s) - {c}" using k(4) by (simp add: set_remove1_eq)
  have "ctx_ok (insert c F) ?s'"
  proof (rule ctx_okI)
    show "set (freeList ?s') \<inter> insert c F = {}" using k(5) sub by auto
    show "set (freeList ?s') \<union> insert c F = {x. x < length (contexts ?s') \<and> curThread (contexts ?s' ! x) = None}" using k(6) sub assms(2) by auto
  qed (use k in \<open>simp_all add: thread_ok_def distinct_remove1\<close>)
  moreover have "work_ok ?s'" using i(4) by (simp add: work_ok_def r sub)
  ultimately show ?thesis using i(2,3,5,6,7)
    by (simp add: sched_inv_def queues_ok_def hand_ok_def sleep_ok_def fake_ok_def misc_ok_def r)
qed

lemma free_add:
  assumes "sched_inv (insert c F) U s" "c \<notin> F" "\<forall>q \<in> set (runQueue s). \<not> allows s q c"
  shows "sched_inv F U (s\<lparr>freeList := freeList s @ [c]\<rparr>)" "c \<notin> set (freeList s)"
proof -
  note i = sched_invD [OF assms(1)] note k = ctx_okD [OF i(1)] let ?s' = "s\<lparr>freeList := freeList s @ [c]\<rparr>"
  note r = reads_map [of ?s' s, simplified]
  show c: "c \<notin> set (freeList s)" using k(5) by auto
  have "ctx_ok F ?s'"
  proof (rule ctx_okI)
    show "set (freeList ?s') \<inter> F = {}" using k(5) assms(2) by auto
    show "set (freeList ?s') \<union> F = {x. x < length (contexts ?s') \<and> curThread (contexts ?s' ! x) = None}" using k(6) by auto
  qed (use k c in \<open>simp_all add: thread_ok_def\<close>)
  moreover have "work_ok ?s'" using i(4) assms(3) by (auto simp: work_ok_def r)
  ultimately show "sched_inv F U ?s'" using i(2,3,5,6,7)
    by (simp add: sched_inv_def queues_ok_def hand_ok_def sleep_ok_def fake_ok_def misc_ok_def r)
qed

subsubsection \<open>What the barrier sees of the threads\<close>

text \<open>The contexts whose thread runs, whose thread must be awake, and whose thread has a handoff to make.\<close>

definition run_at :: "sched \<Rightarrow> nat set" where
  "run_at s = {c. \<exists>g th. gidMap s g = Some th \<and> th_state th = TH_RUNNING \<and> th_cid th = c}"

definition awake_at :: "sched \<Rightarrow> nat set" where
  "awake_at s = {c. \<exists>g th. gidMap s g = Some th \<and> (markedForSleep th \<or> fakeLeave th \<noteq> None) \<and> th_cid th = c}"

definition hand_at :: "sched \<Rightarrow> nat set" where
  "hand_at s = {c. \<exists>g th. gidMap s g = Some th \<and> handoffThread th \<noteq> None \<and> th_cid th = c}"

lemma sets_map: "gidMap s' = gidMap s \<Longrightarrow> run_at s' = run_at s \<and> awake_at s' = awake_at s \<and> hand_at s' = hand_at s"
  by (simp add: run_at_def awake_at_def hand_at_def)

lemma ex_thread:
  assumes "gidMap s g = Some th" "gidMap s' = (gidMap s)(g \<mapsto> th')"
  shows "(\<exists>y t. gidMap s' y = Some t \<and> P t) \<longleftrightarrow> P th' \<or> (\<exists>y t. y \<noteq> g \<and> gidMap s y = Some t \<and> P t)"
    "(\<exists>y t. gidMap s y = Some t \<and> P t) \<longleftrightarrow> P th \<or> (\<exists>y t. y \<noteq> g \<and> gidMap s y = Some t \<and> P t)"
  unfolding assms(2) using assms(1) by (metis fun_upd_apply option.inject)+

lemma quiet_sets:
  assumes "gidMap s g = Some th" "gidMap s' = (gidMap s)(g \<mapsto> th')"
  shows "\<not> markedForSleep th \<Longrightarrow> fakeLeave th = None \<Longrightarrow> \<not> markedForSleep th' \<Longrightarrow> fakeLeave th' = None \<Longrightarrow> awake_at s' = awake_at s"
    "handoffThread th = None \<Longrightarrow> handoffThread th' = None \<Longrightarrow> hand_at s' = hand_at s"
    "handoffThread th' = handoffThread th \<Longrightarrow> th_cid th' = th_cid th \<Longrightarrow> hand_at s' = hand_at s"
    "markedForSleep th' = markedForSleep th \<Longrightarrow> fakeLeave th' = fakeLeave th \<Longrightarrow> th_cid th' = th_cid th \<Longrightarrow> awake_at s' = awake_at s"
    "th_state th \<noteq> TH_RUNNING \<Longrightarrow> th_state th' \<noteq> TH_RUNNING \<Longrightarrow> run_at s' = run_at s"
    "th_state th' = th_state th \<Longrightarrow> th_cid th' = th_cid th \<Longrightarrow> run_at s' = run_at s"
    "th_state th \<noteq> TH_RUNNING \<Longrightarrow> th_state th' = TH_RUNNING \<Longrightarrow> run_at s' = insert (th_cid th') (run_at s)"
proof -
  note * = ex_thread [OF assms]
  note d = awake_at_def hand_at_def run_at_def
  show "awake_at s' = awake_at s" if "\<not> markedForSleep th" "fakeLeave th = None" "\<not> markedForSleep th'" "fakeLeave th' = None"
    unfolding d * using that by simp
  show "hand_at s' = hand_at s" if "handoffThread th = None" "handoffThread th' = None" unfolding d * using that by simp
  show "hand_at s' = hand_at s" if "handoffThread th' = handoffThread th" "th_cid th' = th_cid th" unfolding d * using that by simp
  show "awake_at s' = awake_at s" if "markedForSleep th' = markedForSleep th" "fakeLeave th' = fakeLeave th" "th_cid th' = th_cid th"
    unfolding d * using that by simp
  show "run_at s' = run_at s" if "th_state th \<noteq> TH_RUNNING" "th_state th' \<noteq> TH_RUNNING" unfolding d * using that by simp
  show "run_at s' = run_at s" if "th_state th' = th_state th" "th_cid th' = th_cid th" unfolding d * using that by simp
  show "run_at s' = insert (th_cid th') (run_at s)" if "th_state th \<noteq> TH_RUNNING" "th_state th' = TH_RUNNING"
    unfolding d * using that by auto
qed

lemma one_per_context:
  assumes "ctx_ok F s" "gidMap s g = Some th" "gidMap s y = Some t" "th_cid t = th_cid th"
    "th_state th = TH_RUNNING \<or> th_state th = TH_OUT" "th_state t = TH_RUNNING \<or> th_state t = TH_OUT"
  shows "y = g"
  using ctx_okD(1) [OF assms(1,2)] ctx_okD(1) [OF assms(1,3)] assms(4-6) by (auto simp: thread_ok_def)

lemma run_at_remove:
  assumes "ctx_ok F s" "gidMap s g = Some th" "gidMap s' = (gidMap s)(g \<mapsto> th')" "th_state th = TH_RUNNING \<or> th_state th = TH_OUT" "th_state th' \<noteq> TH_RUNNING"
  shows "run_at s' = run_at s - {th_cid th}"
proof -
  have "th_cid t \<noteq> th_cid th" if "gidMap s y = Some t" "th_state t = TH_RUNNING" "y \<noteq> g" for y t
    using one_per_context [OF assms(1,2) that(1) _ assms(4)] that(2,3) by blast
  then have "(\<exists>y t. gidMap s' y = Some t \<and> th_state t = TH_RUNNING \<and> th_cid t = c)
      \<longleftrightarrow> (\<exists>y t. gidMap s y = Some t \<and> th_state t = TH_RUNNING \<and> th_cid t = c) \<and> c \<noteq> th_cid th" for c
    using assms(2,3,5) by (metis fun_upd_apply option.inject)
  then show ?thesis unfolding run_at_def by blast
qed

lemma run_at_idle:
  assumes "ctx_ok F s" "c \<in> run_at s"
  shows "c < length (contexts s)" "\<exists>g th. gidMap s g = Some th \<and> th_state th = TH_RUNNING \<and> curThread (contexts s ! c) = Some g \<and> th_cid th = c"
proof -
  obtain g th where g: "gidMap s g = Some th" "th_state th = TH_RUNNING" "th_cid th = c" using assms(2) by (auto simp: run_at_def)
  then show "c < length (contexts s)" "\<exists>g th. gidMap s g = Some th \<and> th_state th = TH_RUNNING \<and> curThread (contexts s ! c) = Some g \<and> th_cid th = c"
    using ctx_okD(1) [OF assms(1) g(1)] by (auto simp: thread_ok_def)
qed

subsubsection \<open>The policy\<close>

definition same_sets :: "sched \<Rightarrow> sched \<Rightarrow> bool" where
  "same_sets s s' \<longleftrightarrow> run_at s' = run_at s \<and> awake_at s' = awake_at s \<and> hand_at s' = hand_at s"

lemma drop_user:
  assumes "sched_inv F (insert g U) s" "gidMap s g = Some th" "th_state th = TH_STARTED \<or> th_state th = TH_RUNNING \<or> th_state th = TH_BLOCKED"
  shows "sched_inv F U s"
proof -
  note i = sched_invD [OF assms(1)]
  have "queues_ok U s" by (rule queues_drop [OF i(2) assms(2,3)])
  moreover have "sleep_ok U s" by (rule sleep_less [OF i(5) assms(2)]) (use assms(3) in auto)
  ultimately show ?thesis using i by (simp add: sched_inv_def)
qed

lemma held_idle:
  assumes "sched_inv F U s" "c \<in> F"
  shows "c \<notin> run_at s" "c < length (contexts s)"
proof -
  note i = sched_invD [OF assms(1)]
  have "c < length (contexts s)" "curThread (contexts s ! c) = None" using ctx_free_iff [OF i(1), of c] assms(2) by auto
  then show "c \<notin> run_at s" "c < length (contexts s)" using run_at_idle [OF i(1), of c] by auto
qed

lemma steal_ok:
  assumes inv: "sched_inv {} U s" and t: "t \<in> set (outQueue s)"
  shows "\<exists>s'. deschedule t (cid_of s t) TH_BLOCKED (s\<lparr>outQueue := remove1 t (outQueue s)\<rparr>) = Some s' \<and> sched_inv {cid_of s t} U s'
    \<and> (\<forall>y. y \<noteq> t \<longrightarrow> gidMap s' y = gidMap s y) \<and> runQueue s' = runQueue s \<and> target s' = target s \<and> same_sets s s' \<and> in_state s TH_OUT t"
proof -
  note i = sched_invD [OF inv]
  have out: "in_state s TH_OUT t" using queues_okD(6) [OF i(2) t] .
  then obtain th where th: "gidMap s t = Some th" "th_state th = TH_OUT" by (auto simp: in_state_def)
  let ?s1 = "s\<lparr>outQueue := remove1 t (outQueue s)\<rparr>"
  note inv1 = out_remove [OF inv t]
  have th1: "gidMap ?s1 t = Some th" using th by simp
  note q = quiet_state [OF inv1 th1, unfolded th(2), simplified]
  have n: "t \<notin> set (outQueue ?s1)" using queues_okD(2) [OF i(2)] by (simp add: set_remove1_eq)
  obtain s' where s': "deschedule t (th_cid th) TH_BLOCKED ?s1 = Some s'" "sched_inv {th_cid th} (insert t (insert t U)) s'"
      "gidMap s' = (gidMap s)(t \<mapsto> th\<lparr>th_state := TH_BLOCKED\<rparr>)" "same_lists ?s1 s'"
    using deschedule_ok [OF inv1 th1 _ n q, of TH_BLOCKED] th(2) by auto
  have "sched_inv {th_cid th} U s'" by (rule drop_user [of _ t]) (use s'(2,3) in auto)
  moreover have "target s' = target s" by (rule one_thread(2) [OF th(1) s'(3)]) auto
  moreover have "same_sets s s'"
    using quiet_sets [OF th(1) s'(3)] q th(2) by (simp add: same_sets_def)
  moreover have "cid_of s t = th_cid th" using th(1) by (simp add: cid_of_def)
  ultimately show ?thesis using s' out by (auto simp: same_lists_def)
qed

lemma find_in: "find P xs = Some x \<Longrightarrow> x \<in> set xs \<and> P x"
  by (auto simp: find_Some_iff in_set_conv_nth)

lemma schedThread_ok:
  assumes inv: "sched_inv {} U s" and g: "gidMap s g = Some th" "th_state th \<noteq> TH_RUNNING" "th_state th \<noteq> TH_OUT"
  shows "(\<exists>c s'. schedThread g s = Some (Some c, s') \<and> sched_inv {c} U s' \<and> th_mask th ! c \<and> gidMap s' g = Some th
        \<and> runQueue s' = runQueue s \<and> target s' = target s \<and> same_sets s s')
    \<or> schedThread g s = Some (None, s) \<and> (\<forall>c \<in> set (freeList s). \<not> th_mask th ! c) \<and> (\<forall>t \<in> set (outQueue s). \<not> th_mask th ! cid_of s t)"
proof -
  note i = sched_invD [OF inv]
  have cid: "th_cid th < length (contexts s)" using ctx_okD(1) [OF i(1) g(1)] by (simp add: thread_ok_def)
  have fr: "sched_inv {c} U (s\<lparr>freeList := remove1 c (freeList s)\<rparr>)" if "c \<in> set (freeList s)" for c using free_remove [OF inv that] by simp
  have ss: "same_sets s (s\<lparr>freeList := x\<rparr>)" "target (s\<lparr>freeList := x\<rparr>) = target s" for x
    using sets_map [of "s\<lparr>freeList := x\<rparr>" s] reads_map(2) [of "s\<lparr>freeList := x\<rparr>" s] by (simp_all add: same_sets_def)
  show ?thesis
  proof (cases "ctx_state (contexts s ! th_cid th) = IDLE \<and> th_mask th ! th_cid th")
    case True
    then have "th_cid th \<in> set (freeList s)" using ctx_free_iff [OF i(1), of "th_cid th"] ctx_okD(3) [OF i(1) cid] cid by simp
    moreover from this have "schedThread g s = Some (Some (th_cid th), s\<lparr>freeList := remove1 (th_cid th) (freeList s)\<rparr>)"
      using g(1) cid True by (simp add: schedThread_def list_remove_def)
    ultimately show ?thesis using g(1) True fr [of "th_cid th"] ss by auto
  next
    case own: False
    show ?thesis
    proof (cases "find (\<lambda>c. th_mask th ! c) (freeList s)")
      case (Some c)
      have c: "c \<in> set (freeList s)" "th_mask th ! c" using find_in [OF Some] by auto
      have "schedThread g s = Some (Some c, s\<lparr>freeList := remove1 c (freeList s)\<rparr>)"
        using g(1) cid own Some c(2) by (auto simp: schedThread_def)
      then show ?thesis using c g(1) fr [of c] ss by auto
    next
      case nofree: None
      show ?thesis
      proof (cases "find (\<lambda>t. th_mask th ! cid_of s t) (outQueue s)")
        case (Some t)
        have t: "t \<in> set (outQueue s)" "th_mask th ! cid_of s t" using find_in [OF Some] by auto
        obtain s' where s': "deschedule t (cid_of s t) TH_BLOCKED (s\<lparr>outQueue := remove1 t (outQueue s)\<rparr>) = Some s'" "sched_inv {cid_of s t} U s'"
            "\<forall>y. y \<noteq> t \<longrightarrow> gidMap s' y = gidMap s y" "runQueue s' = runQueue s" "target s' = target s" "same_sets s s'" "in_state s TH_OUT t"
          using steal_ok [OF inv t(1)] by blast
        have "t \<noteq> g" using s'(7) g(1,3) by (auto simp: in_state_def)
        moreover have "schedThread g s = Some (Some (cid_of s t), s')" using s'(1) t(2) g(1) cid own nofree Some by (auto simp: schedThread_def)
        ultimately show ?thesis using s'(2-6) t(2) g(1) by auto
      next
        case None
        then have "schedThread g s = Some (None, s)" using g(1) cid own nofree by (auto simp: schedThread_def)
        then show ?thesis using None nofree by (simp add: find_None_iff)
      qed
    qed
  qed
qed

lemma schedContext_ok:
  assumes inv: "sched_inv F U s"
  shows "(\<exists>q th. schedContext c s = (Some q, s\<lparr>runQueue := remove1 q (runQueue s)\<rparr>) \<and> sched_inv F (insert q U) (s\<lparr>runQueue := remove1 q (runQueue s)\<rparr>)
        \<and> gidMap s q = Some th \<and> th_state th = TH_QUEUED \<and> th_mask th ! c \<and> \<not> target s q \<and> q \<in> set (runQueue s) \<and> distinct (runQueue s))
    \<or> schedContext c s = (None, s) \<and> (\<forall>q \<in> set (runQueue s). \<not> allows s q c)"
proof (cases "find (\<lambda>g. allows s g c) (runQueue s)")
  case None
  then have "schedContext c s = (None, s)" by (simp add: schedContext_def)
  then show ?thesis using None by (simp add: find_None_iff)
next
  case (Some q)
  note i = sched_invD [OF inv] note d = queues_okD [OF i(2)]
  have q: "q \<in> set (runQueue s)" "allows s q c" using find_in [OF Some] by auto
  obtain th where th: "gidMap s q = Some th" "th_state th = TH_QUEUED" using d(4) [OF q(1)] by (auto simp: in_state_def)
  have "schedContext c s = (Some q, s\<lparr>runQueue := remove1 q (runQueue s)\<rparr>)" using Some by (simp add: schedContext_def)
  then show ?thesis using run_remove [OF inv q(1)] d(1) d(5) [OF q(1)] q th by (auto simp: allows_def)
qed

text \<open>A context changes hands: the incoming thread is scheduled and woken.\<close>

lemma install_ok:
  assumes inv: "sched_inv F U s" and g: "gidMap s g = Some th" "th_state th = TH_QUEUED" "g \<notin> set (runQueue s)" "\<not> target s g" "th_futexWord th = 1"
    and c: "c \<in> F" "th_mask th ! c"
  shows "\<exists>s1 s2. schedule g c s = Some s1 \<and> wakeup g False (core x s1) = Some s2 \<and> wakeup g False s1 = Some (s2\<lparr>coreLog := coreLog s1\<rparr>)
    \<and> sched_inv (F - {c}) (U - {g}) s2 \<and> same_lists s s2
    \<and> (\<forall>y. y \<noteq> g \<longrightarrow> gidMap s2 y = gidMap s y) \<and> run_at s2 = insert c (run_at s) \<and> awake_at s2 = awake_at s \<and> hand_at s2 = hand_at s
    \<and> target s2 = target s"
proof -
  have nr: "th_state th \<noteq> TH_RUNNING" using g(2) by simp
  note q = quiet_state [OF inv g(1) nr]
  obtain s1 where s1: "schedule g c s = Some s1" "sched_inv (F - {c}) (U - {g}) s1"
      "gidMap s1 = (gidMap s)(g \<mapsto> th\<lparr>th_state := TH_RUNNING, th_cid := c\<rparr>)" "same_lists s s1"
    using schedule_ok [OF inv g(1) _ g(3,4) c] g(2) by auto
  let ?th1 = "th\<lparr>th_state := TH_RUNNING, th_cid := c\<rparr>"
  have g1: "gidMap s1 g = Some ?th1" using s1(3) by simp
  note sets = quiet_sets [OF g(1) s1(3)]
  let ?s2 = "upd_th g (\<lambda>t. t\<lparr>needsJoin := False, th_futexWord := 0\<rparr>) (core x s1)"
  have w: "wakeup g False (core x s1) = Some ?s2" "wakeup g False s1 = Some (?s2\<lparr>coreLog := coreLog s1\<rparr>)"
    using g1 g(5) by (simp_all add: wakeup_def upd_th_def core_def)
  have m2: "gidMap ?s2 = (gidMap s1)(g \<mapsto> ?th1\<lparr>needsJoin := False, th_futexWord := 0\<rparr>)" using g1 by simp
  have "sched_inv (F - {c}) (U - {g}) ?s2"
    by (rule note_ok [OF s1(2) g1 m2]) (use q in \<open>auto simp: same_lists_def\<close>)
  moreover have "run_at ?s2 = insert c (run_at s)" "awake_at ?s2 = awake_at s" "hand_at ?s2 = hand_at s"
    using quiet_sets [OF g1 m2] sets q nr by simp_all
  moreover have "target ?s2 = target s" using one_thread(2) [OF g1 m2] one_thread(2) [OF g(1) s1(3)] by simp
  ultimately show ?thesis using s1 w by (auto simp: same_lists_def)
qed

subsubsection \<open>The end of a phase\<close>

text \<open>A thread without a context gets blocked, or queued for its turn, while an operation holds it.\<close>

lemma held_state_ok:
  assumes inv: "sched_inv F (insert g U) s" and g: "gidMap s g = Some th" "no_owner g s" "th_state th \<noteq> TH_RUNNING" "th_state th \<noteq> TH_OUT"
    and m: "gidMap s' = (gidMap s)(g \<mapsto> th')" "same_lists s s'" "contexts s' = contexts s" "scheduledThreads s' = scheduledThreads s"
    and k: "th_mask th' = th_mask th" "th_cid th' = th_cid th" "handoffThread th' = handoffThread th" "wakeupPhase th' = wakeupPhase th"
      "fakeLeave th' = fakeLeave th" "markedForSleep th' = markedForSleep th"
    and x: "th_state th' = TH_BLOCKED \<or> th_state th' = TH_QUEUED" "\<not> target s g"
  shows "sched_inv F (insert g U) s'" "same_sets s s'" "target s' = target s"
proof -
  note i = sched_invD [OF inv] note q = quiet_state [OF inv g(1,3)]
  have "ctx_ok F s'" by (rule ctx_same [OF i(1) g(1) m(1) k(2,1) _ m(3) _ m(4)]) (use g(3,4) x(1) m(2) in \<open>auto simp: same_lists_def\<close>)
  moreover have "queues_ok (insert g U) s'" using queues_move [OF i(2) g(1) m(1) k(1,3,4) m(2)] g(2) by simp
  moreover have "hand_ok s'" by (rule hand_ok_upd [OF i(3) g(1) m(1) k(1)]) (use q k x(2) in auto)
  moreover have "work_ok s'" by (rule work_ok_upd [OF i(4) g(1) m(1) k(1,3,4) m(2)]) (simp add: k(2))
  moreover have "sleep_ok (insert g U) s'" by (rule sleep_upd [OF i(5) g(1) m(1) k(1,3,4) m(2)]) (use q k x(1) in auto)
  moreover have "fake_ok s'" by (rule fake_upd [OF i(6) g(1) m(1) k(5) m(2)]) (use q k in auto)
  moreover have "misc_ok s'" by (rule misc_upd [OF i(7) m(2)])
  ultimately show "sched_inv F (insert g U) s'" by (simp add: sched_inv_def)
  show "same_sets s s'" using quiet_sets(3,4,5) [OF g(1) m(1)] k g(3) x(1) by (auto simp: same_sets_def)
  show "target s' = target s" by (rule one_thread(2) [OF g(1) m(1) k(1,3,4)])
qed

text \<open>A sleeping thread leaves the sleep queue and is blocked.\<close>

lemma unsleep_ok:
  assumes inv: "sched_inv F U s" and g: "gidMap s g = Some th" "g \<in> set (sleepQueue s)"
    and k: "th_mask th' = th_mask th" "th_cid th' = th_cid th" "handoffThread th' = handoffThread th" "wakeupPhase th' = wakeupPhase th"
      "fakeLeave th' = fakeLeave th" "markedForSleep th' = markedForSleep th" "th_state th' = TH_BLOCKED"
    and s': "s' = s\<lparr>sleepQueue := remove1 g (sleepQueue s), gidMap := (gidMap s)(g \<mapsto> th')\<rparr>"
  shows "sched_inv F U s'" "same_sets s s'" "wake_key s' = wake_key s" "target s' = target s"
proof -
  let ?s1 = "s\<lparr>sleepQueue := remove1 g (sleepQueue s)\<rparr>"
  note i = sched_invD [OF inv]
  have sl: "th_state th = TH_SLEEPING" using owner_state(3) [OF i(2) g(1,2)] .
  have inv1: "sched_inv F (insert g U) ?s1" by (rule sleep_remove [OF inv g(2)])
  have g1: "gidMap ?s1 g = Some th" using g(1) by simp
  have no: "no_owner g ?s1"
    using owner_state(1,2) [OF i(2) g(1)] sl queues_okD(3) [OF i(2)] by (auto simp: no_owner_def set_remove1_eq)
  have nt: "\<not> target ?s1 g" using hand_facts(2) [OF sched_invD(3) [OF inv1] g1] sl by simp
  note h = held_state_ok [OF inv1 g1 no, of s' th', unfolded sl, simplified]
  have inv2: "sched_inv F (insert g U) s'" "same_sets ?s1 s'" "target s' = target ?s1"
    by (rule h; use k nt in \<open>simp add: s' same_lists_def\<close>)+
  show "sched_inv F U s'" by (rule drop_user [OF inv2(1), of th']) (use k(7) in \<open>simp_all add: s'\<close>)
  show "same_sets s s'" using inv2(2) sets_map [of ?s1 s] by (simp add: same_sets_def)
  show "target s' = target s" using inv2(3) reads_map(2) [of ?s1 s] by simp
  show "wake_key s' = wake_key s" by (rule one_thread(4) [OF g(1), of _ th']) (use k in \<open>simp_all add: s'\<close>)
qed

abbreviation at_phase :: "nat \<Rightarrow> sched \<Rightarrow> sched" where
  "at_phase p s \<equiv> s\<lparr>curPhase := p, numPhases := p\<rparr>"

lemma wake_sleepers_ok:
  assumes "sched_inv {} {} s" "sleepQueue s = gs" "curPhase s = p"
  shows "\<exists>s'. wake_sleepers gs (at_phase (Suc p) s) = Some (at_phase (Suc p) s') \<and> sched_inv {} {} s' \<and> same_sets s s' \<and> curPhase s' = p
    \<and> (\<forall>g \<in> set (sleepQueue s'). Suc p < wake_key s' g) \<and> runQueue s' = runQueue s \<and> sc_rnd s' = sc_rnd s \<and> schedQuantum s' = schedQuantum s"
  using assms
proof (induction gs arbitrary: s)
  case Nil
  have "misc_ok s" using Nil(1) by (simp add: sched_inv_def)
  then show ?case using Nil by (intro exI [of _ s]) (auto simp: same_sets_def)
next
  case (Cons g gs)
  note i = sched_invD [OF Cons.prems(1)] note sl = sleep_okD [OF i(5)]
  have gq: "g \<in> set (sleepQueue s)" using Cons.prems(2) by simp
  have "in_state s TH_SLEEPING g" using queues_okD(7) [OF i(2) gq] .
  then obtain th where th: "gidMap s g = Some th" "th_state th = TH_SLEEPING" by (auto simp: in_state_def)
  have key: "wake_key s g = wakeupPhase th" "p < wakeupPhase th" "th_futexWord th = 1"
    using th sl(2) [OF gq] sl(3) [OF th(1)] Cons.prems(3) by (auto simp: wake_key_def)
  show ?case
  proof (cases "wakeupPhase th \<le> Suc p")
    case True
    let ?th' = "th\<lparr>th_state := TH_BLOCKED, needsJoin := False, th_futexWord := 0\<rparr>"
    define s1 where "s1 = s\<lparr>sleepQueue := remove1 g (sleepQueue s), gidMap := (gidMap s)(g \<mapsto> ?th')\<rparr>"
    have u: "sched_inv {} {} s1" "same_sets s s1"
      by (rule unsleep_ok [OF Cons.prems(1) th(1) gq _ _ _ _ _ _ _ s1_def]; simp)+
    have sq: "sleepQueue s1 = gs" using Cons.prems(2) by (simp add: s1_def)
    have "(at_phase (Suc p) s)\<lparr>gidMap := (gidMap s)(g \<mapsto> ?th'), sleepQueue := gs\<rparr> = at_phase (Suc p) s1"
      using Cons.prems(2) by (cases s) (simp add: s1_def)
    moreover have "wake_sleepers (g # gs) (at_phase (Suc p) s) = wake_sleepers gs ((at_phase (Suc p) s)\<lparr>gidMap := (gidMap s)(g \<mapsto> ?th'), sleepQueue := gs\<rparr>)"
      using th key True by (simp add: wakeup_def upd_th_def)
    ultimately have "wake_sleepers (g # gs) (at_phase (Suc p) s) = wake_sleepers gs (at_phase (Suc p) s1)" by (simp only:)
    moreover obtain s' where "wake_sleepers gs (at_phase (Suc p) s1) = Some (at_phase (Suc p) s')" "sched_inv {} {} s'" "same_sets s1 s'"
        "curPhase s' = p" "\<forall>g \<in> set (sleepQueue s'). Suc p < wake_key s' g" "runQueue s' = runQueue s1" "sc_rnd s' = sc_rnd s1" "schedQuantum s' = schedQuantum s1"
      using Cons.IH [OF u(1) sq] Cons.prems(3) by (auto simp: s1_def)
    ultimately show ?thesis using u(2) by (intro exI [of _ s']) (auto simp: same_sets_def s1_def)
  next
    case False
    have "wake_key s g \<le> wake_key s y" if "y \<in> set (sleepQueue s)" for y using sl(1) that Cons.prems(2) by auto
    then have "\<forall>y \<in> set (sleepQueue s). Suc p < wake_key s y" using False key(1) by fastforce
    then show ?thesis using False th(1) Cons.prems by (intro exI [of _ s]) (auto simp: same_sets_def)
  qed
qed

lemma nobody_awake: "awake_at s = {} \<Longrightarrow> gidMap s g = Some th \<Longrightarrow> \<not> markedForSleep th \<and> fakeLeave th = None"
  unfolding awake_at_def by blast

lemma at_phase_ok:
  assumes "sched_inv {} {} s" "curPhase s = p" "\<forall>g \<in> set (sleepQueue s). Suc p < wake_key s g" "awake_at s = {}"
  shows "sched_inv {} {} (at_phase (Suc p) s)" "same_sets s (at_phase (Suc p) s)"
proof -
  note i = sched_invD [OF assms(1)] let ?s = "at_phase (Suc p) s"
  note r = reads_map [of ?s s, simplified]
  have "sleep_ok {} ?s"
    by (rule sleep_okI) (use sleep_okD [OF i(5)] assms(3) nobody_awake [OF assms(4)] in \<open>auto simp: r\<close>)
  moreover have "ctx_ok {} ?s" using i(1) by (simp add: ctx_ok_def thread_ok_def)
  ultimately show "sched_inv {} {} ?s" using i(2,3,4,6,7) assms(2)
    by (simp add: sched_inv_def queues_ok_def hand_ok_def work_ok_def fake_ok_def misc_ok_def r)
  show "same_sets s ?s" using sets_map [of ?s s] by (simp add: same_sets_def)
qed

text \<open>The quantum is over: a running thread is told to hand its context to a queued one.\<close>

lemma handoff_ok:
  assumes inv: "sched_inv {} {} s" and q: "g \<in> set (runQueue s)" "allows s g (th_cid tv)"
    and v: "gidMap s v = Some tv" "th_state tv = TH_RUNNING" "handoffThread tv = None" "\<not> markedForSleep tv" "fakeLeave tv = None"
    and s': "s' = s\<lparr>gidMap := (gidMap s)(v \<mapsto> tv\<lparr>handoffThread := Some g\<rparr>), runQueue := remove1 g (runQueue s)\<rparr>"
  shows "sched_inv {} {} s'" "run_at s' = run_at s" "awake_at s' = awake_at s" "hand_at s' = insert (th_cid tv) (hand_at s)"
proof -
  note i = sched_invD [OF inv] note d = queues_okD [OF i(2)]
  have m: "gidMap s' = (gidMap s)(v \<mapsto> tv\<lparr>handoffThread := Some g\<rparr>)" by (simp add: s')
  have gst: "in_state s TH_QUEUED g" "\<not> target s g" using d(4,5) [OF q(1)] by auto
  have st: "in_state s' = in_state s" "allows s' = allows s" "cid_of s' = cid_of s" "wake_key s' = wake_key s"
    using v(1) by (auto simp: in_state_def allows_def cid_of_def wake_key_def m fun_eq_iff)
  have tg: "target s' x \<longleftrightarrow> x = g \<or> target s x" for x
    unfolding target_def ex_thread [OF v(1) m] using v(3) by auto
  have sub: "set (runQueue s') = set (runQueue s) - {g}" using d(1) by (simp add: s' set_remove1_eq)
  have l: "outQueue s' = outQueue s" "sleepQueue s' = sleepQueue s" "curPhase s' = curPhase s" "fakeLeaves s' = fakeLeaves s" by (simp_all add: s')
  have "ctx_ok {} s'" by (rule ctx_same [OF i(1) v(1) m]) (simp_all add: s')
  moreover have "queues_ok {} s'"
  proof (rule queues_okI, unfold st tg sub l)
    show "distinct (runQueue s')" using d(1) by (simp add: s')
    fix y
    show "y \<in> set (runQueue s) - {g} \<Longrightarrow> in_state s TH_QUEUED y" "y \<in> set (runQueue s) - {g} \<Longrightarrow> \<not> (y = g \<or> target s y)"
      using d(4,5) [of y] by auto
    show "in_state s TH_QUEUED y \<Longrightarrow> y \<in> set (runQueue s) - {g} \<or> y = g \<or> target s y" using d(10) [of y] by blast
  qed (rule d; assumption)+
  moreover have "hand_ok s'"
  proof -
    have old: "y \<noteq> v \<Longrightarrow> gidMap s' y = Some t \<Longrightarrow> gidMap s y = Some t" and new: "gidMap s' v = Some t \<Longrightarrow> t = tv\<lparr>handoffThread := Some g\<rparr>" for y t
      by (auto simp: m)
    have "th_state t = TH_RUNNING \<and> in_state s' TH_QUEUED x \<and> allows s' x (th_cid t)" if "gidMap s' y = Some t" "handoffThread t = Some x" for y t x
    proof (cases "y = v")
      case True
      then show ?thesis using new that v(2) gst(1) q(2) by (auto simp: st)
    next
      case False
      then show ?thesis using old [OF False that(1)] that(2) i(3) unfolding hand_ok_def st by blast
    qed
    moreover have "y = y'" if t: "gidMap s' y = Some t" "gidMap s' y' = Some t'" "handoffThread t = Some x" "handoffThread t' = Some x" for y t y' t' x
    proof -
      have ng: "x \<noteq> g" if "gidMap s z = Some u" "handoffThread u = Some x" for z u using gst(2) that by (auto simp: target_def)
      show ?thesis
      proof (cases "y = v"; cases "y' = v")
        assume "y \<noteq> v" "y' \<noteq> v"
        then show ?thesis using t old i(3) unfolding hand_ok_def by blast
      next
        assume "y = v" "y' \<noteq> v"
        then show ?thesis using t new ng [of y' t'] old [of y' t'] by auto
      next
        assume "y \<noteq> v" "y' = v"
        then show ?thesis using t new ng [of y t] old [of y t] by auto
      qed simp
    qed
    ultimately show ?thesis unfolding hand_ok_def by blast
  qed
  moreover have "work_ok s'" using i(4) unfolding work_ok_def st sub by (simp add: s')
  moreover have "sleep_ok {} s'"
    by (rule sleep_okI) (use sleep_okD [OF i(5)] v in \<open>auto simp: st m l split: if_splits\<close>)
  moreover have "fake_ok s'"
    by (rule fake_okI) (use fake_okD [OF i(6)] v in \<open>auto simp: m l split: if_splits\<close>)
  moreover have "misc_ok s'" using i(7) by (simp add: misc_ok_def s')
  ultimately show "sched_inv {} {} s'" by (simp add: sched_inv_def)
  show "run_at s' = run_at s" "awake_at s' = awake_at s" using quiet_sets(4,6) [OF v(1) m] by simp_all
  show "hand_at s' = insert (th_cid tv) (hand_at s)"
    unfolding hand_at_def ex_thread [OF v(1) m] using v(3) by auto
qed

lemma tick_victim:
  assumes inv: "sched_inv {} {} s" and g: "g \<in> set (runQueue s)" "allows s g c" "c < length (contexts s)" "c \<notin> hand_at s" "awake_at s = {}"
  shows "\<exists>v tv. curThread (contexts s ! c) = Some v \<and> gidMap s v = Some tv \<and> th_cid tv = c \<and> th_state tv = TH_RUNNING
    \<and> handoffThread tv = None \<and> \<not> markedForSleep tv \<and> fakeLeave tv = None"
proof -
  note i = sched_invD [OF inv]
  have nf: "\<forall>x \<in> set (freeList s). \<not> allows s g x" "\<forall>t \<in> set (outQueue s). \<not> allows s g (cid_of s t)" using i(4) g(1) unfolding work_ok_def by blast+
  have "curThread (contexts s ! c) \<noteq> None" using ctx_free_iff [OF i(1), of c] nf(1) g(2,3) by auto
  then obtain v where v: "curThread (contexts s ! c) = Some v" by auto
  from ctx_okD(2) [OF i(1) g(3) v] obtain tv where tv: "gidMap s v = Some tv" "th_cid tv = c" "th_state tv = TH_RUNNING \<or> th_state tv = TH_OUT" by blast
  have "th_state tv \<noteq> TH_OUT"
  proof
    assume "th_state tv = TH_OUT"
    then have "v \<in> set (outQueue s)" using queues_okD(8) [OF i(2), of v] tv(1) by (simp add: in_state_def)
    then show False using nf(2) g(2) tv(1,2) by (auto simp: cid_of_def)
  qed
  then show ?thesis using v tv nobody_awake [OF g(5) tv(1)] g(4) unfolding hand_at_def by blast
qed

lemma tick_loop_ok:
  assumes "sched_inv {} {} s" "distinct gs" "set gs \<subseteq> set (runQueue s)" "distinct av" "set av \<subseteq> {..<length (contexts s)}"
    "set av \<inter> hand_at s = {}" "awake_at s = {}"
  shows "\<exists>s'. tick_loop gs av s = Some s' \<and> sched_inv {} {} s' \<and> run_at s' = run_at s \<and> awake_at s' = {}"
  using assms
proof (induction gs arbitrary: av s)
  case Nil
  then show ?case by simp
next
  case (Cons g gs)
  show ?case
  proof (cases "av = [] \<or> find (\<lambda>c. allows s g c) av = None")
    case True
    then show ?thesis using Cons.prems Cons.IH [of s av] by auto
  next
    case False
    then obtain c where f: "find (\<lambda>c. allows s g c) av = Some c" by auto
    have c: "c \<in> set av" "allows s g c" using find_in [OF f] by auto
    obtain v tv where v: "curThread (contexts s ! c) = Some v" "gidMap s v = Some tv" "th_cid tv = c" "th_state tv = TH_RUNNING"
        "handoffThread tv = None" "\<not> markedForSleep tv" "fakeLeave tv = None"
      using tick_victim [OF Cons.prems(1) _ c(2)] Cons.prems(3,5,6,7) c(1) by fastforce
    define s1 where "s1 = s\<lparr>gidMap := (gidMap s)(v \<mapsto> tv\<lparr>handoffThread := Some g\<rparr>), runQueue := remove1 g (runQueue s)\<rparr>"
    note h = handoff_ok [OF Cons.prems(1) _ c(2) [folded v(3)] v(2,4-7) s1_def]
    have g: "g \<in> set (runQueue s)" using Cons.prems(3) by simp
    have step: "tick_loop (g # gs) av s = tick_loop gs (remove1 c av) s1"
      using False f v(1,2) by (simp add: s1_def upd_th_def)
    have rq: "runQueue s1 = remove1 g (runQueue s)" "contexts s1 = contexts s" by (simp_all add: s1_def)
    have "set gs \<subseteq> set (runQueue s1)" unfolding rq set_remove1_eq [OF queues_okD(1) [OF sched_invD(2) [OF Cons.prems(1)]]] using Cons.prems(2,3) by auto
    moreover have "set (remove1 c av) \<inter> hand_at s1 = {}" unfolding h(4) [OF g] using Cons.prems(4,6) v(3) by auto
    moreover have "set (remove1 c av) \<subseteq> {..<length (contexts s1)}" using Cons.prems(5) unfolding rq using set_remove1_subset [of c av] by blast
    ultimately show ?thesis
      using Cons.IH [of s1 "remove1 c av"] h(1-3) [OF g] Cons.prems(2,4,7) unfolding step by simp
  qed
qed

lemma avail_shuffle_set:
  assumes "avail_shuffle k xs g = Some (ys, g')" "k < length xs" "mt_wf g" "distinct xs" "length xs \<le> 2048"
  shows "set ys = set xs \<and> distinct ys \<and> mt_wf g'"
  using assms
proof (induction k arbitrary: xs g)
  case 0
  then show ?case by simp
next
  case (Suc k)
  from Suc.prems(1) obtain j h where r: "randInt_n (of_nat (Suc k)) g = Some (j, h)"
      "avail_shuffle k (xs[Suc k := xs ! unat j, unat j := xs ! Suc k]) h = Some (ys, g')"
    by (auto simp: bind_Some_conv)
  let ?xs = "xs[Suc k := xs ! unat j, unat j := xs ! Suc k]"
  have jl: "j \<le> of_nat (Suc k)" "mt_wf h" using randInt_loop_result [OF r(1) [unfolded randInt_n_def] Suc.prems(3)] by auto
  have "unat (of_nat (Suc k) :: 64 word) = Suc k" 
    using Suc.prems(2,5) by (simp only: unsigned_of_nat) (simp add: take_bit_nat_eq_self)
  then have jk: "unat j < length xs" using jl(1) Suc.prems(2) by (metis le_less_trans word_le_nat_alt)
  have p: "set ?xs = set xs" "distinct ?xs" "length ?xs = length xs"
    using set_swap [OF Suc.prems(2) jk] distinct_swap [OF Suc.prems(2) jk] Suc.prems(4) by simp_all
  show ?case using Suc.IH [OF r(2)] Suc.prems(2,5) jl(2) p by simp
qed

lemma printState_holds:
  assumes "ctx_ok F s"
  shows "printState_ok s"
proof -
  have "case curThread x of None \<Rightarrow> False | Some g \<Rightarrow> (case gidMap s g of None \<Rightarrow> False | Some th \<Rightarrow> th_state th = TH_RUNNING \<or> th_state th = TH_OUT)"
    if "x \<in> set (contexts s)" "ctx_state x = USED" for x
  proof -
    from that(1) obtain c where c: "c < length (contexts s)" "contexts s ! c = x" by (auto simp: in_set_conv_nth)
    moreover have "curThread x \<noteq> None" using ctx_okD(3) [OF assms c(1)] that(2) c(2) by auto
    ultimately obtain g where "curThread x = Some g" by auto
    then show ?thesis using ctx_okD(2) [OF assms c(1)] c(2) by force
  qed
  then show ?thesis by (simp add: printState_ok_def)
qed

lemma schedTick_ok:
  assumes inv: "sched_inv {} {} s" and aw: "awake_at s = {}" "hand_at s = {}" and t: "schedTick s = Some s'"
  shows "sched_inv {} {} s' \<and> run_at s' = run_at s \<and> awake_at s' = {}"
proof -
  let ?n = "length (contexts s)"
  note m = sched_invD(7) [OF inv, unfolded misc_ok_def]
  from t obtain av g where a: "avail_shuffle (?n - 1) [0..<?n] (sc_rnd s) = Some (av, g)" "tick_loop (runQueue s) av (s\<lparr>sc_rnd := g\<rparr>) = Some s'"
    by (auto simp: schedTick_def Let_def bind_Some_conv abort_simps split: if_splits)
  have "?n - 1 < length [0..<?n]" "length [0..<?n] \<le> 2048" using m by (simp_all add: MAX_THREADS_def)
  from avail_shuffle_set [OF a(1) this(1) _ _ this(2)] m have av: "set av = {..<?n}" "distinct av" "mt_wf g"
    by (simp_all only: set_upt distinct_upt atLeast0LessThan simp_thms)
  let ?s = "s\<lparr>sc_rnd := g\<rparr>"
  have "sched_inv {} {} ?s" using inv av(3)
    by (simp add: sched_inv_def ctx_ok_def thread_ok_def queues_ok_def hand_ok_def work_ok_def sleep_ok_def fake_ok_def misc_ok_def reads_map [of ?s s, simplified])
  then show ?thesis
    using tick_loop_ok [of ?s "runQueue s" av] av aw a(2) queues_okD(1) [OF sched_invD(2) [OF inv]] sets_map [of ?s s] by auto
qed

lemma hand_running:
  assumes "sched_inv F U s"
  shows "hand_at s \<subseteq> run_at s"
  using sched_invD(3) [OF assms] unfolding hand_ok_def hand_at_def run_at_def by blast

text \<open>The callback between two phases, when no thread runs.\<close>

lemma sched_callback_ok:
  assumes inv: "sched_inv {} {} s" and aw: "awake_at s = {}" "hand_at s = {}" and t: "sched_callback s = Some s'"
  shows "sched_inv {} {} s' \<and> run_at s' = run_at s \<and> awake_at s' = {} \<and> hand_at s' \<subseteq> run_at s'"
proof -
  let ?p = "curPhase s"
  have np: "numPhases s = ?p" using sched_invD(7) [OF inv] by (simp add: misc_ok_def)
  obtain s1 where s1: "wake_sleepers (sleepQueue s) (at_phase (Suc ?p) s) = Some (at_phase (Suc ?p) s1)" "sched_inv {} {} s1" "same_sets s s1"
      "curPhase s1 = ?p" "\<forall>g \<in> set (sleepQueue s1). Suc ?p < wake_key s1 g"
    using wake_sleepers_ok [OF inv refl refl] by blast
  have aw1: "awake_at s1 = {}" "hand_at s1 = {}" "run_at s1 = run_at s" using s1(3) aw by (simp_all add: same_sets_def)
  note p = at_phase_ok [OF s1(2,4,5) aw1(1)]
  let ?s2 = "at_phase (Suc ?p) s1"
  have aw2: "awake_at ?s2 = {}" "hand_at ?s2 = {}" "run_at ?s2 = run_at s" using p(2) aw1 by (simp_all add: same_sets_def)
  have eq: "s\<lparr>numPhases := Suc (numPhases s), curPhase := Suc ?p\<rparr> = at_phase (Suc ?p) s" using np by (cases s) simp
  have "s' = ?s2 \<or> schedTick ?s2 = Some s'"
    using t unfolding sched_callback_def Let_def eq by (auto simp: bind_Some_conv abort_simps s1(1) split: if_splits)
  then have "sched_inv {} {} s' \<and> run_at s' = run_at s \<and> awake_at s' = {}"
    using schedTick_ok [OF p(1) aw2(1,2)] p(1) aw2 by auto
  then show ?thesis using hand_running by blast
qed

end
