(* ===== verification/SchedSteps.thy ===== *)
theory SchedSteps
  imports Scheduler
begin

text \<open>
  The scheduler of \<open>Scheduler\<close> and the barrier of \<open>Barrier\<close> together. The barrier has online exactly the contexts whose thread
  runs; a thread that is marked for sleep or in a fake leave runs in the current phase, and a handoff ordered at the end of a
  phase is made before the next phase ends. The operations that the simulator calls are the steps of a transition relation.
\<close>

subsection \<open>What the barrier does to its threads\<close>

definition pending :: "Barrier \<Rightarrow> nat \<Rightarrow> bool" where
  "pending b t \<longleftrightarrow> (\<exists>i. curThreadIdx b \<le> i \<and> i < runListSize b \<and> runList b ! i = t)"

definition online :: "Barrier \<Rightarrow> nat \<Rightarrow> bool" where
  "online b t \<longleftrightarrow> state_of b t = RUNNING \<or> state_of b t = WAITING"

text \<open>The thread runs in this phase or has its turn still to come.\<close>

definition ready :: "Barrier \<Rightarrow> nat \<Rightarrow> bool" where
  "ready b t \<longleftrightarrow> state_of b t = RUNNING \<or> state_of b t = WAITING \<and> pending b t"

definition wakes_only :: "Barrier \<Rightarrow> Barrier \<Rightarrow> bool" where
  "wakes_only b b' \<longleftrightarrow> (\<forall>t. online b' t = online b t) \<and> (\<forall>t. state_of b t = RUNNING \<longrightarrow> state_of b' t = RUNNING) \<and> (\<forall>t. ready b t \<longrightarrow> ready b' t)"

lemma wakes_only_refl: "wakes_only b b"
  by (simp add: wakes_only_def)

lemma wakes_only_trans: "wakes_only a b \<Longrightarrow> wakes_only b c \<Longrightarrow> wakes_only a c"
  by (simp add: wakes_only_def)

lemma wake_at_wakes:
  assumes "bar_inv b" "runningThreads b < parallelThreads b" "curThreadIdx b < runListSize b" "wake_at (curThreadIdx b) b = Some b'"
  shows "bar_inv b'" "wakes_only b b'"
proof -
  let ?c = "curThreadIdx b" let ?t = "runList b ! ?c"
  have w: "bar_inv b'" "curThreadIdx b' = Suc ?c" "runListSize b' = runListSize b" "runList b' = runList b"
      "\<And>t. state_of b' t = state_of b t \<or> state_of b t = WAITING \<and> state_of b' t = RUNNING \<and> t = ?t"
    using wake_at_inv [OF assms(1-3)] assms(4) by auto
  show "bar_inv b'" by (rule w)
  have "?t < length (threadList b)" using assms(1,3) by (simp add: bar_inv_def bar_shape_def)
  then have woken: "state_of b' ?t = RUNNING" if "state_of b ?t = WAITING"
    using that assms(4) by (auto simp: wake_at_def Let_def abort_simps bind_Some_conv state_of_set_thread split: if_splits)
  have "ready b' t" if "ready b t" for t
  proof (cases "state_of b t = RUNNING")
    case True
    then show ?thesis using w(5) [of t] by (auto simp: ready_def)
  next
    case False
    with that obtain i where i: "state_of b t = WAITING" "?c \<le> i" "i < runListSize b" "runList b ! i = t" by (auto simp: ready_def pending_def)
    show ?thesis
    proof (cases "i = ?c")
      case True
      then show ?thesis using woken i by (simp add: ready_def)
    next
      case False
      then have "pending b' t" unfolding pending_def w(2-4) using i by (intro exI [of _ i]) auto
      then show ?thesis using w(5) [of t] i(1) by (auto simp: ready_def)
    qed
  qed
  then show "wakes_only b b'" using w(5) unfolding wakes_only_def online_def by (metis BState.distinct(7))
qed

lemma checkRunList_wakes:
  assumes "bar_inv b" "checkRunList b = Some b'"
  shows "bar_inv b'" "wakes_only b b'"
proof -
  have "bar_inv b' \<and> wakes_only b b'" if "checkRunList_loop k b = Some b'" "bar_inv b" for k b
    using that
  proof (induction k arbitrary: b)
    case 0
    then show ?case by (simp add: wakes_only_refl)
  next
    case (Suc k)
    show ?case
    proof (cases "runningThreads b < parallelThreads b \<and> curThreadIdx b < runListSize b")
      case True
      then obtain b1 where b1: "wake_at (curThreadIdx b) b = Some b1" "checkRunList_loop k b1 = Some b'"
        using Suc.prems(1) by (auto simp: bind_Some_conv)
      note w = wake_at_wakes [OF Suc.prems(2) _ _ b1(1)]
      show ?thesis using Suc.IH [OF b1(2)] w True wakes_only_trans by blast
    next
      case False
      then have "b' = b" using Suc.prems(1) by (simp split: if_splits)
      then show ?thesis using Suc.prems(2) by (simp add: wakes_only_refl)
    qed
  qed
  then show "bar_inv b'" "wakes_only b b'" using assms by (auto simp: checkRunList_def)
qed

text \<open>When a phase ends no thread runs or has its turn to come; the new phase has every waiting thread ahead of it.\<close>

lemma ended_states:
  assumes "bar_inv b" "ended b" "t < MAX_THREADS"
  shows "\<not> ready b t"
  using rewind_inv(2) [OF assms(1,2)] assms(2,3) by (auto simp: ready_def pending_def ended_def cnt_zero)

lemma reorder_states:
  assumes "bar_inv b" "cnt RUNNING b = 0" "reorder b = Some b'"
  shows "state_of b' = state_of b"
proof (cases "parallelThreads b < runListSize b")
  case True
  then have "runListSize b - 1 < runListSize b" "shuffle (runListSize b - 1) b = Some b'" using assms(3) by (auto simp: reorder_def)
  then show ?thesis using shuffle_inv [of b "runListSize b - 1" b'] assms by auto
qed (use assms(3) in \<open>simp add: reorder_def\<close>)

lemma cleanupPass_states:
  assumes "bar_inv b" "curThreadIdx b = 0" "cnt RUNNING b = 0" "cleanupPass b = Some b'"
  shows "bar_inv b'" "cnt RUNNING b' = 0" "state_of b' t = (if state_of b t = LEFT \<and> t < MAX_THREADS then OFFLINE else state_of b t)"
proof -
  obtain m bc where c: "cleanup 0 (runListSize b) b = (m, bc)" by fastforce
  then have b': "b' = bc\<lparr>leftThreads := 0, runListSize := m\<rparr>"
    using assms(4) by (auto simp: cleanupPass_def bind_Some_conv abort_simps split: if_splits)
  note p = cleanup_pass [OF assms(1-3) c b']
  show "bar_inv b'" "cnt RUNNING b' = 0" by (rule p)+
  have "clean_ok 0 (runListSize b) b" using assms(1) by (simp add: clean_ok_def bar_inv_def)
  then show "state_of b' t = (if state_of b t = LEFT \<and> t < MAX_THREADS then OFFLINE else state_of b t)"
    using cleanup_result [of 0 "runListSize b" b] c by (auto simp: b')
qed

lemma checkEndPhase_states:
  assumes "bar_inv b" "ended b" "checkEndPhase callback (b, w) = Some (b', w')" "t < MAX_THREADS"
  shows "online b' t = online b t" "online b' t \<Longrightarrow> ready b' t"
proof -
  let ?b1 = "b\<lparr>curThreadIdx := 0, phaseCount := Suc (phaseCount b)\<rparr>"
  note rw = rewind_inv [OF assms(1,2)] note e = checkEndPhase_inv [OF assms(1-3)]
  obtain b2 where b2: "(if phaseCount b mod 32 = 0 then cleanupPass else Some) ?b1 = Some b2" "reorder b2 = Some b'"
    using assms(2,3) by (auto simp: checkEndPhase_def ended_def bind_Some_conv simp del: if_split)
  have z1: "cnt RUNNING ?b1 = 0" using cnt_cong [of ?b1 b] rw(2) by simp
  have s2: "bar_inv b2 \<and> cnt RUNNING b2 = 0 \<and> (online b2 t = online b t)"
  proof (cases "phaseCount b mod 32 = 0")
    case True
    then have "cleanupPass ?b1 = Some b2" using b2(1) by simp
    note p = cleanupPass_states [OF rw(1) _ z1 this, simplified]
    show ?thesis using p(1,2) p(3) [of t] by (simp add: online_def)
  next
    case False
    then have "b2 = ?b1" using b2(1) by simp
    then show ?thesis using rw(1) z1 by (simp add: online_def)
  qed
  then show o: "online b' t = online b t" using reorder_states [OF _ _ b2(2)] by (simp add: online_def)
  show "ready b' t" if "online b' t"
  proof -
    have "state_of b' t \<noteq> OFFLINE" using that by (auto simp: online_def)
    then obtain i where "i < runListSize b'" "runList b' ! i = t" using e(1) assms(4) by (auto simp: bar_inv_def bar_shape_def)
    then have "pending b' t" unfolding pending_def e(3) by auto
    then show ?thesis using that by (auto simp: online_def ready_def)
  qed
qed

lemma tryWakeNext_states:
  assumes "bar_inv b" "tryWakeNext callback (b, w) = Some (b', w')"
  shows "w' = w \<and> wakes_only b b' \<or> callback w = Some w' \<and> (\<forall>t < MAX_THREADS. \<not> ready b t \<and> online b' t = online b t \<and> (online b' t \<longrightarrow> ready b' t))"
proof -
  obtain b1 b2 where s: "checkRunList b = Some b1" "checkEndPhase callback (b1, w) = Some (b2, w')" "checkRunList b2 = Some b'"
    using assms(2) by (auto simp: tryWakeNext_def bind_Some_conv)
  note w1 = checkRunList_wakes [OF assms(1) s(1)]
  show ?thesis
  proof (cases "ended b1")
    case True
    note e = checkEndPhase_inv [OF w1(1) True s(2)] note st = checkEndPhase_states [OF w1(1) True s(2)]
    note w2 = checkRunList_wakes(2) [OF e(1) s(3)]
    have "\<not> ready b t \<and> online b' t = online b t \<and> (online b' t \<longrightarrow> ready b' t)" if "t < MAX_THREADS" for t
      using ended_states [OF w1(1) True that] w1(2) st [OF that] w2 unfolding wakes_only_def by blast
    then show ?thesis using e(2) by blast
  next
    case False
    then have "b2 = b1" "w' = w" using checkEndPhase_idle [OF False, of callback w] s(2) by simp_all
    then show ?thesis using checkRunList_wakes(2) [of b2 b'] w1 s(3) wakes_only_trans by blast
  qed
qed

subsection \<open>The link between the two\<close>

text \<open>\<open>R\<close> are the contexts whose thread runs, \<open>A\<close> those whose thread must be awake, \<open>H\<close> those with a handoff to make.\<close>

definition bar_link :: "Barrier \<Rightarrow> nat set \<Rightarrow> nat set \<Rightarrow> nat set \<Rightarrow> bool" where
  "bar_link b R A H \<longleftrightarrow> bar_inv b \<and> R = {t. t < MAX_THREADS \<and> online b t} \<and> A \<subseteq> R \<and> H \<subseteq> R
     \<and> (\<forall>t \<in> A. state_of b t = RUNNING) \<and> (\<forall>t \<in> H. ready b t)"

lemma bar_linkD:
  assumes "bar_link b R A H"
  shows "bar_inv b" "t \<in> R \<longleftrightarrow> t < MAX_THREADS \<and> online b t" "A \<subseteq> R" "H \<subseteq> R" "t \<in> A \<Longrightarrow> state_of b t = RUNNING" "t \<in> H \<Longrightarrow> ready b t"
  using assms unfolding bar_link_def by blast+

lemma bar_link_wakes:
  assumes "bar_link b R A H" "bar_inv b'" "wakes_only b b'"
  shows "bar_link b' R A H"
  using assms unfolding bar_link_def wakes_only_def by auto

text \<open>The sets follow the step of a barrier operation: nothing happens, or the phase ends with nobody in \<open>A\<close> or \<open>H\<close>.\<close>

lemma bar_link_try:
  assumes "bar_link b R A H" "tryWakeNext callback (b, w) = Some (b', w')"
  shows "w' = w \<and> bar_link b' R A H \<or> callback w = Some w' \<and> A = {} \<and> H = {} \<and> (\<forall>H' \<subseteq> R. bar_link b' R {} H')"
proof -
  note d = bar_linkD [OF assms(1)] note i = tryWakeNext_inv(1) [OF d(1) assms(2)]
  consider "w' = w" "wakes_only b b'"
    | "callback w = Some w'" "\<forall>t < MAX_THREADS. \<not> ready b t \<and> online b' t = online b t \<and> (online b' t \<longrightarrow> ready b' t)"
    using tryWakeNext_states [OF d(1) assms(2)] by blast
  then show ?thesis
  proof cases
    case 1
    then show ?thesis using bar_link_wakes [OF assms(1) i] by blast
  next
    case 2
    have "t < MAX_THREADS \<and> ready b t" if "t \<in> A \<or> t \<in> H" for t using that d(2) [of t] d(3,4) d(5,6) [of t] by (auto simp: ready_def)
    then have "A = {}" "H = {}" using 2(2) by blast+
    moreover have "bar_link b' R {} H'" if "H' \<subseteq> R" for H' using that 2(2) i d(2) unfolding bar_link_def by auto
    ultimately show ?thesis using 2(1) by blast
  qed
qed

lemma bar_link_move:
  assumes l: "bar_link b R A H" and i: "bar_inv b'" and c: "c < MAX_THREADS" "c \<notin> A" "c \<notin> H"
    and st: "\<And>t. t \<noteq> c \<Longrightarrow> state_of b' t = state_of b t" and p: "pending b' = pending b"
  shows "bar_link b' (if online b' c then insert c R else R - {c}) A H"
proof -
  note d = bar_linkD [OF l]
  have o: "t \<noteq> c \<Longrightarrow> ready b' t = ready b t" "t \<noteq> c \<Longrightarrow> online b' t = online b t" for t using st by (simp_all add: ready_def online_def p)
  have n: "t \<noteq> c" if "t \<in> A \<or> t \<in> H" for t using that c by blast
  have "(if online b' c then insert c R else R - {c}) = {t. t < MAX_THREADS \<and> online b' t}"
    using d(2) o(2) c(1) by (intro set_eqI) (metis Diff_iff insert_iff mem_Collect_eq singletonD)
  moreover have "\<forall>t \<in> A. state_of b' t = RUNNING" "\<forall>t \<in> H. ready b' t" using d(5,6) n st o(1) by auto
  moreover have "A \<subseteq> (if online b' c then insert c R else R - {c})" "H \<subseteq> (if online b' c then insert c R else R - {c})"
    using d(3,4) c(2,3) by auto
  ultimately show ?thesis using i unfolding bar_link_def by blast
qed

lemma bar_link_leave:
  assumes l: "bar_link b R A H" and c: "c < MAX_THREADS" "state_of b c = RUNNING" "c \<notin> A" "c \<notin> H"
    and b': "b' = (set_thread c (\<lambda>th. th\<lparr>ts_state := LEFT\<rparr>) b)\<lparr>leftThreads := Suc (leftThreads b), runningThreads := runningThreads b - 1\<rparr>"
  shows "bar_link b' (R - {c}) A H"
proof -
  note i = leave_move [OF bar_linkD(1) [OF l] c(1,2), folded b']
  have "c < length (threadList b)" using bar_linkD(1) [OF l] c(1) by (simp add: bar_inv_def bar_shape_def)
  then have st: "state_of b' t = (if t = c then LEFT else state_of b t)" for t by (simp add: b' state_of_set_thread)
  have p: "pending b' = pending b" by (simp add: b' pending_def fun_eq_iff)
  show ?thesis using bar_link_move [OF l i c(1,3,4) _ p] by (simp add: st online_def)
qed

lemma bar_link_sync:
  assumes l: "bar_link b R A H" and c: "c < MAX_THREADS" "state_of b c = RUNNING" "c \<notin> A" "c \<notin> H"
    and b': "b' = (set_thread c (\<lambda>th. th\<lparr>futexWord := 1, ts_state := WAITING\<rparr>) b)\<lparr>runningThreads := runningThreads b - 1\<rparr>"
  shows "bar_link b' R A H"
proof -
  note i = sync_move [OF bar_linkD(1) [OF l] c(1,2), folded b']
  have "c < length (threadList b)" using bar_linkD(1) [OF l] c(1) by (simp add: bar_inv_def bar_shape_def)
  then have st: "state_of b' t = (if t = c then WAITING else state_of b t)" for t by (simp add: b' state_of_set_thread)
  have p: "pending b' = pending b" by (simp add: b' pending_def fun_eq_iff)
  have "c \<in> R" using bar_linkD(2) [OF l] c(1,2) by (simp add: online_def)
  then show ?thesis using bar_link_move [OF l i c(1,3,4) _ p] by (simp add: st online_def insert_absorb)
qed

lemma bar_enter_states:
  assumes "bar_inv b" "tid < MAX_THREADS" "\<not> online b tid"
  shows "\<exists>b'. bar_enter tid b = Some b' \<and> bar_inv b' \<and> state_of b' tid = WAITING \<and> pending b' tid
    \<and> (\<forall>t. t \<noteq> tid \<longrightarrow> state_of b' t = state_of b t) \<and> (\<forall>t. t \<noteq> tid \<longrightarrow> pending b t \<longrightarrow> pending b' t)"
proof -
  have off: "state_of b tid = LEFT \<or> state_of b tid = OFFLINE" using assms(3) unfolding online_def by (cases "state_of b tid") auto
  obtain b' where b': "bar_enter tid b = Some b'" "bar_inv b'" using bar_enter_inv [OF assms(1,2) off] by blast
  have len: "tid < length (threadList b)" "length (runList b) = MAX_THREADS" "runListSize b \<le> MAX_THREADS" "curThreadIdx b \<le> runListSize b"
    using assms(1,2) by (auto simp: bar_inv_def bar_shape_def)
  show ?thesis
  proof (cases "state_of b tid = OFFLINE")
    case True
    have e: "b' = set_thread tid (\<lambda>th. th\<lparr>ts_state := WAITING, futexWord := 1\<rparr>) ((set_slot (runListSize b) tid b)\<lparr>runListSize := Suc (runListSize b)\<rparr>)"
      using b'(1) True by (simp add: bar_enter_def)
    have room: "runListSize b < length (runList b)" using offline_room [OF _ assms(2) True] assms(1) len(2) by (simp add: bar_inv_def)
    have "state_of b' t = (if t = tid then WAITING else state_of b t)" for t using len(1) by (simp add: e state_of_set_thread)
    moreover have "pending b' tid" using len(4) room by (auto simp: pending_def e intro!: exI [of _ "runListSize b"])
    moreover have "pending b' t" if "pending b t" for t using that by (auto simp: pending_def e nth_list_update)
    ultimately show ?thesis using b' by simp
  next
    case False
    then have left: "state_of b tid = LEFT" using off by simp
    define l where "l = lastIdx (threadList b ! tid)"
    have l: "l < runListSize b" "runList b ! l = tid" using assms(1,2) left unfolding l_def by (auto simp: bar_inv_def)
    show ?thesis
    proof (cases "curThreadIdx b > l")
      case True
      define c where "c = curThreadIdx b - 1"
      have c: "c < runListSize b" "Suc c = curThreadIdx b" using True len(4) by (auto simp: c_def)
      have "runList b ! c < length (threadList b)" using assms(1) c(1) by (auto simp: bar_inv_def bar_shape_def)
      then have st: "state_of b' t = (if t = tid then WAITING else state_of b t)" and rl: "runList b' = (runList b)[l := runList b ! c, c := tid]"
          and cr: "curThreadIdx b' = c" "runListSize b' = runListSize b" for t
        using b'(1) False True left len(1) by (auto simp: bar_enter_def Let_def l_def c_def abort_simps state_of_def thread_nth split: if_splits)
      have "pending b' tid" using c len(2,3) by (auto simp: pending_def rl cr intro!: exI [of _ c])
      moreover have "pending b' t" if "pending b t" for t
      proof -
        from that obtain i where i: "curThreadIdx b \<le> i" "i < runListSize b" "runList b ! i = t" by (auto simp: pending_def)
        then have "i \<noteq> l" "i \<noteq> c" using True c(2) by auto
        then show ?thesis using i c by (auto simp: pending_def rl cr intro!: exI [of _ i])
      qed
      ultimately show ?thesis using b' st by simp
    next
      case nswap: False
      have e: "b' = (set_thread tid (\<lambda>th. th\<lparr>ts_state := WAITING, futexWord := 1\<rparr>) b)\<lparr>leftThreads := leftThreads b - 1\<rparr>"
        using b'(1) left nswap by (auto simp: bar_enter_def Let_def l_def set_thread_def)
      have "state_of b' t = (if t = tid then WAITING else state_of b t)" "pending b' t = pending b t" for t
        using len(1) by (simp_all add: e state_of_set_thread pending_def)
      moreover have "pending b tid" using l nswap by (auto simp: pending_def intro!: exI [of _ l])
      ultimately show ?thesis using b' by simp
    qed
  qed
qed

text \<open>Joining always returns and never ends a phase.\<close>

lemma bar_link_join:
  assumes l: "bar_link b R A H" and c: "c < MAX_THREADS" "c \<notin> R"
  shows "\<exists>b'. bar_join callback c (b, w) = Some (b', w) \<and> bar_link b' (insert c R) A H"
proof -
  note d = bar_linkD [OF l]
  have "\<not> online b c" using c d(2) by blast
  then obtain b1 where b1: "bar_enter c b = Some b1" "bar_inv b1" "state_of b1 c = WAITING" "pending b1 c"
      "\<And>t. t \<noteq> c \<Longrightarrow> state_of b1 t = state_of b t" "\<And>t. t \<noteq> c \<Longrightarrow> pending b t \<Longrightarrow> pending b1 t"
    using bar_enter_states [OF d(1) c(1)] by blast
  have on: "online b1 t = (t = c \<or> online b t)" for t using b1(3,5) by (cases "t = c") (auto simp: online_def)
  have n: "t \<noteq> c" if "t \<in> A \<or> t \<in> H" for t using that d(3,4) c(2) by blast
  then have "state_of b1 t = RUNNING" if "t \<in> A" for t using that d(5) b1(5) by simp
  moreover have "ready b1 t" if "t \<in> H" for t using d(6) [OF that] n [of t] that b1(5,6) [of t] by (auto simp: ready_def)
  moreover have "insert c R = {t. t < MAX_THREADS \<and> online b1 t}" using d(2) on c(1) by auto
  ultimately have l1: "bar_link b1 (insert c R) A H" using d(3,4) b1(2) unfolding bar_link_def by blast
  obtain b2 where b2: "checkRunList b1 = Some b2" "bar_inv b2" "0 < cnt RUNNING b2"
    using checkRunList_inv [OF b1(2)] b1(3,4) by (auto simp: pending_def)
  have ne: "\<not> ended b2" using b2(2,3) by (auto simp: ended_def bar_inv_def)
  obtain b3 where b3: "checkRunList b2 = Some b3" using checkRunList_inv [OF b2(2)] by blast
  note w2 = checkRunList_wakes [OF b1(2) b2(1)] note w3 = checkRunList_wakes [OF w2(1) b3]
  have "bar_link b3 (insert c R) A H" using bar_link_wakes [OF bar_link_wakes [OF l1 w2] w3] .
  then show ?thesis using b1(1) b2(1) b3 ne by (simp add: bar_join_def tryWakeNext_def checkEndPhase_idle)
qed

definition sys_inv :: "sim \<Rightarrow> bool" where
  "sys_inv bs \<longleftrightarrow> sched_inv {} {} (snd bs) \<and> bar_link (fst bs) (run_at (snd bs)) (awake_at (snd bs)) (hand_at (snd bs))"

lemma contexts_bound: "sched_inv F U s \<Longrightarrow> c < length (contexts s) \<Longrightarrow> c < MAX_THREADS"
  by (simp add: sched_inv_def misc_ok_def)

text \<open>A barrier operation with the scheduler's callback, once the sets agree.\<close>

lemma try_sys:
  assumes "sched_inv {} {} s" "bar_link b (run_at s) (awake_at s) (hand_at s)" "tryWakeNext sched_callback (b, s) = Some bs'"
  shows "sys_inv bs'"
proof -
  obtain b' s' where bs: "bs' = (b', s')" by fastforce
  consider "s' = s" "bar_link b' (run_at s) (awake_at s) (hand_at s)"
    | "sched_callback s = Some s'" "awake_at s = {}" "hand_at s = {}" "\<forall>H' \<subseteq> run_at s. bar_link b' (run_at s) {} H'"
    using bar_link_try [OF assms(2) assms(3) [unfolded bs]] by blast
  then show ?thesis
  proof cases
    case 1
    then show ?thesis using assms(1) by (simp add: sys_inv_def bs)
  next
    case 2
    note c = sched_callback_ok [OF assms(1) 2(2,3,1)]
    then have "bar_link b' (run_at s') {} (hand_at s')" using 2(4) by metis
    then show ?thesis using c by (simp add: sys_inv_def bs)
  qed
qed

lemma inv_more:
  assumes "sched_inv F U s" "U \<subseteq> V"
  shows "sched_inv F V s"
  using sched_invD [OF assms(1)] queues_mono [OF _ assms(2)] sleep_more [OF _ assms(2)] by (simp add: sched_inv_def)

lemma take_context_ok:
  assumes inv: "sched_inv {} U s" and l: "bar_link b (run_at s) (awake_at s) (hand_at s)" and U: "U \<subseteq> {g}"
    and g: "gidMap s g = Some th" "th_state th = TH_STARTED \<or> th_state th = TH_BLOCKED \<or> th_state th = TH_QUEUED" "no_owner g s" "\<not> target s g"
  shows "\<exists>bs'. take_context g (b, s) = Some bs' \<and> sys_inv bs' \<and> (in_state (snd bs') TH_RUNNING g \<or> g \<in> set (runQueue (snd bs')))"
proof -
  have nr: "th_state th \<noteq> TH_RUNNING" "th_state th \<noteq> TH_OUT" using g(2) by auto
  note q = quiet_state [OF inv g(1) nr(1)]
  from schedThread_ok [OF inv g(1) nr] show ?thesis
  proof (elim disjE exE conjE)
    fix c s1 assume st: "schedThread g s = Some (Some c, s1)" and i1: "sched_inv {c} U s1" and m: "th_mask th ! c" and g1: "gidMap s1 g = Some th"
      and rq: "runQueue s1 = runQueue s" "target s1 = target s" and ss: "same_sets s s1"
    have no: "g \<notin> set (runQueue s1)" "\<not> target s1 g" using rq g(3,4) by (auto simp: no_owner_def)
    obtain s2 where s2: "schedule g c s1 = Some s2" "sched_inv ({c} - {c}) (U - {g}) s2"
        "gidMap s2 = (gidMap s1)(g \<mapsto> th\<lparr>th_state := TH_RUNNING, th_cid := c\<rparr>)"
      using schedule_ok [OF i1 g1 g(2) no _ m] by auto
    have "U - {g} = {}" using U by blast
    then have i2: "sched_inv {} {} s2" using s2(2) by (simp only: Diff_cancel)
    have hi: "c \<notin> run_at s" "c < MAX_THREADS" using held_idle [OF i1] contexts_bound [OF i1] ss by (auto simp: same_sets_def)
    have "run_at s2 = insert c (run_at s1)" using quiet_sets(7) [OF g1 s2(3) nr(1)] by simp
    moreover have "awake_at s2 = awake_at s1" by (rule quiet_sets(1) [OF g1 s2(3) q(2,3)]) (simp_all add: q)
    moreover have "hand_at s2 = hand_at s1" by (rule quiet_sets(2) [OF g1 s2(3) q(1)]) (simp add: q)
    ultimately have sets: "run_at s2 = insert c (run_at s)" "awake_at s2 = awake_at s" "hand_at s2 = hand_at s" using ss by (simp_all add: same_sets_def)
    obtain b' where "bar_join sched_callback c (b, core (CoreJoin c) s2) = Some (b', core (CoreJoin c) s2)"
        "bar_link b' (insert c (run_at s)) (awake_at s) (hand_at s)"
      using bar_link_join [OF l hi(2,1), of sched_callback "core (CoreJoin c) s2"] by blast
    moreover have "in_state s2 TH_RUNNING g" by (simp add: in_state_def s2(3))
    ultimately show ?thesis using st s2(1) i2 sets sets_map [of "core (CoreJoin c) s2" s2] by (simp add: take_context_def sys_inv_def)
  next
    assume st: "schedThread g s = Some (None, s)" and nf: "\<forall>c \<in> set (freeList s). \<not> th_mask th ! c" "\<forall>t \<in> set (outQueue s). \<not> th_mask th ! cid_of s t"
    let ?th = "th\<lparr>th_state := TH_QUEUED, th_futexWord := 1\<rparr>"
    define s1 where "s1 = s\<lparr>gidMap := (gidMap s)(g \<mapsto> ?th)\<rparr>"
    have m: "gidMap s1 = (gidMap s)(g \<mapsto> ?th)" and sl: "same_lists s s1" "contexts s1 = contexts s" "scheduledThreads s1 = scheduledThreads s"
      by (simp_all add: s1_def same_lists_def)
    note h = held_state_ok [OF inv_more [OF inv U] g(1,3) nr m sl, simplified, OF g(4)]
    let ?s2 = "s1\<lparr>runQueue := runQueue s1 @ [g]\<rparr>"
    have "\<forall>t \<in> set (outQueue s1). \<not> th_mask ?th ! cid_of s1 t"
      using nf(2) g(3) by (simp add: s1_def cid_of_def no_owner_def)
    then have "sched_inv {} {} ?s2"
      using run_add [OF h(1), of ?th] m g(3,4) h(3) nf(1) by (simp add: no_owner_def s1_def)
    moreover have "take_context g (b, s) = Some (b, ?s2)"
      using st g(1,3) by (simp add: take_context_def waitForContext_def upd_th_def no_owner_def s1_def Let_def)
    ultimately show ?thesis using l h(2) sets_map [of ?s2 s1] by (simp add: sys_inv_def same_sets_def)
  qed
qed

subsection \<open>The operations keep the invariant\<close>

text \<open>A thread without a context that is in no queue.\<close>

lemma idle_thread:
  assumes "sched_inv F U s" "gidMap s g = Some th" "th_state th = TH_STARTED \<or> th_state th = TH_BLOCKED"
  shows "no_owner g s" "\<not> target s g"
proof -
  note i = sched_invD [OF assms(1)]
  show "no_owner g s" using owner_state [OF i(2) assms(2)] assms(3) by (auto simp: no_owner_def)
  show "\<not> target s g" using hand_facts(2) [OF i(3) assms(2)] assms(3) by auto
qed

text \<open>The end of a fake leave.\<close>

lemma finishFakeLeave_ok:
  assumes inv: "sched_inv {} {} s" and g: "gidMap s g = Some th" "fakeLeave th \<noteq> None"
  shows "\<exists>s'. finishFakeLeave g s = Some s' \<and> sched_inv {} {} s' \<and> gidMap s' = (gidMap s)(g \<mapsto> th\<lparr>fakeLeave := None\<rparr>)
    \<and> run_at s' = run_at s \<and> hand_at s' = hand_at s \<and> awake_at s' = awake_at s - {th_cid th}"
proof -
  note i = sched_invD [OF inv] note fk = fake_okD(3) [OF i(6) g]
  have inl: "g \<in> set (fakeLeaves s)" using fake_okD(2) [OF i(6)] g by blast
  let ?th = "th\<lparr>fakeLeave := None\<rparr>"
  define s' where "s' = upd_th g (\<lambda>t. t\<lparr>fakeLeave := None\<rparr>) (s\<lparr>fakeLeaves := remove1 g (fakeLeaves s)\<rparr>)"
  have m: "gidMap s' = (gidMap s)(g \<mapsto> ?th)" using g(1) by (simp add: s'_def)
  have f: "finishFakeLeave g s = Some s'" using g fk inl by (simp add: finishFakeLeave_def list_remove_def s'_def)
  note o = one_thread [OF g(1) m, simplified]
  have eq: "in_state s' = in_state s" "cid_of s' = cid_of s" using o(1,5) g(1) by (auto simp: fun_eq_iff in_state_def cid_of_def)
  have l: "runQueue s' = runQueue s" "outQueue s' = outQueue s" "sleepQueue s' = sleepQueue s" "freeList s' = freeList s" "curPhase s' = curPhase s"
    "contexts s' = contexts s" "scheduledThreads s' = scheduledThreads s" by (simp_all add: s'_def)
  have "ctx_ok {} s'" by (rule ctx_same [OF i(1) g(1) m]) (simp_all add: l)
  moreover have "queues_ok {} s'" using i(2) unfolding queues_ok_def eq o(2) l .
  moreover have "hand_ok s'" by (rule hand_ok_upd [OF i(3) g(1) m]) (use fk hand_facts(2) [OF i(3) g(1)] in auto)
  moreover have "work_ok s'" using i(4) unfolding work_ok_def eq o(3) l .
  moreover have "sleep_ok {} s'"
    by (rule sleep_okI) (use sleep_okD [OF i(5)] m g fk in \<open>auto simp: o(4) l split: if_splits\<close>)
  moreover have "set (fakeLeaves s') = set (fakeLeaves s) - {g}" "distinct (fakeLeaves s')"
    using fake_okD(1) [OF i(6)] by (simp_all add: s'_def set_remove1_eq)
  then have "fake_ok s'" by (intro fake_okI) (use fake_okD(2,3) [OF i(6)] m in \<open>auto split: if_splits\<close>)
  moreover have "misc_ok s'" using i(7) by (simp add: misc_ok_def s'_def)
  ultimately have inv': "sched_inv {} {} s'" by (simp add: sched_inv_def)
  have "th_cid t \<noteq> th_cid th" if "gidMap s y = Some t" "y \<noteq> g" "markedForSleep t \<or> fakeLeave t \<noteq> None" for y t
    using one_per_context [OF i(1) g(1) that(1)] that fk fake_okD(3) [OF i(6) that(1)] sleep_okD(4) [OF i(5) that(1)] by blast
  then have "(\<exists>y t. gidMap s' y = Some t \<and> (markedForSleep t \<or> fakeLeave t \<noteq> None) \<and> th_cid t = c)
      \<longleftrightarrow> (\<exists>y t. gidMap s y = Some t \<and> (markedForSleep t \<or> fakeLeave t \<noteq> None) \<and> th_cid t = c) \<and> c \<noteq> th_cid th" for c
    unfolding ex_thread [OF g(1) m] using fk by auto
  then have "awake_at s' = awake_at s - {th_cid th}" unfolding awake_at_def by auto
  then show ?thesis using f inv' m quiet_sets(3,6) [OF g(1) m] by auto
qed

lemma link_less: "bar_link b R A H \<Longrightarrow> A' \<subseteq> A \<Longrightarrow> H' \<subseteq> H \<Longrightarrow> bar_link b R A' H'"
  unfolding bar_link_def by auto

text \<open>A thread may join when it has just started, is blocked, out, asleep, or in a fake leave.\<close>

definition can_join :: "ThreadInfo \<Rightarrow> bool" where
  "can_join th \<longleftrightarrow> fakeLeave th \<noteq> None \<or> th_state th = TH_STARTED \<or> th_state th = TH_BLOCKED \<or> th_state th = TH_OUT \<or> th_state th = TH_SLEEPING"

lemma rejoin_ok:
  assumes sys: "sys_inv (b, s)" and g: "gidMap s g = Some th" "th_state th = TH_OUT"
  shows "\<exists>oq bs'. list_remove g (outQueue s) = Some oq \<and> sys_inv bs' \<and> in_state (snd bs') TH_RUNNING g
    \<and> bar_join sched_callback (th_cid th) (b, core (CoreJoin (th_cid th)) ((upd_th g (\<lambda>t. t\<lparr>th_state := TH_RUNNING\<rparr>) s)\<lparr>outQueue := oq\<rparr>)) = Some bs'"
proof -
  have inv: "sched_inv {} {} s" and l: "bar_link b (run_at s) (awake_at s) (hand_at s)" using sys by (simp_all add: sys_inv_def)
  note i = sched_invD [OF inv] let ?c = "th_cid th" let ?th = "th\<lparr>th_state := TH_RUNNING\<rparr>"
  have inq: "g \<in> set (outQueue s)" using queues_okD(8) [OF i(2)] g by (simp add: in_state_def)
  let ?s1 = "s\<lparr>outQueue := remove1 g (outQueue s)\<rparr>"
  note inv1 = out_remove [OF inv inq] note i1 = sched_invD [OF inv1]
  have g1: "gidMap ?s1 g = Some th" using g by simp
  note q = quiet_state [OF inv g(1), unfolded g(2), simplified]
  have no: "no_owner g ?s1" using owner_state [OF i(2) g(1)] g(2) queues_okD(2) [OF i(2)] by (auto simp: no_owner_def set_remove1_eq)
  define s2 where "s2 = (upd_th g (\<lambda>t. t\<lparr>th_state := TH_RUNNING\<rparr>) s)\<lparr>outQueue := remove1 g (outQueue s)\<rparr>"
  have m: "gidMap s2 = (gidMap ?s1)(g \<mapsto> ?th)" and sl: "same_lists ?s1 s2" using g(1) by (simp_all add: s2_def same_lists_def)
  have "ctx_ok {} s2" by (rule ctx_same [OF i1(1) g1 m]) (use g(2) in \<open>simp_all add: s2_def\<close>)
  moreover have "queues_ok {} s2"
    by (rule queues_drop [of g _ _ ?th]) (use queues_move [OF i1(2) g1 m _ _ _ sl] no m in simp_all)
  moreover have "hand_ok s2" by (rule hand_ok_upd [OF i1(3) g1 m]) (use q hand_facts(2) [OF i1(3) g1] g(2) in auto)
  moreover have "work_ok s2" by (rule work_ok_upd [OF i1(4) g1 m _ _ _ sl]) simp_all
  moreover have "sleep_ok {} s2" by (rule sleep_upd [OF i1(5) g1 m _ _ _ sl]) (use q in auto)
  moreover have "fake_ok s2" by (rule fake_upd [OF i1(6) g1 m _ sl]) (use q in auto)
  moreover have "misc_ok s2" by (rule misc_upd [OF i1(7) sl])
  ultimately have inv2: "sched_inv {} {} s2" by (simp add: sched_inv_def)
  have m': "gidMap s2 = (gidMap s)(g \<mapsto> ?th)" using m by simp
  have sets: "run_at s2 = insert ?c (run_at s)" "awake_at s2 = awake_at s" "hand_at s2 = hand_at s"
    using quiet_sets(7) [OF g(1) m'] quiet_sets(3,4) [OF g(1) m'] g(2) by simp_all
  have "?c \<notin> run_at s"
  proof
    assume "?c \<in> run_at s"
    then obtain y t where "gidMap s y = Some t" "th_state t = TH_RUNNING" "th_cid t = ?c" by (auto simp: run_at_def)
    then show False using one_per_context [OF i(1) g(1), of y t] g by auto
  qed
  moreover have "?c < MAX_THREADS" using ctx_okD(1) [OF i(1) g(1)] contexts_bound [OF inv] by (simp add: thread_ok_def)
  ultimately obtain b' where b': "bar_join sched_callback ?c (b, core (CoreJoin ?c) s2) = Some (b', core (CoreJoin ?c) s2)"
      "bar_link b' (run_at s2) (awake_at s2) (hand_at s2)"
    using bar_link_join [OF l, of ?c sched_callback "core (CoreJoin ?c) s2"] unfolding sets by blast
  then have "sys_inv (b', core (CoreJoin ?c) s2)" using inv2 sets_map [of "core (CoreJoin ?c) s2" s2] by (simp add: sys_inv_def)
  moreover have "in_state (core (CoreJoin ?c) s2) TH_RUNNING g" by (simp add: in_state_def m)
  ultimately show ?thesis using b'(1) inq unfolding list_remove_def s2_def by auto
qed

lemma sched_join_ok:
  assumes sys: "sys_inv (b, s)" and g: "gidMap s (getGid pid tid) = Some th" "can_join th"
  shows "\<exists>bs'. sched_join pid tid (b, s) = Some bs' \<and> sys_inv bs' \<and> (in_state (snd bs') TH_RUNNING (getGid pid tid) \<or> getGid pid tid \<in> set (runQueue (snd bs')))"
proof -
  let ?g = "getGid pid tid"
  have inv: "sched_inv {} {} s" and l: "bar_link b (run_at s) (awake_at s) (hand_at s)" using sys by (simp_all add: sys_inv_def)
  note i = sched_invD [OF inv]
  consider "fakeLeave th \<noteq> None" | "fakeLeave th = None" "th_state th = TH_OUT" | "fakeLeave th = None" "th_state th = TH_SLEEPING"
    | "fakeLeave th = None" "th_state th = TH_STARTED \<or> th_state th = TH_BLOCKED" using g(2) by (auto simp: can_join_def)
  then show ?thesis
  proof cases
    case 1
    then obtain s' where s': "finishFakeLeave ?g s = Some s'" "sched_inv {} {} s'" "run_at s' = run_at s" "hand_at s' = hand_at s"
        "awake_at s' = awake_at s - {th_cid th}" "gidMap s' = (gidMap s)(?g \<mapsto> th\<lparr>fakeLeave := None\<rparr>)" using finishFakeLeave_ok [OF inv g(1)] by blast
    have "sys_inv (b, s')" unfolding sys_inv_def fst_conv snd_conv s'(3-5) by (intro conjI s'(2) link_less [OF l]) auto
    moreover have "in_state s' TH_RUNNING ?g" using s'(6) fake_okD(3) [OF i(6) g(1) 1] by (simp add: in_state_def)
    ultimately show ?thesis using 1 s'(1) g(1) by (simp add: sched_join_def)
  next
    case 2
    note q = quiet_state [OF inv g(1)]
    show ?thesis using rejoin_ok [OF sys g(1) 2(2)] 2 q g(1) by (auto simp: sched_join_def)
  next
    case 3
    note q = quiet_state [OF inv g(1), unfolded 3(2), simplified]
    have inq: "?g \<in> set (sleepQueue s)" using queues_okD(9) [OF i(2)] g(1) 3(2) by (simp add: in_state_def)
    let ?th = "th\<lparr>th_state := TH_BLOCKED\<rparr>"
    define s1 where "s1 = s\<lparr>sleepQueue := remove1 ?g (sleepQueue s), gidMap := (gidMap s)(?g \<mapsto> ?th)\<rparr>"
    note u = unsleep_ok [OF inv g(1) inq, of ?th, simplified, OF s1_def]
    have g1: "gidMap s1 ?g = Some ?th" by (simp add: s1_def)
    have l1: "bar_link b (run_at s1) (awake_at s1) (hand_at s1)" using l u(2) by (simp add: same_sets_def)
    note t = take_context_ok [OF u(1) l1 _ g1, simplified, OF idle_thread [OF u(1) g1]]
    have "sched_join pid tid (b, s) = take_context ?g (b, s1)"
      using g(1) 3 q inq by (simp add: sched_join_def Let_def list_remove_def upd_th_def s1_def)
    then show ?thesis using t by simp
  next
    case 4
    note q = quiet_state [OF inv g(1)]
    have "\<not> markedForSleep th" using q(2) 4(2) by auto
    then have "sched_join pid tid (b, s) = take_context ?g (b, s)" using g(1) 4 by (auto simp: sched_join_def)
    then show ?thesis using take_context_ok [OF inv l _ g(1) _ idle_thread [OF inv g(1) 4(2)]] 4(2) by auto
  qed
qed

text \<open>A thread that is about to leave or to synchronise: the barrier lets it run and it has nothing else to do.\<close>

definition at_work :: "Barrier \<Rightarrow> ThreadInfo \<Rightarrow> bool" where
  "at_work b th \<longleftrightarrow> th_state th = TH_RUNNING \<and> state_of b (th_cid th) = RUNNING \<and> fakeLeave th = None \<and> handoffThread th = None"

lemma busy_runs:
  assumes "sched_inv F U s" "gidMap s y = Some u" "handoffThread u \<noteq> None \<or> markedForSleep u \<or> fakeLeave u \<noteq> None"
  shows "th_state u = TH_RUNNING"
  using quiet_state [OF assms(1,2)] assms(3) by blast

lemma at_work_sets:
  assumes inv: "sched_inv {} {} s" and g: "gidMap s g = Some th" "at_work b th"
  shows "th_cid th < MAX_THREADS" "curThread (contexts s ! th_cid th) = Some g" "th_cid th \<in> run_at s" "th_cid th \<notin> hand_at s"
    "\<not> markedForSleep th \<Longrightarrow> th_cid th \<notin> awake_at s"
proof -
  note i = sched_invD [OF inv] note t = ctx_okD(1) [OF i(1) g(1), unfolded thread_ok_def]
  show "th_cid th < MAX_THREADS" using t contexts_bound [OF inv] by blast
  show "curThread (contexts s ! th_cid th) = Some g" using t g(2) by (simp add: at_work_def)
  show "th_cid th \<in> run_at s" using g by (auto simp: run_at_def at_work_def)
  have one: "y = g" if "gidMap s y = Some u" "th_cid u = th_cid th" "th_state u = TH_RUNNING" for y u
    using one_per_context [OF i(1) g(1) that(1,2)] that(3) g(2) by (simp add: at_work_def)
  have same: "u = th" if "gidMap s y = Some u" "th_cid u = th_cid th" "handoffThread u \<noteq> None \<or> markedForSleep u \<or> fakeLeave u \<noteq> None" for y u
    using one [OF that(1,2) busy_runs [OF inv that(1,3)]] that(1) g(1) by simp
  have gw: "handoffThread th = None" "fakeLeave th = None" using g(2) by (simp_all add: at_work_def)
  show "th_cid th \<notin> hand_at s"
  proof
    assume "th_cid th \<in> hand_at s"
    then obtain y u where "gidMap s y = Some u" "handoffThread u \<noteq> None" "th_cid u = th_cid th" unfolding hand_at_def by blast
    then show False using same [of y u] gw by simp
  qed
  show "th_cid th \<notin> awake_at s" if "\<not> markedForSleep th"
  proof
    assume "th_cid th \<in> awake_at s"
    then obtain y u where "gidMap s y = Some u" "markedForSleep u \<or> fakeLeave u \<noteq> None" "th_cid u = th_cid th" unfolding awake_at_def by blast
    then show False using same [of y u] gw that by auto
  qed
qed

lemma bar_leave_sys:
  assumes inv: "sched_inv {} {} s'" and l: "bar_link b R A H" and c: "c < MAX_THREADS" "state_of b c = RUNNING" "c \<notin> A" "c \<notin> H"
    and sets: "run_at s' = R - {c}" "awake_at s' = A" "hand_at s' = H" and st: "bar_leave sched_callback c (b, s') = Some bs'"
  shows "sys_inv bs'"
proof -
  let ?b = "(set_thread c (\<lambda>th. th\<lparr>ts_state := LEFT\<rparr>) b)\<lparr>leftThreads := Suc (leftThreads b), runningThreads := runningThreads b - 1\<rparr>"
  have "bar_link ?b (run_at s') (awake_at s') (hand_at s')" unfolding sets by (rule bar_link_leave [OF l c refl])
  moreover have "tryWakeNext sched_callback (?b, s') = Some bs'" using st c(2) by (simp add: bar_leave_def Let_def)
  ultimately show ?thesis by (rule try_sys [OF inv])
qed

lemma sched_sync_ok:
  assumes sys: "sys_inv (b, s)" and g: "gidMap s g = Some th" "at_work b th" and st: "sched_sync (th_cid th) (b, s) = Some bs'"
  shows "sys_inv bs'"
proof -
  have inv: "sched_inv {} {} s" and l: "bar_link b (run_at s) (awake_at s) (hand_at s)" using sys by (simp_all add: sys_inv_def)
  let ?c = "th_cid th" note w = at_work_sets [OF inv g]
  let ?b = "(set_thread ?c (\<lambda>th. th\<lparr>futexWord := 1, ts_state := WAITING\<rparr>) b)\<lparr>runningThreads := runningThreads b - 1\<rparr>"
  have run: "state_of b ?c = RUNNING" using g(2) by (simp add: at_work_def)
  have s: "\<not> markedForSleep th" "tryWakeNext sched_callback (?b, s) = Some bs'"
    using st w(2) g(1) run by (auto simp: sched_sync_def bar_sync_def Let_def abort_simps split: if_splits)
  show ?thesis by (rule try_sys [OF inv bar_link_sync [OF l w(1) run w(5) [OF s(1)] w(4) refl] s(2)])
qed

text \<open>The two ways to leave. A context with a queued thread that it admits is handed to it at once.\<close>

lemma queued_awake:
  assumes "sched_inv F U s" "gidMap s q = Some tq" "th_state tq = TH_QUEUED" "q \<notin> U"
  shows "th_futexWord tq = 1"
  using sleep_okD(3) [OF sched_invD(5) [OF assms(1)] assms(2)] assms(3,4) by blast

lemma unmark_ok:
  assumes inv: "sched_inv {} {} s" and g: "gidMap s g = Some th" "markedForSleep th" and s': "s' = upd_th g (\<lambda>t. t\<lparr>markedForSleep := False\<rparr>) s"
  shows "sched_inv {} {} s'" "gidMap s' = (gidMap s)(g \<mapsto> th\<lparr>markedForSleep := False\<rparr>)" "same_lists s s'"
    "run_at s' = run_at s" "hand_at s' = hand_at s" "awake_at s' = awake_at s - {th_cid th}"
proof -
  note i = sched_invD [OF inv] let ?th = "th\<lparr>markedForSleep := False\<rparr>"
  note sl = sleep_okD(4) [OF i(5) g]
  have fk: "fakeLeave th = None" using fake_okD(3) [OF i(6) g(1)] g(2) by blast
  show m: "gidMap s' = (gidMap s)(g \<mapsto> ?th)" and l: "same_lists s s'" using g(1) by (simp_all add: s' same_lists_def)
  have "ctx_ok {} s'" by (rule ctx_same [OF i(1) g(1) m]) (simp_all add: s')
  moreover have "no_owner g s" using owner_state [OF i(2) g(1)] sl by (auto simp: no_owner_def)
  then have "queues_ok {g} s'" using queues_move [OF i(2) g(1) m _ _ _ l] by simp
  then have "queues_ok {} s'" by (rule queues_drop [of g _ _ ?th]) (simp_all add: m sl)
  moreover have "hand_ok s'" by (rule hand_ok_upd [OF i(3) g(1) m]) (use sl hand_facts(2) [OF i(3) g(1)] in auto)
  moreover have "work_ok s'" by (rule work_ok_upd [OF i(4) g(1) m _ _ _ l]) simp_all
  moreover have "sleep_ok {} s'" by (rule sleep_upd [OF i(5) g(1) m _ _ _ l]) (use sl in auto)
  moreover have "fake_ok s'" by (rule fake_upd [OF i(6) g(1) m _ l]) (use fk in auto)
  moreover have "misc_ok s'" by (rule misc_upd [OF i(7) l])
  ultimately show "sched_inv {} {} s'" by (simp add: sched_inv_def)
  show "run_at s' = run_at s" "hand_at s' = hand_at s" using quiet_sets(3,6) [OF g(1) m] by simp_all
  have "th_cid t \<noteq> th_cid th" if "gidMap s y = Some t" "y \<noteq> g" "markedForSleep t \<or> fakeLeave t \<noteq> None" for y t
    using one_per_context [OF i(1) g(1) that(1)] that(2) sl busy_runs [OF inv that(1)] that(3) by blast
  then have "(\<exists>y t. gidMap s' y = Some t \<and> (markedForSleep t \<or> fakeLeave t \<noteq> None) \<and> th_cid t = c)
      \<longleftrightarrow> (\<exists>y t. gidMap s y = Some t \<and> (markedForSleep t \<or> fakeLeave t \<noteq> None) \<and> th_cid t = c) \<and> c \<noteq> th_cid th" for c
    unfolding ex_thread [OF g(1) m] using fk by auto
  then show "awake_at s' = awake_at s - {th_cid th}" unfolding awake_at_def by auto
qed

text \<open>The thread sleeps: its context is held, and it is in the sleep queue.\<close>

lemma to_sleep_ok:
  assumes inv: "sched_inv {} {} s" and g: "gidMap s g = Some th" "markedForSleep th" "th_cid th = c"
  shows "\<exists>s1. deschedule g c TH_SLEEPING (upd_th g (\<lambda>t. t\<lparr>markedForSleep := False\<rparr>) s) = Some s1 \<and> no_owner g s1
    \<and> sched_inv {c} {} (s1\<lparr>sleepQueue := ord_insert (wake_key s1) g (sleepQueue s1)\<rparr>)
    \<and> run_at s1 = run_at s - {c} \<and> awake_at s1 = awake_at s - {c} \<and> hand_at s1 = hand_at s \<and> in_state s1 TH_SLEEPING g"
proof -
  let ?s0 = "upd_th g (\<lambda>t. t\<lparr>markedForSleep := False\<rparr>) s" let ?th = "th\<lparr>markedForSleep := False\<rparr>"
  note i = sched_invD [OF inv] note u = unmark_ok [OF inv g(1,2) refl] note sl = sleep_okD(3,4) [OF i(5) g(1)]
  have g0: "gidMap ?s0 g = Some ?th" using u(2) by simp
  have fk: "fakeLeave th = None" using fake_okD(3) [OF i(6) g(1)] g(2) by blast
  have no: "no_owner g s" using owner_state [OF i(2) g(1)] sl(2) [OF g(2)] by (auto simp: no_owner_def)
  have st: "th_state th = TH_RUNNING" "handoffThread th = None" "th_futexWord th = 1" "curPhase s < wakeupPhase th" using sl g(2) by auto
  obtain s1 where s1: "deschedule g c TH_SLEEPING ?s0 = Some s1" "sched_inv {c} {g} s1" "gidMap s1 = (gidMap ?s0)(g \<mapsto> ?th\<lparr>th_state := TH_SLEEPING\<rparr>)" "same_lists ?s0 s1"
    using deschedule_ok [OF u(1) g0, of TH_SLEEPING] no st fk g(3) by (auto simp: no_owner_def)
  have no1: "no_owner g s1" using no s1(4) by (simp add: no_owner_def same_lists_def)
  have "sched_inv {c} {} (s1\<lparr>sleepQueue := ord_insert (wake_key s1) g (sleepQueue s1)\<rparr>)"
    by (rule sleep_add [OF s1(2), of "?th\<lparr>th_state := TH_SLEEPING\<rparr>"]) (use s1(3,4) no1 st(4) in \<open>auto simp: no_owner_def same_lists_def\<close>)
  moreover have "run_at s1 = run_at ?s0 - {c}"
    using run_at_remove [OF sched_invD(1) [OF u(1)] g0 s1(3)] st(1) g(3) by simp
  moreover have "awake_at s1 = awake_at ?s0" "hand_at s1 = hand_at ?s0" using quiet_sets(3,4) [OF g0 s1(3)] by simp_all
  moreover have "in_state s1 TH_SLEEPING g" by (simp add: in_state_def s1(3))
  ultimately show ?thesis using s1(1) no1 u(4-6) g(3) by auto
qed

text \<open>Nothing but a schedule makes a thread run, so the callback makes none.\<close>

lemma wake_sleepers_running: "wake_sleepers gs s = Some s' \<Longrightarrow> in_state s' TH_RUNNING y \<Longrightarrow> in_state s TH_RUNNING y"
proof (induction gs arbitrary: s)
  case (Cons g gs)
  then obtain th where th: "gidMap s g = Some th" by (auto simp: bind_Some_conv)
  show ?case
  proof (cases "wakeupPhase th \<le> curPhase s")
    case True
    then obtain s1 where s1: "wakeup g False (upd_th g (\<lambda>t. t\<lparr>th_state := TH_BLOCKED\<rparr>) s) = Some s1" "wake_sleepers gs (s1\<lparr>sleepQueue := gs\<rparr>) = Some s'"
      using Cons.prems(1) th by (auto simp: bind_Some_conv abort_simps split: if_splits)
    have "in_state (s1\<lparr>sleepQueue := gs\<rparr>) TH_RUNNING y" by (rule Cons.IH [OF s1(2) Cons.prems(2)])
    then show ?thesis using s1(1) th by (auto simp: wakeup_def abort_simps in_state_def upd_th_def split: if_splits)
  next
    case False
    then show ?thesis using Cons.prems th by simp
  qed
qed simp

lemma tick_loop_running: "tick_loop gs av s = Some s' \<Longrightarrow> in_state s' x y \<Longrightarrow> in_state s x y"
proof (induction gs arbitrary: av s)
  case (Cons g gs)
  show ?case
  proof (cases "av = [] \<or> find (\<lambda>c. allows s g c) av = None")
    case True
    then show ?thesis using Cons.prems Cons.IH [of av s] by (auto split: if_splits)
  next
    case False
    then obtain c where f: "av \<noteq> []" "find (\<lambda>c. allows s g c) av = Some c" by auto
    then obtain v where v: "tick_loop gs (remove1 c av) ((upd_th v (\<lambda>t. t\<lparr>handoffThread := Some g\<rparr>) s)\<lparr>runQueue := remove1 g (runQueue s)\<rparr>) = Some s'"
      using Cons.prems(1) by (auto simp: bind_Some_conv)
    have "in_state ((upd_th v (\<lambda>t. t\<lparr>handoffThread := Some g\<rparr>) s)\<lparr>runQueue := remove1 g (runQueue s)\<rparr>) x y" by (rule Cons.IH [OF v Cons.prems(2)])
    then show ?thesis by (auto simp: in_state_def split: if_splits)
  qed
qed simp

lemma callback_running: "sched_callback s = Some s' \<Longrightarrow> in_state s' TH_RUNNING y \<Longrightarrow> in_state s TH_RUNNING y"
proof -
  assume c: "sched_callback s = Some s'" and r: "in_state s' TH_RUNNING y"
  let ?s1 = "s\<lparr>numPhases := Suc (numPhases s), curPhase := Suc (curPhase s)\<rparr>"
  from c obtain s2 where s2: "wake_sleepers (sleepQueue s) ?s1 = Some s2" "s' = s2 \<or> schedTick s2 = Some s'"
    by (auto simp: sched_callback_def Let_def bind_Some_conv abort_simps split: if_splits)
  have "in_state s2 TH_RUNNING y"
  proof (cases "s' = s2")
    case False
    then obtain av g where "tick_loop (runQueue s2) av (s2\<lparr>sc_rnd := g\<rparr>) = Some s'"
      using s2(2) by (auto simp: schedTick_def Let_def bind_Some_conv abort_simps split: if_splits)
    then show ?thesis using tick_loop_running r by (fastforce simp: in_state_def)
  qed (use r in simp)
  then have "in_state ?s1 TH_RUNNING y" by (rule wake_sleepers_running [OF s2(1)])
  then show "in_state s TH_RUNNING y" by (simp add: in_state_def)
qed

lemma bar_leave_running:
  assumes "bar_leave sched_callback c (b, s) = Some (b', s')" "in_state s' TH_RUNNING y"
  shows "in_state s TH_RUNNING y"
proof -
  have "s' = s \<or> sched_callback s = Some s'"
    using assms(1) by (auto simp: bar_leave_def tryWakeNext_def checkEndPhase_def Let_def bind_Some_conv abort_simps split: if_splits)
  then show ?thesis using callback_running [OF _ assms(2)] assms(2) by blast
qed

text \<open>Another thread runs on at once, or the context becomes free.\<close>

lemma refill_ok:
  assumes inv: "sched_inv {c} {q} s" and q: "gidMap s q = Some tq" "th_state tq = TH_QUEUED" "th_mask tq ! c" "\<not> target s q" "q \<notin> set (runQueue s)" "th_futexWord tq = 1"
  shows "\<exists>s1 s2. schedule q c s = Some s1 \<and> wakeup q False (core (CoreJoin c) s1) = Some s2 \<and> sched_inv {} {} s2
    \<and> run_at s2 = insert c (run_at s) \<and> awake_at s2 = awake_at s \<and> hand_at s2 = hand_at s \<and> (\<forall>y. y \<noteq> q \<longrightarrow> gidMap s2 y = gidMap s y)"
  using install_ok [OF inv q(1,2,5,4,6) _ q(3), of "CoreJoin c"] by auto

lemma out_ok:
  assumes inv: "sched_inv {} {} s" and g: "gidMap s g = Some th" "th_state th = TH_RUNNING" "handoffThread th = None" "\<not> markedForSleep th" "fakeLeave th = None"
    and nq: "\<forall>q \<in> set (runQueue s). \<not> allows s q (th_cid th)"
    and s': "s' = (upd_th g (\<lambda>t. t\<lparr>th_state := TH_OUT\<rparr>) s)\<lparr>outQueue := outQueue s @ [g]\<rparr>"
  shows "sched_inv {} {} s'" "no_owner g s" "run_at s' = run_at s - {th_cid th}" "awake_at s' = awake_at s" "hand_at s' = hand_at s"
proof -
  note i = sched_invD [OF inv] let ?th = "th\<lparr>th_state := TH_OUT\<rparr>"
  define s1 where "s1 = upd_th g (\<lambda>t. t\<lparr>th_state := TH_OUT\<rparr>) s"
  have m: "gidMap s1 = (gidMap s)(g \<mapsto> ?th)" and l: "same_lists s s1" using g(1) by (simp_all add: s1_def same_lists_def)
  show no: "no_owner g s" using owner_state [OF i(2) g(1)] g(2) by (auto simp: no_owner_def)
  have "ctx_ok {} s1" by (rule ctx_same [OF i(1) g(1) m]) (use g(2) in \<open>simp_all add: s1_def\<close>)
  moreover have "queues_ok {g} s1" using queues_move [OF i(2) g(1) m _ _ _ l] no by simp
  moreover have "hand_ok s1" by (rule hand_ok_upd [OF i(3) g(1) m]) (use g hand_facts(2) [OF i(3) g(1)] in auto)
  moreover have "work_ok s1" by (rule work_ok_upd [OF i(4) g(1) m _ _ _ l]) simp_all
  moreover have "sleep_ok {g} s1" by (rule sleep_upd [OF i(5) g(1) m _ _ _ l]) (use g in auto)
  moreover have "fake_ok s1" by (rule fake_upd [OF i(6) g(1) m _ l]) (use g in auto)
  moreover have "misc_ok s1" by (rule misc_upd [OF i(7) l])
  ultimately have i1: "sched_inv {} {g} s1" by (simp add: sched_inv_def)
  have e: "s' = s1\<lparr>outQueue := outQueue s1 @ [g]\<rparr>" by (simp add: s' s1_def)
  have "\<forall>q \<in> set (runQueue s1). \<not> allows s1 q (th_cid ?th)" using nq one_thread(3) [OF g(1) m] by (simp add: s1_def)
  then show "sched_inv {} {} s'" unfolding e by (intro out_add [OF i1, of ?th]) (use m no in \<open>simp_all add: no_owner_def s1_def\<close>)
  have m': "gidMap s' = (gidMap s)(g \<mapsto> ?th)" using m by (simp add: e)
  show "run_at s' = run_at s - {th_cid th}" by (rule run_at_remove [OF i(1) g(1) m']) (use g(2) in simp_all)
  show "awake_at s' = awake_at s" "hand_at s' = hand_at s" using quiet_sets(3,4) [OF g(1) m'] by simp_all
qed

lemma sleep_leave_ok:
  assumes sys: "sys_inv (b, s)" and g: "gidMap s g = Some th" "at_work b th" "markedForSleep th" "g = getGid pid tid"
    and st: "sched_leave pid tid (th_cid th) (b, s) = Some bs'"
  shows "sys_inv bs' \<and> \<not> in_state (snd bs') TH_RUNNING g"
proof -
  have inv: "sched_inv {} {} s" and l: "bar_link b (run_at s) (awake_at s) (hand_at s)" using sys by (simp_all add: sys_inv_def)
  let ?c = "th_cid th" note w = at_work_sets [OF inv g(1,2)]
  have run: "state_of b ?c = RUNNING" "th_state th = TH_RUNNING" using g(2) by (simp_all add: at_work_def)
  let ?s = "core (CoreLeave ?c) s"
  have inv': "sched_inv {} {} ?s" "gidMap ?s g = Some th" using inv g(1) by simp_all
  obtain s1 where s1: "deschedule g ?c TH_SLEEPING (upd_th g (\<lambda>t. t\<lparr>markedForSleep := False\<rparr>) ?s) = Some s1" "no_owner g s1"
      "sched_inv {?c} {} (s1\<lparr>sleepQueue := ord_insert (wake_key s1) g (sleepQueue s1)\<rparr>)"
      "run_at s1 = run_at ?s - {?c}" "awake_at s1 = awake_at ?s - {?c}" "hand_at s1 = hand_at ?s" "in_state s1 TH_SLEEPING g"
    using to_sleep_ok [OF inv' g(3) refl] by blast
  define s2 where "s2 = s1\<lparr>sleepQueue := ord_insert (wake_key s1) g (sleepQueue s1)\<rparr>"
  have sets: "run_at s2 = run_at s - {?c}" "awake_at s2 = awake_at s - {?c}" "hand_at s2 = hand_at s"
    using s1(4-6) sets_map [of s2 s1] sets_map [of ?s s] by (simp_all add: s2_def)
  have l2: "bar_link b (run_at s) (awake_at s2) (hand_at s2)" unfolding sets by (rule link_less [OF l]) auto
  have i2: "sched_inv {?c} {} s2" using s1(3) by (simp add: s2_def)
  obtain t2 where t2: "gidMap s2 g = Some t2" "th_state t2 = TH_SLEEPING" using s1(7) by (auto simp: in_state_def s2_def)
  from schedContext_ok [OF i2, of ?c] show ?thesis
  proof (elim disjE exE conjE)
    fix q tq let ?s3 = "s2\<lparr>runQueue := remove1 q (runQueue s2)\<rparr>"
    assume sc: "schedContext ?c s2 = (Some q, ?s3)" and i3: "sched_inv {?c} {q} ?s3" and q: "gidMap s2 q = Some tq" "th_state tq = TH_QUEUED" "th_mask tq ! ?c" "\<not> target s2 q"
      and d: "q \<in> set (runQueue s2)" "distinct (runQueue s2)"
    have q3: "gidMap ?s3 q = Some tq" "\<not> target ?s3 q" "q \<notin> set (runQueue ?s3)" using q d reads_map(2) [of ?s3 s2] by (simp_all add: set_remove1_eq)
    obtain s4 s5 where s5: "schedule q ?c ?s3 = Some s4" "wakeup q False (core (CoreJoin ?c) s4) = Some s5" "sched_inv {} {} s5"
        "run_at s5 = insert ?c (run_at ?s3)" "awake_at s5 = awake_at ?s3" "hand_at s5 = hand_at ?s3" "\<forall>y. y \<noteq> q \<longrightarrow> gidMap s5 y = gidMap ?s3 y"
      using refill_ok [OF i3 q3(1) q(2,3) q3(2,3) queued_awake [OF i2 q(1,2)]] by auto
    have "bs' = (b, s5)" using st w(2) g s1(1,2) sc s5(1,2) run by (simp add: sched_leave_def s2_def Let_def)
    moreover have "run_at s5 = run_at s" "awake_at s5 = awake_at s2" "hand_at s5 = hand_at s2"
      using s5(4-6) sets_map [of ?s3 s2] sets(1) w(3) by auto
    moreover have "g \<noteq> q" using t2 q(1,2) by auto
    then have "gidMap s5 g = Some t2" using s5(7) t2(1) by simp
    ultimately show ?thesis using s5(3) l2 t2(2) by (simp add: sys_inv_def in_state_def)
  next
    assume sc: "schedContext ?c s2 = (None, s2)" and nq: "\<forall>q \<in> set (runQueue s2). \<not> allows s2 q ?c"
    let ?s3 = "s2\<lparr>freeList := freeList s2 @ [?c]\<rparr>"
    note fa = free_add [OF i2 _ nq, simplified]
    have bl: "bar_leave sched_callback ?c (b, ?s3) = Some bs'" using st w(2) g s1(1,2) sc fa(2) run by (simp add: sched_leave_def s2_def Let_def)
    have "sys_inv bs'" by (rule bar_leave_sys [OF fa(1) l2 w(1) run(1) _ _ _ _ _ bl]) (use sets w(4) sets_map [of ?s3 s2] in auto)
    moreover have "\<not> in_state ?s3 TH_RUNNING g" using t2 by (simp add: in_state_def)
    ultimately show ?thesis using bar_leave_running [of ?c b ?s3 "fst bs'" "snd bs'" g] bl by auto
  qed
qed

lemma plain_leave_ok:
  assumes sys: "sys_inv (b, s)" and g: "gidMap s g = Some th" "at_work b th" "\<not> markedForSleep th" "g = getGid pid tid"
    and st: "sched_leave pid tid (th_cid th) (b, s) = Some bs'"
  shows "sys_inv bs' \<and> \<not> in_state (snd bs') TH_RUNNING g"
proof -
  let ?c = "th_cid th" let ?s = "core (CoreLeave ?c) s"
  have inv: "sched_inv {} {} ?s" and l: "bar_link b (run_at ?s) (awake_at ?s) (hand_at ?s)" and inv0: "sched_inv {} {} s"
    using sys sets_map [of ?s s] by (simp_all add: sys_inv_def)
  have gs: "gidMap ?s g = Some th" using g(1) by simp
  note w = at_work_sets [OF inv gs g(2)] note i = sched_invD [OF inv]
  have cur: "curThread (contexts s ! ?c) = Some g" using w(2) by simp
  have run: "state_of b ?c = RUNNING" "th_state th = TH_RUNNING" "handoffThread th = None" "fakeLeave th = None" using g(2) by (simp_all add: at_work_def)
  from schedContext_ok [OF inv, of ?c] show ?thesis
  proof (elim disjE exE conjE)
    fix q tq let ?s1 = "?s\<lparr>runQueue := remove1 q (runQueue ?s)\<rparr>"
    assume sc: "schedContext ?c ?s = (Some q, ?s1)" and i1: "sched_inv {} {q} ?s1" and q: "gidMap ?s q = Some tq" "th_state tq = TH_QUEUED" "th_mask tq ! ?c" "\<not> target ?s q"
      and d: "q \<in> set (runQueue ?s)" "distinct (runQueue ?s)"
    have ne: "q \<noteq> g" using q(1,2) gs run(2) by auto
    have g1: "gidMap ?s1 g = Some th" "g \<notin> set (outQueue ?s1)" using gs owner_state(2) [OF i(2) gs] run(2) by auto
    let ?th = "th\<lparr>th_state := TH_BLOCKED\<rparr>"
    obtain s2 where s2: "deschedule g ?c TH_BLOCKED ?s1 = Some s2" "sched_inv {?c} {g, q} s2" "gidMap s2 = (gidMap ?s1)(g \<mapsto> ?th)" "same_lists ?s1 s2"
      using deschedule_ok [OF i1 g1(1) _ g1(2), of TH_BLOCKED] run g(3) by auto
    have i2: "sched_inv {?c} {q} s2" by (rule drop_user [OF s2(2), of ?th]) (simp_all add: s2(3))
    have "target s2 = target ?s1" by (rule one_thread(2) [OF g1(1) s2(3)]) simp_all
    then have q2: "gidMap s2 q = Some tq" "\<not> target s2 q" "q \<notin> set (runQueue s2)"
      using q d s2(3,4) ne reads_map(2) [of ?s1 ?s] by (simp_all add: set_remove1_eq same_lists_def)
    obtain s3 s4 where s4: "schedule q ?c s2 = Some s3" "wakeup q False (core (CoreJoin ?c) s3) = Some s4" "sched_inv {} {} s4"
        "run_at s4 = insert ?c (run_at s2)" "awake_at s4 = awake_at s2" "hand_at s4 = hand_at s2" "\<forall>y. y \<noteq> q \<longrightarrow> gidMap s4 y = gidMap s2 y"
      using refill_ok [OF i2 q2(1) q(2,3) q2(2,3) queued_awake [OF inv q(1,2)]] by auto
    have "bs' = (b, s4)" using st cur g s2(1) sc s4(1,2) run by (simp add: sched_leave_def Let_def)
    moreover have "run_at s2 = run_at ?s1 - {?c}" "awake_at s2 = awake_at ?s1" "hand_at s2 = hand_at ?s1"
      using run_at_remove [OF sched_invD(1) [OF i1] g1(1) s2(3)] quiet_sets(3,4) [OF g1(1) s2(3)] run(2) by simp_all
    then have "run_at s4 = run_at ?s" "awake_at s4 = awake_at ?s" "hand_at s4 = hand_at ?s"
      using s4(4-6) sets_map [of ?s1 ?s] w(3) by auto
    moreover have "gidMap s4 g = Some ?th" using s4(7) ne s2(3) by simp
    ultimately show ?thesis using s4(3) l by (simp add: sys_inv_def in_state_def)
  next
    assume sc: "schedContext ?c ?s = (None, ?s)" and nq: "\<forall>q \<in> set (runQueue ?s). \<not> allows ?s q ?c"
    define s' where "s' = (upd_th g (\<lambda>t. t\<lparr>th_state := TH_OUT\<rparr>) ?s)\<lparr>outQueue := outQueue ?s @ [g]\<rparr>"
    note o = out_ok [OF inv gs run(2,3) g(3) run(4) nq s'_def]
    have bl: "bar_leave sched_callback ?c (b, s') = Some bs'" using st cur g o(2) sc run by (simp add: sched_leave_def s'_def Let_def)
    have "sys_inv bs'" by (rule bar_leave_sys [OF o(1) l w(1) run(1) w(5) [OF g(3)] w(4) o(3,4,5) bl])
    moreover have "\<not> in_state s' TH_RUNNING g" using g(1) by (simp add: s'_def in_state_def)
    ultimately show ?thesis using bar_leave_running [of ?c b s' "fst bs'" "snd bs'" g] bl by auto
  qed
qed

lemma sched_leave_ok:
  assumes "sys_inv (b, s)" "gidMap s (getGid pid tid) = Some th" "at_work b th" "sched_leave pid tid (th_cid th) (b, s) = Some bs'"
  shows "sys_inv bs'" "\<not> in_state (snd bs') TH_RUNNING (getGid pid tid)"
  using sleep_leave_ok [OF assms(1-3) _ refl assms(4)] plain_leave_ok [OF assms(1-3) _ refl assms(4)] by blast+

text \<open>The handoff is taken: the queued thread is in the hands of the operation.\<close>

lemma untarget_ok:
  assumes inv: "sched_inv {} {} s" and g: "gidMap s g = Some th" "handoffThread th = Some d" and s': "s' = upd_th g (\<lambda>t. t\<lparr>handoffThread := None\<rparr>) s"
  shows "sched_inv {} {d} s'" "\<not> target s' d" "same_lists s s'" "run_at s' = run_at s" "awake_at s' = awake_at s" "hand_at s' \<subseteq> hand_at s"
proof -
  note i = sched_invD [OF inv] note q = queues_okD [OF i(2)] let ?th = "th\<lparr>handoffThread := None\<rparr>"
  have m: "gidMap s' = (gidMap s)(g \<mapsto> ?th)" using g(1) by (simp add: s')
  show l: "same_lists s s'" by (simp add: s' same_lists_def)
  have lst: "runQueue s' = runQueue s" "outQueue s' = outQueue s" "sleepQueue s' = sleepQueue s" "freeList s' = freeList s" "curPhase s' = curPhase s"
    using l by (simp_all add: same_lists_def)
  have eq: "in_state s' = in_state s" "allows s' = allows s" "cid_of s' = cid_of s" "wake_key s' = wake_key s"
    using g(1) by (auto simp: in_state_def allows_def cid_of_def wake_key_def m fun_eq_iff)
  have uniq: "y = g" if "gidMap s y = Some t" "handoffThread t = Some d" for y t using i(3) g that unfolding hand_ok_def by blast
  have tg: "target s' x \<longleftrightarrow> target s x \<and> x \<noteq> d" for x
    unfolding target_def ex_thread [OF g(1) m] using g(2) uniq by auto
  show "\<not> target s' d" by (simp add: tg)
  have "ctx_ok {} s'" by (rule ctx_same [OF i(1) g(1) m]) (simp_all add: s')
  moreover have "queues_ok {d} s'"
  proof (rule queues_okI, unfold eq tg lst)
    fix y
    show "y \<in> set (runQueue s) \<or> target s y \<and> y \<noteq> d" if "y \<notin> {d}" "in_state s TH_QUEUED y" using q(10) [of y] that by auto
  qed (use q in auto)
  moreover have "hand_ok s'" by (rule hand_frame [OF i(3) eq(1,2)]) (use m in \<open>auto split: if_splits\<close>)
  moreover have "work_ok s'" using i(4) unfolding work_ok_def eq lst .
  moreover have "sleep_ok {d} s'"
    by (rule sleep_okI) (use sleep_okD [OF i(5)] m g(1) in \<open>auto simp: eq lst split: if_splits\<close>)
  moreover have "fake_ok s'" by (rule fake_upd [OF i(6) g(1) m _ l]) (use fake_okD(3) [OF i(6) g(1)] in auto)
  moreover have "misc_ok s'" by (rule misc_upd [OF i(7) l])
  ultimately show "sched_inv {} {d} s'" by (simp add: sched_inv_def)
  show "run_at s' = run_at s" "awake_at s' = awake_at s" using quiet_sets(4,6) [OF g(1) m] by simp_all
  show "hand_at s' \<subseteq> hand_at s" unfolding hand_at_def ex_thread [OF g(1) m] by auto
qed

lemma log_inv: "sched_inv F U (s\<lparr>coreLog := x\<rparr>) = sched_inv F U s"
proof -
  let ?s = "s\<lparr>coreLog := x\<rparr>"
  note r = reads_map [of ?s s, simplified]
  have "queues_ok U ?s = queues_ok U s" "work_ok ?s = work_ok s" "sleep_ok U ?s = sleep_ok U s"
    by (simp_all add: queues_ok_def work_ok_def sleep_ok_def r)
  then show ?thesis using same_map_inv [of ?s s] by (simp add: sched_inv_def)
qed

lemma sync_handoff_ok:
  assumes sys: "sys_inv (b, s)" and g: "gidMap s g = Some th" "th_state th = TH_RUNNING"
  shows "\<exists>bs'. sync_handoff g (b, s) = Some bs' \<and> sys_inv bs'"
proof (cases "handoffThread th")
  case None
  then show ?thesis using sys g by (simp add: sync_handoff_def)
next
  case (Some d)
  have inv: "sched_inv {} {} s" and l: "bar_link b (run_at s) (awake_at s) (hand_at s)" using sys by (simp_all add: sys_inv_def)
  note i = sched_invD [OF inv] let ?c = "th_cid th" let ?th = "th\<lparr>handoffThread := None\<rparr>" let ?th1 = "?th\<lparr>th_state := TH_QUEUED\<rparr>"
  define s0 where "s0 = upd_th g (\<lambda>t. t\<lparr>handoffThread := None\<rparr>) s"
  note u = untarget_ok [OF inv g(1) Some s0_def]
  have g0: "gidMap s0 g = Some ?th" using g(1) by (simp add: s0_def)
  have no: "no_owner g s" using owner_state [OF i(2) g(1)] g(2) by (auto simp: no_owner_def)
  have q: "\<not> markedForSleep th" "fakeLeave th = None" using sleep_okD(4) [OF i(5) g(1)] fake_okD(3) [OF i(6) g(1)] Some by (metis option.distinct(1))+
  obtain td where d: "gidMap s d = Some td" "th_state td = TH_QUEUED" "th_mask td ! ?c" "target s d"
  proof -
    have "in_state s TH_QUEUED d" "allows s d ?c" "target s d" using i(3) g(1) Some unfolding hand_ok_def target_def by blast+
    then show ?thesis using that by (auto simp: in_state_def allows_def)
  qed
  have ne: "d \<noteq> g" using d(1,2) g by auto
  have dr: "d \<notin> set (runQueue s)" using queues_okD(5) [OF i(2), of d] d(4) by blast
  obtain s1 where s1: "deschedule g ?c TH_QUEUED s0 = Some s1" "sched_inv {?c} {g, d} s1" "gidMap s1 = (gidMap s0)(g \<mapsto> ?th1)" "same_lists s0 s1"
    using deschedule_ok [OF u(1) g0, of TH_QUEUED] no q g(2) u(3) by (auto simp: no_owner_def same_lists_def)
  have tg1: "target s1 = target s0" by (rule one_thread(2) [OF g0 s1(3)]) simp_all
  have d1: "gidMap s1 d = Some td" "d \<notin> set (runQueue s1)" "\<not> target s1 d"
    using d(1) ne dr u(2,3) s1(3,4) tg1 by (simp_all add: s0_def same_lists_def)
  have fw: "th_futexWord td = 1" by (rule queued_awake [OF inv d(1,2)]) simp
  from install_ok [OF s1(2) d1(1) d(2) d1(2,3) fw insertI1 d(3), of "CoreJoin ?c"]
  obtain s2 s3 where s3: "schedule d ?c s1 = Some s2" "wakeup d False s2 = Some (s3\<lparr>coreLog := coreLog s2\<rparr>)" "sched_inv ({?c} - {?c}) ({g, d} - {d}) s3"
      "same_lists s1 s3" "\<forall>y. y \<noteq> d \<longrightarrow> gidMap s3 y = gidMap s1 y" "run_at s3 = insert ?c (run_at s1)" "awake_at s3 = awake_at s1" "hand_at s3 = hand_at s1" "target s3 = target s1"
    by (elim exE conjE)
  let ?s3 = "s3\<lparr>coreLog := coreLog s2\<rparr>"
  have "sched_inv {} {g} s3" using s3(3) ne by (simp add: insert_Diff_if)
  then have i3: "sched_inv {} {g} ?s3" by (simp only: log_inv)
  have g3: "gidMap ?s3 g = Some ?th1" using s3(5) ne s1(3) by simp
  have no3: "no_owner g ?s3" using no u(3) s1(4) s3(4) by (simp add: no_owner_def same_lists_def)
  have "?c \<in> run_at s" using g by (auto simp: run_at_def)
  then have "run_at ?s3 = run_at s" "awake_at ?s3 = awake_at s" "hand_at ?s3 = hand_at s0"
    using s3(6-8) sets_map [of ?s3 s3] run_at_remove [OF sched_invD(1) [OF u(1)] g0 s1(3)] quiet_sets(3,4) [OF g0 s1(3)] u(4,5) g(2) by auto
  then have l3: "bar_link b (run_at ?s3) (awake_at ?s3) (hand_at ?s3)" using link_less [OF l subset_refl u(6)] by simp
  have "\<not> target s g" using hand_facts(2) [OF i(3) g(1)] g(2) by simp
  then have "\<not> target s0 g" using Some ex_thread(1) [OF g(1), of s0 ?th "\<lambda>t. handoffThread t = Some g"] by (auto simp: target_def s0_def)
  then have "\<not> target ?s3 g" using tg1 s3(9) reads_map(2) [of ?s3 s3] by simp
  then have "\<exists>bs'. take_context g (b, ?s3) = Some bs' \<and> sys_inv bs'"
    using take_context_ok [OF i3 l3 subset_refl g3 _ no3] by auto
  then show ?thesis using g(1) Some s1(1) s3(1,2) by (simp add: sync_handoff_def s0_def Let_def)
qed

text \<open>Marks on a running thread: it is to sleep when it leaves, or it pretends to leave.\<close>

lemma mark_frame:
  assumes inv: "sched_inv {} {} s" and g: "gidMap s g = Some th" "th_state th = TH_RUNNING" "handoffThread th = None"
    and m: "gidMap s' = (gidMap s)(g \<mapsto> th')"
    and k: "th_mask th' = th_mask th" "th_state th' = th_state th" "th_cid th' = th_cid th" "handoffThread th' = None"
    and l: "runQueue s' = runQueue s" "outQueue s' = outQueue s" "sleepQueue s' = sleepQueue s" "freeList s' = freeList s" "curPhase s' = curPhase s"
      "contexts s' = contexts s" "scheduledThreads s' = scheduledThreads s" "numPhases s' = numPhases s" "schedQuantum s' = schedQuantum s" "sc_rnd s' = sc_rnd s"
    and sl: "th_futexWord th' = 1 \<or> \<not> markedForSleep th'" "markedForSleep th' \<longrightarrow> curPhase s < wakeupPhase th'"
    and fk: "fake_ok s'"
  shows "sched_inv {} {} s'" "run_at s' = run_at s" "hand_at s' = hand_at s" "awake_at s' \<subseteq> insert (th_cid th) (awake_at s)"
proof -
  note i = sched_invD [OF inv]
  have eq: "in_state s' = in_state s" "allows s' = allows s" "cid_of s' = cid_of s" using g k by (auto simp: in_state_def allows_def cid_of_def m fun_eq_iff)
  have tg: "target s' = target s" unfolding target_def fun_eq_iff ex_thread [OF g(1) m] using g(3) k(4) by simp
  have "g \<notin> set (sleepQueue s)" using owner_state(3) [OF i(2) g(1)] g(2) by auto
  then have wk: "wake_key s' y = wake_key s y" if "y \<in> set (sleepQueue s)" for y using that by (auto simp: wake_key_def m)
  then have wm: "map (wake_key s') (sleepQueue s) = map (wake_key s) (sleepQueue s)" by simp
  have "ctx_ok {} s'" by (rule ctx_same [OF i(1) g(1) m]) (simp_all add: l k)
  moreover have "queues_ok {} s'" using i(2) unfolding queues_ok_def eq tg l .
  moreover have "hand_ok s'" by (rule hand_frame [OF i(3) eq(1,2)]) (use m k(4) in \<open>auto split: if_splits\<close>)
  moreover have "work_ok s'" using i(4) unfolding work_ok_def eq l .
  moreover have "sleep_ok {} s'"
  proof (rule sleep_okI, unfold l wm)
    fix y t assume y: "gidMap s' y = Some t"
    show "th_state t = TH_QUEUED \<and> y \<notin> {} \<or> th_state t = TH_SLEEPING \<or> markedForSleep t \<Longrightarrow> th_futexWord t = 1"
      using sleep_okD(3) [OF i(5), of y t] y m k g sl(1) by (auto split: if_splits)
    show "markedForSleep t \<Longrightarrow> th_state t = TH_RUNNING \<and> handoffThread t = None \<and> curPhase s < wakeupPhase t"
      using sleep_okD(4) [OF i(5), of y t] y m k g sl(2) by (auto split: if_splits)
  qed (use sleep_okD(1,2) [OF i(5)] wk in auto)
  moreover have "misc_ok s'" using i(7) by (simp add: misc_ok_def l)
  ultimately show "sched_inv {} {} s'" using fk by (simp add: sched_inv_def)
  show "run_at s' = run_at s" "hand_at s' = hand_at s" using quiet_sets(3,6) [OF g(1) m] k g(3) by simp_all
  show "awake_at s' \<subseteq> insert (th_cid th) (awake_at s)" unfolding awake_at_def ex_thread [OF g(1) m] using k(3) by auto
qed

lemma mark_sys:
  assumes sys: "sys_inv (b, s)" and g: "gidMap s g = Some th" "at_work b th"
    and s': "sched_inv {} {} s'" "run_at s' = run_at s" "hand_at s' = hand_at s" "awake_at s' \<subseteq> insert (th_cid th) (awake_at s)"
  shows "sys_inv (b, s')"
proof -
  have inv: "sched_inv {} {} s" and l: "bar_link b (run_at s) (awake_at s) (hand_at s)" using sys by (simp_all add: sys_inv_def)
  note w = at_work_sets [OF inv g] note d = bar_linkD [OF l]
  have "bar_link b (run_at s) (insert (th_cid th) (awake_at s)) (hand_at s)"
    using l w(3) g(2) unfolding bar_link_def at_work_def by auto
  then show ?thesis using s' link_less by (simp add: sys_inv_def)
qed

lemma markForSleep_ok:
  assumes sys: "sys_inv (b, s)" and g: "gidMap s (getGid pid tid) = Some th" "at_work b th" "\<not> markedForSleep th" "curPhase s < phase"
  shows "\<exists>s'. markForSleep pid tid phase s = Some s' \<and> sys_inv (b, s')"
proof -
  let ?g = "getGid pid tid" let ?th = "th\<lparr>markedForSleep := True, wakeupPhase := phase, th_futexWord := 1\<rparr>"
  have inv: "sched_inv {} {} s" using sys by (simp add: sys_inv_def)
  have w: "th_state th = TH_RUNNING" "handoffThread th = None" "fakeLeave th = None" using g(2) by (simp_all add: at_work_def)
  define s' where "s' = upd_th ?g (\<lambda>t. t\<lparr>markedForSleep := True, wakeupPhase := phase, th_futexWord := 1\<rparr>) s"
  have m: "gidMap s' = (gidMap s)(?g \<mapsto> ?th)" and l: "same_lists s s'" using g(1) by (simp_all add: s'_def same_lists_def)
  have "fake_ok s'" by (rule fake_upd [OF sched_invD(6) [OF inv] g(1) m _ l]) (use w in simp_all)
  note f = mark_frame [OF inv g(1) w(1,2) m _ _ _ _ _ _ _ _ _ _ _ _ _ _ _ _ this]
  have "sys_inv (b, s')" by (rule mark_sys [OF sys g(1,2)]; rule f) (use w(2) g(4) in \<open>simp_all add: s'_def\<close>)
  then show ?thesis using g(1,3) by (simp add: markForSleep_def s'_def)
qed

lemma fake_leave_ok:
  assumes sys: "sys_inv (b, s)" and g: "gidMap s g = Some th" "at_work b th" "\<not> markedForSleep th"
  shows "g \<notin> set (fakeLeaves s)" "sys_inv (b, upd_th g (\<lambda>t. t\<lparr>fakeLeave := Some pc\<rparr>) (s\<lparr>fakeLeaves := fakeLeaves s @ [g]\<rparr>))" (is "sys_inv (b, ?s)")
proof -
  have inv: "sched_inv {} {} s" using sys by (simp add: sys_inv_def)
  note i = sched_invD [OF inv]
  have w: "th_state th = TH_RUNNING" "handoffThread th = None" "fakeLeave th = None" using g(2) by (simp_all add: at_work_def)
  show nf: "g \<notin> set (fakeLeaves s)" using fake_okD(2) [OF i(6), of g] g(1) w(3) by simp
  define s' where "s' = ?s"
  have m: "gidMap s' = (gidMap s)(g \<mapsto> th\<lparr>fakeLeave := Some pc\<rparr>)" using g(1) by (simp add: s'_def)
  have fl: "fakeLeaves s' = fakeLeaves s @ [g]" by (simp add: s'_def)
  have "fake_ok s'" by (rule fake_okI) (use fake_okD [OF i(6)] m nf w g(3) in \<open>auto simp: fl split: if_splits\<close>)
  note f = mark_frame [OF inv g(1) w(1,2) m _ _ _ _ _ _ _ _ _ _ _ _ _ _ _ _ this]
  have "sys_inv (b, s')" by (rule mark_sys [OF sys g(1,2)]; rule f) (use w(2) g(3) in \<open>simp_all add: s'_def\<close>)
  then show "sys_inv (b, ?s)" by (simp add: s'_def)
qed

lemma syscallLeave_ok:
  assumes sys: "sys_inv (b, s)" and g: "gidMap s (getGid pid tid) = Some th" "at_work b th" and st: "syscallLeave pid tid (th_cid th) pc (b, s) = Some bs'"
  shows "sys_inv bs'"
proof -
  let ?g = "getGid pid tid"
  have inv: "sched_inv {} {} s" using sys by (simp add: sys_inv_def)
  note w = at_work_sets [OF inv g]
  show ?thesis
  proof (cases "pc \<in> blockingSyscalls s (unat pid) \<or> markedForSleep th")
    case True
    then have "sched_leave pid tid (th_cid th) (b, s) = Some bs'"
      using st w(2) g(1) by (auto simp: syscallLeave_def Let_def abort_simps split: if_splits)
    then show ?thesis by (rule sched_leave_ok(1) [OF sys g])
  next
    case False
    then have "bs' = (b, upd_th ?g (\<lambda>t. t\<lparr>fakeLeave := Some pc\<rparr>) (s\<lparr>fakeLeaves := fakeLeaves s @ [?g]\<rparr>))"
      using st w(2) g(1) by (auto simp: syscallLeave_def Let_def abort_simps split: if_splits)
    then show ?thesis using fake_leave_ok(2) [OF sys g] False by simp
  qed
qed

lemma notifySleepEnd_ok:
  assumes sys: "sys_inv (b, s)" and g: "gidMap s (getGid pid tid) = Some th" "th_state th = TH_SLEEPING \<or> th_state th = TH_BLOCKED"
  shows "\<exists>s'. notifySleepEnd pid tid s = Some s' \<and> sys_inv (b, s') \<and> in_state s' TH_BLOCKED (getGid pid tid)"
proof -
  let ?g = "getGid pid tid" let ?th = "th\<lparr>th_state := TH_BLOCKED\<rparr>"
  have inv: "sched_inv {} {} s" using sys by (simp add: sys_inv_def)
  have nm: "\<not> markedForSleep th" using quiet_state(2) [OF inv g(1)] g(2) by auto
  show ?thesis
  proof (cases "th_state th = TH_BLOCKED")
    case True
    then show ?thesis using sys g(1) nm by (simp add: notifySleepEnd_def in_state_def)
  next
    case False
    then have st: "th_state th = TH_SLEEPING" using g(2) by simp
    have inq: "?g \<in> set (sleepQueue s)" using queues_okD(9) [OF sched_invD(2) [OF inv]] g(1) st by (simp add: in_state_def)
    define s1 where "s1 = s\<lparr>sleepQueue := remove1 ?g (sleepQueue s), gidMap := (gidMap s)(?g \<mapsto> ?th)\<rparr>"
    note u = unsleep_ok [OF inv g(1) inq, of ?th, simplified, OF s1_def]
    have "sys_inv (b, s1)" using u(1,2) sys by (simp add: sys_inv_def same_sets_def)
    moreover have "notifySleepEnd pid tid s = Some s1" "in_state s1 TH_BLOCKED ?g"
      using g(1) st nm inq by (simp_all add: notifySleepEnd_def list_remove_def upd_th_def s1_def Let_def in_state_def)
    ultimately show ?thesis by blast
  qed
qed

text \<open>Threads come and go.\<close>

lemma sleep_frame:
  assumes "sleep_ok U s" "sleepQueue s' = sleepQueue s" "curPhase s' = curPhase s"
    and wk: "\<And>y. y \<in> set (sleepQueue s) \<Longrightarrow> wake_key s' y = wake_key s y"
    and m: "\<And>y t. gidMap s' y = Some t \<Longrightarrow> y \<notin> U \<and> gidMap s y = Some t \<or> \<not> markedForSleep t \<and> th_state t = TH_STARTED"
  shows "sleep_ok {} s'"
proof (rule sleep_okI, unfold assms(2,3))
  have "map (wake_key s') (sleepQueue s) = map (wake_key s) (sleepQueue s)" using wk by simp
  then show "sorted (map (wake_key s') (sleepQueue s))" using sleep_okD(1) [OF assms(1)] by (simp only:)
  show "curPhase s < wake_key s' y" if "y \<in> set (sleepQueue s)" for y using sleep_okD(2) [OF assms(1) that] wk [OF that] by simp
  fix y t assume y: "gidMap s' y = Some t"
  show "th_state t = TH_QUEUED \<and> y \<notin> {} \<or> th_state t = TH_SLEEPING \<or> markedForSleep t \<Longrightarrow> th_futexWord t = 1"
    using sleep_okD(3) [OF assms(1), of y t] m [OF y] by auto
  show "markedForSleep t \<Longrightarrow> th_state t = TH_RUNNING \<and> handoffThread t = None \<and> curPhase s < wakeupPhase t"
    using sleep_okD(4) [OF assms(1), of y t] m [OF y] by blast
qed

lemma sched_start_ok:
  assumes sys: "sys_inv (b, s)" and st: "sched_start junk pid tid msk s = Some s'"
  shows "sys_inv (b, s')"
proof -
  let ?g = "getGid pid tid" let ?th = "ThreadInfo_new junk msk"
  have inv: "sched_inv {} {} s" and bl: "bar_link b (run_at s) (awake_at s) (hand_at s)" using sys by (simp_all add: sys_inv_def)
  note i = sched_invD [OF inv] note k = ctx_okD [OF i(1)] note q = queues_okD [OF i(2)]
  have new: "gidMap s ?g = None" "length msk = length (contexts s)" "count_list msk True \<noteq> 0" and s': "s' = s\<lparr>gidMap := (gidMap s)(?g \<mapsto> ?th)\<rparr>"
    using st by (auto simp: sched_start_def Let_def abort_simps split: if_splits)
  have tru: "True \<in> set msk" using new(3) count_list_0_iff by metis
  have th: "th_state ?th = TH_STARTED" "th_cid ?th = 0" "handoffThread ?th = None" "\<not> markedForSleep ?th" "fakeLeave ?th = None" "th_mask ?th = msk"
    by (simp_all add: ThreadInfo_new_def)
  have old: "gidMap s' y = Some t \<longleftrightarrow> (y = ?g \<and> t = ?th \<or> gidMap s y = Some t)" for y t using new(1) by (auto simp: s')
  have ist: "in_state s' x y \<longleftrightarrow> (y = ?g \<and> x = TH_STARTED \<or> in_state s x y)" for x y using th(1) by (auto simp: in_state_def old)
  have tg: "target s' = target s" using th(3) by (auto simp: target_def old fun_eq_iff)
  have same: "wake_key s' y = wake_key s y" "cid_of s' y = cid_of s y" "allows s' y = allows s y" if "in_state s x y" for x y
    using that new(1) by (auto simp: wake_key_def cid_of_def allows_def in_state_def s' fun_eq_iff)
  have l: "runQueue s' = runQueue s" "outQueue s' = outQueue s" "sleepQueue s' = sleepQueue s" "freeList s' = freeList s" "curPhase s' = curPhase s"
    "contexts s' = contexts s" "scheduledThreads s' = scheduledThreads s" "fakeLeaves s' = fakeLeaves s" by (simp_all add: s')
  have "ctx_ok {} s'"
  proof (rule ctx_okI, unfold l)
    fix y t assume "gidMap s' y = Some t"
    then show "thread_ok s' y t" using k(1) [of y t] new(2) tru th i(7) unfolding old by (auto simp: thread_ok_def l misc_ok_def)
  next
    fix c y assume "c < length (contexts s)" "curThread (contexts s ! c) = Some y"
    from k(2) [OF this] show "\<exists>t. gidMap s' y = Some t \<and> th_cid t = c \<and> (th_state t = TH_RUNNING \<or> th_state t = TH_OUT)" unfolding old by blast
  qed (use k in auto)
  moreover have "queues_ok {} s'" using i(2) unfolding queues_ok_def l tg ist by simp
  moreover have "hand_ok s'"
  proof -
    have hh: "gidMap s y = Some t" if "gidMap s' y = Some t" "handoffThread t = Some d" for y t d using that th(3) by (auto simp: old)
    have "th_state t = TH_RUNNING \<and> in_state s' TH_QUEUED d \<and> allows s' d (th_cid t)" if "gidMap s' y = Some t" "handoffThread t = Some d" for y t d
      using i(3) hh [OF that] that(2) same(3) [of TH_QUEUED d] unfolding hand_ok_def ist by metis
    then show ?thesis using i(3) hh unfolding hand_ok_def by metis
  qed
  moreover have "work_ok s'" using i(4) same(2,3) q(4,6) unfolding work_ok_def l by metis
  moreover have "sleep_ok {} s'"
  proof (rule sleep_frame [OF i(5) l(3,5)])
    show "wake_key s' y = wake_key s y" if "y \<in> set (sleepQueue s)" for y using same(1) [OF q(7) [OF that]] .
    show "y \<notin> {} \<and> gidMap s y = Some t \<or> \<not> markedForSleep t \<and> th_state t = TH_STARTED" if "gidMap s' y = Some t" for y t
      using that th unfolding old by blast
  qed
  moreover have "fake_ok s'" by (rule fake_okI) (use fake_okD [OF i(6)] old th in \<open>auto simp: l\<close>)
  moreover have "misc_ok s'" using i(7) by (simp add: misc_ok_def s')
  ultimately have "sched_inv {} {} s'" by (simp add: sched_inv_def)
  moreover have "run_at s' = run_at s" "awake_at s' = awake_at s" "hand_at s' = hand_at s"
    using th by (auto simp: run_at_def awake_at_def hand_at_def old)
  ultimately show ?thesis using bl by (simp add: sys_inv_def)
qed

lemma forget_ok:
  assumes inv: "sched_inv {} {g} s" and l: "bar_link b (run_at s) (awake_at s) (hand_at s)"
    and g: "gidMap s g = Some th" "th_state th \<noteq> TH_RUNNING" "th_state th \<noteq> TH_OUT" "no_owner g s" "\<not> target s g"
  shows "sys_inv (b, s\<lparr>gidMap := (gidMap s)(g := None)\<rparr>)"
proof -
  define s' where "s' = s\<lparr>gidMap := (gidMap s)(g := None)\<rparr>"
  note i = sched_invD [OF inv] note k = ctx_okD [OF i(1)] note q = queues_okD [OF i(2)] note qt = quiet_state [OF inv g(1,2)]
  have old: "gidMap s' y = Some t \<longleftrightarrow> y \<noteq> g \<and> gidMap s y = Some t" for y t by (auto simp: s'_def)
  have ist: "in_state s' x y \<longleftrightarrow> y \<noteq> g \<and> in_state s x y" for x y by (auto simp: in_state_def old)
  have drop: "(\<exists>y t. gidMap s' y = Some t \<and> P t) \<longleftrightarrow> (\<exists>y t. gidMap s y = Some t \<and> P t)" if "\<not> P th" for P
    using g(1) that unfolding old by (metis option.inject)
  have tg: "target s' = target s" unfolding target_def fun_eq_iff using qt(1) by (intro allI drop) simp
  have same: "wake_key s' y = wake_key s y" "cid_of s' y = cid_of s y" "allows s' y = allows s y" if "y \<noteq> g" for y
    using that by (simp_all add: wake_key_def cid_of_def allows_def s'_def fun_eq_iff)
  have ls: "runQueue s' = runQueue s" "outQueue s' = outQueue s" "sleepQueue s' = sleepQueue s" "freeList s' = freeList s" "curPhase s' = curPhase s"
    "contexts s' = contexts s" "scheduledThreads s' = scheduledThreads s" "fakeLeaves s' = fakeLeaves s" by (simp_all add: s'_def)
  have no: "y \<noteq> g" if "y \<in> set (runQueue s) \<or> y \<in> set (outQueue s) \<or> y \<in> set (sleepQueue s)" for y using that g(4) by (auto simp: no_owner_def)
  have "ctx_ok {} s'"
  proof (rule ctx_okI, unfold ls)
    fix y t assume "gidMap s' y = Some t"
    then show "thread_ok s' y t" using k(1) [of y t] unfolding old by (simp add: thread_ok_def ls)
  next
    fix c y assume c: "c < length (contexts s)" "curThread (contexts s ! c) = Some y"
    obtain t where t: "gidMap s y = Some t" "th_cid t = c" "th_state t = TH_RUNNING \<or> th_state t = TH_OUT" using k(2) [OF c] by blast
    then have "y \<noteq> g" using g(1-3) by auto
    then show "\<exists>t. gidMap s' y = Some t \<and> th_cid t = c \<and> (th_state t = TH_RUNNING \<or> th_state t = TH_OUT)" using t old by blast
  qed (use k in auto)
  moreover have "queues_ok {} s'"
  proof (rule queues_okI, unfold ls tg ist)
    fix y
    show "y \<in> set (runQueue s) \<Longrightarrow> y \<noteq> g \<and> in_state s TH_QUEUED y" "y \<in> set (outQueue s) \<Longrightarrow> y \<noteq> g \<and> in_state s TH_OUT y"
      "y \<in> set (sleepQueue s) \<Longrightarrow> y \<noteq> g \<and> in_state s TH_SLEEPING y" "y \<in> set (runQueue s) \<Longrightarrow> \<not> target s y"
      using q(4-7) [of y] no [of y] by blast+
    show "y \<noteq> g \<and> in_state s TH_OUT y \<Longrightarrow> y \<in> set (outQueue s)" "y \<noteq> g \<and> in_state s TH_SLEEPING y \<Longrightarrow> y \<in> set (sleepQueue s)"
      "y \<noteq> g \<and> in_state s TH_QUEUED y \<Longrightarrow> y \<in> set (runQueue s) \<or> target s y" using q(8-10) [of y] by blast+
  qed (rule q)+
  moreover have "hand_ok s'"
  proof -
    have "d \<noteq> g" if "gidMap s y = Some t" "handoffThread t = Some d" for y t d using that g(5) by (auto simp: target_def)
    then have "th_state t = TH_RUNNING \<and> in_state s' TH_QUEUED d \<and> allows s' d (th_cid t)" if "gidMap s' y = Some t" "handoffThread t = Some d" for y t d
      using i(3) that same(3) [of d] unfolding hand_ok_def ist old by metis
    then show ?thesis using i(3) unfolding hand_ok_def old by metis
  qed
  moreover have "work_ok s'" using i(4) same(2,3) no unfolding work_ok_def ls by metis
  moreover have "sleep_ok {} s'"
  proof (rule sleep_frame [OF i(5) ls(3,5)])
    show "wake_key s' y = wake_key s y" if "y \<in> set (sleepQueue s)" for y using same(1) no that by blast
    show "y \<notin> {g} \<and> gidMap s y = Some t \<or> \<not> markedForSleep t \<and> th_state t = TH_STARTED" if "gidMap s' y = Some t" for y t
      using that unfolding old by blast
  qed
  moreover have "fake_ok s'" by (rule fake_okI) (use fake_okD [OF i(6)] old qt(3) g(1) in \<open>auto simp: ls\<close>)
  moreover have "misc_ok s'" using i(7) by (simp add: misc_ok_def s'_def)
  ultimately have "sched_inv {} {} s'" by (simp add: sched_inv_def)
  moreover have "run_at s' = run_at s" "awake_at s' = awake_at s" "hand_at s' = hand_at s"
    unfolding run_at_def awake_at_def hand_at_def using qt g(2) by (intro Collect_cong drop, simp)+
  ultimately show ?thesis using l by (simp add: sys_inv_def s'_def)
qed

lemma fake_then_leave:
  assumes sys: "sys_inv (b, s)" and g: "gidMap s (getGid pid tid) = Some th" "fakeLeave th \<noteq> None"
    and st: "finishFakeLeave (getGid pid tid) s = Some s1" "sched_leave pid tid (th_cid th) (b, s1) = Some bs'"
  shows "sys_inv bs'" "\<not> in_state (snd bs') TH_RUNNING (getGid pid tid)"
proof -
  let ?g = "getGid pid tid" let ?th = "th\<lparr>fakeLeave := None\<rparr>"
  have inv: "sched_inv {} {} s" and l: "bar_link b (run_at s) (awake_at s) (hand_at s)" using sys by (simp_all add: sys_inv_def)
  have s1: "sched_inv {} {} s1" "gidMap s1 = (gidMap s)(?g \<mapsto> ?th)" "run_at s1 = run_at s" "hand_at s1 = hand_at s" "awake_at s1 = awake_at s - {th_cid th}"
    using finishFakeLeave_ok [OF inv g] st(1) by auto
  have "th_cid th \<in> awake_at s" using g unfolding awake_at_def by blast
  then have "state_of b (th_cid th) = RUNNING" by (rule bar_linkD(5) [OF l])
  then have w: "at_work b ?th" using fake_okD(3) [OF sched_invD(6) [OF inv] g] by (simp add: at_work_def)
  have "sys_inv (b, s1)" unfolding sys_inv_def fst_conv snd_conv s1(3-5) by (intro conjI s1(1) link_less [OF l]) auto
  moreover have "gidMap s1 ?g = Some ?th" by (simp add: s1(2))
  ultimately show "sys_inv bs'" "\<not> in_state (snd bs') TH_RUNNING ?g" using sched_leave_ok [OF _ _ w, of s1 pid tid bs'] st(2) by simp_all
qed

lemma finish_tail:
  assumes sys: "sys_inv (b, s)" and g: "gidMap s g = Some th" "th_state th = TH_STARTED \<or> th_state th = TH_OUT \<or> th_state th = TH_BLOCKED \<or> th_state th = TH_QUEUED"
    and st: "finish_release g th s = Some s3"
  shows "sys_inv (b, s3\<lparr>gidMap := (gidMap s3)(g := None)\<rparr>)"
proof -
  have inv: "sched_inv {} {} s" and l: "bar_link b (run_at s) (awake_at s) (hand_at s)" using sys by (simp_all add: sys_inv_def)
  note i = sched_invD [OF inv] note own = owner_state [OF i(2) g(1)] note d = queues_okD [OF i(2)]
  consider "th_state th = TH_QUEUED" | "th_state th = TH_STARTED \<or> th_state th = TH_BLOCKED" | "th_state th = TH_OUT" using g(2) by blast
  then show ?thesis
  proof cases
    case 1
    then have r: "g \<in> set (runQueue s)" and s3: "s3 = s\<lparr>runQueue := remove1 g (runQueue s)\<rparr>"
      using st by (auto simp: finish_release_def list_remove_def split: if_splits)
    have "no_owner g s3" using own 1 d(1) by (auto simp: s3 no_owner_def set_remove1_eq)
    moreover have "\<not> target s3 g" using d(5) [OF r] reads_map(2) [of s3 s] by (simp add: s3)
    ultimately show ?thesis
      using forget_ok [OF run_remove [OF inv r, folded s3], of b th] 1 g(1) l sets_map [of s3 s] by (simp add: s3)
  next
    case 2
    note idle = idle_thread [OF inv g(1) 2]
    have "s3 = s" using st 2 idle(1) by (auto simp: finish_release_def)
    then show ?thesis using forget_ok [OF inv_more [OF inv] l g(1) _ _ idle] 2 by auto
  next
    case 3
    have r: "g \<in> set (outQueue s)" using d(8) [of g] g(1) 3 by (simp add: in_state_def)
    obtain s1 where s1: "deschedule g (th_cid th) TH_BLOCKED (s\<lparr>outQueue := remove1 g (outQueue s)\<rparr>) = Some s1" "s3 = s1\<lparr>freeList := freeList s1 @ [th_cid th]\<rparr>"
      using st 3 r by (auto simp: finish_release_def no_owner_def list_remove_def bind_Some_conv abort_simps split: if_splits)
    have cg: "cid_of s g = th_cid th" by (simp add: cid_of_def g(1))
    have k: "sched_inv {th_cid th} {} s1" "runQueue s1 = runQueue s" "target s1 = target s" "same_sets s s1" "\<And>y. y \<noteq> g \<Longrightarrow> gidMap s1 y = gidMap s y"
      using steal_ok [OF inv r] s1(1) by (auto simp: cg)
    have g1: "gidMap s1 g = Some (th\<lparr>th_state := TH_BLOCKED\<rparr>)" using s1(1) g(1) by (auto simp: deschedule_def bind_Some_conv abort_simps Let_def split: if_splits)
    have "allows s1 q x = allows s q x" for q x using k(5) [of q] g1 g(1) by (cases "q = g") (simp_all add: allows_def)
    then have nq: "\<forall>q \<in> set (runQueue s1). \<not> allows s1 q (th_cid th)" using i(4) r cg k(2) unfolding work_ok_def by metis
    have i3: "sched_inv {} {} s3" using free_add(1) [OF k(1) _ nq] by (simp add: s1(2))
    have g3: "gidMap s3 g = Some (th\<lparr>th_state := TH_BLOCKED\<rparr>)" by (simp add: s1(2) g1)
    note idle = idle_thread [OF i3 g3]
    have "bar_link b (run_at s3) (awake_at s3) (hand_at s3)" using l k(4) sets_map [of s3 s1] by (simp add: s1(2) same_sets_def)
    then show ?thesis using forget_ok [OF inv_more [OF i3] _ g3] idle by simp
  qed
qed

lemma sched_finish_ok:
  assumes sys: "sys_inv (b, s)" and g: "gidMap s (getGid pid tid) = Some th" "th_state th = TH_RUNNING \<longrightarrow> fakeLeave th \<noteq> None \<or> at_work b th"
    and st: "sched_finish pid tid (b, s) = Some bs'"
  shows "sys_inv bs'"
proof -
  let ?g = "getGid pid tid"
  have inv: "sched_inv {} {} s" using sys by (simp add: sys_inv_def)
  obtain bs1 th1 bs2 th2 s3 where
      f1: "(if fakeLeave th \<noteq> None then do { s1 \<leftarrow> finishFakeLeave ?g s; sched_leave pid tid (th_cid th) (b, s1) } else Some (b, s)) = Some bs1"
    and f2: "gidMap (snd bs1) ?g = Some th1" "(if th_state th1 = TH_RUNNING then sched_leave pid tid (th_cid th1) bs1 else Some bs1) = Some bs2"
    and f3: "gidMap (snd bs2) ?g = Some th2" "th_state th2 = TH_STARTED \<or> th_state th2 = TH_OUT \<or> th_state th2 = TH_BLOCKED \<or> th_state th2 = TH_QUEUED"
    and f4: "finish_release ?g th2 (snd bs2) = Some s3" and e: "bs' = (fst bs2, s3\<lparr>gidMap := (gidMap s3)(?g := None)\<rparr>)"
    using st g(1) unfolding sched_finish_def Let_def bind_Some_conv assert_that_eq_Some fst_conv snd_conv by (elim exE conjE) auto
  have k1: "sys_inv bs1 \<and> (th_state th1 = TH_RUNNING \<longrightarrow> at_work (fst bs1) th1)"
  proof (cases "fakeLeave th = None")
    case True
    then have "bs1 = (b, s)" "th1 = th" using f1 f2(1) g(1) by auto
    then show ?thesis using sys g(2) True by simp
  next
    case False
    then obtain s1 where "finishFakeLeave ?g s = Some s1" "sched_leave pid tid (th_cid th) (b, s1) = Some bs1" using f1 by (auto simp: bind_Some_conv)
    from fake_then_leave [OF sys g(1) False this] show ?thesis using f2(1) by (auto simp: in_state_def)
  qed
  have "sys_inv bs2"
  proof (cases "th_state th1 = TH_RUNNING")
    case True
    then show ?thesis using sched_leave_ok(1) [of "fst bs1" "snd bs1" pid tid th1 bs2] k1 f2 by simp
  qed (use k1 f2(2) in simp)
  then show ?thesis using finish_tail [of "fst bs2" "snd bs2", OF _ f3 f4] by (simp add: e)
qed

text \<open>The watchdog.\<close>

lemma watchdog_tick_ok:
  assumes sys: "sys_inv (b, s)" and st: "watchdog_tick s = Some s'"
  shows "sys_inv (b, s')"
proof (cases "watchdog_idle s")
  case True
  have inv: "sched_inv {} {} s" and l: "bar_link b (run_at s) (awake_at s) (hand_at s)" using sys by (simp_all add: sys_inv_def)
  note i = sched_invD [OF inv] note d = bar_linkD [OF l]
  let ?C = "{c. c < length (contexts s) \<and> curThread (contexts s ! c) \<noteq> None}"
  have sub: "cid_of s ` set (outQueue s) \<subseteq> ?C"
  proof
    fix c assume "c \<in> cid_of s ` set (outQueue s)"
    then obtain g th where g: "g \<in> set (outQueue s)" "gidMap s g = Some th" "c = th_cid th" "th_state th = TH_OUT"
      using queues_okD(6) [OF i(2)] by (force simp: in_state_def cid_of_def)
    then show "c \<in> ?C" using ctx_okD(1) [OF i(1) g(2)] by (simp add: thread_ok_def)
  qed
  have "inj_on (cid_of s) (set (outQueue s))"
  proof (rule inj_onI)
    fix x y assume xy: "x \<in> set (outQueue s)" "y \<in> set (outQueue s)" "cid_of s x = cid_of s y"
    obtain t u where t: "gidMap s x = Some t" "th_state t = TH_OUT" "gidMap s y = Some u" "th_state u = TH_OUT"
      using queues_okD(6) [OF i(2) xy(1)] queues_okD(6) [OF i(2) xy(2)] by (auto simp: in_state_def)
    have "th_cid t = th_cid u" using xy(3) t(1,3) by (simp add: cid_of_def)
    then show "x = y" using one_per_context [OF i(1) t(3,1)] t(2,4) by blast
  qed
  then have "card (cid_of s ` set (outQueue s)) = length (outQueue s)" using queues_okD(2) [OF i(2)] by (simp add: card_image distinct_card)
  then have all: "cid_of s ` set (outQueue s) = ?C"
    using True sub ctx_okD(7) [OF i(1)] by (intro card_subset_eq) (simp_all add: watchdog_idle_def)
  have "run_at s = {}"
  proof (rule ccontr)
    assume "run_at s \<noteq> {}"
    then obtain g th where g: "gidMap s g = Some th" "th_state th = TH_RUNNING" by (auto simp: run_at_def)
    then have "th_cid th \<in> ?C" using ctx_okD(1) [OF i(1) g(1)] by (simp add: thread_ok_def)
    then obtain y where y: "y \<in> set (outQueue s)" "th_cid th = cid_of s y" using all by blast
    then obtain u where "gidMap s y = Some u" "th_state u = TH_OUT" using queues_okD(6) [OF i(2)] by (auto simp: in_state_def)
    then show False using one_per_context [OF i(1) g(1), of y u] g y(2) by (auto simp: cid_of_def)
  qed
  then have e: "awake_at s = {}" "hand_at s = {}" using d(3,4) by simp_all
  have "sched_callback s = Some s'" using st True by (simp add: watchdog_tick_def)
  note c = sched_callback_ok [OF inv e this]
  then have "run_at s' = {}" "awake_at s' = {}" "hand_at s' = {}" using \<open>run_at s = {}\<close> by auto
  then show ?thesis using c l \<open>run_at s = {}\<close> e by (simp add: sys_inv_def)
qed (use sys st in \<open>simp add: watchdog_tick_def\<close>)

lemma watchdog_leaves_ok:
  assumes "sys_inv bs" "gidMap (snd bs) g = Some th" "fakeLeave th \<noteq> None" "watchdog_leaves k pid pc g bs = Some bs'"
  shows "sys_inv bs'"
  using assms
proof (induction k arbitrary: g th bs)
  case (Suc k)
  obtain b s where bs: "bs = (b, s)" by fastforce
  obtain s1 bs2 where s: "finishFakeLeave g s = Some s1" "sched_leave pid (getTid g) (th_cid th) (b, s1) = Some bs2"
      and r: "(case fakeLeaves (snd bs2) of [] \<Rightarrow> Some bs2 | g' # _ \<Rightarrow> do {
          th' \<leftarrow> gidMap (snd bs2) g';
          if getPid g \<noteq> pid \<or> fakeLeave th' \<noteq> Some pc then Some bs2
          else if length (fakeLeaves (snd bs2)) > 8 then watchdog_leaves k pid pc g' bs2 else Some bs2 }) = Some bs'"
    using Suc.prems(2,4) unfolding bs by (auto simp: bind_Some_conv)
  have "g = getGid pid (getTid g)"
  proof -
    have "gidMap s1 g = Some (th\<lparr>fakeLeave := None\<rparr>)" "contexts s1 = contexts s"
      using s(1) Suc.prems(2) bs by (auto simp: finishFakeLeave_def bind_Some_conv abort_simps split: if_splits)
    moreover have "curThread (contexts s ! th_cid th) = Some g"
      using Suc.prems(1-3) bs fake_okD(3) [OF sched_invD(6)] ctx_okD(1) [OF sched_invD(1)] by (fastforce simp: sys_inv_def thread_ok_def)
    ultimately show ?thesis using s(2) by (auto simp: sched_leave_def abort_simps split: if_splits)
  qed
  then have sys2: "sys_inv bs2" using fake_then_leave(1) [of b s pid "getTid g" th s1 bs2] Suc.prems(1-3) s unfolding bs by simp
  show ?case
  proof (cases "fakeLeaves (snd bs2)")
    case Nil
    then show ?thesis using r sys2 by simp
  next
    case (Cons g' gs)
    then obtain th' where th': "gidMap (snd bs2) g' = Some th'" using r by (auto simp: bind_Some_conv)
    have "fakeLeave th' \<noteq> None" using sys2 fake_okD(2) [OF sched_invD(6), of "{}" "{}" "snd bs2" g'] Cons th' by (auto simp: sys_inv_def)
    then show ?thesis using r Cons th' Suc.IH [OF sys2 th'] sys2 by (auto split: if_splits)
  qed
qed simp

lemma black_inv: "sys_inv (b, s\<lparr>blockingSyscalls := f\<rparr>) = sys_inv (b, s)"
proof -
  let ?s = "s\<lparr>blockingSyscalls := f\<rparr>"
  note r = reads_map [of ?s s, simplified]
  have "queues_ok U ?s = queues_ok U s" "work_ok ?s = work_ok s" "sleep_ok U ?s = sleep_ok U s" for U
    by (simp_all add: queues_ok_def work_ok_def sleep_ok_def r)
  then show ?thesis using same_map_inv [of ?s s] sets_map [of ?s s] by (simp add: sched_inv_def sys_inv_def)
qed

lemma watchdog_unfake_ok:
  assumes sys: "sys_inv bs" and st: "watchdog_unfake bs = Some bs'"
  shows "sys_inv bs'"
proof (cases "fakeLeaves (snd bs)")
  case Nil
  then show ?thesis using sys st by (simp add: watchdog_unfake_def)
next
  case (Cons g gs)
  obtain b s where bs: "bs = (b, s)" by fastforce
  define s0 where "s0 pc = (if gs = [] then s\<lparr>blockingSyscalls := (blockingSyscalls s)(unat (getPid g) := insert pc (blockingSyscalls s (unat (getPid g))))\<rparr> else s)" for pc
  obtain th pc where th: "gidMap s g = Some th" "fakeLeave th = Some pc"
      and r: "watchdog_leaves (length (fakeLeaves s)) (getPid g) pc g (b, s0 pc) = Some bs'"
    using st Cons unfolding bs by (auto simp: watchdog_unfake_def Let_def bind_Some_conv s0_def simp del: watchdog_leaves.simps)
  have "sys_inv (b, s0 pc)" using sys unfolding bs by (simp add: black_inv s0_def)
  moreover have "gidMap (s0 pc) g = Some th" using th(1) by (simp add: s0_def)
  ultimately show ?thesis using watchdog_leaves_ok [of "(b, s0 pc)" g th, OF _ _ _ r] th(2) by simp
qed

subsection \<open>Reachable states\<close>

text \<open>The calls of the simulator, each with what holds of the calling thread: it runs and the barrier lets it run when it leaves,
  synchronises, marks itself or makes a system call; it is the thread that the barrier wakes when it ends \<^verbatim>\<open>sync\<close>.\<close>

inductive sched_step :: "sim \<Rightarrow> sim \<Rightarrow> bool" where
  step_start: "sched_start junk pid tid msk s = Some s' \<Longrightarrow> sched_step (b, s) (b, s')"
| step_join: "gidMap s (getGid pid tid) = Some th \<Longrightarrow> can_join th \<Longrightarrow> sched_join pid tid (b, s) = Some bs' \<Longrightarrow> sched_step (b, s) bs'"
| step_leave: "gidMap s (getGid pid tid) = Some th \<Longrightarrow> at_work b th \<Longrightarrow> sched_leave pid tid (th_cid th) (b, s) = Some bs' \<Longrightarrow> sched_step (b, s) bs'"
| step_sync: "gidMap s g = Some th \<Longrightarrow> at_work b th \<Longrightarrow> sched_sync (th_cid th) (b, s) = Some bs' \<Longrightarrow> sched_step (b, s) bs'"
| step_handoff: "gidMap s g = Some th \<Longrightarrow> th_state th = TH_RUNNING \<Longrightarrow> state_of b (th_cid th) = RUNNING \<Longrightarrow> sync_handoff g (b, s) = Some bs' \<Longrightarrow> sched_step (b, s) bs'"
| step_mark: "gidMap s (getGid pid tid) = Some th \<Longrightarrow> at_work b th \<Longrightarrow> curPhase s < phase \<Longrightarrow> markForSleep pid tid phase s = Some s' \<Longrightarrow> sched_step (b, s) (b, s')"
| step_sleep_end: "notifySleepEnd pid tid s = Some s' \<Longrightarrow> sched_step (b, s) (b, s')"
| step_finish: "gidMap s (getGid pid tid) = Some th \<Longrightarrow> th_state th = TH_RUNNING \<longrightarrow> fakeLeave th \<noteq> None \<or> at_work b th \<Longrightarrow>
     sched_finish pid tid (b, s) = Some bs' \<Longrightarrow> sched_step (b, s) bs'"
| step_syscall: "gidMap s (getGid pid tid) = Some th \<Longrightarrow> at_work b th \<Longrightarrow> syscallLeave pid tid (th_cid th) pc (b, s) = Some bs' \<Longrightarrow> sched_step (b, s) bs'"
| step_tick: "watchdog_tick s = Some s' \<Longrightarrow> sched_step (b, s) (b, s')"
| step_unfake: "watchdog_unfake (b, s) = Some bs' \<Longrightarrow> sched_step (b, s) bs'"

lemma sched_step_inv:
  assumes "sched_step bs bs'" "sys_inv bs"
  shows "sys_inv bs'"
  using assms
proof (cases rule: sched_step.cases)
  case (step_start junk pid tid msk s s' b)
  then show ?thesis using sched_start_ok assms(2) by blast
next
  case (step_join s pid tid th b)
  then show ?thesis using sched_join_ok assms(2) by fastforce
next
  case (step_leave s pid tid th b)
  then show ?thesis using sched_leave_ok(1) assms(2) by blast
next
  case (step_sync s g th b)
  then show ?thesis using sched_sync_ok assms(2) by blast
next
  case (step_handoff s g th b)
  then show ?thesis using sync_handoff_ok assms(2) by fastforce
next
  case (step_mark s pid tid th b phase s')
  then have "\<not> markedForSleep th" by (auto simp: markForSleep_def)
  then show ?thesis using markForSleep_ok [of b s pid tid th phase] step_mark assms(2) by auto
next
  case (step_sleep_end pid tid s s' b)
  then obtain th where "gidMap s (getGid pid tid) = Some th" "th_state th = TH_SLEEPING \<or> th_state th = TH_BLOCKED"
    by (auto simp: notifySleepEnd_def Let_def bind_Some_conv)
  then show ?thesis using notifySleepEnd_ok step_sleep_end assms(2) by fastforce
next
  case (step_finish s pid tid th b)
  then show ?thesis using sched_finish_ok assms(2) by blast
next
  case (step_syscall s pid tid th b pc)
  then show ?thesis using syscallLeave_ok assms(2) by blast
next
  case (step_tick s s' b)
  then show ?thesis using watchdog_tick_ok assms(2) by blast
next
  case (step_unfake b s)
  then show ?thesis using watchdog_unfake_ok assms(2) by blast
qed

definition sched_reachable :: "nat \<Rightarrow> nat \<Rightarrow> nat \<Rightarrow> sim \<Rightarrow> bool" where
  "sched_reachable numCores quantum parallel bs \<longleftrightarrow> (\<exists>junk. sched_step\<^sup>*\<^sup>* (Barrier_new junk parallel, Scheduler_new numCores quantum) bs)"

lemma Scheduler_new_inv:
  assumes "0 < n" "n \<le> MAX_THREADS" "0 < q" "0 < p"
  shows "sys_inv (Barrier_new junk p, Scheduler_new n q)"
proof -
  let ?s = "Scheduler_new n q" let ?b = "Barrier_new junk p"
  have z: "{c. c < n \<and> curThread (contexts ?s ! c) \<noteq> None} = {}" "{c. c < n \<and> curThread (contexts ?s ! c) = None} = {0..<n}"
    by (auto simp: Scheduler_new_def)
  have "ctx_ok {} ?s" using z by (auto simp: ctx_ok_def Scheduler_new_def)
  moreover have "queues_ok {} ?s" "hand_ok ?s" "work_ok ?s" "sleep_ok {} ?s" "fake_ok ?s" "misc_ok ?s"
    using assms mt_seed_wf by (auto simp: queues_ok_def hand_ok_def work_ok_def sleep_ok_def fake_ok_def misc_ok_def in_state_def Scheduler_new_def)
  moreover have "run_at ?s = {}" "awake_at ?s = {}" "hand_at ?s = {}" by (simp_all add: run_at_def awake_at_def hand_at_def Scheduler_new_def)
  moreover have "\<not> online ?b t" if "t < MAX_THREADS" for t using that by (simp add: online_def state_of_def Barrier_new_def)
  ultimately show ?thesis using Barrier_new_inv(1) [OF assms(4)] by (auto simp: sys_inv_def sched_inv_def bar_link_def)
qed

lemma reachable_sys:
  assumes "sched_reachable n q p bs" "0 < n" "n \<le> MAX_THREADS" "0 < q" "0 < p"
  shows "sys_inv bs"
proof -
  obtain junk where r: "sched_step\<^sup>*\<^sup>* (Barrier_new junk p, Scheduler_new n q) bs" using assms(1) by (auto simp: sched_reachable_def)
  from r show ?thesis
    by (induction rule: rtranclp_induct) (use Scheduler_new_inv [OF assms(2-5)] sched_step_inv in blast)+
qed

subsection \<open>Properties\<close>

text \<open>C29: In every state that the calls of the simulator reach, a thread that runs, or is out with its context still reserved, is the
  current thread of its own context, which its mask allows, so no context has two threads; the free list holds exactly the contexts
  without a thread; and the barrier counts in exactly the contexts whose thread runs.\<close>

theorem scheduler_placement:
  assumes "sched_reachable numCores quantum parallel (b, s)" "0 < numCores" "numCores \<le> MAX_THREADS" "0 < quantum" "0 < parallel"
  shows "(\<forall>g th. gidMap s g = Some th \<longrightarrow> th_state th = TH_RUNNING \<or> th_state th = TH_OUT \<longrightarrow>
        th_cid th < length (contexts s) \<and> curThread (contexts s ! th_cid th) = Some g \<and> th_mask th ! th_cid th)
    \<and> (\<forall>g g' th th'. gidMap s g = Some th \<longrightarrow> gidMap s g' = Some th' \<longrightarrow> th_state th = TH_RUNNING \<longrightarrow> th_state th' = TH_RUNNING \<longrightarrow>
        th_cid th = th_cid th' \<longrightarrow> g = g')
    \<and> distinct (freeList s) \<and> set (freeList s) = {c. c < length (contexts s) \<and> curThread (contexts s ! c) = None}
    \<and> (\<forall>c < MAX_THREADS. state_of b c = RUNNING \<or> state_of b c = WAITING \<longleftrightarrow> (\<exists>g th. gidMap s g = Some th \<and> th_state th = TH_RUNNING \<and> th_cid th = c))"
proof -
  have sys: "sys_inv (b, s)" by (rule reachable_sys [OF assms])
  then have inv: "sched_inv {} {} s" and l: "bar_link b (run_at s) (awake_at s) (hand_at s)" by (simp_all add: sys_inv_def)
  note k = ctx_okD [OF sched_invD(1) [OF inv]]
  have "g = g'" if "gidMap s g = Some th" "gidMap s g' = Some th'" "th_state th = TH_RUNNING" "th_state th' = TH_RUNNING" "th_cid th = th_cid th'" for g g' th th'
    using one_per_context [OF sched_invD(1) [OF inv] that(2,1,5)] that(3,4) by blast
  moreover have "state_of b c = RUNNING \<or> state_of b c = WAITING \<longleftrightarrow> (\<exists>g th. gidMap s g = Some th \<and> th_state th = TH_RUNNING \<and> th_cid th = c)"
    if "c < MAX_THREADS" for c using bar_linkD(2) [OF l, of c] that by (simp add: run_at_def online_def)
  moreover have "th_cid th < length (contexts s) \<and> curThread (contexts s ! th_cid th) = Some g \<and> th_mask th ! th_cid th"
    if "gidMap s g = Some th" "th_state th = TH_RUNNING \<or> th_state th = TH_OUT" for g th using k(1) [OF that(1)] that(2) by (simp add: thread_ok_def)
  moreover have "set (freeList s) = {c. c < length (contexts s) \<and> curThread (contexts s ! c) = None}" using k(6) by simp
  ultimately show ?thesis using k(4) by blast
qed

theorem scheduler_placement_witness:
  "sched_reachable 4 50 2 (Barrier_new (\<lambda>_. 0) 2, Scheduler_new 4 50) \<and>
   set (freeList (Scheduler_new 4 50)) = {c. c < length (contexts (Scheduler_new 4 50)) \<and> curThread (contexts (Scheduler_new 4 50) ! c) = None}"
proof -
  have r: "sched_reachable 4 50 2 (Barrier_new (\<lambda>_. 0) 2, Scheduler_new 4 50)" by (auto simp: sched_reachable_def)
  show ?thesis using r scheduler_placement [OF r] by (simp add: MAX_THREADS_def)
qed

lemma busy_context:
  assumes inv: "sched_inv {} {} s" and g: "g \<in> set (runQueue s)" "c < length (contexts s)" "allows s g c"
  shows "\<exists>v th. curThread (contexts s ! c) = Some v \<and> v \<noteq> g \<and> gidMap s v = Some th \<and> th_state th = TH_RUNNING"
proof -
  note i = sched_invD [OF inv]
  have n: "c \<notin> set (freeList s)" "\<And>t. t \<in> set (outQueue s) \<Longrightarrow> cid_of s t \<noteq> c" using i(4) g(1,3) unfolding work_ok_def by blast+
  then obtain v where v: "curThread (contexts s ! c) = Some v" using ctx_free_iff [OF i(1), of c] g(2) by auto
  obtain th where th: "gidMap s v = Some th" "th_cid th = c" "th_state th = TH_RUNNING \<or> th_state th = TH_OUT" using ctx_okD(2) [OF i(1) g(2) v] by blast
  moreover have "th_state th \<noteq> TH_OUT" using n(2) [of v] queues_okD(8) [OF i(2), of v] th(1,2) by (auto simp: in_state_def cid_of_def)
  moreover have "in_state s TH_QUEUED g" by (rule queues_okD(4) [OF i(2) g(1)])
  ultimately show ?thesis using v by (auto simp: in_state_def)
qed

text \<open>C30: In every reachable state the queues and the states of the threads agree: a queued thread waits in the run queue or is the
  target of the handoff of one running thread, threads that are out or asleep are in the queue of their state, and the scheduler is
  work conserving: every context that a thread of the run queue may use has another thread running on it.\<close>

theorem scheduler_queues:
  assumes "sched_reachable numCores quantum parallel (b, s)" "0 < numCores" "numCores \<le> MAX_THREADS" "0 < quantum" "0 < parallel"
  shows "(\<forall>g. in_state s TH_QUEUED g \<longleftrightarrow> g \<in> set (runQueue s) \<or> (\<exists>!v. \<exists>th. gidMap s v = Some th \<and> th_state th = TH_RUNNING \<and> handoffThread th = Some g))
    \<and> (\<forall>g. in_state s TH_OUT g \<longleftrightarrow> g \<in> set (outQueue s)) \<and> (\<forall>g. in_state s TH_SLEEPING g \<longleftrightarrow> g \<in> set (sleepQueue s))
    \<and> (\<forall>g \<in> set (runQueue s). \<forall>c < length (contexts s). allows s g c \<longrightarrow>
        (\<exists>v th. curThread (contexts s ! c) = Some v \<and> v \<noteq> g \<and> gidMap s v = Some th \<and> th_state th = TH_RUNNING))"
proof -
  have "sys_inv (b, s)" by (rule reachable_sys [OF assms])
  then have inv: "sched_inv {} {} s" by (simp add: sys_inv_def)
  note i = sched_invD [OF inv] note q = queues_okD [OF i(2)]
  have hand: "target s g \<longleftrightarrow> (\<exists>!v. \<exists>th. gidMap s v = Some th \<and> th_state th = TH_RUNNING \<and> handoffThread th = Some g)" for g
  proof
    assume "target s g"
    then obtain v th where v: "gidMap s v = Some th" "handoffThread th = Some g" by (auto simp: target_def)
    then have "\<exists>th. gidMap s v = Some th \<and> th_state th = TH_RUNNING \<and> handoffThread th = Some g" using i(3) unfolding hand_ok_def by blast
    moreover have "y = v" if "\<exists>th. gidMap s y = Some th \<and> th_state th = TH_RUNNING \<and> handoffThread th = Some g" for y
      using that v i(3) unfolding hand_ok_def by blast
    ultimately show "\<exists>!v. \<exists>th. gidMap s v = Some th \<and> th_state th = TH_RUNNING \<and> handoffThread th = Some g" by (rule ex1I)
  qed (auto simp: target_def)
  have "target s g \<Longrightarrow> in_state s TH_QUEUED g" for g using i(3) unfolding hand_ok_def target_def by blast
  then have "in_state s TH_QUEUED g \<longleftrightarrow> g \<in> set (runQueue s) \<or> target s g" for g using q(4,10) by blast
  moreover have "\<exists>v th. curThread (contexts s ! c) = Some v \<and> v \<noteq> g \<and> gidMap s v = Some th \<and> th_state th = TH_RUNNING"
    if "g \<in> set (runQueue s)" "c < length (contexts s)" "allows s g c" for g c using busy_context [OF inv that] .
  ultimately show ?thesis using q(6-9) unfolding hand by blast
qed

theorem scheduler_queues_witness:
  "sched_reachable 4 50 2 (Barrier_new (\<lambda>_. 0) 2, Scheduler_new 4 50) \<and>
   (\<forall>g. in_state (Scheduler_new 4 50) TH_OUT g \<longleftrightarrow> g \<in> set (outQueue (Scheduler_new 4 50)))"
proof -
  have r: "sched_reachable 4 50 2 (Barrier_new (\<lambda>_. 0) 2, Scheduler_new 4 50)" by (auto simp: sched_reachable_def)
  show ?thesis using r scheduler_queues [OF r] by (simp add: MAX_THREADS_def)
qed



text \<open>C32: In every reachable state the sleep queue is ordered by wakeup phase and holds no thread whose phase has come, and a thread
  that is marked to sleep, or that was told to hand its context over, has its turn in the current phase still before it or runs.\<close>

theorem scheduler_sleepers:
  assumes "sched_reachable numCores quantum parallel (b, s)" "0 < numCores" "numCores \<le> MAX_THREADS" "0 < quantum" "0 < parallel"
  shows "sorted (map (wake_key s) (sleepQueue s))
    \<and> (\<forall>g th. gidMap s g = Some th \<longrightarrow> th_state th = TH_SLEEPING \<or> markedForSleep th \<longrightarrow> curPhase s < wakeupPhase th \<and> th_futexWord th = 1)
    \<and> (\<forall>g th. gidMap s g = Some th \<longrightarrow> markedForSleep th \<or> fakeLeave th \<noteq> None \<longrightarrow> state_of b (th_cid th) = RUNNING)
    \<and> (\<forall>g th. gidMap s g = Some th \<longrightarrow> handoffThread th \<noteq> None \<longrightarrow> ready b (th_cid th))"
proof -
  have "sys_inv (b, s)" by (rule reachable_sys [OF assms])
  then have inv: "sched_inv {} {} s" and l: "bar_link b (run_at s) (awake_at s) (hand_at s)" by (simp_all add: sys_inv_def)
  note i = sched_invD [OF inv] note sl = sleep_okD [OF i(5)] note d = bar_linkD [OF l]
  have "curPhase s < wakeupPhase th \<and> th_futexWord th = 1" if "gidMap s g = Some th" "th_state th = TH_SLEEPING \<or> markedForSleep th" for g th
  proof (cases "markedForSleep th")
    case True
    then show ?thesis using sl(3,4) [OF that(1)] by blast
  next
    case False
    then have "g \<in> set (sleepQueue s)" using queues_okD(9) [OF i(2), of g] that by (simp add: in_state_def)
    then show ?thesis using sl(2) [of g] sl(3) [OF that(1)] that by (simp add: wake_key_def)
  qed
  moreover have "state_of b (th_cid th) = RUNNING" if "gidMap s g = Some th" "markedForSleep th \<or> fakeLeave th \<noteq> None" for g th
    using d(5) [of "th_cid th"] that unfolding awake_at_def by blast
  moreover have "ready b (th_cid th)" if "gidMap s g = Some th" "handoffThread th \<noteq> None" for g th
    using d(6) [of "th_cid th"] that unfolding hand_at_def by blast
  ultimately show ?thesis using sl(1) by blast
qed

theorem scheduler_sleepers_witness:
  "sched_reachable 4 50 2 (Barrier_new (\<lambda>_. 0) 2, Scheduler_new 4 50) \<and> sorted (map (wake_key (Scheduler_new 4 50)) (sleepQueue (Scheduler_new 4 50)))"
proof -
  have r: "sched_reachable 4 50 2 (Barrier_new (\<lambda>_. 0) 2, Scheduler_new 4 50)" by (auto simp: sched_reachable_def)
  show ?thesis using r scheduler_sleepers [OF r] by (simp add: MAX_THREADS_def)
qed

text \<open>A global identifier holds its process and its thread: it splits and joins back, and the two halves come back from the
  identifier of a process and a thread that fit in sixteen bits.\<close>

lemma gid_round_trip:
  "getGid (getPid g) (getTid g) = g \<and> (pid < 0x10000 \<longrightarrow> tid < 0x10000 \<longrightarrow> getPid (getGid pid tid) = pid \<and> getTid (getGid pid tid) = tid)"
proof -
  have m: "(0x0FFFF :: 32 word) = mask 16" by (simp add: mask_eq_exp_minus_1)
  have short: "n < 16" if "x < 0x10000" "bit x n" for x :: "32 word" and n
  proof -
    have "unat x < 2 ^ 16" using that(1) by (simp add: word_less_nat_alt)
    then have "take_bit 16 x = x" by (metis nat_take_bit_eq take_bit_nat_eq_self unsigned_take_bit_eq word_unat_eq_iff)
    then show ?thesis using that(2) by (metis bit_take_bit_iff)
  qed
  have "getGid (getPid g) (getTid g) = g"
    unfolding getGid_def getPid_def getTid_def m by (rule bit_word_eqI) (auto simp: bit_simps)
  moreover have "getPid (getGid pid tid) = pid \<and> getTid (getGid pid tid) = tid" if "pid < 0x10000" "tid < 0x10000"
    unfolding getGid_def getPid_def getTid_def m
    by (intro conjI bit_word_eqI) (use short [OF that(1)] short [OF that(2)] in \<open>auto simp: bit_simps\<close>)
  ultimately show ?thesis by blast
qed

end
