(* ===== verification/FutexMatch.thy ===== *)
theory FutexMatch
  imports Scheduler
begin

text \<open>
  The wake and wait matching of \<^verbatim>\<open>src/src/scheduler.cpp\<close>: a thread that wakes others through a futex does not join the
  simulation before as many woken threads have joined. Two 32-bit counters of the scheduler hold the wakeups that tracked wakes
  may still cause and the woken threads that no wake has matched yet. \<^verbatim>\<open>futexWakeJoin\<close> gives the lock up while it waits, so it is
  three operations here: the adjustment, one look at the counters with the lock held, and the end after the time limit.
\<close>

subsection \<open>Operations\<close>

definition upd_fj :: "gid \<Rightarrow> (FutexJoinInfo \<Rightarrow> FutexJoinInfo) \<Rightarrow> sched \<Rightarrow> sched" where
  "upd_fj g f = upd_th g (\<lambda>t. t\<lparr>futexJoin := f (futexJoin t)\<rparr>)"

definition notifyFutexWakeStart :: "u32 \<Rightarrow> u32 \<Rightarrow> u32 \<Rightarrow> sched \<Rightarrow> sched option" where
  "notifyFutexWakeStart pid tid wakes s = do {
     th \<leftarrow> gidMap s (getGid pid tid);
     assert_that (fj_action (futexJoin th) = FJA_NONE);
     let mw = min wakes (push_bit 24 1);
     Some (upd_fj (getGid pid tid) (\<lambda>f. f\<lparr>maxWakes := mw\<rparr>) (s\<lparr>maxAllowedFutexWakeups := maxAllowedFutexWakeups s + mw\<rparr>)) }"

definition notifyFutexWakeEnd :: "u32 \<Rightarrow> u32 \<Rightarrow> u32 \<Rightarrow> sched \<Rightarrow> sched option" where
  "notifyFutexWakeEnd pid tid woken s = do {
     th \<leftarrow> gidMap s (getGid pid tid);
     Some (upd_fj (getGid pid tid) (\<lambda>f. f\<lparr>fj_action := FJA_WAKE, wokenUp := woken\<rparr>) s) }"

definition notifyFutexWaitWoken :: "u32 \<Rightarrow> u32 \<Rightarrow> sched \<Rightarrow> sched option" where
  "notifyFutexWaitWoken pid tid s = do {
     th \<leftarrow> gidMap s (getGid pid tid);
     Some (upd_fj (getGid pid tid) (\<lambda>f. \<lparr>fj_action = FJA_WAIT, maxWakes = 0, wokenUp = 0\<rparr>) s) }"

definition futexWakeJoin_adjust :: "gid \<Rightarrow> sched \<Rightarrow> sched option" where
  "futexWakeJoin_adjust g s = do {
     th \<leftarrow> gidMap s g;
     let fj = futexJoin th;
     assert_that (fj_action fj = FJA_WAKE);
     assert_that (maxWakes fj \<le> maxAllowedFutexWakeups s);
     assert_that (wokenUp fj \<le> maxWakes fj);
     let allowed = maxAllowedFutexWakeups s - (maxWakes fj - wokenUp fj);
     assert_that (unmatchedFutexWakeups s \<le> allowed);
     Some (s\<lparr>maxAllowedFutexWakeups := allowed\<rparr>) }"

text \<open>One look at the counters: whether the wake is matched, and the state after it. The end of the wait in \<^verbatim>\<open>join\<close> clears the action.\<close>

definition futexWakeJoin_poll :: "gid \<Rightarrow> sched \<Rightarrow> (bool \<times> sched) option" where
  "futexWakeJoin_poll g s = do {
     th \<leftarrow> gidMap s g;
     let woken = wokenUp (futexJoin th);
     if woken \<le> unmatchedFutexWakeups s
     then Some (True, upd_fj g (\<lambda>f. f\<lparr>fj_action := FJA_NONE\<rparr>)
       (s\<lparr>unmatchedFutexWakeups := unmatchedFutexWakeups s - woken, maxAllowedFutexWakeups := maxAllowedFutexWakeups s - woken\<rparr>))
     else Some (False, s) }"

definition futexWakeJoin_timeout :: "gid \<Rightarrow> sched \<Rightarrow> sched option" where
  "futexWakeJoin_timeout g s = do {
     th \<leftarrow> gidMap s g;
     Some (upd_fj g (\<lambda>f. f\<lparr>fj_action := FJA_NONE\<rparr>)
       (s\<lparr>unmatchedFutexWakeups := 0, maxAllowedFutexWakeups := maxAllowedFutexWakeups s - wokenUp (futexJoin th)\<rparr>)) }"

definition futexWaitJoin :: "gid \<Rightarrow> sched \<Rightarrow> sched option" where
  "futexWaitJoin g s = do {
     th \<leftarrow> gidMap s g;
     assert_that (fj_action (futexJoin th) = FJA_WAIT);
     Some (upd_fj g (\<lambda>f. f\<lparr>fj_action := FJA_NONE\<rparr>)
       (if unmatchedFutexWakeups s \<ge> maxAllowedFutexWakeups s then s else s\<lparr>unmatchedFutexWakeups := unmatchedFutexWakeups s + 1\<rparr>)) }"

subsection \<open>The protocol of the callers\<close>

text \<open>Where a thread is with its wake: in the system call, returned from it, or waiting for its matches. A thread is in one system
  call at a time and the kernel wakes no more threads than it was asked to.\<close>

datatype wake_phase = NoWake | InCall u32 | Ended u32 u32 | Matching u32

fun allowance :: "wake_phase \<Rightarrow> nat" where
  "allowance NoWake = 0"
| "allowance (InCall mw) = unat mw"
| "allowance (Ended mw w) = unat mw"
| "allowance (Matching w) = unat w"

definition wakers :: "(gid \<Rightarrow> wake_phase) \<Rightarrow> nat" where
  "wakers P = card {g. P g \<noteq> NoWake}"

inductive futex_step :: "(gid \<Rightarrow> wake_phase) \<times> sched \<Rightarrow> (gid \<Rightarrow> wake_phase) \<times> sched \<Rightarrow> bool" where
  wake_start: "P (getGid pid tid) = NoWake \<Longrightarrow> wakers P < 255 \<Longrightarrow> notifyFutexWakeStart pid tid w s = Some s' \<Longrightarrow>
     futex_step (P, s) (P(getGid pid tid := InCall (min w (push_bit 24 1))), s')"
| wake_end: "P (getGid pid tid) = InCall mw \<Longrightarrow> w \<le> mw \<Longrightarrow> notifyFutexWakeEnd pid tid w s = Some s' \<Longrightarrow>
     futex_step (P, s) (P(getGid pid tid := Ended mw w), s')"
| wake_adjust: "P g = Ended mw w \<Longrightarrow> futexWakeJoin_adjust g s = Some s' \<Longrightarrow> futex_step (P, s) (P(g := Matching w), s')"
| wake_wait: "P g = Matching w \<Longrightarrow> futexWakeJoin_poll g s = Some (False, s') \<Longrightarrow> futex_step (P, s) (P, s')"
| wake_match: "P g = Matching w \<Longrightarrow> futexWakeJoin_poll g s = Some (True, s') \<Longrightarrow> futex_step (P, s) (P(g := NoWake), s')"
| wake_timeout: "P g = Matching w \<Longrightarrow> futexWakeJoin_timeout g s = Some s' \<Longrightarrow> futex_step (P, s) (P(g := NoWake), s')"
| wait_woken: "P (getGid pid tid) = NoWake \<Longrightarrow> notifyFutexWaitWoken pid tid s = Some s' \<Longrightarrow> futex_step (P, s) (P, s')"
| wait_join: "P g = NoWake \<Longrightarrow> futexWaitJoin g s = Some s' \<Longrightarrow> futex_step (P, s) (P, s')"

definition phase_ok :: "wake_phase \<Rightarrow> ThreadInfo option \<Rightarrow> bool" where
  "phase_ok p t \<longleftrightarrow> (case p of NoWake \<Rightarrow> True
     | InCall mw \<Rightarrow> (\<exists>th. t = Some th \<and> maxWakes (futexJoin th) = mw \<and> mw \<le> push_bit 24 1)
     | Ended mw w \<Rightarrow> (\<exists>th. t = Some th \<and> fj_action (futexJoin th) = FJA_WAKE \<and> maxWakes (futexJoin th) = mw \<and> wokenUp (futexJoin th) = w
         \<and> w \<le> mw \<and> mw \<le> push_bit 24 1)
     | Matching w \<Rightarrow> (\<exists>th. t = Some th \<and> wokenUp (futexJoin th) = w \<and> w \<le> push_bit 24 1))"

definition futex_inv :: "(gid \<Rightarrow> wake_phase) \<Rightarrow> sched \<Rightarrow> bool" where
  "futex_inv P s \<longleftrightarrow> wakers P \<le> 255 \<and> (\<forall>g. phase_ok (P g) (gidMap s g))
     \<and> unat (maxAllowedFutexWakeups s) = (\<Sum>g\<in>UNIV. allowance (P g)) \<and> unmatchedFutexWakeups s \<le> maxAllowedFutexWakeups s"

lemma allowance_upd: "(\<Sum>y\<in>UNIV. allowance ((P(g := x)) y)) + allowance (P g) = (\<Sum>y\<in>UNIV. allowance (P y)) + allowance x"
  for P :: "gid \<Rightarrow> wake_phase"
proof -
  have "(\<Sum>y\<in>UNIV - {g}. allowance ((P(g := x)) y)) = (\<Sum>y\<in>UNIV - {g}. allowance (P y))" by (rule sum.cong) auto
  then show ?thesis using sum.remove [of UNIV g "\<lambda>y. allowance (P y)"] sum.remove [of UNIV g "\<lambda>y. allowance ((P(g := x)) y)"] by simp
qed

lemma allowance_le: "allowance (P g) \<le> (\<Sum>y\<in>UNIV. allowance (P y))" for P :: "gid \<Rightarrow> wake_phase"
  by (rule member_le_sum) auto

lemma wakers_upd: "wakers (P(g := x)) \<le> (if P g = NoWake \<and> x \<noteq> NoWake then Suc (wakers P) else wakers P)" for P :: "gid \<Rightarrow> wake_phase"
proof -
  have "{y. (P(g := x)) y \<noteq> NoWake} \<subseteq> (if x = NoWake then {y. P y \<noteq> NoWake} else insert g {y. P y \<noteq> NoWake})" by auto
  then have "wakers (P(g := x)) \<le> card (if x = NoWake then {y. P y \<noteq> NoWake} else insert g {y. P y \<noteq> NoWake})"
    unfolding wakers_def by (intro card_mono) auto
  also have "\<dots> = (if P g = NoWake \<and> x \<noteq> NoWake then Suc (wakers P) else wakers P)" by (simp add: wakers_def card_insert_if)
  finally show ?thesis .
qed

text \<open>At most 255 wakes of at most \<open>2\<^sup>2\<^sup>4\<close> wakeups: the sum fits in 32 bits.\<close>

lemma allowance_bound:
  assumes "\<And>g. allowance (P g) \<le> 2 ^ 24"
  shows "(\<Sum>g\<in>UNIV. allowance (P g)) \<le> wakers P * 2 ^ 24"
proof -
  have "(\<Sum>g\<in>UNIV. allowance (P g)) = (\<Sum>g\<in>{g. P g \<noteq> NoWake}. allowance (P g))" by (rule sum.mono_neutral_right) auto
  also have "\<dots> \<le> card {g. P g \<noteq> NoWake} * 2 ^ 24" using sum_bounded_above [of "{g. P g \<noteq> NoWake}" "\<lambda>g. allowance (P g)" "2 ^ 24"] assms by simp
  finally show ?thesis by (simp add: wakers_def)
qed

lemma phase_allowance: "phase_ok p t \<Longrightarrow> allowance p \<le> 2 ^ 24"
  by (cases p) (auto simp: phase_ok_def word_le_nat_alt)

lemma futex_invD:
  assumes "futex_inv P s"
  shows "wakers P \<le> 255" "phase_ok (P g) (gidMap s g)" "unat (maxAllowedFutexWakeups s) = (\<Sum>g\<in>UNIV. allowance (P g))"
    "unmatchedFutexWakeups s \<le> maxAllowedFutexWakeups s" "allowance (P g) \<le> unat (maxAllowedFutexWakeups s)"
    "unat (maxAllowedFutexWakeups s) \<le> wakers P * 2 ^ 24"
proof -
  show p: "phase_ok (P g) (gidMap s g)" for g using assms by (simp add: futex_inv_def)
  show "wakers P \<le> 255" and m: "unat (maxAllowedFutexWakeups s) = (\<Sum>g\<in>UNIV. allowance (P g))" "unmatchedFutexWakeups s \<le> maxAllowedFutexWakeups s"
    using assms by (simp_all add: futex_inv_def)
  then show "unat (maxAllowedFutexWakeups s) \<le> wakers P * 2 ^ 24" using allowance_bound phase_allowance [OF p] by metis
  show "allowance (P g) \<le> unat (maxAllowedFutexWakeups s)" using m(1) allowance_le [of P g] by (simp only:)
qed

text \<open>A step changes the phase and the record of one thread and moves the allowance by as much.\<close>

lemma futex_move:
  assumes inv: "futex_inv P s" and m: "\<And>y. y \<noteq> g \<Longrightarrow> gidMap s' y = gidMap s y" "phase_ok x (gidMap s' g)"
    and w: "P g = NoWake \<longrightarrow> x = NoWake \<or> wakers P < 255"
    and a: "unat (maxAllowedFutexWakeups s') + allowance (P g) = unat (maxAllowedFutexWakeups s) + allowance x"
    and u: "unmatchedFutexWakeups s' \<le> maxAllowedFutexWakeups s'"
  shows "futex_inv (P(g := x)) s'"
proof -
  have "wakers (P(g := x)) \<le> 255" using wakers_upd [of P g x] futex_invD(1) [OF inv] w by (auto split: if_splits)
  moreover have "unat (maxAllowedFutexWakeups s') = (\<Sum>y\<in>UNIV. allowance ((P(g := x)) y))"
    using a allowance_upd [of P g x] futex_invD(3) [OF inv] by linarith
  ultimately show ?thesis using m u futex_invD(2) [OF inv] unfolding futex_inv_def by (metis fun_upd_apply)
qed

lemma upd_fj_simps [simp]:
  "gidMap (upd_fj g f s) = (gidMap s)(g := map_option (\<lambda>t. t\<lparr>futexJoin := f (futexJoin t)\<rparr>) (gidMap s g))"
  "maxAllowedFutexWakeups (upd_fj g f s) = maxAllowedFutexWakeups s" "unmatchedFutexWakeups (upd_fj g f s) = unmatchedFutexWakeups s"
  by (simp_all add: upd_fj_def upd_th_def)

lemma start_inv:
  assumes "futex_inv P s" "P (getGid pid tid) = NoWake" "wakers P < 255" "notifyFutexWakeStart pid tid w s = Some s'"
  shows "futex_inv (P(getGid pid tid := InCall (min w (push_bit 24 1)))) s'"
proof -
  let ?g = "getGid pid tid" let ?m = "min w (push_bit 24 1)"
  obtain th where th: "gidMap s ?g = Some th" and s': "s' = upd_fj ?g (\<lambda>f. f\<lparr>maxWakes := ?m\<rparr>) (s\<lparr>maxAllowedFutexWakeups := maxAllowedFutexWakeups s + ?m\<rparr>)"
    using assms(4) by (auto simp: notifyFutexWakeStart_def Let_def bind_Some_conv)
  have le: "?m \<le> push_bit 24 1" by simp
  then have m: "unat ?m \<le> 2 ^ 24" unfolding word_le_nat_alt by simp
  note b = futex_invD(6) [OF assms(1)]
  have add: "unat (maxAllowedFutexWakeups s + ?m) = unat (maxAllowedFutexWakeups s) + unat ?m"
  proof (rule unat_add_lem [THEN iffD1])
    have "wakers P * 2 ^ 24 \<le> 254 * 2 ^ 24" using assms(3) by simp
    then show "unat (maxAllowedFutexWakeups s) + unat ?m < 2 ^ LENGTH(32)" using b m by simp
  qed
  show ?thesis
  proof (rule futex_move [OF assms(1)])
    show "phase_ok (InCall ?m) (gidMap s' ?g)" using th le by (simp add: phase_ok_def s')
    show "unat (maxAllowedFutexWakeups s') + allowance (P ?g) = unat (maxAllowedFutexWakeups s) + allowance (InCall ?m)" using add assms(2) by (simp add: s')
    show "unmatchedFutexWakeups s' \<le> maxAllowedFutexWakeups s'"
      using futex_invD(4) [OF assms(1)] add unfolding word_le_nat_alt by (simp add: s')
  qed (use assms(3) in \<open>simp_all add: s'\<close>)
qed

lemma adjust_inv:
  assumes inv: "futex_inv P s" and p: "P g = Ended mw w"
  shows "\<exists>th. gidMap s g = Some th \<and> maxWakes (futexJoin th) \<le> maxAllowedFutexWakeups s \<and> wokenUp (futexJoin th) \<le> maxWakes (futexJoin th)"
    "futexWakeJoin_adjust g s = Some s' \<Longrightarrow> futex_inv (P(g := Matching w)) s'"
proof -
  obtain th where th: "gidMap s g = Some th" "fj_action (futexJoin th) = FJA_WAKE" "maxWakes (futexJoin th) = mw" "wokenUp (futexJoin th) = w" "w \<le> mw" "mw \<le> push_bit 24 1"
    using futex_invD(2) [OF inv, of g] p by (auto simp: phase_ok_def)
  have le: "mw \<le> maxAllowedFutexWakeups s" using futex_invD(5) [OF inv, of g] p by (simp add: word_le_nat_alt)
  then show "\<exists>th. gidMap s g = Some th \<and> maxWakes (futexJoin th) \<le> maxAllowedFutexWakeups s \<and> wokenUp (futexJoin th) \<le> maxWakes (futexJoin th)"
    using th by simp
  assume st: "futexWakeJoin_adjust g s = Some s'"
  let ?a = "maxAllowedFutexWakeups s - (mw - w)"
  have s': "s' = s\<lparr>maxAllowedFutexWakeups := ?a\<rparr>" "unmatchedFutexWakeups s \<le> ?a" using st th by (auto simp: futexWakeJoin_adjust_def Let_def abort_simps split: if_splits)
  have d: "unat (mw - w) = unat mw - unat w" by (rule unat_sub [OF th(5)])
  then have dm: "unat (mw - w) \<le> unat (maxAllowedFutexWakeups s)" using le unfolding word_le_nat_alt by simp
  then have "unat ?a = unat (maxAllowedFutexWakeups s) - (unat mw - unat w)" using unat_sub [of "mw - w" "maxAllowedFutexWakeups s"] d by (simp add: word_le_nat_alt)
  moreover have "unat w \<le> unat mw" "unat mw \<le> unat (maxAllowedFutexWakeups s)" using th(5) le by (simp_all add: word_le_nat_alt)
  ultimately have a: "unat ?a + unat mw = unat (maxAllowedFutexWakeups s) + unat w" by linarith
  show "futex_inv (P(g := Matching w)) s'"
    by (rule futex_move [OF inv]) (use th p a s' in \<open>auto simp: phase_ok_def\<close>)
qed

lemma futex_step_inv:
  assumes "futex_step Ps Ps'" "futex_inv (fst Ps) (snd Ps)"
  shows "futex_inv (fst Ps') (snd Ps')"
  using assms(1)
proof (cases rule: futex_step.cases)
  case (wake_start P pid tid w s s')
  then show ?thesis using start_inv assms(2) by simp
next
  case (wake_end P pid tid mw w s s')
  have inv: "futex_inv P s" using assms(2) wake_end by simp
  obtain th where th: "gidMap s (getGid pid tid) = Some th" "maxWakes (futexJoin th) = mw" "mw \<le> push_bit 24 1"
    using futex_invD(2) [OF inv, of "getGid pid tid"] wake_end(3) by (auto simp: phase_ok_def)
  have "futex_inv (P(getGid pid tid := Ended mw w)) s'"
    by (rule futex_move [OF inv]) (use wake_end(3-5) th futex_invD(4) [OF inv] in \<open>auto simp: notifyFutexWakeEnd_def phase_ok_def\<close>)
  then show ?thesis using wake_end(2) by simp
next
  case (wake_adjust P g mw w s s')
  then show ?thesis using adjust_inv(2) assms(2) by simp
next
  case (wake_wait P g w s s')
  then have "s' = s" by (auto simp: futexWakeJoin_poll_def Let_def bind_Some_conv split: if_splits)
  then show ?thesis using wake_wait assms(2) by simp
next
  case (wake_match P g w s s')
  have inv: "futex_inv P s" using assms(2) wake_match by simp
  obtain th where th: "gidMap s g = Some th" "wokenUp (futexJoin th) = w" using futex_invD(2) [OF inv, of g] wake_match(3) by (auto simp: phase_ok_def)
  then have u: "w \<le> unmatchedFutexWakeups s" and s': "maxAllowedFutexWakeups s' = maxAllowedFutexWakeups s - w"
      "unmatchedFutexWakeups s' = unmatchedFutexWakeups s - w" "\<And>y. y \<noteq> g \<Longrightarrow> gidMap s' y = gidMap s y"
    using wake_match(4) by (auto simp: futexWakeJoin_poll_def Let_def split: if_splits)
  have le: "w \<le> maxAllowedFutexWakeups s" using u futex_invD(4) [OF inv] by (rule order_trans)
  have "futex_inv (P(g := NoWake)) s'"
  proof (rule futex_move [OF inv])
    show "unat (maxAllowedFutexWakeups s') + allowance (P g) = unat (maxAllowedFutexWakeups s) + allowance NoWake"
      using unat_sub [OF le] le wake_match(3) by (simp add: s' word_le_nat_alt)
    show "unmatchedFutexWakeups s' \<le> maxAllowedFutexWakeups s'"
      using unat_sub [OF le] unat_sub [OF u] futex_invD(4) [OF inv] by (simp add: s' word_le_nat_alt)
  qed (use s' in \<open>auto simp: phase_ok_def\<close>)
  then show ?thesis using wake_match(2) by simp
next
  case (wake_timeout P g w s s')
  have inv: "futex_inv P s" using assms(2) wake_timeout by simp
  obtain th where th: "gidMap s g = Some th" "wokenUp (futexJoin th) = w" using futex_invD(2) [OF inv, of g] wake_timeout(3) by (auto simp: phase_ok_def)
  then have s': "maxAllowedFutexWakeups s' = maxAllowedFutexWakeups s - w" "unmatchedFutexWakeups s' = 0" "\<And>y. y \<noteq> g \<Longrightarrow> gidMap s' y = gidMap s y"
    using wake_timeout(4) by (auto simp: futexWakeJoin_timeout_def)
  have le: "w \<le> maxAllowedFutexWakeups s" using futex_invD(5) [OF inv, of g] wake_timeout(3) by (simp add: word_le_nat_alt)
  have "futex_inv (P(g := NoWake)) s'"
    by (rule futex_move [OF inv]) (use unat_sub [OF le] le wake_timeout(3) s' in \<open>auto simp: phase_ok_def word_le_nat_alt\<close>)
  then show ?thesis using wake_timeout(2) by simp
next
  case (wait_woken P pid tid s s')
  have inv: "futex_inv P s" using assms(2) wait_woken by simp
  have "futex_inv (P(getGid pid tid := NoWake)) s'"
    by (rule futex_move [OF inv]) (use wait_woken(3,4) futex_invD(4) [OF inv] in \<open>auto simp: notifyFutexWaitWoken_def phase_ok_def bind_Some_conv\<close>)
  then show ?thesis using wait_woken(2,3) by (simp add: fun_upd_idem)
next
  case (wait_join P g s s')
  have inv: "futex_inv P s" using assms(2) wait_join by simp
  have s': "maxAllowedFutexWakeups s' = maxAllowedFutexWakeups s" "\<And>y. y \<noteq> g \<Longrightarrow> gidMap s' y = gidMap s y"
      "unmatchedFutexWakeups s' = (if unmatchedFutexWakeups s \<ge> maxAllowedFutexWakeups s then unmatchedFutexWakeups s else unmatchedFutexWakeups s + 1)"
    using wait_join(4) by (auto simp: futexWaitJoin_def bind_Some_conv abort_simps split: if_splits)
  have "unmatchedFutexWakeups s' \<le> maxAllowedFutexWakeups s'"
    using futex_invD(4) [OF inv] unfolding s' by (auto intro: inc_le)
  then have "futex_inv (P(g := NoWake)) s'"
    by (intro futex_move [OF inv]) (use wait_join(3) s' in \<open>auto simp: phase_ok_def\<close>)
  then show ?thesis using wait_join(2,3) by (simp add: fun_upd_idem)
qed

text \<open>C33: The wake and wait matching keeps exact books while at most 255 wakes are under way: the 32-bit allowance never wraps and is
  the sum of what the threads in their calls were promised and what the threads that wait for matches are still due, no more
  woken threads are counted than that, and a thread that comes back from a wake passes the two assertions on its own numbers.\<close>

theorem futex_books_exact:
  assumes "futex_step\<^sup>*\<^sup>* (\<lambda>_. NoWake, s0) (P, s)" "maxAllowedFutexWakeups s0 = 0" "unmatchedFutexWakeups s0 = 0"
  shows "unat (maxAllowedFutexWakeups s) = (\<Sum>g\<in>UNIV. allowance (P g)) \<and> unmatchedFutexWakeups s \<le> maxAllowedFutexWakeups s
    \<and> (\<forall>g mw w. P g = Ended mw w \<longrightarrow> (\<exists>th. gidMap s g = Some th \<and> maxWakes (futexJoin th) \<le> maxAllowedFutexWakeups s \<and> wokenUp (futexJoin th) \<le> maxWakes (futexJoin th)))"
proof -
  have "futex_inv (fst Ps) (snd Ps)" if "futex_step\<^sup>*\<^sup>* (\<lambda>_. NoWake, s0) Ps" for Ps
    using that
  proof (induction rule: rtranclp_induct)
    case base
    then show ?case using assms(2,3) by (simp add: futex_inv_def wakers_def phase_ok_def)
  qed (rule futex_step_inv)
  from this [OF assms(1)] have inv: "futex_inv P s" by simp
  show ?thesis using futex_invD(3,4) [OF inv] adjust_inv(1) [OF inv] by blast
qed

theorem futex_books_exact_witness:
  "futex_step\<^sup>*\<^sup>* (\<lambda>_. NoWake, (Scheduler_new 1 1)\<lparr>gidMap := [0 \<mapsto> ThreadInfo_new (False, 0, 0) [True]]\<rparr>)
     ((\<lambda>_. NoWake)(0 := InCall 3), upd_fj 0 (\<lambda>f. f\<lparr>maxWakes := 3\<rparr>) ((Scheduler_new 1 1)\<lparr>gidMap := [0 \<mapsto> ThreadInfo_new (False, 0, 0) [True]], maxAllowedFutexWakeups := 3\<rparr>))
   \<and> unat (3 :: u32) = (\<Sum>g\<in>UNIV. allowance (((\<lambda>_. NoWake)(0 := InCall 3)) (g :: gid)))"
proof -
  let ?s = "(Scheduler_new 1 1)\<lparr>gidMap := [0 \<mapsto> ThreadInfo_new (False, 0, 0) [True]]\<rparr>"
  let ?s' = "upd_fj 0 (\<lambda>f. f\<lparr>maxWakes := 3\<rparr>) (?s\<lparr>maxAllowedFutexWakeups := 3\<rparr>)"
  have "notifyFutexWakeStart 0 0 3 ?s = Some ?s'"
    by (simp add: notifyFutexWakeStart_def getGid_def ThreadInfo_new_def Scheduler_new_def Let_def)
  then have "futex_step (\<lambda>_. NoWake, ?s) ((\<lambda>_. NoWake)(getGid 0 0 := InCall (min 3 (push_bit 24 1))), ?s')"
    by (intro wake_start) (simp_all add: wakers_def)
  then have r: "futex_step\<^sup>*\<^sup>* (\<lambda>_. NoWake, ?s) ((\<lambda>_. NoWake)(0 := InCall 3), ?s')" by (simp add: getGid_def)
  then show ?thesis using futex_books_exact [OF r] by (simp add: Scheduler_new_def)
qed

end
