(* ===== verification/CoreRecorder.thy ===== *)
theory CoreRecorder
  imports CacheOps
begin

text \<open>
  The recorder of an in-order core (\<^verbatim>\<open>src/src/core_recorder.h\<close> and \<^verbatim>\<open>core_recorder.cpp\<close>). It turns the accesses of a core into a chain of events for the
  weave phase and, after the weave phase, moves the clock of the core by the delay that contention has added. It is halted, running or
  draining; a core that leaves drains until its last event has run.

  What the recorder does to the event graph is a list of commands, in the order of the calls. An event of its own is a number, its address;
  its original start cycle, in the clock that leaves out contention, is an argument of the constructor and is given back when the event has
  run. The crossing stack is not modelled. \<open>glob\<close> and \<open>len\<close> are \<^verbatim>\<open>zinfo->globPhaseCycles\<close> and \<^verbatim>\<open>zinfo->phaseLength\<close>.
\<close>

section \<open>State\<close>

datatype RecState = REC_HALTED | REC_RUNNING | REC_DRAINING

datatype RespEvent = CoreEv nat | AccessEv TimingEv

datatype ev_cmd =
    NewCoreEvent nat nat cycle int
  | NewDelayEvent nat nat
  | SetMinStart nat cycle
  | AddChild RespEvent nat
  | AddStart nat TimingEv
  | QueueEvent nat cycle
  | ProduceCrossings RespEvent

record CoreRecorder =
  rec_state :: RecState
  gapCycles :: cycle
  eventRecorder :: EventRecorder
  prevRespCycle :: cycle
  prevRespEvent :: "RespEvent option"
  lastEventSimulatedStartCycle :: cycle
  lastEventSimulatedOrigStartCycle :: cycle
  totalGapCycles :: cycle
  totalHaltedCycles :: cycle
  lastUnhaltedCycle :: cycle
  rec_domain :: int
  rec_next :: nat

text \<open>The constructor leaves the previous response and the last simulated event as they are in memory.\<close>

definition CoreRecorder_new :: "int \<Rightarrow> CoreRecorder \<Rightarrow> CoreRecorder" where
  "CoreRecorder_new dmn r = r\<lparr>rec_domain := dmn, prevRespEvent := None, rec_state := REC_HALTED, gapCycles := 0,
     eventRecorder := setGapCycles 0 (eventRecorder r), lastUnhaltedCycle := 0, totalGapCycles := 0, totalHaltedCycles := 0\<rparr>"

section \<open>Operations\<close>

text \<open>A new event of the recorder behind the previous response, starting where that one ends.\<close>

definition chain_event :: "nat \<Rightarrow> CoreRecorder \<Rightarrow> (CoreRecorder \<times> ev_cmd list) option" where
  "chain_event delay r = do {
     p \<leftarrow> prevRespEvent r;
     let n = rec_next r;
     Some (r\<lparr>prevRespEvent := Some (CoreEv n), rec_next := Suc n\<rparr>,
       [NewCoreEvent n delay (prevRespCycle r - gapCycles r) (- 1), SetMinStart n (prevRespCycle r), AddChild p n]) }"

definition notifyJoin :: "cycle \<Rightarrow> cycle \<Rightarrow> CoreRecorder \<Rightarrow> (cycle \<times> CoreRecorder \<times> ev_cmd list) option" where
  "notifyJoin glob cur r = (case rec_state r of
     REC_HALTED \<Rightarrow> do {
       assert_that (prevRespEvent r = None);
       assert_that (lastUnhaltedCycle r \<le> glob);
       let n = rec_next r;
       Some (glob, r\<lparr>totalGapCycles := totalGapCycles r + gapCycles r, gapCycles := 0,
           eventRecorder := setStartSlack 0 (setGapCycles 0 (eventRecorder r)),
           totalHaltedCycles := totalHaltedCycles r + (glob - lastUnhaltedCycle r),
           prevRespEvent := Some (CoreEv n), rec_next := Suc n, prevRespCycle := glob, rec_state := REC_RUNNING\<rparr>,
         [NewCoreEvent n 0 glob (rec_domain r), SetMinStart n glob, QueueEvent n glob]) }
   | REC_DRAINING \<Rightarrow> do {
       assert_that (cur \<ge> glob);
       Some (cur, r\<lparr>rec_state := REC_RUNNING\<rparr>, []) }
   | REC_RUNNING \<Rightarrow> panic)"

definition notifyLeave :: "cycle \<Rightarrow> CoreRecorder \<Rightarrow> (CoreRecorder \<times> ev_cmd list) option" where
  "notifyLeave cur r = do {
     assert_that (rec_state r = REC_RUNNING);
     let r1 = r\<lparr>rec_state := REC_DRAINING\<rparr>;
     assert_that (prevRespEvent r1 \<noteq> None);
     (r2, cs) \<leftarrow> chain_event (cur - prevRespCycle r1) r1;
     (r3, cs') \<leftarrow> chain_event 0 (r2\<lparr>prevRespCycle := cur\<rparr>);
     Some (r3, cs @ cs') }"

definition recordAccess :: "cycle \<Rightarrow> CoreRecorder \<Rightarrow> (CoreRecorder \<times> ev_cmd list) option" where
  "recordAccess startCycle r = do {
     assert_that (hasRecord (eventRecorder r));
     let (tr, er) = popRecord (eventRecorder r);
     orig \<leftarrow> prevRespEvent r;
     start \<leftarrow> startEvent tr;
     assert_that (startCycle \<ge> prevRespCycle r);
     assert_that (reqCycle tr \<ge> startCycle);
     let n = rec_next r;
     let r1 = r\<lparr>eventRecorder := er, rec_next := Suc n\<rparr>;
     if IsGet (tr_type tr) then do {
       assert_that (endEvent tr \<noteq> None);
       Some (r1\<lparr>prevRespEvent := map_option AccessEv (endEvent tr), prevRespCycle := tr_respCycle tr\<rparr>,
         [NewCoreEvent n (reqCycle tr - prevRespCycle r) (prevRespCycle r - gapCycles r) (- 1), SetMinStart n (prevRespCycle r),
          AddChild orig n, AddStart n start, ProduceCrossings orig]) }
     else do {
       assert_that (IsPut (tr_type tr));
       Some (r1, [NewDelayEvent n (reqCycle tr - prevRespCycle r), SetMinStart n (prevRespCycle r), AddChild orig n, AddStart n start,
         ProduceCrossings orig]) } }"

definition cr_record :: "cycle \<Rightarrow> CoreRecorder \<Rightarrow> (CoreRecorder \<times> ev_cmd list) option" where
  "cr_record startCycle r = (if hasRecord (eventRecorder r) then recordAccess startCycle r else Some (r, []))"

definition cr_cSimStart :: "cycle \<Rightarrow> cycle \<Rightarrow> cycle \<Rightarrow> CoreRecorder \<Rightarrow> (cycle \<times> CoreRecorder \<times> ev_cmd list) option" where
  "cr_cSimStart glob len cur r = (case rec_state r of
     REC_HALTED \<Rightarrow> Some (cur, r, [])
   | REC_RUNNING \<Rightarrow> do {
       assert_that (cur \<ge> glob + len);
       (r1, cs) \<leftarrow> (if prevRespCycle r < cur
         then do { (r', cs) \<leftarrow> chain_event (cur - prevRespCycle r) r; Some (r'\<lparr>prevRespCycle := cur\<rparr>, cs) } else Some (r, []));
       (r2, cs') \<leftarrow> chain_event 0 r1;
       Some (cur, r2, cs @ cs') }
   | REC_DRAINING \<Rightarrow> Some (if cur < glob + len then glob + len else cur, r, []))"

definition cr_cSimEnd :: "cycle \<Rightarrow> CoreRecorder \<Rightarrow> (cycle \<times> CoreRecorder) option" where
  "cr_cSimEnd cur r = (if rec_state r = REC_HALTED then Some (cur, r) else do {
     let lastEvCycle1 = lastEventSimulatedOrigStartCycle r + gapCycles r;
     let lastEvCycle2 = lastEventSimulatedStartCycle r;
     assert_that (lastEvCycle1 \<le> cur);
     assert_that (lastEvCycle2 \<le> cur);
     assert_that (lastEvCycle1 \<le> lastEvCycle2);
     let skew = lastEvCycle2 - lastEvCycle1;
     let r1 = r\<lparr>gapCycles := gapCycles r + skew, prevRespCycle := prevRespCycle r + skew,
       eventRecorder := setGapCycles (gapCycles r + skew) (eventRecorder r)\<rparr>;
     if prevRespEvent r1 = None then do {
       assert_that (rec_state r1 = REC_DRAINING);
       Some (cur + skew, r1\<lparr>lastUnhaltedCycle := lastEventSimulatedStartCycle r1, rec_state := REC_HALTED\<rparr>) }
     else Some (cur + skew, r1) })"

text \<open>An event of the recorder has run: its address, its original start cycle and the cycle it ran in.\<close>

definition reportEventSimulated :: "nat \<Rightarrow> cycle \<Rightarrow> cycle \<Rightarrow> CoreRecorder \<Rightarrow> CoreRecorder option" where
  "reportEventSimulated n orig start r = do {
     let r1 = r\<lparr>lastEventSimulatedStartCycle := start, lastEventSimulatedOrigStartCycle := orig\<rparr>;
     r2 \<leftarrow> (if prevRespEvent r1 = Some (CoreEv n)
           then do { assert_that (rec_state r1 = REC_DRAINING); Some (r1\<lparr>prevRespEvent := None\<rparr>) } else Some r1);
     Some (r2\<lparr>eventRecorder := setStartSlack (start - orig) (eventRecorder r2)\<rparr>) }"

definition getUnhaltedCycles :: "cycle \<Rightarrow> cycle \<Rightarrow> CoreRecorder \<Rightarrow> cycle" where
  "getUnhaltedCycles glob cur r = (let
       cyc = max cur glob;
       haltedCycles = totalHaltedCycles r + (if rec_state r = REC_HALTED then cyc - lastUnhaltedCycle r else 0)
     in cyc - haltedCycles)"

definition getContentionCycles :: "CoreRecorder \<Rightarrow> cycle" where
  "getContentionCycles r = totalGapCycles r + gapCycles r"

section \<open>The recorder over phases\<close>

text \<open>The recorder with the clock of its core, the start of the phase, and the events of the recorder that have not run, oldest first, each with its original
  start cycle; \<open>fresh\<close> holds while no event has run since the core was halted.\<close>

record RecSys =
  sy_rec :: CoreRecorder
  sy_cur :: cycle
  sy_glob :: cycle
  sy_pend :: "(nat \<times> cycle) list"
  sy_fresh :: bool

fun core_events :: "ev_cmd list \<Rightarrow> (nat \<times> cycle) list" where
  "core_events [] = []"
| "core_events (NewCoreEvent n d orig dm # cs) = (n, orig) # core_events cs"
| "core_events (c # cs) = core_events cs"

fun report_all :: "(nat \<times> cycle) list \<Rightarrow> cycle list \<Rightarrow> CoreRecorder \<Rightarrow> CoreRecorder option" where
  "report_all ((n, orig) # es) (s # ss) r = do { r' \<leftarrow> reportEventSimulated n orig s r; report_all es ss r' }"
| "report_all _ _ r = Some r"

text \<open>What the weave phase promises: the events run in order, before the limit, and none earlier than its original start cycle and the contention
  so far allow; the event that a join has queued in this phase runs in it.\<close>

definition weave_ok :: "cycle \<Rightarrow> cycle \<Rightarrow> bool \<Rightarrow> (nat \<times> cycle) list \<Rightarrow> cycle list \<Rightarrow> bool" where
  "weave_ok gap limit fresh es ss \<longleftrightarrow> length ss = length es \<and> (\<forall>((n, orig), s) \<in> set (zip es ss). orig + gap \<le> s \<and> s < limit)
     \<and> (fresh \<longrightarrow> es \<noteq> [])"

text \<open>The end of a phase: the recorder prepares the weave phase, \<open>k\<close> of the waiting events run in the cycles \<open>ss\<close>, and the clock is adjusted.\<close>

definition end_phase :: "cycle \<Rightarrow> nat \<Rightarrow> cycle list \<Rightarrow> RecSys \<Rightarrow> RecSys option" where
  "end_phase len k ss y = do {
     (cur1, r1, cs) \<leftarrow> cr_cSimStart (sy_glob y) len (sy_cur y) (sy_rec y);
     let es = sy_pend y @ core_events cs;
     r2 \<leftarrow> report_all (take k es) ss r1;
     (cur2, r3) \<leftarrow> cr_cSimEnd cur1 r2;
     Some (y\<lparr>sy_rec := r3, sy_cur := cur2, sy_glob := sy_glob y + len, sy_pend := drop k es, sy_fresh := (sy_fresh y \<and> k = 0)\<rparr>) }"

definition waiting :: "cycle \<Rightarrow> RecSys \<Rightarrow> (nat \<times> cycle) list" where
  "waiting len y = (case cr_cSimStart (sy_glob y) len (sy_cur y) (sy_rec y) of None \<Rightarrow> [] | Some (cur1, r1, cs) \<Rightarrow> sy_pend y @ core_events cs)"

inductive rec_step :: "cycle \<Rightarrow> RecSys \<Rightarrow> RecSys \<Rightarrow> bool" for len where
  join: "rec_state (sy_rec y) \<noteq> REC_RUNNING \<Longrightarrow> notifyJoin (sy_glob y) (sy_cur y) (sy_rec y) = Some (cur', r', cs) \<Longrightarrow>
    rec_step len y (y\<lparr>sy_rec := r', sy_cur := cur', sy_pend := sy_pend y @ core_events cs,
      sy_fresh := (if rec_state (sy_rec y) = REC_HALTED then True else sy_fresh y)\<rparr>)"
| run: "rec_state (sy_rec y) = REC_RUNNING \<Longrightarrow> sy_cur y \<le> cur' \<Longrightarrow> rec_step len y (y\<lparr>sy_cur := cur'\<rparr>)"
| access: "rec_state (sy_rec y) = REC_RUNNING \<Longrightarrow> sy_cur y \<le> cur' \<Longrightarrow>
    (tr_isValid tr \<Longrightarrow> sy_cur y \<le> reqCycle tr \<and> reqCycle tr \<le> tr_respCycle tr \<and> tr_respCycle tr \<le> cur') \<Longrightarrow> er_tr (eventRecorder r) = tr \<Longrightarrow> r = (sy_rec y)\<lparr>eventRecorder := er\<rparr> \<Longrightarrow> cr_record (sy_cur y) r = Some (r', cs) \<Longrightarrow>
    rec_step len y (y\<lparr>sy_rec := r', sy_cur := cur', sy_pend := sy_pend y @ core_events cs\<rparr>)"
| leave: "rec_state (sy_rec y) = REC_RUNNING \<Longrightarrow> notifyLeave (sy_cur y) (sy_rec y) = Some (r', cs) \<Longrightarrow>
    rec_step len y (y\<lparr>sy_rec := r', sy_pend := sy_pend y @ core_events cs\<rparr>)"
| phase: "(rec_state (sy_rec y) = REC_RUNNING \<Longrightarrow> sy_glob y + len \<le> sy_cur y) \<Longrightarrow> k \<le> length (waiting len y) \<Longrightarrow>
    weave_ok (gapCycles (sy_rec y)) (sy_glob y + len) (sy_fresh y) (take k (waiting len y)) ss \<Longrightarrow> end_phase len k ss y = Some y' \<Longrightarrow>
    rec_step len y y'"

inductive rec_reachable :: "cycle \<Rightarrow> RecSys \<Rightarrow> bool" for len where
  init: "rec_reachable len \<lparr>sy_rec = CoreRecorder_new dmn r, sy_cur = 0, sy_glob = 0, sy_pend = [], sy_fresh = False\<rparr>"
| step: "rec_reachable len y \<Longrightarrow> rec_step len y y' \<Longrightarrow> rec_reachable len y'"

subsection \<open>Invariant\<close>

definition active_inv :: "cycle \<Rightarrow> CoreRecorder \<Rightarrow> (nat \<times> cycle) list \<Rightarrow> bool \<Rightarrow> bool" where
  "active_inv cur r pend fresh \<longleftrightarrow> prevRespEvent r \<noteq> None \<and> gapCycles r \<le> prevRespCycle r \<and> prevRespCycle r \<le> cur
     \<and> (\<forall>(n, orig) \<in> set pend. orig + gapCycles r \<le> prevRespCycle r \<and> n < rec_next r \<and> totalHaltedCycles r \<le> orig) \<and> distinct (map fst pend)
     \<and> totalHaltedCycles r + gapCycles r \<le> prevRespCycle r
     \<and> (if fresh then pend \<noteq> [] \<and> gapCycles r = 0
        else lastEventSimulatedOrigStartCycle r + gapCycles r = lastEventSimulatedStartCycle r \<and> lastEventSimulatedStartCycle r \<le> prevRespCycle r
          \<and> totalHaltedCycles r \<le> lastEventSimulatedOrigStartCycle r)"

definition halted_inv :: "cycle \<Rightarrow> CoreRecorder \<Rightarrow> (nat \<times> cycle) list \<Rightarrow> bool" where
  "halted_inv glob r pend \<longleftrightarrow> prevRespEvent r = None \<and> pend = [] \<and> lastUnhaltedCycle r \<le> glob \<and> totalHaltedCycles r \<le> lastUnhaltedCycle r"

definition rec_inv :: "RecSys \<Rightarrow> bool" where
  "rec_inv y \<longleftrightarrow> (if rec_state (sy_rec y) = REC_HALTED then halted_inv (sy_glob y) (sy_rec y) (sy_pend y) \<and> \<not> sy_fresh y
     else active_inv (sy_cur y) (sy_rec y) (sy_pend y) (sy_fresh y) \<and> sy_glob y \<le> sy_cur y
       \<and> (rec_state (sy_rec y) = REC_DRAINING \<longrightarrow> sy_pend y \<noteq> [] \<and> prevRespEvent (sy_rec y) = Some (CoreEv (fst (last (sy_pend y))))))"

lemma core_events_append [simp]: "core_events (cs @ ds) = core_events cs @ core_events ds"
  by (induction cs rule: core_events.induct) simp_all

lemma chain_event_returns: "prevRespEvent r \<noteq> None \<Longrightarrow> \<exists>r' cs. chain_event d r = Some (r', cs)"
  by (auto simp: chain_event_def Let_def)

text \<open>A chained event keeps the invariant and is the last one.\<close>

lemma chain_event_inv:
  assumes "active_inv cur r pend fresh" "chain_event d r = Some (r', cs)"
  shows "active_inv cur r' (pend @ core_events cs) fresh \<and> core_events cs = [(rec_next r, prevRespCycle r - gapCycles r)]
    \<and> prevRespEvent r' = Some (CoreEv (rec_next r)) \<and> rec_state r' = rec_state r \<and> prevRespCycle r' = prevRespCycle r \<and> gapCycles r' = gapCycles r"
  using assms by (auto simp: chain_event_def Let_def bind_eq_Some_conv active_inv_def split: if_splits)

lemma active_prev_upd:
  "active_inv cur r pend fresh \<Longrightarrow> prevRespCycle r \<le> c \<Longrightarrow> c \<le> cur \<Longrightarrow> active_inv cur (r\<lparr>prevRespCycle := c\<rparr>) pend fresh"
  by (fastforce simp: active_inv_def split: if_splits)

lemma active_cur: "active_inv cur r pend fresh \<Longrightarrow> cur \<le> cur' \<Longrightarrow> active_inv cur' r pend fresh"
  by (auto simp: active_inv_def)

lemma active_state [simp]:
  "active_inv cur (r\<lparr>rec_state := st\<rparr>) pend fresh = active_inv cur r pend fresh" "active_inv cur (r\<lparr>eventRecorder := er\<rparr>) pend fresh = active_inv cur r pend fresh"
  by (simp_all add: active_inv_def)

lemma join_ok:
  assumes "rec_inv y" "rec_state (sy_rec y) \<noteq> REC_RUNNING"
  shows "\<exists>cur' r' cs. notifyJoin (sy_glob y) (sy_cur y) (sy_rec y) = Some (cur', r', cs)
    \<and> rec_inv (y\<lparr>sy_rec := r', sy_cur := cur', sy_pend := sy_pend y @ core_events cs,
      sy_fresh := (if rec_state (sy_rec y) = REC_HALTED then True else sy_fresh y)\<rparr>)"
proof (cases "rec_state (sy_rec y)")
  case REC_HALTED
  with assms have h: "halted_inv (sy_glob y) (sy_rec y) (sy_pend y)" by (simp add: rec_inv_def)
  then have "totalHaltedCycles (sy_rec y) + sy_glob y - lastUnhaltedCycle (sy_rec y) \<le> sy_glob y" unfolding halted_inv_def by linarith
  with REC_HALTED h show ?thesis by (simp add: notifyJoin_def rec_inv_def halted_inv_def active_inv_def Let_def)
next
  case REC_DRAINING
  with assms show ?thesis by (simp add: notifyJoin_def rec_inv_def)
qed (use assms in simp)

lemma leave_ok:
  assumes inv: "rec_inv y" and st: "rec_state (sy_rec y) = REC_RUNNING"
  shows "\<exists>r' cs. notifyLeave (sy_cur y) (sy_rec y) = Some (r', cs) \<and> rec_inv (y\<lparr>sy_rec := r', sy_pend := sy_pend y @ core_events cs\<rparr>)"
proof -
  let ?r = "(sy_rec y)\<lparr>rec_state := REC_DRAINING\<rparr>" and ?cur = "sy_cur y"
  have a: "active_inv ?cur ?r (sy_pend y) (sy_fresh y)" "sy_glob y \<le> ?cur" using inv st by (simp_all add: rec_inv_def)
  then have p: "prevRespEvent ?r \<noteq> None" "prevRespCycle ?r \<le> ?cur" by (simp_all add: active_inv_def)
  then obtain r2 cs where c: "chain_event (?cur - prevRespCycle ?r) ?r = Some (r2, cs)" using chain_event_returns by blast
  note i = chain_event_inv [OF a(1) c]
  have b: "active_inv ?cur (r2\<lparr>prevRespCycle := ?cur\<rparr>) (sy_pend y @ core_events cs) (sy_fresh y)" using i p(2) by (intro active_prev_upd) auto
  from i have "prevRespEvent (r2\<lparr>prevRespCycle := ?cur\<rparr>) \<noteq> None" by simp
  then obtain r3 cs' where c': "chain_event 0 (r2\<lparr>prevRespCycle := ?cur\<rparr>) = Some (r3, cs')" using chain_event_returns by blast
  note j = chain_event_inv [OF b c']
  have "notifyLeave ?cur (sy_rec y) = Some (r3, cs @ cs')" using st p(1) c c' by (simp add: notifyLeave_def)
  moreover from conjunct1 [OF j] have "active_inv ?cur r3 (sy_pend y @ core_events (cs @ cs')) (sy_fresh y)" by (simp only: core_events_append append_assoc)
  moreover have "last (sy_pend y @ core_events (cs @ cs')) = (rec_next r2, ?cur - gapCycles r2)" "core_events (cs @ cs') \<noteq> []" using j by simp_all
  ultimately show ?thesis using i j a(2) by (auto simp: rec_inv_def)
qed

lemma recordAccess_cases:
  assumes "recordAccess c r = Some (r', cs)" "er_tr (eventRecorder r) = tr"
  obtains (put) er' where "r' = r\<lparr>eventRecorder := er', rec_next := Suc (rec_next r)\<rparr>" "core_events cs = []"
    | (get) e er' where "r' = r\<lparr>eventRecorder := er', rec_next := Suc (rec_next r), prevRespEvent := Some e, prevRespCycle := tr_respCycle tr\<rparr>"
        "core_events cs = [(rec_next r, prevRespCycle r - gapCycles r)]"
proof (cases "IsGet (tr_type tr)")
  case True
  with assms obtain e where "endEvent tr = Some e" "core_events cs = [(rec_next r, prevRespCycle r - gapCycles r)]"
    "r' = r\<lparr>eventRecorder := snd (popRecord (eventRecorder r)), rec_next := Suc (rec_next r), prevRespEvent := Some (AccessEv e), prevRespCycle := tr_respCycle tr\<rparr>"
    unfolding recordAccess_def popRecord_def by (auto simp: Let_def bind_eq_Some_conv)
  then show thesis using get by blast
next
  case False
  with assms have "core_events cs = []" "r' = r\<lparr>eventRecorder := snd (popRecord (eventRecorder r)), rec_next := Suc (rec_next r)\<rparr>"
    unfolding recordAccess_def popRecord_def by (auto simp: Let_def bind_eq_Some_conv)
  then show thesis using put by blast
qed

lemma access_inv:
  assumes inv: "rec_inv y" and st: "rec_state (sy_rec y) = REC_RUNNING" and le: "sy_cur y \<le> cur'"
    and valid: "tr_isValid tr \<Longrightarrow> sy_cur y \<le> reqCycle tr \<and> reqCycle tr \<le> tr_respCycle tr \<and> tr_respCycle tr \<le> cur'"
    and r: "er_tr (eventRecorder r) = tr" "r = (sy_rec y)\<lparr>eventRecorder := er\<rparr>" "cr_record (sy_cur y) r = Some (r', cs)"
  shows "rec_inv (y\<lparr>sy_rec := r', sy_cur := cur', sy_pend := sy_pend y @ core_events cs\<rparr>)"
proof -
  have a: "active_inv (sy_cur y) r (sy_pend y) (sy_fresh y)" "sy_glob y \<le> sy_cur y" "rec_state r = REC_RUNNING" using inv st r(2) by (simp_all add: rec_inv_def)
  have prev: "prevRespCycle r \<le> sy_cur y" using a(1) by (simp add: active_inv_def)
  have "active_inv cur' r' (sy_pend y @ core_events cs) (sy_fresh y) \<and> rec_state r' = REC_RUNNING"
  proof (cases "hasRecord (eventRecorder r)")
    case False
    with r(3) active_cur [OF a(1) le] a(3) show ?thesis by (simp add: cr_record_def)
  next
    case True
    then have tr: "reqCycle tr \<le> tr_respCycle tr" "sy_cur y \<le> reqCycle tr" "tr_respCycle tr \<le> cur'" using valid r(1) by (simp_all add: hasRecord_def)
    from True r(3) have "recordAccess (sy_cur y) r = Some (r', cs)" by (simp add: cr_record_def)
    from this r(1) show ?thesis
    proof (cases rule: recordAccess_cases)
      case (put er')
      then show ?thesis using active_cur [OF a(1) le] a(3) by (auto simp: active_inv_def)
    next
      case (get e er')
      let ?r = "r\<lparr>prevRespCycle := tr_respCycle tr\<rparr>"
      have "prevRespCycle r \<le> tr_respCycle tr" using prev tr by linarith
      then have "active_inv cur' ?r (sy_pend y) (sy_fresh y)" using active_prev_upd [OF active_cur [OF a(1) le]] tr(3) by simp
      then show ?thesis using get a(1,3) prev tr by (auto simp: active_inv_def split: if_splits)
    qed
  qed
  then show ?thesis using a le by (simp add: rec_inv_def)
qed

subsection \<open>The end of a phase\<close>

lemma eventRecorder_self: "\<exists>er. r = r\<lparr>eventRecorder := er\<rparr>"
  by (rule exI [of _ "eventRecorder r"]) simp

lemma report_all_ok:
  assumes "length ss = length es" "distinct (map fst es)"
    and "\<forall>n \<in> fst ` set es. prevRespEvent r = Some (CoreEv n) \<longrightarrow> rec_state r = REC_DRAINING"
  shows "\<exists>er lo ls. report_all es ss r = Some (r\<lparr>eventRecorder := er, lastEventSimulatedOrigStartCycle := lo, lastEventSimulatedStartCycle := ls,
        prevRespEvent := (if \<exists>n \<in> fst ` set es. prevRespEvent r = Some (CoreEv n) then None else prevRespEvent r)\<rparr>)
    \<and> (if es = [] then lo = lastEventSimulatedOrigStartCycle r \<and> ls = lastEventSimulatedStartCycle r else lo = snd (last es) \<and> ls = last ss)"
  using assms
proof (induction es ss r rule: report_all.induct)
  case (1 n orig es s ss r)
  let ?r1 = "r\<lparr>lastEventSimulatedStartCycle := s, lastEventSimulatedOrigStartCycle := orig\<rparr>"
  define er where "er = setStartSlack (s - orig) (eventRecorder r)"
  define r1 where "r1 = ?r1\<lparr>eventRecorder := er, prevRespEvent := (if prevRespEvent r = Some (CoreEv n) then None else prevRespEvent r)\<rparr>"
  have rep: "reportEventSimulated n orig s r = Some r1"
    using "1.prems"(3) by (auto simp: reportEventSimulated_def Let_def r1_def er_def)
  have pre: "length ss = length es" "distinct (map fst es)" "\<forall>n \<in> fst ` set es. prevRespEvent r1 = Some (CoreEv n) \<longrightarrow> rec_state r1 = REC_DRAINING"
    using "1.prems" by (auto simp: r1_def split: if_splits)
  from "1.IH" [OF rep pre] obtain er' lo ls where
    h: "report_all es ss r1 = Some (r1\<lparr>eventRecorder := er', lastEventSimulatedOrigStartCycle := lo, lastEventSimulatedStartCycle := ls,
        prevRespEvent := (if \<exists>n \<in> fst ` set es. prevRespEvent r1 = Some (CoreEv n) then None else prevRespEvent r1)\<rparr>)"
      "if es = [] then lo = lastEventSimulatedOrigStartCycle r1 \<and> ls = lastEventSimulatedStartCycle r1 else lo = snd (last es) \<and> ls = last ss" by blast
  have "(if \<exists>n \<in> fst ` set es. prevRespEvent r1 = Some (CoreEv n) then None else prevRespEvent r1)
    = (if \<exists>m \<in> fst ` set ((n, orig) # es). prevRespEvent r = Some (CoreEv m) then None else prevRespEvent r)"
    by (auto simp: r1_def)
  then have "report_all ((n, orig) # es) (s # ss) r = Some (r\<lparr>eventRecorder := er', lastEventSimulatedOrigStartCycle := lo, lastEventSimulatedStartCycle := ls,
      prevRespEvent := (if \<exists>m \<in> fst ` set ((n, orig) # es). prevRespEvent r = Some (CoreEv m) then None else prevRespEvent r)\<rparr>)"
    using rep h(1) by (simp add: r1_def)
  moreover have "lo = snd (last ((n, orig) # es)) \<and> ls = last (s # ss)" using h(2) "1.prems"(1) by (auto simp: r1_def split: if_splits)
  ultimately show ?case by auto
qed (auto simp: eventRecorder_self)

text \<open>Before the weave phase a running recorder has a last event that starts after the phase, and a draining one is in the next phase.\<close>

lemma cSimStart_ok:
  assumes inv: "rec_inv y" and st: "rec_state (sy_rec y) \<noteq> REC_HALTED" and run: "rec_state (sy_rec y) = REC_RUNNING \<Longrightarrow> sy_glob y + len \<le> sy_cur y"
  shows "\<exists>cur r cs. cr_cSimStart (sy_glob y) len (sy_cur y) (sy_rec y) = Some (cur, r, cs) \<and> active_inv cur r (sy_pend y @ core_events cs) (sy_fresh y)
    \<and> rec_state r = rec_state (sy_rec y) \<and> gapCycles r = gapCycles (sy_rec y) \<and> sy_glob y + len \<le> cur \<and> sy_pend y @ core_events cs \<noteq> []
    \<and> prevRespEvent r = Some (CoreEv (fst (last (sy_pend y @ core_events cs))))
    \<and> (rec_state r = REC_RUNNING \<longrightarrow> sy_glob y + len \<le> snd (last (sy_pend y @ core_events cs)) + gapCycles r)"
proof (cases "rec_state (sy_rec y)")
  case REC_DRAINING
  with inv active_cur [of "sy_cur y" "sy_rec y" "sy_pend y" "sy_fresh y" "sy_glob y + len"] show ?thesis
    by (simp add: cr_cSimStart_def rec_inv_def)
next
  case REC_RUNNING
  let ?r = "sy_rec y" and ?cur = "sy_cur y"
  have a: "active_inv ?cur ?r (sy_pend y) (sy_fresh y)" using inv REC_RUNNING by (simp add: rec_inv_def)
  have "\<exists>r1 cs. (if prevRespCycle ?r < ?cur then do { (r', cs) \<leftarrow> chain_event (?cur - prevRespCycle ?r) ?r; Some (r'\<lparr>prevRespCycle := ?cur\<rparr>, cs) } else Some (?r, []))
      = Some (r1, cs) \<and> active_inv ?cur r1 (sy_pend y @ core_events cs) (sy_fresh y) \<and> rec_state r1 = REC_RUNNING \<and> gapCycles r1 = gapCycles ?r \<and> prevRespCycle r1 = ?cur"
  proof (cases "prevRespCycle ?r < ?cur")
    case True
    from a have "prevRespEvent ?r \<noteq> None" by (simp add: active_inv_def)
    then obtain r1 cs where c: "chain_event (?cur - prevRespCycle ?r) ?r = Some (r1, cs)" using chain_event_returns by blast
    note i = chain_event_inv [OF a c]
    then have "active_inv ?cur (r1\<lparr>prevRespCycle := ?cur\<rparr>) (sy_pend y @ core_events cs) (sy_fresh y)" using True by (intro active_prev_upd) auto
    with i c True REC_RUNNING show ?thesis by simp
  next
    case False
    with a have "prevRespCycle ?r = ?cur" by (simp add: active_inv_def)
    with a False REC_RUNNING show ?thesis by simp
  qed
  then obtain r1 cs where
    c: "(if prevRespCycle ?r < ?cur then do { (r', cs) \<leftarrow> chain_event (?cur - prevRespCycle ?r) ?r; Some (r'\<lparr>prevRespCycle := ?cur\<rparr>, cs) } else Some (?r, []))
      = Some (r1, cs)" and
    b: "active_inv ?cur r1 (sy_pend y @ core_events cs) (sy_fresh y)" "rec_state r1 = REC_RUNNING" "gapCycles r1 = gapCycles ?r" "prevRespCycle r1 = ?cur" by blast
  from b(1) have "prevRespEvent r1 \<noteq> None" and gap: "gapCycles r1 \<le> ?cur" by (auto simp: active_inv_def)
  then obtain r2 cs' where c': "chain_event 0 r1 = Some (r2, cs')" using chain_event_returns by blast
  note j = chain_event_inv [OF b(1) c']
  have "cr_cSimStart (sy_glob y) len ?cur ?r = Some (?cur, r2, cs @ cs')"
    using REC_RUNNING run c c' unfolding cr_cSimStart_def by simp
  moreover from conjunct1 [OF j] have "active_inv ?cur r2 (sy_pend y @ core_events (cs @ cs')) (sy_fresh y)" by (simp only: core_events_append append_assoc)
  moreover have "last (sy_pend y @ core_events (cs @ cs')) = (rec_next r1, ?cur - gapCycles r1)" "core_events (cs @ cs') \<noteq> []" using j b(4) by simp_all
  ultimately show ?thesis using j b REC_RUNNING run gap by auto
qed (use st in simp)

lemma weave_okD:
  assumes "weave_ok gap limit fresh es ss" "es \<noteq> []"
  shows "snd (last es) + gap \<le> last ss" "last ss < limit"
proof -
  have "(last es, last ss) \<in> set (zip es ss)"
    using assms by (metis last_in_set last_zip length_greater_0_conv length_zip min.idem weave_ok_def)
  with assms(1) show "snd (last es) + gap \<le> last ss" "last ss < limit" by (auto simp: weave_ok_def)
qed

lemma weave_ok_all:
  assumes "weave_ok gap limit fresh es ss" "e \<in> set es"
  shows "snd e + gap < limit"
proof -
  from assms obtain i where "i < length es" "e = es ! i" "length ss = length es" by (auto simp: in_set_conv_nth weave_ok_def)
  then have "(e, ss ! i) \<in> set (zip es ss)" by (auto simp: set_zip)
  with assms(1) show ?thesis by (cases e) (fastforce simp: weave_ok_def)
qed

text \<open>The end of a phase returns, whatever the weave phase did within its promise.\<close>

lemma end_phase_ok:
  assumes inv: "rec_inv y" and run: "rec_state (sy_rec y) = REC_RUNNING \<Longrightarrow> sy_glob y + len \<le> sy_cur y" and k: "k \<le> length (waiting len y)"
    and wv: "weave_ok (gapCycles (sy_rec y)) (sy_glob y + len) (sy_fresh y) (take k (waiting len y)) ss"
  shows "\<exists>y'. end_phase len k ss y = Some y' \<and> rec_inv y'"
proof (cases "rec_state (sy_rec y) = REC_HALTED")
  case True
  with inv k show ?thesis by (auto simp: end_phase_def cr_cSimStart_def cr_cSimEnd_def waiting_def rec_inv_def halted_inv_def)
next
  case False
  from cSimStart_ok [OF inv False run] obtain cur r cs where
    s: "cr_cSimStart (sy_glob y) len (sy_cur y) (sy_rec y) = Some (cur, r, cs)" and a: "active_inv cur r (sy_pend y @ core_events cs) (sy_fresh y)"
      "rec_state r = rec_state (sy_rec y)" "gapCycles r = gapCycles (sy_rec y)" "sy_glob y + len \<le> cur" "sy_pend y @ core_events cs \<noteq> []"
      "prevRespEvent r = Some (CoreEv (fst (last (sy_pend y @ core_events cs))))"
      "rec_state r = REC_RUNNING \<Longrightarrow> sy_glob y + len \<le> snd (last (sy_pend y @ core_events cs)) + gapCycles r" by blast
  define es where "es = sy_pend y @ core_events cs"
  define ds where "ds = take k es"
  have w: "waiting len y = es" using s by (simp add: waiting_def es_def)
  have wv: "weave_ok (gapCycles r) (sy_glob y + len) (sy_fresh y) ds ss" using wv w a(3) by (simp add: ds_def)
  have act: "active_inv cur r es (sy_fresh y)" using a(1) by (simp add: es_def)
  then have dist: "distinct (map fst es)" by (simp add: active_inv_def)
  have last: "ds = es \<and> rec_state r = REC_DRAINING" if "n \<in> fst ` set ds" "prevRespEvent r = Some (CoreEv n)" for n
  proof -
    from that a(6) have "fst (last es) \<in> fst ` set ds" by (simp add: es_def)
    have "last es \<in> set ds"
    proof -
      from \<open>fst (last es) \<in> fst ` set ds\<close> obtain x where x: "x \<in> set ds" "fst x = fst (last es)" by auto
      then have "x \<in> set es" using set_take_subset by (fastforce simp: ds_def)
      moreover have "last es \<in> set es" using a(5) last_in_set unfolding es_def by blast
      ultimately have "x = last es" using dist x(2) by (metis distinct_map inj_onD)
      with x show ?thesis by simp
    qed
    then have "rec_state r \<noteq> REC_RUNNING" using weave_ok_all [OF wv] a(7) by (fastforce simp: es_def)
    moreover have "k \<ge> length es"
    proof (rule ccontr)
      assume "\<not> k \<ge> length es"
      then have "es = ds @ drop k es" "drop k es \<noteq> []" by (simp_all add: ds_def)
      then have "last es \<in> set (drop k es)" by (metis last_appendR last_in_set)
      moreover have "set ds \<inter> set (drop k es) = {}" using dist distinct_append [of ds "drop k es"] by (simp add: ds_def distinct_map)
      ultimately show False using \<open>last es \<in> set ds\<close> by blast
    qed
    ultimately show ?thesis using a(2) False by (cases "rec_state r") (auto simp: ds_def)
  qed
  have "length ss = length ds" using wv by (simp add: weave_ok_def)
  moreover have "distinct (map fst ds)" using distinct_take [OF dist, of k] by (simp add: ds_def take_map)
  moreover have "\<forall>n \<in> fst ` set ds. prevRespEvent r = Some (CoreEv n) \<longrightarrow> rec_state r = REC_DRAINING" using last by blast
  note report_all_ok [OF calculation this]
  then obtain er lo ls where
    rep: "report_all ds ss r = Some (r\<lparr>eventRecorder := er, lastEventSimulatedOrigStartCycle := lo, lastEventSimulatedStartCycle := ls,
        prevRespEvent := (if \<exists>n \<in> fst ` set ds. prevRespEvent r = Some (CoreEv n) then None else prevRespEvent r)\<rparr>)" and
    l: "if ds = [] then lo = lastEventSimulatedOrigStartCycle r \<and> ls = lastEventSimulatedStartCycle r else lo = snd (last ds) \<and> ls = last ss" by blast
  have "last ds \<in> set es" if "ds \<noteq> []"
    using last_in_set [OF that] set_take_subset [of k es] unfolding ds_def by blast
  then have bnd: "lo + gapCycles r \<le> ls" "ls \<le> cur" "lo + gapCycles r \<le> prevRespCycle r" "prevRespCycle r \<le> cur" "totalHaltedCycles r \<le> lo"
    using l weave_okD [OF wv] act a(4) wv by (auto simp: active_inv_def weave_ok_def split: if_splits)
  define skew where "skew = ls - (lo + gapCycles r)"
  let ?pe = "if \<exists>n \<in> fst ` set ds. prevRespEvent r = Some (CoreEv n) then None else prevRespEvent r"
  let ?r2 = "r\<lparr>eventRecorder := er, lastEventSimulatedOrigStartCycle := lo, lastEventSimulatedStartCycle := ls, prevRespEvent := ?pe\<rparr>"
  let ?r3 = "?r2\<lparr>gapCycles := gapCycles r + skew, prevRespCycle := prevRespCycle r + skew, eventRecorder := setGapCycles (gapCycles r + skew) er\<rparr>"
  have nh: "rec_state r \<noteq> REC_HALTED" using a(2) False by simp
  have k0: "\<not> (sy_fresh y \<and> k = 0)" using wv by (auto simp: weave_ok_def ds_def)
  show ?thesis
  proof (cases "\<exists>n \<in> fst ` set ds. prevRespEvent r = Some (CoreEv n)")
    case True
    then have all: "ds = es" "rec_state r = REC_DRAINING" using last by blast+
    then have ne: "ds \<noteq> []" "drop k es = []" using a(5) unfolding es_def [symmetric] by (simp_all add: ds_def take_all_iff)
    let ?h = "?r3\<lparr>lastUnhaltedCycle := ls, rec_state := REC_HALTED\<rparr>"
    have "cr_cSimEnd cur ?r2 = Some (cur + skew, ?h)" using True nh bnd all by (simp add: cr_cSimEnd_def Let_def skew_def)
    then have "end_phase len k ss y = Some (y\<lparr>sy_rec := ?h, sy_cur := cur + skew, sy_glob := sy_glob y + len, sy_pend := drop k es, sy_fresh := (sy_fresh y \<and> k = 0)\<rparr>)"
      using s rep unfolding end_phase_def by (simp add: es_def ds_def)
    moreover have "ls < sy_glob y + len" using l ne weave_okD(2) [OF wv] by simp
    ultimately show ?thesis using True ne bnd k0 by (simp add: rec_inv_def halted_inv_def)
  next
    case other: False
    have "cr_cSimEnd cur ?r2 = Some (cur + skew, ?r3)" using other nh bnd a(6) by (simp add: cr_cSimEnd_def Let_def skew_def)
    then have e: "end_phase len k ss y = Some (y\<lparr>sy_rec := ?r3, sy_cur := cur + skew, sy_glob := sy_glob y + len, sy_pend := drop k es, sy_fresh := (sy_fresh y \<and> k = 0)\<rparr>)"
      using s rep unfolding end_phase_def by (simp add: es_def ds_def)
    have lt: "k < length es"
    proof (rule ccontr)
      assume "\<not> k < length es"
      then have "ds = es" by (simp add: ds_def)
      with a(5) have "last es \<in> set ds" using last_in_set [of es] by (simp add: es_def [symmetric])
      with other a(6) show False by (auto simp: es_def)
    qed
    have sk: "lo + (gapCycles r + skew) = ls" using bnd(1) by (simp add: skew_def)
    have "\<forall>(n, orig) \<in> set (drop k es). orig + (gapCycles r + skew) \<le> prevRespCycle r + skew \<and> n < rec_next r \<and> totalHaltedCycles r \<le> orig"
      using act set_drop_subset [of k es] by (fastforce simp: active_inv_def)
    moreover have "distinct (map fst (drop k es))" using distinct_drop [OF dist, of k] by (simp add: drop_map)
    ultimately have "active_inv (cur + skew) ?r3 (drop k es) False"
      using act bnd(3-5) sk other a(6) unfolding active_inv_def by simp
    moreover have "last (drop k es) = last es" "drop k es \<noteq> []" using lt by simp_all
    ultimately show ?thesis using e k0 nh a(4,6) other by (simp add: rec_inv_def es_def)
  qed
qed

subsection \<open>Every reachable recorder\<close>

lemma rec_step_inv: "rec_step len y y' \<Longrightarrow> rec_inv y \<Longrightarrow> rec_inv y'"
proof (induction rule: rec_step.induct)
  case (join y cur' r' cs)
  with join_ok [OF join.prems join.hyps(1)] show ?case by auto
next
  case (run y cur')
  then show ?case using active_cur by (auto simp: rec_inv_def)
next
  case (access y tr cur' r er r' cs)
  show ?case by (rule access_inv [OF access.prems access.hyps])
next
  case (leave y r' cs)
  with leave_ok [OF leave.prems leave.hyps(1)] show ?case by auto
next
  case (phase y k ss y')
  with end_phase_ok [OF phase.prems phase.hyps(1-3)] show ?case by auto
qed

lemma rec_reachable_inv: "rec_reachable len y \<Longrightarrow> rec_inv y"
proof (induction rule: rec_reachable.induct)
  case (init dmn r)
  then show ?case by (simp add: rec_inv_def halted_inv_def CoreRecorder_new_def)
next
  case (step y y')
  then show ?case by (rule_tac rec_step_inv)
qed

lemma cr_record_ok:
  assumes inv: "rec_inv y" and st: "rec_state (sy_rec y) = REC_RUNNING"
    and tr: "startEvent (er_tr er) \<noteq> None \<Longrightarrow> endEvent (er_tr er) \<noteq> None \<and> sy_cur y \<le> reqCycle (er_tr er)"
  shows "cr_record (sy_cur y) ((sy_rec y)\<lparr>eventRecorder := er\<rparr>) \<noteq> None"
proof -
  have "prevRespEvent (sy_rec y) \<noteq> None" "prevRespCycle (sy_rec y) \<le> sy_cur y" using inv st by (simp_all add: rec_inv_def active_inv_def)
  with tr show ?thesis
    by (auto simp: cr_record_def recordAccess_def popRecord_def hasRecord_def tr_isValid_def Let_def IsGet_IsPut)
qed


definition raw_recorder :: CoreRecorder where
  "raw_recorder = \<lparr>rec_state = REC_HALTED, gapCycles = 0, eventRecorder = \<lparr>er_tr = \<lparr>tr_addr = 0, reqCycle = 0, tr_respCycle = 0, tr_type = GETS,
     startEvent = None, endEvent = None\<rparr>, lastGapCycles = 0, lastStartSlack = 0, er_srcId = 0\<rparr>, prevRespCycle = 0, prevRespEvent = None,
     lastEventSimulatedStartCycle = 0, lastEventSimulatedOrigStartCycle = 0, totalGapCycles = 0, totalHaltedCycles = 0, lastUnhaltedCycle = 0,
     rec_domain = 0, rec_next = 0\<rparr>"

definition start_sys :: RecSys where
  "start_sys = \<lparr>sy_rec = CoreRecorder_new 0 raw_recorder, sy_cur = 0, sy_glob = 0, sy_pend = [], sy_fresh = False\<rparr>"

lemma start_reachable: "rec_reachable len start_sys"
  unfolding start_sys_def by (rule rec_reachable.init)


text \<open>The count of unhalted cycles is sound: in every reachable state the halted cycles are part of the cycles so far, so that the difference does
  not wrap, and a join takes exactly the cycles since the halt out of the count.\<close>

lemma unhalted_cycles_sound:
  assumes "rec_reachable len y"
  shows "totalHaltedCycles (sy_rec y) + (if rec_state (sy_rec y) = REC_HALTED then max (sy_cur y) (sy_glob y) - lastUnhaltedCycle (sy_rec y) else 0)
      \<le> max (sy_cur y) (sy_glob y)
    \<and> (\<forall>cur' r' cs. rec_state (sy_rec y) = REC_HALTED \<longrightarrow> notifyJoin (sy_glob y) (sy_cur y) (sy_rec y) = Some (cur', r', cs)
         \<longrightarrow> getUnhaltedCycles (sy_glob y) cur' r' = getUnhaltedCycles (sy_glob y) (sy_cur y) (sy_rec y))"
proof (cases "rec_state (sy_rec y) = REC_HALTED")
  case True
  with rec_reachable_inv [OF assms] have "lastUnhaltedCycle (sy_rec y) \<le> sy_glob y" "totalHaltedCycles (sy_rec y) \<le> lastUnhaltedCycle (sy_rec y)"
    by (simp_all add: rec_inv_def halted_inv_def)
  with True show ?thesis by (auto simp: notifyJoin_def getUnhaltedCycles_def Let_def bind_eq_Some_conv)
next
  case False
  with rec_reachable_inv [OF assms] show ?thesis by (auto simp: rec_inv_def active_inv_def)
qed

end
