(* ===== verification/WeaveMem.thy ===== *)
theory WeaveMem
  imports CacheOps
begin

text \<open>
  The memories whose accesses are simulated in the weave phase (\<^verbatim>\<open>src/src/weave_md1_mem.h\<close>). In the bound phase they answer with their zero-load
  latency and leave a timing record whose one event takes, before, in and after its simulation, the latency of the memory they are derived
  from. The events are a list, and the reference of an event its position there; the recorder of the source may be absent.
\<close>

section \<open>The event of an access\<close>

record WeaveMemAccEvent =
  we_lat :: nat
  we_domain :: nat
  we_preDelay :: nat
  we_postDelay :: nat
  we_minStartCycle :: cycle

text \<open>\<^verbatim>\<open>simulate\<close>: the cycle given to \<^verbatim>\<open>done\<close>.\<close>

definition we_simulate :: "cycle \<Rightarrow> WeaveMemAccEvent \<Rightarrow> cycle" where
  "we_simulate startCycle e = startCycle + we_lat e"

text \<open>The recorder of the source and the events made so far.\<close>

type_synonym weave_state = "EventRecorder option \<times> WeaveMemAccEvent list"

definition weave_record :: "WeaveMemAccEvent \<Rightarrow> MemReq \<Rightarrow> cycle \<Rightarrow> weave_state \<Rightarrow> weave_state option" where
  "weave_record ev req respCycle = (\<lambda>(er, evs). case er of
     Some rec \<Rightarrow> if r_type req \<noteq> PUTS then do {
         let memEv = EvRef (length evs);
         rec' \<leftarrow> pushRecord \<lparr>tr_addr = r_lineAddr req, reqCycle = r_cycle req, tr_respCycle = respCycle, tr_type = r_type req,
           startEvent = Some memEv, endEvent = Some memEv\<rparr> rec;
         Some (Some rec', evs @ [ev]) }
       else Some (er, evs)
   | None \<Rightarrow> Some (er, evs))"

section \<open>Over the memory of fixed latency\<close>

record WeaveSimpleMemory =
  wm_latency :: nat
  wm_zeroLoadLatency :: nat
  wm_domain :: nat
  wm_preDelay :: nat
  wm_postDelay :: nat

definition WeaveSimpleMemory_new :: "nat \<Rightarrow> nat \<Rightarrow> nat \<Rightarrow> WeaveSimpleMemory option" where
  "WeaveSimpleMemory_new latency zll dmn = do {
     assert_that (latency \<ge> zll);
     let pre = zll div 2;
     Some \<lparr>wm_latency = latency, wm_zeroLoadLatency = zll, wm_domain = dmn, wm_preDelay = pre, wm_postDelay = zll - pre\<rparr> }"

definition WeaveSimpleMemory_access :: "WeaveSimpleMemory \<Rightarrow> MemReq \<Rightarrow> weave_state \<Rightarrow> (cycle \<times> MESIState \<times> weave_state) option" where
  "WeaveSimpleMemory_access m req s = do {
     (realRespCycle, st) \<leftarrow> SimpleMemory_access (wm_latency m) req;
     let realLatency = (realRespCycle - r_cycle req) mod 2 ^ 32;
     let respCycle = r_cycle req + (if r_type req = PUTS then 0 else wm_zeroLoadLatency m);
     assert_that (realRespCycle \<ge> respCycle);
     assert_that (r_type req = PUTS \<or> realLatency \<ge> wm_zeroLoadLatency m);
     s' \<leftarrow> weave_record \<lparr>we_lat = realLatency - wm_zeroLoadLatency m, we_domain = wm_domain m, we_preDelay = wm_preDelay m,
       we_postDelay = wm_postDelay m, we_minStartCycle = r_cycle req\<rparr> req respCycle s;
     Some (respCycle, st, s') }"

section \<open>Over the M/D/1 memory\<close>

text \<open>The zero-load latency of the class hides that of its base, which has the same value; \<open>newLat\<close> is the parameter of the base.\<close>

record WeaveMD1Memory =
  wd_md1 :: MD1Memory
  wd_zeroLoadLatency :: nat
  wd_boundLatency :: nat
  wd_domain :: nat
  wd_preDelay :: nat
  wd_postDelay :: nat

definition WeaveMD1Memory_new :: "MD1Memory \<Rightarrow> nat \<Rightarrow> nat \<Rightarrow> WeaveMD1Memory" where
  "WeaveMD1Memory_new base boundLatency dmn = (let zll = zeroLoadLatency base; pre = zll div 2 in
     \<lparr>wd_md1 = base, wd_zeroLoadLatency = zll, wd_boundLatency = boundLatency, wd_domain = dmn, wd_preDelay = pre, wd_postDelay = zll - pre\<rparr>)"

definition WeaveMD1Memory_access :: "(nat \<Rightarrow> nat \<Rightarrow> nat) \<Rightarrow> nat \<Rightarrow> nat \<Rightarrow> MemReq \<Rightarrow> WeaveMD1Memory \<times> weave_state
    \<Rightarrow> (cycle \<times> MESIState \<times> WeaveMD1Memory \<times> weave_state) option" where
  "WeaveMD1Memory_access newLat numPhases phaseLength req = (\<lambda>(m, s). do {
     let (realRespCycle, st, base) = MD1_access newLat numPhases phaseLength req (wd_md1 m);
     let realLatency = (realRespCycle - r_cycle req) mod 2 ^ 32;
     let respCycle = r_cycle req + (if r_type req = PUTS then 0 else wd_boundLatency m);
     assert_that (realRespCycle \<ge> respCycle);
     assert_that (r_type req = PUTS \<or> realLatency \<ge> wd_zeroLoadLatency m);
     s' \<leftarrow> weave_record \<lparr>we_lat = realLatency - wd_zeroLoadLatency m, we_domain = wd_domain m, we_preDelay = wd_preDelay m,
       we_postDelay = wd_postDelay m, we_minStartCycle = r_cycle req\<rparr> req respCycle s;
     Some (respCycle, st, m\<lparr>wd_md1 := base\<rparr>, s') })"

section \<open>What an access leaves behind\<close>

text \<open>The cycle at which the response of an event without contention leaves it, when its parent is done at cycle \<open>c\<close>.\<close>

definition we_end :: "cycle \<Rightarrow> WeaveMemAccEvent \<Rightarrow> cycle" where
  "we_end c e = we_simulate (c + we_preDelay e) e + we_postDelay e"

lemma weave_record_ok:
  assumes "\<not> hasRecord er" "r_type req \<noteq> PUTS"
  shows "weave_record ev req resp (Some er, evs) = Some (Some (er\<lparr>er_tr := \<lparr>tr_addr = r_lineAddr req, reqCycle = r_cycle req, tr_respCycle = resp,
    tr_type = r_type req, startEvent = Some (EvRef (length evs)), endEvent = Some (EvRef (length evs))\<rparr>\<rparr>), evs @ [ev])"
  using assms by (simp add: weave_record_def pushRecord_def hasRecord_def tr_isValid_def Let_def)

text \<open>A memory that has just been built answers each request that is not a clean writeback.\<close>

lemma WeaveSimple_answers:
  assumes m: "WeaveSimpleMemory_new latency zll dmn = Some m" and lat: "0 < latency" "latency < 2 ^ 32"
    and req: "r_type req \<noteq> PUTS" "\<not> hasRecord er"
  shows "\<exists>st ev er'. WeaveSimpleMemory_access m req (Some er, evs) = Some (r_cycle req + zll, st, Some er', evs @ [ev])
    \<and> er_tr er' = \<lparr>tr_addr = r_lineAddr req, reqCycle = r_cycle req, tr_respCycle = r_cycle req + zll,
        tr_type = r_type req, startEvent = Some (EvRef (length evs)), endEvent = Some (EvRef (length evs))\<rparr>
    \<and> we_end c ev = c + latency"
proof -
  from m have z: "zll \<le> latency" and f: "m = \<lparr>wm_latency = latency, wm_zeroLoadLatency = zll, wm_domain = dmn, wm_preDelay = zll div 2, wm_postDelay = zll - zll div 2\<rparr>"
    by (auto simp: WeaveSimpleMemory_new_def Let_def bind_eq_Some_conv)
  have "zll div 2 \<le> zll" by simp
  with z have e: "c + zll div 2 + (latency - zll) + (zll - zll div 2) = c + latency" by linarith
  obtain st where "SimpleMemory_access latency req = Some (r_cycle req + latency, st)" using lat by (auto simp: SimpleMemory_access_def Let_def)
  with z lat req f e show ?thesis
    by (simp add: WeaveSimpleMemory_access_def weave_record_ok Let_def we_end_def we_simulate_def)
qed

text \<open>C28: the weave-phase memory over the M/D/1 memory splits the latency of the base without losing a cycle. When the base answers no faster than its
  zero-load latency, an access that is not a clean writeback and finds no record trips no assertion, answers with the bound latency, leaves one
  record, from the cycle of the request to that of the answer, and the event of the record ends exactly one base latency after it is reached.\<close>

theorem weave_latency_exact:
  assumes "MD1_access newLat numPhases phaseLength req base = (r_cycle req + lat, st, base')" "r_type req \<noteq> PUTS" "\<not> hasRecord er"
    and "zeroLoadLatency base \<le> lat" "lat < 2 ^ 32" "boundLatency \<le> zeroLoadLatency base"
  shows "\<exists>ev er' m'. WeaveMD1Memory_access newLat numPhases phaseLength req (WeaveMD1Memory_new base boundLatency dmn, Some er, evs)
      = Some (r_cycle req + boundLatency, st, m', Some er', evs @ [ev])
    \<and> wd_md1 m' = base' \<and> reqCycle (er_tr er') = r_cycle req \<and> tr_respCycle (er_tr er') = r_cycle req + boundLatency
    \<and> startEvent (er_tr er') = Some (EvRef (length evs)) \<and> endEvent (er_tr er') = startEvent (er_tr er')
    \<and> we_minStartCycle ev = r_cycle req \<and> we_end c ev = c + lat"
proof -
  let ?z = "zeroLoadLatency base"
  have "?z div 2 \<le> ?z" by simp
  with assms(4) have "c + ?z div 2 + (lat - ?z) + (?z - ?z div 2) = c + lat" by linarith
  with assms show ?thesis
    by (simp add: WeaveMD1Memory_access_def WeaveMD1Memory_new_def weave_record_ok Let_def we_end_def we_simulate_def)
qed

definition idle_recorder :: EventRecorder where
  "idle_recorder = \<lparr>er_tr = \<lparr>tr_addr = 0, reqCycle = 0, tr_respCycle = 0, tr_type = GETS, startEvent = None, endEvent = None\<rparr>,
     lastGapCycles = 0, lastStartSlack = 0, er_srcId = 0\<rparr>"

definition loaded_md1 :: MD1Memory where
  "loaded_md1 = \<lparr>lastPhase = 4, zeroLoadLatency = 81, curLatency = 120, profReads = 0, profWrites = 0, profTotalRdLat = 0, profTotalWrLat = 0,
     profUpdates = 1, curPhaseAccesses = 7\<rparr>"

definition read_req :: MemReq where
  "read_req = \<lparr>r_lineAddr = 64, r_type = GETS, r_childId = 0, r_state = LocalCell 0, r_cycle = 1000, r_initialState = I, r_srcId = 0, r_flags = 0\<rparr>"

theorem weave_latency_exact_witness:
  "\<exists>ev er' m' st. WeaveMD1Memory_access (\<lambda>a p. 81) 4 10000 read_req (WeaveMD1Memory_new loaded_md1 80 0, Some idle_recorder, [])
      = Some (1080, st, m', Some er', [ev]) \<and> we_end 2000 ev = 2120"
proof -
  have "MD1_access (\<lambda>a p. 81) 4 10000 read_req loaded_md1
    = (r_cycle read_req + 120, E, loaded_md1\<lparr>profReads := 1, profTotalRdLat := 120, curPhaseAccesses := 8\<rparr>)"
    by (simp add: MD1_access_def loaded_md1_def read_req_def is_flag_def Let_def)
  from weave_latency_exact [OF this, of idle_recorder 80 0 "[]" 2000] show ?thesis
    by (auto simp: read_req_def loaded_md1_def idle_recorder_def hasRecord_def tr_isValid_def)
qed

end
