(* ===== verification/OOOWindow.thy ===== *)
theory OOOWindow
  imports Prelude
begin

text \<open>
  The instruction window of the out-of-order core (\<^verbatim>\<open>WindowStructure\<close> of \<^verbatim>\<open>src/src/ooo_core.h\<close>): it finds, for a micro-operation,
  the first cycle from a given one on in which an execution port that the operation can use is free. Two arrays of \<open>H\<close> cycles and a
  map of the later cycles hold the ports in use; as time advances the arrays are swapped and refilled from the map.

  The template parameters \<^verbatim>\<open>H\<close> and \<^verbatim>\<open>WSZ\<close> are fields of the record. The map is an association list in the order of its keys, and an
  iterator is a place in the list. The position in the array is a 32-bit value. \<^verbatim>\<open>poisonRange\<close> is compiled out.
\<close>

subsection \<open>State\<close>

type_synonym u8 = "8 word"

record WinCycle =
  occUnits :: u8
  wcount :: nat

record WindowStructure =
  winH :: nat
  winSZ :: nat
  curWin :: "WinCycle list"
  nextWin :: "WinCycle list"
  ubWin :: "(cycle \<times> WinCycle) list"
  occupancy :: nat
  curPos :: nat
  lastPort :: nat

definition WinCycle_zero :: WinCycle where "WinCycle_zero = \<lparr>occUnits = 0, wcount = 0\<rparr>"

text \<open>The constructor leaves \<^verbatim>\<open>lastPort\<close> as it is in memory.\<close>

definition WindowStructure_new :: "nat \<Rightarrow> nat \<Rightarrow> nat \<Rightarrow> WindowStructure" where
  "WindowStructure_new junk h sz = \<lparr>winH = h, winSZ = sz, curWin = replicate h WinCycle_zero, nextWin = replicate h WinCycle_zero, ubWin = [],
     occupancy = 0, curPos = 0, lastPort = junk\<rparr>"

subsection \<open>One cycle\<close>

text \<open>\<^verbatim>\<open>__builtin_ffs\<close>, less one, of a mask that is not zero.\<close>

definition ffs8 :: "u8 \<Rightarrow> nat" where
  "ffs8 w = (case filter (bit w) [0..<8] of [] \<Rightarrow> 0 | i # _ \<Rightarrow> Suc i)"

definition availMask :: "u8 \<Rightarrow> WinCycle \<Rightarrow> u8" where
  "availMask portMask wc = NOT (occUnits wc) AND portMask"

definition trySchedule :: "bool \<Rightarrow> u8 \<Rightarrow> WinCycle \<Rightarrow> u8 \<times> nat \<times> WinCycle" where
  "trySchedule touch portMask wc = (let avail = availMask portMask wc in
     if touch then
       if avail \<noteq> 0
       then let firstAvail = ffs8 avail - 1
            in (avail, firstAvail, wc\<lparr>occUnits := occUnits wc OR push_bit firstAvail 1, wcount := Suc (wcount wc)\<rparr>)
       else (avail, 0, wc)
     else (avail, 0, wc\<lparr>occUnits := occUnits wc OR portMask\<rparr>))"

subsection \<open>Time advances\<close>

text \<open>The entries of the map that are now within the second array move there.\<close>

fun rebase :: "nat \<Rightarrow> cycle \<Rightarrow> (cycle \<times> WinCycle) list \<Rightarrow> WinCycle list \<Rightarrow> (WinCycle list \<times> (cycle \<times> WinCycle) list) option" where
  "rebase h cur [] nw = Some (nw, [])"
| "rebase h cur ((k, wc) # ub) nw =
     (if k < cur + 2 * h
      then do {
        assert_that (cur + h \<le> k \<and> k - h - cur < h);
        rebase h cur ub (nw[k - h - cur := wc]) }
      else Some (nw, (k, wc) # ub))"

definition advancePos :: "cycle \<Rightarrow> WindowStructure \<Rightarrow> (cycle \<times> WindowStructure) option" where
  "advancePos cur w = do {
     let w1 = w\<lparr>occupancy := occupancy w - wcount (curWin w ! curPos w), curWin := (curWin w)[curPos w := WinCycle_zero], curPos := Suc (curPos w)\<rparr>;
     let cur1 = Suc cur;
     if curPos w1 = winH w
     then do {
       (nw, ub) \<leftarrow> rebase (winH w) cur1 (ubWin w1) (curWin w1);
       Some (cur1, w1\<lparr>curWin := nextWin w1, nextWin := nw, ubWin := ub, curPos := 0\<rparr>) }
     else Some (cur1, w1) }"

text \<open>The loops that advance: while the window is full, and towards a target until it is drained.\<close>

partial_function (option) drain_full :: "cycle \<Rightarrow> WindowStructure \<Rightarrow> (cycle \<times> WindowStructure) option" where
  "drain_full cur w = (if occupancy w = winSZ w then do { (cur', w') \<leftarrow> advancePos cur w; drain_full cur' w' } else Some (cur, w))"

function drain_to :: "cycle \<Rightarrow> cycle \<Rightarrow> WindowStructure \<Rightarrow> (cycle \<times> WindowStructure) option" where
  "drain_to target cur w =
     (if occupancy w \<noteq> 0 \<and> cur < target then (case advancePos cur w of None \<Rightarrow> None | Some (_, w') \<Rightarrow> drain_to target (Suc cur) w') else Some (cur, w))"
  by pat_completeness auto

termination
  by (relation "measure (\<lambda>(t, c, w). t - c)") auto

definition longAdvance :: "cycle \<Rightarrow> cycle \<Rightarrow> WindowStructure \<Rightarrow> (cycle \<times> WindowStructure) option" where
  "longAdvance cur target w = do {
     assert_that (cur \<le> target);
     (cur1, w1) \<leftarrow> drain_to target cur w;
     if occupancy w1 \<noteq> 0 then do { assert_that (cur1 = target); Some (cur1, w1) }
     else do { assert_that (cur1 \<le> target); Some (target, w1) } }"

subsection \<open>Scheduling\<close>

text \<open>The search in an array, and in the map from its first key that is not smaller.\<close>

function scan :: "bool \<Rightarrow> u8 \<Rightarrow> nat \<Rightarrow> WinCycle list \<Rightarrow> (nat \<times> nat \<times> WinCycle list) option" where
  "scan touch portMask pos win =
     (if pos < length win
      then case trySchedule touch portMask (win ! pos) of (avail, port, wc) \<Rightarrow>
        if avail \<noteq> 0 then Some (pos, port, win[pos := wc]) else scan touch portMask (Suc pos) (win[pos := wc])
      else None)"
  by pat_completeness auto

termination
  by (relation "measure (\<lambda>(t, pm, pos, win). length win - pos)") auto

declare scan.simps [simp del] drain_to.simps [simp del]

definition ub_fresh :: "bool \<Rightarrow> u8 \<Rightarrow> cycle \<Rightarrow> (cycle \<times> WinCycle) list \<Rightarrow> (cycle \<times> nat \<times> (cycle \<times> WinCycle) list) option" where
  "ub_fresh touch portMask sched ub = (case trySchedule touch portMask WinCycle_zero of (avail, port, wc) \<Rightarrow> do {
     assert_that (avail \<noteq> 0);
     Some (sched, port, (sched, wc) # ub) })"

fun ub_walk :: "bool \<Rightarrow> u8 \<Rightarrow> cycle \<Rightarrow> (cycle \<times> WinCycle) list \<Rightarrow> (cycle \<times> nat \<times> (cycle \<times> WinCycle) list) option" where
  "ub_walk touch portMask sched [] = ub_fresh touch portMask sched []"
| "ub_walk touch portMask sched ((k, wc) # ub) =
     (if k < sched then map_option (\<lambda>(c, p, ub'). (c, p, (k, wc) # ub')) (ub_walk touch portMask sched ub)
      else if k \<noteq> sched then ub_fresh touch portMask sched ((k, wc) # ub)
      else case trySchedule touch portMask wc of (avail, port, wc') \<Rightarrow>
        if avail \<noteq> 0 then Some (sched, port, (k, wc') # ub)
        else map_option (\<lambda>(c, p, ub'). (c, p, (k, wc') # ub')) (ub_walk touch portMask (Suc sched) ub))"

text \<open>\<^verbatim>\<open>scheduleInternal\<close> once the window has room; the cycle, the port and the window.\<close>

definition place :: "bool \<Rightarrow> u8 \<Rightarrow> cycle \<Rightarrow> cycle \<Rightarrow> WindowStructure \<Rightarrow> (cycle \<times> nat \<times> WindowStructure) option" where
  "place touch portMask cur sched w = (let
       delay = (if sched > cur then (sched - cur) mod 2 ^ 32 else 0);
       curWinPos = (curPos w + delay) mod 2 ^ 32
     in case scan touch portMask curWinPos (curWin w) of
       Some (pos, port, win) \<Rightarrow> Some (cur + (pos - curPos w), port, w\<lparr>curWin := win\<rparr>)
     | None \<Rightarrow> (let nextWinPos = max curWinPos (winH w) - winH w
        in case scan touch portMask nextWinPos (nextWin w) of
          Some (pos, port, win) \<Rightarrow> Some (cur + (pos + winH w - curPos w), port, w\<lparr>nextWin := win\<rparr>)
        | None \<Rightarrow> map_option (\<lambda>(c, port, ub). (c, port, w\<lparr>ubWin := ub\<rparr>))
            (ub_walk touch portMask (cur + (max nextWinPos (winH w) + winH w - curPos w)) (ubWin w))))"

definition scheduleInternal :: "bool \<Rightarrow> bool \<Rightarrow> cycle \<Rightarrow> cycle \<Rightarrow> u8 \<Rightarrow> WindowStructure \<Rightarrow> (cycle \<times> cycle \<times> WindowStructure) option" where
  "scheduleInternal touch recordPort cur sched portMask w = do {
     (cur1, w1) \<leftarrow> (if touch then drain_full cur w else Some (cur, w));
     (sched1, port, w2) \<leftarrow> place touch portMask cur1 sched w1;
     let w3 = (if recordPort then w2\<lparr>lastPort := port\<rparr> else w2);
     Some (cur1, sched1, if touch then w3\<lparr>occupancy := Suc (occupancy w3)\<rparr> else w3) }"

fun extra_slots :: "nat \<Rightarrow> cycle \<Rightarrow> cycle \<Rightarrow> u8 \<Rightarrow> WindowStructure \<Rightarrow> (cycle \<times> WindowStructure) option" where
  "extra_slots 0 cur slotCycle portMask w = Some (cur, w)"
| "extra_slots (Suc n) cur slotCycle portMask w = do {
     (cur1, c, w1) \<leftarrow> scheduleInternal False False cur slotCycle portMask w;
     extra_slots n cur1 (Suc c) portMask w1 }"

definition win_schedule :: "cycle \<Rightarrow> cycle \<Rightarrow> u8 \<Rightarrow> nat \<Rightarrow> WindowStructure \<Rightarrow> (cycle \<times> cycle \<times> WindowStructure) option" where
  "win_schedule cur sched portMask extraSlots w = do {
     (cur1, sched1, w1) \<leftarrow> scheduleInternal True (extraSlots \<noteq> 0) cur sched portMask w;
     (cur2, w2) \<leftarrow> (if extraSlots = 0 then Some (cur1, w1)
                   else extra_slots extraSlots cur1 (Suc sched1) (push_bit (lastPort w1) 1) w1);
     assert_that (occupancy w2 \<le> winSZ w2);
     Some (cur2, sched1, w2) }"

section \<open>The window as a function of the cycle\<close>

subsection \<open>One cycle\<close>

text \<open>What a request does to the cycle it gets, and the port it records. A cycle without a free unit is left as it is.\<close>

definition claim :: "bool \<Rightarrow> u8 \<Rightarrow> WinCycle \<Rightarrow> WinCycle" where
  "claim touch portMask wc = snd (snd (trySchedule touch portMask wc))"

definition claim_port :: "bool \<Rightarrow> u8 \<Rightarrow> WinCycle \<Rightarrow> nat" where
  "claim_port touch portMask wc = fst (snd (trySchedule touch portMask wc))"

definition free_for :: "u8 \<Rightarrow> WinCycle \<Rightarrow> bool" where
  "free_for portMask wc \<longleftrightarrow> availMask portMask wc \<noteq> 0"

definition weight :: "bool \<Rightarrow> nat" where
  "weight touch = (if touch then 1 else 0)"

lemma avail_zero: "availMask pm wc = 0 \<Longrightarrow> occUnits wc OR pm = occUnits wc"
  by (auto simp: availMask_def bit_eq_iff bit_simps)

lemma try_eq: "trySchedule t pm wc = (availMask pm wc, claim_port t pm wc, claim t pm wc)"
  by (simp add: trySchedule_def claim_def claim_port_def Let_def)

lemma claim_busy: "\<not> free_for pm wc \<Longrightarrow> claim t pm wc = wc"
  using avail_zero [of pm wc] by (cases wc) (auto simp: claim_def trySchedule_def Let_def free_for_def)

lemma free_zero [simp]: "free_for pm WinCycle_zero \<longleftrightarrow> pm \<noteq> 0"
  by (simp add: free_for_def availMask_def WinCycle_zero_def)

lemma claim_count: "free_for pm wc \<Longrightarrow> wcount (claim t pm wc) = wcount wc + weight t"
  by (simp add: claim_def trySchedule_def Let_def free_for_def weight_def)

lemma zero_count [simp]: "wcount WinCycle_zero = 0"
  by (simp add: WinCycle_zero_def)

subsection \<open>The searches\<close>

lemma scan_Some:
  assumes "scan t pm pos win = Some (p, port, win')"
  shows "pos \<le> p \<and> p < length win \<and> free_for pm (win ! p) \<and> (\<forall>i. pos \<le> i \<and> i < p \<longrightarrow> \<not> free_for pm (win ! i))
    \<and> port = claim_port t pm (win ! p) \<and> win' = win[p := claim t pm (win ! p)]"
  using assms
proof (induction t pm pos win rule: scan.induct)
  case (1 t pm pos win)
  show ?case
  proof (cases "pos < length win \<and> \<not> free_for pm (win ! pos)")
    case True
    then have "scan t pm (Suc pos) win = Some (p, port, win')"
      using "1.prems" by (subst (asm) scan.simps) (simp add: try_eq claim_busy free_for_def [symmetric])
    with "1.IH" [OF _ try_eq [symmetric] refl] True have "Suc pos \<le> p \<and> p < length win \<and> free_for pm (win ! p)
      \<and> (\<forall>i. Suc pos \<le> i \<and> i < p \<longrightarrow> \<not> free_for pm (win ! i))
      \<and> port = claim_port t pm (win ! p) \<and> win' = win[p := claim t pm (win ! p)]"
      by (simp add: claim_busy free_for_def)
    with True show ?thesis by (metis Suc_leD Suc_leI le_neq_implies_less)
  next
    case False
    then show ?thesis using "1.prems"
      by (subst (asm) scan.simps) (auto simp: try_eq free_for_def split: if_splits)
  qed
qed

lemma scan_None:
  assumes "scan t pm pos win = None" "pos \<le> i" "i < length win"
  shows "\<not> free_for pm (win ! i)"
  using assms
proof (induction t pm pos win rule: scan.induct)
  case (1 t pm pos win)
  from "1.prems" have lt: "pos < length win" by simp
  with "1.prems" have busy: "\<not> free_for pm (win ! pos)"
    by (subst (asm) scan.simps) (auto simp: try_eq free_for_def split: if_splits)
  with "1.prems" lt have "scan t pm (Suc pos) win = None"
    by (subst (asm) scan.simps) (simp add: try_eq claim_busy free_for_def [symmetric])
  with "1.IH" [OF _ try_eq [symmetric] refl] lt busy "1.prems" show ?case
    by (cases "i = pos") (simp_all add: claim_busy free_for_def)
qed

definition ub_at :: "(cycle \<times> WinCycle) list \<Rightarrow> cycle \<Rightarrow> WinCycle" where
  "ub_at ub c = (case map_of ub c of None \<Rightarrow> WinCycle_zero | Some wc \<Rightarrow> wc)"

abbreviation ub_sorted :: "(cycle \<times> WinCycle) list \<Rightarrow> bool" where
  "ub_sorted ub \<equiv> sorted_wrt (<) (map fst ub)"

abbreviation ub_count :: "(cycle \<times> WinCycle) list \<Rightarrow> nat" where
  "ub_count ub \<equiv> (\<Sum>e\<leftarrow>ub. wcount (snd e))"

lemma ub_at_Nil [simp]: "ub_at [] c = WinCycle_zero"
  by (simp add: ub_at_def)

lemma ub_at_Cons [simp]: "ub_at ((k, wc) # ub) c = (if c = k then wc else ub_at ub c)"
  by (simp add: ub_at_def)

lemma ub_at_absent: "c \<notin> fst ` set ub \<Longrightarrow> ub_at ub c = WinCycle_zero"
  by (simp add: ub_at_def map_of_eq_None_iff [THEN iffD2])

lemma ub_fresh_spec:
  "pm \<noteq> 0 \<Longrightarrow> ub_fresh t pm s ub = Some (s, claim_port t pm WinCycle_zero, (s, claim t pm WinCycle_zero) # ub)"
  using free_zero [of pm] by (simp add: ub_fresh_def try_eq free_for_def)

lemma ub_walk_keys:
  assumes "ub_walk t pm s ub = Some (c, port, ub')"
  shows "s \<le> c \<and> fst ` set ub' = insert c (fst ` set ub)"
  using assms
proof (induction t pm s ub arbitrary: c port ub' rule: ub_walk.induct)
  case (2 t pm s k wc ub)
  consider "k < s" | "s < k" | "s = k" "availMask pm wc \<noteq> 0" | "s = k" "availMask pm wc = 0" by fastforce
  then show ?case
  proof cases
    case 1
    with "2.prems" obtain us where "ub_walk t pm s ub = Some (c, port, us)" "ub' = (k, wc) # us" by auto
    with "2.IH"(1) [OF 1] show ?thesis by auto
  next
    case 4
    with "2.prems" obtain us where "ub_walk t pm (Suc s) ub = Some (c, port, us)" "ub' = (k, claim t pm wc) # us" by (auto simp: try_eq)
    with "2.IH"(2) [OF _ _ try_eq [symmetric] refl] 4 have "Suc s \<le> c \<and> fst ` set us = insert c (fst ` set ub)" by simp
    with \<open>ub' = _\<close> show ?thesis by auto
  qed (use "2.prems" in \<open>auto simp: try_eq ub_fresh_def bind_eq_Some_conv\<close>)
qed (auto simp: ub_fresh_def try_eq bind_eq_Some_conv)

lemma ub_walk_spec:
  assumes "pm \<noteq> 0" "ub_sorted ub"
  shows "\<exists>c ub'. ub_walk t pm s ub = Some (c, claim_port t pm (ub_at ub c), ub') \<and> free_for pm (ub_at ub c)
    \<and> (\<forall>i. s \<le> i \<and> i < c \<longrightarrow> \<not> free_for pm (ub_at ub i)) \<and> ub_at ub' = (ub_at ub)(c := claim t pm (ub_at ub c))
    \<and> ub_sorted ub' \<and> ub_count ub' = ub_count ub + weight t"
  using assms
proof (induction t pm s ub rule: ub_walk.induct)
  case (1 t pm s)
  then show ?case using claim_count [of pm WinCycle_zero t]
    by (auto simp: ub_fresh_spec fun_eq_iff)
next
  case (2 t pm s k wc ub)
  from "2.prems" have srt: "ub_sorted ub" and above: "\<And>c. c \<in> fst ` set ub \<Longrightarrow> k < c" by auto
  then have k0: "ub_at ub c = WinCycle_zero" if "c \<le> k" for c using that by (intro ub_at_absent) fastforce
  consider (below) "k < s" | (fresh) "s < k" | (here) "s = k" "free_for pm wc" | (busy) "s = k" "\<not> free_for pm wc" by fastforce
  then show ?case
  proof cases
    case below
    from "2.IH"(1) [OF below "2.prems"(1) srt] obtain c ub' where
      w: "ub_walk t pm s ub = Some (c, claim_port t pm (ub_at ub c), ub')" and
      f: "free_for pm (ub_at ub c)" "\<forall>i. s \<le> i \<and> i < c \<longrightarrow> \<not> free_for pm (ub_at ub i)"
        "ub_at ub' = (ub_at ub)(c := claim t pm (ub_at ub c))" "ub_sorted ub'" "ub_count ub' = ub_count ub + weight t" by blast
    from ub_walk_keys [OF w] below above have "k < c" "\<forall>x \<in> fst ` set ub'. k < x" by auto
    with w f below show ?thesis by (intro exI [of _ c] exI [of _ "(k, wc) # ub'"]) (auto simp: fun_eq_iff)
  next
    case fresh
    have "\<forall>x \<in> set ub. s < fst x"
    proof
      fix x assume "x \<in> set ub"
      then show "s < fst x" by (intro less_trans [OF fresh above] imageI)
    qed
    with fresh "2.prems" k0 claim_count [of pm WinCycle_zero t] show ?thesis
      by (intro exI [of _ s] exI [of _ "(s, claim t pm WinCycle_zero) # (k, wc) # ub"]) (auto simp: ub_fresh_spec fun_eq_iff)
  next
    case here
    with "2.prems" claim_count [OF here(2), of t] show ?thesis
      by (intro exI [of _ s] exI [of _ "(k, claim t pm wc) # ub"]) (auto simp: try_eq free_for_def fun_eq_iff)
  next
    case busy
    then have na: "availMask pm wc = 0" and cl: "claim t pm wc = wc" by (simp_all add: free_for_def claim_busy)
    from "2.IH"(2) [OF _ _ try_eq [symmetric] refl _ "2.prems"(1) srt] busy na obtain c ub' where
      w: "ub_walk t pm (Suc s) ub = Some (c, claim_port t pm (ub_at ub c), ub')" and
      f: "free_for pm (ub_at ub c)" "\<forall>i. Suc s \<le> i \<and> i < c \<longrightarrow> \<not> free_for pm (ub_at ub i)"
        "ub_at ub' = (ub_at ub)(c := claim t pm (ub_at ub c))" "ub_sorted ub'" "ub_count ub' = ub_count ub + weight t" by blast
    from ub_walk_keys [OF w] busy above have "k < c" "\<forall>x \<in> fst ` set ub'. k < x" by auto
    moreover from f(2) busy have "\<not> free_for pm (if i = k then wc else ub_at ub i)" if "s \<le> i" "i < c" for i
      using that by (cases "i = k") auto
    ultimately show ?thesis using w f busy na cl
      by (intro exI [of _ c] exI [of _ "(k, wc) # ub'"]) (auto simp: try_eq fun_eq_iff)
  qed
qed

subsection \<open>The window\<close>

text \<open>The units in use in a cycle, from the current one on. The window is well formed when its arrays have their size, the map is sorted and
  holds only cycles past the arrays, cycles that have passed are clear, and the occupancy is the number of operations it holds.\<close>

definition win_base :: "cycle \<Rightarrow> WindowStructure \<Rightarrow> cycle" where
  "win_base cur w = cur - curPos w"

definition win_at :: "cycle \<Rightarrow> WindowStructure \<Rightarrow> cycle \<Rightarrow> WinCycle" where
  "win_at cur w c =
     (if c < cur then WinCycle_zero
      else if c < win_base cur w + winH w then curWin w ! (c - win_base cur w)
      else if c < win_base cur w + 2 * winH w then nextWin w ! (c - win_base cur w - winH w)
      else ub_at (ubWin w) c)"

abbreviation arr_count :: "WinCycle list \<Rightarrow> nat" where
  "arr_count win \<equiv> sum_list (map wcount win)"

definition win_total :: "WindowStructure \<Rightarrow> nat" where
  "win_total w = arr_count (curWin w) + arr_count (nextWin w) + ub_count (ubWin w)"

definition win_ok :: "cycle \<Rightarrow> WindowStructure \<Rightarrow> bool" where
  "win_ok cur w \<longleftrightarrow> length (curWin w) = winH w \<and> length (nextWin w) = winH w \<and> curPos w < winH w \<and> curPos w \<le> cur
     \<and> take (curPos w) (curWin w) = replicate (curPos w) WinCycle_zero
     \<and> ub_sorted (ubWin w) \<and> (\<forall>k \<in> fst ` set (ubWin w). win_base cur w + 2 * winH w \<le> k)
     \<and> occupancy w = win_total w \<and> occupancy w \<le> winSZ w"

definition first_free :: "u8 \<Rightarrow> cycle \<Rightarrow> (cycle \<Rightarrow> WinCycle) \<Rightarrow> cycle" where
  "first_free pm from f = (LEAST c. from \<le> c \<and> free_for pm (f c))"

lemma first_freeI:
  "from \<le> c \<Longrightarrow> free_for pm (f c) \<Longrightarrow> (\<And>i. from \<le> i \<Longrightarrow> i < c \<Longrightarrow> \<not> free_for pm (f i)) \<Longrightarrow> first_free pm from f = c"
  unfolding first_free_def by (rule Least_equality) (auto simp: not_less [symmetric])

lemma arr_count_upd: "i < length win \<Longrightarrow> arr_count (win[i := wc]) + wcount (win ! i) = arr_count win + wcount wc"
proof (induction win arbitrary: i)
  case (Cons a win)
  then show ?case by (cases i) fastforce+
qed simp

lemma win_okD:
  assumes "win_ok cur w"
  shows "length (curWin w) = winH w" "length (nextWin w) = winH w" "curPos w < winH w" "curPos w \<le> cur" "ub_sorted (ubWin w)"
    "take (curPos w) (curWin w) = replicate (curPos w) WinCycle_zero"
    "occupancy w = win_total w" "occupancy w \<le> winSZ w" "\<And>k. k \<in> fst ` set (ubWin w) \<Longrightarrow> win_base cur w + 2 * winH w \<le> k"
  using assms by (auto simp: win_ok_def)

text \<open>A request at a place of the array or of the map is one at the cycle of that place.\<close>

lemma win_at_cur:
  assumes "win_ok cur w" "curPos w \<le> p" "p < winH w"
  shows "win_at cur w (cur + (p - curPos w)) = curWin w ! p"
proof -
  from win_okD(4) [OF assms(1)] assms(2) have "cur + (p - curPos w) - win_base cur w = p" by (simp add: win_base_def)
  with assms win_okD(4) [OF assms(1)] show ?thesis by (simp add: win_at_def win_base_def)
qed

lemma win_at_next:
  assumes "win_ok cur w" "p < winH w"
  shows "win_at cur w (cur + (p + winH w - curPos w)) = nextWin w ! p"
proof -
  note okD = win_okD(3,4) [OF assms(1)]
  define c where "c = cur + (p + winH w - curPos w)"
  have "c - win_base cur w - winH w = p" "\<not> c < cur" "\<not> c < win_base cur w + winH w" "c < win_base cur w + 2 * winH w"
    using okD assms(2) by (simp_all add: c_def win_base_def)
  then show ?thesis unfolding c_def [symmetric] by (simp add: win_at_def)
qed

lemma win_at_ub:
  assumes "win_ok cur w" "win_base cur w + 2 * winH w \<le> c"
  shows "win_at cur w c = ub_at (ubWin w) c"
  using assms(2) win_okD(3,4) [OF assms(1)] by (simp add: win_at_def) (simp add: win_base_def)

lemma win_at_upd_cur:
  assumes "win_ok cur w" "curPos w \<le> p" "p < winH w"
  shows "win_at cur (w\<lparr>curWin := (curWin w)[p := wc]\<rparr>) = (win_at cur w)(cur + (p - curPos w) := wc)"
  using assms(2,3) win_okD(1,4) [OF assms(1)] by (auto simp: fun_eq_iff win_at_def win_base_def nth_list_update)

lemma win_at_upd_next:
  assumes "win_ok cur w" "p < winH w"
  shows "win_at cur (w\<lparr>nextWin := (nextWin w)[p := wc]\<rparr>) = (win_at cur w)(cur + (p + winH w - curPos w) := wc)"
  using assms(2) win_okD(2,3,4) [OF assms(1)] by (auto simp: fun_eq_iff win_at_def win_base_def nth_list_update)

lemma win_at_upd_ub:
  assumes "win_ok cur w" "win_base cur w + 2 * winH w \<le> c" "ub_at ub' = (ub_at (ubWin w))(c := wc)"
  shows "win_at cur (w\<lparr>ubWin := ub'\<rparr>) = (win_at cur w)(c := wc)"
  using assms(2,3) win_okD(3,4) [OF assms(1)] by (auto simp: fun_eq_iff win_at_def win_base_def)

lemma win_base_simps [simp]:
  "win_base cur (w\<lparr>curWin := a\<rparr>) = win_base cur w" "win_base cur (w\<lparr>nextWin := a\<rparr>) = win_base cur w"
  "win_base cur (w\<lparr>ubWin := u\<rparr>) = win_base cur w" "win_base cur (w\<lparr>occupancy := n\<rparr>) = win_base cur w"
  by (simp_all add: win_base_def)

text \<open>Where the search ends, the window is as before but for the cycle found, and holds one operation more if the request is not a shadow.\<close>

definition claimed :: "bool \<Rightarrow> u8 \<Rightarrow> cycle \<Rightarrow> cycle \<Rightarrow> WindowStructure \<Rightarrow> WindowStructure \<Rightarrow> bool" where
  "claimed t pm cur c w w' \<longleftrightarrow> win_at cur w' = (win_at cur w)(c := claim t pm (win_at cur w c))
     \<and> (occupancy w + weight t \<le> winSZ w \<longrightarrow> win_ok cur (w'\<lparr>occupancy := occupancy w + weight t\<rparr>))
     \<and> winH w' = winH w \<and> winSZ w' = winSZ w \<and> curPos w' = curPos w \<and> occupancy w' = occupancy w"

lemma claimedI:
  assumes "win_at cur w' = (win_at cur w)(c := claim t pm (win_at cur w c))"
    and "occupancy w + weight t \<le> winSZ w \<Longrightarrow> win_ok cur (w'\<lparr>occupancy := occupancy w + weight t\<rparr>)"
    and "winH w' = winH w" "winSZ w' = winSZ w" "curPos w' = curPos w" "occupancy w' = occupancy w"
  shows "claimed t pm cur c w w'"
  using assms by (simp add: claimed_def)

lemma claimed_cur:
  assumes ok: "win_ok cur w" and p: "curPos w \<le> p" "p < winH w" and free: "free_for pm (curWin w ! p)"
  shows "claimed t pm cur (cur + (p - curPos w)) w (w\<lparr>curWin := (curWin w)[p := claim t pm (curWin w ! p)]\<rparr>)"
proof -
  have "arr_count ((curWin w)[p := claim t pm (curWin w ! p)]) = arr_count (curWin w) + weight t"
    using arr_count_upd [of p "curWin w" "claim t pm (curWin w ! p)"] claim_count [OF free, of t] p win_okD(1) [OF ok] by simp
  moreover have "win_at cur (w\<lparr>curWin := (curWin w)[p := claim t pm (curWin w ! p)]\<rparr>)
      = (win_at cur w)(cur + (p - curPos w) := claim t pm (win_at cur w (cur + (p - curPos w))))"
    by (simp only: win_at_upd_cur [OF ok p] win_at_cur [OF ok p])
  ultimately show ?thesis
    using ok p by (intro claimedI) (simp_all add: win_ok_def win_total_def)
qed

lemma claimed_next:
  assumes ok: "win_ok cur w" and p: "p < winH w" and free: "free_for pm (nextWin w ! p)"
  shows "claimed t pm cur (cur + (p + winH w - curPos w)) w (w\<lparr>nextWin := (nextWin w)[p := claim t pm (nextWin w ! p)]\<rparr>)"
proof -
  have "arr_count ((nextWin w)[p := claim t pm (nextWin w ! p)]) = arr_count (nextWin w) + weight t"
    using arr_count_upd [of p "nextWin w" "claim t pm (nextWin w ! p)"] claim_count [OF free, of t] p win_okD(2) [OF ok] by simp
  moreover have "win_at cur (w\<lparr>nextWin := (nextWin w)[p := claim t pm (nextWin w ! p)]\<rparr>)
      = (win_at cur w)(cur + (p + winH w - curPos w) := claim t pm (win_at cur w (cur + (p + winH w - curPos w))))"
    by (simp only: win_at_upd_next [OF ok p] win_at_next [OF ok p])
  ultimately show ?thesis
    using ok by (intro claimedI) (simp_all add: win_ok_def win_total_def)
qed

lemma claimed_ub:
  assumes ok: "win_ok cur w" and c: "win_base cur w + 2 * winH w \<le> c"
    and ub: "ub_at ub' = (ub_at (ubWin w))(c := claim t pm (ub_at (ubWin w) c))" "ub_sorted ub'" "ub_count ub' = ub_count (ubWin w) + weight t"
      "fst ` set ub' = insert c (fst ` set (ubWin w))"
  shows "claimed t pm cur c w (w\<lparr>ubWin := ub'\<rparr>)"
  using ok c ub win_at_upd_ub [OF ok c ub(1)] win_at_ub [OF ok c]
  by (intro claimedI) (simp_all add: win_ok_def win_total_def)

lemma place_spec:
  assumes ok: "win_ok cur w" and pm: "pm \<noteq> 0" and near: "sched + winH w < cur + 2 ^ 32" "winH w < 2 ^ 32"
  defines "c \<equiv> first_free pm (max cur sched) (win_at cur w)"
  shows "max cur sched \<le> c \<and> free_for pm (win_at cur w c)
    \<and> (\<exists>w'. place t pm cur sched w = Some (c, claim_port t pm (win_at cur w c), w') \<and> claimed t pm cur c w w')"
proof -
  define pos where "pos = curPos w + (max cur sched - cur)"
  note okD = win_okD [OF ok]
  have posE: "(curPos w + (if sched > cur then (sched - cur) mod 2 ^ 32 else 0)) mod 2 ^ 32 = pos"
    using near okD(3) by (simp add: pos_def max_def)
  have pos: "curPos w \<le> pos" "cur + (pos - curPos w) = max cur sched" by (simp_all add: pos_def)
  show ?thesis
  proof (cases "scan t pm pos (curWin w)")
    case (Some r)
    then obtain p port win where r: "scan t pm pos (curWin w) = Some (p, port, win)" by (cases r) auto
    note s = scan_Some [OF r, unfolded okD]
    have le: "max cur sched \<le> cur + (p - curPos w)" using s pos by linarith
    have "c = cur + (p - curPos w)" unfolding c_def
    proof (rule first_freeI [OF le])
      show "free_for pm (win_at cur w (cur + (p - curPos w)))" using s pos win_at_cur [OF ok, of p] by simp
      fix i assume i: "max cur sched \<le> i" "i < cur + (p - curPos w)"
      then have "pos \<le> curPos w + (i - cur)" "curPos w + (i - cur) < p" "i = cur + (curPos w + (i - cur) - curPos w)" using pos s by linarith+
      with s win_at_cur [OF ok, of "curPos w + (i - cur)"] show "\<not> free_for pm (win_at cur w i)" by simp
    qed
    with le s posE r win_at_cur [OF ok, of p] claimed_cur [OF ok, of p pm t] pos(1) show ?thesis by (simp add: place_def)
  next
    case None
    note n1 = scan_None [OF None, unfolded okD]
    define pos2 where "pos2 = max pos (winH w) - winH w"
    have pos2: "pos \<le> pos2 + winH w" "pos2 = 0 \<or> pos2 + winH w = pos" by (auto simp: pos2_def max_def)
    have busy1: "\<not> free_for pm (win_at cur w i)" if "max cur sched \<le> i" "i < win_base cur w + winH w" for i
    proof -
      have "pos \<le> curPos w + (i - cur)" "curPos w + (i - cur) < winH w" "i = cur + (curPos w + (i - cur) - curPos w)"
        using that pos okD(3,4) unfolding win_base_def by linarith+
      with n1 win_at_cur [OF ok, of "curPos w + (i - cur)"] show ?thesis by simp
    qed
    show ?thesis
    proof (cases "scan t pm pos2 (nextWin w)")
      case (Some r)
      then obtain p port win where r: "scan t pm pos2 (nextWin w) = Some (p, port, win)" by (cases r) auto
      note s = scan_Some [OF r, unfolded okD]
      have le: "max cur sched \<le> cur + (p + winH w - curPos w)" using s pos pos2 by linarith
      have "c = cur + (p + winH w - curPos w)" unfolding c_def
      proof (rule first_freeI [OF le])
        show "free_for pm (win_at cur w (cur + (p + winH w - curPos w)))" using s win_at_next [OF ok, of p] by simp
        fix i assume i: "max cur sched \<le> i" "i < cur + (p + winH w - curPos w)"
        show "\<not> free_for pm (win_at cur w i)"
        proof (cases "i < win_base cur w + winH w")
          case False
          define q where "q = i - win_base cur w - winH w"
          have "pos2 \<le> q" "q < p" "i = cur + (q + winH w - curPos w)" using False i pos pos2 okD(3,4) unfolding q_def win_base_def by linarith+
          with s win_at_next [OF ok, of q] show ?thesis by simp
        qed (use i busy1 in blast)
      qed
      with le s posE None r win_at_next [OF ok, of p] claimed_next [OF ok, of p pm t] show ?thesis by (simp add: place_def pos2_def)
    next
      case None2: None
      note n2 = scan_None [OF None2, unfolded okD]
      define s where "s = cur + (max pos2 (winH w) + winH w - curPos w)"
      have sb: "win_base cur w + 2 * winH w \<le> s" "max cur sched \<le> s" using pos pos2 okD(3,4) unfolding s_def win_base_def by linarith+
      from ub_walk_spec [OF pm okD(5), of t s] obtain d ub' where
        u: "ub_walk t pm s (ubWin w) = Some (d, claim_port t pm (ub_at (ubWin w) d), ub')" and f: "free_for pm (ub_at (ubWin w) d)"
          "\<forall>i. s \<le> i \<and> i < d \<longrightarrow> \<not> free_for pm (ub_at (ubWin w) i)" and
        g: "ub_at ub' = (ub_at (ubWin w))(d := claim t pm (ub_at (ubWin w) d))" "ub_sorted ub'" "ub_count ub' = ub_count (ubWin w) + weight t" by blast
      note k = ub_walk_keys [OF u]
      have "c = d" unfolding c_def
      proof (rule first_freeI)
        show "max cur sched \<le> d" using k sb by linarith
        show "free_for pm (win_at cur w d)" using f k sb win_at_ub [OF ok, of d] by simp
        fix i assume i: "max cur sched \<le> i" "i < d"
        consider "i < win_base cur w + winH w" | (mid) "win_base cur w + winH w \<le> i" "i < win_base cur w + 2 * winH w"
          | (ub) "win_base cur w + 2 * winH w \<le> i" by linarith
        then show "\<not> free_for pm (win_at cur w i)"
        proof cases
          case mid
          define q where "q = i - win_base cur w - winH w"
          have "pos2 \<le> q" "q < winH w" "i = cur + (q + winH w - curPos w)" using mid i pos pos2 okD(3,4) unfolding q_def win_base_def by linarith+
          with n2 win_at_next [OF ok, of q] show ?thesis by simp
        next
          case ub
          have "s \<le> i" using ub i pos okD by (auto simp: s_def pos2_def win_base_def max_def split: if_splits)
          with f i win_at_ub [OF ok ub] show ?thesis by simp
        qed (use i busy1 in blast)
      qed
      moreover have d: "win_base cur w + 2 * winH w \<le> d" and dm: "max cur sched \<le> d" using k sb by linarith+
      moreover have "place t pm cur sched w = Some (d, claim_port t pm (ub_at (ubWin w) d), w\<lparr>ubWin := ub'\<rparr>)"
        by (simp only: place_def Let_def posE None option.case pos2_def [symmetric] None2 s_def [symmetric] u option.map prod.case)
      moreover have "claimed t pm cur d w (w\<lparr>ubWin := ub'\<rparr>)" using claimed_ub [OF ok d g] k by blast
      ultimately show ?thesis using f(1) by (simp only: win_at_ub [OF ok d]) blast
    qed
  qed
qed

subsection \<open>Time advances\<close>

lemma rebase_spec:
  assumes "length nw = h" "ub_sorted ub" "\<forall>k \<in> fst ` set ub. cur + h \<le> k"
    and "\<forall>k \<in> fst ` set ub. k < cur + 2 * h \<longrightarrow> nw ! (k - h - cur) = WinCycle_zero"
  shows "\<exists>nw' ub'. rebase h cur ub nw = Some (nw', ub') \<and> length nw' = h \<and> ub_sorted ub' \<and> (\<forall>k \<in> fst ` set ub'. cur + 2 * h \<le> k)
    \<and> (\<forall>i < h. nw' ! i = (case map_of ub (cur + h + i) of None \<Rightarrow> nw ! i | Some wc \<Rightarrow> wc))
    \<and> (\<forall>c \<ge> cur + 2 * h. ub_at ub' c = ub_at ub c) \<and> arr_count nw' + ub_count ub' = arr_count nw + ub_count ub"
  using assms
proof (induction h cur ub nw rule: rebase.induct)
  case (1 h cur nw)
  then show ?case by simp
next
  case (2 h cur k wc ub nw)
  show ?case
  proof (cases "k < cur + 2 * h")
    case True
    define i where "i = k - h - cur"
    have i: "i < h" "k = cur + h + i" "cur + h \<le> k" using True "2.prems" by (auto simp: i_def)
    have above: "\<forall>x \<in> fst ` set ub. k < x" using "2.prems" by auto
    have zero: "nw ! i = WinCycle_zero" using "2.prems" True by (simp add: i_def)
    have "\<exists>nw' ub'. rebase h cur ub (nw[i := wc]) = Some (nw', ub') \<and> length nw' = h \<and> ub_sorted ub' \<and> (\<forall>k \<in> fst ` set ub'. cur + 2 * h \<le> k)
      \<and> (\<forall>j < h. nw' ! j = (case map_of ub (cur + h + j) of None \<Rightarrow> nw[i := wc] ! j | Some wc \<Rightarrow> wc))
      \<and> (\<forall>c \<ge> cur + 2 * h. ub_at ub' c = ub_at ub c) \<and> arr_count nw' + ub_count ub' = arr_count (nw[i := wc]) + ub_count ub"
      unfolding i_def
    proof (rule "2.IH" [OF True])
      show "assert_that (cur + h \<le> k \<and> k - h - cur < h) = Some ()" using i(1,3) unfolding i_def by simp
      show "\<forall>x \<in> fst ` set ub. x < cur + 2 * h \<longrightarrow> nw[k - h - cur := wc] ! (x - h - cur) = WinCycle_zero"
      proof (intro ballI impI)
        fix x assume x: "x \<in> fst ` set ub" "x < cur + 2 * h"
        have "k < x" using above x(1) by blast
        with i have "x - h - cur \<noteq> k - h - cur" by linarith
        moreover have "nw ! (x - h - cur) = WinCycle_zero" using x "2.prems"(4) by (metis imageI image_insert insertCI list.set(2))
        ultimately show "nw[k - h - cur := wc] ! (x - h - cur) = WinCycle_zero" by simp
      qed
    qed (use "2.prems" in auto)
    then obtain nw' ub' where r: "rebase h cur ub (nw[i := wc]) = Some (nw', ub')" "length nw' = h" "ub_sorted ub'"
      "\<forall>k \<in> fst ` set ub'. cur + 2 * h \<le> k" "\<forall>c \<ge> cur + 2 * h. ub_at ub' c = ub_at ub c" and
      n: "\<forall>j < h. nw' ! j = (case map_of ub (cur + h + j) of None \<Rightarrow> nw[i := wc] ! j | Some wc \<Rightarrow> wc)" and
      t: "arr_count nw' + ub_count ub' = arr_count (nw[i := wc]) + ub_count ub" by blast
    have "map_of ub k = None" using above by (force simp: map_of_eq_None_iff)
    with n i "2.prems"(1) have "\<forall>j < h. nw' ! j = (case map_of ((k, wc) # ub) (cur + h + j) of None \<Rightarrow> nw ! j | Some wc \<Rightarrow> wc)"
      by (auto simp: nth_list_update split: option.split)
    moreover have "arr_count nw' + ub_count ub' = arr_count nw + ub_count ((k, wc) # ub)"
      using t arr_count_upd [of i nw wc] zero i "2.prems"(1) by simp
    moreover have "rebase h cur ((k, wc) # ub) nw = Some (nw', ub')"
      using True i(1,3) r(1) unfolding i_def by simp
    ultimately show ?thesis using r True by (intro exI [of _ nw'] exI [of _ ub']) auto
  next
    case False
    have "map_of ((k, wc) # ub) (cur + h + i) = None" if "i < h" for i
      using that False "2.prems"(2) by (force simp: map_of_eq_None_iff)
    moreover have "\<forall>x \<in> fst ` set ((k, wc) # ub). cur + 2 * h \<le> x" using False "2.prems"(2) by force
    ultimately show ?thesis using False "2.prems"
      by (intro exI [of _ nw] exI [of _ "(k, wc) # ub"]) auto
  qed
qed

text \<open>\<^verbatim>\<open>advancePos\<close> forgets the cycle that passes and nothing else.\<close>

definition passed :: "cycle \<Rightarrow> WindowStructure \<Rightarrow> cycle \<Rightarrow> WindowStructure \<Rightarrow> bool" where
  "passed cur w cur' w' \<longleftrightarrow> win_ok cur' w' \<and> win_at cur' w' = (\<lambda>c. if c < cur' then WinCycle_zero else win_at cur w c)
     \<and> winH w' = winH w \<and> winSZ w' = winSZ w"

lemma advancePos_spec:
  assumes ok: "win_ok cur w"
  shows "\<exists>w'. advancePos cur w = Some (Suc cur, w') \<and> passed cur w (Suc cur) w'
    \<and> occupancy w = occupancy w' + wcount (win_at cur w cur)"
proof -
  note okD = win_okD [OF ok]
  define cw where "cw = (curWin w)[curPos w := WinCycle_zero]"
  have at0: "win_at cur w cur = curWin w ! curPos w" using win_at_cur [OF ok, of "curPos w"] okD by simp
  have cnt: "arr_count cw + wcount (win_at cur w cur) = arr_count (curWin w)"
    using arr_count_upd [of "curPos w" "curWin w" WinCycle_zero] okD at0 by (simp add: cw_def)
  have tk: "take (Suc (curPos w)) cw = replicate (Suc (curPos w)) WinCycle_zero"
    using okD(1,3,6) by (simp add: cw_def take_Suc_conv_app_nth replicate_append_same [symmetric])
  have len: "length cw = winH w" using okD by (simp add: cw_def)
  define w1 where "w1 = w\<lparr>occupancy := occupancy w - wcount (curWin w ! curPos w), curWin := cw, curPos := Suc (curPos w)\<rparr>"
  show ?thesis
  proof (cases "Suc (curPos w) = winH w")
    case False
    then have adv: "advancePos cur w = Some (Suc cur, w1)" by (simp add: advancePos_def w1_def cw_def)
    have base: "win_base (Suc cur) w1 = win_base cur w" by (simp add: win_base_def w1_def)
    have occ: "occupancy w1 = win_total w1" "occupancy w1 \<le> winSZ w1"
      using cnt at0 okD(7,8) by (simp_all add: w1_def win_total_def)
    have "win_ok (Suc cur) w1" using ok False tk len base occ unfolding win_ok_def
      by (simp only: base simp_thms) (simp add: w1_def)
    moreover have "win_at (Suc cur) w1 c = (if c < Suc cur then WinCycle_zero else win_at cur w c)" for c
    proof (cases "c < Suc cur")
      case later: False
      then have "c - win_base cur w \<noteq> curPos w" using okD(4) by (simp add: win_base_def)
      then have "cw ! (c - win_base cur w) = curWin w ! (c - win_base cur w)" by (simp add: cw_def)
      moreover have "winH w1 = winH w" "curWin w1 = cw" "nextWin w1 = nextWin w" "ubWin w1 = ubWin w" by (simp_all add: w1_def)
      ultimately show ?thesis using later by (simp add: win_at_def base)
    qed (simp add: win_at_def)
    moreover have "occupancy w = occupancy w1 + wcount (win_at cur w cur)"
      using cnt okD(7) at0 by (simp add: w1_def win_total_def)
    moreover have "winH w1 = winH w" "winSZ w1 = winSZ w" by (simp_all add: w1_def)
    ultimately show ?thesis using adv unfolding passed_def by blast
  next
    case True
    have cw0: "cw = replicate (winH w) WinCycle_zero" using tk True len by simp
    have keys: "\<forall>k \<in> fst ` set (ubWin w). Suc cur + winH w \<le> k" using okD(4,9) True by (fastforce simp: win_base_def)
    have "\<forall>k \<in> fst ` set (ubWin w). k < Suc cur + 2 * winH w \<longrightarrow> cw ! (k - winH w - Suc cur) = WinCycle_zero"
      using okD(3) by (auto simp: cw0)
    from rebase_spec [OF len okD(5) keys this] obtain nw' ub' where
      r: "rebase (winH w) (Suc cur) (ubWin w) cw = Some (nw', ub')" and
      l: "length nw' = winH w" "ub_sorted ub'" "\<forall>k \<in> fst ` set ub'. Suc cur + 2 * winH w \<le> k" and
      n: "\<forall>i < winH w. nw' ! i = (case map_of (ubWin w) (Suc cur + winH w + i) of None \<Rightarrow> cw ! i | Some wc \<Rightarrow> wc)" and
      u: "\<forall>c \<ge> Suc cur + 2 * winH w. ub_at ub' c = ub_at (ubWin w) c" and
      t: "arr_count nw' + ub_count ub' = arr_count cw + ub_count (ubWin w)" by blast
    define w2 where "w2 = w1\<lparr>curWin := nextWin w1, nextWin := nw', ubWin := ub', curPos := 0\<rparr>"
    have adv: "advancePos cur w = Some (Suc cur, w2)" using True r by (simp add: advancePos_def w1_def cw_def w2_def)
    have base: "win_base (Suc cur) w2 = Suc cur" "win_base cur w + winH w = Suc cur" using True okD(4) by (simp_all add: win_base_def w2_def)
    have occ: "occupancy w2 = win_total w2" "occupancy w2 \<le> winSZ w2"
      using cnt at0 okD(7,8) t by (simp_all add: w2_def w1_def win_total_def)
    have "win_ok (Suc cur) w2" using l okD(2,3) occ unfolding win_ok_def
      by (simp only: base simp_thms) (simp add: w2_def w1_def)
    moreover have "win_at (Suc cur) w2 c = (if c < Suc cur then WinCycle_zero else win_at cur w c)" for c
    proof -
      consider "c < Suc cur" | "Suc cur \<le> c" "c < Suc cur + winH w" | (mid) "Suc cur + winH w \<le> c" "c < Suc cur + 2 * winH w"
        | (ub) "Suc cur + 2 * winH w \<le> c" by linarith
      then show ?thesis
      proof cases
        case mid
        define i where "i = c - Suc cur - winH w"
        have "i < winH w" "c = Suc cur + winH w + i" using mid by (auto simp: i_def)
        then have "win_at (Suc cur) w2 c = nw' ! i" by (simp add: win_at_def base) (simp add: w2_def w1_def)
        moreover have "win_at cur w c = ub_at (ubWin w) c" using win_at_ub [OF ok] mid base by simp
        ultimately show ?thesis using n \<open>i < winH w\<close> \<open>c = _\<close> by (simp add: ub_at_def cw0 split: option.splits)
      next
        case ub
        then have "win_at (Suc cur) w2 c = ub_at ub' c" by (simp add: win_at_def base) (simp add: w2_def w1_def)
        with ub u win_at_ub [OF ok, of c] base show ?thesis by simp
      qed (use base okD(4) in \<open>simp_all add: win_at_def\<close>, simp add: w2_def w1_def)
    qed
    moreover have "occupancy w = occupancy w2 + wcount (win_at cur w cur)"
      using cnt okD(7) at0 by (simp add: w1_def w2_def win_total_def)
    moreover have "winH w2 = winH w" "winSZ w2 = winSZ w" by (simp_all add: w1_def w2_def)
    ultimately show ?thesis using adv unfolding passed_def by blast
  qed
qed

lemma passed_trans: "passed a w b u \<Longrightarrow> passed b u c v \<Longrightarrow> b \<le> c \<Longrightarrow> passed a w c v"
  by (auto simp: passed_def fun_eq_iff)

lemma arr_count_pos: "0 < arr_count win \<Longrightarrow> \<exists>i < length win. 0 < wcount (win ! i)"
proof (induction win)
  case (Cons wc win)
  then show ?case by (cases "0 < wcount wc") (auto intro: exI [of _ 0] exI [of _ "Suc _"])
qed simp

lemma ub_count_pos: "ub_sorted ub \<Longrightarrow> 0 < ub_count ub \<Longrightarrow> \<exists>k \<in> fst ` set ub. 0 < wcount (ub_at ub k)"
proof (induction ub)
  case (Cons e ub)
  obtain k wc where e: "e = (k, wc)" by (cases e)
  show ?case
  proof (cases "0 < wcount wc")
    case False
    with Cons e obtain x where x: "x \<in> fst ` set ub" "0 < wcount (ub_at ub x)" by auto
    with Cons.prems e have "x \<noteq> k" by auto
    with x e show ?thesis by (intro bexI [of _ x]) auto
  qed (use e in simp)
qed simp

lemma occupied:
  assumes ok: "win_ok cur w" and "0 < occupancy w"
  shows "\<exists>c \<ge> cur. 0 < wcount (win_at cur w c)"
proof -
  note okD = win_okD [OF ok]
  consider (cur) "0 < arr_count (curWin w)" | (next_arr) "0 < arr_count (nextWin w)" | (ub) "0 < ub_count (ubWin w)"
    using okD(7) assms(2) by (auto simp: win_total_def)
  then show ?thesis
  proof cases
    case cur
    then obtain i where i: "i < winH w" "0 < wcount (curWin w ! i)" using okD(1) by (auto dest: arr_count_pos)
    have "curPos w \<le> i"
    proof (rule ccontr)
      assume "\<not> curPos w \<le> i"
      then have "curWin w ! i = take (curPos w) (curWin w) ! i" by simp
      also have "\<dots> = WinCycle_zero" unfolding okD(6) using \<open>\<not> curPos w \<le> i\<close> by simp
      finally show False using i by simp
    qed
    with i win_at_cur [OF ok, of i] show ?thesis by (intro exI [of _ "cur + (i - curPos w)"]) simp
  next
    case next_arr
    then obtain i where i: "i < winH w" "0 < wcount (nextWin w ! i)" using okD(2) by (auto dest: arr_count_pos)
    with win_at_next [OF ok i(1)] show ?thesis by (intro exI [of _ "cur + (i + winH w - curPos w)"]) simp
  next
    case ub
    from ub_count_pos [OF okD(5) ub] obtain k where k: "k \<in> fst ` set (ubWin w)" "0 < wcount (ub_at (ubWin w) k)" by blast
    from okD(9) [OF k(1)] have b: "win_base cur w + 2 * winH w \<le> k" .
    with okD(3,4) have "cur \<le> k" by (simp add: win_base_def)
    with k win_at_ub [OF ok b] show ?thesis by auto
  qed
qed

text \<open>A full window waits until the first cycle that executes something has passed.\<close>

lemma drain_full_from:
  assumes "win_ok cur w" "occupancy w = winSZ w" "0 < winSZ w" "0 < wcount (win_at cur w (cur + d))"
    and "\<forall>i < d. wcount (win_at cur w (cur + i)) = 0"
  shows "\<exists>w'. drain_full cur w = Some (Suc (cur + d), w') \<and> passed cur w (Suc (cur + d)) w'
    \<and> occupancy w = occupancy w' + wcount (win_at cur w (cur + d))"
  using assms
proof (induction d arbitrary: cur w)
  case 0
  from advancePos_spec [OF "0.prems"(1)] obtain w' where
    w': "advancePos cur w = Some (Suc cur, w')" "passed cur w (Suc cur) w'" "occupancy w = occupancy w' + wcount (win_at cur w cur)" by blast
  with 0 have "occupancy w' \<noteq> winSZ w'" by (simp add: passed_def)
  then have "drain_full (Suc cur) w' = Some (Suc cur, w')" by (simp add: drain_full.simps)
  with w' 0 show ?case by (simp add: drain_full.simps [of cur])
next
  case (Suc d)
  from advancePos_spec [OF Suc.prems(1)] obtain w1 where
    w1: "advancePos cur w = Some (Suc cur, w1)" "passed cur w (Suc cur) w1" "occupancy w = occupancy w1 + wcount (win_at cur w cur)" by blast
  from Suc.prems(5) have "wcount (win_at cur w cur) = 0" by (metis add_0_right zero_less_Suc)
  with w1 have occ: "occupancy w1 = occupancy w" by simp
  from w1(2) have p: "win_ok (Suc cur) w1" "winSZ w1 = winSZ w" and at: "\<And>c. Suc cur \<le> c \<Longrightarrow> win_at (Suc cur) w1 c = win_at cur w c"
    by (auto simp: passed_def)
  have "\<exists>w'. drain_full (Suc cur) w1 = Some (Suc (Suc cur + d), w') \<and> passed (Suc cur) w1 (Suc (Suc cur + d)) w'
    \<and> occupancy w1 = occupancy w' + wcount (win_at (Suc cur) w1 (Suc cur + d))"
  proof (rule Suc.IH)
    show "\<forall>i < d. wcount (win_at (Suc cur) w1 (Suc cur + i)) = 0"
      using Suc.prems(5) at by (metis Suc_less_eq add_Suc add_Suc_right le_add1)
  qed (use Suc.prems p occ at in simp_all)
  then obtain w' where w': "drain_full (Suc cur) w1 = Some (Suc (Suc cur + d), w')" "passed (Suc cur) w1 (Suc (Suc cur + d)) w'"
    "occupancy w1 = occupancy w' + wcount (win_at (Suc cur) w1 (Suc cur + d))" by blast
  from passed_trans [OF w1(2) w'(2)] have "passed cur w (Suc (cur + Suc d)) w'" by simp
  with w' w1(1) occ Suc.prems(2) at show ?case by (simp add: drain_full.simps [of cur])
qed

subsection \<open>What the window promises\<close>

text \<open>The reference: the units in use as a function of the cycle, with the current cycle and the number of operations. A full window
  drops the first cycle that executes something and those before it; a request takes the first cycle with a free unit; the further
  slots of an operation that keeps its unit busy take the following cycles in which that unit is free.\<close>

definition spec_room :: "nat \<Rightarrow> cycle \<times> (cycle \<Rightarrow> WinCycle) \<times> nat \<Rightarrow> cycle \<times> (cycle \<Rightarrow> WinCycle) \<times> nat" where
  "spec_room sz = (\<lambda>(cur, f, occ). if occ = sz
     then let c = (LEAST c. cur \<le> c \<and> 0 < wcount (f c)) in (Suc c, \<lambda>k. if k \<le> c then WinCycle_zero else f k, occ - wcount (f c))
     else (cur, f, occ))"

fun spec_extra :: "nat \<Rightarrow> cycle \<Rightarrow> u8 \<Rightarrow> cycle \<Rightarrow> (cycle \<Rightarrow> WinCycle) \<Rightarrow> cycle \<Rightarrow> WinCycle" where
  "spec_extra 0 cur pm s f = f"
| "spec_extra (Suc n) cur pm s f = (let c = first_free pm (max cur s) f in spec_extra n cur pm (Suc c) (f(c := claim False pm (f c))))"

definition spec_schedule ::
  "nat \<Rightarrow> cycle \<Rightarrow> u8 \<Rightarrow> nat \<Rightarrow> cycle \<times> (cycle \<Rightarrow> WinCycle) \<times> nat \<Rightarrow> cycle \<times> cycle \<times> (cycle \<Rightarrow> WinCycle) \<times> nat" where
  "spec_schedule sz sched pm n v = (case spec_room sz v of (cur, f, occ) \<Rightarrow>
     let c = first_free pm (max cur sched) f
     in (c, cur, spec_extra n cur (push_bit (claim_port True pm (f c)) 1) (Suc c) (f(c := claim True pm (f c))), Suc occ))"

definition win_view :: "cycle \<Rightarrow> WindowStructure \<Rightarrow> cycle \<times> (cycle \<Rightarrow> WinCycle) \<times> nat" where
  "win_view cur w = (cur, win_at cur w, occupancy w)"

text \<open>No unit is in use from the horizon on.\<close>

definition horizon :: "cycle \<Rightarrow> (cycle \<Rightarrow> WinCycle) \<Rightarrow> bool" where
  "horizon l f \<longleftrightarrow> (\<forall>c \<ge> l. f c = WinCycle_zero)"

lemma first_free_le: "horizon l f \<Longrightarrow> pm \<noteq> 0 \<Longrightarrow> from \<le> l \<Longrightarrow> first_free pm from f \<le> l"
  unfolding first_free_def by (rule Least_le) (simp add: horizon_def)

lemma horizon_upd: "horizon l f \<Longrightarrow> c \<le> l \<Longrightarrow> horizon (Suc l) (f(c := wc))"
  by (simp add: horizon_def)

lemma room_spec:
  assumes ok: "win_ok cur w" and sz: "0 < winSZ w" and hor: "horizon l (win_at cur w)" "cur \<le> l"
  shows "\<exists>cur' w'. drain_full cur w = Some (cur', w') \<and> win_ok cur' w' \<and> cur \<le> cur' \<and> cur' \<le> l \<and> winH w' = winH w \<and> winSZ w' = winSZ w
    \<and> occupancy w' < winSZ w \<and> horizon l (win_at cur' w') \<and> win_view cur' w' = spec_room (winSZ w) (win_view cur w)"
proof (cases "occupancy w = winSZ w")
  case False
  with ok hor win_okD(8) [OF ok] show ?thesis by (simp add: drain_full.simps spec_room_def win_view_def)
next
  case True
  define c where "c = (LEAST c. cur \<le> c \<and> 0 < wcount (win_at cur w c))"
  from occupied [OF ok] True sz have "\<exists>c. cur \<le> c \<and> 0 < wcount (win_at cur w c)" by auto
  from LeastI_ex [OF this] have c: "cur \<le> c" "0 < wcount (win_at cur w c)" by (simp_all add: c_def)
  have before: "wcount (win_at cur w i) = 0" if "cur \<le> i" "i < c" for i
    using that not_less_Least [of i "\<lambda>c. cur \<le> c \<and> 0 < wcount (win_at cur w c)"] by (simp add: c_def)
  from drain_full_from [OF ok True sz, of "c - cur"] c before obtain w' where
    w': "drain_full cur w = Some (Suc c, w')" "passed cur w (Suc c) w'" "occupancy w = occupancy w' + wcount (win_at cur w c)" by auto
  have "c < l" using hor c by (metis horizon_def linorder_not_le nless_le zero_count)
  with w' c True hor show ?thesis
    by (auto simp: passed_def win_view_def spec_room_def c_def [symmetric] Let_def horizon_def fun_eq_iff)
qed

text \<open>The place of the last recorded port plays no part.\<close>

lemma lastPort_frame [simp]: "win_at cur (w\<lparr>lastPort := p\<rparr>) = win_at cur w" "win_ok cur (w\<lparr>lastPort := p\<rparr>) = win_ok cur w"
  by (simp_all add: fun_eq_iff win_at_def win_base_def win_ok_def win_total_def)

lemma occupancy_frame [simp]: "win_at cur (w\<lparr>occupancy := p\<rparr>) = win_at cur w"
  by (simp add: fun_eq_iff win_at_def win_base_def)

lemma claim_port_less:
  assumes "free_for pm wc"
  shows "claim_port True pm wc < 8"
proof -
  have "ffs8 a - 1 < 8" for a :: u8
  proof (cases "filter (bit a) [0..<8]")
    case (Cons i js)
    then have "i \<in> set (filter (bit a) [0..<8])" by simp
    then have "i < 8" by (simp del: upt_rec_numeral)
    with Cons show ?thesis by (simp add: ffs8_def)
  qed (simp add: ffs8_def)
  then show ?thesis using assms by (simp add: claim_port_def trySchedule_def Let_def free_for_def)
qed

lemma port_mask: "p < 8 \<Longrightarrow> push_bit p (1 :: u8) \<noteq> 0"
  by (simp add: bit_eq_iff bit_simps exI [of _ p])

lemma shadow_spec:
  assumes ok: "win_ok cur w" and pm: "pm \<noteq> 0" and near: "sched + winH w < cur + 2 ^ 32" "winH w < 2 ^ 32"
  defines "c \<equiv> first_free pm (max cur sched) (win_at cur w)"
  shows "\<exists>w'. scheduleInternal False False cur sched pm w = Some (cur, c, w') \<and> win_ok cur w'
    \<and> win_at cur w' = (win_at cur w)(c := claim False pm (win_at cur w c)) \<and> occupancy w' = occupancy w \<and> winSZ w' = winSZ w \<and> winH w' = winH w"
proof -
  from place_spec [OF ok pm near, of False] obtain w' where
    w': "place False pm cur sched w = Some (c, claim_port False pm (win_at cur w c), w')" "claimed False pm cur c w w'"
    unfolding c_def by blast
  from w'(2) win_okD(8) [OF ok] have "win_ok cur (w'\<lparr>occupancy := occupancy w\<rparr>)" "w'\<lparr>occupancy := occupancy w\<rparr> = w'"
    by (simp_all add: claimed_def weight_def)
  with w' show ?thesis by (simp add: scheduleInternal_def claimed_def)
qed

lemma extra_spec:
  assumes "win_ok cur w" "pm \<noteq> 0" "winH w < 2 ^ 32" "horizon l (win_at cur w)" "cur \<le> l" "s \<le> l" "l + n + winH w < cur + 2 ^ 32"
  shows "\<exists>w'. extra_slots n cur s pm w = Some (cur, w') \<and> win_ok cur w' \<and> win_at cur w' = spec_extra n cur pm s (win_at cur w)
    \<and> occupancy w' = occupancy w \<and> winSZ w' = winSZ w \<and> winH w' = winH w \<and> horizon (l + n) (win_at cur w')"
  using assms
proof (induction n arbitrary: s w l)
  case (Suc n)
  define c where "c = first_free pm (max cur s) (win_at cur w)"
  have "s + winH w < cur + 2 ^ 32" using Suc.prems by linarith
  from shadow_spec [OF Suc.prems(1,2) this Suc.prems(3)] obtain w1 where
    w1: "scheduleInternal False False cur s pm w = Some (cur, c, w1)" "win_ok cur w1"
      "win_at cur w1 = (win_at cur w)(c := claim False pm (win_at cur w c))" "occupancy w1 = occupancy w" "winSZ w1 = winSZ w" "winH w1 = winH w"
    unfolding c_def by blast
  have c: "c \<le> l" unfolding c_def using first_free_le Suc.prems by simp
  with horizon_upd [OF Suc.prems(4)] w1(3) have "horizon (Suc l) (win_at cur w1)" by simp
  from Suc.IH [OF w1(2) Suc.prems(2) _ this, of "Suc c"] c Suc.prems w1(6) obtain w' where
    "extra_slots n cur (Suc c) pm w1 = Some (cur, w')" "win_ok cur w'" "win_at cur w' = spec_extra n cur pm (Suc c) (win_at cur w1)"
    "occupancy w' = occupancy w1" "winSZ w' = winSZ w1" "winH w' = winH w1" "horizon (l + Suc n) (win_at cur w')" by (metis Suc_leI Suc_le_mono add_Suc_shift le_Suc_eq)
  with w1 show ?case by (simp add: c_def [symmetric] Let_def)
qed simp

lemma schedule_internal_spec:
  assumes ok: "win_ok cur w" and sz: "0 < winSZ w" and pm: "pm \<noteq> 0" and hor: "horizon l (win_at cur w)" "cur \<le> l" "sched \<le> l"
    and near: "l + winH w < cur + 2 ^ 32" "winH w < 2 ^ 32" and room: "spec_room (winSZ w) (win_view cur w) = (cur1, f, occ)"
  defines "c \<equiv> first_free pm (max cur1 sched) f"
  shows "\<exists>w'. scheduleInternal True r cur sched pm w = Some (cur1, c, w') \<and> win_ok cur1 w' \<and> cur \<le> cur1 \<and> cur1 \<le> l \<and> c \<le> l
    \<and> win_view cur1 w' = (cur1, f(c := claim True pm (f c)), Suc occ) \<and> winH w' = winH w \<and> winSZ w' = winSZ w
    \<and> horizon (Suc l) (win_at cur1 w') \<and> free_for pm (f c) \<and> (r \<longrightarrow> lastPort w' = claim_port True pm (f c))"
proof -
  from room_spec [OF ok sz hor(1,2)] room obtain w1 where
    w1: "drain_full cur w = Some (cur1, w1)" "win_ok cur1 w1" "cur \<le> cur1" "cur1 \<le> l" "winH w1 = winH w" "winSZ w1 = winSZ w"
      "occupancy w1 < winSZ w" "horizon l (win_at cur1 w1)" and v: "win_at cur1 w1 = f" "occupancy w1 = occ"
    by (auto simp: win_view_def)
  have n: "sched + winH w1 < cur1 + 2 ^ 32" "winH w1 < 2 ^ 32" using w1 hor near by simp_all
  from place_spec [OF w1(2) pm n, of True] obtain w2 where
    w2: "place True pm cur1 sched w1 = Some (c, claim_port True pm (f c), w2)" "claimed True pm cur1 c w1 w2" and fr: "free_for pm (f c)"
    unfolding v c_def by blast
  have c: "c \<le> l" unfolding c_def v(1) [symmetric] using first_free_le [OF w1(8) pm] w1(4) hor(3) by simp
  have h: "horizon (Suc l) (f(c := claim True pm (f c)))" using horizon_upd w1(8) c v(1) by blast
  have ok2: "win_ok cur1 (w2\<lparr>occupancy := Suc occ\<rparr>)" using w2(2) w1(6,7) v(2) by (simp add: claimed_def weight_def)
  define w3 where "w3 = (if r then w2\<lparr>lastPort := claim_port True pm (f c), occupancy := Suc occ\<rparr> else w2\<lparr>occupancy := Suc occ\<rparr>)"
  have "scheduleInternal True r cur sched pm w = Some (cur1, c, w3)"
    using w1(1) w2 v by (simp add: scheduleInternal_def w3_def claimed_def)
  moreover have "win_ok cur1 w3 = win_ok cur1 (w2\<lparr>occupancy := Suc occ\<rparr>)"
    by (simp add: w3_def win_ok_def win_total_def win_base_def)
  moreover have "win_view cur1 w3 = (cur1, f(c := claim True pm (f c)), Suc occ)" "winH w3 = winH w" "winSZ w3 = winSZ w"
    using w2(2) v w1(5,6) by (simp_all add: w3_def win_view_def claimed_def)
  moreover have "r \<longrightarrow> lastPort w3 = claim_port True pm (f c)" by (simp add: w3_def)
  ultimately show ?thesis using ok2 h c fr w1(3,4) by (auto simp: win_view_def)
qed

lemma win_schedule_spec:
  assumes "win_ok cur w" "0 < winSZ w" "portMask \<noteq> 0" "horizon l (win_at cur w)" "cur \<le> l" "sched \<le> l"
    and "l + Suc extraSlots + winH w < cur + 2 ^ 32" "winH w < 2 ^ 32"
  shows "\<exists>cur' c w'. win_schedule cur sched portMask extraSlots w = Some (cur', c, w') \<and> win_ok cur' w'
    \<and> (c, win_view cur' w') = spec_schedule (winSZ w) sched portMask extraSlots (win_view cur w)
    \<and> cur \<le> cur' \<and> cur' \<le> l \<and> c \<le> l \<and> horizon (l + Suc extraSlots) (win_at cur' w') \<and> winSZ w' = winSZ w \<and> winH w' = winH w"
proof -
  obtain cur1 f occ where room: "spec_room (winSZ w) (win_view cur w) = (cur1, f, occ)" by (cases "spec_room (winSZ w) (win_view cur w)")
  define c where "c = first_free portMask (max cur1 sched) f"
  have "l + winH w < cur + 2 ^ 32" using assms(7) by linarith
  from schedule_internal_spec [OF assms(1-6) this assms(8) room, of "extraSlots \<noteq> 0"] obtain w1 where
    s: "scheduleInternal True (extraSlots \<noteq> 0) cur sched portMask w = Some (cur1, c, w1)" and
    w1: "win_ok cur1 w1" "cur \<le> cur1" "cur1 \<le> l" "c \<le> l" "winH w1 = winH w" "winSZ w1 = winSZ w" "horizon (Suc l) (win_at cur1 w1)"
      "free_for portMask (f c)" "extraSlots \<noteq> 0 \<longrightarrow> lastPort w1 = claim_port True portMask (f c)" and
    v: "win_view cur1 w1 = (cur1, f(c := claim True portMask (f c)), Suc occ)" unfolding c_def by blast
  show ?thesis
  proof (cases "extraSlots = 0")
    case True
    with s w1 v room win_okD(8) [OF w1(1)] show ?thesis by (simp add: win_schedule_def spec_schedule_def c_def Let_def)
  next
    case False
    define pm where "pm = push_bit (lastPort w1) (1 :: u8)"
    have pm: "pm \<noteq> 0" using False w1(9) port_mask [OF claim_port_less [OF w1(8)]] by (simp only: pm_def) simp
    have "Suc l + extraSlots + winH w1 < cur1 + 2 ^ 32" "winH w1 < 2 ^ 32" "cur1 \<le> Suc l" "Suc c \<le> Suc l" using assms(7,8) w1 by simp_all
    with extra_spec [OF w1(1) pm _ w1(7), of "Suc c" extraSlots] obtain w2 where
      w2: "extra_slots extraSlots cur1 (Suc c) pm w1 = Some (cur1, w2)" "win_ok cur1 w2"
        "win_at cur1 w2 = spec_extra extraSlots cur1 pm (Suc c) (win_at cur1 w1)" "occupancy w2 = occupancy w1" "winSZ w2 = winSZ w1" "winH w2 = winH w1" "horizon (Suc l + extraSlots) (win_at cur1 w2)" by blast
    with False s v room w1 win_okD(8) [OF w2(2)] show ?thesis
      by (simp add: win_schedule_def spec_schedule_def c_def [symmetric] Let_def pm_def win_view_def)
  qed
qed

text \<open>C19: scheduling a micro-operation in the instruction window refines the reference: the call returns, never trips an assertion, and leaves the
  window that the reference gives. A full window first advances until the first cycle that executes something has passed; the operation gets the
  least cycle, not before the current and the requested ones, in which one of its ports is free; the further slots of an operation that keeps
  its port take the next cycles in which that port is free; the use of every other cycle, in the arrays and in the map, stays as it was. Cycles
  in use and requested are less than about 2^32 ahead, where the 32-bit position does not wrap.\<close>

theorem window_schedule_refines:
  assumes "win_ok cur w" "0 < winSZ w" "portMask \<noteq> 0" "horizon l (win_at cur w)" "cur \<le> l" "sched \<le> l"
    and "l + Suc extraSlots + winH w < cur + 2 ^ 32" "winH w < 2 ^ 32"
  shows "\<exists>cur' c w'. win_schedule cur sched portMask extraSlots w = Some (cur', c, w') \<and> win_ok cur' w'
    \<and> (c, win_view cur' w') = spec_schedule (winSZ w) sched portMask extraSlots (win_view cur w)"
  using win_schedule_spec [OF assms] by blast

lemma WindowStructure_new_ok: "0 < h \<Longrightarrow> win_ok cur (WindowStructure_new junk h sz)"
  by (simp add: win_ok_def WindowStructure_new_def win_total_def)

lemma WindowStructure_new_at: "win_at cur (WindowStructure_new junk h sz) c = WinCycle_zero"
  by (simp add: win_at_def WindowStructure_new_def win_base_def)

theorem window_schedule_refines_witness:
  "\<exists>cur' c w'. win_schedule 5 7 3 1 (WindowStructure_new 0 4 2) = Some (cur', c, w') \<and> win_ok cur' w'
    \<and> (c, win_view cur' w') = spec_schedule 2 7 3 1 (win_view 5 (WindowStructure_new 0 4 2))"
proof -
  have n: "winSZ (WindowStructure_new 0 4 2) = 2" "winH (WindowStructure_new 0 4 2) = 4" by (simp_all add: WindowStructure_new_def)
  have "horizon 7 (win_at 5 (WindowStructure_new 0 4 2))" by (simp add: horizon_def WindowStructure_new_at)
  from window_schedule_refines [OF WindowStructure_new_ok _ _ this, of 3 7 1, unfolded n] show ?thesis by simp
qed

lemma ub_count_zero: "ub_count ub = 0 \<Longrightarrow> wcount (ub_at ub c) = 0"
  by (induction ub) auto

lemma empty_window:
  assumes ok: "win_ok cur w" and occ: "occupancy w = 0"
  shows "wcount (win_at cur w c) = 0"
proof -
  have z: "\<forall>x \<in> set (curWin w). wcount x = 0" "\<forall>x \<in> set (nextWin w). wcount x = 0" "ub_count (ubWin w) = 0"
    using win_okD(7) [OF ok] occ by (auto simp: win_total_def)
  then show ?thesis using win_okD(1-4) [OF ok] ub_count_zero [OF z(3)] by (auto simp: win_at_def win_base_def)
qed

text \<open>Towards a target the window keeps what is scheduled from there on. A window that drains earlier jumps.\<close>

lemma drain_to_spec:
  assumes "win_ok cur w" "cur \<le> target"
  shows "\<exists>cur' w'. drain_to target cur w = Some (cur', w') \<and> cur \<le> cur' \<and> cur' \<le> target \<and> passed cur w cur' w'
    \<and> (occupancy w' = 0 \<or> cur' = target)"
  using assms
proof (induction target cur w rule: drain_to.induct)
  case (1 target cur w)
  show ?case
  proof (cases "occupancy w \<noteq> 0 \<and> cur < target")
    case True
    from advancePos_spec [OF "1.prems"(1)] obtain w1 where
      w1: "advancePos cur w = Some (Suc cur, w1)" "passed cur w (Suc cur) w1" by blast
    from w1(2) have "win_ok (Suc cur) w1" by (simp add: passed_def)
    with "1.IH" [OF True w1(1) refl] True obtain cur' w' where
      r: "drain_to target (Suc cur) w1 = Some (cur', w')" "Suc cur \<le> cur'" "cur' \<le> target" "passed (Suc cur) w1 cur' w'"
        "occupancy w' = 0 \<or> cur' = target" by auto
    with passed_trans [OF w1(2) r(4,2)] True w1(1) show ?thesis by (subst drain_to.simps) auto
  next
    case False
    moreover have "passed cur w cur w" using "1.prems" by (auto simp: passed_def fun_eq_iff win_at_def)
    ultimately show ?thesis using "1.prems" by (subst drain_to.simps) auto
  qed
qed

text \<open>Moving the current cycle to a later one always returns there, with no assertion tripped. If operations are left in the window,
  exactly the cycles that have passed are forgotten, and every later one is in use as before; if none is left, the window is empty of
  operations.\<close>

lemma longAdvance_arrives:
  assumes "win_ok cur w" "cur \<le> target"
  shows "\<exists>w'. longAdvance cur target w = Some (target, w')
    \<and> (if occupancy w' = 0 then \<exists>c \<le> target. passed cur w c w' \<and> (\<forall>k \<ge> c. wcount (win_at cur w k) = 0)
       else passed cur w target w')"
proof -
  from drain_to_spec [OF assms] obtain c w' where
    r: "drain_to target cur w = Some (c, w')" "cur \<le> c" "c \<le> target" "passed cur w c w'" "occupancy w' = 0 \<or> c = target" by blast
  have "wcount (win_at cur w k) = 0" if "occupancy w' = 0" "c \<le> k" for k
  proof -
    from r(4) have ok: "win_ok c w'" by (simp add: passed_def)
    from empty_window [OF ok that(1)] have "wcount (win_at c w' k) = 0" .
    moreover have "win_at c w' k = win_at cur w k" using r(4) that by (simp add: passed_def)
    ultimately show ?thesis by simp
  qed
  with r assms(2) show ?thesis by (auto simp: longAdvance_def)
qed

text \<open>A jump of a drained window does not move the slots that an operation still keeps busy: they are counted from the current cycle. In
  this window an operation executes in cycle 0 and keeps its unit busy in cycle 1; after a jump the unit is free in cycle 1 of the new
  time and busy in the cycle of the target.\<close>

definition busy_window :: WindowStructure where
  "busy_window = (WindowStructure_new 0 4 2)\<lparr>curWin := [\<lparr>occUnits = 1, wcount = 1\<rparr>, \<lparr>occUnits = 1, wcount = 0\<rparr>, WinCycle_zero, WinCycle_zero],
     occupancy := 1\<rparr>"

lemma longAdvance_moves_slots:
  "win_ok 0 busy_window" "win_at 0 busy_window 10 = WinCycle_zero"
  "\<exists>w'. longAdvance 0 10 busy_window = Some (10, w') \<and> win_at 10 w' 10 = \<lparr>occUnits = 1, wcount = 0\<rparr>"
proof -
  note defs = busy_window_def WindowStructure_new_def WinCycle_zero_def
  define w1 where "w1 = busy_window\<lparr>curWin := [WinCycle_zero, \<lparr>occUnits = 1, wcount = 0\<rparr>, WinCycle_zero, WinCycle_zero], occupancy := 0, curPos := 1\<rparr>"
  have "advancePos 0 busy_window = Some (1, w1)" by (simp add: advancePos_def w1_def defs)
  moreover have "occupancy busy_window = 1" "occupancy w1 = 0" by (simp_all add: w1_def defs)
  ultimately have "drain_to 10 0 busy_window = Some (1, w1)" by (simp add: drain_to.simps [of 10 0] drain_to.simps [of 10 "Suc 0"])
  with \<open>occupancy w1 = 0\<close> have "longAdvance 0 10 busy_window = Some (10, w1)" by (simp add: longAdvance_def)
  moreover have "win_at 10 w1 10 = \<lparr>occUnits = 1, wcount = 0\<rparr>" by (simp add: win_at_def win_base_def w1_def defs)
  ultimately show "\<exists>w'. longAdvance 0 10 busy_window = Some (10, w') \<and> win_at 10 w' 10 = \<lparr>occUnits = 1, wcount = 0\<rparr>" by blast
qed (simp_all add: win_ok_def win_total_def win_at_def win_base_def busy_window_def WindowStructure_new_def WinCycle_zero_def)

end
