(* ===== verification/OOOQueues.thy ===== *)
theory OOOQueues
  imports OOOWindow
begin

text \<open>
  The other structures of the out-of-order core (\<^verbatim>\<open>src/src/ooo_core.h\<close>): the reorder buffer, which also models the load and store queues, the
  micro-operation queue, and the two-level branch predictor. The template parameters are fields of the records.

  The lemmas relate each structure to a reference: the buffers to the sequence of the cycles at which operations left, the predictor to the
  recent outcomes of each branch and to saturating counters.
\<close>

section \<open>Reorder buffer\<close>

record ReorderBuffer =
  rbSZ :: nat
  rbW :: nat
  rbBuf :: "cycle list"
  curRetireCycle :: cycle
  curCycleRetires :: nat
  rbIdx :: nat

definition ReorderBuffer_new :: "nat \<Rightarrow> nat \<Rightarrow> ReorderBuffer" where
  "ReorderBuffer_new sz w = \<lparr>rbSZ = sz, rbW = w, rbBuf = replicate sz 0, curRetireCycle = 0, curCycleRetires = 1, rbIdx = 0\<rparr>"

definition rob_minAllocCycle :: "ReorderBuffer \<Rightarrow> cycle" where
  "rob_minAllocCycle r = rbBuf r ! rbIdx r"

definition retire_slot :: "cycle \<Rightarrow> ReorderBuffer \<Rightarrow> cycle \<times> nat" where
  "retire_slot minRetireCycle r =
     (if minRetireCycle \<le> curRetireCycle r
      then if curCycleRetires r = rbW r then (Suc (curRetireCycle r), 0) else (curRetireCycle r, Suc (curCycleRetires r))
      else (minRetireCycle, 1))"

definition markRetire :: "cycle \<Rightarrow> ReorderBuffer \<Rightarrow> ReorderBuffer" where
  "markRetire minRetireCycle r = (case retire_slot minRetireCycle r of (c, n) \<Rightarrow>
     r\<lparr>curRetireCycle := c, curCycleRetires := n, rbBuf := (rbBuf r)[rbIdx r := c],
       rbIdx := (if Suc (rbIdx r) = rbSZ r then 0 else Suc (rbIdx r))\<rparr>)"

section \<open>Micro-operation queue\<close>

record CycleQueue =
  cqSZ :: nat
  cqBuf :: "cycle list"
  cqIdx :: nat

definition CycleQueue_new :: "nat \<Rightarrow> CycleQueue" where
  "CycleQueue_new sz = \<lparr>cqSZ = sz, cqBuf = replicate sz 0, cqIdx = 0\<rparr>"

definition cq_minAllocCycle :: "CycleQueue \<Rightarrow> cycle" where
  "cq_minAllocCycle q = cqBuf q ! cqIdx q"

definition markLeave :: "cycle \<Rightarrow> CycleQueue \<Rightarrow> CycleQueue" where
  "markLeave leaveCycle q = q\<lparr>cqBuf := (cqBuf q)[cqIdx q := leaveCycle],
     cqIdx := (if Suc (cqIdx q) = cqSZ q then 0 else Suc (cqIdx q))\<rparr>"

section \<open>Branch predictor\<close>

record BranchPredictorPAg =
  bpNB :: nat
  bpHB :: nat
  bpLB :: nat
  bhsr :: "32 word list"
  pht :: "nat list"

definition BranchPredictorPAg_new :: "nat \<Rightarrow> nat \<Rightarrow> nat \<Rightarrow> BranchPredictorPAg" where
  "BranchPredictorPAg_new nb hb lb = \<lparr>bpNB = nb, bpHB = hb, bpLB = lb, bhsr = replicate (2 ^ nb) 0, pht = replicate (2 ^ lb) 1\<rparr>"

definition low_mask :: "nat \<Rightarrow> 32 word" where
  "low_mask n = push_bit n 1 - 1"

definition bhsrIdx :: "BranchPredictorPAg \<Rightarrow> 64 word \<Rightarrow> nat" where
  "bhsrIdx p branchPc = unat ((ucast (drop_bit 1 branchPc) :: 32 word) AND low_mask (bpNB p))"

definition phtIdx :: "BranchPredictorPAg \<Rightarrow> 32 word \<Rightarrow> nat" where
  "phtIdx p h = unat ((h XOR drop_bit (bpHB p - bpLB p) (h AND NOT (low_mask (bpLB p)))) AND low_mask (bpLB p))"

definition predict :: "64 word \<Rightarrow> bool \<Rightarrow> BranchPredictorPAg \<Rightarrow> bool \<times> BranchPredictorPAg" where
  "predict branchPc taken p = (let
       b = bhsrIdx p branchPc;
       i = phtIdx p (bhsr p ! b);
       pred = pht p ! i > 1
     in (taken = pred,
         p\<lparr>pht := (pht p)[i := if taken then if pred then 3 else pht p ! i + 1 else if pred then pht p ! i - 1 else 0],
           bhsr := (bhsr p)[b := (push_bit 1 (bhsr p ! b) AND low_mask (bpHB p)) OR (if taken then 1 else 0)]\<rparr>))"

section \<open>The buffers as histories\<close>

subsection \<open>Rings\<close>

text \<open>A ring of \<open>n\<close> places written in turn holds the last \<open>n\<close> values: the next place to write holds the value of \<open>n\<close> writes ago.\<close>

definition ring_of :: "nat \<Rightarrow> cycle list \<Rightarrow> cycle list \<Rightarrow> nat \<Rightarrow> bool" where
  "ring_of n hist buf i \<longleftrightarrow> length buf = n \<and> i = length hist mod n
     \<and> (\<forall>k < n. buf ! ((length hist + k) mod n) = (if length hist + k < n then 0 else hist ! (length hist + k - n)))"

lemma ring_new: "0 < n \<Longrightarrow> ring_of n [] (replicate n 0) 0"
  by (simp add: ring_of_def)

lemma ring_write:
  assumes "ring_of n hist buf i" "0 < n"
  shows "ring_of n (hist @ [c]) (buf[i := c]) (if Suc i = n then 0 else Suc i)"
proof -
  let ?m = "length hist"
  from assms have len: "length buf = n" and i: "i = ?m mod n" "i < n"
    and old: "\<And>k. k < n \<Longrightarrow> buf ! ((?m + k) mod n) = (if ?m + k < n then 0 else hist ! (?m + k - n))"
    by (auto simp: ring_of_def)
  have "buf[i := c] ! ((Suc ?m + k) mod n) = (if Suc ?m + k < n then 0 else (hist @ [c]) ! (Suc ?m + k - n))" if k: "k < n" for k
  proof (cases "Suc k = n")
    case True
    then have e: "Suc ?m + k = ?m + n" by simp
    show ?thesis unfolding e using i len by simp
  next
    case False
    with k have lt: "Suc k < n" by simp
    have "(?m + Suc k) mod n \<noteq> ?m mod n"
    proof
      assume "(?m + Suc k) mod n = ?m mod n"
      then have "n dvd Suc k" by (metis add_diff_cancel_left' le_add1 mod_eq_dvd_iff_nat)
      with lt show False by (auto dest: dvd_imp_le)
    qed
    with old [OF lt] i len lt show ?thesis by (auto simp: nth_append)
  qed
  moreover have "(if Suc i = n then 0 else Suc i) = Suc ?m mod n" using i by (simp add: mod_Suc)
  ultimately show ?thesis using len by (simp add: ring_of_def)
qed

lemma ring_next: "ring_of n hist buf i \<Longrightarrow> 0 < n \<Longrightarrow> buf ! i = (if length hist < n then 0 else hist ! (length hist - n))"
  by (auto simp: ring_of_def dest: spec [of _ 0])

subsection \<open>Retirement\<close>

text \<open>The cycles at which a sequence of operations leaves the buffer.\<close>

fun retire_cycles :: "ReorderBuffer \<Rightarrow> cycle list \<Rightarrow> cycle list" where
  "retire_cycles r [] = []"
| "retire_cycles r (m # ms) = (let r' = markRetire m r in curRetireCycle r' # retire_cycles r' ms)"

definition rob_run :: "ReorderBuffer \<Rightarrow> cycle list \<Rightarrow> ReorderBuffer" where
  "rob_run r ms = fold markRetire ms r"

lemma rob_run_snoc [simp]: "rob_run r (ms @ [m]) = markRetire m (rob_run r ms)"
  by (simp add: rob_run_def)

lemma retire_cycles_snoc [simp]: "retire_cycles r (ms @ [m]) = retire_cycles r ms @ [curRetireCycle (rob_run r (ms @ [m]))]"
  by (induction ms arbitrary: r) (simp_all add: rob_run_def Let_def)

lemma retire_cycles_length [simp]: "length (retire_cycles r ms) = length ms"
  by (induction ms arbitrary: r) (simp_all add: Let_def)

lemma retire_slotE:
  assumes "retire_slot m r = (c, n)"
  obtains "m \<le> curRetireCycle r" "curCycleRetires r = rbW r" "c = Suc (curRetireCycle r)" "n = 0"
    | "m \<le> curRetireCycle r" "curCycleRetires r \<noteq> rbW r" "c = curRetireCycle r" "n = Suc (curCycleRetires r)"
    | "curRetireCycle r < m" "c = m" "n = 1"
  using assms by (fastforce simp: retire_slot_def split: if_splits)

text \<open>What holds of the buffer and of the cycles so far.\<close>

definition rob_hist :: "nat \<Rightarrow> nat \<Rightarrow> cycle list \<Rightarrow> ReorderBuffer \<Rightarrow> bool" where
  "rob_hist sz w hist r \<longleftrightarrow> rbSZ r = sz \<and> rbW r = w \<and> ring_of sz hist (rbBuf r) (rbIdx r) \<and> sorted hist \<and> (\<forall>c \<in> set hist. c \<le> curRetireCycle r)
     \<and> curCycleRetires r \<le> w \<and> count_list hist (curRetireCycle r) \<le> Suc (curCycleRetires r) \<and> (\<forall>c. count_list hist c \<le> Suc w)"

lemma rob_hist_new: "0 < sz \<Longrightarrow> 0 < w \<Longrightarrow> rob_hist sz w [] (ReorderBuffer_new sz w)"
  by (simp add: rob_hist_def ReorderBuffer_new_def ring_new)

lemma rob_hist_mark:
  assumes h: "rob_hist sz w hist r" and pos: "0 < sz" "0 < w"
  shows "rob_hist sz w (hist @ [curRetireCycle (markRetire m r)]) (markRetire m r) \<and> m \<le> curRetireCycle (markRetire m r)"
proof -
  obtain c n where s: "retire_slot m r = (c, n)" by (cases "retire_slot m r")
  from h have ring: "ring_of sz hist (rbBuf r) (rbIdx r)" and srt: "sorted hist" and top: "\<forall>c \<in> set hist. c \<le> curRetireCycle r"
    and n: "curCycleRetires r \<le> w" "count_list hist (curRetireCycle r) \<le> Suc (curCycleRetires r)" "\<forall>c. count_list hist c \<le> Suc w"
    and f: "rbSZ r = sz" "rbW r = w" by (auto simp: rob_hist_def)
  have later: "count_list hist d = 0" if "curRetireCycle r < d" for d
    using that top by (auto simp: count_list_0_iff)
  from s have "curRetireCycle r \<le> c \<and> m \<le> c \<and> n \<le> w \<and> count_list hist c \<le> n"
    by (cases rule: retire_slotE) (use n later pos f in \<open>auto simp: le_Suc_eq\<close>)
  moreover have "sorted (hist @ [d])" if "curRetireCycle r \<le> d" for d using srt top that by (fastforce simp: sorted_append)
  moreover have "\<forall>x \<in> set hist. x \<le> d" if "curRetireCycle r \<le> d" for d using top that by fastforce
  ultimately show ?thesis using ring_write [OF ring pos(1), of c] s f n(3) by (auto simp: rob_hist_def markRetire_def)
qed

text \<open>C23: the reorder buffer retires in order. Of any sequence of operations, each leaves no earlier than its own minimum and than the operations
  before it, at most one more than the width leave in a cycle, and an operation can enter no earlier than the one that many places ahead left.\<close>

theorem rob_retires_in_order:
  fixes ms :: "cycle list"
  assumes "0 < sz" "0 < w"
  defines "rs \<equiv> retire_cycles (ReorderBuffer_new sz w) ms"
  shows "sorted rs \<and> list_all2 (\<le>) ms rs \<and> (\<forall>c. count_list rs c \<le> Suc w)
    \<and> rob_minAllocCycle (rob_run (ReorderBuffer_new sz w) ms) = (if length ms < sz then 0 else rs ! (length ms - sz))"
proof -
  have "rob_hist sz w (retire_cycles (ReorderBuffer_new sz w) ms) (rob_run (ReorderBuffer_new sz w) ms)
    \<and> list_all2 (\<le>) ms (retire_cycles (ReorderBuffer_new sz w) ms)"
  proof (induction ms rule: rev_induct)
    case Nil
    then show ?case using rob_hist_new [OF assms(1,2)] by (simp add: rob_run_def)
  next
    case (snoc m ms)
    from rob_hist_mark [OF conjunct1 [OF snoc.IH] assms(1,2), of m] snoc.IH show ?case by (auto intro!: list_all2_appendI)
  qed
  then show ?thesis using ring_next assms(1) by (auto simp: rob_hist_def rs_def rob_minAllocCycle_def)
qed

theorem rob_retires_in_order_witness:
  "let rs = retire_cycles (ReorderBuffer_new 2 1) [3, 1, 7] in sorted rs \<and> list_all2 (\<le>) [3, 1, 7] rs \<and> (\<forall>c. count_list rs c \<le> Suc 1)
    \<and> rob_minAllocCycle (rob_run (ReorderBuffer_new 2 1) [3, 1, 7]) = rs ! 1"
  using rob_retires_in_order [of 2 1 "[3, 1, 7]"] by (simp add: Let_def)

text \<open>The bound of one more than the width is reached: of the operations of a core of width 4 that are ready in cycle 1, five retire in cycle 2.\<close>

lemma rob_exceeds_width: "count_list (retire_cycles (ReorderBuffer_new 128 4) (replicate 9 1)) 2 = 5"
  by code_simp

section \<open>The predictor as histories and counters\<close>

text \<open>A history register holds the outcomes of the last branches that used it, the newest in the lowest bit.\<close>

definition hist_word :: "bool list \<Rightarrow> 32 word" where
  "hist_word bs = horner_sum of_bool 2 bs"

definition saturate :: "bool \<Rightarrow> nat \<Rightarrow> nat" where
  "saturate taken c = (if taken then min 3 (Suc c) else c - 1)"

definition bp_ok :: "(nat \<Rightarrow> bool list) \<Rightarrow> BranchPredictorPAg \<Rightarrow> bool" where
  "bp_ok h p \<longleftrightarrow> bpNB p \<le> bpLB p \<and> bpLB p \<le> bpHB p \<and> bpHB p < 32 \<and> length (bhsr p) = 2 ^ bpNB p \<and> length (pht p) = 2 ^ bpLB p
     \<and> (\<forall>i < 2 ^ bpNB p. bhsr p ! i = hist_word (h i) \<and> length (h i) \<le> bpHB p) \<and> (\<forall>c \<in> set (pht p). c \<le> 3)"

lemma low_mask_eq: "low_mask n = mask n"
  by (simp add: low_mask_def mask_eq_exp_minus_1 push_bit_eq_mult)

lemma unat_and_mask: "n < 32 \<Longrightarrow> unat ((x :: 32 word) AND low_mask n) < 2 ^ n"
  by (simp add: low_mask_eq take_bit_eq_mask [symmetric] unsigned_take_bit_eq)

lemma bhsrIdx_less: "bp_ok h p \<Longrightarrow> bhsrIdx p pc < 2 ^ bpNB p"
  unfolding bhsrIdx_def by (rule unat_and_mask) (auto simp: bp_ok_def)

lemma phtIdx_less: "bp_ok h p \<Longrightarrow> phtIdx p x < 2 ^ bpLB p"
  unfolding phtIdx_def by (rule unat_and_mask) (auto simp: bp_ok_def)

lemma bit_hist_word: "bit (hist_word bs) k \<longleftrightarrow> k < 32 \<and> k < length bs \<and> bs ! k"
  by (simp add: hist_word_def bit_horner_sum_bit_iff)

lemma hist_shift:
  assumes "n < 32"
  shows "(push_bit 1 (hist_word bs) AND low_mask n) OR (if t then 1 else 0) = hist_word (if n = 0 then [t] else take n (t # bs))"
proof (rule bit_word_eqI)
  fix k assume "k < LENGTH(32)"
  then show "bit ((push_bit 1 (hist_word bs) AND low_mask n) OR (if t then 1 else 0)) k = bit (hist_word (if n = 0 then [t] else take n (t # bs))) k"
    unfolding bit_or_iff bit_and_iff bit_push_bit_iff low_mask_eq bit_mask_iff bit_hist_word
    using assms by (cases k; cases n) (auto simp: bit_hist_word)
qed

text \<open>C24: the branch predictor keeps, for every branch address class, the outcomes of its last branches, and for every pattern a two-bit
  saturating counter: a prediction uses the counter of the current pattern and is right when the outcome is the upper half of its range,
  then that counter moves one step towards the outcome within 0 and 3 and the outcome is shifted into the history; the indices stay within
  the tables and nothing else changes.\<close>

theorem predict_refines:
  fixes branchPc :: "64 word" and taken :: bool
  assumes ok: "bp_ok h p" and pos: "0 < bpHB p"
  defines "b \<equiv> bhsrIdx p branchPc"
  defines "i \<equiv> phtIdx p (hist_word (h b))"
  shows "\<exists>p'. predict branchPc taken p = ((taken \<longleftrightarrow> 2 \<le> pht p ! i), p') \<and> b < 2 ^ bpNB p \<and> i < 2 ^ bpLB p
    \<and> pht p' = (pht p)[i := saturate taken (pht p ! i)] \<and> bp_ok (h(b := take (bpHB p) (taken # h b))) p'"
proof -
  have b: "b < 2 ^ bpNB p" unfolding b_def using bhsrIdx_less [OF ok] .
  have i: "i < 2 ^ bpLB p" unfolding i_def using phtIdx_less [OF ok] .
  from ok b have hb: "bhsr p ! b = hist_word (h b)" by (simp add: bp_ok_def)
  have c: "pht p ! i \<le> 3" using ok i by (simp add: bp_ok_def)
  then have sat: "(if taken then if pht p ! i > 1 then 3 else pht p ! i + 1 else if pht p ! i > 1 then pht p ! i - 1 else 0) = saturate taken (pht p ! i)"
    by (auto simp: saturate_def)
  have le: "saturate taken (pht p ! i) \<le> 3" using c by (auto simp: saturate_def)
  define p' where "p' = p\<lparr>pht := (pht p)[i := saturate taken (pht p ! i)],
    bhsr := (bhsr p)[b := hist_word (take (bpHB p) (taken # h b))]\<rparr>"
  have "predict branchPc taken p = ((taken \<longleftrightarrow> 2 \<le> pht p ! i), p')"
    using sat hist_shift [of "bpHB p" "h b" taken] ok pos
    by (auto simp: predict_def Let_def b_def [symmetric] hb i_def [symmetric] p'_def bp_ok_def)
  moreover have "bp_ok (h(b := take (bpHB p) (taken # h b))) p'"
    using ok le b by (auto simp: bp_ok_def p'_def nth_list_update dest!: set_update_subset_insert [THEN subsetD])
  ultimately show ?thesis using b i by (simp add: p'_def)
qed

lemma bp_ok_new: "nb \<le> lb \<Longrightarrow> lb \<le> hb \<Longrightarrow> hb < 32 \<Longrightarrow> bp_ok (\<lambda>i. []) (BranchPredictorPAg_new nb hb lb)"
  by (simp add: bp_ok_def BranchPredictorPAg_new_def hist_word_def)

theorem predict_refines_witness:
  "\<exists>p'. predict 6 True (BranchPredictorPAg_new 2 3 2) = (False, p') \<and> bp_ok ((\<lambda>i. [])(3 := [True])) p'"
proof -
  have ok: "bp_ok (\<lambda>i. []) (BranchPredictorPAg_new 2 3 2)" by (simp add: bp_ok_new)
  have n: "bpHB (BranchPredictorPAg_new 2 3 2) = 3" "bhsrIdx (BranchPredictorPAg_new 2 3 2) 6 = 3"
    "phtIdx (BranchPredictorPAg_new 2 3 2) (hist_word []) = 0" "pht (BranchPredictorPAg_new 2 3 2) ! 0 = 1"
    by (simp_all add: BranchPredictorPAg_new_def bhsrIdx_def phtIdx_def low_mask_def hist_word_def)
  from predict_refines [OF ok, of 6 True] show ?thesis by (auto simp: n)
qed

end
