(* ===== verification/OOOCore.thy ===== *)
theory OOOCore
  imports OOOQueues
begin

text \<open>
  The out-of-order core (\<^verbatim>\<open>src/src/ooo_core.cpp\<close>, \<^verbatim>\<open>src/src/ooo_core.h\<close>). The instrumentation records the loads, stores and the branch of a basic
  block; when the next block starts, \<^verbatim>\<open>bbl\<close> runs the micro-operations of the block through decode, issue, dispatch, the load and store
  units and retirement, and then the fetch of the new block.

  The caches and the recorder are not part of the core: they are the fields of a record of functions on a state of their own, each of which
  may abort. The counter of accesses that paces the refresh of the last-level cache is a static variable, shared by all the cores, and is passed
  along with that state; its comparison with a threshold in floating point is a field of the parameters. The static arrays of recorded
  addresses have 256 entries; the code writes and reads them without a check, and an index past the end, which is undefined there, ends
  the model like a failed assertion. Cycles are natural numbers; where the code stores a difference in 32 bits the model does, too. The
  number of architectural registers comes from the instrumentation framework and is the length of the scoreboard.
\<close>

section \<open>Micro-operations and basic blocks\<close>

datatype UopType = UOP_GENERAL | UOP_LOAD | UOP_STORE | UOP_STORE_ADDR | UOP_FENCE

record DynUop =
  rs0 :: nat
  rs1 :: nat
  rd0 :: nat
  rd1 :: nat
  uop_lat :: nat
  decCycle :: nat
  uop_type :: UopType
  uop_portMask :: u8
  extraSlots :: nat

record DynBbl =
  bbl_uop :: "DynUop list"
  bbl_approxInstrs :: nat

record BblInfo =
  bi_instrs :: nat
  bi_bytes :: u32
  oooBbl :: DynBbl

section \<open>State\<close>

definition FETCH_STAGE :: nat where "FETCH_STAGE = 1"
definition DECODE_STAGE :: nat where "DECODE_STAGE = 4"
definition ISSUE_STAGE :: nat where "ISSUE_STAGE = 7"
definition DISPATCH_STAGE :: nat where "DISPATCH_STAGE = 13"
definition L1D_LAT :: nat where "L1D_LAT = 4"
definition FETCH_BYTES_PER_CYCLE :: nat where "FETCH_BYTES_PER_CYCLE = 16"
definition ISSUES_PER_CYCLE :: nat where "ISSUES_PER_CYCLE = 4"
definition RF_READS_PER_CYCLE :: nat where "RF_READS_PER_CYCLE = 3"
definition FWD_ENTRIES :: nat where "FWD_ENTRIES = 32"
definition MEM_OPS :: nat where "MEM_OPS = 256"

lemmas ooo_params = FETCH_STAGE_def DECODE_STAGE_def ISSUE_STAGE_def DISPATCH_STAGE_def L1D_LAT_def FETCH_BYTES_PER_CYCLE_def ISSUES_PER_CYCLE_def
  RF_READS_PER_CYCLE_def FWD_ENTRIES_def MEM_OPS_def

record OOOCore =
  phaseEndCycle :: cycle
  curCycle :: cycle
  regScoreboard :: "cycle list"
  prevBbl :: "BblInfo option"
  loadAddrs :: "addr list"
  storeAddrs :: "addr list"
  loads :: nat
  stores :: nat
  lastStoreCommitCycle :: cycle
  lastStoreAddrCommitCycle :: cycle
  loadQueue :: ReorderBuffer
  storeQueue :: ReorderBuffer
  curCycleRFReads :: nat
  curCycleIssuedUops :: nat
  insWindow :: WindowStructure
  rob :: ReorderBuffer
  branchPred :: BranchPredictorPAg
  branchPc :: addr
  branchTaken :: bool
  branchTakenNpc :: addr
  branchNotTakenNpc :: addr
  decodeCycle :: cycle
  uopQueue :: CycleQueue
  n_instrs :: nat
  n_uops :: nat
  n_bbls :: nat
  n_approxInstrs :: nat
  mispredBranches :: nat
  fwdArray :: "(addr \<times> cycle) list"

text \<open>What the core calls: the two filter caches, the recorder and the refresh of a bank; the global parameters.\<close>

record 'm OOOEnv =
  l1d_load :: "addr \<Rightarrow> cycle \<Rightarrow> 'm \<Rightarrow> (cycle \<times> 'm) option"
  l1d_store :: "addr \<Rightarrow> cycle \<Rightarrow> 'm \<Rightarrow> (cycle \<times> 'm) option"
  l1i_load :: "addr \<Rightarrow> cycle \<Rightarrow> 'm \<Rightarrow> (cycle \<times> 'm) option"
  l1_contextSwitch :: "'m \<Rightarrow> 'm"
  rec_record :: "cycle \<Rightarrow> cycle \<Rightarrow> cycle \<Rightarrow> 'm \<Rightarrow> 'm option"
  rec_notifyJoin :: "cycle \<Rightarrow> 'm \<Rightarrow> (cycle \<times> 'm) option"
  rec_notifyLeave :: "cycle \<Rightarrow> 'm \<Rightarrow> 'm option"
  rec_cSimStart :: "cycle \<Rightarrow> 'm \<Rightarrow> (cycle \<times> 'm) option"
  rec_cSimEnd :: "cycle \<Rightarrow> 'm \<Rightarrow> (cycle \<times> 'm) option"
  llc_processRefresh :: "nat \<Rightarrow> 'm \<Rightarrow> 'm option"
  z_isCEASER :: bool
  z_refreshDue :: "nat \<Rightarrow> bool"
  z_llc_banks :: nat
  z_phaseLength :: cycle
  z_lineBits :: nat

text \<open>The constructor does not set the recorded addresses, their numbers and the fields of the branch other than its address; \<open>c\<close> holds what was there.\<close>

definition OOOCore_new :: "nat \<Rightarrow> 'm OOOEnv \<Rightarrow> OOOCore \<Rightarrow> OOOCore" where
  "OOOCore_new max_registers z c = c\<lparr>
     decodeCycle := DECODE_STAGE, curCycle := 0, phaseEndCycle := z_phaseLength z, regScoreboard := replicate max_registers 0, prevBbl := None,
     lastStoreCommitCycle := 0, lastStoreAddrCommitCycle := 0, curCycleRFReads := 0, curCycleIssuedUops := 0, branchPc := 0,
     n_instrs := 0, n_uops := 0, n_bbls := 0, n_approxInstrs := 0, mispredBranches := 0, fwdArray := replicate FWD_ENTRIES (- 1, 0),
     loadQueue := ReorderBuffer_new 32 4, storeQueue := ReorderBuffer_new 32 4, rob := ReorderBuffer_new 128 4,
     insWindow := WindowStructure_new (lastPort (insWindow c)) 1024 36, branchPred := BranchPredictorPAg_new 11 18 14, uopQueue := CycleQueue_new 28\<rparr>"

section \<open>Recording a block\<close>

definition ooo_load :: "addr \<Rightarrow> OOOCore \<Rightarrow> OOOCore option" where
  "ooo_load a c = do { assert_that (loads c < MEM_OPS); Some (c\<lparr>loadAddrs := (loadAddrs c)[loads c := a], loads := Suc (loads c)\<rparr>) }"

definition ooo_store :: "addr \<Rightarrow> OOOCore \<Rightarrow> OOOCore option" where
  "ooo_store a c = do { assert_that (stores c < MEM_OPS); Some (c\<lparr>storeAddrs := (storeAddrs c)[stores c := a], stores := Suc (stores c)\<rparr>) }"

definition predFalseMemOp :: "OOOCore \<Rightarrow> OOOCore option" where
  "predFalseMemOp c = do { assert_that (loads c < MEM_OPS); Some (c\<lparr>loadAddrs := (loadAddrs c)[loads c := - 1], loads := Suc (loads c)\<rparr>) }"

definition PredLoadFunc :: "addr \<Rightarrow> bool \<Rightarrow> OOOCore \<Rightarrow> OOOCore option" where
  "PredLoadFunc a pred c = (if pred then ooo_load a c else predFalseMemOp c)"

definition PredStoreFunc :: "addr \<Rightarrow> bool \<Rightarrow> OOOCore \<Rightarrow> OOOCore option" where
  "PredStoreFunc a pred c = (if pred then ooo_store a c else predFalseMemOp c)"

definition ooo_branch :: "addr \<Rightarrow> bool \<Rightarrow> addr \<Rightarrow> addr \<Rightarrow> OOOCore \<Rightarrow> OOOCore" where
  "ooo_branch pc taken takenNpc notTakenNpc c =
     c\<lparr>branchPc := pc, branchTaken := taken, branchTakenNpc := takenNpc, branchNotTakenNpc := notTakenNpc\<rparr>"

definition ooo_contextSwitch :: "'m OOOEnv \<Rightarrow> int \<Rightarrow> OOOCore \<times> 'm \<Rightarrow> OOOCore \<times> 'm" where
  "ooo_contextSwitch z gid cm = (if gid = - 1 then ((fst cm)\<lparr>prevBbl := None\<rparr>, l1_contextSwitch z (snd cm)) else cm)"

section \<open>One micro-operation\<close>

subsection \<open>Decode and issue\<close>

fun advance_by :: "nat \<Rightarrow> OOOCore \<Rightarrow> OOOCore option" where
  "advance_by 0 c = Some c"
| "advance_by (Suc n) c = do {
     (cur, w) \<leftarrow> advancePos (curCycle c) (insWindow c);
     advance_by n (c\<lparr>curCycle := cur, insWindow := w\<rparr>) }"

definition uop_decode :: "nat \<Rightarrow> DynUop \<Rightarrow> OOOCore \<Rightarrow> OOOCore option" where
  "uop_decode prevDecCycle u c = do {
     let decDiff = (decCycle u + 2 ^ 32 - prevDecCycle) mod 2 ^ 32;
     let c1 = c\<lparr>decodeCycle := max (decodeCycle c + decDiff) (cq_minAllocCycle (uopQueue c))\<rparr>;
     c2 \<leftarrow> (if decodeCycle c1 > curCycle c1
           then advance_by ((decodeCycle c1 - curCycle c1) mod 2 ^ 32) (c1\<lparr>curCycleIssuedUops := 0, curCycleRFReads := 0\<rparr>)
           else Some c1);
     Some (c2\<lparr>uopQueue := markLeave (curCycle c2) (uopQueue c2)\<rparr>) }"

text \<open>The issue width, the reads of the register file, and the cycle from which the operation can be dispatched.\<close>

definition uop_width :: "OOOCore \<Rightarrow> OOOCore option" where
  "uop_width c = do {
     c1 \<leftarrow> (if curCycleIssuedUops c \<ge> ISSUES_PER_CYCLE then advance_by 1 (c\<lparr>curCycleIssuedUops := 0, curCycleRFReads := 0\<rparr>) else Some c);
     Some (c1\<lparr>curCycleIssuedUops := Suc (curCycleIssuedUops c1), regScoreboard := (regScoreboard c1)[0 := curCycle c1]\<rparr>) }"

definition uop_reads :: "cycle \<Rightarrow> cycle \<Rightarrow> OOOCore \<Rightarrow> OOOCore option" where
  "uop_reads c0 c1 c = (let n = curCycleRFReads c + of_bool (c0 < curCycle c) + of_bool (c1 < curCycle c) in
     if n > RF_READS_PER_CYCLE
     then advance_by 1 (c\<lparr>curCycleRFReads := n - RF_READS_PER_CYCLE, curCycleIssuedUops := 0\<rparr>)
     else Some (c\<lparr>curCycleRFReads := n\<rparr>))"

definition uop_dispatch :: "DynUop \<Rightarrow> cycle \<Rightarrow> cycle \<Rightarrow> OOOCore \<Rightarrow> (cycle \<times> OOOCore) option" where
  "uop_dispatch u c0 c1 c = do {
     let c2 = rob_minAllocCycle (rob c);
     let c3 = curCycle c;
     let dispatchCycle = max (max c0 c1) (max c2 c3 + (DISPATCH_STAGE - ISSUE_STAGE));
     (cur, d, w) \<leftarrow> win_schedule c3 dispatchCycle (uop_portMask u) (extraSlots u) (insWindow c);
     let c' = c\<lparr>curCycle := cur, insWindow := w\<rparr>;
     Some (d, if cur > c3 then c'\<lparr>curCycleIssuedUops := 0, curCycleRFReads := 0\<rparr> else c') }"

definition uop_issue :: "nat \<Rightarrow> DynUop \<Rightarrow> OOOCore \<Rightarrow> (cycle \<times> OOOCore) option" where
  "uop_issue prevDecCycle u c = do {
     d \<leftarrow> uop_decode prevDecCycle u c;
     e \<leftarrow> uop_width d;
     let c0 = regScoreboard e ! rs0 u;
     let c1 = regScoreboard e ! rs1 u;
     f \<leftarrow> uop_reads c0 c1 e;
     uop_dispatch u c0 c1 f }"

subsection \<open>Execution\<close>

text \<open>The state of the block under execution: the indices into the recorded addresses, the counter of accesses, the core and the memory.\<close>

record 'm BblRun =
  loadIdx :: nat
  storeIdx :: nat
  accCount :: nat
  core :: OOOCore
  mem :: 'm

fun refresh_banks :: "'m OOOEnv \<Rightarrow> nat list \<Rightarrow> 'm \<Rightarrow> 'm option" where
  "refresh_banks z [] m = Some m"
| "refresh_banks z (i # is) m = do { m' \<leftarrow> llc_processRefresh z i m; refresh_banks z is m' }"

definition run_refresh :: "'m OOOEnv \<Rightarrow> 'm BblRun \<Rightarrow> 'm BblRun option" where
  "run_refresh z r = (if z_isCEASER z \<and> z_refreshDue z (accCount r)
     then do { m \<leftarrow> refresh_banks z [0..<z_llc_banks z] (mem r); Some (r\<lparr>accCount := 0, mem := m\<rparr>) } else Some r)"

definition fwd_index :: "addr \<Rightarrow> nat" where
  "fwd_index a = unat (drop_bit 2 a AND of_nat (FWD_ENTRIES - 1))"

definition fwd_cycle :: "addr \<Rightarrow> cycle \<Rightarrow> OOOCore \<Rightarrow> cycle" where
  "fwd_cycle a reqSatisfiedCycle c = (if fst (fwdArray c ! fwd_index a) = a
     then max reqSatisfiedCycle (snd (fwdArray c ! fwd_index a)) else reqSatisfiedCycle)"

definition run_load :: "'m OOOEnv \<Rightarrow> cycle \<Rightarrow> 'm BblRun \<Rightarrow> (cycle \<times> 'm BblRun) option" where
  "run_load z dispatch0 r = do {
     let c = core r;
     let d = max (Suc (lastStoreAddrCommitCycle c)) (max (rob_minAllocCycle (loadQueue c)) dispatch0);
     r1 \<leftarrow> run_refresh z r;
     assert_that (loadIdx r1 < MEM_OPS);
     let a = loadAddrs c ! loadIdx r1;
     let r2 = r1\<lparr>loadIdx := Suc (loadIdx r1)\<rparr>;
     (req, r3) \<leftarrow> (if a \<noteq> - 1
       then do {
         (resp, m) \<leftarrow> l1d_load z a d (mem r2);
         let req = resp + L1D_LAT + 10;
         m' \<leftarrow> rec_record z (curCycle c) d req m;
         Some (req, r2\<lparr>accCount := Suc (accCount r2), mem := m'\<rparr>) }
       else Some (d, r2));
     let commit = fwd_cycle a req c;
     Some (commit, r3\<lparr>core := c\<lparr>loadQueue := markRetire commit (loadQueue c)\<rparr>\<rparr>) }"

definition run_store :: "'m OOOEnv \<Rightarrow> cycle \<Rightarrow> 'm BblRun \<Rightarrow> (cycle \<times> 'm BblRun) option" where
  "run_store z dispatch0 r = do {
     let c = core r;
     let d = max (Suc (lastStoreAddrCommitCycle c)) (max (rob_minAllocCycle (storeQueue c)) dispatch0);
     assert_that (storeIdx r < MEM_OPS);
     let a = storeAddrs c ! storeIdx r;
     (resp, m) \<leftarrow> l1d_store z a d (mem r);
     let req = resp + L1D_LAT;
     m' \<leftarrow> rec_record z (curCycle c) d req m;
     Some (req, r\<lparr>storeIdx := Suc (storeIdx r), mem := m', core := c\<lparr>
       fwdArray := (fwdArray c)[fwd_index a := (a, req)],
       lastStoreCommitCycle := max (lastStoreCommitCycle c) req,
       storeQueue := markRetire req (storeQueue c)\<rparr>\<rparr>) }"

definition run_exec :: "'m OOOEnv \<Rightarrow> DynUop \<Rightarrow> cycle \<Rightarrow> 'm BblRun \<Rightarrow> (cycle \<times> 'm BblRun) option" where
  "run_exec z u d r = (case uop_type u of
       UOP_GENERAL \<Rightarrow> Some (d + uop_lat u, r)
     | UOP_LOAD \<Rightarrow> run_load z d r
     | UOP_STORE \<Rightarrow> run_store z d r
     | UOP_STORE_ADDR \<Rightarrow> (let commit = d + uop_lat u; c = core r in
         Some (commit, r\<lparr>core := c\<lparr>lastStoreAddrCommitCycle := max (lastStoreAddrCommitCycle c) commit\<rparr>\<rparr>))
     | UOP_FENCE \<Rightarrow> (let commit = d + uop_lat u; c = core r in
         Some (commit, r\<lparr>core := c\<lparr>lastStoreAddrCommitCycle :=
           max commit (max (lastStoreAddrCommitCycle c) (lastStoreCommitCycle c + uop_lat u))\<rparr>\<rparr>)))"

definition retire_uop :: "DynUop \<Rightarrow> cycle \<Rightarrow> OOOCore \<Rightarrow> OOOCore" where
  "retire_uop u commit c = c\<lparr>rob := markRetire commit (rob c), regScoreboard := (regScoreboard c)[rd0 u := commit, rd1 u := commit]\<rparr>"

definition run_uop :: "'m OOOEnv \<Rightarrow> nat \<Rightarrow> DynUop \<Rightarrow> 'm BblRun \<Rightarrow> (cycle \<times> 'm BblRun) option" where
  "run_uop z prevDecCycle u r = do {
     (d, c) \<leftarrow> uop_issue prevDecCycle u (core r);
     (commit, r') \<leftarrow> run_exec z u d (r\<lparr>core := c\<rparr>);
     Some (commit, r'\<lparr>core := retire_uop u commit (core r')\<rparr>) }"

fun run_uops :: "'m OOOEnv \<Rightarrow> nat \<Rightarrow> cycle \<Rightarrow> DynUop list \<Rightarrow> 'm BblRun \<Rightarrow> (cycle \<times> 'm BblRun) option" where
  "run_uops z prevDecCycle lastCommitCycle [] r = Some (lastCommitCycle, r)"
| "run_uops z prevDecCycle lastCommitCycle (u # us) r = do {
     (commit, r') \<leftarrow> run_uop z prevDecCycle u r;
     run_uops z (decCycle u) commit us r' }"

section \<open>Fetch\<close>

definition lineSize :: "'m OOOEnv \<Rightarrow> nat" where
  "lineSize z = 2 ^ z_lineBits z"

text \<open>One access of the front end: the latency, with the access counted and recorded.\<close>

definition fetch_line :: "'m OOOEnv \<Rightarrow> addr \<Rightarrow> 'm BblRun \<Rightarrow> (cycle \<times> 'm BblRun) option" where
  "fetch_line z a r = do {
     let cur = curCycle (core r);
     (resp, m) \<leftarrow> l1i_load z a cur (mem r);
     let fetchLat = resp - cur;
     m' \<leftarrow> rec_record z cur cur (cur + fetchLat) m;
     Some (fetchLat, r\<lparr>accCount := Suc (accCount r), mem := m'\<rparr>) }"

text \<open>The lines on the wrong path, until the branch has committed: \<open>n\<close> lines are left, the next one is line \<open>i\<close>.\<close>

fun wrong_path :: "'m OOOEnv \<Rightarrow> nat \<Rightarrow> nat \<Rightarrow> addr \<Rightarrow> cycle \<Rightarrow> cycle \<Rightarrow> 'm BblRun \<Rightarrow> 'm BblRun option" where
  "wrong_path z 0 i wrongPathAddr reqCycle lastCommitCycle r = Some r"
| "wrong_path z (Suc n) i wrongPathAddr reqCycle lastCommitCycle r = do {
     (fetchLat, r') \<leftarrow> fetch_line z (wrongPathAddr + of_nat (lineSize z * i)) r;
     let respCycle = reqCycle + fetchLat;
     if respCycle > lastCommitCycle then Some r'
     else wrong_path z n (Suc i) wrongPathAddr (respCycle + lineSize z div FETCH_BYTES_PER_CYCLE) lastCommitCycle r' }"

definition run_branch :: "'m OOOEnv \<Rightarrow> cycle \<Rightarrow> cycle \<Rightarrow> 'm BblRun \<Rightarrow> (cycle \<times> 'm BblRun) option" where
  "run_branch z fetchCycle lastCommitCycle r = (let c = core r in
     if branchPc c = 0 then Some (fetchCycle, r)
     else case predict (branchPc c) (branchTaken c) (branchPred c) of (right, p) \<Rightarrow>
       let c1 = c\<lparr>branchPred := p\<rparr> in
       if right then Some (fetchCycle, r\<lparr>core := c1\<rparr>)
       else do {
         let wrongPathAddr = (if branchTaken c then branchNotTakenNpc c else branchTakenNpc c);
         r' \<leftarrow> wrong_path z (5 * 64 div lineSize z) 0 wrongPathAddr fetchCycle lastCommitCycle
                (r\<lparr>core := c1\<lparr>mispredBranches := Suc (mispredBranches c1)\<rparr>\<rparr>);
         Some (lastCommitCycle, r') })"

partial_function (option) fetch_lines :: "'m OOOEnv \<Rightarrow> addr \<Rightarrow> addr \<Rightarrow> cycle \<Rightarrow> 'm BblRun \<Rightarrow> (cycle \<times> 'm BblRun) option" where
  "fetch_lines z fetchAddr endAddr fetchCycle r =
     (if fetchAddr < endAddr
      then do {
        (fetchLat, r') \<leftarrow> fetch_line z fetchAddr r;
        fetch_lines z (fetchAddr + of_nat (lineSize z)) endAddr (fetchCycle + fetchLat) r' }
      else Some (fetchCycle, r))"

definition run_frontend :: "'m OOOEnv \<Rightarrow> addr \<Rightarrow> BblInfo \<Rightarrow> cycle \<Rightarrow> 'm BblRun \<Rightarrow> 'm BblRun option" where
  "run_frontend z bblAddr bblInfo lastCommitCycle r = do {
     (fetchCycle, r1) \<leftarrow> run_branch z (decodeCycle (core r) - (DECODE_STAGE - FETCH_STAGE)) lastCommitCycle r;
     let r2 = r1\<lparr>core := (core r1)\<lparr>branchPc := 0\<rparr>\<rparr>;
     (fetchCycle', r3) \<leftarrow> fetch_lines z bblAddr (bblAddr + ucast (bi_bytes bblInfo)) fetchCycle r2;
     let c = core r3;
     Some (r3\<lparr>core := c\<lparr>decodeCycle := max (Suc (decodeCycle c)) (fetchCycle' + (DECODE_STAGE - FETCH_STAGE))\<rparr>\<rparr>) }"

section \<open>A basic block\<close>

definition run_account :: "BblInfo \<Rightarrow> OOOCore \<Rightarrow> OOOCore" where
  "run_account b c = c\<lparr>n_instrs := n_instrs c + bi_instrs b, n_uops := n_uops c + length (bbl_uop (oooBbl b)), n_bbls := Suc (n_bbls c),
     n_approxInstrs := n_approxInstrs c + bbl_approxInstrs (oooBbl b)\<rparr>"

definition bbl :: "'m OOOEnv \<Rightarrow> addr \<Rightarrow> BblInfo \<Rightarrow> nat \<times> OOOCore \<times> 'm \<Rightarrow> (nat \<times> OOOCore \<times> 'm) option" where
  "bbl z bblAddr bblInfo = (\<lambda>(count, c, m). case prevBbl c of
       None \<Rightarrow> Some (count, c\<lparr>prevBbl := Some bblInfo, loads := 0, stores := 0\<rparr>, m)
     | Some b \<Rightarrow> do {
         (lastCommitCycle, r) \<leftarrow> run_uops z 0 0 (bbl_uop (oooBbl b))
            \<lparr>loadIdx = 0, storeIdx = 0, accCount = count, core = c\<lparr>prevBbl := Some bblInfo\<rparr>, mem = m\<rparr>;
         let c1 = run_account b (core r);
         assert_that (loadIdx r = loads c1);
         assert_that (storeIdx r = stores c1);
         r' \<leftarrow> run_frontend z bblAddr bblInfo lastCommitCycle (r\<lparr>core := c1\<lparr>loads := 0, stores := 0\<rparr>\<rparr>);
         Some (accCount r', core r', mem r') })"

section \<open>Phases\<close>

definition ooo_advance :: "cycle \<Rightarrow> OOOCore \<Rightarrow> OOOCore option" where
  "ooo_advance targetCycle c = do {
     assert_that (targetCycle > curCycle c);
     let c1 = c\<lparr>decodeCycle := decodeCycle c + (targetCycle - curCycle c)\<rparr>;
     (cur, w) \<leftarrow> longAdvance (curCycle c1) targetCycle (insWindow c1);
     assert_that (targetCycle = cur);
     Some (c1\<lparr>curCycle := cur, insWindow := w, curCycleRFReads := 0, curCycleIssuedUops := 0\<rparr>) }"

definition ooo_join :: "'m OOOEnv \<Rightarrow> cycle \<Rightarrow> OOOCore \<times> 'm \<Rightarrow> (OOOCore \<times> 'm) option" where
  "ooo_join z globPhaseCycles = (\<lambda>(c, m). do {
     (targetCycle, m') \<leftarrow> rec_notifyJoin z (curCycle c) m;
     c1 \<leftarrow> (if targetCycle > curCycle c then ooo_advance targetCycle c else Some c);
     Some (c1\<lparr>phaseEndCycle := globPhaseCycles + z_phaseLength z\<rparr>, m') })"

definition ooo_leave :: "'m OOOEnv \<Rightarrow> OOOCore \<times> 'm \<Rightarrow> (OOOCore \<times> 'm) option" where
  "ooo_leave z = (\<lambda>(c, m). map_option (Pair c) (rec_notifyLeave z (curCycle c) m))"

definition ooo_cSim :: "(cycle \<Rightarrow> 'm \<Rightarrow> (cycle \<times> 'm) option) \<Rightarrow> OOOCore \<times> 'm \<Rightarrow> (OOOCore \<times> 'm) option" where
  "ooo_cSim recorder = (\<lambda>(c, m). do {
     (targetCycle, m') \<leftarrow> recorder (curCycle c) m;
     assert_that (targetCycle \<ge> curCycle c);
     c1 \<leftarrow> (if targetCycle > curCycle c then ooo_advance targetCycle c else Some c);
     Some (c1, m') })"

definition ooo_cSimStart :: "'m OOOEnv \<Rightarrow> OOOCore \<times> 'm \<Rightarrow> (OOOCore \<times> 'm) option" where
  "ooo_cSimStart z = ooo_cSim (rec_cSimStart z)"

definition ooo_cSimEnd :: "'m OOOEnv \<Rightarrow> OOOCore \<times> 'm \<Rightarrow> (OOOCore \<times> 'm) option" where
  "ooo_cSimEnd z = ooo_cSim (rec_cSimEnd z)"

text \<open>\<open>barrier\<close> is \<^verbatim>\<open>TakeBarrier\<close>: it may run the weave phase and other threads, and returns whether the thread is on the same context.\<close>

partial_function (option) bbl_phases ::
  "'m OOOEnv \<Rightarrow> (nat \<times> OOOCore \<times> 'm \<Rightarrow> (bool \<times> nat \<times> OOOCore \<times> 'm) option) \<Rightarrow> nat \<times> OOOCore \<times> 'm \<Rightarrow> (nat \<times> OOOCore \<times> 'm) option" where
  "bbl_phases z barrier s =
     (if curCycle (fst (snd s)) > phaseEndCycle (fst (snd s))
      then do {
        (same, s') \<leftarrow> barrier (fst s, (fst (snd s))\<lparr>phaseEndCycle := phaseEndCycle (fst (snd s)) + z_phaseLength z\<rparr>, snd (snd s));
        if same then bbl_phases z barrier s' else Some s' }
      else Some s)"

definition ooo_getInstrs :: "OOOCore \<Rightarrow> nat" where
  "ooo_getInstrs c = n_instrs c"

definition ooo_getPhaseCycles :: "'m OOOEnv \<Rightarrow> OOOCore \<Rightarrow> cycle" where
  "ooo_getPhaseCycles z c = curCycle c mod z_phaseLength z"

definition BblFunc ::
  "'m OOOEnv \<Rightarrow> (nat \<times> OOOCore \<times> 'm \<Rightarrow> (bool \<times> nat \<times> OOOCore \<times> 'm) option) \<Rightarrow> addr \<Rightarrow> BblInfo \<Rightarrow> nat \<times> OOOCore \<times> 'm
   \<Rightarrow> (nat \<times> OOOCore \<times> 'm) option" where
  "BblFunc z barrier bblAddr bblInfo s = do { s' \<leftarrow> bbl z bblAddr bblInfo s; bbl_phases z barrier s' }"

section \<open>Recorded and executed accesses\<close>

text \<open>The steps before execution change the cycles, the window, the queue of micro-operations and the scoreboard.\<close>

definition blank :: "OOOCore \<Rightarrow> OOOCore" where
  "blank c = c\<lparr>curCycle := 0, insWindow := WindowStructure_new 0 0 0, curCycleRFReads := 0, curCycleIssuedUops := 0,
     decodeCycle := 0, uopQueue := CycleQueue_new 0, regScoreboard := []\<rparr>"

abbreviation same_rest :: "OOOCore \<Rightarrow> OOOCore \<Rightarrow> bool" where
  "same_rest c c' \<equiv> blank c' = blank c"

lemma blank_fields:
  "loads (blank c) = loads c" "stores (blank c) = stores c" "loadAddrs (blank c) = loadAddrs c" "storeAddrs (blank c) = storeAddrs c"
  "loadQueue (blank c) = loadQueue c" "storeQueue (blank c) = storeQueue c" "rob (blank c) = rob c"
  "lastStoreCommitCycle (blank c) = lastStoreCommitCycle c" "lastStoreAddrCommitCycle (blank c) = lastStoreAddrCommitCycle c"
  "fwdArray (blank c) = fwdArray c" "branchPc (blank c) = branchPc c" "branchPred (blank c) = branchPred c"
  "branchTaken (blank c) = branchTaken c" "prevBbl (blank c) = prevBbl c" "phaseEndCycle (blank c) = phaseEndCycle c"
  by (simp_all add: blank_def)

lemma same_restD:
  assumes "same_rest c c'"
  shows "loads c' = loads c" "stores c' = stores c" "loadAddrs c' = loadAddrs c" "storeAddrs c' = storeAddrs c" "loadQueue c' = loadQueue c"
    "storeQueue c' = storeQueue c" "rob c' = rob c" "lastStoreCommitCycle c' = lastStoreCommitCycle c"
    "lastStoreAddrCommitCycle c' = lastStoreAddrCommitCycle c" "fwdArray c' = fwdArray c" "branchPc c' = branchPc c" "branchPred c' = branchPred c"
    "branchTaken c' = branchTaken c" "prevBbl c' = prevBbl c" "phaseEndCycle c' = phaseEndCycle c"
  using arg_cong [OF assms, of loads] arg_cong [OF assms, of stores] arg_cong [OF assms, of loadAddrs] arg_cong [OF assms, of storeAddrs] arg_cong [OF assms, of loadQueue] arg_cong [OF assms, of storeQueue] arg_cong [OF assms, of rob] arg_cong [OF assms, of lastStoreCommitCycle] arg_cong [OF assms, of lastStoreAddrCommitCycle] arg_cong [OF assms, of fwdArray] arg_cong [OF assms, of branchPc] arg_cong [OF assms, of branchPred] arg_cong [OF assms, of branchTaken] arg_cong [OF assms, of prevBbl] arg_cong [OF assms, of phaseEndCycle]
  by (simp_all only: blank_fields)

lemma blank_upd [simp]:
  "blank (c\<lparr>curCycle := cur\<rparr>) = blank c" "blank (c\<lparr>insWindow := w\<rparr>) = blank c" "blank (c\<lparr>curCycleIssuedUops := iu\<rparr>) = blank c"
  "blank (c\<lparr>curCycleRFReads := rf\<rparr>) = blank c" "blank (c\<lparr>decodeCycle := dc\<rparr>) = blank c" "blank (c\<lparr>uopQueue := q\<rparr>) = blank c"
  "blank (c\<lparr>regScoreboard := sb\<rparr>) = blank c"
  by (simp_all add: blank_def)

lemma advance_by_rest: "advance_by n c = Some c' \<Longrightarrow> same_rest c c'"
  by (induction n arbitrary: c) (fastforce simp: bind_eq_Some_conv)+

lemma uop_decode_rest: "uop_decode p u c = Some c' \<Longrightarrow> same_rest c c'"
  unfolding uop_decode_def Let_def bind_eq_Some_conv
  by (auto split: if_splits dest!: advance_by_rest)

lemma uop_width_rest: "uop_width c = Some c' \<Longrightarrow> same_rest c c'"
  unfolding uop_width_def bind_eq_Some_conv
  by (auto split: if_splits dest!: advance_by_rest simp del: advance_by.simps)

lemma uop_reads_rest: "uop_reads a b c = Some c' \<Longrightarrow> same_rest c c'"
  unfolding uop_reads_def Let_def
  by (auto split: if_splits dest!: advance_by_rest simp del: advance_by.simps)

lemma uop_dispatchE:
  assumes "uop_dispatch u a b c = Some (d, c')"
  obtains cur w where "win_schedule (curCycle c) (max (max a b) (max (rob_minAllocCycle (rob c)) (curCycle c) + (DISPATCH_STAGE - ISSUE_STAGE)))
      (uop_portMask u) (extraSlots u) (insWindow c) = Some (cur, d, w)"
    "c' = (if cur > curCycle c then c\<lparr>curCycle := cur, insWindow := w, curCycleIssuedUops := 0, curCycleRFReads := 0\<rparr>
       else c\<lparr>curCycle := cur, insWindow := w\<rparr>)"
  using assms unfolding uop_dispatch_def Let_def bind_eq_Some_conv by (elim exE conjE) (simp split: prod.splits)

lemma uop_dispatch_rest: "uop_dispatch u a b c = Some (d, c') \<Longrightarrow> same_rest c c'"
  by (elim uop_dispatchE) (simp only: if_distrib [of blank] blank_upd if_cancel)

lemma uop_issueE:
  assumes "uop_issue p u c = Some (d, c')"
  obtains c1 c2 c3 where "uop_decode p u c = Some c1" "uop_width c1 = Some c2"
    "uop_reads (regScoreboard c2 ! rs0 u) (regScoreboard c2 ! rs1 u) c2 = Some c3"
    "uop_dispatch u (regScoreboard c2 ! rs0 u) (regScoreboard c2 ! rs1 u) c3 = Some (d, c')"
  using assms unfolding uop_issue_def Let_def bind_eq_Some_conv by blast

lemma uop_issue_rest: "uop_issue p u c = Some (d, c') \<Longrightarrow> same_rest c c'"
  by (elim uop_issueE) (simp only: uop_decode_rest uop_width_rest uop_reads_rest uop_dispatch_rest)

text \<open>Execution of a micro-operation: the indices into the recorded accesses move with loads and stores only.\<close>

lemma run_refresh_frame: "run_refresh z r = Some r' \<Longrightarrow> loadIdx r' = loadIdx r \<and> storeIdx r' = storeIdx r \<and> core r' = core r"
  by (auto simp: run_refresh_def bind_eq_Some_conv split: if_splits)

lemma run_loadE:
  assumes "run_load z d r = Some (commit, r')"
  obtains r1 q r3 where "run_refresh z r = Some r1" "loadIdx r < MEM_OPS"
    "(if loadAddrs (core r) ! loadIdx r \<noteq> - 1
      then \<exists>resp m. l1d_load z (loadAddrs (core r) ! loadIdx r)
          (max (Suc (lastStoreAddrCommitCycle (core r))) (max (rob_minAllocCycle (loadQueue (core r))) d)) (mem r1) = Some (resp, m)
        \<and> q = resp + L1D_LAT + 10
      else q = max (Suc (lastStoreAddrCommitCycle (core r))) (max (rob_minAllocCycle (loadQueue (core r))) d))"
    "commit = fwd_cycle (loadAddrs (core r) ! loadIdx r) q (core r)"
    "loadIdx r' = Suc (loadIdx r)" "storeIdx r' = storeIdx r" "core r' = (core r)\<lparr>loadQueue := markRetire commit (loadQueue (core r))\<rparr>"
proof -
  from assms obtain r1 where r1: "run_refresh z r = Some r1" by (auto simp: run_load_def Let_def bind_eq_Some_conv)
  note f = run_refresh_frame [OF r1]
  show thesis
  proof (cases "loadAddrs (core r) ! loadIdx r = - 1")
    case True
    with assms r1 f show thesis by (intro that [OF r1]) (auto simp: run_load_def Let_def bind_eq_Some_conv)
  next
    case False
    with assms r1 f obtain resp m m' where
      "l1d_load z (loadAddrs (core r) ! loadIdx r)
        (max (Suc (lastStoreAddrCommitCycle (core r))) (max (rob_minAllocCycle (loadQueue (core r))) d)) (mem r1) = Some (resp, m)"
      "commit = fwd_cycle (loadAddrs (core r) ! loadIdx r) (resp + L1D_LAT + 10) (core r)" "loadIdx r < MEM_OPS"
      "r' = r1\<lparr>loadIdx := Suc (loadIdx r), accCount := Suc (accCount r1), mem := m', core := (core r)\<lparr>loadQueue := markRetire commit (loadQueue (core r))\<rparr>\<rparr>"
      by (auto simp: run_load_def Let_def bind_eq_Some_conv)
    with False f show thesis by (intro that [OF r1]) auto
  qed
qed

lemma run_storeE:
  assumes "run_store z d r = Some (commit, r')"
  obtains resp m m' where "storeIdx r < MEM_OPS" "l1d_store z (storeAddrs (core r) ! storeIdx r)
      (max (Suc (lastStoreAddrCommitCycle (core r))) (max (rob_minAllocCycle (storeQueue (core r))) d)) (mem r) = Some (resp, m)"
    "commit = resp + L1D_LAT"
    "r' = r\<lparr>storeIdx := Suc (storeIdx r), mem := m', core := (core r)\<lparr>
       fwdArray := (fwdArray (core r))[fwd_index (storeAddrs (core r) ! storeIdx r) := (storeAddrs (core r) ! storeIdx r, commit)],
       lastStoreCommitCycle := max (lastStoreCommitCycle (core r)) commit,
       storeQueue := markRetire commit (storeQueue (core r))\<rparr>\<rparr>"
  using assms unfolding run_store_def Let_def by (auto simp: bind_eq_Some_conv)

definition uops_of :: "UopType \<Rightarrow> DynUop list \<Rightarrow> nat" where
  "uops_of t us = length (filter (\<lambda>u. uop_type u = t) us)"

lemma run_exec_frame:
  assumes "run_exec z u d r = Some (commit, r')"
  shows "loadIdx r' = loadIdx r + uops_of UOP_LOAD [u] \<and> storeIdx r' = storeIdx r + uops_of UOP_STORE [u]
    \<and> loads (core r') = loads (core r) \<and> stores (core r') = stores (core r) \<and> prevBbl (core r') = prevBbl (core r)"
  using assms by (cases "uop_type u") (auto simp: run_exec_def uops_of_def Let_def elim!: run_loadE run_storeE)

lemma run_uopE:
  assumes "run_uop z p u r = Some (commit, r')"
  obtains d c r1 where "uop_issue p u (core r) = Some (d, c)" "run_exec z u d (r\<lparr>core := c\<rparr>) = Some (commit, r1)"
    "r' = r1\<lparr>core := retire_uop u commit (core r1)\<rparr>"
  using assms unfolding run_uop_def by (auto simp: bind_eq_Some_conv)

lemma run_uop_frame:
  assumes "run_uop z p u r = Some (commit, r')"
  shows "loadIdx r' = loadIdx r + uops_of UOP_LOAD [u] \<and> storeIdx r' = storeIdx r + uops_of UOP_STORE [u]
    \<and> loads (core r') = loads (core r) \<and> stores (core r') = stores (core r) \<and> prevBbl (core r') = prevBbl (core r)"
  using assms
proof (cases rule: run_uopE)
  case (1 d c r1)
  with run_exec_frame [OF 1(2)] same_restD(1,2,14) [OF uop_issue_rest [OF 1(1)]] show ?thesis by (simp add: retire_uop_def)
qed

lemma run_uops_frame:
  "run_uops z p l us r = Some (commit, r') \<Longrightarrow> loadIdx r' = loadIdx r + uops_of UOP_LOAD us \<and> storeIdx r' = storeIdx r + uops_of UOP_STORE us
    \<and> loads (core r') = loads (core r) \<and> stores (core r') = stores (core r) \<and> prevBbl (core r') = prevBbl (core r)"
proof (induction us arbitrary: p l r)
  case (Cons u us)
  then obtain k r1 where "run_uop z p u r = Some (k, r1)" "run_uops z (decCycle u) k us r1 = Some (commit, r')" by (auto simp: bind_eq_Some_conv)
  with Cons.IH run_uop_frame show ?case by (fastforce simp: uops_of_def)
qed (simp add: uops_of_def)


text \<open>A memory that answers after a fixed time, and a core after the constructor.\<close>

definition flat_env :: "nat \<Rightarrow> 'm OOOEnv" where
  "flat_env t = \<lparr>l1d_load = (\<lambda>a c m. Some (c + t, m)), l1d_store = (\<lambda>a c m. Some (c + t, m)), l1i_load = (\<lambda>a c m. Some (c + t, m)),
     l1_contextSwitch = id, rec_record = (\<lambda>c d q m. Some m), rec_notifyJoin = (\<lambda>c m. Some (c, m)), rec_notifyLeave = (\<lambda>c m. Some m),
     rec_cSimStart = (\<lambda>c m. Some (c, m)), rec_cSimEnd = (\<lambda>c m. Some (c, m)), llc_processRefresh = (\<lambda>i m. Some m),
     z_isCEASER = False, z_refreshDue = (\<lambda>n. False), z_llc_banks = 1, z_phaseLength = 100, z_lineBits = 6\<rparr>"

definition raw_core :: OOOCore where
  "raw_core = \<lparr>phaseEndCycle = 0, curCycle = 0, regScoreboard = [], prevBbl = None, loadAddrs = replicate MEM_OPS 0, storeAddrs = replicate MEM_OPS 0,
     loads = 0, stores = 0, lastStoreCommitCycle = 0, lastStoreAddrCommitCycle = 0, loadQueue = ReorderBuffer_new 1 1, storeQueue = ReorderBuffer_new 1 1,
     curCycleRFReads = 0, curCycleIssuedUops = 0, insWindow = WindowStructure_new 0 1 1, rob = ReorderBuffer_new 1 1,
     branchPred = BranchPredictorPAg_new 0 0 0, branchPc = 0, branchTaken = False, branchTakenNpc = 0, branchNotTakenNpc = 0, decodeCycle = 0,
     uopQueue = CycleQueue_new 1, n_instrs = 0, n_uops = 0, n_bbls = 0, n_approxInstrs = 0, mispredBranches = 0, fwdArray = []\<rparr>"

definition demo_uop :: "UopType \<Rightarrow> DynUop" where
  "demo_uop t = \<lparr>rs0 = 1, rs1 = 2, rd0 = 1, rd1 = 2, uop_lat = 3, decCycle = 0, uop_type = t, uop_portMask = 1, extraSlots = 0\<rparr>"

definition demo_bbl :: "UopType list \<Rightarrow> BblInfo" where
  "demo_bbl ts = \<lparr>bi_instrs = length ts, bi_bytes = 4, oooBbl = \<lparr>bbl_uop = map demo_uop ts, bbl_approxInstrs = 0\<rparr>\<rparr>"

definition demo_core :: "UopType list \<Rightarrow> OOOCore" where
  "demo_core ts = (OOOCore_new 4 (flat_env 0 :: unit OOOEnv) raw_core)\<lparr>prevBbl := Some (demo_bbl ts)\<rparr>"


section \<open>Order of the accesses\<close>

text \<open>The accesses that the core makes, in order: whether it is a store, the cycle of the request and the cycle of the answer.\<close>

type_synonym access = "bool \<times> cycle \<times> cycle"

definition lift :: "('m \<Rightarrow> 'm option) \<Rightarrow> 'm \<times> access list \<Rightarrow> ('m \<times> access list) option" where
  "lift f ml = map_option (\<lambda>m. (m, snd ml)) (f (fst ml))"

definition lift_cycle :: "('m \<Rightarrow> (cycle \<times> 'm) option) \<Rightarrow> 'm \<times> access list \<Rightarrow> (cycle \<times> 'm \<times> access list) option" where
  "lift_cycle f ml = map_option (\<lambda>(c, m). (c, m, snd ml)) (f (fst ml))"

definition log_access :: "bool \<Rightarrow> cycle \<Rightarrow> ('m \<Rightarrow> (cycle \<times> 'm) option) \<Rightarrow> 'm \<times> access list \<Rightarrow> (cycle \<times> 'm \<times> access list) option" where
  "log_access st d f ml = map_option (\<lambda>(c, m). (c, m, snd ml @ [(st, d, c)])) (f (fst ml))"

definition logged :: "'m OOOEnv \<Rightarrow> ('m \<times> access list) OOOEnv" where
  "logged z = \<lparr>l1d_load = (\<lambda>a d. log_access False d (l1d_load z a d)), l1d_store = (\<lambda>a d. log_access True d (l1d_store z a d)),
     l1i_load = (\<lambda>a d. lift_cycle (l1i_load z a d)), l1_contextSwitch = (\<lambda>ml. (l1_contextSwitch z (fst ml), snd ml)),
     rec_record = (\<lambda>c d q. lift (rec_record z c d q)), rec_notifyJoin = (\<lambda>c. lift_cycle (rec_notifyJoin z c)),
     rec_notifyLeave = (\<lambda>c. lift (rec_notifyLeave z c)), rec_cSimStart = (\<lambda>c. lift_cycle (rec_cSimStart z c)),
     rec_cSimEnd = (\<lambda>c. lift_cycle (rec_cSimEnd z c)), llc_processRefresh = (\<lambda>i. lift (llc_processRefresh z i)),
     z_isCEASER = z_isCEASER z, z_refreshDue = z_refreshDue z, z_llc_banks = z_llc_banks z, z_phaseLength = z_phaseLength z, z_lineBits = z_lineBits z\<rparr>"

lemma lift_log: "lift f ml = Some ml' \<Longrightarrow> snd ml' = snd ml"
  by (auto simp: lift_def)

lemma refresh_log: "refresh_banks (logged z) is m = Some m' \<Longrightarrow> snd m' = snd m"
  by (induction "is" arbitrary: m) (auto simp: bind_eq_Some_conv logged_def dest!: lift_log)

lemma run_refresh_log: "run_refresh (logged z) r = Some r' \<Longrightarrow> snd (mem r') = snd (mem r)"
  by (auto simp: run_refresh_def bind_eq_Some_conv dest!: refresh_log split: if_splits)

text \<open>What one micro-operation does to the log and to the cycles that order accesses.\<close>

definition ordered_step :: "DynUop \<Rightarrow> OOOCore \<Rightarrow> access list \<Rightarrow> OOOCore \<Rightarrow> bool" where
  "ordered_step u c acc c' \<longleftrightarrow> (\<forall>(st, d, a) \<in> set acc. lastStoreAddrCommitCycle c < d \<and> (st \<longrightarrow> a + L1D_LAT \<le> lastStoreCommitCycle c'))
     \<and> lastStoreCommitCycle c \<le> lastStoreCommitCycle c' \<and> lastStoreAddrCommitCycle c \<le> lastStoreAddrCommitCycle c'
     \<and> (uop_type u = UOP_FENCE \<longrightarrow> lastStoreCommitCycle c + uop_lat u \<le> lastStoreAddrCommitCycle c')"

lemma load_logged:
  assumes "run_load (logged z) d r = Some (commit, r')"
  shows "\<exists>acc. snd (mem r') = snd (mem r) @ acc \<and> (\<forall>(st, e, a) \<in> set acc. lastStoreAddrCommitCycle (core r) < e \<and> \<not> st)"
proof -
  from assms obtain r1 where r1: "run_refresh (logged z) r = Some r1" by (auto simp: run_load_def Let_def bind_eq_Some_conv)
  note f = run_refresh_frame [OF r1] run_refresh_log [OF r1]
  show ?thesis
  proof (cases "loadAddrs (core r) ! loadIdx r = - 1")
    case True
    with assms r1 f show ?thesis by (auto simp: run_load_def Let_def bind_eq_Some_conv)
  next
    case False
    define e where "e = max (Suc (lastStoreAddrCommitCycle (core r))) (max (rob_minAllocCycle (loadQueue (core r))) d)"
    from False assms r1 f obtain resp m m' where
      "log_access False e (l1d_load z (loadAddrs (core r) ! loadIdx r) e) (mem r1) = Some (resp, m)"
      "lift (rec_record z (curCycle (core r)) e (resp + L1D_LAT + 10)) m = Some m'" "mem r' = m'"
      by (auto simp: run_load_def Let_def bind_eq_Some_conv logged_def e_def [symmetric])
    with f have "snd (mem r') = snd (mem r) @ [(False, e, resp)]" by (auto simp: log_access_def dest!: lift_log)
    moreover have "lastStoreAddrCommitCycle (core r) < e" by (simp add: e_def)
    ultimately show ?thesis by simp
  qed
qed

lemma store_logged:
  assumes "run_store (logged z) d r = Some (commit, r')"
  shows "\<exists>e a. snd (mem r') = snd (mem r) @ [(True, e, a)] \<and> lastStoreAddrCommitCycle (core r) < e \<and> commit = a + L1D_LAT"
proof -
  define e where "e = max (Suc (lastStoreAddrCommitCycle (core r))) (max (rob_minAllocCycle (storeQueue (core r))) d)"
  from assms obtain resp m m' where
    "log_access True e (l1d_store z (storeAddrs (core r) ! storeIdx r) e) (mem r) = Some (resp, m)"
    "lift (rec_record z (curCycle (core r)) e (resp + L1D_LAT)) m = Some m'" "mem r' = m'" "commit = resp + L1D_LAT"
    by (auto simp: run_store_def Let_def bind_eq_Some_conv logged_def e_def [symmetric])
  then have "snd (mem r') = snd (mem r) @ [(True, e, resp)]" by (auto simp: log_access_def dest!: lift_log)
  moreover have "lastStoreAddrCommitCycle (core r) < e" by (simp add: e_def)
  ultimately show ?thesis using \<open>commit = _\<close> by blast
qed

lemma exec_logged:
  assumes "run_exec (logged z) u d r = Some (commit, r')"
  shows "\<exists>acc. snd (mem r') = snd (mem r) @ acc \<and> ordered_step u (core r) acc (core r')"
proof (cases "uop_type u")
  case UOP_LOAD
  with assms have l: "run_load (logged z) d r = Some (commit, r')" by (simp add: run_exec_def)
  from l have "core r' = (core r)\<lparr>loadQueue := markRetire commit (loadQueue (core r))\<rparr>" by (rule run_loadE)
  with load_logged [OF l] UOP_LOAD show ?thesis by (fastforce simp: ordered_step_def)
next
  case UOP_STORE
  with assms have s: "run_store (logged z) d r = Some (commit, r')" by (simp add: run_exec_def)
  from s have "lastStoreCommitCycle (core r') = max (lastStoreCommitCycle (core r)) commit" "lastStoreAddrCommitCycle (core r') = lastStoreAddrCommitCycle (core r)"
    by (auto elim!: run_storeE)
  with store_logged [OF s] UOP_STORE show ?thesis by (fastforce simp: ordered_step_def)
qed (use assms in \<open>auto simp: run_exec_def ordered_step_def Let_def intro!: exI [of _ "[]"]\<close>)

lemma uop_logged:
  assumes "run_uop (logged z) p u r = Some (commit, r')"
  shows "\<exists>acc. snd (mem r') = snd (mem r) @ acc \<and> ordered_step u (core r) acc (core r')"
  using assms
proof (cases rule: run_uopE)
  case (1 d c r1)
  with exec_logged [OF 1(2)] same_restD(8,9) [OF uop_issue_rest [OF 1(1)]] show ?thesis
    by (auto simp: ordered_step_def retire_uop_def)
qed

lemma uops_logged:
  assumes "run_uops (logged z) p l us r = Some (commit, r')"
  shows "\<exists>acc. snd (mem r') = snd (mem r) @ acc
    \<and> (\<forall>(st, d, a) \<in> set acc. lastStoreAddrCommitCycle (core r) < d \<and> (st \<longrightarrow> a + L1D_LAT \<le> lastStoreCommitCycle (core r')))
    \<and> lastStoreCommitCycle (core r) \<le> lastStoreCommitCycle (core r') \<and> lastStoreAddrCommitCycle (core r) \<le> lastStoreAddrCommitCycle (core r')"
  using assms
proof (induction us arbitrary: p l r)
  case (Cons u us)
  then obtain k r1 where r1: "run_uop (logged z) p u r = Some (k, r1)" "run_uops (logged z) (decCycle u) k us r1 = Some (commit, r')"
    by (auto simp: bind_eq_Some_conv)
  from uop_logged [OF r1(1)] obtain acc where a: "snd (mem r1) = snd (mem r) @ acc" "ordered_step u (core r) acc (core r1)" by blast
  from Cons.IH [OF r1(2)] obtain acc' where b: "snd (mem r') = snd (mem r1) @ acc'"
    "\<forall>(st, d, a) \<in> set acc'. lastStoreAddrCommitCycle (core r1) < d \<and> (st \<longrightarrow> a + L1D_LAT \<le> lastStoreCommitCycle (core r'))"
    "lastStoreCommitCycle (core r1) \<le> lastStoreCommitCycle (core r')" "lastStoreAddrCommitCycle (core r1) \<le> lastStoreAddrCommitCycle (core r')" by blast
  with a have "\<forall>(st, d, a) \<in> set (acc @ acc'). lastStoreAddrCommitCycle (core r) < d \<and> (st \<longrightarrow> a + L1D_LAT \<le> lastStoreCommitCycle (core r'))"
    by (fastforce simp: ordered_step_def)
  moreover have "snd (mem r') = snd (mem r) @ acc @ acc'" using a b by simp
  moreover have "lastStoreCommitCycle (core r) \<le> lastStoreCommitCycle (core r')" "lastStoreAddrCommitCycle (core r) \<le> lastStoreAddrCommitCycle (core r')"
    using a(2) b by (simp_all add: ordered_step_def)
  ultimately show ?case by blast
qed simp

lemma run_uops_append:
  assumes "run_uops z p l (us @ vs) r = Some res"
  shows "\<exists>k r1 p'. run_uops z p l us r = Some (k, r1) \<and> run_uops z p' k vs r1 = Some res"
  using assms
proof (induction us arbitrary: p l r)
  case (Cons u us)
  then obtain k r1 where "run_uop z p u r = Some (k, r1)" "run_uops z (decCycle u) k (us @ vs) r1 = Some res" by (auto simp: bind_eq_Some_conv)
  with Cons.IH show ?case by fastforce
qed auto

text \<open>The lines of a block that does not end at the top of the address space: the address of the next line and the end of the block do not wrap.\<close>

lemma next_line:
  assumes "(a :: addr) < e" "z_lineBits z < 32" "unat e + lineSize z \<le> 2 ^ 64"
  shows "unat (a + of_nat (lineSize z)) = unat a + lineSize z \<and> 1 \<le> lineSize z"
proof -
  have "1 \<le> lineSize z" "lineSize z < 2 ^ 32" using power_strict_increasing [OF assms(2), of "2 :: nat"] by (simp_all add: lineSize_def)
  with assms show ?thesis by (simp add: unat_word_ariths unat_of_nat word_less_nat_alt)
qed

lemma block_end:
  fixes n :: u32
  assumes "unat (a :: addr) + unat n + lineSize z \<le> 2 ^ 64"
  shows "unat (a + ucast n) = unat a + unat n"
proof -
  have "unat n < 2 ^ LENGTH(32)" by (rule unsigned_less)
  then have "unat n < 2 ^ 64" by simp
  then have "unat (ucast n :: addr) = unat n" by (simp add: unsigned_ucast_eq take_bit_nat_eq_self)
  moreover have "0 < lineSize z" by (simp add: lineSize_def)
  ultimately show ?thesis using assms by (simp add: unat_word_ariths)
qed

end
