(* ===== verification/OOORun.thy ===== *)
theory OOORun
  imports OOOCore
begin

text \<open>
  The out-of-order core simulates every block: with well-formed micro-operations, the accesses of the block recorded, and caches that answer, the
  simulation of a block returns, whatever the state of the core, and leaves the core in such a state again. The cycles that the core keeps
  stay below a bound that grows by a fixed amount with every micro-operation; the bound keeps the 32-bit distances of the code exact.
\<close>

section \<open>Bounds on the recorded cycles\<close>

definition rb_ok :: "cycle \<Rightarrow> ReorderBuffer \<Rightarrow> bool" where
  "rb_ok t r \<longleftrightarrow> length (rbBuf r) = rbSZ r \<and> rbIdx r < rbSZ r \<and> (\<forall>x \<in> set (rbBuf r). x \<le> t) \<and> curRetireCycle r \<le> t"

definition cq_ok :: "cycle \<Rightarrow> CycleQueue \<Rightarrow> bool" where
  "cq_ok t q \<longleftrightarrow> length (cqBuf q) = cqSZ q \<and> cqIdx q < cqSZ q \<and> (\<forall>x \<in> set (cqBuf q). x \<le> t)"

definition win_fit :: "cycle \<Rightarrow> cycle \<Rightarrow> WindowStructure \<Rightarrow> bool" where
  "win_fit t cur w \<longleftrightarrow> win_ok cur w \<and> 0 < winSZ w \<and> winH w \<le> 1024 \<and> horizon t (win_at cur w) \<and> cur \<le> t"

definition times_ok :: "cycle \<Rightarrow> OOOCore \<Rightarrow> bool" where
  "times_ok t c \<longleftrightarrow> decodeCycle c \<le> t \<and> (\<forall>x \<in> set (regScoreboard c). x \<le> t) \<and> rb_ok t (rob c) \<and> rb_ok t (loadQueue c) \<and> rb_ok t (storeQueue c)
     \<and> cq_ok t (uopQueue c) \<and> lastStoreCommitCycle c \<le> t \<and> lastStoreAddrCommitCycle c \<le> t
     \<and> length (fwdArray c) = FWD_ENTRIES \<and> (\<forall>e \<in> set (fwdArray c). snd e \<le> t)"

definition core_ok :: "cycle \<Rightarrow> OOOCore \<Rightarrow> bool" where
  "core_ok t c \<longleftrightarrow> win_fit t (curCycle c) (insWindow c) \<and> times_ok t c"

lemma rb_ok_mono: "rb_ok t r \<Longrightarrow> t \<le> t' \<Longrightarrow> rb_ok t' r"
  by (auto simp: rb_ok_def)

lemma cq_ok_mono: "cq_ok t r \<Longrightarrow> t \<le> t' \<Longrightarrow> cq_ok t' r"
  by (auto simp: cq_ok_def)

lemma horizon_mono: "horizon t f \<Longrightarrow> t \<le> t' \<Longrightarrow> horizon t' f"
  by (simp add: horizon_def)

lemma win_fit_mono: "win_fit t cur w \<Longrightarrow> t \<le> t' \<Longrightarrow> win_fit t' cur w"
  by (auto simp: win_fit_def intro: horizon_mono)

lemma times_ok_mono: "times_ok t c \<Longrightarrow> t \<le> t' \<Longrightarrow> times_ok t' c"
  unfolding times_ok_def by (auto intro: rb_ok_mono cq_ok_mono order_trans)

lemma core_ok_mono: "core_ok t c \<Longrightarrow> t \<le> t' \<Longrightarrow> core_ok t' c"
  unfolding core_ok_def by (blast intro: win_fit_mono times_ok_mono)

lemma rb_min: "rb_ok t r \<Longrightarrow> rob_minAllocCycle r \<le> t"
  by (simp add: rb_ok_def rob_minAllocCycle_def)

lemma cq_min: "cq_ok t r \<Longrightarrow> cq_minAllocCycle r \<le> t"
  by (simp add: cq_ok_def cq_minAllocCycle_def)

lemma set_upd_bound: "\<forall>x \<in> set xs. x \<le> (t :: nat) \<Longrightarrow> v \<le> t \<Longrightarrow> x \<in> set (xs[i := v]) \<Longrightarrow> x \<le> t"
  using set_update_subset_insert [of xs i v] by auto

lemma rb_mark:
  assumes "rb_ok t r" "m \<le> t'" "t < t'"
  shows "rb_ok t' (markRetire m r)"
proof -
  obtain c n where s: "retire_slot m r = (c, n)" by (cases "retire_slot m r")
  then have c: "c \<le> t'" using assms by (cases rule: retire_slotE) (auto simp: rb_ok_def)
  have "\<forall>x \<in> set (rbBuf r). x \<le> t'" using assms by (auto simp: rb_ok_def)
  with set_upd_bound [OF this c] s c assms show ?thesis by (auto simp: rb_ok_def markRetire_def)
qed

lemma cq_leave:
  assumes "cq_ok t q" "m \<le> t"
  shows "cq_ok t (markLeave m q)"
  using assms set_upd_bound [of "cqBuf q" t m] by (auto simp: cq_ok_def markLeave_def)

text \<open>The steps change few of the fields.\<close>

lemma times_ok_upd [simp]:
  "times_ok t (c\<lparr>curCycle := cur\<rparr>) = times_ok t c" "times_ok t (c\<lparr>insWindow := w\<rparr>) = times_ok t c"
  "times_ok t (c\<lparr>curCycleIssuedUops := iu\<rparr>) = times_ok t c" "times_ok t (c\<lparr>curCycleRFReads := rf\<rparr>) = times_ok t c"
  "times_ok t (c\<lparr>prevBbl := b\<rparr>) = times_ok t c" "times_ok t (c\<lparr>loads := n\<rparr>) = times_ok t c" "times_ok t (c\<lparr>stores := n\<rparr>) = times_ok t c"
  "times_ok t (c\<lparr>branchPc := a\<rparr>) = times_ok t c" "times_ok t (c\<lparr>branchPred := bp\<rparr>) = times_ok t c"
  "times_ok t (c\<lparr>mispredBranches := n\<rparr>) = times_ok t c" "times_ok t (run_account b' c) = times_ok t c"
  by (simp_all add: times_ok_def run_account_def)

lemma times_ok_decode: "times_ok t c \<Longrightarrow> d \<le> t \<Longrightarrow> times_ok t (c\<lparr>decodeCycle := d\<rparr>)"
  by (simp add: times_ok_def)

lemma times_ok_queue: "times_ok t c \<Longrightarrow> m \<le> t \<Longrightarrow> times_ok t (c\<lparr>uopQueue := markLeave m (uopQueue c)\<rparr>)"
  by (simp add: times_ok_def cq_leave)

lemma times_ok_reg: "times_ok t c \<Longrightarrow> v \<le> t \<Longrightarrow> times_ok t (c\<lparr>regScoreboard := (regScoreboard c)[i := v]\<rparr>)"
  using set_upd_bound [of "regScoreboard c" t v] by (auto simp: times_ok_def)

section \<open>Decode and issue\<close>

lemma passed_fit: "win_fit t cur w \<Longrightarrow> passed cur w cur' w' \<Longrightarrow> t \<le> t' \<Longrightarrow> cur' \<le> t' \<Longrightarrow> win_fit t' cur' w'"
  by (auto simp: win_fit_def passed_def horizon_def)

lemma passed_refl: "win_ok cur w \<Longrightarrow> passed cur w cur w"
  by (auto simp: passed_def fun_eq_iff win_at_def)

lemma advance_by_spec:
  assumes "win_ok (curCycle c) (insWindow c)"
  shows "\<exists>w. advance_by n c = Some (c\<lparr>curCycle := curCycle c + n, insWindow := w\<rparr>) \<and> passed (curCycle c) (insWindow c) (curCycle c + n) w"
  using assms
proof (induction n arbitrary: c)
  case 0
  then show ?case using passed_refl by (intro exI [of _ "insWindow c"]) simp
next
  case (Suc n)
  from advancePos_spec [OF Suc.prems] obtain w1 where
    w1: "advancePos (curCycle c) (insWindow c) = Some (Suc (curCycle c), w1)" "passed (curCycle c) (insWindow c) (Suc (curCycle c)) w1" by blast
  let ?c = "c\<lparr>curCycle := Suc (curCycle c), insWindow := w1\<rparr>"
  from w1(2) have "win_ok (curCycle ?c) (insWindow ?c)" by (simp add: passed_def)
  from Suc.IH [OF this] obtain w where w: "advance_by n ?c = Some (?c\<lparr>curCycle := Suc (curCycle c) + n, insWindow := w\<rparr>)"
    "passed (Suc (curCycle c)) w1 (Suc (curCycle c) + n) w" by auto
  from passed_trans [OF w1(2) w(2)] w(1) w1(1) show ?case by (intro exI [of _ w]) simp
qed

text \<open>Advancing keeps the bounds.\<close>

lemma advance_by_ok:
  assumes "core_ok t c" "t \<le> t'" "curCycle c + n \<le> t'"
  shows "\<exists>w. advance_by n c = Some (c\<lparr>curCycle := curCycle c + n, insWindow := w\<rparr>) \<and> core_ok t' (c\<lparr>curCycle := curCycle c + n, insWindow := w\<rparr>)"
proof -
  from assms(1) have fit: "win_fit t (curCycle c) (insWindow c)" and tm: "times_ok t c" by (simp_all add: core_ok_def)
  from advance_by_spec [of c n] fit obtain w where
    w: "advance_by n c = Some (c\<lparr>curCycle := curCycle c + n, insWindow := w\<rparr>)" "passed (curCycle c) (insWindow c) (curCycle c + n) w"
    by (auto simp: win_fit_def)
  from passed_fit [OF fit w(2) assms(2,3)] times_ok_mono [OF tm assms(2)] w(1) show ?thesis by (auto simp: core_ok_def)
qed

definition uop_ok :: "nat \<Rightarrow> DynUop \<Rightarrow> bool" where
  "uop_ok n u \<longleftrightarrow> rs0 u < n \<and> rs1 u < n \<and> rd0 u < n \<and> rd1 u < n \<and> uop_lat u < 2 ^ 16 \<and> decCycle u < 2 ^ 16 \<and> uop_portMask u \<noteq> 0 \<and> extraSlots u < 2 ^ 8"

text \<open>A step from a core to one whose cycles are below a later bound, with time not going back.\<close>

definition moves :: "cycle \<Rightarrow> OOOCore \<Rightarrow> OOOCore \<Rightarrow> bool" where
  "moves t' c c' \<longleftrightarrow> core_ok t' c' \<and> curCycle c \<le> curCycle c' \<and> decodeCycle c \<le> decodeCycle c' \<and> length (regScoreboard c') = length (regScoreboard c)"

lemma moves_trans: "moves t c c' \<Longrightarrow> moves t' c' c'' \<Longrightarrow> moves t' c c''"
  by (auto simp: moves_def)

lemma uop_decode_ok:
  assumes ok: "core_ok t c" and u: "p \<le> decCycle u" "decCycle u < 2 ^ 16"
  shows "\<exists>c'. uop_decode p u c = Some c' \<and> moves (t + 2 ^ 16) c c'"
proof -
  define d where "d = max (decodeCycle c + (decCycle u + 2 ^ 32 - p) mod 2 ^ 32) (cq_minAllocCycle (uopQueue c))"
  define c1 where "c1 = c\<lparr>decodeCycle := d\<rparr>"
  from ok have tm: "times_ok t c" and cur: "curCycle c \<le> t" by (simp_all add: core_ok_def win_fit_def)
  have "(decCycle u + 2 ^ 32 - p) mod 2 ^ 32 = decCycle u - p" using u by (simp add: mod_if)
  moreover from tm have "decodeCycle c \<le> t" "cq_minAllocCycle (uopQueue c) \<le> t" using cq_min by (simp_all add: times_ok_def)
  ultimately have d: "decodeCycle c \<le> d" "d \<le> t + 2 ^ 16" using u(2) unfolding d_def by linarith+
  have ok1: "core_ok (t + 2 ^ 16) c1" using core_ok_mono [OF ok, of "t + 2 ^ 16"] d times_ok_decode by (simp add: core_ok_def c1_def)
  have "\<exists>c2. (if d > curCycle c1 then advance_by ((d - curCycle c1) mod 2 ^ 32) (c1\<lparr>curCycleIssuedUops := 0, curCycleRFReads := 0\<rparr>) else Some c1) = Some c2
    \<and> moves (t + 2 ^ 16) c c2"
  proof (cases "d > curCycle c1")
    case True
    let ?c = "c1\<lparr>curCycleIssuedUops := 0, curCycleRFReads := 0\<rparr>"
    have "core_ok (t + 2 ^ 16) ?c" using ok1 by (simp add: core_ok_def)
    moreover have "curCycle ?c + (d - curCycle c1) mod 2 ^ 32 \<le> t + 2 ^ 16"
      using True d(2) mod_less_eq_dividend [of "d - curCycle c1" "2 ^ 32"] by simp
    ultimately obtain w where "advance_by ((d - curCycle c1) mod 2 ^ 32) ?c = Some (?c\<lparr>curCycle := curCycle ?c + (d - curCycle c1) mod 2 ^ 32, insWindow := w\<rparr>)"
      "core_ok (t + 2 ^ 16) (?c\<lparr>curCycle := curCycle ?c + (d - curCycle c1) mod 2 ^ 32, insWindow := w\<rparr>)"
      using advance_by_ok [OF _ order_refl, of "t + 2 ^ 16" ?c] by blast
    with True d(1) show ?thesis by (simp add: moves_def c1_def)
  next
    case False
    with ok1 d(1) show ?thesis by (simp add: moves_def c1_def)
  qed
  then obtain c2 where c2: "(if d > curCycle c1 then advance_by ((d - curCycle c1) mod 2 ^ 32) (c1\<lparr>curCycleIssuedUops := 0, curCycleRFReads := 0\<rparr>) else Some c1) = Some c2"
    "moves (t + 2 ^ 16) c c2" by blast
  let ?e = "c2\<lparr>uopQueue := markLeave (curCycle c2) (uopQueue c2)\<rparr>"
  have dc: "decodeCycle c1 = d" by (simp add: c1_def)
  have "uop_decode p u c = Some ?e"
    unfolding uop_decode_def Let_def d_def [symmetric] c1_def [symmetric] dc c2(1) by simp
  moreover have "moves (t + 2 ^ 16) c ?e"
    using c2(2) times_ok_queue by (auto simp: moves_def core_ok_def win_fit_def)
  ultimately show ?thesis by blast
qed

lemma uop_width_ok:
  assumes ok: "core_ok t c"
  shows "\<exists>c'. uop_width c = Some c' \<and> moves (Suc t) c c'"
proof -
  have "\<exists>c1. (if curCycleIssuedUops c \<ge> ISSUES_PER_CYCLE then advance_by 1 (c\<lparr>curCycleIssuedUops := 0, curCycleRFReads := 0\<rparr>) else Some c) = Some c1
    \<and> moves (Suc t) c c1"
  proof (cases "curCycleIssuedUops c \<ge> ISSUES_PER_CYCLE")
    case True
    let ?c = "c\<lparr>curCycleIssuedUops := 0, curCycleRFReads := 0\<rparr>"
    have "core_ok t ?c" "curCycle ?c + 1 \<le> Suc t" using ok by (simp_all add: core_ok_def win_fit_def)
    from advance_by_ok [OF this(1) _ this(2)] obtain w where
      "advance_by 1 ?c = Some (?c\<lparr>curCycle := curCycle ?c + 1, insWindow := w\<rparr>)" "core_ok (Suc t) (?c\<lparr>curCycle := curCycle ?c + 1, insWindow := w\<rparr>)" by auto
    with True show ?thesis by (simp add: moves_def del: advance_by.simps)
  next
    case False
    with core_ok_mono [OF ok, of "Suc t"] show ?thesis by (simp add: moves_def)
  qed
  then obtain c1 where c1: "(if curCycleIssuedUops c \<ge> ISSUES_PER_CYCLE then advance_by 1 (c\<lparr>curCycleIssuedUops := 0, curCycleRFReads := 0\<rparr>) else Some c) = Some c1"
    "moves (Suc t) c c1" by blast
  let ?e = "c1\<lparr>curCycleIssuedUops := Suc (curCycleIssuedUops c1), regScoreboard := (regScoreboard c1)[0 := curCycle c1]\<rparr>"
  have "uop_width c = Some ?e" unfolding uop_width_def c1(1) by simp
  moreover have "times_ok (Suc t) ?e"
    using c1(2) times_ok_reg [of "Suc t" "c1\<lparr>curCycleIssuedUops := Suc (curCycleIssuedUops c1)\<rparr>" "curCycle c1" 0] by (simp add: moves_def core_ok_def win_fit_def)
  ultimately show ?thesis using c1(2) by (auto simp: moves_def core_ok_def)
qed

lemma uop_reads_ok:
  assumes ok: "core_ok t c"
  shows "\<exists>c'. uop_reads a b c = Some c' \<and> moves (Suc t) c c'"
proof -
  define n where "n = curCycleRFReads c + of_bool (a < curCycle c) + of_bool (b < curCycle c)"
  show ?thesis
  proof (cases "n > RF_READS_PER_CYCLE")
    case True
    let ?c = "c\<lparr>curCycleRFReads := n - RF_READS_PER_CYCLE, curCycleIssuedUops := 0\<rparr>"
    have "core_ok t ?c" "curCycle ?c + 1 \<le> Suc t" using ok by (simp_all add: core_ok_def win_fit_def)
    from advance_by_ok [OF this(1) _ this(2)] obtain w where
      "advance_by 1 ?c = Some (?c\<lparr>curCycle := curCycle ?c + 1, insWindow := w\<rparr>)" "core_ok (Suc t) (?c\<lparr>curCycle := curCycle ?c + 1, insWindow := w\<rparr>)" by auto
    with True show ?thesis unfolding uop_reads_def Let_def n_def [symmetric] by (simp add: moves_def del: advance_by.simps)
  next
    case False
    with core_ok_mono [OF ok, of "Suc t"] show ?thesis unfolding uop_reads_def Let_def n_def [symmetric] by (simp add: moves_def core_ok_def)
  qed
qed

lemma uop_dispatch_ok:
  assumes ok: "core_ok t c" and ab: "a \<le> t" "b \<le> t" and u: "uop_portMask u \<noteq> 0" "extraSlots u < 2 ^ 8" and near: "t + 2 ^ 11 < curCycle c + 2 ^ 32"
  shows "\<exists>d c'. uop_dispatch u a b c = Some (d, c') \<and> d \<le> t + 6 \<and> moves (t + 2 ^ 9) c c'"
proof -
  define s where "s = max (max a b) (max (rob_minAllocCycle (rob c)) (curCycle c) + (DISPATCH_STAGE - ISSUE_STAGE))"
  from ok have fit: "win_ok (curCycle c) (insWindow c)" "0 < winSZ (insWindow c)" "winH (insWindow c) \<le> 1024" "horizon t (win_at (curCycle c) (insWindow c))" "curCycle c \<le> t"
    and tm: "times_ok t c" by (simp_all add: core_ok_def win_fit_def)
  have s: "s \<le> t + 6" using ab fit(5) tm rb_min [of t "rob c"] by (simp add: s_def ooo_params times_ok_def)
  have "horizon (t + 6) (win_at (curCycle c) (insWindow c))" using fit(4) by (rule horizon_mono) simp
  moreover have "curCycle c \<le> t + 6" "t + 6 + Suc (extraSlots u) + winH (insWindow c) < curCycle c + 2 ^ 32" "winH (insWindow c) < 2 ^ 32"
    using fit(3,5) u(2) near by simp_all
  ultimately obtain cur d w where
    r: "win_schedule (curCycle c) s (uop_portMask u) (extraSlots u) (insWindow c) = Some (cur, d, w)" and
    w: "win_ok cur w" "curCycle c \<le> cur" "cur \<le> t + 6" "d \<le> t + 6" "horizon (t + 6 + Suc (extraSlots u)) (win_at cur w)"
      "winSZ w = winSZ (insWindow c)" "winH w = winH (insWindow c)"
    using win_schedule_spec [OF fit(1,2) u(1) _ _ s, of "extraSlots u"] by blast
  have "horizon (t + 2 ^ 9) (win_at cur w)" using w(5) u(2) by (elim horizon_mono) simp
  then have fit': "win_fit (t + 2 ^ 9) cur w" using w fit by (simp add: win_fit_def)
  let ?c = "c\<lparr>curCycle := cur, insWindow := w\<rparr>"
  define e where "e = (if cur > curCycle c then ?c\<lparr>curCycleIssuedUops := 0, curCycleRFReads := 0\<rparr> else ?c)"
  have "uop_dispatch u a b c = Some (d, e)" using r by (simp add: uop_dispatch_def Let_def s_def [symmetric] e_def)
  moreover have "moves (t + 2 ^ 9) c e" using fit' times_ok_mono [OF tm, of "t + 2 ^ 9"] w(2) by (simp add: moves_def core_ok_def e_def)
  ultimately show ?thesis using w(4) by blast
qed

lemma uop_issue_ok:
  assumes ok: "core_ok t c" and u: "uop_ok (length (regScoreboard c)) u" "p \<le> decCycle u" and near: "t + 2 ^ 17 < curCycle c + 2 ^ 32"
  shows "\<exists>d c'. uop_issue p u c = Some (d, c') \<and> d \<le> t + 2 ^ 17 \<and> moves (t + 2 ^ 17) c c'"
proof -
  from uop_decode_ok [OF ok u(2)] u(1) obtain c1 where c1: "uop_decode p u c = Some c1" "moves (t + 2 ^ 16) c c1" by (auto simp: uop_ok_def)
  from uop_width_ok c1(2) obtain c2 where c2: "uop_width c1 = Some c2" "moves (Suc (t + 2 ^ 16)) c1 c2" unfolding moves_def by blast
  let ?a = "regScoreboard c2 ! rs0 u" and ?b = "regScoreboard c2 ! rs1 u"
  from uop_reads_ok c2(2) obtain c3 where c3: "uop_reads ?a ?b c2 = Some c3" "moves (Suc (Suc (t + 2 ^ 16))) c2 c3" unfolding moves_def by blast
  have m: "moves (Suc (Suc (t + 2 ^ 16))) c c3" using c1(2) c2(2) c3(2) moves_trans by blast
  have "?a \<in> set (regScoreboard c2)" "?b \<in> set (regScoreboard c2)"
    using u(1) c1(2) c2(2) by (simp_all add: moves_def uop_ok_def)
  then have ab: "?a \<le> Suc (Suc (t + 2 ^ 16))" "?b \<le> Suc (Suc (t + 2 ^ 16))" using c2(2) by (auto simp: moves_def core_ok_def times_ok_def)
  have "core_ok (Suc (Suc (t + 2 ^ 16))) c3" "Suc (Suc (t + 2 ^ 16)) + 2 ^ 11 < curCycle c3 + 2 ^ 32" using m near by (simp_all add: moves_def)
  from uop_dispatch_ok [OF this(1) ab _ _ this(2), of u] u(1) obtain d c4 where
    c4: "uop_dispatch u ?a ?b c3 = Some (d, c4)" "d \<le> Suc (Suc (t + 2 ^ 16)) + 6" "moves (Suc (Suc (t + 2 ^ 16)) + 2 ^ 9) c3 c4" by (auto simp: uop_ok_def)
  have "uop_issue p u c = Some (d, c4)" unfolding uop_issue_def Let_def c1(1) using c2(1) c3(1) c4(1) by simp
  moreover have "moves (t + 2 ^ 17) c c4"
    using moves_trans [OF m c4(3)] core_ok_mono [of "Suc (Suc (t + 2 ^ 16)) + 2 ^ 9" c4 "t + 2 ^ 17"] by (simp add: moves_def)
  ultimately show ?thesis using c4(2) by auto
qed

section \<open>Execution\<close>

subsection \<open>The memory system\<close>

text \<open>What the core needs of the caches, the recorder and the refresh: from a good state they return to one, and an answer takes at most \<open>b\<close> cycles.\<close>

locale core_memory =
  fixes z :: "'m OOOEnv" and good :: "'m \<Rightarrow> bool" and b :: nat
  assumes load_answers: "good m \<Longrightarrow> \<exists>resp m'. l1d_load z a c m = Some (resp, m') \<and> c \<le> resp \<and> resp \<le> c + b \<and> good m'"
    and store_answers: "good m \<Longrightarrow> \<exists>resp m'. l1d_store z a c m = Some (resp, m') \<and> c \<le> resp \<and> resp \<le> c + b \<and> good m'"
    and fetch_answers: "good m \<Longrightarrow> \<exists>resp m'. l1i_load z a c m = Some (resp, m') \<and> c \<le> resp \<and> resp \<le> c + b \<and> good m'"
    and record_returns: "good m \<Longrightarrow> \<exists>m'. rec_record z c d q m = Some m' \<and> good m'"
    and refresh_returns: "good m \<Longrightarrow> \<exists>m'. llc_processRefresh z i m = Some m' \<and> good m'"
begin

lemma refresh_banks_returns: "good m \<Longrightarrow> \<exists>m'. refresh_banks z is m = Some m' \<and> good m'"
proof (induction "is" arbitrary: m)
  case (Cons i js)
  from refresh_returns [OF Cons.prems] obtain m1 where "llc_processRefresh z i m = Some m1" "good m1" by blast
  with Cons.IH show ?case by fastforce
qed simp

lemma run_refresh_ok:
  assumes "good (mem r)"
  shows "\<exists>r'. run_refresh z r = Some r' \<and> good (mem r') \<and> loadIdx r' = loadIdx r \<and> storeIdx r' = storeIdx r \<and> core r' = core r"
proof -
  from refresh_banks_returns [OF assms] obtain m where "refresh_banks z [0..<z_llc_banks z] (mem r) = Some m" "good m" by blast
  with assms show ?thesis by (simp add: run_refresh_def)
qed

end

subsection \<open>Loads and stores\<close>

lemma fwd_index_less: "fwd_index a < FWD_ENTRIES"
proof -
  have "drop_bit 2 a AND of_nat (FWD_ENTRIES - 1) = take_bit 5 (drop_bit 2 a)" by (simp add: ooo_params take_bit_eq_mask mask_eq_exp_minus_1)
  then have "fwd_index a = take_bit 5 (unat (drop_bit 2 a))" by (simp add: fwd_index_def unsigned_take_bit_eq)
  then show ?thesis using take_bit_nat_less_exp [of 5 "unat (drop_bit 2 a)"] by (simp add: ooo_params)
qed

lemma fwd_cycle_bounds:
  assumes "times_ok t c" "q \<le> t'" "t \<le> t'"
  shows "q \<le> fwd_cycle a q c \<and> fwd_cycle a q c \<le> t'"
proof -
  have "fwdArray c ! fwd_index a \<in> set (fwdArray c)" using assms(1) fwd_index_less [of a] by (simp add: times_ok_def)
  then have "snd (fwdArray c ! fwd_index a) \<le> t" using assms(1) by (auto simp: times_ok_def)
  with assms show ?thesis by (simp add: fwd_cycle_def)
qed

text \<open>What execution leaves: the answer is within the later bound, and so are the cycles of the core.\<close>

definition executed :: "('m \<Rightarrow> bool) \<Rightarrow> cycle \<Rightarrow> 'm BblRun \<Rightarrow> cycle \<times> 'm BblRun \<Rightarrow> bool" where
  "executed good t' r cr \<longleftrightarrow> fst cr \<le> t' \<and> moves t' (core r) (core (snd cr)) \<and> good (mem (snd cr))"

lemma moves_queue:
  assumes "core_ok t c" "m \<le> t'" "t < t'"
  shows "moves t' c (c\<lparr>loadQueue := markRetire m (loadQueue c)\<rparr>)"
proof -
  have "core_ok t' c" using core_ok_mono [OF assms(1)] assms(3) by simp
  then show ?thesis using rb_mark [OF _ assms(2,3), of "loadQueue c"] assms(1) by (simp add: moves_def core_ok_def times_ok_def)
qed

lemma moves_store:
  assumes "core_ok t c" "m \<le> t'" "t < t'"
  shows "moves t' c (c\<lparr>fwdArray := (fwdArray c)[i := (a, m)], lastStoreCommitCycle := max (lastStoreCommitCycle c) m,
    storeQueue := markRetire m (storeQueue c)\<rparr>)"
proof -
  have "core_ok t' c" using core_ok_mono [OF assms(1)] assms(3) by simp
  moreover have "snd e \<le> t'" if "e \<in> set ((fwdArray c)[i := (a, m)])" for e
    using that set_update_subset_insert [of "fwdArray c" i "(a, m)"] calculation assms(2) by (auto simp: core_ok_def times_ok_def)
  ultimately show ?thesis using rb_mark [OF _ assms(2,3), of "storeQueue c"] assms by (simp add: moves_def core_ok_def times_ok_def)
qed

lemma moves_order:
  assumes "core_ok t c" "m \<le> t'" "t \<le> t'"
  shows "moves t' c (c\<lparr>lastStoreAddrCommitCycle := m\<rparr>)"
  using core_ok_mono [OF assms(1,3)] assms(2) by (simp add: moves_def core_ok_def times_ok_def)

context core_memory
begin

lemma run_load_ok:
  assumes ok: "core_ok t (core r)" and d: "d \<le> t" and g: "good (mem r)" and idx: "loadIdx r < MEM_OPS"
  shows "\<exists>cr. run_load z d r = Some cr \<and> executed good (t + b + 16) r cr"
proof -
  let ?c = "core r" and ?a = "loadAddrs (core r) ! loadIdx r"
  define e where "e = max (Suc (lastStoreAddrCommitCycle ?c)) (max (rob_minAllocCycle (loadQueue ?c)) d)"
  from ok have tm: "times_ok t ?c" by (simp add: core_ok_def)
  then have e: "e \<le> Suc t" using d rb_min [of t "loadQueue ?c"] by (simp add: e_def times_ok_def)
  from run_refresh_ok [OF g] obtain r1 where r1: "run_refresh z r = Some r1" "good (mem r1)" "loadIdx r1 = loadIdx r" "core r1 = core r" by blast
  have "\<exists>q r3. run_load z d r = Some (fwd_cycle ?a q ?c, r3\<lparr>core := ?c\<lparr>loadQueue := markRetire (fwd_cycle ?a q ?c) (loadQueue ?c)\<rparr>\<rparr>)
    \<and> q \<le> t + b + 15 \<and> good (mem r3)"
  proof (cases "?a = - 1")
    case True
    then have "run_load z d r = Some (fwd_cycle ?a e ?c, (r1\<lparr>loadIdx := Suc (loadIdx r)\<rparr>)\<lparr>core := ?c\<lparr>loadQueue := markRetire (fwd_cycle ?a e ?c) (loadQueue ?c)\<rparr>\<rparr>)"
      using r1 idx unfolding run_load_def Let_def e_def [symmetric] by simp
    moreover have "e \<le> t + b + 15" "good (mem (r1\<lparr>loadIdx := Suc (loadIdx r)\<rparr>))" using e r1(2) by simp_all
    ultimately show ?thesis by blast
  next
    case False
    from load_answers [OF r1(2), of ?a e] obtain resp m where m: "l1d_load z ?a e (mem r1) = Some (resp, m)" "resp \<le> e + b" "good m" by blast
    from record_returns [OF m(3), of "curCycle ?c" e "resp + L1D_LAT + 10"] obtain m' where
      m': "rec_record z (curCycle ?c) e (resp + L1D_LAT + 10) m = Some m'" "good m'" by blast
    let ?q = "resp + L1D_LAT + 10" and ?r = "r1\<lparr>loadIdx := Suc (loadIdx r), accCount := Suc (accCount r1), mem := m'\<rparr>"
    have "run_load z d r = Some (fwd_cycle ?a ?q ?c, ?r\<lparr>core := ?c\<lparr>loadQueue := markRetire (fwd_cycle ?a ?q ?c) (loadQueue ?c)\<rparr>\<rparr>)"
      using False m(1) m'(1) r1 idx unfolding run_load_def Let_def e_def [symmetric] by simp
    moreover have "?q \<le> t + b + 15" "good (mem ?r)" using m(2) e m'(2) by (simp_all add: L1D_LAT_def)
    ultimately show ?thesis by blast
  qed
  then obtain q r3 where q: "run_load z d r = Some (fwd_cycle ?a q ?c, r3\<lparr>core := ?c\<lparr>loadQueue := markRetire (fwd_cycle ?a q ?c) (loadQueue ?c)\<rparr>\<rparr>)"
    "q \<le> t + b + 15" "good (mem r3)" by blast
  define k where "k = fwd_cycle ?a q ?c"
  have k: "k \<le> t + b + 16" using fwd_cycle_bounds [OF tm, of q "t + b + 16" ?a] q(2) by (simp add: k_def)
  from q(1) have "run_load z d r = Some (k, r3\<lparr>core := ?c\<lparr>loadQueue := markRetire k (loadQueue ?c)\<rparr>\<rparr>)" by (simp only: k_def)
  with k q(3) moves_queue [OF ok k] show ?thesis by (simp add: executed_def)
qed

lemma run_store_ok:
  assumes ok: "core_ok t (core r)" and d: "d \<le> t" and g: "good (mem r)" and idx: "storeIdx r < MEM_OPS"
  shows "\<exists>cr. run_store z d r = Some cr \<and> executed good (t + b + 16) r cr"
proof -
  let ?c = "core r" and ?a = "storeAddrs (core r) ! storeIdx r"
  define e where "e = max (Suc (lastStoreAddrCommitCycle ?c)) (max (rob_minAllocCycle (storeQueue ?c)) d)"
  from ok have "times_ok t ?c" by (simp add: core_ok_def)
  then have e: "e \<le> Suc t" using d rb_min [of t "storeQueue ?c"] by (simp add: e_def times_ok_def)
  from store_answers [OF g, of ?a e] obtain resp m where m: "l1d_store z ?a e (mem r) = Some (resp, m)" "resp \<le> e + b" "good m" by blast
  from record_returns [OF m(3), of "curCycle ?c" e "resp + L1D_LAT"] obtain m' where
    m': "rec_record z (curCycle ?c) e (resp + L1D_LAT) m = Some m'" "good m'" by blast
  have q: "resp + L1D_LAT \<le> t + b + 16" using m(2) e by (simp add: L1D_LAT_def)
  have "run_store z d r = Some (resp + L1D_LAT, r\<lparr>storeIdx := Suc (storeIdx r), mem := m', core := ?c\<lparr>fwdArray := (fwdArray ?c)[fwd_index ?a := (?a, resp + L1D_LAT)],
    lastStoreCommitCycle := max (lastStoreCommitCycle ?c) (resp + L1D_LAT), storeQueue := markRetire (resp + L1D_LAT) (storeQueue ?c)\<rparr>\<rparr>)"
    using m(1) m'(1) idx unfolding run_store_def Let_def e_def [symmetric] by simp
  with q m'(2) moves_store [OF ok q] show ?thesis by (simp add: executed_def)
qed

lemma run_exec_ok:
  assumes ok: "core_ok t (core r)" and d: "d \<le> t" and g: "good (mem r)" and lat: "uop_lat u < 2 ^ 16"
    and idx: "uop_type u = UOP_LOAD \<Longrightarrow> loadIdx r < MEM_OPS" "uop_type u = UOP_STORE \<Longrightarrow> storeIdx r < MEM_OPS"
  shows "\<exists>cr. run_exec z u d r = Some cr \<and> executed good (t + b + 2 ^ 16) r cr"
proof -
  have up: "executed good (t + b + 2 ^ 16) r cr" if "executed good (t + b + 16) r cr" for cr
    using that core_ok_mono [of "t + b + 16" "core (snd cr)" "t + b + 2 ^ 16"] by (simp add: executed_def moves_def)
  have tm: "lastStoreAddrCommitCycle (core r) \<le> t" "lastStoreCommitCycle (core r) \<le> t" using ok by (simp_all add: core_ok_def times_ok_def)
  show ?thesis
  proof (cases "uop_type u")
    case UOP_GENERAL
    with d lat g core_ok_mono [OF ok, of "t + b + 2 ^ 16"] show ?thesis by (simp add: run_exec_def executed_def moves_def)
  next
    case UOP_LOAD
    with run_load_ok [OF ok d g idx(1)] up show ?thesis by (auto simp: run_exec_def)
  next
    case UOP_STORE
    with run_store_ok [OF ok d g idx(2)] up show ?thesis by (auto simp: run_exec_def)
  next
    case UOP_STORE_ADDR
    with d lat g tm moves_order [OF ok, of "max (lastStoreAddrCommitCycle (core r)) (d + uop_lat u)" "t + b + 2 ^ 16"] show ?thesis
      by (simp add: run_exec_def executed_def Let_def)
  next
    case UOP_FENCE
    with d lat g tm moves_order [OF ok, of "max (d + uop_lat u) (max (lastStoreAddrCommitCycle (core r)) (lastStoreCommitCycle (core r) + uop_lat u))" "t + b + 2 ^ 16"]
    show ?thesis by (simp add: run_exec_def executed_def Let_def)
  qed
qed

end

section \<open>A block\<close>

lemma retire_ok:
  assumes "core_ok t c" "k \<le> t"
  shows "moves (Suc t) c (retire_uop u k c)"
proof -
  have ok: "core_ok (Suc t) c" using core_ok_mono [OF assms(1)] by simp
  then have "times_ok (Suc t) (c\<lparr>rob := markRetire k (rob c)\<rparr>)"
    using rb_mark [of t "rob c" k "Suc t"] assms by (simp add: core_ok_def times_ok_def)
  from times_ok_reg [OF times_ok_reg [OF this, of k "rd0 u"], of k "rd1 u"] assms(2)
  have "times_ok (Suc t) (retire_uop u k c)" by (simp add: retire_uop_def)
  with ok show ?thesis by (simp add: moves_def core_ok_def retire_uop_def)
qed

text \<open>How far the bound moves with one micro-operation.\<close>

definition uop_span :: "nat \<Rightarrow> nat" where
  "uop_span b = 2 ^ 18 + b"

context core_memory
begin

lemma run_uop_ok:
  assumes ok: "core_ok t (core r)" and u: "uop_ok (length (regScoreboard (core r))) u" "p \<le> decCycle u" and g: "good (mem r)"
    and near: "t + 2 ^ 17 < curCycle (core r) + 2 ^ 32"
    and idx: "uop_type u = UOP_LOAD \<Longrightarrow> loadIdx r < MEM_OPS" "uop_type u = UOP_STORE \<Longrightarrow> storeIdx r < MEM_OPS"
  shows "\<exists>cr. run_uop z p u r = Some cr \<and> executed good (t + uop_span b) r cr"
proof -
  from uop_issue_ok [OF ok u near] obtain d c where
    i: "uop_issue p u (core r) = Some (d, c)" "d \<le> t + 2 ^ 17" "moves (t + 2 ^ 17) (core r) c" by blast
  let ?r = "r\<lparr>core := c\<rparr>"
  have "core_ok (t + 2 ^ 17) (core ?r)" "good (mem ?r)" using i(3) g by (simp_all add: moves_def)
  from run_exec_ok [OF this(1) i(2) this(2), of u] u(1) idx obtain k r1 where
    e: "run_exec z u d ?r = Some (k, r1)" "executed good (t + 2 ^ 17 + b + 2 ^ 16) ?r (k, r1)" by (auto simp: uop_ok_def)
  let ?t = "t + 2 ^ 17 + b + 2 ^ 16"
  have k: "k \<le> ?t" "core_ok ?t (core r1)" "moves ?t c (core r1)" "good (mem r1)" using e(2) by (simp_all add: executed_def moves_def)
  have "moves (Suc ?t) (core r) (retire_uop u k (core r1))"
    using moves_trans [OF moves_trans [OF i(3) k(3)] retire_ok [OF k(2,1)]] .
  with core_ok_mono [of "Suc ?t" "retire_uop u k (core r1)" "t + uop_span b"]
  have "moves (t + uop_span b) (core r) (retire_uop u k (core r1))" by (simp add: moves_def uop_span_def)
  moreover have "run_uop z p u r = Some (k, r1\<lparr>core := retire_uop u k (core r1)\<rparr>)" using i(1) e(1) by (simp add: run_uop_def)
  ultimately show ?thesis using k by (simp add: executed_def uop_span_def)
qed

lemma run_uops_ok:
  assumes "core_ok t (core r)" "\<forall>u \<in> set us. uop_ok (length (regScoreboard (core r))) u" "sorted (p # map decCycle us)" "good (mem r)"
    and "t + length us * uop_span b + 2 ^ 17 < curCycle (core r) + 2 ^ 32"
    and "loadIdx r + uops_of UOP_LOAD us \<le> MEM_OPS" "storeIdx r + uops_of UOP_STORE us \<le> MEM_OPS" "l \<le> t"
  shows "\<exists>cr. run_uops z p l us r = Some cr \<and> executed good (t + length us * uop_span b) r cr"
  using assms
proof (induction us arbitrary: p l r t)
  case Nil
  then show ?case by (simp add: executed_def moves_def)
next
  case (Cons u us)
  have idx: "uop_type u = UOP_LOAD \<Longrightarrow> loadIdx r < MEM_OPS" "uop_type u = UOP_STORE \<Longrightarrow> storeIdx r < MEM_OPS"
    using Cons.prems(6,7) by (auto simp: uops_of_def)
  have "uop_ok (length (regScoreboard (core r))) u" "p \<le> decCycle u" "t + 2 ^ 17 < curCycle (core r) + 2 ^ 32" using Cons.prems by auto
  from run_uop_ok [OF Cons.prems(1) this(1,2) Cons.prems(4) this(3)] idx obtain k r1 where
    k: "run_uop z p u r = Some (k, r1)" "executed good (t + uop_span b) r (k, r1)" by fastforce
  note f = run_uop_frame [OF k(1)]
  have "\<exists>cr. run_uops z (decCycle u) k us r1 = Some cr \<and> executed good (t + uop_span b + length us * uop_span b) r1 cr"
  proof (rule Cons.IH)
    show "loadIdx r1 + uops_of UOP_LOAD us \<le> MEM_OPS" "storeIdx r1 + uops_of UOP_STORE us \<le> MEM_OPS"
      using Cons.prems(6,7) f by (auto simp: uops_of_def)
  qed (use k(2) Cons.prems in \<open>auto simp: executed_def moves_def\<close>)
  then obtain cr where cr: "run_uops z (decCycle u) k us r1 = Some cr" "executed good (t + uop_span b + length us * uop_span b) r1 cr" by blast
  have "executed good (t + length (u # us) * uop_span b) r cr"
    using cr(2) k(2) moves_trans [of _ "core r" "core r1"] by (auto simp: executed_def algebra_simps)
  with k(1) cr(1) show ?case by auto
qed

end

section \<open>Fetch and the whole block\<close>

context core_memory
begin

lemma fetch_line_ok:
  assumes "good (mem r)"
  shows "\<exists>lat r'. fetch_line z a r = Some (lat, r') \<and> lat \<le> b \<and> good (mem r') \<and> core r' = core r"
proof -
  from fetch_answers [OF assms, of a "curCycle (core r)"] obtain resp m where
    m: "l1i_load z a (curCycle (core r)) (mem r) = Some (resp, m)" "resp \<le> curCycle (core r) + b" "good m" by blast
  from record_returns [OF m(3)] obtain m' where
    "rec_record z (curCycle (core r)) (curCycle (core r)) (curCycle (core r) + (resp - curCycle (core r))) m = Some m'" "good m'" by blast
  with m show ?thesis by (simp add: fetch_line_def)
qed

lemma wrong_path_ok: "good (mem r) \<Longrightarrow> \<exists>r'. wrong_path z n i a q l r = Some r' \<and> good (mem r') \<and> core r' = core r"
proof (induction n arbitrary: i q r)
  case (Suc n)
  from fetch_line_ok [OF Suc.prems] obtain lat r1 where
    r1: "fetch_line z (a + of_nat (lineSize z * i)) r = Some (lat, r1)" "good (mem r1)" "core r1 = core r" by blast
  from Suc.IH [OF r1(2)] obtain r2 where
    "wrong_path z n (Suc i) a (q + lat + lineSize z div FETCH_BYTES_PER_CYCLE) l r1 = Some r2" "good (mem r2)" "core r2 = core r1" by blast
  with r1 show ?case by (simp add: Let_def)
qed simp

lemma run_branch_ok:
  assumes "good (mem r)"
  shows "\<exists>f r' bp n. run_branch z fc l r = Some (f, r') \<and> f \<in> {fc, l} \<and> good (mem r') \<and> core r' = (core r)\<lparr>branchPred := bp, mispredBranches := n\<rparr>"
proof (cases "branchPc (core r) = 0")
  case True
  with assms show ?thesis by (intro exI [of _ fc] exI [of _ r] exI [of _ "branchPred (core r)"] exI [of _ "mispredBranches (core r)"]) (simp add: run_branch_def)
next
  case False
  obtain right bp where p: "predict (branchPc (core r)) (branchTaken (core r)) (branchPred (core r)) = (right, bp)"
    by (cases "predict (branchPc (core r)) (branchTaken (core r)) (branchPred (core r))")
  show ?thesis
  proof (cases right)
    case True
    with False p assms show ?thesis by (intro exI [of _ fc] exI [of _ "r\<lparr>core := (core r)\<lparr>branchPred := bp\<rparr>\<rparr>"] exI [of _ bp] exI [of _ "mispredBranches (core r)"])
      (simp add: run_branch_def Let_def)
  next
    case wrong: False
    let ?r = "r\<lparr>core := (core r)\<lparr>branchPred := bp, mispredBranches := Suc (mispredBranches (core r))\<rparr>\<rparr>"
    from wrong_path_ok [of ?r "5 * 64 div lineSize z" 0 "if branchTaken (core r) then branchNotTakenNpc (core r) else branchTakenNpc (core r)" fc l] assms
    obtain r' where "wrong_path z (5 * 64 div lineSize z) 0 (if branchTaken (core r) then branchNotTakenNpc (core r) else branchTakenNpc (core r)) fc l ?r = Some r'"
      "good (mem r')" "core r' = core ?r" by auto
    moreover from this False wrong p have "run_branch z fc l r = Some (l, r')" by (simp add: run_branch_def Let_def)
    ultimately show ?thesis by (intro exI [of _ l] exI [of _ r'] exI [of _ bp] exI [of _ "Suc (mispredBranches (core r))"]) simp
  qed
qed

lemma fetch_lines_ok:
  assumes "good (mem r)" "z_lineBits z < 32" "unat e + lineSize z \<le> 2 ^ 64" "unat e \<le> unat a + n"
  shows "\<exists>f r'. fetch_lines z a e fc r = Some (f, r') \<and> fc \<le> f \<and> f \<le> fc + n * b \<and> good (mem r') \<and> core r' = core r"
  using assms
proof (induction n arbitrary: a fc r)
  case 0
  then have "\<not> a < e" by (simp add: word_less_nat_alt)
  with 0 show ?case by (simp add: fetch_lines.simps)
next
  case (Suc n)
  show ?case
  proof (cases "a < e")
    case False
    with Suc.prems(1) show ?thesis by (simp add: fetch_lines.simps)
  next
    case True
    have le: "unat e \<le> unat (a + of_nat (lineSize z)) + n" using next_line [OF True Suc.prems(2,3)] Suc.prems(4) by linarith
    from fetch_line_ok [OF Suc.prems(1)] obtain lat r1 where r1: "fetch_line z a r = Some (lat, r1)" "lat \<le> b" "good (mem r1)" "core r1 = core r" by blast
    from Suc.IH [OF r1(3) Suc.prems(2,3) le] obtain f r' where
      "fetch_lines z (a + of_nat (lineSize z)) e (fc + lat) r1 = Some (f, r')" "fc + lat \<le> f" "f \<le> fc + lat + n * b" "good (mem r')" "core r' = core r1" by blast
    with True r1 show ?thesis by (simp add: fetch_lines.simps [of z a])
  qed
qed

lemma run_frontend_ok:
  assumes ok: "core_ok t (core r)" and g: "good (mem r)" and l: "l \<le> t"
    and fetch: "z_lineBits z < 32" "unat a + unat (bi_bytes bi) + lineSize z \<le> 2 ^ 64"
  shows "\<exists>r'. run_frontend z a bi l r = Some r' \<and> good (mem r') \<and> core_ok (t + unat (bi_bytes bi) * b + 4) (core r') \<and> curCycle (core r') = curCycle (core r)
    \<and> decodeCycle (core r) < decodeCycle (core r') \<and> loads (core r') = loads (core r) \<and> stores (core r') = stores (core r)
    \<and> prevBbl (core r') = prevBbl (core r)"
proof -
  have dc: "decodeCycle (core r) \<le> t" using ok by (simp add: core_ok_def times_ok_def)
  let ?fc = "decodeCycle (core r) - (DECODE_STAGE - FETCH_STAGE)"
  from run_branch_ok [OF g] obtain f r1 bp n where
    r1: "run_branch z ?fc l r = Some (f, r1)" "f \<in> {?fc, l}" "good (mem r1)" "core r1 = (core r)\<lparr>branchPred := bp, mispredBranches := n\<rparr>" by blast
  let ?r2 = "r1\<lparr>core := (core r1)\<lparr>branchPc := 0\<rparr>\<rparr>"
  have e: "unat (a + ucast (bi_bytes bi) :: addr) = unat a + unat (bi_bytes bi)"
    by (rule block_end [OF fetch(2)])
  have "good (mem ?r2)" "unat (a + ucast (bi_bytes bi)) + lineSize z \<le> 2 ^ 64" "unat (a + ucast (bi_bytes bi)) \<le> unat a + unat (bi_bytes bi)"
    using r1(3) fetch(2) by (simp_all add: e)
  from fetch_lines_ok [OF this(1) fetch(1) this(2,3)] obtain f' r3 where
    r3: "fetch_lines z a (a + ucast (bi_bytes bi)) f ?r2 = Some (f', r3)" "f' \<le> f + unat (bi_bytes bi) * b" "good (mem r3)" "core r3 = core ?r2" by blast
  let ?d = "max (Suc (decodeCycle (core r3))) (f' + (DECODE_STAGE - FETCH_STAGE))"
  have "run_frontend z a bi l r = Some (r3\<lparr>core := (core r3)\<lparr>decodeCycle := ?d\<rparr>\<rparr>)"
    using r1(1) r3(1) by (simp add: run_frontend_def Let_def)
  moreover have "?d \<le> t + unat (bi_bytes bi) * b + 4" using r1(2,4) r3(2,4) dc l by (auto simp: ooo_params)
  moreover from core_ok_mono [OF ok, of "t + unat (bi_bytes bi) * b + 4"] this have "core_ok (t + unat (bi_bytes bi) * b + 4) ((core r3)\<lparr>decodeCycle := ?d\<rparr>)"
    using r1(4) r3(4) times_ok_decode by (simp add: core_ok_def)
  ultimately show ?thesis using r1(4) r3(3,4) by simp
qed

end

text \<open>A block that can be simulated: its micro-operations are well formed, in the order of their decode cycles, and its accesses have been recorded.\<close>

definition block_ok :: "BblInfo \<Rightarrow> OOOCore \<Rightarrow> bool" where
  "block_ok b c \<longleftrightarrow> (\<forall>u \<in> set (bbl_uop (oooBbl b)). uop_ok (length (regScoreboard c)) u) \<and> sorted (map decCycle (bbl_uop (oooBbl b)))
     \<and> loads c = uops_of UOP_LOAD (bbl_uop (oooBbl b)) \<and> stores c = uops_of UOP_STORE (bbl_uop (oooBbl b))
     \<and> loads c \<le> MEM_OPS \<and> stores c \<le> MEM_OPS"

context core_memory
begin

lemma bbl_ok:
  fixes bi :: BblInfo
  assumes ok: "core_ok t c" and g: "good m" and p: "prevBbl c = Some pb" and blk: "block_ok pb c"
    and fetch: "z_lineBits z < 32" "unat a + unat (bi_bytes bi) + lineSize z \<le> 2 ^ 64"
    and near: "t + length (bbl_uop (oooBbl pb)) * uop_span b + 2 ^ 17 < curCycle c + 2 ^ 32"
  defines "t' \<equiv> t + length (bbl_uop (oooBbl pb)) * uop_span b + unat (bi_bytes bi) * b + 4"
  shows "\<exists>n' c' m'. bbl z a bi (n, c, m) = Some (n', c', m') \<and> good m' \<and> core_ok t' c' \<and> curCycle c \<le> curCycle c' \<and> decodeCycle c < decodeCycle c'
    \<and> prevBbl c' = Some bi \<and> loads c' = 0 \<and> stores c' = 0"
proof -
  let ?us = "bbl_uop (oooBbl pb)"
  let ?r = "\<lparr>loadIdx = 0, storeIdx = 0, accCount = n, core = c\<lparr>prevBbl := Some bi\<rparr>, mem = m\<rparr>"
  let ?t = "t + length ?us * uop_span b"
  have "\<exists>cr. run_uops z 0 0 ?us ?r = Some cr \<and> executed good ?t ?r cr"
    by (rule run_uops_ok) (use ok g blk near in \<open>auto simp: core_ok_def block_ok_def\<close>)
  then obtain l r where r: "run_uops z 0 0 ?us ?r = Some (l, r)" "executed good ?t ?r (l, r)" by fastforce
  note f = run_uops_frame [OF r(1)]
  let ?c = "run_account pb (core r)"
  let ?r1 = "r\<lparr>core := ?c\<lparr>loads := 0, stores := 0\<rparr>\<rparr>"
  have acc: "loads ?c = loads (core r)" "stores ?c = stores (core r)" "prevBbl ?c = prevBbl (core r)" "curCycle ?c = curCycle (core r)"
    "decodeCycle ?c = decodeCycle (core r)" "insWindow ?c = insWindow (core r)" by (simp_all add: run_account_def)
  have "core_ok ?t (core ?r1)" "good (mem ?r1)" "l \<le> ?t" using r(2) acc by (simp_all add: executed_def moves_def core_ok_def)
  from run_frontend_ok [OF this fetch] obtain r' where
    r': "run_frontend z a bi l ?r1 = Some r'" "good (mem r')" "core_ok t' (core r')" "curCycle (core r') = curCycle (core ?r1)"
      "decodeCycle (core ?r1) < decodeCycle (core r')" "loads (core r') = 0" "stores (core r') = 0" "prevBbl (core r') = prevBbl (core ?r1)"
    unfolding t'_def by auto
  have "bbl z a bi (n, c, m) = Some (accCount r', core r', mem r')"
    using p r(1) r'(1) f blk acc by (simp add: bbl_def Let_def block_ok_def)
  with r' r(2) f acc show ?thesis by (simp add: executed_def moves_def)
qed

end

text \<open>The simulation of a block returns. With well-formed micro-operations and their accesses recorded, caches that answer and cycles that the
  32-bit distances can hold, \<^verbatim>\<open>bbl\<close> trips no assertion and reaches its end; the core is consistent again, with a later bound on its cycles, its
  current cycle has not gone back and its decode cycle has advanced, and the records are empty for the next block.\<close>

lemma bbl_returns:
  assumes "core_memory z good b" "core_ok t c" "good m" "prevBbl c = Some pb" "block_ok pb c"
    and "z_lineBits z < 32" "unat bblAddr + unat (bi_bytes bi) + lineSize z \<le> 2 ^ 64"
    and "t + length (bbl_uop (oooBbl pb)) * uop_span b + 2 ^ 17 < curCycle c + 2 ^ 32"
  shows "\<exists>n' c' m'. bbl z bblAddr bi (n, c, m) = Some (n', c', m') \<and> good m'
    \<and> core_ok (t + length (bbl_uop (oooBbl pb)) * uop_span b + unat (bi_bytes bi) * b + 4) c' \<and> curCycle c \<le> curCycle c' \<and> decodeCycle c < decodeCycle c'
    \<and> prevBbl c' = Some bi \<and> loads c' = 0 \<and> stores c' = 0"
  using core_memory.bbl_ok [OF assms] by blast

lemma flat_memory: "core_memory (flat_env t) (\<lambda>m. True) t"
  by unfold_locales (simp_all add: flat_env_def)

lemma OOOCore_new_ok: "core_ok DECODE_STAGE (OOOCore_new n z c)"
proof -
  have "win_fit DECODE_STAGE 0 (WindowStructure_new j 1024 36)" for j
    using WindowStructure_new_ok [of 1024 0 j 36] WindowStructure_new_at [of 0 j 1024 36] by (simp add: win_fit_def horizon_def WindowStructure_new_def)
  moreover have "times_ok DECODE_STAGE (OOOCore_new n z c)"
    by (auto simp: times_ok_def OOOCore_new_def rb_ok_def cq_ok_def ReorderBuffer_new_def CycleQueue_new_def ooo_params)
  ultimately show ?thesis by (simp add: core_ok_def OOOCore_new_def)
qed

lemma demo_core_fields: "curCycle (demo_core ts) = 0" "decodeCycle (demo_core ts) = 4" "prevBbl (demo_core ts) = Some (demo_bbl ts)"
  by (simp_all add: demo_core_def OOOCore_new_def ooo_params)

lemma demo_core_ok: "core_ok DECODE_STAGE (demo_core ts)"
  using OOOCore_new_ok [of 4 "flat_env 0 :: unit OOOEnv" raw_core] by (simp add: core_ok_def demo_core_def)

lemma demo_block: "block_ok (demo_bbl [UOP_GENERAL, UOP_FENCE]) (demo_core [UOP_GENERAL, UOP_FENCE])"
  by (simp add: block_ok_def demo_bbl_def uop_ok_def demo_uop_def demo_core_def OOOCore_new_def raw_core_def uops_of_def ooo_params)

section \<open>Fences\<close>

lemma logged_memory:
  assumes "core_memory z good b"
  shows "core_memory (logged z) (\<lambda>ml. good (fst ml)) b"
proof -
  have *: "\<exists>resp m'. map_option (\<lambda>(c, m). (c, m, g c)) x = Some (resp, m') \<and> c \<le> resp \<and> resp \<le> c + b \<and> good (fst m')"
    if "\<exists>resp m'. x = Some (resp, m') \<and> c \<le> resp \<and> resp \<le> c + b \<and> good m'" for x c and g :: "cycle \<Rightarrow> access list"
    using that by auto
  have **: "\<exists>m'. map_option (\<lambda>m. (m, lg :: access list)) x = Some m' \<and> good (fst m')" if "\<exists>m'. x = Some m' \<and> good m'" for x lg
    using that by auto
  show ?thesis
  proof (unfold_locales, goal_cases)
    case (1 m a c)
    then show ?case using * [OF core_memory.load_answers [OF assms 1]] by (simp add: logged_def log_access_def)
  next
    case (2 m a c)
    then show ?case using * [OF core_memory.store_answers [OF assms 2]] by (simp add: logged_def log_access_def)
  next
    case (3 m a c)
    then show ?case using * [OF core_memory.fetch_answers [OF assms 3]] by (simp add: logged_def lift_cycle_def)
  next
    case (4 m c d q)
    then show ?case using ** [OF core_memory.record_returns [OF assms 4]] by (simp add: logged_def lift_def)
  next
    case (5 m i)
    then show ?case using ** [OF core_memory.refresh_returns [OF assms 5]] by (simp add: logged_def lift_def)
  qed
qed

text \<open>C21: a fence orders accesses. When the micro-operations of a block before a fence, the fence and those after it run, the accesses they make are
  those of the first part followed by those of the last; and every access, load or store, after the fence is requested more than the latency
  of the fence after every store before it has been answered by the data cache and its latency has passed.\<close>

theorem fence_orders_accesses:
  assumes "run_uops (logged z) p l (us @ f # vs) r = Some (commit, r')" "uop_type f = UOP_FENCE"
  shows "\<exists>k r1 before after. run_uops (logged z) p l us r = Some (k, r1) \<and> snd (mem r1) = snd (mem r) @ before
    \<and> snd (mem r') = snd (mem r) @ before @ after
    \<and> (\<forall>(st, d, a) \<in> set before. \<forall>(st', d', a') \<in> set after. st \<longrightarrow> a + L1D_LAT + uop_lat f < d')"
proof -
  from assms(1) obtain k r1 k2 r2 p' where run: "run_uops (logged z) p l us r = Some (k, r1)" "run_uop (logged z) p' f r1 = Some (k2, r2)"
    "run_uops (logged z) (decCycle f) k2 vs r2 = Some (commit, r')"
    by (auto dest!: run_uops_append simp: bind_eq_Some_conv)
  from uops_logged [OF run(1)] obtain before where b: "snd (mem r1) = snd (mem r) @ before"
    "\<forall>(st, d, a) \<in> set before. st \<longrightarrow> a + L1D_LAT \<le> lastStoreCommitCycle (core r1)" by fastforce
  from run(2) assms(2) have "snd (mem r2) = snd (mem r1)" by (cases rule: run_uopE) (auto simp: run_exec_def Let_def)
  moreover from uop_logged [OF run(2)] assms(2) have "lastStoreCommitCycle (core r1) + uop_lat f \<le> lastStoreAddrCommitCycle (core r2)"
    by (auto simp: ordered_step_def)
  moreover from uops_logged [OF run(3)] obtain "after" where a: "snd (mem r') = snd (mem r2) @ after"
    "\<forall>(st, d, a) \<in> set after. lastStoreAddrCommitCycle (core r2) < d" by fastforce
  ultimately have "\<forall>(st, d, a) \<in> set before. \<forall>(st', d', a') \<in> set after. st \<longrightarrow> a + L1D_LAT + uop_lat f < d'" "snd (mem r') = snd (mem r) @ before @ after"
    using b by fastforce+
  with run(1) b(1) show ?thesis by blast
qed

theorem fence_orders_accesses_witness:
  "\<exists>commit r' k r1 before after. run_uops (logged (flat_env 5)) 0 0 (map demo_uop [UOP_STORE, UOP_FENCE, UOP_LOAD])
      \<lparr>loadIdx = 0, storeIdx = 0, accCount = 0, core = demo_core [], mem = ((), [])\<rparr> = Some (commit, r')
    \<and> run_uops (logged (flat_env 5)) 0 0 [demo_uop UOP_STORE] \<lparr>loadIdx = 0, storeIdx = 0, accCount = 0, core = demo_core [], mem = ((), [])\<rparr> = Some (k, r1)
    \<and> snd (mem r1) = before \<and> snd (mem r') = before @ after
    \<and> (\<forall>(st, d, a) \<in> set before. \<forall>(st', d', a') \<in> set after. st \<longrightarrow> a + L1D_LAT + 3 < d')"
proof -
  let ?us = "map demo_uop [UOP_STORE, UOP_FENCE, UOP_LOAD]"
  let ?r = "\<lparr>loadIdx = 0, storeIdx = 0, accCount = 0, core = demo_core [], mem = ((), [])\<rparr> :: (unit \<times> access list) BblRun"
  have ok: "core_ok DECODE_STAGE (core ?r)" by (simp add: demo_core_ok)
  have "\<exists>cr. run_uops (logged (flat_env 5)) 0 0 ?us ?r = Some cr \<and> executed (\<lambda>ml. True) (DECODE_STAGE + length ?us * uop_span 5) ?r cr"
    by (rule core_memory.run_uops_ok [OF logged_memory [OF flat_memory] ok])
      (simp_all add: demo_uop_def uop_ok_def demo_core_def OOOCore_new_def uops_of_def uop_span_def ooo_params)
  then obtain commit r' where run: "run_uops (logged (flat_env 5)) 0 0 ?us ?r = Some (commit, r')" by fastforce
  then have "run_uops (logged (flat_env 5)) 0 0 ([demo_uop UOP_STORE] @ demo_uop UOP_FENCE # [demo_uop UOP_LOAD]) ?r = Some (commit, r')" by simp
  from fence_orders_accesses [OF this] have "\<exists>k r1 before after. run_uops (logged (flat_env 5)) 0 0 [demo_uop UOP_STORE] ?r = Some (k, r1)
    \<and> snd (mem r1) = before \<and> snd (mem r') = before @ after
    \<and> (\<forall>(st, d, a) \<in> set before. \<forall>(st', d', a') \<in> set after. st \<longrightarrow> a + L1D_LAT + 3 < d')"
    by (simp add: demo_uop_def)
  with run show ?thesis by blast
qed

end
