(* ===== verification/OOOFilter.thy ===== *)
theory OOOFilter
  imports OOORun FilterCache MemCtrls
begin

text \<open>
  The out-of-order core on top of its two filter caches. Both are over one hierarchy, which answers within a bound; the filter caches then give the
  core what it needs. Here the hierarchy is the memory of fixed latency, which makes no timing records, so that the recorder has nothing to do.
\<close>

section \<open>Filter caches as the memory of a core\<close>

text \<open>The instruction cache, the data cache and the hierarchy below them. \<open>acc\<close> is \<^verbatim>\<open>Cache::access\<close> of the rest of the caches.\<close>

type_synonym 's l1 = "FilterCache \<times> FilterCache \<times> 's"

definition l1i_access :: "(addr \<Rightarrow> cycle \<Rightarrow> FilterCache \<times> 's \<Rightarrow> (cycle \<times> FilterCache \<times> 's) option) \<Rightarrow> addr \<Rightarrow> cycle \<Rightarrow> 's l1 \<Rightarrow> (cycle \<times> 's l1) option" where
  "l1i_access f a c = (\<lambda>(i, d, s). map_option (\<lambda>(resp, i', s'). (resp, i', d, s')) (f a c (i, s)))"

definition l1d_access :: "(addr \<Rightarrow> cycle \<Rightarrow> FilterCache \<times> 's \<Rightarrow> (cycle \<times> FilterCache \<times> 's) option) \<Rightarrow> addr \<Rightarrow> cycle \<Rightarrow> 's l1 \<Rightarrow> (cycle \<times> 's l1) option" where
  "l1d_access f a c = (\<lambda>(i, d, s). map_option (\<lambda>(resp, d', s'). (resp, i, d', s')) (f a c (d, s)))"

definition filter_env :: "(MemReq \<Rightarrow> 's \<Rightarrow> (cycle \<times> 's) option) \<Rightarrow> (nat \<Rightarrow> 's \<Rightarrow> 's option) \<Rightarrow> ftm_env \<Rightarrow> 's l1 OOOEnv \<Rightarrow> 's l1 OOOEnv" where
  "filter_env acc refresh ze z = z\<lparr>l1d_load := l1d_access (fc_load acc ze), l1d_store := l1d_access (fc_store acc ze), l1i_load := l1i_access (fc_load acc ze),
     l1_contextSwitch := (\<lambda>(i, d, s). (fc_contextSwitch i, fc_contextSwitch d, s)),
     llc_processRefresh := (\<lambda>k (i, d, s). map_option (\<lambda>s'. (i, d, s')) (refresh k s)), rec_record := (\<lambda>c d q m. Some m)\<rparr>"

text \<open>A hierarchy that answers every request of a filter cache, and an address translation that succeeds.\<close>

locale filter_memory =
  fixes acc :: "MemReq \<Rightarrow> 's \<Rightarrow> (cycle \<times> 's) option" and refresh :: "nat \<Rightarrow> 's \<Rightarrow> 's option" and ze :: ftm_env and ok :: "'s \<Rightarrow> bool" and b :: nat
  assumes acc_answers: "ok s \<Longrightarrow> \<exists>resp s'. acc req s = Some (resp, s') \<and> r_cycle req \<le> resp \<and> resp \<le> r_cycle req + b \<and> ok s'"
    and refresh_ok: "ok s \<Longrightarrow> \<exists>s'. refresh k s = Some s' \<and> ok s'"
    and translates: "\<exists>x. fc_translate ze v f = Some x"
begin

lemma replace_answers:
  assumes "ok s"
  shows "\<exists>resp f' s'. fc_replace acc ze v idx isLoad c (f, s) = Some (resp, f', s') \<and> c \<le> resp \<and> resp \<le> c + b \<and> ok s'"
proof -
  obtain p perm rt f1 where t: "fc_translate ze v f = Some (p, perm, rt, f1)" using translates [of v f] by auto
  obtain fl f2 where fl: "fc_flags ze perm rt f1 = (fl, f2)" by (cases "fc_flags ze perm rt f1")
  let ?q = "\<lparr>r_lineAddr = p, r_type = (if isLoad then GETS else GETX), r_childId = 0, r_state = LocalCell 0,
    r_cycle = c, r_initialState = I, r_srcId = fc_srcId f2, r_flags = fl\<rparr>"
  from acc_answers [OF assms, of ?q] obtain resp s' where "acc ?q s = Some (resp, s')" "c \<le> resp" "resp \<le> c + b" "ok s'" by auto
  with t fl show ?thesis by (simp add: fc_replace_def Let_def)
qed

end

sublocale filter_memory \<subseteq> core: core_memory "filter_env acc refresh ze z" "\<lambda>(i, d, s). ok s" b for z
proof (unfold_locales, goal_cases)
  case (1 m a c)
  then obtain i d s where m: "m = (i, d, s)" "ok s" by (cases m) auto
  from replace_answers [OF m(2), of "drop_bit (lineBits ze) a" "fc_index (drop_bit (lineBits ze) a) d" True c d] m(1) show ?case
    by (auto simp: filter_env_def l1d_access_def fc_load_def Let_def)
next
  case (2 m a c)
  then obtain i d s where m: "m = (i, d, s)" "ok s" by (cases m) auto
  from replace_answers [OF m(2), of "drop_bit (lineBits ze) a" "fc_index (drop_bit (lineBits ze) a) d" False c d] m(1) show ?case
    by (auto simp: filter_env_def l1d_access_def fc_store_def Let_def)
next
  case (3 m a c)
  then obtain i d s where m: "m = (i, d, s)" "ok s" by (cases m) auto
  from replace_answers [OF m(2), of "drop_bit (lineBits ze) a" "fc_index (drop_bit (lineBits ze) a) i" True c i] m(1) show ?case
    by (auto simp: filter_env_def l1i_access_def fc_load_def Let_def)
next
  case (4 m c d q)
  then show ?case by (simp add: filter_env_def)
next
  case (5 m k)
  then obtain i d s where m: "m = (i, d, s)" "ok s" by (cases m) auto
  with refresh_ok [OF m(2), of k] show ?case by (auto simp: filter_env_def)
qed

section \<open>A core over the memory of fixed latency\<close>

definition simple_acc :: "nat \<Rightarrow> MemReq \<Rightarrow> unit \<Rightarrow> (cycle \<times> unit) option" where
  "simple_acc latency req s = map_option (\<lambda>(resp, st). (resp, ())) (SimpleMemory_access latency req)"

lemma unshared_translates: "\<exists>x. fc_translate (ze\<lparr>noSharing := True\<rparr>) v f = Some x"
  by (simp add: fc_translate_def Let_def)

interpretation simple: filter_memory "simple_acc (Suc n)" "\<lambda>k s. Some s" "ze\<lparr>noSharing := True\<rparr>" "\<lambda>s. True" "Suc n"
  by unfold_locales (simp add: simple_acc_def SimpleMemory_access_def, simp, rule unshared_translates)



end
