(* ===== verification/InOrderCores.thy ===== *)
theory InOrderCores
  imports CoreRecorder WeaveMem OOOFilter
begin

text \<open>
  The in-order cores: the null core (\<^verbatim>\<open>src/src/null_core.cpp\<close>), the simple core (\<^verbatim>\<open>simple_core.cpp\<close>) and the timing core (\<^verbatim>\<open>timing_core.cpp\<close>), which records
  its accesses. Their caches are the functions of \<open>OOOEnv\<close>; those of the timing core also act on the event recorder of the core, where the caches
  leave the record of an access. \<open>barrier\<close> is \<^verbatim>\<open>TakeBarrier\<close>, with the start of the phase as part of its state.
\<close>

section \<open>Null core\<close>

record NullCore =
  nc_instrs :: nat
  nc_curCycle :: cycle
  nc_phaseEndCycle :: cycle

definition NullCore_new :: NullCore where
  "NullCore_new = \<lparr>nc_instrs = 0, nc_curCycle = 0, nc_phaseEndCycle = 0\<rparr>"

definition nc_getPhaseCycles :: "cycle \<Rightarrow> NullCore \<Rightarrow> cycle" where
  "nc_getPhaseCycles glob c = nc_curCycle c - glob"

definition nc_bbl :: "BblInfo \<Rightarrow> NullCore \<Rightarrow> NullCore" where
  "nc_bbl b c = c\<lparr>nc_instrs := nc_instrs c + bi_instrs b, nc_curCycle := nc_curCycle c + bi_instrs b\<rparr>"

definition nc_join :: "cycle \<Rightarrow> cycle \<Rightarrow> NullCore \<Rightarrow> NullCore" where
  "nc_join glob len c = c\<lparr>nc_curCycle := max (nc_curCycle c) glob, nc_phaseEndCycle := glob + len\<rparr>"

text \<open>The loop at the end of a block: the state is the core, the start of the phase and the rest.\<close>

partial_function (option) nc_phases :: "cycle \<Rightarrow> (NullCore \<times> cycle \<times> 'w \<Rightarrow> (bool \<times> NullCore \<times> cycle \<times> 'w) option) \<Rightarrow> NullCore \<times> cycle \<times> 'w
    \<Rightarrow> (NullCore \<times> cycle \<times> 'w) option" where
  "nc_phases len barrier s = (if nc_curCycle (fst s) > nc_phaseEndCycle (fst s)
     then do {
       assert_that (nc_phaseEndCycle (fst s) = fst (snd s) + len);
       (same, s') \<leftarrow> barrier ((fst s)\<lparr>nc_phaseEndCycle := nc_phaseEndCycle (fst s) + len\<rparr>, snd s);
       if same then nc_phases len barrier s' else Some s' }
     else Some s)"

definition nc_BblFunc :: "cycle \<Rightarrow> (NullCore \<times> cycle \<times> 'w \<Rightarrow> (bool \<times> NullCore \<times> cycle \<times> 'w) option) \<Rightarrow> BblInfo \<Rightarrow> NullCore \<times> cycle \<times> 'w
    \<Rightarrow> (NullCore \<times> cycle \<times> 'w) option" where
  "nc_BblFunc len barrier b s = nc_phases len barrier (nc_bbl b (fst s), snd s)"

section \<open>Simple core\<close>

record SimpleCore =
  sc_instrs :: nat
  sc_curCycle :: cycle
  sc_phaseEndCycle :: cycle
  sc_haltedCycles :: cycle

definition SimpleCore_new :: "cycle \<Rightarrow> SimpleCore" where
  "SimpleCore_new junk = \<lparr>sc_instrs = 0, sc_curCycle = 0, sc_phaseEndCycle = junk, sc_haltedCycles = 0\<rparr>"

definition sc_getPhaseCycles :: "'m OOOEnv \<Rightarrow> SimpleCore \<Rightarrow> cycle" where
  "sc_getPhaseCycles z c = sc_curCycle c mod z_phaseLength z"

definition sc_cycles :: "SimpleCore \<Rightarrow> cycle option" where
  "sc_cycles c = do { assert_that (sc_curCycle c \<ge> sc_haltedCycles c); Some (sc_curCycle c - sc_haltedCycles c) }"

definition sc_load :: "'m OOOEnv \<Rightarrow> addr \<Rightarrow> SimpleCore \<times> 'm \<Rightarrow> (SimpleCore \<times> 'm) option" where
  "sc_load z a = (\<lambda>(c, m). do { (resp, m') \<leftarrow> l1d_load z a (sc_curCycle c) m; Some (c\<lparr>sc_curCycle := resp\<rparr>, m') })"

definition sc_store :: "'m OOOEnv \<Rightarrow> addr \<Rightarrow> SimpleCore \<times> 'm \<Rightarrow> (SimpleCore \<times> 'm) option" where
  "sc_store z a = (\<lambda>(c, m). do { (resp, m') \<leftarrow> l1d_store z a (sc_curCycle c) m; Some (c\<lparr>sc_curCycle := resp\<rparr>, m') })"

partial_function (option) sc_fetch :: "'m OOOEnv \<Rightarrow> addr \<Rightarrow> addr \<Rightarrow> SimpleCore \<times> 'm \<Rightarrow> (SimpleCore \<times> 'm) option" where
  "sc_fetch z fetchAddr endBblAddr cm = (if fetchAddr < endBblAddr
     then do {
       (resp, m') \<leftarrow> l1i_load z fetchAddr (sc_curCycle (fst cm)) (snd cm);
       sc_fetch z (fetchAddr + of_nat (lineSize z)) endBblAddr ((fst cm)\<lparr>sc_curCycle := resp\<rparr>, m') }
     else Some cm)"

definition sc_bbl :: "'m OOOEnv \<Rightarrow> addr \<Rightarrow> BblInfo \<Rightarrow> SimpleCore \<times> 'm \<Rightarrow> (SimpleCore \<times> 'm) option" where
  "sc_bbl z bblAddr b = (\<lambda>(c, m). sc_fetch z bblAddr (bblAddr + ucast (bi_bytes b))
     (c\<lparr>sc_instrs := sc_instrs c + bi_instrs b, sc_curCycle := sc_curCycle c + bi_instrs b\<rparr>, m))"

definition sc_contextSwitch :: "'m OOOEnv \<Rightarrow> int \<Rightarrow> SimpleCore \<times> 'm \<Rightarrow> SimpleCore \<times> 'm" where
  "sc_contextSwitch z gid cm = (if gid = - 1 then (fst cm, l1_contextSwitch z (snd cm)) else cm)"

definition sc_join :: "'m OOOEnv \<Rightarrow> cycle \<Rightarrow> SimpleCore \<Rightarrow> SimpleCore" where
  "sc_join z glob c = (let c1 = (if sc_curCycle c < glob
       then c\<lparr>sc_haltedCycles := sc_haltedCycles c + (glob - sc_curCycle c), sc_curCycle := glob\<rparr> else c)
     in c1\<lparr>sc_phaseEndCycle := glob + z_phaseLength z\<rparr>)"

definition sc_PredLoad :: "'m OOOEnv \<Rightarrow> addr \<Rightarrow> bool \<Rightarrow> SimpleCore \<times> 'm \<Rightarrow> (SimpleCore \<times> 'm) option" where
  "sc_PredLoad z a pred cm = (if pred then sc_load z a cm else Some cm)"

definition sc_PredStore :: "'m OOOEnv \<Rightarrow> addr \<Rightarrow> bool \<Rightarrow> SimpleCore \<times> 'm \<Rightarrow> (SimpleCore \<times> 'm) option" where
  "sc_PredStore z a pred cm = (if pred then sc_store z a cm else Some cm)"

partial_function (option) sc_phases :: "'m OOOEnv \<Rightarrow> (SimpleCore \<times> cycle \<times> 'm \<Rightarrow> (bool \<times> SimpleCore \<times> cycle \<times> 'm) option) \<Rightarrow> SimpleCore \<times> cycle \<times> 'm
    \<Rightarrow> (SimpleCore \<times> cycle \<times> 'm) option" where
  "sc_phases z barrier s = (if sc_curCycle (fst s) > sc_phaseEndCycle (fst s)
     then do {
       assert_that (sc_phaseEndCycle (fst s) = fst (snd s) + z_phaseLength z);
       (same, s') \<leftarrow> barrier ((fst s)\<lparr>sc_phaseEndCycle := sc_phaseEndCycle (fst s) + z_phaseLength z\<rparr>, snd s);
       if same then sc_phases z barrier s' else Some s' }
     else Some s)"

definition sc_BblFunc :: "'m OOOEnv \<Rightarrow> (SimpleCore \<times> cycle \<times> 'm \<Rightarrow> (bool \<times> SimpleCore \<times> cycle \<times> 'm) option) \<Rightarrow> addr \<Rightarrow> BblInfo
    \<Rightarrow> SimpleCore \<times> cycle \<times> 'm \<Rightarrow> (SimpleCore \<times> cycle \<times> 'm) option" where
  "sc_BblFunc z barrier bblAddr b = (\<lambda>(c, glob, m). do { (c', m') \<leftarrow> sc_bbl z bblAddr b (c, m); sc_phases z barrier (c', glob, m') })"

section \<open>Timing core\<close>

record TimingCore =
  tc_instrs :: nat
  tc_curCycle :: cycle
  tc_phaseEndCycle :: cycle
  tc_rec :: CoreRecorder

definition TimingCore_new :: "int \<Rightarrow> CoreRecorder \<Rightarrow> cycle \<Rightarrow> TimingCore" where
  "TimingCore_new dmn r junk = \<lparr>tc_instrs = 0, tc_curCycle = 0, tc_phaseEndCycle = junk, tc_rec = CoreRecorder_new dmn r\<rparr>"

text \<open>An access and its record. The core, the commands of its recorder so far and the memory are the state.\<close>

type_synonym 'm tcs = "TimingCore \<times> ev_cmd list \<times> 'm"

definition tc_access :: "(cycle \<Rightarrow> EventRecorder \<times> 'm \<Rightarrow> (cycle \<times> EventRecorder \<times> 'm) option) \<Rightarrow> 'm tcs \<Rightarrow> 'm tcs option" where
  "tc_access f = (\<lambda>(c, cs, m). do {
     let startCycle = tc_curCycle c;
     (resp, er, m') \<leftarrow> f startCycle (eventRecorder (tc_rec c), m);
     (r, cs') \<leftarrow> cr_record startCycle ((tc_rec c)\<lparr>eventRecorder := er\<rparr>);
     Some (c\<lparr>tc_curCycle := resp, tc_rec := r\<rparr>, cs @ cs', m') })"

definition loadAndRecord :: "(EventRecorder \<times> 'm) OOOEnv \<Rightarrow> addr \<Rightarrow> 'm tcs \<Rightarrow> 'm tcs option" where
  "loadAndRecord z a = tc_access (l1d_load z a)"

definition storeAndRecord :: "(EventRecorder \<times> 'm) OOOEnv \<Rightarrow> addr \<Rightarrow> 'm tcs \<Rightarrow> 'm tcs option" where
  "storeAndRecord z a = tc_access (l1d_store z a)"

partial_function (option) tc_fetch :: "(EventRecorder \<times> 'm) OOOEnv \<Rightarrow> addr \<Rightarrow> addr \<Rightarrow> 'm tcs \<Rightarrow> 'm tcs option" where
  "tc_fetch z fetchAddr endBblAddr s = (if fetchAddr < endBblAddr
     then do { s' \<leftarrow> tc_access (l1i_load z fetchAddr) s; tc_fetch z (fetchAddr + of_nat (lineSize z)) endBblAddr s' }
     else Some s)"

definition bblAndRecord :: "(EventRecorder \<times> 'm) OOOEnv \<Rightarrow> addr \<Rightarrow> BblInfo \<Rightarrow> 'm tcs \<Rightarrow> 'm tcs option" where
  "bblAndRecord z bblAddr b = (\<lambda>(c, cs, m). tc_fetch z bblAddr (bblAddr + ucast (bi_bytes b))
     (c\<lparr>tc_instrs := tc_instrs c + bi_instrs b, tc_curCycle := tc_curCycle c + bi_instrs b\<rparr>, cs, m))"

definition tc_join :: "cycle \<Rightarrow> cycle \<Rightarrow> TimingCore \<Rightarrow> (TimingCore \<times> ev_cmd list) option" where
  "tc_join glob len c = do {
     (cur, r, cs) \<leftarrow> notifyJoin glob (tc_curCycle c) (tc_rec c);
     Some (c\<lparr>tc_curCycle := cur, tc_rec := r, tc_phaseEndCycle := glob + len\<rparr>, cs) }"

definition tc_leave :: "TimingCore \<Rightarrow> (TimingCore \<times> ev_cmd list) option" where
  "tc_leave c = do { (r, cs) \<leftarrow> notifyLeave (tc_curCycle c) (tc_rec c); Some (c\<lparr>tc_rec := r\<rparr>, cs) }"

definition tc_cSimStart :: "cycle \<Rightarrow> cycle \<Rightarrow> TimingCore \<Rightarrow> (TimingCore \<times> ev_cmd list) option" where
  "tc_cSimStart glob len c = do { (cur, r, cs) \<leftarrow> cr_cSimStart glob len (tc_curCycle c) (tc_rec c); Some (c\<lparr>tc_curCycle := cur, tc_rec := r\<rparr>, cs) }"

definition tc_cSimEnd :: "TimingCore \<Rightarrow> TimingCore option" where
  "tc_cSimEnd c = do { (cur, r) \<leftarrow> cr_cSimEnd (tc_curCycle c) (tc_rec c); Some (c\<lparr>tc_curCycle := cur, tc_rec := r\<rparr>) }"

definition tc_contextSwitch :: "(EventRecorder \<times> 'm) OOOEnv \<Rightarrow> int \<Rightarrow> TimingCore \<times> 'm \<Rightarrow> TimingCore \<times> 'm" where
  "tc_contextSwitch z gid cm = (if gid = - 1
     then (case l1_contextSwitch z (eventRecorder (tc_rec (fst cm)), snd cm) of (er, m) \<Rightarrow> ((fst cm)\<lparr>tc_rec := (tc_rec (fst cm))\<lparr>eventRecorder := er\<rparr>\<rparr>, m))
     else cm)"

definition tc_getPhaseCycles :: "cycle \<Rightarrow> TimingCore \<Rightarrow> cycle" where
  "tc_getPhaseCycles len c = tc_curCycle c mod len"

definition tc_PredLoad :: "(EventRecorder \<times> 'm) OOOEnv \<Rightarrow> addr \<Rightarrow> bool \<Rightarrow> 'm tcs \<Rightarrow> 'm tcs option" where
  "tc_PredLoad z a pred s = (if pred then loadAndRecord z a s else Some s)"

definition tc_PredStore :: "(EventRecorder \<times> 'm) OOOEnv \<Rightarrow> addr \<Rightarrow> bool \<Rightarrow> 'm tcs \<Rightarrow> 'm tcs option" where
  "tc_PredStore z a pred s = (if pred then storeAndRecord z a s else Some s)"

partial_function (option) tc_phases :: "cycle \<Rightarrow> ('m tcs \<Rightarrow> (bool \<times> 'm tcs) option) \<Rightarrow> 'm tcs \<Rightarrow> 'm tcs option" where
  "tc_phases len barrier s = (if tc_curCycle (fst s) > tc_phaseEndCycle (fst s)
     then do {
       (same, s') \<leftarrow> barrier ((fst s)\<lparr>tc_phaseEndCycle := tc_phaseEndCycle (fst s) + len\<rparr>, snd s);
       if same then tc_phases len barrier s' else Some s' }
     else Some s)"

definition BblAndRecordFunc :: "(EventRecorder \<times> 'm) OOOEnv \<Rightarrow> ('m tcs \<Rightarrow> (bool \<times> 'm tcs) option) \<Rightarrow> addr \<Rightarrow> BblInfo \<Rightarrow> 'm tcs \<Rightarrow> 'm tcs option" where
  "BblAndRecordFunc z barrier bblAddr b s = do { s' \<leftarrow> bblAndRecord z bblAddr b s; tc_phases (z_phaseLength z) barrier s' }"

end
