(* ===== verification/InOrderRun.thy ===== *)
theory InOrderRun
  imports InOrderCores
begin

text \<open>
  The in-order cores run on their caches: the simple core over filter caches and the memory of fixed latency, the timing core over filter caches and
  the weave-phase memory, whose records it gives to its recorder. The two contracts are those of the memory of a core without records
  (\<open>core_memory\<close>) and of the memory of a recording core (\<open>timing_memory\<close>).
\<close>

section \<open>Simple core\<close>

text \<open>What a thread, the scheduler and the barrier do to a simple core, in some order.\<close>

datatype sc_op = ScLoad addr | ScStore addr | ScPredLoad addr bool | ScPredStore addr bool | ScBbl addr BblInfo | ScJoin cycle | ScSwitch int

fun sc_do :: "'m OOOEnv \<Rightarrow> sc_op \<Rightarrow> SimpleCore \<times> 'm \<Rightarrow> (SimpleCore \<times> 'm) option" where
  "sc_do z (ScLoad a) s = sc_load z a s"
| "sc_do z (ScStore a) s = sc_store z a s"
| "sc_do z (ScPredLoad a p) s = sc_PredLoad z a p s"
| "sc_do z (ScPredStore a p) s = sc_PredStore z a p s"
| "sc_do z (ScBbl a b) s = sc_bbl z a b s"
| "sc_do z (ScJoin glob) s = Some (sc_join z glob (fst s), snd s)"
| "sc_do z (ScSwitch gid) s = Some (sc_contextSwitch z gid s)"

fun sc_run :: "'m OOOEnv \<Rightarrow> sc_op list \<Rightarrow> SimpleCore \<times> 'm \<Rightarrow> (SimpleCore \<times> 'm) option" where
  "sc_run z [] s = Some s"
| "sc_run z (x # xs) s = do { s' \<leftarrow> sc_do z x s; sc_run z xs s' }"

fun op_instrs :: "sc_op \<Rightarrow> nat" where
  "op_instrs (ScBbl a b) = bi_instrs b"
| "op_instrs x = 0"

fun op_fits :: "'m OOOEnv \<Rightarrow> sc_op \<Rightarrow> bool" where
  "op_fits z (ScBbl a b) = (unat a + unat (bi_bytes b) + lineSize z \<le> 2 ^ 64)"
| "op_fits z x = True"

text \<open>The cycles of a core are those it was not halted in, and at least one for every instruction.\<close>

definition sc_inv :: "SimpleCore \<Rightarrow> bool" where
  "sc_inv c \<longleftrightarrow> sc_haltedCycles c + sc_instrs c \<le> sc_curCycle c"

text \<open>A memory that survives a context switch.\<close>

locale switching_memory = core_memory +
  assumes switch_good: "good m \<Longrightarrow> good (l1_contextSwitch z m)"
begin

lemma sc_fetch_ok:
  assumes "good m" "z_lineBits z < 32" "unat e + lineSize z \<le> 2 ^ 64" "unat e \<le> unat a + n"
  shows "\<exists>cur m'. sc_fetch z a e (c, m) = Some (c\<lparr>sc_curCycle := cur\<rparr>, m') \<and> sc_curCycle c \<le> cur \<and> good m'"
  using assms
proof (induction n arbitrary: a c m)
  case 0
  then have "\<not> a < e" by (simp add: word_less_nat_alt)
  with 0 show ?case by (intro exI [of _ "sc_curCycle c"]) (simp add: sc_fetch.simps)
next
  case (Suc n)
  show ?case
  proof (cases "a < e")
    case False
    with Suc.prems(1) show ?thesis by (intro exI [of _ "sc_curCycle c"]) (simp add: sc_fetch.simps)
  next
    case True
    have le: "unat e \<le> unat (a + of_nat (lineSize z)) + n" using next_line [OF True Suc.prems(2,3)] Suc.prems(4) by linarith
    from fetch_answers [OF Suc.prems(1), of a "sc_curCycle c"] obtain resp m1 where
      m1: "l1i_load z a (sc_curCycle c) m = Some (resp, m1)" "sc_curCycle c \<le> resp" "good m1" by blast
    from Suc.IH [OF m1(3) Suc.prems(2,3) le, of "c\<lparr>sc_curCycle := resp\<rparr>"] obtain cur m' where
      "sc_fetch z (a + of_nat (lineSize z)) e (c\<lparr>sc_curCycle := resp\<rparr>, m1) = Some (c\<lparr>sc_curCycle := cur\<rparr>, m')" "resp \<le> cur" "good m'" by auto
    with True m1 show ?thesis by (intro exI [of _ cur] exI [of _ m']) (simp add: sc_fetch.simps [of z a])
  qed
qed

lemma sc_bbl_ok:
  assumes "good m" "z_lineBits z < 32" "unat a + unat (bi_bytes bi) + lineSize z \<le> 2 ^ 64"
  shows "\<exists>cur m'. sc_bbl z a bi (c, m) = Some (c\<lparr>sc_instrs := sc_instrs c + bi_instrs bi, sc_curCycle := cur\<rparr>, m')
    \<and> sc_curCycle c + bi_instrs bi \<le> cur \<and> good m'"
proof -
  let ?c = "c\<lparr>sc_instrs := sc_instrs c + bi_instrs bi, sc_curCycle := sc_curCycle c + bi_instrs bi\<rparr>"
  have "unat (a + ucast (bi_bytes bi)) + lineSize z \<le> 2 ^ 64" "unat (a + ucast (bi_bytes bi)) \<le> unat a + unat (bi_bytes bi)"
    using assms(3) by (simp_all add: block_end [OF assms(3)])
  from sc_fetch_ok [OF assms(1,2) this, of ?c] show ?thesis by (simp add: sc_bbl_def)
qed

lemma sc_do_ok:
  assumes "good m" "z_lineBits z < 32" "op_fits z x" "sc_inv c"
  shows "\<exists>c' m'. sc_do z x (c, m) = Some (c', m') \<and> good m' \<and> sc_inv c' \<and> sc_instrs c' = sc_instrs c + op_instrs x
    \<and> sc_curCycle c - sc_haltedCycles c \<le> sc_curCycle c' - sc_haltedCycles c'"
proof -
  have ld: "\<exists>resp m'. sc_load z a (c, m) = Some (c\<lparr>sc_curCycle := resp\<rparr>, m') \<and> sc_curCycle c \<le> resp \<and> good m'" for a
    using load_answers [OF assms(1), of a "sc_curCycle c"] by (auto simp: sc_load_def)
  have st: "\<exists>resp m'. sc_store z a (c, m) = Some (c\<lparr>sc_curCycle := resp\<rparr>, m') \<and> sc_curCycle c \<le> resp \<and> good m'" for a
    using store_answers [OF assms(1), of a "sc_curCycle c"] by (auto simp: sc_store_def)
  show ?thesis
  proof (cases x)
    case (ScLoad a)
    with ld [of a] assms(4) show ?thesis by (auto simp: sc_inv_def)
  next
    case (ScStore a)
    with st [of a] assms(4) show ?thesis by (auto simp: sc_inv_def)
  next
    case (ScPredLoad a p)
    with ld [of a] assms show ?thesis by (auto simp: sc_inv_def sc_PredLoad_def)
  next
    case (ScPredStore a p)
    with st [of a] assms show ?thesis by (auto simp: sc_inv_def sc_PredStore_def)
  next
    case (ScBbl a bi)
    with sc_bbl_ok [OF assms(1,2), of a bi c] assms(3,4) show ?thesis by (auto simp: sc_inv_def)
  next
    case (ScJoin glob)
    with assms show ?thesis by (auto simp: sc_inv_def sc_join_def Let_def)
  next
    case (ScSwitch gid)
    with assms switch_good show ?thesis by (simp add: sc_contextSwitch_def)
  qed
qed

lemma sc_run_ok:
  assumes "good m" "z_lineBits z < 32" "\<forall>x \<in> set xs. op_fits z x" "sc_inv c"
  shows "\<exists>c' m'. sc_run z xs (c, m) = Some (c', m') \<and> good m' \<and> sc_inv c' \<and> sc_instrs c' = sc_instrs c + sum_list (map op_instrs xs)
    \<and> sc_curCycle c - sc_haltedCycles c \<le> sc_curCycle c' - sc_haltedCycles c'"
  using assms
proof (induction xs arbitrary: c m)
  case (Cons x xs)
  from Cons.prems have fit: "op_fits z x" "\<forall>x \<in> set xs. op_fits z x" by simp_all
  from sc_do_ok [OF Cons.prems(1,2) fit(1) Cons.prems(4)] obtain c1 m1 where
    c1: "sc_do z x (c, m) = Some (c1, m1)" "good m1" "sc_inv c1" "sc_instrs c1 = sc_instrs c + op_instrs x"
      "sc_curCycle c - sc_haltedCycles c \<le> sc_curCycle c1 - sc_haltedCycles c1" by blast
  from Cons.IH [OF c1(2) Cons.prems(2) fit(2) c1(3)] c1 show ?case by auto
qed simp

end

text \<open>Over filter caches and the memory of fixed latency.\<close>

interpretation sfl: switching_memory "filter_env (simple_acc (Suc n)) (\<lambda>k s. Some s) (ze\<lparr>noSharing := True\<rparr>) z" "\<lambda>(i, d, s). True" "Suc n" for n ze z
  by (intro switching_memory.intro simple.core.core_memory_axioms switching_memory_axioms.intro) (auto simp: filter_env_def split: prod.splits)

abbreviation simple_env :: "nat \<Rightarrow> ftm_env \<Rightarrow> unit l1 OOOEnv \<Rightarrow> unit l1 OOOEnv" where
  "simple_env n ze z \<equiv> filter_env (simple_acc (Suc n)) (\<lambda>k s. Some s) (ze\<lparr>noSharing := True\<rparr>) z"

lemma simple_env_lines [simp]: "z_lineBits (simple_env n ze z) = z_lineBits z" "z_phaseLength (simple_env n ze z) = z_phaseLength z"
  by (simp_all add: filter_env_def)



section \<open>The phase loop\<close>

text \<open>A barrier that gives the core back unchanged at the start of the next phase, or takes it away.\<close>

definition fair_barrier :: "cycle \<Rightarrow> ('c \<times> cycle \<times> 'm \<Rightarrow> (bool \<times> 'c \<times> cycle \<times> 'm) option) \<Rightarrow> bool" where
  "fair_barrier len barrier \<longleftrightarrow> (\<forall>c glob m. (\<exists>m'. barrier (c, glob, m) = Some (True, c, glob + len, m')) \<or> (\<exists>s'. barrier (c, glob, m) = Some (False, s')))"

lemma sc_phases_end:
  assumes "fair_barrier len barrier" "0 < len" "z_phaseLength z = len" "sc_phaseEndCycle c = glob + len" "sc_curCycle c \<le> sc_phaseEndCycle c + n"
  shows "\<exists>s'. sc_phases z barrier (c, glob, m) = Some s' \<and> ((\<exists>s. barrier s = Some (False, s'))
    \<or> (\<exists>k m'. s' = (c\<lparr>sc_phaseEndCycle := glob + len + k * len\<rparr>, glob + k * len, m') \<and> sc_curCycle c \<le> glob + len + k * len))"
  using assms(4,5)
proof (induction n arbitrary: c glob m rule: less_induct)
  case (less n)
  show ?case
  proof (cases "sc_curCycle c > sc_phaseEndCycle c")
    case False
    then show ?thesis using less.prems by (intro exI [of _ "(c, glob, m)"] conjI disjI2 exI [of _ 0] exI [of _ m]) (simp_all add: sc_phases.simps)
  next
    case True
    let ?c = "c\<lparr>sc_phaseEndCycle := sc_phaseEndCycle c + len\<rparr>"
    note unfold = sc_phases.simps [of z barrier "(c, glob, m)"]
    show ?thesis
    proof (cases "\<exists>m'. barrier (?c, glob, m) = Some (True, ?c, glob + len, m')")
      case same: True
      then obtain m' where m': "barrier (?c, glob, m) = Some (True, ?c, glob + len, m')" by blast
      have n: "n - len < n" using True less.prems assms(2) by linarith
      have "sc_phaseEndCycle ?c = glob + len + len" "sc_curCycle ?c \<le> sc_phaseEndCycle ?c + (n - len)" using less.prems by simp_all
      from less.IH [OF n this, of m'] obtain s' where
        s': "sc_phases z barrier (?c, glob + len, m') = Some s'" "(\<exists>s. barrier s = Some (False, s'))
          \<or> (\<exists>k m''. s' = (?c\<lparr>sc_phaseEndCycle := glob + len + len + k * len\<rparr>, glob + len + k * len, m'') \<and> sc_curCycle ?c \<le> glob + len + len + k * len)" by blast
      from True m' s'(1) less.prems(1) assms(3) have r: "sc_phases z barrier (c, glob, m) = Some s'" using unfold by simp
      from s'(2) show ?thesis
      proof
        assume "\<exists>s. barrier s = Some (False, s')"
        with r show ?thesis by blast
      next
        assume "\<exists>k m''. s' = (?c\<lparr>sc_phaseEndCycle := glob + len + len + k * len\<rparr>, glob + len + k * len, m'') \<and> sc_curCycle ?c \<le> glob + len + len + k * len"
        then obtain k m'' where "s' = (?c\<lparr>sc_phaseEndCycle := glob + len + len + k * len\<rparr>, glob + len + k * len, m'')" "sc_curCycle c \<le> glob + len + len + k * len" by auto
        then show ?thesis using r by (intro exI [of _ s'] conjI disjI2 exI [of _ "Suc k"] exI [of _ m'']) (simp_all add: algebra_simps)
      qed
    next
      case False
      with assms(1) obtain s' where "barrier (?c, glob, m) = Some (False, s')" unfolding fair_barrier_def by blast
      with True less.prems(1) assms(3) show ?thesis using unfold by auto
    qed
  qed
qed

text \<open>The trampoline of a block of a simple core returns. With the end of the phase in step with the barrier, and a barrier that takes the core away or
  gives it back at the start of the next phase, the loop ends, its assertion holds every time, and unless the core is taken away its clock is not
  past the end of the phase, which is again in step with the barrier.\<close>

lemma simple_block_reaches_phase:
  assumes "z_lineBits z < 32" "unat a + unat (bi_bytes bi) + lineSize z \<le> 2 ^ 64"
    and "fair_barrier (z_phaseLength z) barrier" "0 < z_phaseLength z" "sc_phaseEndCycle c = glob + z_phaseLength z"
  shows "\<exists>c' glob' m'. sc_BblFunc (simple_env n ze z) barrier a bi (c, glob, m) = Some (c', glob', m')
    \<and> ((\<exists>s. barrier s = Some (False, c', glob', m'))
       \<or> sc_phaseEndCycle c' = glob' + z_phaseLength z \<and> sc_curCycle c + bi_instrs bi \<le> sc_curCycle c' \<and> sc_curCycle c' \<le> sc_phaseEndCycle c'
         \<and> sc_instrs c' = sc_instrs c + bi_instrs bi)"
proof -
  let ?z = "simple_env n ze z"
  from assms(2) have "unat a + unat (bi_bytes bi) + lineSize ?z \<le> 2 ^ 64" by (simp add: lineSize_def)
  from sfl.sc_bbl_ok [where n = n and ze = ze and z = z and m = m and c = c, OF _ _ this] assms(1) obtain cur m1 where
    b: "sc_bbl ?z a bi (c, m) = Some (c\<lparr>sc_instrs := sc_instrs c + bi_instrs bi, sc_curCycle := cur\<rparr>, m1)" "sc_curCycle c + bi_instrs bi \<le> cur"
    by (auto simp: filter_env_def)
  let ?c = "c\<lparr>sc_instrs := sc_instrs c + bi_instrs bi, sc_curCycle := cur\<rparr>"
  have "sc_phaseEndCycle ?c = glob + z_phaseLength z" "z_phaseLength ?z = z_phaseLength z" "sc_curCycle ?c \<le> sc_phaseEndCycle ?c + cur"
    using assms(5) by simp_all
  from sc_phases_end [OF assms(3,4) this(2,1,3)] obtain s' where
    s': "sc_phases ?z barrier (?c, glob, m1) = Some s'" "(\<exists>s. barrier s = Some (False, s'))
      \<or> (\<exists>k m'. s' = (?c\<lparr>sc_phaseEndCycle := glob + z_phaseLength z + k * z_phaseLength z\<rparr>, glob + k * z_phaseLength z, m')
          \<and> sc_curCycle ?c \<le> glob + z_phaseLength z + k * z_phaseLength z)" by blast
  have r: "sc_BblFunc ?z barrier a bi (c, glob, m) = Some s'" using b(1) s'(1) by (simp add: sc_BblFunc_def)
  obtain c' glob' m' where e: "s' = (c', glob', m')" by (cases s')
  from s'(2) b(2) show ?thesis unfolding r e by auto
qed

section \<open>Timing core\<close>

text \<open>A recorder system as the core and its commands see it, and a core that is ready for an access: it is running, in a reachable state of its recorder,
  and no record is pending.\<close>

definition tc_after :: "RecSys \<Rightarrow> TimingCore \<Rightarrow> ev_cmd list \<Rightarrow> RecSys" where
  "tc_after y c cs = y\<lparr>sy_rec := tc_rec c, sy_cur := tc_curCycle c, sy_pend := sy_pend y @ core_events cs\<rparr>"

definition tc_ready :: "cycle \<Rightarrow> RecSys \<Rightarrow> TimingCore \<Rightarrow> bool" where
  "tc_ready len y c \<longleftrightarrow> rec_reachable len y \<and> sy_rec y = tc_rec c \<and> sy_cur y = tc_curCycle c \<and> rec_state (tc_rec c) = REC_RUNNING
     \<and> \<not> hasRecord (eventRecorder (tc_rec c))"

lemma tc_after_after [simp]: "tc_after (tc_after y c cs) c' cs' = tc_after y c' (cs @ cs')"
  by (simp add: tc_after_def)

lemma tc_after_fields [simp]: "sy_rec (tc_after y c cs) = tc_rec c" "sy_cur (tc_after y c cs) = tc_curCycle c"
  by (simp_all add: tc_after_def)

lemma tc_after_none:
  "sy_rec y = tc_rec c \<Longrightarrow> tc_after y c [] = y\<lparr>sy_cur := tc_curCycle c\<rparr>" "tc_ready len y c \<Longrightarrow> tc_after y c [] = y"
  by (cases y; simp add: tc_after_def tc_ready_def)+

text \<open>An answer of the memory to an access at cycle \<open>c\<close>: time does not go back, and a record that was left lies within the access.\<close>

definition answers :: "('m \<Rightarrow> bool) \<Rightarrow> cycle \<Rightarrow> (cycle \<times> EventRecorder \<times> 'm) option \<Rightarrow> bool" where
  "answers good c x \<longleftrightarrow> (\<exists>resp er m. x = Some (resp, er, m) \<and> c \<le> resp \<and> good m
     \<and> (hasRecord er \<longrightarrow> endEvent (er_tr er) \<noteq> None \<and> c \<le> reqCycle (er_tr er) \<and> reqCycle (er_tr er) \<le> tr_respCycle (er_tr er)
          \<and> tr_respCycle (er_tr er) \<le> resp))"

lemma cr_record_pops:
  "cr_record c r = Some (r', cs) \<Longrightarrow> rec_state r' = rec_state r \<and> \<not> hasRecord (eventRecorder r')"
  by (auto simp: cr_record_def recordAccess_def popRecord_def hasRecord_def tr_isValid_def tr_clear_def Let_def bind_eq_Some_conv split: if_splits)

lemma tc_access_ok:
  assumes rd: "tc_ready len y c" and ans: "answers good (tc_curCycle c) (f (tc_curCycle c) (eventRecorder (tc_rec c), m))"
  shows "\<exists>c' cs' m'. tc_access f (c, cs, m) = Some (c', cs @ cs', m') \<and> good m' \<and> tc_curCycle c \<le> tc_curCycle c' \<and> tc_instrs c' = tc_instrs c
    \<and> tc_phaseEndCycle c' = tc_phaseEndCycle c \<and> tc_ready len (tc_after y c' cs') c'"
proof -
  from ans obtain resp er m1 where
    f: "f (tc_curCycle c) (eventRecorder (tc_rec c), m) = Some (resp, er, m1)" "tc_curCycle c \<le> resp" "good m1" and
    tr: "hasRecord er \<Longrightarrow> endEvent (er_tr er) \<noteq> None \<and> tc_curCycle c \<le> reqCycle (er_tr er) \<and> reqCycle (er_tr er) \<le> tr_respCycle (er_tr er)
      \<and> tr_respCycle (er_tr er) \<le> resp" by (auto simp: answers_def)
  from rd have y: "rec_reachable len y" "sy_rec y = tc_rec c" "sy_cur y = tc_curCycle c" "rec_state (sy_rec y) = REC_RUNNING" by (simp_all add: tc_ready_def)
  have "cr_record (sy_cur y) ((sy_rec y)\<lparr>eventRecorder := er\<rparr>) \<noteq> None"
    using tr y(3) by (intro cr_record_ok [OF rec_reachable_inv [OF y(1)] y(4)]) (simp add: hasRecord_def tr_isValid_def)
  then obtain r' cs' where r': "cr_record (sy_cur y) ((sy_rec y)\<lparr>eventRecorder := er\<rparr>) = Some (r', cs')" by auto
  have "tr_isValid (er_tr er) \<Longrightarrow> sy_cur y \<le> reqCycle (er_tr er) \<and> reqCycle (er_tr er) \<le> tr_respCycle (er_tr er) \<and> tr_respCycle (er_tr er) \<le> resp"
    using tr y(3) by (simp add: hasRecord_def)
  from rec_reachable.step [OF y(1) rec_step.access [OF y(4) _ this _ refl r']] f(2) y(3) have
    "rec_reachable len (y\<lparr>sy_rec := r', sy_cur := resp, sy_pend := sy_pend y @ core_events cs'\<rparr>)" by simp
  then have "tc_ready len (tc_after y (c\<lparr>tc_curCycle := resp, tc_rec := r'\<rparr>) cs') (c\<lparr>tc_curCycle := resp, tc_rec := r'\<rparr>)"
    using cr_record_pops [OF r'] y(4) by (simp add: tc_ready_def tc_after_def)
  moreover have "tc_access f (c, cs, m) = Some (c\<lparr>tc_curCycle := resp, tc_rec := r'\<rparr>, cs @ cs', m1)" using f(1) r' y by (simp add: tc_access_def Let_def)
  ultimately show ?thesis using f by (intro exI [of _ "c\<lparr>tc_curCycle := resp, tc_rec := r'\<rparr>"] exI [of _ cs'] exI [of _ m1]) simp
qed

text \<open>The contract of the memory of a recording core.\<close>

locale timing_memory =
  fixes z :: "(EventRecorder \<times> 'm) OOOEnv" and good :: "'m \<Rightarrow> bool"
  assumes load_recorded: "good m \<Longrightarrow> \<not> hasRecord er \<Longrightarrow> answers good c (l1d_load z a c (er, m))"
    and store_recorded: "good m \<Longrightarrow> \<not> hasRecord er \<Longrightarrow> answers good c (l1d_store z a c (er, m))"
    and fetch_recorded: "good m \<Longrightarrow> \<not> hasRecord er \<Longrightarrow> answers good c (l1i_load z a c (er, m))"
begin

lemma tc_fetch_ok:
  assumes "good m" "tc_ready len y c" "z_lineBits z < 32" "unat e + lineSize z \<le> 2 ^ 64" "unat e \<le> unat a + n"
  shows "\<exists>c' cs' m'. tc_fetch z a e (c, cs, m) = Some (c', cs @ cs', m') \<and> good m' \<and> tc_curCycle c \<le> tc_curCycle c' \<and> tc_instrs c' = tc_instrs c
    \<and> tc_phaseEndCycle c' = tc_phaseEndCycle c \<and> tc_ready len (tc_after y c' cs') c'"
  using assms
proof (induction n arbitrary: a y c cs m)
  case (Suc n)
  show ?case
  proof (cases "a < e")
    case False
    then show ?thesis using Suc.prems by (intro exI [of _ c] exI [of _ "[]"] exI [of _ m]) (simp add: tc_fetch.simps tc_after_none)
  next
    case True
    have le: "unat e \<le> unat (a + of_nat (lineSize z)) + n" using next_line [OF True Suc.prems(3,4)] Suc.prems(5) by linarith
    have "\<not> hasRecord (eventRecorder (tc_rec c))" using Suc.prems(2) by (simp add: tc_ready_def)
    from tc_access_ok [OF Suc.prems(2), of good "l1i_load z a" m cs, OF fetch_recorded [OF Suc.prems(1) this]] obtain c1 cs1 m1 where
      c1: "tc_access (l1i_load z a) (c, cs, m) = Some (c1, cs @ cs1, m1)" "good m1" "tc_curCycle c \<le> tc_curCycle c1" "tc_instrs c1 = tc_instrs c"
        "tc_phaseEndCycle c1 = tc_phaseEndCycle c" "tc_ready len (tc_after y c1 cs1) c1" by blast
    from Suc.IH [OF c1(2,6) Suc.prems(3,4) le, of "cs @ cs1"] obtain c2 cs2 m2 where
      c2: "tc_fetch z (a + of_nat (lineSize z)) e (c1, cs @ cs1, m1) = Some (c2, (cs @ cs1) @ cs2, m2)" "good m2" "tc_curCycle c1 \<le> tc_curCycle c2"
        "tc_instrs c2 = tc_instrs c1" "tc_phaseEndCycle c2 = tc_phaseEndCycle c1" "tc_ready len (tc_after y c2 (cs1 @ cs2)) c2" by auto
    with True c1 show ?thesis by (intro exI [of _ c2] exI [of _ "cs1 @ cs2"] exI [of _ m2]) (simp add: tc_fetch.simps [of z a])
  qed
next
  case 0
  then have "\<not> a < e" by (simp add: word_less_nat_alt)
  then show ?case using 0 by (intro exI [of _ c] exI [of _ "[]"] exI [of _ m]) (simp add: tc_fetch.simps tc_after_none)
qed

lemma bblAndRecord_ok:
  assumes "good m" "tc_ready len y c" "z_lineBits z < 32" "unat a + unat (bi_bytes bi) + lineSize z \<le> 2 ^ 64"
  shows "\<exists>c' cs' m'. bblAndRecord z a bi (c, cs, m) = Some (c', cs @ cs', m') \<and> good m' \<and> tc_curCycle c + bi_instrs bi \<le> tc_curCycle c'
    \<and> tc_instrs c' = tc_instrs c + bi_instrs bi \<and> tc_phaseEndCycle c' = tc_phaseEndCycle c \<and> tc_ready len (tc_after y c' cs') c'"
proof -
  let ?c = "c\<lparr>tc_instrs := tc_instrs c + bi_instrs bi, tc_curCycle := tc_curCycle c + bi_instrs bi\<rparr>"
  have y: "rec_reachable len y" "rec_state (sy_rec y) = REC_RUNNING" "sy_cur y \<le> tc_curCycle ?c" using assms(2) by (simp_all add: tc_ready_def)
  have "tc_ready len (tc_after y ?c []) ?c"
    using rec_reachable.step [OF y(1) rec_step.run [OF y(2,3)]] assms(2) by (simp add: tc_ready_def tc_after_none)
  moreover have "unat (a + ucast (bi_bytes bi)) + lineSize z \<le> 2 ^ 64" "unat (a + ucast (bi_bytes bi)) \<le> unat a + unat (bi_bytes bi)"
    using assms(4) by (simp_all add: block_end [OF assms(4)])
  ultimately have "\<exists>c' cs' m'. tc_fetch z a (a + ucast (bi_bytes bi)) (?c, cs, m) = Some (c', cs @ cs', m') \<and> good m' \<and> tc_curCycle ?c \<le> tc_curCycle c'
    \<and> tc_instrs c' = tc_instrs ?c \<and> tc_phaseEndCycle c' = tc_phaseEndCycle ?c \<and> tc_ready len (tc_after (tc_after y ?c []) c' cs') c'"
    by (rule tc_fetch_ok [OF assms(1) _ assms(3)])
  then obtain c' cs' m' where "tc_fetch z a (a + ucast (bi_bytes bi)) (?c, cs, m) = Some (c', cs @ cs', m')" "good m'" "tc_curCycle ?c \<le> tc_curCycle c'"
    "tc_instrs c' = tc_instrs ?c" "tc_phaseEndCycle c' = tc_phaseEndCycle ?c" "tc_ready len (tc_after (tc_after y ?c []) c' cs') c'" by blast
  then show ?thesis by (intro exI [of _ c'] exI [of _ cs'] exI [of _ m']) (simp add: bblAndRecord_def)
qed

lemma data_access_ok:
  assumes "good m" "tc_ready len y c" "f \<in> {loadAndRecord z a, storeAndRecord z a}"
  shows "\<exists>c' cs' m'. f (c, cs, m) = Some (c', cs @ cs', m') \<and> good m' \<and> tc_curCycle c \<le> tc_curCycle c' \<and> tc_ready len (tc_after y c' cs') c'"
proof -
  have "\<not> hasRecord (eventRecorder (tc_rec c))" using assms(2) by (simp add: tc_ready_def)
  note ans = load_recorded [OF assms(1) this, of "tc_curCycle c" a] store_recorded [OF assms(1) this, of "tc_curCycle c" a]
  from tc_access_ok [OF assms(2), of good "l1d_load z a" m cs] tc_access_ok [OF assms(2), of good "l1d_store z a" m cs] ans assms(3) show ?thesis
    unfolding loadAndRecord_def storeAndRecord_def by auto
qed

end

section \<open>Filter caches as the memory of a timing core\<close>

text \<open>The two filter caches over a memory that leaves records with the recorder of the core.\<close>

type_synonym 'w tl1 = "FilterCache \<times> FilterCache \<times> 'w"

definition tc_l1i :: "(addr \<Rightarrow> cycle \<Rightarrow> FilterCache \<times> EventRecorder \<times> 'w \<Rightarrow> (cycle \<times> FilterCache \<times> EventRecorder \<times> 'w) option) \<Rightarrow> addr \<Rightarrow> cycle
    \<Rightarrow> EventRecorder \<times> 'w tl1 \<Rightarrow> (cycle \<times> EventRecorder \<times> 'w tl1) option" where
  "tc_l1i f a c = (\<lambda>(er, i, d, w). map_option (\<lambda>(resp, i', er', w'). (resp, er', i', d, w')) (f a c (i, er, w)))"

definition tc_l1d :: "(addr \<Rightarrow> cycle \<Rightarrow> FilterCache \<times> EventRecorder \<times> 'w \<Rightarrow> (cycle \<times> FilterCache \<times> EventRecorder \<times> 'w) option) \<Rightarrow> addr \<Rightarrow> cycle
    \<Rightarrow> EventRecorder \<times> 'w tl1 \<Rightarrow> (cycle \<times> EventRecorder \<times> 'w tl1) option" where
  "tc_l1d f a c = (\<lambda>(er, i, d, w). map_option (\<lambda>(resp, d', er', w'). (resp, er', i, d', w')) (f a c (d, er, w)))"

definition timing_env :: "(MemReq \<Rightarrow> EventRecorder \<times> 'w \<Rightarrow> (cycle \<times> EventRecorder \<times> 'w) option) \<Rightarrow> ftm_env \<Rightarrow> (EventRecorder \<times> 'w tl1) OOOEnv
    \<Rightarrow> (EventRecorder \<times> 'w tl1) OOOEnv" where
  "timing_env acc ze z = z\<lparr>l1d_load := tc_l1d (fc_load acc ze), l1d_store := tc_l1d (fc_store acc ze), l1i_load := tc_l1i (fc_load acc ze),
     l1_contextSwitch := (\<lambda>(er, i, d, w). (er, fc_contextSwitch i, fc_contextSwitch d, w))\<rparr>"

text \<open>A memory that answers the requests of a filter cache, each with at most one record of its own.\<close>

locale recording_memory =
  fixes acc :: "MemReq \<Rightarrow> EventRecorder \<times> 'w \<Rightarrow> (cycle \<times> EventRecorder \<times> 'w) option" and ze :: ftm_env and ok :: "'w \<Rightarrow> bool"
  assumes acc_recorded: "ok w \<Longrightarrow> \<not> hasRecord er \<Longrightarrow> r_type req \<in> {GETS, GETX} \<Longrightarrow> answers ok (r_cycle req) (acc req (er, w))"
    and translates: "\<exists>x. fc_translate ze v f = Some x"
begin

lemma replace_recorded:
  assumes "ok w" "\<not> hasRecord er"
  shows "\<exists>resp f' er' w'. fc_replace acc ze v idx isLoad c (f, er, w) = Some (resp, f', er', w') \<and> answers ok c (Some (resp, er', w'))"
proof -
  obtain p perm rt f1 where t: "fc_translate ze v f = Some (p, perm, rt, f1)" using translates [of v f] by auto
  obtain fl f2 where fl: "fc_flags ze perm rt f1 = (fl, f2)" by (cases "fc_flags ze perm rt f1")
  let ?q = "\<lparr>r_lineAddr = p, r_type = (if isLoad then GETS else GETX), r_childId = 0, r_state = LocalCell 0,
    r_cycle = c, r_initialState = I, r_srcId = fc_srcId f2, r_flags = fl\<rparr>"
  from acc_recorded [OF assms, of ?q] have ans: "answers ok c (acc ?q (er, w))" by simp
  then obtain resp er' w' where "acc ?q (er, w) = Some (resp, er', w')" unfolding answers_def by blast
  with t fl ans show ?thesis by (simp add: fc_replace_def Let_def)
qed

lemma load_fc: "ok w \<Longrightarrow> \<not> hasRecord er \<Longrightarrow> \<exists>resp f' er' w'. fc_load acc ze a c (f, er, w) = Some (resp, f', er', w') \<and> answers ok c (Some (resp, er', w'))"
  unfolding fc_load_def Let_def by (rule replace_recorded)

lemma store_fc: "ok w \<Longrightarrow> \<not> hasRecord er \<Longrightarrow> \<exists>resp f' er' w'. fc_store acc ze a c (f, er, w) = Some (resp, f', er', w') \<and> answers ok c (Some (resp, er', w'))"
  unfolding fc_store_def Let_def by (rule replace_recorded)

end

lemma answers_lift: "answers ok c (Some (resp, er, w)) \<Longrightarrow> answers (\<lambda>(i, d, w). ok w) c (Some (resp, er, i, d, w))"
  by (simp add: answers_def)

sublocale recording_memory \<subseteq> l1: timing_memory "timing_env acc ze z" "\<lambda>(i, d, w). ok w" for z
proof (unfold_locales, goal_cases)
  case (1 m er c a)
  then obtain i d w where m: "m = (i, d, w)" "ok w" by (cases m) auto
  from load_fc [OF m(2) 1(2), of a c d] m(1) show ?case by (auto simp: timing_env_def tc_l1d_def dest: answers_lift)
next
  case (2 m er c a)
  then obtain i d w where m: "m = (i, d, w)" "ok w" by (cases m) auto
  from store_fc [OF m(2) 2(2), of a c d] m(1) show ?case by (auto simp: timing_env_def tc_l1d_def dest: answers_lift)
next
  case (3 m er c a)
  then obtain i d w where m: "m = (i, d, w)" "ok w" by (cases m) auto
  from load_fc [OF m(2) 3(2), of a c i] m(1) show ?case by (auto simp: timing_env_def tc_l1i_def dest: answers_lift)
qed

subsection \<open>Over the weave-phase memory\<close>

text \<open>The recorder of the source is that of the core.\<close>

definition weave_acc :: "WeaveSimpleMemory \<Rightarrow> MemReq \<Rightarrow> EventRecorder \<times> WeaveMemAccEvent list \<Rightarrow> (cycle \<times> EventRecorder \<times> WeaveMemAccEvent list) option" where
  "weave_acc m req = (\<lambda>(er, evs). do {
     (resp, st, er', evs') \<leftarrow> WeaveSimpleMemory_access m req (Some er, evs);
     er1 \<leftarrow> er';
     Some (resp, er1, evs') })"

lemma weave_acc_answers:
  assumes "WeaveSimpleMemory_new latency zll dmn = Some m" "0 < latency" "latency < 2 ^ 32" "\<not> hasRecord er" "r_type req \<in> {GETS, GETX}"
  shows "answers (\<lambda>w. True) (r_cycle req) (weave_acc m req (er, evs))"
proof -
  from assms(5) have "r_type req \<noteq> PUTS" by auto
  from WeaveSimple_answers [OF assms(1-3) this assms(4), of evs 0] show ?thesis by (auto simp: weave_acc_def answers_def)
qed

lemma weave_recording:
  "WeaveSimpleMemory_new latency zll dmn = Some m \<Longrightarrow> 0 < latency \<Longrightarrow> latency < 2 ^ 32 \<Longrightarrow>
    recording_memory (weave_acc m) (ze\<lparr>noSharing := True\<rparr>) (\<lambda>w. True)"
  by unfold_locales (erule (4) weave_acc_answers, rule unshared_translates)

context recording_memory begin

lemma timing_core_ok:
  assumes "ok w" "tc_ready len y c"
  shows "\<exists>c' cs' m'. loadAndRecord (timing_env acc ze z) a (c, cs, i, d, w) = Some (c', cs @ cs', m') \<and> tc_curCycle c \<le> tc_curCycle c' \<and> tc_ready len (tc_after y c' cs') c'"
    "\<exists>c' cs' m'. storeAndRecord (timing_env acc ze z) a (c, cs, i, d, w) = Some (c', cs @ cs', m') \<and> tc_curCycle c \<le> tc_curCycle c' \<and> tc_ready len (tc_after y c' cs') c'"
    "z_lineBits z < 32 \<Longrightarrow> unat a + unat (bi_bytes bi) + 2 ^ z_lineBits z \<le> 2 ^ 64 \<Longrightarrow>
      \<exists>c' cs' m'. bblAndRecord (timing_env acc ze z) a bi (c, cs, i, d, w) = Some (c', cs @ cs', m') \<and> tc_curCycle c + bi_instrs bi \<le> tc_curCycle c'
        \<and> tc_instrs c' = tc_instrs c + bi_instrs bi \<and> tc_ready len (tc_after y c' cs') c'"
proof -
  have w: "case (i, d, w) of (i, d, w) \<Rightarrow> ok w" using assms(1) by simp
  note acs = l1.data_access_ok [where z = z and m = "(i, d, w)" and cs = cs and a = a, OF w assms(2)]
  show "\<exists>c' cs' m'. loadAndRecord (timing_env acc ze z) a (c, cs, i, d, w) = Some (c', cs @ cs', m') \<and> tc_curCycle c \<le> tc_curCycle c' \<and> tc_ready len (tc_after y c' cs') c'"
    using acs [of "loadAndRecord (timing_env acc ze z) a"] by blast
  show "\<exists>c' cs' m'. storeAndRecord (timing_env acc ze z) a (c, cs, i, d, w) = Some (c', cs @ cs', m') \<and> tc_curCycle c \<le> tc_curCycle c' \<and> tc_ready len (tc_after y c' cs') c'"
    using acs [of "storeAndRecord (timing_env acc ze z) a"] by blast
  assume "z_lineBits z < 32" "unat a + unat (bi_bytes bi) + 2 ^ z_lineBits z \<le> 2 ^ 64"
  then have "z_lineBits (timing_env acc ze z) < 32" "unat a + unat (bi_bytes bi) + lineSize (timing_env acc ze z) \<le> 2 ^ 64"
    by (simp_all add: lineSize_def timing_env_def)
  from l1.bblAndRecord_ok [where z = z and m = "(i, d, w)" and cs = cs, OF w assms(2) this] show
    "\<exists>c' cs' m'. bblAndRecord (timing_env acc ze z) a bi (c, cs, i, d, w) = Some (c', cs @ cs', m') \<and> tc_curCycle c + bi_instrs bi \<le> tc_curCycle c'
      \<and> tc_instrs c' = tc_instrs c + bi_instrs bi \<and> tc_ready len (tc_after y c' cs') c'" by blast
qed

end

text \<open>A memory of 120 cycles, of which 80 are its zero-load latency.\<close>

definition weave_mem :: WeaveSimpleMemory where
  "weave_mem = \<lparr>wm_latency = 120, wm_zeroLoadLatency = 80, wm_domain = 0, wm_preDelay = 40, wm_postDelay = 40\<rparr>"

lemma weave_mem_new: "WeaveSimpleMemory_new 120 80 0 = Some weave_mem"
  by (simp add: WeaveSimpleMemory_new_def weave_mem_def Let_def)

interpretation wsm: recording_memory "weave_acc weave_mem" "ze\<lparr>noSharing := True\<rparr>" "\<lambda>w. True" for ze
  by (rule weave_recording [OF weave_mem_new]) simp_all

abbreviation weave_env :: "WeaveSimpleMemory \<Rightarrow> ftm_env \<Rightarrow> (EventRecorder \<times> WeaveMemAccEvent list tl1) OOOEnv
    \<Rightarrow> (EventRecorder \<times> WeaveMemAccEvent list tl1) OOOEnv" where
  "weave_env m ze z \<equiv> timing_env (weave_acc m) (ze\<lparr>noSharing := True\<rparr>) z"


text \<open>A core that has joined in the first phase.\<close>

definition joined_core :: TimingCore where
  "joined_core = (case tc_join 0 1000 (TimingCore_new 0 raw_recorder 0) of Some (c, cs) \<Rightarrow> c | None \<Rightarrow> TimingCore_new 0 raw_recorder 0)"

lemma joined_core_ready: "\<exists>y. tc_ready 1000 y joined_core"
proof -
  obtain cur r cs where j: "notifyJoin (sy_glob start_sys) (sy_cur start_sys) (sy_rec start_sys) = Some (cur, r, cs)" "rec_state r = REC_RUNNING" "\<not> hasRecord (eventRecorder r)"
    by (auto simp: start_sys_def CoreRecorder_new_def notifyJoin_def raw_recorder_def Let_def hasRecord_def tr_isValid_def setGapCycles_def setStartSlack_def)
  have "rec_state (sy_rec start_sys) \<noteq> REC_RUNNING" by (simp add: start_sys_def CoreRecorder_new_def)
  from rec_reachable.step [OF start_reachable rec_step.join [OF this j(1)], of 1000] obtain y where
    "rec_reachable 1000 y" "sy_rec y = r" "sy_cur y = cur" by force
  moreover have "tc_rec joined_core = r" "tc_curCycle joined_core = cur"
    using j(1) by (simp_all add: joined_core_def tc_join_def TimingCore_new_def start_sys_def)
  ultimately show ?thesis using j by (auto simp: tc_ready_def)
qed


end
