(* ===== verification/Spec2Isabelle.thy ===== *)
theory Spec2Isabelle
  imports Protocol LastLevel Refresh PrioQueue FilterCache ZArray Contention SchedSteps FutexMatch InOrderRun
begin

text \<open>
  A verification development of the FTM simulator, a fork of zsim that models first-time misses as a defence against cache side channels. The sources
  are under \<^verbatim>\<open>src/src/\<close>.

  \<^bold>\<open>The program.\<close> The instrumentation of a process reports its loads, stores, branches and basic blocks to a simulated core. The core asks its two
  filter caches (first level, instructions and data), which translate the virtual line to the line the hierarchy sees and pass the request to
  a cache. A cache looks the line up in a tag array, evicts a victim chosen by a replacement policy, and lets its coherence controller invalidate
  children and ask the parent, up to a memory controller; the answer carries a cycle. At the last level the defence delays the first access of a
  process to a line that others brought in. Threads are put on cores by a scheduler, in phases that end at a barrier; after each phase the
  weave phase replays the recorded events of the memory system in the order of their cycles.

  \<^bold>\<open>Theories, with the files they model.\<close>
  \<^item> \<open>Prelude\<close>: names of types, the abort discipline (a failed assertion or a panic is \<open>None\<close>) and shared lemmas. \<open>MemTypes\<close>:
    \<^verbatim>\<open>memory_hierarchy.h/.cpp\<close>, \<^verbatim>\<open>bithacks.h\<close>, the requests, states and integer helpers. \<open>MTRand\<close>: \<^verbatim>\<open>mtrand.h\<close>. \<open>Hash\<close>: \<^verbatim>\<open>hash.h/.cpp\<close>.
  \<^item> \<open>ReplPolicies\<close>: \<^verbatim>\<open>repl_policies.h\<close>; a policy is a state with update, replaced and rank, the contract is the locale \<open>repl_policy\<close>.
  \<^item> \<open>CacheArrays\<close>, \<open>ZArray\<close>: \<^verbatim>\<open>cache_arrays.h/.cpp\<close>, the set-associative, CEASER and zcache arrays; the contract is the locale \<open>cache_array\<close>: a lookup
    after an insertion finds the new line and the others but the victim.
  \<^item> \<open>Coherence\<close>, \<open>Directory\<close>, \<open>MemCtrls\<close>, \<open>Protocol\<close>: \<^verbatim>\<open>coherence_ctrls.h/.cpp\<close> and \<^verbatim>\<open>mem_ctrls.h/.cpp\<close>. The parent of a cache is the locale
    \<open>mem_object\<close>, interpreted by both memories and by a shared cache seen from its children.
  \<^item> \<open>CacheOps\<close>, \<open>LastLevel\<close>, \<open>Refresh\<close>: \<^verbatim>\<open>cache.h/.cpp\<close>, the access sequence with the FTM delay and counters, and the re-hashing of CEASER.
  \<^item> \<open>ProcMaps\<close>: the functions of \<^verbatim>\<open>zsim.cpp\<close> that read the memory maps and keep the table of shared libraries. \<open>FilterCache\<close>: \<^verbatim>\<open>filter_cache.h\<close>.
  \<^item> \<open>OOOWindow\<close>, \<open>OOOQueues\<close>, \<open>OOOCore\<close>, \<open>OOORun\<close>, \<open>OOOFilter\<close>: \<^verbatim>\<open>ooo_core.h/.cpp\<close>, the out-of-order core. What a core needs of its memory is the locale
    \<open>core_memory\<close>, which the filter caches over an answering hierarchy (\<open>filter_memory\<close>) give.
  \<^item> \<open>CoreRecorder\<close>: \<^verbatim>\<open>core_recorder.h/.cpp\<close>; its calls on the event graph are a list of commands. \<open>WeaveMem\<close>: \<^verbatim>\<open>weave_md1_mem.h\<close>. \<open>InOrderCores\<close>:
    \<^verbatim>\<open>null_core\<close>, \<^verbatim>\<open>simple_core\<close> and \<^verbatim>\<open>timing_core\<close> (\<^verbatim>\<open>.h/.cpp\<close>). \<open>InOrderRun\<close>: these cores over filter caches and memories; \<open>switching_memory\<close> extends
    \<open>core_memory\<close>, and a recording core needs \<open>timing_memory\<close>, which filter caches over a \<open>recording_memory\<close> give.
  \<^item> \<open>PrioQueue\<close>: \<^verbatim>\<open>prio_queue.h\<close>, with the locale \<open>prio_queue\<close>. \<open>Contention\<close>: \<^verbatim>\<open>timing_event.h/.cpp\<close>, \<^verbatim>\<open>contention_sim.h/.cpp\<close> and the records of
    \<^verbatim>\<open>event_recorder.h\<close>.
  \<^item> \<open>InList\<close>: \<^verbatim>\<open>intrusive_list.h\<close>, with the locale \<open>linked_lists\<close>. \<open>Barrier\<close>: \<^verbatim>\<open>barrier.h\<close>. \<open>Scheduler\<close>, \<open>SchedSteps\<close>, \<open>FutexMatch\<close>: \<^verbatim>\<open>scheduler.h/.cpp\<close>.

  \<^bold>\<open>How code becomes definitions.\<close> A class is a record, a method a function that takes and returns it; a method that can assert returns an option.
  Cycles, identifiers and counters are natural numbers, with the narrowing written out where the code stores them in fewer bits; addresses, flags and
  hash values are words. Arrays are lists. Calls to objects that are modelled elsewhere are parameters, usually a record of functions on
  the state of that object; their behaviour is assumed in a locale and proved for the model's own objects by an interpretation. A handler runs
  as one step: the locks of the code make it so, and are not modelled. Random choices use the model of the generator.

  \<^bold>\<open>What is shown.\<close>
  \<^item> Coherence: at most one child can write a line, and then no other child holds it; a request on a consistent hierarchy never trips an assertion; the
    directory counts its sharers exactly, an invalidation reaches all of them, an exclusive request ends with one owner, an eviction keeps the rest.
  \<^item> The defence: a process pays the delay for a line once, exactly the owners that are new to the line are charged, private lines of different
    processes never coincide in the hierarchy while lines of a shared library do, the libraries have disjoint ranges, and an invalidated line leaves the filter.
  \<^item> Arrays and policies: insertion and lookup, isolation of partitions, consistency of every reachable CEASER array, relocation along a zcache walk and
    its end, the victim of LRU.
  \<^item> The core: the instruction window is a reference that gives every operation the first cycle with a free port; the reorder buffer retires in order
    and within one of its width; the branch predictor keeps histories and saturating counters; a block is simulated to its end if its accesses were
    recorded, and never if they were not; fences order accesses.
  \<^item> The in-order cores: in every reachable state the recorder of a core takes joins, leaves, accesses and ends of phases without a failed assertion, and contention
    never moves the clock back; a timing core over filter caches and a weave-phase memory feeds it records that it accepts; the event of such a
    record takes exactly the latency of the memory; a simple core counts its cycles soundly and reaches the end of the phase.
  \<^item> Events: the calendar queue is a priority queue and sorts; the weave phase runs events in time order and ends.
  \<^item> Scheduling: the queues, contexts and sleepers of every reachable state are consistent, a thread runs where its mask allows, a join returns, the
    barrier never ends a phase early, the allowances of futex calls are exact; the linked lists implement sequences.

  \<^bold>\<open>Bounds and termination.\<close> Loops are structural or have a measure. The loops of the window that wait for room, of the instruction fetch, of the phases of
  a core and of the bounded random draw are partial functions, and the lemmas on the window, the fetch loops and the phases of the simple core show that these return. The loop of the watchdog over fake leaves
  has the number of fake leaves as fuel and the one over the run queue the entries left, which each turn uses up. The cycles of the core are assumed
  less than 2^32 ahead of the current one, where the 32-bit distances of the code are exact; the bound grows by a fixed amount per micro-operation.

  \<^bold>\<open>Findings.\<close> Where the code does not do what it says, a lemma states what it does; among them: an LRU score cut to 32 bits, the H3 hash against its
  comment, a thread that leaves the barrier while waiting and cannot rejoin, 256 futex wakes that wrap an allowance, one operation too many per cycle in
  the reorder buffer, port slots that move in time when a drained window jumps, and predicated stores that end the simulation.

  \<^bold>\<open>Not modelled.\<close> The construction of the system from its configuration (a third-party parser) and the callbacks of the Pin framework; the instruction
  decoder (tables over a third-party library); the detailed DRAM models, the timing cache, the partitioning policies (floating-point utilities), the
  prefetcher and the network, which are optional objects; the recorder of the out-of-order core, whose calls are parameters of that core; statistics, process trees, the virtualisation of system calls, traces and tools; allocators, locks and containers. Of modelled parts: the
  SHA-1 hash (third-party), floating-point draws and latency formulas (parameters), events that cross domains, the waiting of threads on the kernel, the
  freeing of memory, and code that the default build leaves out.
\<close>

end
